(* ===== verification/Prelude.thy ===== *)
theory Prelude
  imports Main "HOL-Library.Word" "HOL-Library.Monad_Syntax" "HOL-Library.Multiset"
begin

text \<open>
  Shared vocabulary of the Bloom-OS development: the C integer types as machine words, C strings
  and byte buffers as lists of bytes, little-endian reads, the bytes of a storage medium, and the
  arithmetic facts that move word computations to natural numbers.

  Conventions used by every theory. A C \<open>uintN_t\<close> is a word of that width, so its
  arithmetic wraps exactly as in C; a C \<open>int\<close> is an \<open>int\<close> (the code never relies on
  signed overflow). A C \<open>char\<close> is a byte. A NUL-terminated string is the list of its
  characters without the terminator; \<open>cstr\<close> reads one out of a buffer.
\<close>

unbundle bit_operations_syntax

type_synonym u8 = "8 word"
type_synonym u16 = "16 word"
type_synonym u32 = "32 word"
type_synonym u64 = "64 word"

text \<open>A C string, without its terminating NUL.\<close>
type_synonym cstring = "u8 list"

named_theorems to_nat \<open>equations that read word operations as natural numbers\<close>
named_theorems frame \<open>what an operation leaves untouched\<close>
named_theorems inv_intro \<open>an operation keeps the invariant of its component\<close>

section \<open>Strings and byte buffers\<close>

text \<open>A C string literal.\<close>
definition lit :: "string \<Rightarrow> cstring" where
  "lit s = map of_char s"

text \<open>A C character literal.\<close>
abbreviation chr_code :: "char \<Rightarrow> u8" where
  "chr_code c \<equiv> of_char c"

text \<open>The string that starts at the beginning of a buffer.\<close>
definition cstr :: "u8 list \<Rightarrow> cstring" where
  "cstr bs = takeWhile (\<lambda>b. b \<noteq> 0) bs"

text \<open>A byte of a buffer. Every buffer the code reads was filled completely before; a read
  past the end of the list stands for memory the model does not describe and yields 0.\<close>
definition bget :: "u8 list \<Rightarrow> nat \<Rightarrow> u8" where
  "bget bs i = (if i < length bs then bs ! i else 0)"

definition bsub :: "u8 list \<Rightarrow> nat \<Rightarrow> nat \<Rightarrow> u8 list" where
  "bsub bs off n = map (\<lambda>i. bget bs (off + i)) [0..<n]"

lemma bget_nth [simp]: "i < length bs \<Longrightarrow> bget bs i = bs ! i"
  by (simp add: bget_def)

lemma length_bsub [simp]: "length (bsub bs off n) = n"
  by (simp add: bsub_def)

lemma bget_bsub [simp]: "i < n \<Longrightarrow> bget (bsub bs off n) i = bget bs (off + i)"
  by (simp add: bsub_def)

lemma bsub_take_drop: "off + n \<le> length bs \<Longrightarrow> bsub bs off n = take n (drop off bs)"
  by (rule nth_equalityI) (auto simp: bsub_def)

lemma cstr_no_nul: "0 \<notin> set (cstr bs)"
  by (auto simp: cstr_def dest: set_takeWhileD)

lemma cstr_id: "0 \<notin> set bs \<Longrightarrow> cstr bs = bs"
  by (auto simp: cstr_def takeWhile_eq_all_conv)

lemma length_cstr_le: "length (cstr bs) \<le> length bs"
  by (simp add: cstr_def length_takeWhile_le)

lemma set_cstr_subset: "set (cstr bs) \<subseteq> set bs"
  by (auto simp: cstr_def dest: set_takeWhileD)

text \<open>ASCII lower case, as every \<open>LowerAscii\<close>, \<open>LowerChar\<close> and \<open>UiLower\<close> of the
  source computes it.\<close>
definition lower :: "u8 \<Rightarrow> u8" where
  "lower c = (if c \<ge> chr_code CHR ''A'' \<and> c \<le> chr_code CHR ''Z''
              then c - chr_code CHR ''A'' + chr_code CHR ''a'' else c)"

lemma lower_zero_iff [simp]: "lower c = 0 \<longleftrightarrow> c = 0"
  by (auto simp: lower_def word_le_nat_alt) (unat_arith, auto)

section \<open>Little-endian reads\<close>

definition Le16 :: "u8 list \<Rightarrow> nat \<Rightarrow> u16" where
  "Le16 P off = (ucast (bget P off) OR push_bit 8 (ucast (bget P (off + 1))))"

definition Le32 :: "u8 list \<Rightarrow> nat \<Rightarrow> u32" where
  "Le32 P off = (ucast (bget P off) OR push_bit 8 (ucast (bget P (off + 1)))
     OR push_bit 16 (ucast (bget P (off + 2))) OR push_bit 24 (ucast (bget P (off + 3))))"

definition Le64 :: "u8 list \<Rightarrow> nat \<Rightarrow> u64" where
  "Le64 P off = (ucast (Le32 P off) OR push_bit 32 (ucast (Le32 P (off + 4))))"

lemma Le16_cong: "(\<And>i. i < 2 \<Longrightarrow> bget P (p + i) = bget Q (q + i)) \<Longrightarrow> Le16 P p = Le16 Q q"
proof -
  assume a: "\<And>i. i < 2 \<Longrightarrow> bget P (p + i) = bget Q (q + i)"
  from a [of 0] a [of 1] show ?thesis
    by (simp add: Le16_def)
qed

lemma Le32_cong: "(\<And>i. i < 4 \<Longrightarrow> bget P (p + i) = bget Q (q + i)) \<Longrightarrow> Le32 P p = Le32 Q q"
proof -
  assume a: "\<And>i. i < 4 \<Longrightarrow> bget P (p + i) = bget Q (q + i)"
  from a [of 0] a [of 1] a [of 2] a [of 3] show ?thesis
    by (simp add: Le32_def)
qed

section \<open>The bytes of a medium\<close>

text \<open>A storage medium is a function from byte addresses to bytes; \<open>media_bytes\<close> is a run of it.\<close>
type_synonym medium = "nat \<Rightarrow> u8"

definition media_bytes :: "medium \<Rightarrow> nat \<Rightarrow> nat \<Rightarrow> u8 list" where
  "media_bytes m a n = map m [a..<a + n]"

lemma length_media_bytes [simp]: "length (media_bytes m a n) = n"
  by (simp add: media_bytes_def)

lemma media_bytes_0 [simp]: "media_bytes m a 0 = []"
  by (simp add: media_bytes_def)

lemma nth_media_bytes [simp]: "i < n \<Longrightarrow> media_bytes m a n ! i = m (a + i)"
  by (simp add: media_bytes_def)

lemma bget_media_bytes [simp]: "i < n \<Longrightarrow> bget (media_bytes m a n) i = m (a + i)"
  by (simp add: bget_def)

lemma media_bytes_append:
  "media_bytes m a n @ media_bytes m (a + n) k = media_bytes m a (n + k)"
  by (rule nth_equalityI) (auto simp: nth_append add.assoc)

lemma bsub_media_bytes:
  "off + k \<le> n \<Longrightarrow> bsub (media_bytes m a n) off k = media_bytes m (a + off) k"
  by (rule nth_equalityI) (auto simp: bsub_def add.assoc)

section \<open>Word arithmetic as natural numbers\<close>

lemma unat_add_nowrap [to_nat]:
  "unat a + unat b < 2 ^ LENGTH('a) \<Longrightarrow> unat (a + b :: 'a::len word) = unat a + unat b"
  by (simp add: unat_word_ariths)

lemma unat_mult_nowrap [to_nat]:
  "unat a * unat b < 2 ^ LENGTH('a) \<Longrightarrow> unat (a * b :: 'a::len word) = unat a * unat b"
  by (simp add: unat_word_ariths)

lemma unat_sub_nowrap [to_nat]:
  "b \<le> a \<Longrightarrow> unat (a - b :: 'a::len word) = unat a - unat b"
  by (rule unat_sub)

lemma unat_div_word [to_nat]: "unat (a div b :: 'a::len word) = unat a div unat b"
  by (rule unat_div)

lemma unat_mod_word [to_nat]: "unat (a mod b :: 'a::len word) = unat a mod unat b"
  by (rule unat_mod)

lemma unat_of_nat_small: "n < 2 ^ LENGTH('a) \<Longrightarrow> unat (of_nat n :: 'a::len word) = n"
  by (simp add: unat_of_nat)

lemma unat_min_word [to_nat]: "unat (min a b :: 'a::len word) = min (unat a) (unat b)"
  by (simp add: min_def word_le_nat_alt)

lemma unat_lt_pow: "unat (x :: 'a::len word) < 2 ^ LENGTH('a)"
  by (rule unsigned_less)

lemmas unat_u8_lt = unat_lt_pow [where 'a = 8, simplified]
lemmas unat_u16_lt = unat_lt_pow [where 'a = 16, simplified]
lemmas unat_u32_lt = unat_lt_pow [where 'a = 32, simplified]
lemmas unat_u64_lt = unat_lt_pow [where 'a = 64, simplified]

lemma unat_lt_pow_le:
  "LENGTH('a::len) \<le> n \<Longrightarrow> unat (x :: 'a word) < 2 ^ n"
  by (rule less_le_trans [OF unat_lt_pow]) simp

lemma unat_ucast_le [to_nat]:
  "LENGTH('a::len) \<le> LENGTH('b::len) \<Longrightarrow> unat (ucast (x :: 'a word) :: 'b word) = unat x"
  by (simp add: unsigned_ucast_eq take_bit_nat_eq_self unat_lt_pow_le)

lemma word_eq_0_iff_unat: "(x :: 'a::len word) = 0 \<longleftrightarrow> unat x = 0"
  by (simp add: unat_eq_zero)

lemma word_neq_0_iff_unat: "(x :: 'a::len word) \<noteq> 0 \<longleftrightarrow> 0 < unat x"
  by (simp add: unat_gt_0)

lemma unat_and_mask: "unat (v AND mask n :: 'a::len word) = unat v mod 2 ^ n"
  by (simp only: take_bit_eq_mask [symmetric] unsigned_take_bit_eq take_bit_nat_def)

lemma mask_numerals:
  "(1 :: 'a::len word) = mask 1" "(3 :: 'a word) = mask 2" "(7 :: 'a word) = mask 3"
  "(15 :: 'a word) = mask 4" "(31 :: 'a word) = mask 5" "(127 :: 'a word) = mask 7"
  "(255 :: 'a word) = mask 8" "(0x0FFFFFFF :: 'a word) = mask 28"
  by (simp_all add: mask_eq_exp_minus_1)

lemma unat_drop_bit [to_nat]: "unat (drop_bit n v :: 'a::len word) = unat v div 2 ^ n"
  by (simp only: unat_drop_bit_eq drop_bit_nat_def)

end
