(* ===== verification/Text.thy ===== *)
theory Text
  imports Prelude
begin

text \<open>
  The string routines that Bloom-OS repeats in almost every file: bounded copy and append, exact and
  case-insensitive comparison, and the decimal and hexadecimal printers. Each loop of the source is a
  recursive function here; the lemmas give its closed form, which is what the component proofs use.
\<close>

section \<open>Copying and appending with a bound\<close>

text \<open>\<open>while (Src[i] && i < n) Dst[i] = Src[i++]\<close>, the body of every bounded copy.\<close>
fun copy_loop :: "cstring \<Rightarrow> nat \<Rightarrow> cstring" where
  "copy_loop [] n = []"
| "copy_loop (c # cs) n = (if n > 0 then c # copy_loop cs (n - 1) else [])"

lemma copy_loop_take [simp]: "copy_loop s n = take n s"
  by (induction s n rule: copy_loop.induct) (auto simp: take_Cons')

text \<open>\<open>while (Src[i] && n + i < Max - 1) Dst[n + i] = Src[i++]\<close>.\<close>
definition append_text :: "cstring \<Rightarrow> cstring \<Rightarrow> nat \<Rightarrow> cstring" where
  "append_text dst src mx = dst @ copy_loop src (mx - 1 - length dst)"

lemma length_append_text:
  "length dst < mx \<Longrightarrow> length (append_text dst src mx) < mx"
  by (auto simp: append_text_def)

lemma append_text_fits:
  "length dst + length src < mx \<Longrightarrow> append_text dst src mx = dst @ src"
  by (simp add: append_text_def)

lemma append_text_take:
  "length dst < mx \<Longrightarrow> append_text dst src mx = take (mx - 1) (dst @ src)"
  by (simp add: append_text_def)

lemma set_append_text: "set (append_text dst src mx) \<subseteq> set dst \<union> set src"
  by (auto simp: append_text_def dest: in_set_takeD)

section \<open>Comparison\<close>

text \<open>\<open>while (*a && *a == *b) a++, b++; return *a == *b\<close>.\<close>
fun str_eq :: "cstring \<Rightarrow> cstring \<Rightarrow> bool" where
  "str_eq [] [] = True"
| "str_eq [] (b # bs) = False"
| "str_eq (a # as) [] = False"
| "str_eq (a # as) (b # bs) = (a = b \<and> str_eq as bs)"

lemma str_eq_iff [simp]: "str_eq a b \<longleftrightarrow> a = b"
  by (induction a b rule: str_eq.induct) auto

text \<open>\<open>while (*A && *B) { if (lower(*A) != lower(*B)) return 0; A++, B++; } return *A == *B\<close>.\<close>
fun names_equal :: "cstring \<Rightarrow> cstring \<Rightarrow> bool" where
  "names_equal [] [] = True"
| "names_equal [] (b # bs) = False"
| "names_equal (a # as) [] = False"
| "names_equal (a # as) (b # bs) = (if lower a \<noteq> lower b then False else names_equal as bs)"

lemma names_equal_iff [simp]: "names_equal a b \<longleftrightarrow> map lower a = map lower b"
  by (induction a b rule: names_equal.induct) auto

text \<open>\<open>while (*a && lower(*a) == lower(*b)) a++, b++; return lower(*a) - lower(*b)\<close>, the
  difference taken on unsigned bytes.\<close>
fun compare_names :: "cstring \<Rightarrow> cstring \<Rightarrow> int" where
  "compare_names [] [] = 0"
| "compare_names [] (b # bs) = - uint (lower b)"
| "compare_names (a # as) [] = uint (lower a)"
| "compare_names (a # as) (b # bs) =
     (if a \<noteq> 0 \<and> lower a = lower b then compare_names as bs else uint (lower a) - uint (lower b))"

section \<open>Decimal numbers\<close>

text \<open>\<open>(char)('0' + n)\<close> for a digit \<open>n\<close>.\<close>
definition digit_char :: "u64 \<Rightarrow> u8" where
  "digit_char n = chr_code CHR ''0'' + ucast n"

text \<open>\<open>while (Value > 0) { Digits[--Pos] = '0' + Value % 10; Value /= 10; }\<close>: the digits are
  written from the last one backwards, so each goes in front of the ones already there.\<close>
function dec_loop :: "u64 \<Rightarrow> cstring \<Rightarrow> cstring" where
  "dec_loop v acc =
     (if v > 0 then dec_loop (v div 10) (digit_char (v mod 10) # acc) else acc)"
  by pat_completeness auto
termination
proof (relation "measure (\<lambda>(v, acc). unat v)", goal_cases)
  case (2 v acc)
  then have "0 < unat v" by (simp add: word_neq_0_iff_unat word_gt_0)
  then show ?case by (simp add: unat_div_word)
qed simp

declare dec_loop.simps [simp del]

definition dec_text :: "u64 \<Rightarrow> cstring" where
  "dec_text v = (if v = 0 then [chr_code CHR ''0''] else dec_loop v [])"

text \<open>What a decimal string means.\<close>
definition dec_value :: "cstring \<Rightarrow> nat" where
  "dec_value s = foldl (\<lambda>n c. 10 * n + (unat c - 48)) 0 s"

definition is_digit :: "u8 \<Rightarrow> bool" where
  "is_digit c \<longleftrightarrow> 48 \<le> unat c \<and> unat c \<le> 57"

lemma unat_digit_char: "n < 10 \<Longrightarrow> unat (digit_char n) = 48 + unat n"
proof -
  assume "n < 10"
  then have lt: "unat n < 10" by (simp add: word_less_nat_alt)
  then have "unat (ucast n :: u8) = unat n"
    by (simp add: unsigned_ucast_eq take_bit_nat_eq_self)
  with lt show ?thesis
    by (simp add: digit_char_def unat_word_ariths)
qed

lemma dec_digit: "unat (digit_char (v mod 10)) = 48 + unat v mod 10"
proof -
  have "v mod 10 < 10" by (simp add: word_less_nat_alt unat_mod_word)
  then show ?thesis by (simp add: unat_digit_char unat_mod_word)
qed

lemma dec_loop_0 [simp]: "dec_loop 0 acc = acc"
  by (subst dec_loop.simps) simp

lemma dec_loop_pos: "v > 0 \<Longrightarrow> dec_loop v acc = dec_loop (v div 10) (digit_char (v mod 10) # acc)"
  by (subst dec_loop.simps) simp

text \<open>Induction on a word by dividing it by ten.\<close>
lemma word_div10_induct [case_names zero step]:
  fixes v :: u64
  assumes "P 0" and "\<And>v. v > 0 \<Longrightarrow> P (v div 10) \<Longrightarrow> P v"
  shows "P v"
proof (induction "unat v" arbitrary: v rule: less_induct)
  case less
  show ?case
  proof (cases "v = 0")
    case False
    then have "unat (v div 10) < unat v"
      by (simp add: unat_div_word word_neq_0_iff_unat)
    then have "P (v div 10)" by (rule less)
    moreover from False have "v > 0" by (simp add: word_gt_0)
    ultimately show ?thesis by (rule assms(2) [rotated])
  qed (simp add: assms(1))
qed

lemma dec_loop_append: "dec_loop v (xs @ ys) = dec_loop v xs @ ys"
proof (induction v arbitrary: xs rule: word_div10_induct)
  case (step v)
  from step(1) step(2) [of "digit_char (v mod 10) # xs"] show ?case
    by (simp only: dec_loop_pos append_Cons)
qed simp

lemma dec_loop_step: "v > 0 \<Longrightarrow> dec_loop v [] = dec_loop (v div 10) [] @ [digit_char (v mod 10)]"
  by (simp only: dec_loop_pos flip: dec_loop_append) simp

lemma dec_value_snoc: "dec_value (s @ [c]) = 10 * dec_value s + (unat c - 48)"
  by (simp add: dec_value_def)

lemma dec_loop_value: "dec_value (dec_loop v []) = unat v"
proof (induction v rule: word_div10_induct)
  case zero
  show ?case by (simp add: dec_value_def)
next
  case (step v)
  then show ?case
    by (simp add: dec_loop_step dec_value_snoc dec_digit unat_div_word)
qed

lemma dec_loop_digits: "c \<in> set (dec_loop v []) \<Longrightarrow> is_digit c"
proof (induction v arbitrary: c rule: word_div10_induct)
  case (step v)
  have "unat v mod 10 < 10" by simp
  with step show ?case
    by (auto simp: dec_loop_step is_digit_def dec_digit)
qed simp

lemma dec_loop_length: "unat v < 10 ^ n \<Longrightarrow> length (dec_loop v []) \<le> n"
proof (induction v arbitrary: n rule: word_div10_induct)
  case (step v)
  then obtain k where n: "n = Suc k"
    by (cases n) (auto simp: word_gt_0 unat_eq_zero)
  have "unat (v div 10) < 10 ^ k"
    using step.prems n by (simp add: unat_div_word less_mult_imp_div_less mult.commute)
  with step n show ?case by (simp add: dec_loop_step)
qed simp

lemma dec_text_value: "dec_value (dec_text v) = unat v"
  by (simp add: dec_text_def dec_loop_value) (simp add: dec_value_def)

lemma dec_text_digits: "c \<in> set (dec_text v) \<Longrightarrow> is_digit c"
  by (auto simp: dec_text_def is_digit_def dest: dec_loop_digits split: if_splits)

lemma dec_text_nonempty [simp]: "dec_text v \<noteq> []"
  by (auto simp: dec_text_def word_gt_0 dec_loop_step)

text \<open>Every printer reserves 20 characters: enough for any 64-bit value.\<close>
lemma dec_text_length: "length (dec_text v) \<le> 20"
proof -
  have "unat v < 10 ^ 20" using unat_u64_lt [of v] by simp
  then show ?thesis using dec_loop_length [of v 20] by (simp add: dec_text_def)
qed

lemma dec_text_short: "unat v < 10 ^ n \<Longrightarrow> 0 < n \<Longrightarrow> length (dec_text v) \<le> n"
  using dec_loop_length [of v n] by (auto simp: dec_text_def)

lemma dec_text_two: "10 \<le> unat v \<Longrightarrow> unat v < 100 \<Longrightarrow> length (dec_text v) = 2"
proof -
  assume v: "10 \<le> unat v" "unat v < 100"
  then have "v > 0" "v div 10 > 0" by (simp_all add: word_gt_0 word_neq_0_iff_unat unat_div_word)
  then have "2 \<le> length (dec_text v)" by (simp add: dec_text_def word_gt_0 dec_loop_step)
  with dec_text_short [of v 2] v show ?thesis by simp
qed

lemma dec_value_zero: "dec_value (chr_code CHR ''0'' # s) = dec_value s"
  by (simp add: dec_value_def)

lemma dec_text_inj: "dec_text v = dec_text w \<Longrightarrow> v = w"
  by (metis dec_text_value word_unat_eq_iff)

section \<open>Hexadecimal numbers\<close>

text \<open>\<open>(char)(Nibble < 10 ? '0' + Nibble : 'a' + Nibble - 10)\<close>.\<close>
definition hex_digit :: "u8 \<Rightarrow> u8" where
  "hex_digit n = (if n < 10 then chr_code CHR ''0'' + n else chr_code CHR ''a'' + n - 10)"

text \<open>\<open>do { Digits[--Pos] = hex(Value & 0xF); Value >>= 4; }
  while ((Value > 0 || (16 - Pos) < MinDigits) && Pos > 0)\<close>.\<close>
fun hex_loop :: "u64 \<Rightarrow> nat \<Rightarrow> int \<Rightarrow> cstring \<Rightarrow> cstring" where
  "hex_loop v 0 mn acc = acc"
| "hex_loop v (Suc pos) mn acc =
     (let acc' = hex_digit (ucast (v AND 0xF)) # acc; v' = drop_bit 4 v
      in if (v' > 0 \<or> 16 - int pos < mn) \<and> pos > 0 then hex_loop v' pos mn acc' else acc')"

definition hex_text :: "u64 \<Rightarrow> int \<Rightarrow> cstring" where
  "hex_text v mn = hex_loop v 16 mn []"

definition hex_digit_value :: "u8 \<Rightarrow> nat" where
  "hex_digit_value c = (if unat c < 58 then unat c - 48 else unat c - 87)"

definition hex_value :: "cstring \<Rightarrow> nat" where
  "hex_value s = foldl (\<lambda>n c. 16 * n + hex_digit_value c) 0 s"

lemma foldl_hex: "foldl (\<lambda>n c. 16 * n + hex_digit_value c) k s = k * 16 ^ length s + hex_value s"
proof (induction s rule: rev_induct)
  case (snoc x xs)
  then show ?case by (simp add: hex_value_def algebra_simps)
qed (simp add: hex_value_def)

lemma hex_value_Cons: "hex_value (c # s) = hex_digit_value c * 16 ^ length s + hex_value s"
  using foldl_hex [of "hex_digit_value c" s] by (simp add: hex_value_def)

lemma hex_digit_value_digit:
  assumes "n < 16"
  shows "hex_digit_value (hex_digit n) = unat n"
proof -
  from assms have n: "unat n < 16" by (simp add: word_less_nat_alt)
  show ?thesis
  proof (cases "n < 10")
    case True
    then have lt: "unat n < 10" by (simp add: word_less_nat_alt)
    have "unat (48 + n) = 48 + unat n"
      by (subst unat_add_nowrap) (use n in simp_all)
    with True lt show ?thesis
      by (simp only: hex_digit_def hex_digit_value_def if_True) simp
  next
    case False
    then have le: "10 \<le> unat n" by (simp add: word_less_nat_alt)
    have "unat (87 + n) = 87 + unat n"
      by (subst unat_add_nowrap) (use n in simp_all)
    moreover have "hex_digit n = 87 + n" using False by (simp add: hex_digit_def)
    ultimately show ?thesis using le
      by (simp only: hex_digit_value_def) simp
  qed
qed

lemma unat_nibble: "unat (ucast ((v :: u64) AND 0xF) :: u8) = unat v mod 16"
proof -
  have "unat v mod 16 < 256" by (rule less_trans [where y = 16]) simp_all
  then show ?thesis
    by (simp add: unsigned_ucast_eq mask_numerals(4) unat_and_mask take_bit_nat_eq_self)
qed

lemma hex_digit_value_nibble:
  "hex_digit_value (hex_digit (ucast ((v :: u64) AND 0xF))) = unat v mod 16"
  by (subst hex_digit_value_digit) (simp_all add: word_less_nat_alt unat_nibble)

text \<open>The printed digits denote the number, whatever the minimum width asked for.\<close>
lemma hex_loop_value:
  "unat v < 16 ^ pos \<Longrightarrow> 0 < pos \<Longrightarrow>
   hex_value (hex_loop v pos mn acc) = unat v * 16 ^ length acc + hex_value acc"
proof (induction v pos mn acc rule: hex_loop.induct)
  case (2 v pos mn acc)
  let ?acc = "hex_digit (ucast (v AND 0xF)) # acc"
  let ?more = "(drop_bit 4 v > 0 \<or> 16 - int pos < mn) \<and> pos > 0"
  have eq: "hex_loop v (Suc pos) mn acc = (if ?more then hex_loop (drop_bit 4 v) pos mn ?acc else ?acc)"
    by (simp only: hex_loop.simps Let_def)
  have split: "unat v = 16 * unat (drop_bit 4 v) + unat v mod 16"
    by (simp add: unat_drop_bit)
  have acc: "hex_value ?acc = (unat v mod 16) * 16 ^ length acc + hex_value acc"
    by (simp add: hex_value_Cons hex_digit_value_nibble)
  have small: "unat (drop_bit 4 v) < 16 ^ pos"
    using "2.prems"(1) by (simp add: unat_drop_bit less_mult_imp_div_less mult.commute)
  show ?case
  proof (cases ?more)
    case True
    then have "hex_value (hex_loop (drop_bit 4 v) pos mn ?acc) =
        unat (drop_bit 4 v) * 16 ^ length ?acc + hex_value ?acc"
      using "2.IH" [OF refl refl] small by auto
    also have "\<dots> = (16 * unat (drop_bit 4 v) + unat v mod 16) * 16 ^ length acc + hex_value acc"
      by (simp add: acc algebra_simps)
    finally show ?thesis
      by (simp only: eq if_P [OF True] split [symmetric])
  next
    case False
    with small have "unat (drop_bit 4 v) = 0"
      by (cases pos) (auto simp: word_neq_0_iff_unat word_gt_0 unat_eq_zero)
    with split have "unat v mod 16 = unat v" by simp
    with acc show ?thesis
      by (simp only: eq if_not_P [OF False])
  qed
qed simp

lemma hex_text_value: "hex_value (hex_text v mn) = unat v"
  using hex_loop_value [of v 16 mn "[]"] unat_u64_lt [of v]
  by (simp add: hex_text_def hex_value_def)

text \<open>At least the minimum width (and one digit), never more than the 16 cells of the buffer.\<close>
lemma hex_loop_length:
  "0 < pos \<Longrightarrow> pos \<le> 16 \<Longrightarrow> length acc + pos = 16 \<Longrightarrow>
   length (hex_loop v pos mn acc) \<le> 16 \<and> max 1 (min mn 16) \<le> int (length (hex_loop v pos mn acc))"
  by (induction v pos mn acc rule: hex_loop.induct) (auto simp: Let_def)

lemma hex_text_length: "length (hex_text v mn) \<le> 16"
  and hex_text_width: "max 1 (min mn 16) \<le> int (length (hex_text v mn))"
  using hex_loop_length [of 16 "[]" v mn] by (auto simp: hex_text_def)

end
