(* ===== verification/Klog.thy ===== *)
theory Klog
  imports Text
begin

text \<open>
  The kernel log (\<open>kernel/klog.c\<close>): a fixed buffer of \<open>KLOG_SIZE\<close> bytes that is only ever
  appended to and silently stops when it is full. The state has the file's two static variables; the
  abstraction \<open>klog_text\<close> is the log as a string. Every operation is shown to be a bounded append
  on that string, and the buffer always keeps room for the terminating NUL that \<open>KLogText\<close>
  writes.
\<close>

record klog =
  KlogBuffer :: "u8 list"
  KlogLength :: nat

definition KLOG_SIZE :: nat where
  "KLOG_SIZE = 16384"

text \<open>The zero-initialised statics at boot.\<close>
definition klog_init :: klog where
  "klog_init = \<lparr>KlogBuffer = replicate KLOG_SIZE 0, KlogLength = 0\<rparr>"

definition KlogPutChar :: "u8 \<Rightarrow> klog \<Rightarrow> klog" where
  "KlogPutChar c k =
     (if KlogLength k < KLOG_SIZE - 1
      then k\<lparr>KlogBuffer := (KlogBuffer k)[KlogLength k := c], KlogLength := KlogLength k + 1\<rparr>
      else k)"

fun KLog :: "cstring \<Rightarrow> klog \<Rightarrow> klog" where
  "KLog [] k = k"
| "KLog (c # s) k = KLog s (KlogPutChar c k)"

definition KLogUInt :: "u64 \<Rightarrow> klog \<Rightarrow> klog" where
  "KLogUInt Value k = KLog (dec_text Value) k"

definition KLogHex :: "u64 \<Rightarrow> int \<Rightarrow> klog \<Rightarrow> klog" where
  "KLogHex Value MinDigits k = KLog (hex_text Value MinDigits) (KLog (lit ''0x'') k)"

text \<open>A sequence of log calls, in the order of the source.\<close>
definition KLogs :: "cstring list \<Rightarrow> klog \<Rightarrow> klog" where
  "KLogs ss k = fold KLog ss k"

definition KLogPci :: "cstring \<Rightarrow> u8 \<Rightarrow> u8 \<Rightarrow> u8 \<Rightarrow> u16 \<Rightarrow> u16 \<Rightarrow> klog \<Rightarrow> klog" where
  "KLogPci Tag Bus Device Function VendorId DeviceId k =
     (let k = KLog (lit '': found at '') (KLog Tag k);
          k = KLog (lit '':'') (KLogHex (ucast Bus) 2 k);
          k = KLog (lit ''.'') (KLogHex (ucast Device) 2 k);
          k = KLog (lit '' id '') (KLogUInt (ucast Function) k);
          k = KLog (lit '':'') (KLogHex (ucast VendorId) 4 k)
      in KLog [10] (KLogHex (ucast DeviceId) 4 k))"

definition KLogText :: "klog \<Rightarrow> cstring \<times> klog" where
  "KLogText k =
     (let b = (KlogBuffer k)[KlogLength k := 0] in (cstr b, k\<lparr>KlogBuffer := b\<rparr>))"

section \<open>The log as a string\<close>

definition klog_text :: "klog \<Rightarrow> cstring" where
  "klog_text k = take (KlogLength k) (KlogBuffer k)"

definition klog_ok :: "klog \<Rightarrow> bool" where
  "klog_ok k \<longleftrightarrow> length (KlogBuffer k) = KLOG_SIZE \<and> KlogLength k < KLOG_SIZE"

lemma klog_ok_init [inv_intro, simp]: "klog_ok klog_init"
  by (simp add: klog_ok_def klog_init_def KLOG_SIZE_def)

lemma klog_text_init [simp]: "klog_text klog_init = []"
  by (simp add: klog_text_def klog_init_def)

lemma klog_ok_PutChar [inv_intro]: "klog_ok k \<Longrightarrow> klog_ok (KlogPutChar c k)"
  by (auto simp: klog_ok_def KlogPutChar_def)

lemma length_klog_text: "klog_ok k \<Longrightarrow> length (klog_text k) = KlogLength k"
  by (simp add: klog_text_def klog_ok_def)

lemma take_klog_text: "klog_ok k \<Longrightarrow> take (KLOG_SIZE - 1) (klog_text k) = klog_text k"
  by (rule take_all) (auto simp: klog_text_def klog_ok_def)

lemma klog_text_PutChar:
  assumes "klog_ok k"
  shows "klog_text (KlogPutChar c k) = take (KLOG_SIZE - 1) (klog_text k @ [c])"
proof (cases "KlogLength k < KLOG_SIZE - 1")
  case True
  with assms show ?thesis
    by (simp add: klog_ok_def KlogPutChar_def klog_text_def take_Suc_conv_app_nth)
next
  case False
  with assms have "length (klog_text k) = KLOG_SIZE - 1"
    by (auto simp: length_klog_text klog_ok_def)
  with False show ?thesis by (simp add: KlogPutChar_def)
qed

lemma klog_ok_KLog [inv_intro]: "klog_ok k \<Longrightarrow> klog_ok (KLog s k)"
  by (induction s arbitrary: k) (auto intro: inv_intro)

text \<open>Logging a string appends it, as far as it fits.\<close>
lemma klog_text_KLog:
  "klog_ok k \<Longrightarrow> klog_text (KLog s k) = take (KLOG_SIZE - 1) (klog_text k @ s)"
proof (induction s arbitrary: k)
  case Nil
  then show ?case by (simp add: take_klog_text del: One_nat_def)
next
  case (Cons c s)
  then have "klog_text (KLog (c # s) k) =
      take (KLOG_SIZE - 1) (take (KLOG_SIZE - 1) (klog_text k @ [c]) @ s)"
    by (simp add: klog_text_PutChar klog_ok_PutChar)
  also have "\<dots> = take (KLOG_SIZE - 1) (klog_text k @ c # s)"
  proof (cases "length (klog_text k) < KLOG_SIZE - 1")
    case True
    then have "take (KLOG_SIZE - 1) (klog_text k @ [c]) = klog_text k @ [c]" by simp
    then show ?thesis by (simp only: append_assoc append_Cons append_Nil)
  next
    case False
    then show ?thesis by (simp add: min_def)
  qed
  finally show ?case .
qed

lemma klog_ok_KLogs [inv_intro]: "klog_ok k \<Longrightarrow> klog_ok (KLogs ss k)"
  unfolding KLogs_def by (induction ss arbitrary: k) (auto intro: inv_intro)

lemma klog_text_KLogs:
  "klog_ok k \<Longrightarrow> klog_text (KLogs ss k) = take (KLOG_SIZE - 1) (klog_text k @ concat ss)"
proof (induction ss arbitrary: k)
  case Nil
  then show ?case by (simp add: KLogs_def take_klog_text del: One_nat_def)
next
  case (Cons s ss)
  from Cons.prems have "klog_text (KLogs (s # ss) k) =
      take (KLOG_SIZE - 1) (klog_text (KLog s k) @ concat ss)"
    using Cons.IH [of "KLog s k"] by (simp add: KLogs_def klog_ok_KLog)
  also have "\<dots> = take (KLOG_SIZE - 1) (klog_text k @ concat (s # ss))"
    using Cons.prems by (simp add: klog_text_KLog take_add [symmetric] min_def)
  finally show ?case .
qed

lemma klog_ok_UInt [inv_intro]: "klog_ok k \<Longrightarrow> klog_ok (KLogUInt v k)"
  by (simp add: KLogUInt_def klog_ok_KLog)

lemma klog_ok_Hex [inv_intro]: "klog_ok k \<Longrightarrow> klog_ok (KLogHex v m k)"
  by (simp add: KLogHex_def klog_ok_KLog)

text \<open>\<open>KLogText\<close> hands out exactly the log, whatever lies behind it in the buffer.\<close>
lemma KLogText_eq:
  assumes "klog_ok k" and "0 \<notin> set (klog_text k)"
  shows "fst (KLogText k) = klog_text k"
proof -
  let ?b = "KlogBuffer k" and ?n = "KlogLength k"
  from assms(1) have n: "?n < length ?b" by (simp add: klog_ok_def)
  then have "?b[?n := 0] = take ?n ?b @ 0 # drop (Suc ?n) ?b"
    by (simp add: upd_conv_take_nth_drop)
  moreover from assms(2) have "takeWhile (\<lambda>b. b \<noteq> 0) (take ?n ?b @ 0 # drop (Suc ?n) ?b) = take ?n ?b"
    by (subst takeWhile_append2) (auto simp: klog_text_def)
  ultimately show ?thesis
    by (simp add: KLogText_def Let_def cstr_def klog_text_def)
qed

lemma klog_ok_Text [inv_intro]: "klog_ok k \<Longrightarrow> klog_ok (snd (KLogText k))"
  by (simp add: KLogText_def klog_ok_def Let_def)

section \<open>The log as its callers see it\<close>

text \<open>The calls the kernel makes, and the text each one stands for.\<close>
datatype klog_call =
  LogText cstring | LogUInt u64 | LogHex u64 int | LogPci cstring u8 u8 u8 u16 u16

fun klog_do :: "klog_call \<Rightarrow> klog \<Rightarrow> klog" where
  "klog_do (LogText s) = KLog s"
| "klog_do (LogUInt v) = KLogUInt v"
| "klog_do (LogHex v n) = KLogHex v n"
| "klog_do (LogPci t b d f v i) = KLogPci t b d f v i"

fun klog_render :: "klog_call \<Rightarrow> cstring" where
  "klog_render (LogText s) = s"
| "klog_render (LogUInt v) = dec_text v"
| "klog_render (LogHex v n) = lit ''0x'' @ hex_text v n"
| "klog_render (LogPci t b d f v i) = t @ lit '': found at '' @ lit ''0x'' @ hex_text (ucast b) 2
     @ lit '':'' @ lit ''0x'' @ hex_text (ucast d) 2 @ lit ''.'' @ dec_text (ucast f)
     @ lit '' id '' @ lit ''0x'' @ hex_text (ucast v) 4 @ lit '':'' @ lit ''0x'' @ hex_text (ucast i) 4
     @ [10]"

lemma klog_do_KLogs:
  obtains ss where "klog_do c = KLogs ss" "concat ss = klog_render c"
proof (cases c)
  case (LogText s)
  show thesis by (rule that [of "[s]"]) (auto simp: LogText KLogs_def)
next
  case (LogUInt v)
  show thesis by (rule that [of "[dec_text v]"]) (auto simp: LogUInt KLogs_def KLogUInt_def)
next
  case (LogHex v n)
  show thesis
    by (rule that [of "[lit ''0x'', hex_text v n]"]) (auto simp: LogHex KLogs_def KLogHex_def)
next
  case (LogPci t b d f v i)
  show thesis
    by (rule that [of "[t, lit '': found at '', lit ''0x'', hex_text (ucast b) 2, lit '':'',
          lit ''0x'', hex_text (ucast d) 2, lit ''.'', dec_text (ucast f), lit '' id '', lit ''0x'',
          hex_text (ucast v) 4, lit '':'', lit ''0x'', hex_text (ucast i) 4, [10]]"])
       (auto simp: LogPci KLogs_def KLogPci_def KLogHex_def KLogUInt_def Let_def)
qed

lemma klog_ok_do [inv_intro]: "klog_ok k \<Longrightarrow> klog_ok (klog_do c k)"
  by (rule klog_do_KLogs [of c]) (simp add: klog_ok_KLogs)

lemma klog_text_do:
  assumes "klog_ok k"
  shows "klog_text (klog_do c k) = take (KLOG_SIZE - 1) (klog_text k @ klog_render c)"
  by (rule klog_do_KLogs [of c]) (simp add: klog_text_KLogs assms)

lemma take_take_append: "take n (take n a @ b) = take n (a @ b)"
  by (cases "length a \<le> n") (simp_all add: min_def)

lemma klog_run:
  "klog_ok k \<Longrightarrow> klog_ok (fold klog_do cs k) \<and> klog_text (fold klog_do cs k) =
     take (KLOG_SIZE - 1) (klog_text k @ concat (map klog_render cs))"
proof (induction cs arbitrary: k)
  case Nil
  then show ?case by (simp add: take_klog_text del: One_nat_def)
next
  case (Cons c cs)
  show ?case
    using Cons.IH [OF klog_ok_do [OF Cons.prems]]
    unfolding klog_text_do [OF Cons.prems] take_take_append by simp
qed

text \<open>Whatever sequence of log calls is made after boot, \<open>KLogText\<close> returns the
  concatenation of the texts logged, cut at the first 16383 characters: nothing is reordered, lost in
  the middle, or written past the buffer.\<close>
theorem klog_correct:
  assumes "\<forall>c \<in> set cs. 0 \<notin> set (klog_render c)"
  shows "fst (KLogText (fold klog_do cs klog_init)) = take 16383 (concat (map klog_render cs))"
proof -
  note run = klog_run [OF klog_ok_init, of cs]
  have "0 \<notin> set (concat (map klog_render cs))" using assms by simp
  then have "0 \<notin> set (klog_text (fold klog_do cs klog_init))"
    using run by (auto dest: in_set_takeD)
  with run show ?thesis by (simp add: KLogText_eq KLOG_SIZE_def)
qed

lemma klog_correct_witness:
  "fst (KLogText (fold klog_do [LogText (lit ''ok ''), LogUInt 7] klog_init)) = lit ''ok 7''"
  using klog_correct [of "[LogText (lit ''ok ''), LogUInt 7]"]
  by (simp add: lit_def dec_text_def dec_loop_pos digit_char_def)

end
