(* ===== verification/Pmm.thy ===== *)
theory Pmm
  imports Prelude
begin

text \<open>
  The physical memory manager (\<open>kernel/pmm.c\<close>): one bit per 4 KB page in a bitmap that the
  manager places itself in a free region of the firmware's memory map. The bitmap is memory reached
  through a pointer, so it is a total function from byte index to byte. The lemmas give the bitmap
  operations as a set of used pages, the meaning of the counter \<open>FreePages\<close>, and what each
  allocation hands out.
\<close>

definition PAGE_SIZE :: u64 where
  "PAGE_SIZE = 4096"

text \<open>A descriptor of the firmware's memory map, as \<open>InitPmm\<close> reads it.\<close>
record mem_desc =
  DescType :: u32
  PhysicalStart :: u64
  NumberOfPages :: u64

record pmm =
  Bitmap :: "u64 \<Rightarrow> u8"
  BitmapPages :: u64
  TotalPages :: u64
  FreePages :: u64

definition SetBit :: "u64 \<Rightarrow> pmm \<Rightarrow> pmm" where
  "SetBit Page s = s\<lparr>Bitmap := (Bitmap s)(Page div 8 :=
     Bitmap s (Page div 8) OR push_bit (unat (Page mod 8)) 1)\<rparr>"

definition ClearBit :: "u64 \<Rightarrow> pmm \<Rightarrow> pmm" where
  "ClearBit Page s = s\<lparr>Bitmap := (Bitmap s)(Page div 8 :=
     Bitmap s (Page div 8) AND NOT (push_bit (unat (Page mod 8)) 1))\<rparr>"

definition TestBit :: "pmm \<Rightarrow> u64 \<Rightarrow> bool" where
  "TestBit s Page \<longleftrightarrow> drop_bit (unat (Page mod 8)) (Bitmap s (Page div 8)) AND 1 = 1"

definition IsBackedRam :: "u32 \<Rightarrow> bool" where
  "IsBackedRam Type \<longleftrightarrow> Type \<in> {1, 2, 3, 4, 5, 6, 7, 9, 10, 14}"

section \<open>Initialisation\<close>

text \<open>The memory map as \<open>InitPmm\<close> walks it: \<open>EntryCount\<close> descriptors, each at a
  multiple of the firmware's own descriptor size.\<close>
definition MemoryMap :: "u8 list \<Rightarrow> u64 \<Rightarrow> u64 \<Rightarrow> mem_desc list" where
  "MemoryMap MapBytes MemoryMapSize DescriptorSize =
     map (\<lambda>i. let Desc = i * unat DescriptorSize in
            \<lparr>DescType = Le32 MapBytes Desc, PhysicalStart = Le64 MapBytes (Desc + 8),
             NumberOfPages = Le64 MapBytes (Desc + 24)\<rparr>)
       [0..<unat (MemoryMapSize div DescriptorSize)]"

definition EFI_CONVENTIONAL_MEMORY :: u32 where
  "EFI_CONVENTIONAL_MEMORY = 7"

text \<open>The first loop of \<open>InitPmm\<close>: the end of the highest RAM region.\<close>
definition HighestAddress :: "mem_desc list \<Rightarrow> u64" where
  "HighestAddress descs = fold (\<lambda>d hi.
     if \<not> IsBackedRam (DescType d) then hi
     else let End = PhysicalStart d + NumberOfPages d * PAGE_SIZE in if End > hi then End else hi)
     descs 0"

text \<open>The second loop: the first conventional region that can hold the bitmap; 0 when there is
  none.\<close>
fun FindBitmapRegion :: "u64 \<Rightarrow> mem_desc list \<Rightarrow> u64" where
  "FindBitmapRegion pages [] = 0"
| "FindBitmapRegion pages (d # ds) =
     (if DescType d = EFI_CONVENTIONAL_MEMORY \<and> NumberOfPages d \<ge> pages then PhysicalStart d
      else FindBitmapRegion pages ds)"

text \<open>\<open>for (p = 0; p < n; p++) body(p)\<close> over a 64-bit counter.\<close>
definition for_upto :: "u64 \<Rightarrow> (u64 \<Rightarrow> 's \<Rightarrow> 's) \<Rightarrow> 's \<Rightarrow> 's" where
  "for_upto n body s = fold (\<lambda>i. body (of_nat i)) [0..<unat n] s"

definition FreeRegion :: "mem_desc \<Rightarrow> pmm \<Rightarrow> pmm" where
  "FreeRegion d s =
     (if DescType d \<noteq> EFI_CONVENTIONAL_MEMORY then s
      else let StartPage = PhysicalStart d div PAGE_SIZE
           in for_upto (NumberOfPages d)
                (\<lambda>p s. (ClearBit (StartPage + p) s)\<lparr>FreePages := FreePages s + 1\<rparr>) s)"

definition InitPmm :: "mem_desc list \<Rightarrow> pmm \<Rightarrow> pmm" where
  "InitPmm descs s =
     (let total = HighestAddress descs div PAGE_SIZE;
          size = (total + 7) div 8;
          pages = (size + PAGE_SIZE - 1) div PAGE_SIZE;
          addr = FindBitmapRegion pages descs;
          s = s\<lparr>TotalPages := total, BitmapPages := pages\<rparr>;
          s = for_upto total SetBit s;
          s = s\<lparr>FreePages := 0\<rparr>;
          s = fold FreeRegion descs s;
          start = addr div PAGE_SIZE;
          s = for_upto pages (\<lambda>p s. (SetBit (start + p) s)\<lparr>FreePages := FreePages s - 1\<rparr>) s;
          reserved = (if 256 > total then total else 256)
      in for_upto reserved
           (\<lambda>p s. if \<not> TestBit s p then (SetBit p s)\<lparr>FreePages := FreePages s - 1\<rparr> else s) s)"

section \<open>Allocation\<close>

text \<open>The search loop shared by both allocators: the first clear bit below a limit.\<close>
function AllocFrom :: "u64 \<Rightarrow> u64 \<Rightarrow> pmm \<Rightarrow> u64 \<times> pmm" where
  "AllocFrom i limit s =
     (if i < limit
      then if \<not> TestBit s i
           then (i * PAGE_SIZE, (SetBit i s)\<lparr>FreePages := FreePages s - 1\<rparr>)
           else AllocFrom (i + 1) limit s
      else (0, s))"
  by pat_completeness auto
termination
proof (relation "measure (\<lambda>(i, limit, s). unat limit - unat i)", goal_cases)
  case (2 i limit s)
  then have "unat i < unat limit" by (simp add: word_less_nat_alt)
  moreover from this have "unat (i + 1) = unat i + 1"
    using unat_u64_lt [of limit] by (subst unat_add_nowrap) simp_all
  ultimately show ?case by simp
qed simp

declare AllocFrom.simps [simp del]

definition AllocPage :: "pmm \<Rightarrow> u64 \<times> pmm" where
  "AllocPage s = AllocFrom 0 (TotalPages s) s"

definition AllocPageBelow4G :: "pmm \<Rightarrow> u64 \<times> pmm" where
  "AllocPageBelow4G s =
     (let Limit = 0x100000000 div PAGE_SIZE;
          Limit = (if Limit > TotalPages s then TotalPages s else Limit)
      in AllocFrom 0 Limit s)"

definition FreePage :: "u64 \<Rightarrow> pmm \<Rightarrow> pmm" where
  "FreePage Addr s =
     (let Page = Addr div PAGE_SIZE
      in if TestBit s Page then (ClearBit Page s)\<lparr>FreePages := FreePages s + 1\<rparr> else s)"

definition GetFreePageCount :: "pmm \<Rightarrow> u64" where
  "GetFreePageCount s = FreePages s"

definition GetTotalPageCount :: "pmm \<Rightarrow> u64" where
  "GetTotalPageCount s = TotalPages s"

section \<open>The bitmap as a set of used pages\<close>

lemma TestBit_bit: "TestBit s p \<longleftrightarrow> bit (Bitmap s (p div 8)) (unat (p mod 8))"
proof -
  have "x AND 1 = (1 :: u8) \<longleftrightarrow> bit x 0" for x
    by (simp add: and_one_eq bit_0 odd_iff_mod_2_eq_one)
  then show ?thesis by (simp add: TestBit_def bit_drop_bit_eq)
qed

lemma mod8_lt: "unat (p mod 8 :: u64) < 8"
  by (simp add: unat_mod_word)

lemma page_index_inj: "p div 8 = q div 8 \<Longrightarrow> unat (p mod 8) = unat (q mod 8) \<Longrightarrow> p = (q :: u64)"
  by (metis div_mult_mod_eq word_unat_eq_iff)

lemma TestBit_SetBit [simp]: "TestBit (SetBit p s) q \<longleftrightarrow> q = p \<or> TestBit s q"
proof -
  have "bit (Bitmap s (p div 8) OR push_bit (unat (p mod 8)) 1) n \<longleftrightarrow>
      bit (Bitmap s (p div 8)) n \<or> n = unat (p mod 8)" if "n < 8" for n
    using that mod8_lt [of p] by (auto simp: bit_or_iff bit_exp_iff)
  with mod8_lt [of q] show ?thesis
    by (auto simp: TestBit_bit SetBit_def dest: page_index_inj)
qed

lemma TestBit_ClearBit [simp]: "TestBit (ClearBit p s) q \<longleftrightarrow> q \<noteq> p \<and> TestBit s q"
proof -
  have "bit (Bitmap s (p div 8) AND NOT (push_bit (unat (p mod 8)) 1)) n \<longleftrightarrow>
      bit (Bitmap s (p div 8)) n \<and> n \<noteq> unat (p mod 8)" if "n < 8" for n
    using that mod8_lt [of p] by (auto simp: bit_and_iff bit_not_iff bit_exp_iff)
  with mod8_lt [of q] show ?thesis
    by (auto simp: TestBit_bit ClearBit_def dest: page_index_inj)
qed

lemma TestBit_upd [simp]:
  "TestBit (s\<lparr>FreePages := f\<rparr>) q = TestBit s q"
  "TestBit (s\<lparr>TotalPages := t\<rparr>) q = TestBit s q"
  "TestBit (s\<lparr>BitmapPages := b\<rparr>) q = TestBit s q"
  by (simp_all add: TestBit_def)

lemma SetBit_fields [simp]:
  "FreePages (SetBit p s) = FreePages s" "TotalPages (SetBit p s) = TotalPages s"
  "FreePages (ClearBit p s) = FreePages s" "TotalPages (ClearBit p s) = TotalPages s"
  by (simp_all add: SetBit_def ClearBit_def)

text \<open>The pages the manager may hand out.\<close>
definition free_set :: "pmm \<Rightarrow> u64 set" where
  "free_set s = {p. p < TotalPages s \<and> \<not> TestBit s p}"

lemma finite_free_set [simp]: "finite (free_set s)"
  by simp

lemma free_set_SetBit:
  "free_set ((SetBit p s)\<lparr>FreePages := f\<rparr>) = free_set s - {p}"
  by (auto simp: free_set_def)

lemma free_set_ClearBit:
  "p < TotalPages s \<Longrightarrow> free_set ((ClearBit p s)\<lparr>FreePages := f\<rparr>) = insert p (free_set s)"
  by (auto simp: free_set_def)

text \<open>The counter is the number of free pages, the low megabyte is never free, and no page address
  overflows.\<close>
definition pmm_ok :: "pmm \<Rightarrow> bool" where
  "pmm_ok s \<longleftrightarrow> unat (FreePages s) = card (free_set s) \<and> TotalPages s \<le> 2 ^ 52
     \<and> (\<forall>p < 256. p \<notin> free_set s)"

lemma page_addr: "p < 2 ^ 52 \<Longrightarrow> unat (p * PAGE_SIZE) = unat p * 4096"
  by (subst unat_mult_nowrap) (simp_all add: PAGE_SIZE_def word_less_nat_alt)

lemma page_addr_div: "p < 2 ^ 52 \<Longrightarrow> p * PAGE_SIZE div PAGE_SIZE = p"
  by (rule word_unat_eq_iff [THEN iffD2])
     (simp add: unat_div_word page_addr, simp add: PAGE_SIZE_def)

section \<open>What the allocators do\<close>

lemma u64_Suc: "i < (n :: u64) \<Longrightarrow> unat (i + 1) = Suc (unat i)"
  using unat_u64_lt [of n] by (subst unat_add_nowrap) (simp_all add: word_less_nat_alt)

text \<open>Induction over a 64-bit counter that runs up to a limit.\<close>
lemma u64_upto_induct [case_names stop step]:
  fixes i :: u64
  assumes "\<And>i. \<not> i < n \<Longrightarrow> P i" and "\<And>i. i < n \<Longrightarrow> P (i + 1) \<Longrightarrow> P i"
  shows "P i"
proof (induction "unat n - unat i" arbitrary: i rule: less_induct)
  case less
  show ?case
  proof (cases "i < n")
    case True
    then have "unat i < unat n" by (simp add: word_less_nat_alt)
    with u64_Suc [OF True] less have "P (i + 1)" by simp
    with True show ?thesis by (rule assms(2))
  qed (rule assms(1))
qed

lemma u64_Suc_le: "i < (n :: u64) \<Longrightarrow> i + 1 \<le> p \<longleftrightarrow> i < p"
  by (simp add: word_le_nat_alt word_less_nat_alt [of i p] u64_Suc Suc_le_eq)

text \<open>The allocator takes the lowest free page of its range, and only that one.\<close>
lemma AllocFrom_some:
  assumes "i \<le> p" "p < limit" "\<not> TestBit s p" "\<And>q. i \<le> q \<Longrightarrow> q < p \<Longrightarrow> TestBit s q"
  shows "AllocFrom i limit s = (p * PAGE_SIZE, (SetBit p s)\<lparr>FreePages := FreePages s - 1\<rparr>)"
  using assms
proof (induction i rule: u64_upto_induct [of limit])
  case (stop i)
  then show ?case by simp
next
  case (step i)
  show ?case
  proof (cases "i = p")
    case True
    with step show ?thesis by (simp add: AllocFrom.simps [of p])
  next
    case False
    with step have "i < p" by simp
    with step have "AllocFrom i limit s = AllocFrom (i + 1) limit s"
      by (simp add: AllocFrom.simps [of i])
    with step \<open>i < p\<close> show ?thesis by (simp add: u64_Suc_le)
  qed
qed

lemma AllocFrom_none:
  "(\<And>p. i \<le> p \<Longrightarrow> p < limit \<Longrightarrow> TestBit s p) \<Longrightarrow> AllocFrom i limit s = (0, s)"
proof (induction i rule: u64_upto_induct [of limit])
  case (stop i)
  then show ?case by (simp add: AllocFrom.simps)
next
  case (step i)
  then have "AllocFrom i limit s = AllocFrom (i + 1) limit s"
    by (simp add: AllocFrom.simps [of i])
  with step show ?case by (simp add: u64_Suc_le)
qed

text \<open>A step of an allocator that searches below \<open>limit\<close>: either it fails and changes nothing, or
  it hands out the lowest free page.\<close>
lemma AllocFrom_cases:
  obtains "AllocFrom 0 limit s = (0, s)" "\<And>p. p < limit \<Longrightarrow> TestBit s p"
  | p where "p < limit" "\<not> TestBit s p" "\<And>q. q < p \<Longrightarrow> TestBit s q"
      "AllocFrom 0 limit s = (p * PAGE_SIZE, (SetBit p s)\<lparr>FreePages := FreePages s - 1\<rparr>)"
proof (cases "\<exists>p < limit. \<not> TestBit s p")
  case True
  let ?S = "{p. p < limit \<and> \<not> TestBit s p}"
  have fin: "finite ?S" by (rule finite)
  have ne: "?S \<noteq> {}" using True by blast
  from Min_in [OF fin ne] Min_le [OF fin] obtain m where
    m: "m < limit" "\<not> TestBit s m" and le: "\<And>q. q \<in> ?S \<Longrightarrow> m \<le> q"
    by (metis (mono_tags, lifting) mem_Collect_eq)
  have below: "TestBit s q" if "q < m" for q
  proof (rule ccontr)
    assume "\<not> TestBit s q"
    moreover from that m(1) have "q < limit" by (rule less_trans)
    ultimately have "m \<le> q" using le by blast
    with that show False by simp
  qed
  show thesis
  proof (rule that(2) [OF m])
    show "AllocFrom 0 limit s = (m * PAGE_SIZE, (SetBit m s)\<lparr>FreePages := FreePages s - 1\<rparr>)"
      using below by (intro AllocFrom_some m) simp
  qed (rule below)
next
  case False
  with that(1) AllocFrom_none [of 0 limit s] show thesis by simp
qed

lemma pmm_ok_take:
  assumes "pmm_ok s" "p \<in> free_set s"
  shows "pmm_ok ((SetBit p s)\<lparr>FreePages := FreePages s - 1\<rparr>)"
    and "p * PAGE_SIZE \<noteq> 0" and "unat (p * PAGE_SIZE) = unat p * 4096"
proof -
  from assms have card: "unat (FreePages s) = card (free_set s)" and "card (free_set s) > 0"
    by (auto simp: pmm_ok_def card_gt_0_iff)
  then have "unat (FreePages s - 1) = unat (FreePages s) - 1"
    by (subst unat_sub_nowrap) (simp_all add: word_le_nat_alt)
  with assms card show "pmm_ok ((SetBit p s)\<lparr>FreePages := FreePages s - 1\<rparr>)"
    by (simp add: pmm_ok_def free_set_SetBit)
  have "p < 2 ^ 52" using assms by (auto simp: pmm_ok_def free_set_def intro: order_less_le_trans)
  moreover have "256 \<le> p" using assms by (meson pmm_ok_def not_le)
  ultimately show "unat (p * PAGE_SIZE) = unat p * 4096" by (intro page_addr)
  with \<open>256 \<le> p\<close> show "p * PAGE_SIZE \<noteq> 0"
    by (simp add: word_neq_0_iff_unat word_le_nat_alt del: word_unat_eq_iff)
qed

text \<open>What a client of the allocators sees: failure leaves everything as it is; success takes one
  free page away and returns its address, which is never the null pointer.\<close>
lemma AllocFrom_ok:
  assumes "pmm_ok s" "limit \<le> TotalPages s" "AllocFrom 0 limit s = (a, s')"
  shows "pmm_ok s' \<and> TotalPages s' = TotalPages s \<and>
    (if \<exists>p \<in> free_set s. p < limit
     then \<exists>p \<in> free_set s. p < limit \<and> (\<forall>q \<in> free_set s. p \<le> q) \<and> a \<noteq> 0 \<and> unat a = unat p * 4096
            \<and> free_set s' = free_set s - {p}
     else a = 0 \<and> s' = s)"
proof (cases rule: AllocFrom_cases [of limit s])
  case 1
  with assms show ?thesis by (auto simp: free_set_def)
next
  case (2 p)
  then have p: "p \<in> free_set s" using assms(2) by (auto simp: free_set_def)
  have least: "\<forall>q \<in> free_set s. p \<le> q"
    using 2(3) by (auto simp: free_set_def intro: leI)
  from 2(4) assms(3) have s': "a = p * PAGE_SIZE" "s' = (SetBit p s)\<lparr>FreePages := FreePages s - 1\<rparr>"
    by auto
  have ex: "\<exists>p \<in> free_set s. p < limit" using p 2(1) by blast
  show ?thesis
    unfolding if_P [OF ex] using p 2(1) least pmm_ok_take [OF assms(1) p]
    by (auto simp: s' free_set_SetBit)
qed

section \<open>Initialisation establishes the invariant\<close>

definition page_run :: "u64 \<Rightarrow> nat \<Rightarrow> u64 set" where
  "page_run start k = {q. unat start \<le> unat q \<and> unat q < unat start + k}"

definition pages_of :: "mem_desc \<Rightarrow> u64 set" where
  "pages_of d = page_run (PhysicalStart d div PAGE_SIZE) (unat (NumberOfPages d))"

abbreviation conventional :: "mem_desc \<Rightarrow> bool" where
  "conventional d \<equiv> DescType d = EFI_CONVENTIONAL_MEMORY"

text \<open>The counter as a word, which the loops keep step by step.\<close>
definition counted :: "pmm \<Rightarrow> bool" where
  "counted s \<longleftrightarrow> FreePages s = of_nat (card (free_set s))"

lemma counted_clear:
  "counted s \<Longrightarrow> p < TotalPages s \<Longrightarrow> TestBit s p \<Longrightarrow>
   counted ((ClearBit p s)\<lparr>FreePages := FreePages s + 1\<rparr>)"
  by (simp add: counted_def free_set_ClearBit) (simp add: free_set_def)

lemma counted_set:
  assumes "counted s" "p \<in> free_set s"
  shows "counted ((SetBit p s)\<lparr>FreePages := FreePages s - 1\<rparr>)"
proof -
  have "card (free_set s) > 0" using assms(2) by (auto simp: card_gt_0_iff)
  with assms show ?thesis
    by (simp add: counted_def free_set_SetBit of_nat_diff)
qed

lemma page_run_Suc:
  assumes "unat start + Suc k \<le> 2 ^ 64"
  shows "page_run start (Suc k) = insert (start + of_nat k) (page_run start k)"
    and "start + of_nat k \<notin> page_run start k"
    and "unat (start + of_nat k) = unat start + k"
proof -
  show eq: "unat (start + of_nat k) = unat start + k"
    using assms by (subst unat_add_nowrap) (simp_all add: unat_of_nat)
  from eq show "page_run start (Suc k) = insert (start + of_nat k) (page_run start k)"
    and "start + of_nat k \<notin> page_run start k"
    by (auto simp: page_run_def less_Suc_eq word_unat_eq_iff)
qed

definition clear_run :: "u64 \<Rightarrow> nat \<Rightarrow> pmm \<Rightarrow> pmm" where
  "clear_run start k s =
     fold (\<lambda>i s. (ClearBit (start + of_nat i) s)\<lparr>FreePages := FreePages s + 1\<rparr>) [0..<k] s"

definition set_run :: "u64 \<Rightarrow> nat \<Rightarrow> pmm \<Rightarrow> pmm" where
  "set_run start k s =
     fold (\<lambda>i s. (SetBit (start + of_nat i) s)\<lparr>FreePages := FreePages s - 1\<rparr>) [0..<k] s"

lemma clear_run_Suc:
  "clear_run start (Suc k) s = (let s = clear_run start k s in
     (ClearBit (start + of_nat k) s)\<lparr>FreePages := FreePages s + 1\<rparr>)"
  by (simp add: clear_run_def Let_def)

lemma set_run_Suc:
  "set_run start (Suc k) s = (let s = set_run start k s in
     (SetBit (start + of_nat k) s)\<lparr>FreePages := FreePages s - 1\<rparr>)"
  by (simp add: set_run_def Let_def)

lemma clear_run_0 [simp]: "clear_run start 0 s = s" and set_run_0 [simp]: "set_run start 0 s = s"
  by (simp_all add: clear_run_def set_run_def)

lemma page_run_0 [simp]: "page_run start 0 = {}"
  by (auto simp: page_run_def)

lemma clear_run_spec:
  "unat start + k \<le> unat (TotalPages s) \<Longrightarrow> page_run start k \<inter> free_set s = {} \<Longrightarrow> counted s \<Longrightarrow>
   TotalPages (clear_run start k s) = TotalPages s \<and>
   free_set (clear_run start k s) = free_set s \<union> page_run start k \<and> counted (clear_run start k s)"
proof (induction k)
  case (Suc k)
  let ?p = "start + of_nat k" and ?s = "clear_run start k s"
  have le: "unat start + Suc k \<le> 2 ^ 64"
    using Suc.prems(1) unat_u64_lt [of "TotalPages s"] by simp
  note run = page_run_Suc [OF le]
  from Suc.prems run(1) have IH: "TotalPages ?s = TotalPages s"
      "free_set ?s = free_set s \<union> page_run start k" "counted ?s"
    using Suc.IH by auto
  from run(3) Suc.prems(1) IH(1) have p: "?p < TotalPages ?s" by (simp add: word_less_nat_alt)
  have "?p \<notin> free_set ?s" using run Suc.prems(2) by (auto simp: IH(2))
  with p have "TestBit ?s ?p" by (simp add: free_set_def)
  with p IH show ?case
    by (simp add: clear_run_Suc Let_def free_set_ClearBit counted_clear run(1) insert_commute)
qed simp

lemma set_run_spec:
  "unat start + k \<le> 2 ^ 64 \<Longrightarrow> page_run start k \<subseteq> free_set s \<Longrightarrow> counted s \<Longrightarrow>
   TotalPages (set_run start k s) = TotalPages s \<and>
   free_set (set_run start k s) = free_set s - page_run start k \<and> counted (set_run start k s)"
proof (induction k)
  case (Suc k)
  let ?p = "start + of_nat k" and ?s = "set_run start k s"
  note run = page_run_Suc [OF Suc.prems(1)]
  from Suc.prems run(1) have IH: "TotalPages ?s = TotalPages s"
      "free_set ?s = free_set s - page_run start k" "counted ?s"
    using Suc.IH by auto
  have "?p \<in> free_set ?s" using run Suc.prems(2) by (auto simp: IH(2))
  with IH show ?case
    by (auto simp: set_run_Suc Let_def free_set_SetBit counted_set run(1))
qed simp

definition reserve_run :: "nat \<Rightarrow> pmm \<Rightarrow> pmm" where
  "reserve_run k s = fold (\<lambda>i s. if \<not> TestBit s (of_nat i)
     then (SetBit (of_nat i) s)\<lparr>FreePages := FreePages s - 1\<rparr> else s) [0..<k] s"

lemma reserve_run_spec:
  "k \<le> unat (TotalPages s) \<Longrightarrow> counted s \<Longrightarrow>
   TotalPages (reserve_run k s) = TotalPages s \<and>
   free_set (reserve_run k s) = free_set s - page_run 0 k \<and> counted (reserve_run k s)"
proof (induction k)
  case 0
  then show ?case by (simp add: reserve_run_def)
next
  case (Suc k)
  let ?p = "of_nat k :: u64" and ?s = "reserve_run k s"
  have le: "unat (0 :: u64) + Suc k \<le> 2 ^ 64"
    using Suc.prems(1) unat_u64_lt [of "TotalPages s"] by simp
  note run = page_run_Suc [OF le, simplified]
  from Suc have IH: "TotalPages ?s = TotalPages s"
      "free_set ?s = free_set s - page_run 0 k" "counted ?s"
    by auto
  have step: "reserve_run (Suc k) s = (if \<not> TestBit ?s ?p
      then (SetBit ?p ?s)\<lparr>FreePages := FreePages ?s - 1\<rparr> else ?s)"
    by (simp add: reserve_run_def)
  have lt: "?p < TotalPages ?s"
    using run(3) Suc.prems(1) IH(1) by (simp add: word_less_nat_alt)
  show ?case
  proof (cases "TestBit ?s ?p")
    case True
    then have "?p \<notin> free_set s" using run(2) IH(2) by (auto simp: free_set_def)
    with True IH show ?thesis by (auto simp: step run(1))
  next
    case False
    with lt have "?p \<in> free_set ?s" by (simp add: free_set_def)
    with False IH show ?thesis
      by (auto simp: step run(1) free_set_SetBit counted_set)
  qed
qed

lemma set_all_spec:
  "TotalPages (for_upto n SetBit s) = TotalPages s \<and>
   (\<forall>q. TestBit (for_upto n SetBit s) q \<longleftrightarrow> q < n \<or> TestBit s q)"
proof -
  have "k \<le> unat n \<Longrightarrow> TotalPages (fold (\<lambda>i. SetBit (of_nat i)) [0..<k] s) = TotalPages s \<and>
      (\<forall>q. TestBit (fold (\<lambda>i. SetBit (of_nat i)) [0..<k] s) q \<longleftrightarrow> unat q < k \<or> TestBit s q)" for k
  proof (induction k)
    case (Suc k)
    have "unat (of_nat k :: u64) = k"
      using Suc.prems unat_u64_lt [of n] by (simp add: unat_of_nat)
    with Suc show ?case
      by (auto simp: less_Suc_eq word_unat_eq_iff)
  qed simp
  from this [of "unat n"] show ?thesis
    by (simp add: for_upto_def word_less_nat_alt)
qed

lemma FreeRegion_run:
  "FreeRegion d s = (if conventional d
     then clear_run (PhysicalStart d div PAGE_SIZE) (unat (NumberOfPages d)) s else s)"
  by (simp add: FreeRegion_def for_upto_def clear_run_def Let_def)

text \<open>Freeing all conventional regions of a map whose regions do not overlap.\<close>
lemma FreeRegions_spec:
  assumes "\<forall>d \<in> set descs. conventional d \<longrightarrow>
      unat (PhysicalStart d div PAGE_SIZE) + unat (NumberOfPages d) \<le> unat (TotalPages s)"
    and "sorted_wrt (\<lambda>a b. pages_of a \<inter> pages_of b = {}) (filter conventional descs)"
    and "\<forall>d \<in> set descs. conventional d \<longrightarrow> pages_of d \<inter> free_set s = {}" and "counted s"
  shows "TotalPages (fold FreeRegion descs s) = TotalPages s \<and>
    free_set (fold FreeRegion descs s) = free_set s \<union> (\<Union>d \<in> {d \<in> set descs. conventional d}. pages_of d)
    \<and> counted (fold FreeRegion descs s)"
  using assms
proof (induction descs arbitrary: s)
  case (Cons d descs)
  show ?case
  proof (cases "conventional d")
    case True
    have step: "TotalPages (FreeRegion d s) = TotalPages s"
        "free_set (FreeRegion d s) = free_set s \<union> pages_of d" "counted (FreeRegion d s)"
      using clear_run_spec [of "PhysicalStart d div PAGE_SIZE" "unat (NumberOfPages d)" s] Cons.prems True
      by (auto simp: FreeRegion_run pages_of_def)
    have "TotalPages (fold FreeRegion descs (FreeRegion d s)) = TotalPages (FreeRegion d s) \<and>
      free_set (fold FreeRegion descs (FreeRegion d s)) =
        free_set (FreeRegion d s) \<union> (\<Union>d \<in> {d \<in> set descs. conventional d}. pages_of d)
      \<and> counted (fold FreeRegion descs (FreeRegion d s))"
      using Cons.prems True step by (intro Cons.IH) (auto simp: Int_Un_distrib)
    with True step show ?thesis by auto
  next
    case False
    then have "FreeRegion d s = s"
      and "{d' \<in> set (d # descs). conventional d'} = {d' \<in> set descs. conventional d'}"
      by (auto simp: FreeRegion_run)
    moreover have "TotalPages (fold FreeRegion descs s) = TotalPages s \<and>
      free_set (fold FreeRegion descs s) =
        free_set s \<union> (\<Union>d \<in> {d \<in> set descs. conventional d}. pages_of d)
      \<and> counted (fold FreeRegion descs s)"
      using Cons.prems False by (intro Cons.IH) simp_all
    ultimately show ?thesis by simp
  qed
qed simp

lemma HighestAddress_mono:
  "unat hi \<le> unat (fold (\<lambda>d hi. if \<not> IsBackedRam (DescType d) then hi
     else let End = PhysicalStart d + NumberOfPages d * PAGE_SIZE in if End > hi then End else hi) descs hi)"
proof (induction descs arbitrary: hi)
  case (Cons d descs)
  show ?case
    using Cons [of hi] Cons [of "PhysicalStart d + NumberOfPages d * PAGE_SIZE"]
    by (auto simp: Let_def word_less_nat_alt)
qed simp

lemma HighestAddress_upper:
  "d \<in> set descs \<Longrightarrow> IsBackedRam (DescType d) \<Longrightarrow>
   unat (PhysicalStart d + NumberOfPages d * PAGE_SIZE) \<le>
   unat (fold (\<lambda>d hi. if \<not> IsBackedRam (DescType d) then hi
     else let End = PhysicalStart d + NumberOfPages d * PAGE_SIZE in if End > hi then End else hi) descs hi)"
proof (induction descs arbitrary: hi)
  case (Cons x descs)
  show ?case
  proof (cases "x = d")
    case True
    with Cons.prems show ?thesis
      using HighestAddress_mono [of hi descs]
        HighestAddress_mono [of "PhysicalStart d + NumberOfPages d * PAGE_SIZE" descs]
      by (auto simp: Let_def word_less_nat_alt)
  next
    case False
    with Cons show ?thesis by simp
  qed
qed simp

lemma FindBitmapRegion_found:
  "\<exists>d \<in> set descs. conventional d \<and> NumberOfPages d \<ge> pages \<Longrightarrow>
   \<exists>d \<in> set descs. conventional d \<and> NumberOfPages d \<ge> pages \<and> FindBitmapRegion pages descs = PhysicalStart d"
  by (induction descs) auto

text \<open>The size of the bitmap in pages, as \<open>InitPmm\<close> computes it.\<close>
definition bitmap_pages :: "mem_desc list \<Rightarrow> u64" where
  "bitmap_pages descs =
     ((HighestAddress descs div PAGE_SIZE + 7) div 8 + PAGE_SIZE - 1) div PAGE_SIZE"

definition bitmap_run :: "mem_desc list \<Rightarrow> u64 set" where
  "bitmap_run descs = page_run (FindBitmapRegion (bitmap_pages descs) descs div PAGE_SIZE)
     (unat (bitmap_pages descs))"

text \<open>What the UEFI specification promises of a memory map, and a region that holds the bitmap.\<close>
definition memmap_ok :: "mem_desc list \<Rightarrow> bool" where
  "memmap_ok descs \<longleftrightarrow>
     (\<forall>d \<in> set descs. unat (PhysicalStart d) + unat (NumberOfPages d) * 4096 < 2 ^ 64)
     \<and> sorted_wrt (\<lambda>a b. pages_of a \<inter> pages_of b = {}) (filter conventional descs)
     \<and> (\<exists>d \<in> set descs. conventional d \<and> NumberOfPages d \<ge> bitmap_pages descs)"

lemma memmap_region_in_total:
  assumes "memmap_ok descs" "d \<in> set descs" "conventional d"
  shows "unat (PhysicalStart d div PAGE_SIZE) + unat (NumberOfPages d)
    \<le> unat (HighestAddress descs div PAGE_SIZE)"
proof -
  from assms have nowrap: "unat (PhysicalStart d) + unat (NumberOfPages d) * 4096 < 2 ^ 64"
    by (simp add: memmap_ok_def)
  have "unat (NumberOfPages d * PAGE_SIZE) = unat (NumberOfPages d) * 4096"
    using nowrap by (subst unat_mult_nowrap) (simp_all add: PAGE_SIZE_def)
  with nowrap have "unat (PhysicalStart d + NumberOfPages d * PAGE_SIZE)
      = unat (PhysicalStart d) + unat (NumberOfPages d) * 4096"
    by (subst unat_add_nowrap) simp_all
  moreover have "unat (PhysicalStart d + NumberOfPages d * PAGE_SIZE) \<le> unat (HighestAddress descs)"
    unfolding HighestAddress_def using assms
    by (intro HighestAddress_upper) (simp_all add: IsBackedRam_def EFI_CONVENTIONAL_MEMORY_def)
  ultimately have "(unat (PhysicalStart d) + unat (NumberOfPages d) * 4096) div 4096
      \<le> unat (HighestAddress descs) div 4096"
    by (simp add: div_le_mono)
  then show ?thesis by (simp add: unat_div_word) (simp add: PAGE_SIZE_def)
qed

lemma card_free_set_le: "card (free_set s) \<le> unat (TotalPages s)"
proof -
  have "card (free_set s) = card (unat ` free_set s)"
    by (rule card_image [symmetric]) (simp add: inj_on_def word_unat_eq_iff)
  also have "\<dots> \<le> card {..< unat (TotalPages s)}"
    by (rule card_mono) (auto simp: free_set_def word_less_nat_alt)
  finally show ?thesis by simp
qed

lemma counted_unat: "counted s \<Longrightarrow> unat (FreePages s) = card (free_set s)"
  using card_free_set_le [of s] unat_u64_lt [of "TotalPages s"]
  by (simp add: counted_def unat_of_nat)

text \<open>The three phases of \<open>InitPmm\<close> after the bitmap has been placed.\<close>
lemma InitPmm_phases:
  "InitPmm descs s =
     (let total = HighestAddress descs div PAGE_SIZE;
          s = for_upto total SetBit
                (s\<lparr>TotalPages := total, BitmapPages := bitmap_pages descs\<rparr>);
          s = fold FreeRegion descs (s\<lparr>FreePages := 0\<rparr>);
          s = set_run (FindBitmapRegion (bitmap_pages descs) descs div PAGE_SIZE)
                (unat (bitmap_pages descs)) s
      in reserve_run (unat (if 256 > total then total else 256)) s)"
  by (simp add: InitPmm_def Let_def bitmap_pages_def for_upto_def set_run_def reserve_run_def)

lemma bitmap_run_subset:
  assumes "memmap_ok descs"
  shows "bitmap_run descs \<subseteq> (\<Union>d \<in> {d \<in> set descs. conventional d}. pages_of d)"
    and "unat (FindBitmapRegion (bitmap_pages descs) descs div PAGE_SIZE)
           + unat (bitmap_pages descs) \<le> 2 ^ 64"
proof -
  from assms obtain d where d: "d \<in> set descs" "conventional d" "NumberOfPages d \<ge> bitmap_pages descs"
    and addr: "FindBitmapRegion (bitmap_pages descs) descs = PhysicalStart d"
    using FindBitmapRegion_found [of descs "bitmap_pages descs"] unfolding memmap_ok_def by blast
  have "bitmap_run descs \<subseteq> pages_of d"
    using d(3) by (auto simp: bitmap_run_def pages_of_def page_run_def addr word_le_nat_alt)
  with d show "bitmap_run descs \<subseteq> (\<Union>d \<in> {d \<in> set descs. conventional d}. pages_of d)" by blast
  show "unat (FindBitmapRegion (bitmap_pages descs) descs div PAGE_SIZE)
           + unat (bitmap_pages descs) \<le> 2 ^ 64"
    using memmap_region_in_total [OF assms d(1,2)] d(3)
      unat_u64_lt [of "HighestAddress descs div PAGE_SIZE"]
    unfolding addr word_le_nat_alt by simp
qed

lemma page_run_low: "p \<in> page_run 0 n \<longleftrightarrow> unat p < n"
  by (simp add: page_run_def)

lemma InitPmm_core:
  fixes s :: pmm
  assumes ok: "memmap_ok descs"
  defines "s' \<equiv> InitPmm descs s"
  shows "TotalPages s' = HighestAddress descs div PAGE_SIZE" and "counted s'"
    and "free_set s' = (\<Union>d \<in> {d \<in> set descs. conventional d}. pages_of d) - bitmap_run descs
           - {p. p < 256}"
proof -
  let ?T = "HighestAddress descs div PAGE_SIZE"
  let ?s1 = "for_upto ?T SetBit (s\<lparr>TotalPages := ?T, BitmapPages := bitmap_pages descs\<rparr>)"
  let ?s2 = "?s1\<lparr>FreePages := 0\<rparr>" and ?s3 = "fold FreeRegion descs (?s1\<lparr>FreePages := 0\<rparr>)"
  let ?s4 = "set_run (FindBitmapRegion (bitmap_pages descs) descs div PAGE_SIZE)
                (unat (bitmap_pages descs)) ?s3"
  let ?all = "\<Union>d \<in> {d \<in> set descs. conventional d}. pages_of d"
  let ?k = "unat (if 256 > ?T then ?T else 256)"
  have 2: "TotalPages ?s2 = ?T" "free_set ?s2 = {}"
    using set_all_spec [of ?T "s\<lparr>TotalPages := ?T, BitmapPages := bitmap_pages descs\<rparr>"]
    by (simp_all add: free_set_def)
  then have "counted ?s2" by (simp add: counted_def)
  with 2 ok have 3: "TotalPages ?s3 = ?T" "free_set ?s3 = ?all" "counted ?s3"
    using FreeRegions_spec [of descs ?s2] memmap_region_in_total [OF ok]
    by (simp_all add: memmap_ok_def)
  have 4: "TotalPages ?s4 = ?T" "free_set ?s4 = ?all - bitmap_run descs" "counted ?s4"
    using set_run_spec [OF bitmap_run_subset(2) [OF ok], of ?s3] bitmap_run_subset(1) [OF ok] 3
    by (simp_all add: bitmap_run_def)
  have s': "s' = reserve_run ?k ?s4" by (simp add: s'_def InitPmm_phases Let_def)
  have "?k \<le> unat (TotalPages ?s4)" by (simp add: 4 word_less_nat_alt)
  note run = reserve_run_spec [OF this 4(3)]
  show "TotalPages s' = ?T" "counted s'" using run 4 by (simp_all add: s')
  have low: "q \<in> page_run 0 ?k \<longleftrightarrow> q < 256" if "q < ?T" for q
    using that by (simp add: page_run_low word_less_nat_alt)
  have "q < ?T" if "q \<in> free_set ?s4" for q using that 4(1) by (simp add: free_set_def)
  with low have "free_set ?s4 - page_run 0 ?k = free_set ?s4 - {p. p < 256}" by blast
  with run 4 show "free_set s' = ?all - bitmap_run descs - {p. p < 256}" by (simp add: s')
qed

lemma InitPmm_ok:
  assumes "memmap_ok descs"
  shows "pmm_ok (InitPmm descs s)"
proof -
  note core = InitPmm_core [OF assms, of s]
  have "unat (HighestAddress descs div PAGE_SIZE) \<le> 2 ^ 52"
    using unat_u64_lt [of "HighestAddress descs"] by (simp add: unat_div_word PAGE_SIZE_def)
  then have "HighestAddress descs div PAGE_SIZE \<le> 2 ^ 52" by (simp add: word_le_nat_alt)
  with core show ?thesis by (simp add: pmm_ok_def counted_unat)
qed

text \<open>C1: On a firmware memory map whose regions do not wrap or overlap and that has a region for the
  bitmap, \<open>InitPmm\<close> leaves exactly the conventional pages free, less those of the bitmap and the
  first 256, and establishes the allocator's invariant: the counter is the number of free pages.\<close>
theorem InitPmm_spec:
  assumes "memmap_ok descs"
  shows "pmm_ok (InitPmm descs s) \<and>
    TotalPages (InitPmm descs s) = HighestAddress descs div PAGE_SIZE \<and>
    free_set (InitPmm descs s) =
      (\<Union>d \<in> {d \<in> set descs. conventional d}. pages_of d) - bitmap_run descs - {p. p < 256}"
  using InitPmm_core [OF assms] InitPmm_ok [OF assms] by simp

text \<open>A small machine: 636 KB of low memory and 4 MB above the first megabyte.\<close>
definition small_map :: "mem_desc list" where
  "small_map =
     [\<lparr>DescType = 7, PhysicalStart = 0, NumberOfPages = 159\<rparr>,
      \<lparr>DescType = 11, PhysicalStart = 0xA0000, NumberOfPages = 96\<rparr>,
      \<lparr>DescType = 7, PhysicalStart = 0x100000, NumberOfPages = 1024\<rparr>]"

lemma small_map_ok: "memmap_ok small_map"
proof -
  have "bitmap_pages small_map = 1"
    by (simp add: bitmap_pages_def HighestAddress_def small_map_def IsBackedRam_def PAGE_SIZE_def Let_def)
  moreover have "page_run 0 159 \<inter> page_run 256 1024 = {}"
    by (auto simp: page_run_def)
  ultimately show ?thesis
    by (simp add: memmap_ok_def) (simp add: small_map_def EFI_CONVENTIONAL_MEMORY_def pages_of_def
        PAGE_SIZE_def)
qed

lemma InitPmm_spec_witness:
  "pmm_ok (InitPmm small_map \<lparr>Bitmap = (\<lambda>_. 0), BitmapPages = 0, TotalPages = 0, FreePages = 0\<rparr>)"
  using InitPmm_spec [OF small_map_ok] by simp

section \<open>Clients of the allocator\<close>

text \<open>Setting a clear bit and clearing it again gives the same byte.\<close>
lemma ClearBit_SetBit:
  assumes "\<not> TestBit s p"
  shows "Bitmap (ClearBit p (SetBit p s)) = Bitmap s"
proof -
  let ?b = "Bitmap s (p div 8)" and ?n = "unat (p mod 8)"
  have "\<not> bit ?b ?n" using assms by (simp add: TestBit_bit)
  then have "(?b OR push_bit ?n 1) AND NOT (push_bit ?n 1) = ?b"
    by (intro bit_word_eqI) (auto simp: bit_or_iff bit_and_iff bit_not_iff bit_exp_iff)
  then show ?thesis by (simp add: ClearBit_def SetBit_def)
qed

lemma FreePage_Alloc:
  assumes "\<not> TestBit s p" "p < 2 ^ 52"
  shows "FreePage (p * PAGE_SIZE) ((SetBit p s)\<lparr>FreePages := FreePages s - 1\<rparr>) = s"
proof -
  have "Bitmap (ClearBit p ((SetBit p s)\<lparr>FreePages := FreePages s - 1\<rparr>)) = Bitmap s"
    using ClearBit_SetBit [OF assms(1)] by (simp add: ClearBit_def)
  then show ?thesis
    by (simp add: FreePage_def Let_def page_addr_div [OF assms(2)])
       (simp add: ClearBit_def SetBit_def)
qed

definition alloc_limit :: "pmm \<Rightarrow> bool \<Rightarrow> u64" where
  "alloc_limit s below4g = (if below4g then min (2 ^ 20) (TotalPages s) else TotalPages s)"

definition alloc :: "bool \<Rightarrow> pmm \<Rightarrow> u64 \<times> pmm" where
  "alloc below4g s = AllocFrom 0 (alloc_limit s below4g) s"

lemma alloc_eq: "AllocPage s = alloc False s" "AllocPageBelow4G s = alloc True s"
  by (auto simp add: AllocPage_def AllocPageBelow4G_def alloc_def alloc_limit_def PAGE_SIZE_def
      Let_def min_def not_le not_less)

lemma alloc_limit_le: "alloc_limit s below4g \<le> TotalPages s"
  by (simp add: alloc_limit_def)

lemmas alloc_contract = AllocFrom_ok [OF _ alloc_limit_le, folded alloc_def]

text \<open>The pages a set of outstanding addresses stands for.\<close>
definition owned_ok :: "pmm \<Rightarrow> u64 set \<Rightarrow> bool" where
  "owned_ok s own \<longleftrightarrow>
     (\<forall>a \<in> own. \<exists>p. a = p * PAGE_SIZE \<and> 256 \<le> p \<and> p < TotalPages s \<and> TestBit s p)"

text \<open>The kernel as a client: it allocates, and frees only pages it holds.\<close>
inductive pmm_step :: "pmm \<times> u64 set \<Rightarrow> pmm \<times> u64 set \<Rightarrow> bool" where
  alloc: "AllocPage s = (a, s') \<Longrightarrow> a \<noteq> 0 \<Longrightarrow> pmm_step (s, own) (s', insert a own)"
| alloc_low: "AllocPageBelow4G s = (a, s') \<Longrightarrow> a \<noteq> 0 \<Longrightarrow> pmm_step (s, own) (s', insert a own)"
| fail: "fst (AllocPage s) = 0 \<Longrightarrow> pmm_step (s, own) (snd (AllocPage s), own)"
| fail_low: "fst (AllocPageBelow4G s) = 0 \<Longrightarrow> pmm_step (s, own) (snd (AllocPageBelow4G s), own)"
| free: "a \<in> own \<Longrightarrow> pmm_step (s, own) (FreePage a s, own - {a})"

inductive_cases pmm_stepE: "pmm_step (s, own) t"

definition client_inv :: "nat \<Rightarrow> u64 \<Rightarrow> pmm \<times> u64 set \<Rightarrow> bool" where
  "client_inv n T = (\<lambda>(s, own). pmm_ok s \<and> owned_ok s own \<and> TotalPages s = T
     \<and> card (free_set s) + card own = n)"

lemma owned_not_free: "owned_ok s own \<Longrightarrow> p * PAGE_SIZE \<in> own \<Longrightarrow> p < 2 ^ 52 \<Longrightarrow>
    TotalPages s \<le> 2 ^ 52 \<Longrightarrow> TestBit s p"
proof -
  assume a: "owned_ok s own" "p * PAGE_SIZE \<in> own" "p < 2 ^ 52" "TotalPages s \<le> 2 ^ 52"
  then obtain q where q: "p * PAGE_SIZE = q * PAGE_SIZE" "q < TotalPages s" "TestBit s q"
    by (auto simp: owned_ok_def)
  from q(2) a(4) have "q < 2 ^ 52" by (rule less_le_trans)
  with q(1) a(3) have "p = q" by (metis page_addr_div)
  with q(3) show ?thesis by simp
qed

lemma free_set_lt: "pmm_ok s \<Longrightarrow> p \<in> free_set s \<Longrightarrow> p < 2 ^ 52"
  by (auto simp: pmm_ok_def free_set_def intro: less_le_trans)

lemma alloc_obtain:
  assumes "alloc b s = (a, s')" "a \<noteq> 0"
  obtains p where "p < alloc_limit s b" "\<not> TestBit s p"
    "a = p * PAGE_SIZE" "s' = (SetBit p s)\<lparr>FreePages := FreePages s - 1\<rparr>"
proof (cases rule: AllocFrom_cases [of "alloc_limit s b" s])
  case 1
  with assms show thesis by (simp add: alloc_def)
next
  case (2 p)
  with assms(1) have "a = p * PAGE_SIZE" "s' = (SetBit p s)\<lparr>FreePages := FreePages s - 1\<rparr>"
    by (simp_all only: alloc_def prod.inject)
  with 2(1,2) show thesis by (rule that)
qed

lemma alloc_fresh:
  assumes "pmm_ok s" "owned_ok s own" "alloc b s = (a, s')" "a \<noteq> 0"
  shows "a \<notin> own" "owned_ok s' (insert a own)" "Suc (card (free_set s')) = card (free_set s)"
    and "\<exists>p \<in> free_set s. unat a = unat p * 4096 \<and> p < alloc_limit s b \<and> 256 \<le> p"
    and "FreePage a s' = s"
proof -
  obtain p where p: "p < alloc_limit s b" "\<not> TestBit s p"
    and res: "a = p * PAGE_SIZE" "s' = (SetBit p s)\<lparr>FreePages := FreePages s - 1\<rparr>"
    using assms(3,4) by (rule alloc_obtain)
  have "p < TotalPages s" using p(1) alloc_limit_le by (rule less_le_trans)
  with p(2) have free: "p \<in> free_set s" by (simp add: free_set_def)
  note lt = free_set_lt [OF assms(1) free]
  have T: "TotalPages s \<le> 2 ^ 52" and low: "256 \<le> p"
    using assms(1) free by (simp add: pmm_ok_def, meson pmm_ok_def not_le assms(1) free)
  show "a \<notin> own" using owned_not_free [OF assms(2) _ lt T] p(2) unfolding res(1) by blast
  show "\<exists>p \<in> free_set s. unat a = unat p * 4096 \<and> p < alloc_limit s b \<and> 256 \<le> p"
    using free p(1) low pmm_ok_take(3) [OF assms(1) free] unfolding res(1) by blast
  have fields: "TotalPages s' = TotalPages s" "TestBit s' q \<longleftrightarrow> q = p \<or> TestBit s q" for q
    by (simp_all add: res(2))
  have "p < TotalPages s" using free by (simp add: free_set_def)
  with low show "owned_ok s' (insert a own)"
    using assms(2) unfolding owned_ok_def fields res(1) by blast
  show "Suc (card (free_set s')) = card (free_set s)"
    unfolding res free_set_SetBit by (rule card_Suc_Diff1 [OF finite_free_set free])
  show "FreePage a s' = s" unfolding res by (rule FreePage_Alloc [OF p(2) lt])
qed

lemma free_owned:
  assumes "pmm_ok s" "owned_ok s own" "a \<in> own"
  shows "pmm_ok (FreePage a s)" "owned_ok (FreePage a s) (own - {a})"
    and "card (free_set (FreePage a s)) = Suc (card (free_set s))"
    and "TotalPages (FreePage a s) = TotalPages s"
proof -
  from assms obtain p where p: "a = p * PAGE_SIZE" "256 \<le> p" "p < TotalPages s" "TestBit s p"
    by (auto simp: owned_ok_def)
  with assms(1) have lt: "p < 2 ^ 52" by (auto simp: pmm_ok_def intro: less_le_trans)
  have F: "FreePage a s = (ClearBit p s)\<lparr>FreePages := FreePages s + 1\<rparr>"
    using p(4) by (simp add: FreePage_def p(1) page_addr_div [OF lt])
  have set: "free_set (FreePage a s) = insert p (free_set s)" "p \<notin> free_set s"
    using p(3,4) by (simp_all only: F free_set_ClearBit) (simp add: free_set_def)
  then show card: "card (free_set (FreePage a s)) = Suc (card (free_set s))" by simp
  show T: "TotalPages (FreePage a s) = TotalPages s" by (simp add: F)
  have "unat (FreePages s + 1) = unat (FreePages s) + 1"
    using card card_free_set_le [of "FreePage a s"] T assms(1) unat_u64_lt [of "TotalPages s"]
    by (subst unat_add_nowrap) (simp_all add: pmm_ok_def)
  with card have "unat (FreePages (FreePage a s)) = card (free_set (FreePage a s))"
    using assms(1) by (simp add: pmm_ok_def) (simp add: F)
  with T set p(2) assms(1) show "pmm_ok (FreePage a s)" by (auto simp: pmm_ok_def)
  show "owned_ok (FreePage a s) (own - {a})"
    unfolding owned_ok_def
  proof
    fix b assume b: "b \<in> own - {a}"
    with assms(2) obtain q where q: "b = q * PAGE_SIZE" "256 \<le> q" "q < TotalPages s" "TestBit s q"
      by (auto simp: owned_ok_def)
    have "TestBit (FreePage a s) q \<longleftrightarrow> q \<noteq> p \<and> TestBit s q" by (simp add: F)
    with b p(1) q show "\<exists>q. b = q * PAGE_SIZE \<and> 256 \<le> q \<and> q < TotalPages (FreePage a s) \<and>
        TestBit (FreePage a s) q"
      unfolding T by blast
  qed
qed

text \<open>What an operation that allocates and frees can say about the free pages.\<close>
lemma alloc_free_set:
  assumes "alloc b s = (a, s')" "a \<noteq> 0"
  obtains p where "a = p * PAGE_SIZE" "p \<in> free_set s" "free_set s' = free_set s - {p}"
    "TestBit s' p" "TotalPages s' = TotalPages s"
    "\<And>q. TestBit s' q \<longleftrightarrow> q = p \<or> TestBit s q"
proof -
  obtain p where p: "p < alloc_limit s b" "\<not> TestBit s p"
    and res: "a = p * PAGE_SIZE" "s' = (SetBit p s)\<lparr>FreePages := FreePages s - 1\<rparr>"
    using assms by (rule alloc_obtain)
  have "p < TotalPages s" using p(1) alloc_limit_le by (rule less_le_trans)
  with p(2) have "p \<in> free_set s" by (simp add: free_set_def)
  with that [OF res(1)] show thesis by (simp add: res(2) free_set_SetBit)
qed

lemma FreePage_set:
  assumes "TestBit s p" "p < TotalPages s" "TotalPages s \<le> 2 ^ 52"
  shows "free_set (FreePage (p * PAGE_SIZE) s) = insert p (free_set s)"
    and "TestBit (FreePage (p * PAGE_SIZE) s) q \<longleftrightarrow> q \<noteq> p \<and> TestBit s q"
    and "TotalPages (FreePage (p * PAGE_SIZE) s) = TotalPages s"
    and "FreePages (FreePage (p * PAGE_SIZE) s) = FreePages s + 1"
proof -
  have "p < 2 ^ 52" using assms(2,3) by (rule less_le_trans)
  then have F: "FreePage (p * PAGE_SIZE) s = (ClearBit p s)\<lparr>FreePages := FreePages s + 1\<rparr>"
    using assms(1) by (simp add: FreePage_def page_addr_div)
  show "free_set (FreePage (p * PAGE_SIZE) s) = insert p (free_set s)"
    unfolding F using assms(2) by (rule free_set_ClearBit)
  show "TestBit (FreePage (p * PAGE_SIZE) s) q \<longleftrightarrow> q \<noteq> p \<and> TestBit s q"
    and "TotalPages (FreePage (p * PAGE_SIZE) s) = TotalPages s"
    and "FreePages (FreePage (p * PAGE_SIZE) s) = FreePages s + 1"
    by (simp_all add: F)
qed

lemma client_inv_step:
  assumes "pmm_step x y" "client_inv n T x"
  shows "client_inv n T y"
  using assms
proof (cases rule: pmm_step.cases)
  case (alloc s a s' own)
  with assms(2) alloc_fresh [of s own False a s'] alloc_contract [of s False a s'] show ?thesis
    by (auto simp: client_inv_def alloc_eq)
next
  case (alloc_low s a s' own)
  with assms(2) alloc_fresh [of s own True a s'] alloc_contract [of s True a s'] show ?thesis
    by (auto simp: client_inv_def alloc_eq)
next
  case (fail s own)
  with assms(2) alloc_contract [of s False 0 "snd (AllocPage s)"] show ?thesis
    by (cases "AllocPage s") (auto simp: client_inv_def alloc_eq split: if_splits)
next
  case (fail_low s own)
  with assms(2) alloc_contract [of s True 0 "snd (AllocPageBelow4G s)"] show ?thesis
    by (cases "AllocPageBelow4G s") (auto simp: client_inv_def alloc_eq split: if_splits)
next
  case (free a own s)
  have "card own > 0" using free finite [of own] by (auto simp: card_gt_0_iff)
  with free assms(2) free_owned [of s own a] show ?thesis
    by (auto simp: client_inv_def)
qed

lemma client_inv_reachable:
  "pmm_step\<^sup>*\<^sup>* x y \<Longrightarrow> client_inv n T x \<Longrightarrow> client_inv n T y"
  by (induction rule: rtranclp_induct) (auto intro: client_inv_step)

text \<open>C2: However the kernel interleaves allocations and frees, starting from an initialised
  allocator: the free counter plus the number of pages held is constant, and a successful allocation
  returns a page-aligned address of RAM above the first megabyte that nobody holds; the allocator for
  devices stays below 4 GB.\<close>
theorem alloc_safety:
  assumes "pmm_ok s0" "pmm_step\<^sup>*\<^sup>* (s0, {}) (s, own)"
  shows "unat (GetFreePageCount s) + card own = unat (GetFreePageCount s0) \<and>
    (\<forall>a s'. AllocPage s = (a, s') \<and> a \<noteq> 0 \<longrightarrow> a \<notin> own \<and> unat a mod 4096 = 0 \<and>
       0x100000 \<le> unat a \<and> unat a < unat (GetTotalPageCount s0) * 4096) \<and>
    (\<forall>a s'. AllocPageBelow4G s = (a, s') \<and> a \<noteq> 0 \<longrightarrow> a \<notin> own \<and> unat a mod 4096 = 0 \<and>
       0x100000 \<le> unat a \<and> unat a + 4096 \<le> 0x100000000)"
proof -
  have "client_inv (card (free_set s0)) (TotalPages s0) (s0, {})"
    using assms(1) by (simp add: client_inv_def owned_ok_def)
  from client_inv_reachable [OF assms(2) this] have inv: "pmm_ok s" "owned_ok s own"
      "TotalPages s = TotalPages s0" "card (free_set s) + card own = card (free_set s0)"
    by (simp_all add: client_inv_def)
  have "a \<notin> own \<and> unat a mod 4096 = 0 \<and> 0x100000 \<le> unat a \<and>
      unat a < unat (alloc_limit s b) * 4096 \<and> unat a + 4096 \<le> unat (alloc_limit s b) * 4096"
    if "alloc b s = (a, s')" "a \<noteq> 0" for b a s'
    using alloc_fresh(1,4) [OF inv(1,2) that] by (auto simp: word_less_nat_alt word_le_nat_alt)
  from this [of False] this [of True] inv assms(1) show ?thesis
    unfolding alloc_eq GetFreePageCount_def GetTotalPageCount_def
    by (fastforce simp: alloc_limit_def pmm_ok_def unat_min_word)
qed

text \<open>An allocator with a single free page, the first one above the reserved megabyte.\<close>
definition one_page :: pmm where
  "one_page = \<lparr>Bitmap = (\<lambda>i. if i = 32 then 0 else 255), BitmapPages = 1, TotalPages = 257,
     FreePages = 1\<rparr>"

lemma one_page_TestBit: "q < 257 \<Longrightarrow> TestBit one_page q \<longleftrightarrow> q \<noteq> 256"
proof -
  assume q: "q < 257"
  have "q div 8 = 32 \<longleftrightarrow> q = 256"
    using q by (simp add: word_unat_eq_iff word_less_nat_alt unat_div_word) arith
  moreover have "bit (255 :: u8) (unat (q mod 8))"
    using mod8_lt [of q] by (simp add: mask_numerals(7) bit_mask_iff)
  ultimately show ?thesis by (simp add: TestBit_bit) (simp add: one_page_def)
qed

lemma one_page_ok: "pmm_ok one_page"
proof -
  have "free_set one_page = {256}"
    using one_page_TestBit by (auto simp: free_set_def) (simp_all add: one_page_def)
  moreover have "FreePages one_page = 1" "TotalPages one_page = 257" by (simp_all add: one_page_def)
  ultimately show ?thesis by (auto simp: pmm_ok_def)
qed

lemma one_page_alloc: "AllocPage one_page = (0x100000, (SetBit 256 one_page)\<lparr>FreePages := 0\<rparr>)"
proof -
  have "AllocFrom 0 257 one_page =
      (256 * PAGE_SIZE, (SetBit 256 one_page)\<lparr>FreePages := FreePages one_page - 1\<rparr>)"
  proof (rule AllocFrom_some)
    show "TestBit one_page q" if "q < 256" for q
    proof -
      from that have "q < 257" by (rule less_trans) simp
      with that show ?thesis by (auto simp: one_page_TestBit)
    qed
  qed (simp_all add: one_page_TestBit)
  then show ?thesis by (simp add: AllocPage_def) (simp add: one_page_def PAGE_SIZE_def)
qed

lemma alloc_safety_witness:
  "\<exists>s own. pmm_step\<^sup>*\<^sup>* (one_page, {}) (s, own) \<and> own \<noteq> {} \<and>
     unat (GetFreePageCount s) + card own = unat (GetFreePageCount one_page)"
proof -
  have "pmm_step\<^sup>*\<^sup>* (one_page, {}) ((SetBit 256 one_page)\<lparr>FreePages := 0\<rparr>, {0x100000})"
    using pmm_step.alloc [OF one_page_alloc, of "{}"] by (intro r_into_rtranclp) simp
  with alloc_safety [OF one_page_ok this] show ?thesis by blast
qed

text \<open>Freeing a page directly after allocating it restores the allocator exactly, bitmap and
  counter included, for both allocators.\<close>
theorem alloc_free_roundtrip:
  assumes "pmm_ok s"
  shows "(fst (AllocPage s) \<noteq> 0 \<longrightarrow> FreePage (fst (AllocPage s)) (snd (AllocPage s)) = s) \<and>
    (fst (AllocPageBelow4G s) \<noteq> 0 \<longrightarrow>
       FreePage (fst (AllocPageBelow4G s)) (snd (AllocPageBelow4G s)) = s)"
  using alloc_fresh(5) [OF assms, of "{}"] by (simp add: alloc_eq owned_ok_def prod_eq_iff)

lemma alloc_free_roundtrip_witness:
  "fst (AllocPage one_page) \<noteq> 0 \<and> FreePage (fst (AllocPage one_page)) (snd (AllocPage one_page)) = one_page"
  using alloc_free_roundtrip [OF one_page_ok] by (simp add: one_page_alloc)

end
