(* ===== verification/Disk.thy ===== *)
theory Disk
  imports Text
begin

text \<open>
  The interface between the block layer and everything that reads a medium: a reader takes a device
  index, an LBA in 512-byte sectors and a count, and returns the bytes or \<open>None\<close> for the C return
  value 0. The locale \<open>disk\<close> states what the clients (\<open>fat32.c\<close>, \<open>part.c\<close>) rely on; it
  is interpreted on \<open>BlockReadFrom\<close> in the theory of the block device table.
\<close>

type_synonym reader = "int \<Rightarrow> u64 \<Rightarrow> u32 \<Rightarrow> u8 list option"

locale disk =
  fixes rd :: "'b \<Rightarrow> reader"
    and honest :: "'b \<Rightarrow> int \<Rightarrow> medium \<Rightarrow> bool"
    and healthy :: "'b \<Rightarrow> int \<Rightarrow> nat \<Rightarrow> bool"
  assumes rd_honest: "honest b d m \<Longrightarrow> unat l + unat n \<le> 2 ^ 64 \<Longrightarrow> rd b d l n = Some bs \<Longrightarrow>
      bs = media_bytes m (unat l * 512) (unat n * 512)"
    and rd_healthy: "honest b d m \<Longrightarrow> healthy b d sz \<Longrightarrow> unat l + unat n \<le> sz \<Longrightarrow> rd b d l n \<noteq> None"
begin

lemma rd_cases:
  assumes "honest b d m" "unat l + unat n \<le> 2 ^ 64"
  obtains "rd b d l n = None" | "rd b d l n = Some (media_bytes m (unat l * 512) (unat n * 512))"
  using rd_honest [OF assms] by (cases "rd b d l n") auto

lemma rd_sector:
  assumes "honest b d m" "rd b d l 1 = Some bs"
  shows "bs = media_bytes m (unat l * 512) 512"
proof -
  have "unat l + unat (1 :: u32) \<le> 2 ^ 64" using unat_u64_lt [of l] by simp
  from rd_honest [OF assms(1) this assms(2)] show ?thesis by simp
qed

lemma rd_total:
  assumes "honest b d m" "healthy b d sz" "sz \<le> 2 ^ 64" "unat l + unat n \<le> sz"
  shows "rd b d l n = Some (media_bytes m (unat l * 512) (unat n * 512))"
  using rd_healthy [OF assms(1,2,4)] rd_honest [OF assms(1), of l n] assms(3,4) by auto

end

end
