(* ===== verification/Blockdev.thy ===== *)
theory Blockdev
  imports Disk
begin

text \<open>
  The block device table (\<open>kernel/blockdev.c\<close>). Drivers are code the table only calls through
  function pointers: a driver is a partial function from a native sector number and a count to the
  bytes it puts in the buffer, \<open>None\<close> for its return value 0. Reads are in units of 512 bytes
  whatever the device's sector size is; the theory shows that the splitting, bouncing and range
  checks of \<open>BlockReadFrom\<close> give exactly the bytes of the medium, that a driver is only ever
  asked for what it promised to serve, and what the registration functions keep of the table. The
  locale \<open>disk\<close> is the interface the file systems use.
\<close>

type_synonym block_read_fn = "u64 \<Rightarrow> u32 \<Rightarrow> u8 list option"
type_synonym block_read_ex_fn = "u64 \<Rightarrow> u64 \<Rightarrow> u32 \<Rightarrow> u8 list option"

record block_device =
  Legacy :: "block_read_fn option"
  Read :: "block_read_ex_fn option"
  Context :: u64
  SectorSize :: u32
  MaxCount :: u32
  SectorCount :: u64
  Online :: bool
  Name :: cstring

text \<open>The table; \<open>DeviceCount\<close> is its length.\<close>
type_synonym blocks = "block_device list"

definition MAX_BLOCK_DEVICES :: nat where "MAX_BLOCK_DEVICES = 64"
definition NAME_SIZE :: nat where "NAME_SIZE = 16"
definition LEGACY_MAX_COUNT :: u32 where "LEGACY_MAX_COUNT = 8"

definition ValidSectorSize :: "u32 \<Rightarrow> bool" where
  "ValidSectorSize Size \<longleftrightarrow> Size = 512 \<or> Size = 1024 \<or> Size = 2048 \<or> Size = 4096"

definition CopyName :: "cstring \<Rightarrow> cstring" where
  "CopyName Src = copy_loop Src (NAME_SIZE - 1)"

definition NameEq :: "cstring \<Rightarrow> cstring \<Rightarrow> bool" where
  "NameEq A B = str_eq A B"

fun BlockFindFrom :: "int \<Rightarrow> blocks \<Rightarrow> cstring \<Rightarrow> int" where
  "BlockFindFrom i [] n = -1"
| "BlockFindFrom i (D # Ds) n = (if NameEq (Name D) n then i else BlockFindFrom (i + 1) Ds n)"

definition BlockFind :: "blocks \<Rightarrow> cstring \<Rightarrow> int" where
  "BlockFind b n = BlockFindFrom 0 b n"

definition AddDevice :: "cstring \<Rightarrow> block_read_fn option \<Rightarrow> block_read_ex_fn option \<Rightarrow> u64 \<Rightarrow> u32
    \<Rightarrow> u64 \<Rightarrow> u32 \<Rightarrow> blocks \<Rightarrow> int \<times> blocks" where
  "AddDevice n Leg Rd Ctx SecSize SecCount MaxCnt b =
     (if length b \<ge> MAX_BLOCK_DEVICES \<or> n = [] \<or> (Leg = None \<and> Rd = None) then (-1, b)
      else if \<not> ValidSectorSize SecSize then (-1, b)
      else let Local = CopyName n
      in if BlockFind b Local \<ge> 0 then (-1, b)
      else let MaxCnt = (if MaxCnt = 0 then if SecSize = 512 then LEGACY_MAX_COUNT else 1 else MaxCnt);
               D = \<lparr>Legacy = Leg, Read = Rd, Context = Ctx, SectorSize = SecSize, MaxCount = MaxCnt,
                    SectorCount = SecCount, Online = True, Name = CopyName Local\<rparr>
      in (int (length b), b @ [D]))"

definition BlockRegister :: "cstring \<Rightarrow> block_read_fn option \<Rightarrow> blocks \<Rightarrow> int \<times> blocks" where
  "BlockRegister n ReadFn b = AddDevice n ReadFn None 0 512 0 LEGACY_MAX_COUNT b"

definition BlockRegisterEx :: "cstring \<Rightarrow> block_read_ex_fn option \<Rightarrow> u64 \<Rightarrow> u32 \<Rightarrow> u64 \<Rightarrow> u32
    \<Rightarrow> blocks \<Rightarrow> int \<times> blocks" where
  "BlockRegisterEx n ReadFn Ctx SecSize SecCount MaxCnt b =
     AddDevice n None ReadFn Ctx SecSize SecCount MaxCnt b"

text \<open>The name \<open>BlockRegisterNext\<close> tries in round \<open>N\<close>.\<close>
definition NumberedName :: "cstring \<Rightarrow> nat \<Rightarrow> cstring" where
  "NumberedName Prefix N = copy_loop Prefix (NAME_SIZE - 4)
     @ (if N \<ge> 10 then [digit_char (of_nat (N div 10))] else [])
     @ [digit_char (of_nat (N mod 10))]"

fun RegisterFirstFree :: "nat list \<Rightarrow> cstring \<Rightarrow> block_read_ex_fn option \<Rightarrow> u64 \<Rightarrow> u32 \<Rightarrow> u64 \<Rightarrow> u32
    \<Rightarrow> blocks \<Rightarrow> int \<times> blocks" where
  "RegisterFirstFree [] Prefix ReadFn Ctx SecSize SecCount MaxCnt b = (-1, b)"
| "RegisterFirstFree (N # Ns) Prefix ReadFn Ctx SecSize SecCount MaxCnt b =
     (if BlockFind b (NumberedName Prefix N) < 0
      then AddDevice (NumberedName Prefix N) None ReadFn Ctx SecSize SecCount MaxCnt b
      else RegisterFirstFree Ns Prefix ReadFn Ctx SecSize SecCount MaxCnt b)"

definition BlockRegisterNext :: "cstring \<Rightarrow> block_read_ex_fn option \<Rightarrow> u64 \<Rightarrow> u32 \<Rightarrow> u64 \<Rightarrow> u32
    \<Rightarrow> blocks \<Rightarrow> int \<times> blocks" where
  "BlockRegisterNext Prefix ReadFn Ctx SecSize SecCount MaxCnt b =
     (if Prefix = [] then (-1, b)
      else RegisterFirstFree [0..<100] Prefix ReadFn Ctx SecSize SecCount MaxCnt b)"

definition bad_index :: "blocks \<Rightarrow> int \<Rightarrow> bool" where
  "bad_index b Index \<longleftrightarrow> Index < 0 \<or> Index \<ge> int (length b)"

definition BlockRemove :: "int \<Rightarrow> blocks \<Rightarrow> bool \<times> blocks" where
  "BlockRemove Index b =
     (if bad_index b Index then (False, b)
      else (True, b[nat Index := (b ! nat Index)\<lparr>Online := False\<rparr>]))"

definition BlockDeviceCount :: "blocks \<Rightarrow> int" where
  "BlockDeviceCount b = int (length b)"

definition BlockDeviceName :: "blocks \<Rightarrow> int \<Rightarrow> cstring" where
  "BlockDeviceName b Index = (if bad_index b Index then lit ''none'' else Name (b ! nat Index))"

definition BlockIsOnline :: "blocks \<Rightarrow> int \<Rightarrow> bool" where
  "BlockIsOnline b Index = (if bad_index b Index then False else Online (b ! nat Index))"

definition BlockSectorSize :: "blocks \<Rightarrow> int \<Rightarrow> u32" where
  "BlockSectorSize b Index = (if bad_index b Index then 0 else SectorSize (b ! nat Index))"

definition BlockSectorCount :: "blocks \<Rightarrow> int \<Rightarrow> u64" where
  "BlockSectorCount b Index = (if bad_index b Index then 0 else SectorCount (b ! nat Index))"

definition BlockSize512 :: "blocks \<Rightarrow> int \<Rightarrow> u64" where
  "BlockSize512 b Index = (if bad_index b Index then 0
     else SectorCount (b ! nat Index) * ucast (SectorSize (b ! nat Index) div 512))"

section \<open>Reading\<close>

definition DeviceRead :: "block_device \<Rightarrow> u64 \<Rightarrow> u32 \<Rightarrow> u8 list option" where
  "DeviceRead D Lba Count =
     (case Legacy D of Some f \<Rightarrow> f Lba Count
      | None \<Rightarrow> (case Read D of Some f \<Rightarrow> f (Context D) Lba Count | None \<Rightarrow> None))"

text \<open>The loop for devices with 512-byte sectors; the first argument bounds the rounds.\<close>
fun ReadDirect :: "nat \<Rightarrow> block_device \<Rightarrow> u64 \<Rightarrow> u32 \<Rightarrow> u8 list option" where
  "ReadDirect 0 D Lba Count = None"
| "ReadDirect (Suc fuel) D Lba Count =
     (if Count > 0
      then let Chunk = (if Count > MaxCount D then MaxCount D else Count)
           in case DeviceRead D Lba Chunk of None \<Rightarrow> None
              | Some bs \<Rightarrow> map_option (append bs)
                            (ReadDirect fuel D (Lba + ucast Chunk) (Count - Chunk))
      else Some [])"

text \<open>The loop for larger sectors: whole sectors go straight to the buffer, a partial one through
  the bounce buffer.\<close>
fun ReadScaled :: "nat \<Rightarrow> block_device \<Rightarrow> u32 \<Rightarrow> u64 \<Rightarrow> u32 \<Rightarrow> u8 list option" where
  "ReadScaled 0 D Ratio Lba Count = None"
| "ReadScaled (Suc fuel) D Ratio Lba Count =
     (if Count > 0
      then let Native = Lba div ucast Ratio; Offset = ucast (Lba mod ucast Ratio) :: u32
           in if Offset = 0 \<and> Count \<ge> Ratio
              then let Whole = Count div Ratio;
                       Whole = (if Whole > MaxCount D then MaxCount D else Whole)
                   in case DeviceRead D Native Whole of None \<Rightarrow> None
                      | Some bs \<Rightarrow> let Done = Whole * Ratio
                          in map_option (append bs)
                               (ReadScaled fuel D Ratio (Lba + ucast Done) (Count - Done))
              else case DeviceRead D Native 1 of None \<Rightarrow> None
                   | Some Bounce \<Rightarrow>
                       let Take = Ratio - Offset; Take = (if Take > Count then Count else Take);
                           Bytes = Take * 512
                       in map_option (append (bsub Bounce (unat Offset * 512) (unat Bytes)))
                            (ReadScaled fuel D Ratio (Lba + ucast Take) (Count - Take))
      else Some [])"

definition BlockReadFrom :: "blocks \<Rightarrow> int \<Rightarrow> u64 \<Rightarrow> u32 \<Rightarrow> u8 list option" where
  "BlockReadFrom b Index Lba Count =
     (if bad_index b Index then None
      else let D = b ! nat Index
      in if \<not> Online D then None
      else if Count = 0 then Some []
      else let Ratio = SectorSize D div 512; Total = SectorCount D * ucast Ratio
      in if SectorCount D \<noteq> 0 \<and> (Lba \<ge> Total \<or> ucast Count > Total - Lba) then None
      else if Ratio = 1 then ReadDirect (Suc (unat Count)) D Lba Count
      else ReadScaled (Suc (unat Count)) D Ratio Lba Count)"

section \<open>The contract of a driver\<close>

text \<open>The requests a driver has promised to serve.\<close>
definition legal :: "block_device \<Rightarrow> u64 \<Rightarrow> u32 \<Rightarrow> bool" where
  "legal D l n \<longleftrightarrow> 0 < n \<and> n \<le> MaxCount D \<and>
     (SectorCount D \<noteq> 0 \<longrightarrow> unat l + unat n \<le> unat (SectorCount D))"

text \<open>A driver never lies: when a legal request succeeds, the buffer holds the medium's bytes.\<close>
definition drv_ok :: "block_device \<Rightarrow> medium \<Rightarrow> bool" where
  "drv_ok D m \<longleftrightarrow> (\<forall>l n bs. legal D l n \<longrightarrow> DeviceRead D l n = Some bs \<longrightarrow>
     bs = media_bytes m (unat l * unat (SectorSize D)) (unat n * unat (SectorSize D)))"

definition drv_healthy :: "block_device \<Rightarrow> bool" where
  "drv_healthy D \<longleftrightarrow> (\<forall>l n. legal D l n \<longrightarrow> DeviceRead D l n \<noteq> None)"

text \<open>What \<open>AddDevice\<close> establishes of an entry, and that its size in 512-byte sectors fits.\<close>
definition device_ok :: "block_device \<Rightarrow> bool" where
  "device_ok D \<longleftrightarrow> ValidSectorSize (SectorSize D) \<and> MaxCount D \<noteq> 0 \<and>
     unat (SectorCount D) * (unat (SectorSize D) div 512) < 2 ^ 64"

text \<open>The outcome of a read: the expected bytes, or a failure that only an unhealthy driver causes.\<close>
definition outcome :: "bool \<Rightarrow> u8 list \<Rightarrow> u8 list option \<Rightarrow> bool" where
  "outcome h bytes r \<longleftrightarrow> r = Some bytes \<or> r = None \<and> \<not> h"

lemma outcome_Some [simp]: "outcome h bytes (Some bs) \<longleftrightarrow> bs = bytes"
  and outcome_None [simp]: "outcome h bytes None \<longleftrightarrow> \<not> h"
  by (auto simp: outcome_def)

lemma outcome_append:
  "outcome h (a @ b) (map_option (append a) r) \<longleftrightarrow> outcome h b r"
  by (cases r) auto

lemma DeviceRead_outcome:
  "drv_ok D m \<Longrightarrow> legal D l n \<Longrightarrow> outcome (drv_healthy D)
     (media_bytes m (unat l * unat (SectorSize D)) (unat n * unat (SectorSize D))) (DeviceRead D l n)"
  by (cases "DeviceRead D l n") (auto simp: drv_ok_def drv_healthy_def)

lemma unat_ucast_32_64 [simp]: "unat (ucast (n :: u32) :: u64) = unat n"
  by (simp add: unat_ucast_le)

text \<open>One round of either loop: a chunk of \<open>k\<close> sectors is read and the loop goes on behind it. The LBA
  wraps only when the last chunk ends at the last addressable sector.\<close>
lemma chunk_step:
  fixes l :: u64 and n k :: u32
  assumes chunk: "outcome h (media_bytes m (unat l * 512) (unat k * 512)) r"
    and k: "0 < k" "k \<le> n" and nowrap: "unat l + unat n \<le> 2 ^ 64"
    and last: "f (l + ucast n) 0 = Some []"
    and tail: "k < n \<Longrightarrow> unat (l + ucast k) = unat l + unat k \<Longrightarrow> unat (n - k) = unat n - unat k \<Longrightarrow>
      outcome h (media_bytes m (unat (l + ucast k) * 512) (unat (n - k) * 512)) (f (l + ucast k) (n - k))"
  shows "outcome h (media_bytes m (unat l * 512) (unat n * 512))
    (case r of None \<Rightarrow> None | Some bs \<Rightarrow> map_option (append bs) (f (l + ucast k) (n - k)))"
proof -
  have k_nat: "0 < unat k" "unat k \<le> unat n" using k by (simp_all add: word_le_nat_alt word_less_nat_alt)
  have rest: "unat (n - k) = unat n - unat k" using k(2) by (rule unat_sub_nowrap)
  have split: "media_bytes m (unat l * 512) (unat n * 512) = media_bytes m (unat l * 512) (unat k * 512)
      @ media_bytes m ((unat l + unat k) * 512) (unat (n - k) * 512)"
    using k_nat rest by (simp add: media_bytes_append diff_mult_distrib add_mult_distrib)
  have "outcome h (media_bytes m ((unat l + unat k) * 512) (unat (n - k) * 512)) (f (l + ucast k) (n - k))"
  proof (cases "k = n")
    case True
    with last show ?thesis by simp
  next
    case False
    with k(2) have "k < n" by simp
    moreover from this have "unat (l + ucast k) = unat l + unat k"
      using nowrap by (subst unat_add_nowrap) (simp_all add: word_less_nat_alt)
    ultimately show ?thesis using tail rest by simp
  qed
  with chunk show ?thesis unfolding split
    by (cases r) (simp_all add: outcome_append)
qed

lemma ReadDirect_outcome:
  assumes drv: "drv_ok D m" and "MaxCount D \<noteq> 0" "SectorSize D = 512"
  shows "unat l + unat n \<le> 2 ^ 64 \<Longrightarrow> (SectorCount D \<noteq> 0 \<longrightarrow> unat l + unat n \<le> unat (SectorCount D)) \<Longrightarrow>
    unat n < fuel \<Longrightarrow>
    outcome (drv_healthy D) (media_bytes m (unat l * 512) (unat n * 512)) (ReadDirect fuel D l n)"
proof (induction fuel arbitrary: l n)
  case (Suc fuel)
  show ?case
  proof (cases "n = 0")
    case False
    define c where "c = (if n > MaxCount D then MaxCount D else n)"
    have c: "0 < c" "c \<le> n" "c \<le> MaxCount D"
      using False assms(2) by (auto simp: c_def word_gt_0)
    then have c_nat: "0 < unat c" "unat c \<le> unat n" by (simp_all add: word_le_nat_alt word_less_nat_alt)
    with Suc.prems have last: "ReadDirect fuel D (l + ucast n) 0 = Some []" by (cases fuel) simp_all
    have "legal D l c" using c c_nat Suc.prems(2) by (auto simp: legal_def)
    from DeviceRead_outcome [OF drv this, unfolded assms(3)]
    have dev: "outcome (drv_healthy D) (media_bytes m (unat l * 512) (unat c * 512)) (DeviceRead D l c)"
      by simp
    have "outcome (drv_healthy D) (media_bytes m (unat l * 512) (unat n * 512))
        (case DeviceRead D l c of None \<Rightarrow> None
         | Some bs \<Rightarrow> map_option (append bs) (ReadDirect fuel D (l + ucast c) (n - c)))"
      using Suc.prems c_nat
      by (intro chunk_step [OF dev c(1,2) Suc.prems(1), where f = "ReadDirect fuel D", OF last] Suc.IH) auto
    with False show ?thesis
      by (simp add: c_def [symmetric] word_gt_0 Let_def)
  qed simp
qed simp

text \<open>A device with larger sectors: \<open>R\<close> sectors of 512 bytes each.\<close>
lemma scaled_parts:
  fixes l :: u64 and R :: u32
  assumes "0 < unat R"
  defines "off \<equiv> ucast (l mod ucast R) :: u32"
  shows "unat (l div ucast R) = unat l div unat R" and "unat off = unat l mod unat R"
    and "off < R"
proof -
  show "unat (l div ucast R) = unat l div unat R" by (simp add: unat_div_word)
  have "unat (l mod ucast R) < 2 ^ 32"
    using less_trans [OF mod_less_divisor [OF assms(1)] unat_u32_lt [of R]]
    by (simp add: unat_mod_word)
  then show "unat off = unat l mod unat R"
    by (simp add: off_def unsigned_ucast_eq take_bit_nat_eq_self unat_mod_word)
  then show "off < R" using assms(1) by (simp add: word_less_nat_alt)
qed

lemma whole_sectors:
  fixes n R c :: u32
  assumes "0 < unat R" "R \<le> n" "MaxCount D \<noteq> 0"
  defines "c \<equiv> (if n div R > MaxCount D then MaxCount D else n div R)"
  shows "0 < c" "c \<le> MaxCount D" "unat (c * R) = unat c * unat R" "unat c * unat R \<le> unat n"
proof -
  have div: "0 < n div R"
    using assms(1,2) by (simp add: word_less_nat_alt word_le_nat_alt unat_div_word div_greater_zero_iff)
  then show "0 < c" "c \<le> MaxCount D" using assms(3) by (auto simp: c_def word_gt_0)
  have "unat c \<le> unat n div unat R" by (auto simp: c_def word_less_nat_alt unat_div_word)
  then show *: "unat c * unat R \<le> unat n"
    using div_times_less_eq_dividend [of "unat n" "unat R"] mult_le_mono1 order_trans by blast
  then show "unat (c * R) = unat c * unat R"
    using unat_u32_lt [of n] by (intro unat_mult_nowrap) simp
qed

lemma ReadScaled_whole:
  assumes "n > 0" "ucast (l mod ucast R) = (0 :: u32)" "R \<le> n"
    and "c = (if n div R > MaxCount D then MaxCount D else n div R)"
  shows "ReadScaled (Suc fuel) D R l n = (case DeviceRead D (l div ucast R) c of None \<Rightarrow> None
     | Some bs \<Rightarrow> map_option (append bs) (ReadScaled fuel D R (l + ucast (c * R)) (n - c * R)))"
  using assms(1-3) unfolding assms(4) ReadScaled.simps Let_def by simp

lemma ReadScaled_part:
  assumes "n > 0" "off = ucast (l mod ucast R)" "\<not> (off = 0 \<and> R \<le> n)"
    and "t = (if R - off > n then n else R - off)"
  shows "ReadScaled (Suc fuel) D R l n =
     (case map_option (\<lambda>B. bsub B (unat off * 512) (unat (t * 512))) (DeviceRead D (l div ucast R) 1)
      of None \<Rightarrow> None
      | Some bs \<Rightarrow> map_option (append bs) (ReadScaled fuel D R (l + ucast t) (n - t)))"
proof -
  have some: "(if n > 0 then a else b) = a" for a b :: "u8 list option" using assms(1) by simp
  have part: "(if off = 0 \<and> R \<le> n then a else b) = b" for a b :: "u8 list option"
    using assms(3) by (rule if_not_P)
  show ?thesis
    apply (subst ReadScaled.simps)
    apply (subst some)
    unfolding Let_def
    unfolding assms(2) [symmetric]
    unfolding assms(4) [symmetric]
    apply (subst part)
    by (cases "DeviceRead D (l div ucast R) 1") simp_all
qed

lemma ReadScaled_outcome:
  assumes drv: "drv_ok D m" and mc: "MaxCount D \<noteq> 0" and SS: "unat (SectorSize D) = 512 * unat R"
    and R: "1 < unat R" "unat R \<le> 8"
  shows "unat l + unat n \<le> 2 ^ 64 \<Longrightarrow>
    (SectorCount D \<noteq> 0 \<longrightarrow> unat l + unat n \<le> unat (SectorCount D) * unat R) \<Longrightarrow> unat n < fuel \<Longrightarrow>
    outcome (drv_healthy D) (media_bytes m (unat l * 512) (unat n * 512)) (ReadScaled fuel D R l n)"
proof (induction fuel arbitrary: l n)
  case (Suc fuel)
  show ?case
  proof (cases "n = 0")
    case n0: False
    then have n_pos: "n > 0" by (simp add: word_gt_0)
    define off where "off = (ucast (l mod ucast R) :: u32)"
    have parts: "unat (l div ucast R) = unat l div unat R" "unat off = unat l mod unat R" "off < R"
      using R(1) scaled_parts [of R l] by (simp_all add: off_def)
    have addr: "unat l = unat l div unat R * unat R + unat off" by (simp add: parts)
    have last: "ReadScaled fuel D R (l + ucast n) 0 = Some []"
      using Suc.prems(3) n_pos by (cases fuel) (simp_all add: word_less_nat_alt)
    have IH: "outcome (drv_healthy D) (media_bytes m (unat (l + ucast k) * 512) (unat (n - k) * 512))
        (ReadScaled fuel D R (l + ucast k) (n - k))"
      if "0 < k" "k < n" "unat (l + ucast k) = unat l + unat k" "unat (n - k) = unat n - unat k" for k
      using Suc.prems that by (intro Suc.IH) (simp_all add: word_less_nat_alt)
    show ?thesis
    proof (cases "off = 0 \<and> R \<le> n")
      case True
      have aligned: "ucast (l mod ucast R) = (0 :: u32)" using True unfolding off_def by (rule conjunct1)
      define c where "c = (if n div R > MaxCount D then MaxCount D else n div R)"
      have c: "0 < c" "c \<le> MaxCount D" "unat (c * R) = unat c * unat R" "unat c * unat R \<le> unat n"
        using whole_sectors [of R n D] R(1) True mc by (simp_all add: c_def)
      then have k: "0 < c * R" "c * R \<le> n"
        using R(1) by (simp_all add: word_less_nat_alt word_le_nat_alt)
      have l: "unat l = unat l div unat R * unat R" using addr True by simp
      have "legal D (l div ucast R) c"
        unfolding legal_def
      proof (intro conjI impI c(1,2))
        assume "SectorCount D \<noteq> 0"
        with Suc.prems(2) have "unat l + unat n \<le> unat (SectorCount D) * unat R" by simp
        with l c(4) have "(unat l div unat R + unat c) * unat R \<le> unat (SectorCount D) * unat R"
          by (simp add: add_mult_distrib)
        with R(1) show "unat (l div ucast R) + unat c \<le> unat (SectorCount D)"
          by (simp add: parts)
      qed
      note legal_dev = DeviceRead_outcome [OF drv this]
      have addr_eq: "unat l div unat R * (512 * unat R) = unat l * 512"
        using l by (metis mult.assoc mult.commute)
      have len_eq: "unat c * (512 * unat R) = unat (c * R) * 512" by (simp add: c(3))
      have dev: "outcome (drv_healthy D) (media_bytes m (unat l * 512) (unat (c * R) * 512))
          (DeviceRead D (l div ucast R) c)"
        using legal_dev unfolding SS parts(1) addr_eq len_eq .
      have "outcome (drv_healthy D) (media_bytes m (unat l * 512) (unat n * 512))
          (case DeviceRead D (l div ucast R) c of None \<Rightarrow> None
           | Some bs \<Rightarrow> map_option (append bs) (ReadScaled fuel D R (l + ucast (c * R)) (n - c * R)))"
        by (rule chunk_step [OF dev k Suc.prems(1), where f = "ReadScaled fuel D R", OF last])
           (rule IH [OF k(1)])
      then show ?thesis
        unfolding ReadScaled_whole [OF n_pos aligned conjunct2 [OF True] c_def] .
    next
      case False
      define t where "t = (if R - off > n then n else R - off)"
      have "unat (R - off) = unat R - unat off" using parts(3) by (intro unat_sub_nowrap) simp
      then have t: "0 < t" "t \<le> n" "unat t + unat off \<le> unat R" "unat (t * 512) = unat t * 512"
        using parts(3) n_pos R(2)
        by (auto simp: t_def word_less_nat_alt word_le_nat_alt unat_word_ariths not_less)
      have lt: "SectorCount D \<noteq> 0 \<Longrightarrow> unat l div unat R < unat (SectorCount D)"
        using Suc.prems(2) n_pos R(1) by (simp add: less_mult_imp_div_less word_less_nat_alt)
      have "legal D (l div ucast R) 1"
        using lt mc by (auto simp: legal_def parts word_le_nat_alt word_neq_0_iff_unat Suc_le_eq)
      from DeviceRead_outcome [OF drv this] SS
      have dev0: "outcome (drv_healthy D)
          (media_bytes m (unat l div unat R * unat R * 512) (unat R * 512))
          (DeviceRead D (l div ucast R) 1)"
        by (simp add: parts mult.commute [of 512] mult.assoc)
      have addr_eq: "unat l div unat R * unat R * 512 + unat off * 512 = unat l * 512"
        using addr by (metis add_mult_distrib)
      have "bsub (media_bytes m (unat l div unat R * unat R * 512) (unat R * 512)) (unat off * 512)
          (unat t * 512) = media_bytes m (unat l div unat R * unat R * 512 + unat off * 512) (unat t * 512)"
        using t(3) by (intro bsub_media_bytes) simp
      then have "bsub (media_bytes m (unat l div unat R * unat R * 512) (unat R * 512)) (unat off * 512)
          (unat (t * 512)) = media_bytes m (unat l * 512) (unat t * 512)"
        unfolding t(4) addr_eq .
      with dev0 have dev: "outcome (drv_healthy D) (media_bytes m (unat l * 512) (unat t * 512))
          (map_option (\<lambda>B. bsub B (unat off * 512) (unat (t * 512))) (DeviceRead D (l div ucast R) 1))"
        by (cases "DeviceRead D (l div ucast R) 1") simp_all
      have "outcome (drv_healthy D) (media_bytes m (unat l * 512) (unat n * 512))
          (case map_option (\<lambda>B. bsub B (unat off * 512) (unat (t * 512))) (DeviceRead D (l div ucast R) 1)
           of None \<Rightarrow> None
           | Some bs \<Rightarrow> map_option (append bs) (ReadScaled fuel D R (l + ucast t) (n - t)))"
        by (rule chunk_step [OF dev t(1,2) Suc.prems(1), where f = "ReadScaled fuel D R", OF last])
           (rule IH [OF t(1)])
      then show ?thesis
        unfolding ReadScaled_part [OF n_pos off_def False t_def] .
    qed
  qed simp
qed simp

section \<open>The table serves its clients\<close>

definition device_honest :: "blocks \<Rightarrow> int \<Rightarrow> medium \<Rightarrow> bool" where
  "device_honest b i m \<longleftrightarrow> bad_index b i \<or> device_ok (b ! nat i) \<and> drv_ok (b ! nat i) m"

definition device_size :: "block_device \<Rightarrow> nat" where
  "device_size D = (if SectorCount D = 0 then 2 ^ 64
     else unat (SectorCount D) * (unat (SectorSize D) div 512))"

definition device_healthy :: "blocks \<Rightarrow> int \<Rightarrow> nat \<Rightarrow> bool" where
  "device_healthy b i sz \<longleftrightarrow> \<not> bad_index b i \<and> Online (b ! nat i) \<and> device_ok (b ! nat i)
     \<and> drv_healthy (b ! nat i) \<and> sz \<le> device_size (b ! nat i)"

lemma device_ratio:
  assumes "device_ok D"
  defines "R \<equiv> SectorSize D div 512"
  shows "unat (SectorSize D) = 512 * unat R" "unat R \<in> {1, 2, 4, 8}"
    and "unat (SectorCount D * ucast R) = unat (SectorCount D) * unat R"
    and "R = 1 \<longleftrightarrow> SectorSize D = 512"
proof -
  from assms have S: "SectorSize D \<in> {512, 1024, 2048, 4096}"
    and fits: "unat (SectorCount D) * (unat (SectorSize D) div 512) < 2 ^ 64"
    by (auto simp: device_ok_def ValidSectorSize_def)
  from S show "unat (SectorSize D) = 512 * unat R" "unat R \<in> {1, 2, 4, 8}"
    and "R = 1 \<longleftrightarrow> SectorSize D = 512"
    by (auto simp: R_def unat_div_word)
  with fits show "unat (SectorCount D * ucast R) = unat (SectorCount D) * unat R"
    by (subst unat_mult_nowrap) simp_all
qed

lemma device_size_le: "device_ok D \<Longrightarrow> device_size D \<le> 2 ^ 64"
  by (auto simp: device_size_def device_ok_def)

text \<open>The range check of \<open>BlockReadFrom\<close> refuses exactly the requests that leave the device.\<close>
lemma range_check:
  fixes l T :: u64 and n :: u32
  shows "l \<ge> T \<or> ucast n > T - l \<longleftrightarrow> l \<ge> T \<or> unat T < unat l + unat n"
proof (cases "l \<ge> T")
  case False
  then have "unat (T - l) = unat T - unat l" "unat l < unat T"
    by (simp_all add: unat_sub_nowrap order_less_imp_le word_less_nat_alt not_le)
  with False show ?thesis by (auto simp: word_less_nat_alt)
qed simp

lemma BlockReadFrom_outcome:
  assumes "\<not> bad_index b i" and D: "D = b ! nat i" and dev: "device_ok D" "drv_ok D m"
    and nowrap: "unat l + unat n \<le> 2 ^ 64"
  shows "Online D \<Longrightarrow> n \<noteq> 0 \<Longrightarrow> unat l + unat n \<le> device_size D \<Longrightarrow>
      outcome (drv_healthy D) (media_bytes m (unat l * 512) (unat n * 512)) (BlockReadFrom b i l n)"
    and "Online D \<Longrightarrow> n \<noteq> 0 \<Longrightarrow> \<not> unat l + unat n \<le> device_size D \<Longrightarrow> BlockReadFrom b i l n = None"
proof -
  let ?R = "SectorSize D div 512"
  note ratio = device_ratio [OF dev(1)]
  have check: "SectorCount D \<noteq> 0 \<and> (l \<ge> SectorCount D * ucast ?R \<or>
      ucast n > SectorCount D * ucast ?R - l) \<longleftrightarrow> \<not> unat l + unat n \<le> device_size D" if "n \<noteq> 0"
    unfolding range_check using that nowrap ratio(1,3)
    by (auto simp: device_size_def word_le_nat_alt word_neq_0_iff_unat)
  have eq: "BlockReadFrom b i l n = (if \<not> unat l + unat n \<le> device_size D then None
      else if ?R = 1 then ReadDirect (Suc (unat n)) D l n else ReadScaled (Suc (unat n)) D ?R l n)"
    if "Online D" "n \<noteq> 0"
    using that assms(1) unfolding BlockReadFrom_def Let_def D [symmetric] check [OF that(2)]
    by (simp only: if_False if_True not_True_eq_False)
  then show "Online D \<Longrightarrow> n \<noteq> 0 \<Longrightarrow> \<not> unat l + unat n \<le> device_size D \<Longrightarrow> BlockReadFrom b i l n = None"
    by simp
  assume on: "Online D" "n \<noteq> 0" and fits: "unat l + unat n \<le> device_size D"
  have mc: "MaxCount D \<noteq> 0" using dev(1) by (simp add: device_ok_def)
  show "outcome (drv_healthy D) (media_bytes m (unat l * 512) (unat n * 512)) (BlockReadFrom b i l n)"
  proof (cases "?R = 1")
    case True
    then have "SectorSize D = 512" using ratio(4) by simp
    with fits show ?thesis
      using True ReadDirect_outcome [OF dev(2) mc _ nowrap, of "Suc (unat n)"]
      by (simp add: eq [OF on] device_size_def split: if_splits del: ReadDirect.simps)
  next
    case False
    with ratio(2,4) ratio(1) have R: "1 < unat ?R" "unat ?R \<le> 8"
      by (auto simp: word_unat_eq_iff)
    have "SectorCount D \<noteq> 0 \<longrightarrow> unat l + unat n \<le> unat (SectorCount D) * unat ?R"
      using fits by (auto simp: device_size_def unat_div_word)
    from ReadScaled_outcome [OF dev(2) mc ratio(1) R nowrap this, of "Suc (unat n)"] fits False
    show ?thesis by (simp add: eq [OF on] del: ReadScaled.simps)
  qed
qed

lemma bad_index_read: "bad_index b i \<Longrightarrow> BlockReadFrom b i l n = None"
  and offline_read: "\<not> bad_index b i \<Longrightarrow> \<not> Online (b ! nat i) \<Longrightarrow> BlockReadFrom b i l n = None"
  and empty_read: "\<not> bad_index b i \<Longrightarrow> Online (b ! nat i) \<Longrightarrow> BlockReadFrom b i l 0 = Some []"
  by (simp_all add: BlockReadFrom_def Let_def)

interpretation block: disk BlockReadFrom device_honest device_healthy
proof
  fix b i m bs and l :: u64 and n :: u32
  assume h: "device_honest b i m" "unat l + unat n \<le> 2 ^ 64" and r: "BlockReadFrom b i l n = Some bs"
  have ok1: "\<not> bad_index b i" using r bad_index_read by force
  then have ok: "\<not> bad_index b i" "Online (b ! nat i)" using r offline_read [OF ok1] by force+
  with h have dev: "device_ok (b ! nat i)" "drv_ok (b ! nat i) m" by (auto simp: device_honest_def)
  show "bs = media_bytes m (unat l * 512) (unat n * 512)"
  proof (cases "n = 0")
    case True
    with r ok show ?thesis by (simp add: empty_read)
  next
    case False
    note out = BlockReadFrom_outcome [OF ok(1) refl dev h(2) ok(2) False]
    with r show ?thesis by (cases "unat l + unat n \<le> device_size (b ! nat i)") simp_all
  qed
next
  fix b i m sz and l :: u64 and n :: u32
  assume "device_honest b i m" "device_healthy b i sz" and fits: "unat l + unat n \<le> sz"
  then have ok: "\<not> bad_index b i" "Online (b ! nat i)" "drv_healthy (b ! nat i)"
    and dev: "device_ok (b ! nat i)" "drv_ok (b ! nat i) m"
    and size: "unat l + unat n \<le> device_size (b ! nat i)"
    by (auto simp: device_healthy_def device_honest_def)
  with device_size_le [OF dev(1)] have nowrap: "unat l + unat n \<le> 2 ^ 64" by simp
  show "BlockReadFrom b i l n \<noteq> None"
  proof (cases "n = 0")
    case False
    from BlockReadFrom_outcome(1) [OF ok(1) refl dev nowrap ok(2) False size] ok(3)
    show ?thesis by (cases "BlockReadFrom b i l n") simp_all
  qed (simp add: empty_read ok)
qed

text \<open>C3: Reading through the device table: for an entry whose driver tells the truth about the
  requests it promised to serve, a successful read returns exactly the bytes of the medium at the
  512-byte addresses asked for, however the request is split into native sectors and chunks and however
  its ends are aligned; it succeeds whenever the device is online, healthy and the request fits; and a
  request that leaves the device is refused.\<close>
theorem BlockReadFrom_correct:
  assumes "\<not> bad_index b i" "device_ok (b ! nat i)" "drv_ok (b ! nat i) m"
    and "unat l + unat n \<le> 2 ^ 64"
  shows "(\<forall>bs. BlockReadFrom b i l n = Some bs \<longrightarrow> bs = media_bytes m (unat l * 512) (unat n * 512))
    \<and> (Online (b ! nat i) \<and> drv_healthy (b ! nat i) \<and> unat l + unat n \<le> device_size (b ! nat i) \<longrightarrow>
         BlockReadFrom b i l n = Some (media_bytes m (unat l * 512) (unat n * 512)))
    \<and> (n \<noteq> 0 \<and> device_size (b ! nat i) < unat l + unat n \<longrightarrow> BlockReadFrom b i l n = None)"
proof -
  have honest: "device_honest b i m" using assms by (simp add: device_honest_def)
  have "BlockReadFrom b i l n = None" if "n \<noteq> 0" "device_size (b ! nat i) < unat l + unat n"
    using BlockReadFrom_outcome(2) [OF assms(1) refl assms(2,3,4)] offline_read [OF assms(1)] that
    by (cases "Online (b ! nat i)") auto
  moreover have "BlockReadFrom b i l n = Some (media_bytes m (unat l * 512) (unat n * 512))"
    if "Online (b ! nat i)" "drv_healthy (b ! nat i)" "unat l + unat n \<le> device_size (b ! nat i)"
    using block.rd_total [OF honest, of "device_size (b ! nat i)" l n] that assms(1,2)
      device_size_le [OF assms(2)]
    by (simp add: device_healthy_def)
  ultimately show ?thesis using block.rd_honest [OF honest assms(4)] by blast
qed

text \<open>A CD-like device: two 2048-byte sectors, one sector per request.\<close>
definition demo_medium :: medium where
  "demo_medium a = of_nat (a mod 251)"

definition demo_device :: block_device where
  "demo_device = \<lparr>Legacy = None, Read = Some (\<lambda>c l n. Some (media_bytes demo_medium (unat l * 2048) (unat n * 2048))),
     Context = 0, SectorSize = 2048, MaxCount = 1, SectorCount = 2, Online = True, Name = lit ''cd0''\<rparr>"

lemma demo_device_simps:
  "SectorSize demo_device = 2048" "MaxCount demo_device = 1" "SectorCount demo_device = 2"
  "Online demo_device"
  "DeviceRead demo_device l n = Some (media_bytes demo_medium (unat l * 2048) (unat n * 2048))"
  by (simp_all add: demo_device_def DeviceRead_def)

lemma demo_device_ok:
  "device_ok demo_device" "drv_ok demo_device demo_medium" "drv_healthy demo_device"
  "device_size demo_device = 8"
  by (simp_all add: device_ok_def ValidSectorSize_def drv_ok_def drv_healthy_def device_size_def
      demo_device_simps)

lemma BlockReadFrom_correct_witness:
  "BlockReadFrom [demo_device] 0 3 4 = Some (media_bytes demo_medium 1536 2048) \<and>
   BlockReadFrom [demo_device] 0 7 2 = None"
proof -
  have idx: "\<not> bad_index [demo_device] 0" and dev: "[demo_device] ! nat 0 = demo_device"
    by (simp_all add: bad_index_def)
  note correct = BlockReadFrom_correct [OF idx, unfolded dev, OF demo_device_ok(1,2)]
  have "BlockReadFrom [demo_device] 0 3 4 = Some (media_bytes demo_medium (unat (3 :: u64) * 512)
      (unat (4 :: u32) * 512))"
    by (rule correct [THEN conjunct2, THEN conjunct1, rule_format])
       (simp_all add: demo_device_ok demo_device_simps)
  moreover have "BlockReadFrom [demo_device] 0 7 2 = None"
    by (rule correct [THEN conjunct2, THEN conjunct2, rule_format])
       (simp_all add: demo_device_ok demo_device_simps)
  ultimately show ?thesis by simp
qed

section \<open>Registration\<close>

text \<open>What the table keeps of its entries: names are unique and fit their field, every entry has a
  driver, a sector size the reader can scale and a nonzero request limit.\<close>
definition entry_ok :: "block_device \<Rightarrow> bool" where
  "entry_ok D \<longleftrightarrow> (Legacy D \<noteq> None \<or> Read D \<noteq> None) \<and> ValidSectorSize (SectorSize D) \<and> MaxCount D \<noteq> 0
     \<and> Name D \<noteq> [] \<and> length (Name D) < NAME_SIZE"

definition blocks_ok :: "blocks \<Rightarrow> bool" where
  "blocks_ok b \<longleftrightarrow> length b \<le> MAX_BLOCK_DEVICES \<and> (\<forall>D \<in> set b. entry_ok D) \<and> distinct (map Name b)"

lemma BlockFindFrom_eq:
  "BlockFindFrom i b n =
     (if n \<in> Name ` set b then i + int (length (takeWhile (\<lambda>D. Name D \<noteq> n) b)) else - 1)"
  by (induction b arbitrary: i) (auto simp: NameEq_def)

lemma BlockFind_eq:
  "BlockFind b n =
     (if n \<in> Name ` set b then int (length (takeWhile (\<lambda>D. Name D \<noteq> n) b)) else - 1)"
  by (simp add: BlockFind_def BlockFindFrom_eq)

lemma BlockFind_negative: "BlockFind b n < 0 \<longleftrightarrow> n \<notin> Name ` set b"
  by (simp add: BlockFind_eq)

lemma CopyName_take: "CopyName n = take 15 n" "CopyName (CopyName n) = CopyName n"
  by (simp_all add: CopyName_def NAME_SIZE_def)

text \<open>A registration either appends one online entry under an unused name or leaves the table alone.\<close>
lemma AddDevice_cases:
  assumes "blocks_ok b"
  obtains "AddDevice n Leg Rd Ctx SecSize SecCount MaxCnt b = (-1, b)"
  | D where "AddDevice n Leg Rd Ctx SecSize SecCount MaxCnt b = (int (length b), b @ [D])"
      "Name D = take 15 n" "Online D" "SectorSize D = SecSize" "SectorCount D = SecCount"
      "blocks_ok (b @ [D])"
proof (cases "fst (AddDevice n Leg Rd Ctx SecSize SecCount MaxCnt b) < 0")
  case True
  then have "AddDevice n Leg Rd Ctx SecSize SecCount MaxCnt b = (-1, b)"
    by (auto simp: AddDevice_def Let_def split: if_splits)
  then show thesis by (rule that(1))
next
  case False
  let ?MC = "if MaxCnt = 0 then if SecSize = 512 then LEGACY_MAX_COUNT else 1 else MaxCnt"
  let ?D = "\<lparr>Legacy = Leg, Read = Rd, Context = Ctx, SectorSize = SecSize, MaxCount = ?MC,
     SectorCount = SecCount, Online = True, Name = CopyName (CopyName n)\<rparr>"
  from False have guards: "length b < MAX_BLOCK_DEVICES" "n \<noteq> []" "Leg \<noteq> None \<or> Rd \<noteq> None"
      "ValidSectorSize SecSize" "BlockFind b (CopyName n) < 0"
    and eq: "AddDevice n Leg Rd Ctx SecSize SecCount MaxCnt b = (int (length b), b @ [?D])"
    by (auto simp: AddDevice_def Let_def not_le split: if_splits)
  have "take 15 n \<noteq> []" using guards(2) by simp
  then have "entry_ok ?D"
    using guards by (auto simp: entry_ok_def CopyName_take NAME_SIZE_def LEGACY_MAX_COUNT_def)
  with assms guards have ok: "blocks_ok (b @ [?D])"
    by (auto simp: blocks_ok_def BlockFind_negative CopyName_take)
  show thesis by (rule that(2) [OF eq _ _ _ _ ok]) (simp_all add: CopyName_take)
qed

lemma RegisterFirstFree_cases:
  assumes "blocks_ok b"
  obtains "RegisterFirstFree Ns Prefix ReadFn Ctx SecSize SecCount MaxCnt b = (-1, b)"
  | N D where "N \<in> set Ns"
      "RegisterFirstFree Ns Prefix ReadFn Ctx SecSize SecCount MaxCnt b = (int (length b), b @ [D])"
      "Name D = take 15 (NumberedName Prefix N)" "Online D" "SectorSize D = SecSize"
      "SectorCount D = SecCount" "blocks_ok (b @ [D])"
proof (induction Ns arbitrary: thesis)
  case Nil
  then show ?case by simp
next
  case (Cons N Ns)
  show ?case
  proof (cases "BlockFind b (NumberedName Prefix N) < 0")
    case True
    show ?thesis
      by (rule AddDevice_cases [OF assms, of "NumberedName Prefix N" None ReadFn Ctx SecSize SecCount MaxCnt])
         (use True Cons.prems in \<open>auto\<close>)
  next
    case False
    show ?thesis
      by (rule Cons.IH) (use False Cons.prems in \<open>auto\<close>)
  qed
qed

text \<open>Everything that ever changes the table.\<close>
inductive blocks_step :: "blocks \<Rightarrow> blocks \<Rightarrow> bool" where
  register: "blocks_step b (snd (BlockRegister n f b))"
| register_ex: "blocks_step b (snd (BlockRegisterEx n f Ctx SecSize SecCount MaxCnt b))"
| register_next: "blocks_step b (snd (BlockRegisterNext n f Ctx SecSize SecCount MaxCnt b))"
| remove: "blocks_step b (snd (BlockRemove i b))"

text \<open>An index, once given out, keeps denoting the same device; it can only go offline.\<close>
definition keeps_index :: "blocks \<Rightarrow> blocks \<Rightarrow> bool" where
  "keeps_index b b' \<longleftrightarrow> length b \<le> length b' \<and>
     (\<forall>i < length b. b' ! i = b ! i \<or> b' ! i = (b ! i)\<lparr>Online := False\<rparr>)"

lemma keeps_index_refl [simp]: "keeps_index b b"
  and keeps_index_append: "keeps_index b (b @ [D])"
  by (simp_all add: keeps_index_def nth_append)

lemma keeps_index_trans: "keeps_index a b \<Longrightarrow> keeps_index b c \<Longrightarrow> keeps_index a c"
  unfolding keeps_index_def by (auto; metis (no_types, lifting) block_device.update_convs(7)
      block_device.surjective order_less_le_trans)

lemma remove_entry_ok: "entry_ok D \<Longrightarrow> entry_ok (D\<lparr>Online := False\<rparr>)"
  by (simp add: entry_ok_def)

lemma BlockRemove_ok:
  assumes "blocks_ok b"
  shows "blocks_ok (snd (BlockRemove i b)) \<and> keeps_index b (snd (BlockRemove i b))"
proof (cases "bad_index b i")
  case False
  then have i: "nat i < length b" by (auto simp: bad_index_def)
  let ?D = "(b ! nat i)\<lparr>Online := False\<rparr>"
  have "map Name (b[nat i := ?D]) = map Name b"
    by (simp add: map_update) (metis i list_update_id nth_map)
  moreover have "entry_ok ?D" using assms i by (simp add: blocks_ok_def remove_entry_ok)
  then have "\<forall>D \<in> set (b[nat i := ?D]). entry_ok D"
    using assms set_update_subset_insert [of b "nat i" ?D] unfolding blocks_ok_def by blast
  ultimately show ?thesis
    using assms False i by (auto simp: BlockRemove_def blocks_ok_def keeps_index_def nth_list_update)
qed (simp add: BlockRemove_def assms)

lemma blocks_step_ok:
  assumes "blocks_step b b'" "blocks_ok b"
  shows "blocks_ok b' \<and> keeps_index b b'"
  using assms
proof (induction rule: blocks_step.induct)
  case (register b n f)
  then show ?case
    by (cases rule: AddDevice_cases [OF register, of n f None 0 512 0 LEGACY_MAX_COUNT])
       (auto simp: BlockRegister_def keeps_index_append)
next
  case (register_ex b n f Ctx SecSize SecCount MaxCnt)
  then show ?case
    by (cases rule: AddDevice_cases [OF register_ex, of n None f Ctx SecSize SecCount MaxCnt])
       (auto simp: BlockRegisterEx_def keeps_index_append)
next
  case (register_next b n f Ctx SecSize SecCount MaxCnt)
  then show ?case
    by (cases rule: RegisterFirstFree_cases [OF register_next, of "[0..<100]" n f Ctx SecSize SecCount MaxCnt])
       (auto simp: BlockRegisterNext_def keeps_index_append)
next
  case (remove b i)
  with BlockRemove_ok show ?case by simp
qed

lemma blocks_steps_ok:
  "blocks_step\<^sup>*\<^sup>* b b' \<Longrightarrow> blocks_ok b \<Longrightarrow> blocks_ok b' \<and> keeps_index b b'"
  by (induction rule: rtranclp_induct) (auto dest: blocks_step_ok intro: keeps_index_trans)

lemma takeWhile_last: "x \<notin> f ` set xs \<Longrightarrow> f y = x \<Longrightarrow> takeWhile (\<lambda>z. f z \<noteq> x) (xs @ [y]) = xs"
  by (subst takeWhile_append2) (auto, metis imageI)

lemma BlockFind_new:
  "blocks_ok (b @ [D]) \<Longrightarrow> BlockFind (b @ [D]) (Name D) = int (length b)"
  by (auto simp: BlockFind_eq blocks_ok_def takeWhile_last [of _ Name])

text \<open>What a registration under the name \<open>s\<close> promises: a nonnegative result is the index at which
  the name, unused before, is now found and online, in a new last row with the sector size and the
  sector count asked for; any other result is -1 and the table is as it was.\<close>
definition registered :: "blocks \<Rightarrow> cstring \<Rightarrow> u32 \<Rightarrow> u64 \<Rightarrow> int \<times> blocks \<Rightarrow> bool" where
  "registered b s SecSize SecCount r \<longleftrightarrow>
     (if 0 \<le> fst r
      then s \<notin> Name ` set b \<and> BlockFind b s = -1 \<and> BlockFind (snd r) s = fst r \<and> BlockIsOnline (snd r) (fst r)
        \<and> fst r = int (length b) \<and> butlast (snd r) = b \<and> Name (last (snd r)) = s
        \<and> SectorSize (last (snd r)) = SecSize \<and> SectorCount (last (snd r)) = SecCount
      else r = (-1, b))"

text \<open>The names \<open>BlockRegisterNext\<close> chooses from, written out: at most twelve characters of the
  prefix and the number in decimal, in ASCII.\<close>
definition numbered_name :: "cstring \<Rightarrow> nat \<Rightarrow> cstring" where
  "numbered_name Prefix N = take 12 Prefix
     @ (if N < 10 then [48 + of_nat N] else [48 + of_nat (N div 10), 48 + of_nat (N mod 10)])"

text \<open>There is a free row, the driver exists and its sector size is one of the four.\<close>
definition acceptable :: "blocks \<Rightarrow> block_read_ex_fn option \<Rightarrow> u32 \<Rightarrow> bool" where
  "acceptable b f SecSize \<longleftrightarrow> length b < 64 \<and> f \<noteq> None \<and> SecSize \<in> {512, 1024, 2048, 4096}"

lemma small_ucast: "N < 100 \<Longrightarrow> ucast (of_nat N :: u64) = (of_nat N :: u8)"
  by (simp add: unsigned_of_nat take_bit_nat_eq_self)

lemma NumberedName_numbered: "N < 100 \<Longrightarrow> NumberedName P N = numbered_name P N"
  by (simp add: NumberedName_def numbered_name_def NAME_SIZE_def digit_char_def small_ucast)

lemma numbered_short [simp]: "take 15 (numbered_name P N) = numbered_name P N"
  and numbered_nonempty [simp]: "numbered_name P N \<noteq> []"
  by (auto simp: numbered_name_def)

lemma AddDevice_registered:
  assumes ok: "blocks_ok b"
  shows "registered b (take 15 n) SecSize SecCount (AddDevice n Leg Rd Ctx SecSize SecCount MaxCnt b)"
proof (cases rule: AddDevice_cases [OF ok, of n Leg Rd Ctx SecSize SecCount MaxCnt])
  case 1
  then show ?thesis by (simp add: registered_def)
next
  case (2 D)
  moreover have "Name D \<notin> Name ` set b" using 2(6) by (auto simp: blocks_ok_def)
  ultimately show ?thesis
    using BlockFind_new [OF 2(6)]
    by (simp add: registered_def BlockFind_eq [of b] BlockIsOnline_def bad_index_def)
qed

lemma AddDevice_succeeds:
  "0 \<le> fst (AddDevice n Leg Rd Ctx SecSize SecCount MaxCnt b) \<longleftrightarrow>
     length b < 64 \<and> n \<noteq> [] \<and> (Leg \<noteq> None \<or> Rd \<noteq> None) \<and> SecSize \<in> {512, 1024, 2048, 4096}
     \<and> take 15 n \<notin> Name ` set b"
  by (auto simp: AddDevice_def Let_def MAX_BLOCK_DEVICES_def ValidSectorSize_def CopyName_take
      BlockFind_eq not_le)

text \<open>The search for a free number stops at the first one.\<close>
lemma RegisterFirstFree_first:
  assumes "k < 100" "\<forall>M < k. numbered_name P M \<in> Name ` set b" "numbered_name P k \<notin> Name ` set b" "N \<le> k"
  shows "RegisterFirstFree [N..<100] P f Ctx SecSize SecCount MaxCnt b
     = AddDevice (numbered_name P k) None f Ctx SecSize SecCount MaxCnt b"
  using assms(4)
proof (induction rule: inc_induct)
  case base
  show ?case using assms(1,3) by (simp add: upt_conv_Cons BlockFind_negative NumberedName_numbered)
next
  case (step N)
  then have "N < 100" "\<not> BlockFind b (NumberedName P N) < 0"
    using assms(1,2) by (simp_all add: BlockFind_negative NumberedName_numbered)
  with step.IH show ?case by (simp add: upt_conv_Cons)
qed

lemma RegisterFirstFree_full:
  assumes "\<forall>M < 100. numbered_name P M \<in> Name ` set b" "set Ns \<subseteq> {..<100}"
  shows "RegisterFirstFree Ns P f Ctx SecSize SecCount MaxCnt b = (-1, b)"
  using assms(2) by (induction Ns) (use assms(1) in \<open>auto simp: BlockFind_negative NumberedName_numbered\<close>)

lemma BlockRegisterNext_first:
  assumes "P \<noteq> []"
  shows "(\<exists>k < 100. (\<forall>M < k. numbered_name P M \<in> Name ` set b) \<and> numbered_name P k \<notin> Name ` set b \<and>
       BlockRegisterNext P f Ctx SecSize SecCount MaxCnt b
         = AddDevice (numbered_name P k) None f Ctx SecSize SecCount MaxCnt b) \<or>
     (\<forall>M < 100. numbered_name P M \<in> Name ` set b) \<and>
       BlockRegisterNext P f Ctx SecSize SecCount MaxCnt b = (-1, b)"
proof (cases "\<forall>M < 100. numbered_name P M \<in> Name ` set b")
  case True
  have "RegisterFirstFree [0..<100] P f Ctx SecSize SecCount MaxCnt b = (-1, b)"
    by (rule RegisterFirstFree_full [OF True]) auto
  with assms True show ?thesis by (simp add: BlockRegisterNext_def del: upt_rec_numeral)
next
  case False
  define k where "k = (LEAST k. numbered_name P k \<notin> Name ` set b)"
  from False obtain j where j: "j < 100" "numbered_name P j \<notin> Name ` set b" by blast
  have free: "numbered_name P k \<notin> Name ` set b" unfolding k_def using j(2) by (rule LeastI)
  have taken: "\<forall>M < k. numbered_name P M \<in> Name ` set b" unfolding k_def using not_less_Least by blast
  have "k < 100" using Least_le [of "\<lambda>k. numbered_name P k \<notin> Name ` set b" j] j unfolding k_def by linarith
  with RegisterFirstFree_first [OF this taken free, of 0] assms taken free show ?thesis
    by (auto simp: BlockRegisterNext_def simp del: upt_rec_numeral)
qed

lemma BlockRegisterNext_succeeds:
  "0 \<le> fst (BlockRegisterNext P f Ctx SecSize SecCount MaxCnt b) \<longleftrightarrow>
     P \<noteq> [] \<and> acceptable b f SecSize \<and> (\<exists>N < 100. numbered_name P N \<notin> Name ` set b)"
proof (cases "P = []")
  case False
  from BlockRegisterNext_first [OF this, of b f Ctx SecSize SecCount MaxCnt] False show ?thesis
    by (auto simp: AddDevice_succeeds acceptable_def)
qed (simp add: BlockRegisterNext_def)

lemma BlockRegisterNext_registered:
  assumes ok: "blocks_ok b" and good: "0 \<le> fst (BlockRegisterNext P f Ctx SecSize SecCount MaxCnt b)"
  shows "\<exists>N < 100. registered b (numbered_name P N) SecSize SecCount
      (BlockRegisterNext P f Ctx SecSize SecCount MaxCnt b) \<and> (\<forall>M < N. numbered_name P M \<in> Name ` set b)"
proof -
  have "P \<noteq> []" using good by (simp add: BlockRegisterNext_succeeds)
  from BlockRegisterNext_first [OF this, of b f Ctx SecSize SecCount MaxCnt] good
  obtain k where "k < 100" "\<forall>M < k. numbered_name P M \<in> Name ` set b"
    "BlockRegisterNext P f Ctx SecSize SecCount MaxCnt b
         = AddDevice (numbered_name P k) None f Ctx SecSize SecCount MaxCnt b" by auto
  with AddDevice_registered [OF ok, of "numbered_name P k"] show ?thesis by auto
qed

lemma BlockRegisterNext_fails:
  "\<not> 0 \<le> fst (BlockRegisterNext P f Ctx SecSize SecCount MaxCnt b) \<Longrightarrow>
     BlockRegisterNext P f Ctx SecSize SecCount MaxCnt b = (-1, b)"
proof (cases "P = []")
  case False
  have add: "AddDevice n None f Ctx SecSize SecCount MaxCnt b = (-1, b)"
    if "\<not> 0 \<le> fst (AddDevice n None f Ctx SecSize SecCount MaxCnt b)" for n
    using that by (auto simp: AddDevice_def Let_def split: if_splits)
  assume "\<not> 0 \<le> fst (BlockRegisterNext P f Ctx SecSize SecCount MaxCnt b)"
  with BlockRegisterNext_first [OF False, of b f Ctx SecSize SecCount MaxCnt] add show ?thesis by auto
qed (simp add: BlockRegisterNext_def)

text \<open>C4: In every table reachable from the empty one, however devices are registered and removed:
  names are unique, every entry can be read (a driver, a valid sector size, a nonzero request limit);
  a device once found under an index stays there forever, at most going offline. Each of the three
  registration functions succeeds exactly when there is a row left, the name is not empty, there is a
  driver, the sector size is one of the four and the name is unused; it then returns the index at which
  its name (the first 15 characters of the one given) is found from then on, online and with the size
  asked for, and otherwise returns -1 and changes nothing. The name \<open>BlockRegisterNext\<close> chooses is
  at most twelve characters of the prefix and the smallest number below 100 not in use.\<close>
theorem registry_safety:
  assumes "blocks_step\<^sup>*\<^sup>* [] b"
  shows "blocks_ok b \<and> (\<forall>b'. blocks_step\<^sup>*\<^sup>* b b' \<longrightarrow> keeps_index b b') \<and>
    (\<forall>n f Ctx SecSize SecCount MaxCnt.
       registered b (take 15 n) SecSize SecCount (BlockRegisterEx n f Ctx SecSize SecCount MaxCnt b) \<and>
       (0 \<le> fst (BlockRegisterEx n f Ctx SecSize SecCount MaxCnt b) \<longleftrightarrow>
          n \<noteq> [] \<and> acceptable b f SecSize \<and> take 15 n \<notin> Name ` set b)) \<and>
    (\<forall>n f. registered b (take 15 n) 512 0 (BlockRegister n f b) \<and>
       (0 \<le> fst (BlockRegister n f b) \<longleftrightarrow>
          length b < 64 \<and> n \<noteq> [] \<and> f \<noteq> None \<and> take 15 n \<notin> Name ` set b)) \<and>
    (\<forall>P f Ctx SecSize SecCount MaxCnt.
       if P \<noteq> [] \<and> acceptable b f SecSize \<and> (\<exists>N < 100. numbered_name P N \<notin> Name ` set b)
       then 0 \<le> fst (BlockRegisterNext P f Ctx SecSize SecCount MaxCnt b) \<and>
         (\<exists>N < 100. registered b (numbered_name P N) SecSize SecCount
              (BlockRegisterNext P f Ctx SecSize SecCount MaxCnt b) \<and>
            (\<forall>M < N. numbered_name P M \<in> Name ` set b))
       else BlockRegisterNext P f Ctx SecSize SecCount MaxCnt b = (-1, b))"
proof -
  have ok: "blocks_ok b"
    using blocks_steps_ok [OF assms] by (simp add: blocks_ok_def)
  have ex: "registered b (take 15 n) SecSize SecCount (BlockRegisterEx n f Ctx SecSize SecCount MaxCnt b) \<and>
       (0 \<le> fst (BlockRegisterEx n f Ctx SecSize SecCount MaxCnt b) \<longleftrightarrow>
          n \<noteq> [] \<and> acceptable b f SecSize \<and> take 15 n \<notin> Name ` set b)" for n f Ctx SecSize SecCount MaxCnt
    unfolding BlockRegisterEx_def AddDevice_succeeds acceptable_def
    using AddDevice_registered [OF ok] by auto
  have legacy: "registered b (take 15 n) 512 0 (BlockRegister n f b) \<and>
       (0 \<le> fst (BlockRegister n f b) \<longleftrightarrow>
          length b < 64 \<and> n \<noteq> [] \<and> f \<noteq> None \<and> take 15 n \<notin> Name ` set b)" for n f
    unfolding BlockRegister_def AddDevice_succeeds using AddDevice_registered [OF ok] by auto
  have "if P \<noteq> [] \<and> acceptable b f SecSize \<and> (\<exists>N < 100. numbered_name P N \<notin> Name ` set b)
       then 0 \<le> fst (BlockRegisterNext P f Ctx SecSize SecCount MaxCnt b) \<and>
         (\<exists>N < 100. registered b (numbered_name P N) SecSize SecCount
              (BlockRegisterNext P f Ctx SecSize SecCount MaxCnt b) \<and>
            (\<forall>M < N. numbered_name P M \<in> Name ` set b))
       else BlockRegisterNext P f Ctx SecSize SecCount MaxCnt b = (-1, b)" for P f Ctx SecSize SecCount MaxCnt
    using BlockRegisterNext_registered [OF ok] BlockRegisterNext_fails
    unfolding BlockRegisterNext_succeeds by simp
  moreover have "\<forall>b'. blocks_step\<^sup>*\<^sup>* b b' \<longrightarrow> keeps_index b b'" using blocks_steps_ok ok by blast
  ultimately show ?thesis using ok ex legacy by (intro conjI allI) simp_all
qed

text \<open>With a drive \<open>cd0\<close> in the table, the next one of the prefix \<open>cd\<close> becomes \<open>cd1\<close> at index 1.\<close>
lemma registry_safety_witness:
  "blocks_step\<^sup>*\<^sup>* [] [demo_device] \<and> blocks_ok [demo_device] \<and>
   fst (BlockRegisterNext (lit ''cd'') (Read demo_device) 0 2048 2 1 [demo_device]) = 1 \<and>
   BlockFind (snd (BlockRegisterNext (lit ''cd'') (Read demo_device) 0 2048 2 1 [demo_device])) (lit ''cd1'') = 1"
proof -
  have "snd (BlockRegisterEx (lit ''cd0'') (Read demo_device) 0 2048 2 1 []) = [demo_device]"
    by (simp add: BlockRegisterEx_def AddDevice_def demo_device_def ValidSectorSize_def
        MAX_BLOCK_DEVICES_def BlockFind_eq lit_def CopyName_take Let_def)
  then have "blocks_step [] [demo_device]" by (metis register_ex)
  then have "blocks_step\<^sup>*\<^sup>* [] [demo_device]" by (rule r_into_rtranclp)
  note safe = registry_safety [OF this]
  let ?r = "BlockRegisterNext (lit ''cd'') (Read demo_device) 0 2048 2 1 [demo_device]"
  have names: "Name ` set [demo_device] = {lit ''cd0''}" by (simp add: demo_device_def)
  have taken: "numbered_name (lit ''cd'') 0 = lit ''cd0''" "numbered_name (lit ''cd'') 1 = lit ''cd1''"
    "lit ''cd1'' \<noteq> lit ''cd0''"
    by (simp_all add: numbered_name_def lit_def)
  have good: "lit ''cd'' \<noteq> [] \<and> acceptable [demo_device] (Read demo_device) 2048
      \<and> (\<exists>N < 100. numbered_name (lit ''cd'') N \<notin> Name ` set [demo_device])"
    unfolding names using taken by (auto simp: acceptable_def demo_device_def lit_def intro!: exI [of _ 1])
  from safe have chosen: "if lit ''cd'' \<noteq> [] \<and> acceptable [demo_device] (Read demo_device) 2048
      \<and> (\<exists>N < 100. numbered_name (lit ''cd'') N \<notin> Name ` set [demo_device])
    then 0 \<le> fst ?r \<and> (\<exists>N < 100. registered [demo_device] (numbered_name (lit ''cd'') N) 2048 2 ?r \<and>
      (\<forall>M < N. numbered_name (lit ''cd'') M \<in> Name ` set [demo_device]))
    else ?r = (-1, [demo_device])" by blast
  from chosen [unfolded if_P [OF good], unfolded names] obtain N
    where N: "registered [demo_device] (numbered_name (lit ''cd'') N) 2048 2 ?r"
      "\<forall>M < N. numbered_name (lit ''cd'') M \<in> {lit ''cd0''}" "0 \<le> fst ?r"
    by blast
  have "fst ?r = 1 \<and> BlockFind (snd ?r) (lit ''cd1'') = 1"
  proof (cases "N = 1")
    case True
    with N show ?thesis using taken by (simp add: registered_def)
  next
    case False
    then consider "N = 0" | "1 < N" by linarith
    then show ?thesis
    proof cases
      case 1
      with N(1,3) taken names show ?thesis by (simp add: registered_def)
    next
      case 2
      with N(2) taken show ?thesis by auto
    qed
  qed
  with safe show ?thesis using \<open>blocks_step\<^sup>*\<^sup>* [] [demo_device]\<close> by blast
qed

end
