(* ===== verification/Fat32.thy ===== *)
theory Fat32
  imports Blockdev Pmm
begin

text \<open>
  The read-only FAT32 driver (\<open>kernel/fat32.c\<close>): mounting, the FAT cache, directory listing with
  long names, lookup, and reading a file at an offset with a cursor that remembers where the last read
  ended. Every access to the medium goes through a reader (the parameter \<open>rd\<close>, which the kernel
  links to \<open>BlockReadFrom\<close>). The volume record keeps the two page pointers and, next to them,
  what the FAT page holds. The sector page is not part of the state: each use overwrites it with a
  successful read before looking at it.
\<close>

section \<open>Data\<close>

definition FAT_EOC_MIN :: u32 where "FAT_EOC_MIN = 0x0FFFFFF8"
definition MAX_LFN_ENTRIES :: nat where "MAX_LFN_ENTRIES = 20"
definition MAX_CHAIN :: nat where "MAX_CHAIN = 1048576"
definition FAT_NAME_MAX :: nat where "FAT_NAME_MAX = 256"
definition FAT_ATTR_DIRECTORY :: u8 where "FAT_ATTR_DIRECTORY = 0x10"

record fat_entry =
  EntryName :: cstring
  EntryAttr :: u8
  EntrySize :: u32
  EntryCluster :: u32

record fat_volume =
  VolDevice :: int
  StartLba :: u64
  SectorsPerCluster :: u16
  FatStart :: u32
  FirstData :: u32
  RootCluster :: u32
  SectorBuffer :: u64
  FatBuffer :: u64
  FatBufferData :: "u8 list"
  FatBufferLba :: u64
  FatBufferValid :: bool
  CursorFirst :: u32
  CursorIndex :: u32
  CursorCluster :: u32

section \<open>Mounting\<close>

definition FatBootSectorValid :: "u8 list \<Rightarrow> bool" where
  "FatBootSectorValid S =
     (if bget S 510 \<noteq> 0x55 \<or> bget S 511 \<noteq> 0xAA then False
      else let Spc = bget S 0x0D; Bps = Le16 S 0x0B
      in if Bps \<noteq> 512 \<and> Bps \<noteq> 1024 \<and> Bps \<noteq> 2048 \<and> Bps \<noteq> 4096 then False
      else if Spc = 0 \<or> Spc AND (Spc - 1) \<noteq> 0 \<or> Spc > 128 then False
      else if Le16 S 0x0E = 0 \<or> bget S 0x10 = 0 \<or> bget S 0x10 > 2 then False
      else if Le16 S 0x11 \<noteq> 0 \<or> Le32 S 0x24 = 0 \<or> Le32 S 0x2C < 2 then False
      else True)"

text \<open>The volume \<open>FatMount\<close> fills in from a valid boot sector.\<close>
definition MountedVolume :: "u64 \<Rightarrow> u64 \<Rightarrow> int \<Rightarrow> u64 \<Rightarrow> u8 list \<Rightarrow> fat_volume \<Rightarrow> fat_volume" where
  "MountedVolume SecBuf FatBuf Device Start S V =
     (let Scale = ucast (Le16 S 0x0B) div 512 :: u32;
          fat_start = ucast (Le16 S 0x0E) * Scale
      in V\<lparr>SectorBuffer := SecBuf, FatBuffer := FatBuf, VolDevice := Device, StartLba := Start,
           SectorsPerCluster := ucast (ucast (bget S 0x0D) * Scale), FatStart := fat_start,
           FirstData := fat_start + ucast (bget S 0x10) * Le32 S 0x24 * Scale,
           RootCluster := Le32 S 0x2C, FatBufferValid := False, CursorFirst := 0, CursorIndex := 0,
           CursorCluster := 0\<rparr>)"

definition FatMount :: "reader \<Rightarrow> int \<Rightarrow> u64 \<Rightarrow> fat_volume \<Rightarrow> pmm \<Rightarrow> bool \<times> fat_volume \<times> pmm" where
  "FatMount rd Device Start V s =
     (let (SecBuf, s) = AllocPage s; (FatBuf, s) = AllocPage s
      in if SecBuf = 0 \<or> FatBuf = 0
         then let s = (if SecBuf \<noteq> 0 then FreePage SecBuf s else s);
                  s = (if FatBuf \<noteq> 0 then FreePage FatBuf s else s)
              in (False, V, s)
         else case rd Device Start 1 of
             None \<Rightarrow> (False, V, FreePage FatBuf (FreePage SecBuf s))
           | Some S \<Rightarrow>
               if \<not> FatBootSectorValid S then (False, V, FreePage FatBuf (FreePage SecBuf s))
               else (True, MountedVolume SecBuf FatBuf Device Start S V, s))"

section \<open>Clusters\<close>

definition ClusterLba :: "fat_volume \<Rightarrow> u32 \<Rightarrow> u64" where
  "ClusterLba V Cluster =
     StartLba V + ucast (FirstData V) + ucast (Cluster - 2) * ucast (SectorsPerCluster V)"

definition NextCluster :: "reader \<Rightarrow> u32 \<Rightarrow> fat_volume \<Rightarrow> u32 \<times> fat_volume" where
  "NextCluster rd Cluster V =
     (let ByteOffset = Cluster * 4;
          Lba = StartLba V + ucast (FatStart V) + ucast (ByteOffset div 512);
          entry = (\<lambda>V. (Le32 (FatBufferData V) (unat (ByteOffset mod 512)) AND 0x0FFFFFFF, V))
      in if \<not> FatBufferValid V \<or> FatBufferLba V \<noteq> Lba
         then case rd (VolDevice V) Lba 1 of
             None \<Rightarrow> (FAT_EOC_MIN, V\<lparr>FatBufferValid := False\<rparr>)
           | Some bs \<Rightarrow> entry (V\<lparr>FatBufferData := bs, FatBufferLba := Lba, FatBufferValid := True\<rparr>)
         else entry V)"

definition ClusterValid :: "u32 \<Rightarrow> bool" where
  "ClusterValid Cluster \<longleftrightarrow> Cluster \<ge> 2 \<and> Cluster < FAT_EOC_MIN"

section \<open>Directory entries\<close>

definition ShortChecksum :: "u8 list \<Rightarrow> u8" where
  "ShortChecksum E = fold (\<lambda>i Sum. push_bit 7 (Sum AND 1) + drop_bit 1 Sum + bget E i) [0..<11] 0"

definition BuildShortName :: "u8 list \<Rightarrow> cstring" where
  "BuildShortName E =
     (let LowerBase = bget E 12 AND 0x08 \<noteq> 0; LowerExt = bget E 12 AND 0x10 \<noteq> 0;
          fix_e5 = (\<lambda>i. if i = 0 \<and> bget E 0 = 0x05 then 0xE5 else bget E i);
          base = map (\<lambda>i. if LowerBase then lower (fix_e5 i) else fix_e5 i)
                   (takeWhile (\<lambda>i. bget E i \<noteq> 0x20) [0..<8]);
          ext = (if bget E 8 \<noteq> 0x20
                 then chr_code CHR ''.'' # map (\<lambda>i. if LowerExt then lower (bget E i) else bget E i)
                        (takeWhile (\<lambda>i. bget E i \<noteq> 0x20) [8..<11])
                 else [])
      in cstr (base @ ext))"

definition LfnOffsets :: "nat list" where
  "LfnOffsets = [1, 3, 5, 7, 9, 14, 16, 18, 20, 22, 24, 28, 30]"

text \<open>The long-name state of a directory scan; \<open>Lfn\<close> has \<open>MAX_LFN_ENTRIES * 13\<close> cells.\<close>
record dir_scan =
  LfnValid :: bool
  LfnSum :: u8
  LfnCount :: nat
  Lfn :: "u16 list"

definition scan_init :: dir_scan where
  "scan_init = \<lparr>LfnValid = False, LfnSum = 0, LfnCount = 0, Lfn = replicate (MAX_LFN_ENTRIES * 13) 0\<rparr>"

text \<open>\<open>for (k = 0; k < 13; k++) Lfn[(Seq - 1) * 13 + k] = Le16(E + LfnOffsets[k])\<close>.\<close>
definition StoreLfn :: "u8 list \<Rightarrow> nat \<Rightarrow> u16 list \<Rightarrow> u16 list" where
  "StoreLfn E Seq L =
     fold (\<lambda>k L. L[(Seq - 1) * 13 + k := Le16 E (LfnOffsets ! k)]) [0..<13] L"

definition ScanLfn :: "u8 list \<Rightarrow> dir_scan \<Rightarrow> dir_scan" where
  "ScanLfn E d =
     (let Seq = unat (bget E 0 AND 0x1F);
          d = (if bget E 0 AND 0x40 \<noteq> 0
               then d\<lparr>LfnValid := True, LfnSum := bget E 13, LfnCount := Seq,
                      Lfn := map (\<lambda>_. 0xFFFF) (Lfn d)\<rparr>
               else d)
      in if LfnValid d \<and> Seq \<ge> 1 \<and> Seq \<le> MAX_LFN_ENTRIES \<and> bget E 13 = LfnSum d
         then d\<lparr>Lfn := StoreLfn E Seq (Lfn d)\<rparr>
         else d\<lparr>LfnValid := False\<rparr>)"

text \<open>The copy loop of a long name: it stops at the terminator, at the padding, at \<open>Max\<close> cells or
  when the name buffer is full.\<close>
fun LongNameLoop :: "u16 list \<Rightarrow> nat \<Rightarrow> cstring" where
  "LongNameLoop [] room = []"
| "LongNameLoop (w # ws) room =
     (if room = 0 then []
      else if w = 0 \<or> w = 0xFFFF then []
      else (if w < 0x80 then ucast w else chr_code CHR ''?'') # LongNameLoop ws (room - 1))"

definition LongName :: "dir_scan \<Rightarrow> cstring" where
  "LongName d = LongNameLoop (take (min (LfnCount d * 13) (MAX_LFN_ENTRIES * 13)) (Lfn d))
     (FAT_NAME_MAX - 1)"

definition is_dot_name :: "cstring \<Rightarrow> bool" where
  "is_dot_name n \<longleftrightarrow> n = [chr_code CHR ''.''] \<or> n = [chr_code CHR ''.'', chr_code CHR ''.'']"

text \<open>What one directory slot does to the scan: end of the directory, nothing to report, or an entry.\<close>
datatype slot_result = EndOfDir | Skip dir_scan | Emit fat_entry dir_scan

definition ScanSlot :: "u8 list \<Rightarrow> dir_scan \<Rightarrow> slot_result" where
  "ScanSlot E d =
     (if bget E 0 = 0x00 then EndOfDir
      else if bget E 0 = 0xE5 then Skip (d\<lparr>LfnValid := False\<rparr>)
      else if bget E 11 = 0x0F then Skip (ScanLfn E d)
      else if bget E 11 AND 0x08 \<noteq> 0 then Skip (d\<lparr>LfnValid := False\<rparr>)
      else let name = (if LfnValid d \<and> ShortChecksum E = LfnSum d then LongName d else BuildShortName E);
               d = d\<lparr>LfnValid := False\<rparr>
      in if is_dot_name name then Skip d
      else Emit \<lparr>EntryName = name, EntryAttr = bget E 11, EntrySize = Le32 E 28,
                 EntryCluster = push_bit 16 (ucast (Le16 E 20)) OR ucast (Le16 E 26)\<rparr> d)"

text \<open>A callback gets an entry and its context; \<open>True\<close> stops the listing.\<close>
type_synonym 'c dir_cb = "fat_entry \<Rightarrow> 'c \<Rightarrow> bool \<times> 'c"

text \<open>The result of a loop body: go on with a new scan state and context, or return.\<close>
datatype 'c flow = Continue dir_scan 'c | Return bool 'c

text \<open>\<open>for (e = 0; e < 16; e++)\<close> over the slots of a sector.\<close>
fun ListSlots :: "'c dir_cb \<Rightarrow> u8 list \<Rightarrow> nat list \<Rightarrow> dir_scan \<Rightarrow> 'c \<Rightarrow> 'c flow" where
  "ListSlots cb B [] d ctx = Continue d ctx"
| "ListSlots cb B (e # es) d ctx =
     (case ScanSlot (bsub B (e * 32) 32) d of
        EndOfDir \<Rightarrow> Return True ctx
      | Skip d \<Rightarrow> ListSlots cb B es d ctx
      | Emit entry d \<Rightarrow>
          (case cb entry ctx of (stop, ctx) \<Rightarrow>
             if stop then Return True ctx else ListSlots cb B es d ctx))"

text \<open>\<open>for (s = 0; s < SectorsPerCluster; s++)\<close> over the sectors of a cluster.\<close>
fun ListSectors :: "reader \<Rightarrow> fat_volume \<Rightarrow> 'c dir_cb \<Rightarrow> u32 \<Rightarrow> nat list \<Rightarrow> dir_scan \<Rightarrow> 'c \<Rightarrow> 'c flow" where
  "ListSectors rd V cb Cluster [] d ctx = Continue d ctx"
| "ListSectors rd V cb Cluster (s # ss) d ctx =
     (case rd (VolDevice V) (ClusterLba V Cluster + of_nat s) 1 of
        None \<Rightarrow> Return False ctx
      | Some B \<Rightarrow> (case ListSlots cb B [0..<16] d ctx of
            Return r ctx \<Rightarrow> Return r ctx
          | Continue d ctx \<Rightarrow> ListSectors rd V cb Cluster ss d ctx))"

text \<open>The loop over the chain; the first argument is what is left of \<open>MAX_CHAIN\<close>.\<close>
fun ListChain :: "nat \<Rightarrow> reader \<Rightarrow> 'c dir_cb \<Rightarrow> u32 \<Rightarrow> dir_scan \<Rightarrow> fat_volume \<Rightarrow> 'c
    \<Rightarrow> bool \<times> fat_volume \<times> 'c" where
  "ListChain 0 rd cb Cluster d V ctx = (True, V, ctx)"
| "ListChain (Suc left) rd cb Cluster d V ctx =
     (if \<not> ClusterValid Cluster then (True, V, ctx)
      else case ListSectors rd V cb Cluster [0..<unat (SectorsPerCluster V)] d ctx of
          Return r ctx \<Rightarrow> (r, V, ctx)
        | Continue d ctx \<Rightarrow>
            let (Cluster, V) = NextCluster rd Cluster V in ListChain left rd cb Cluster d V ctx)"

definition FatListDir :: "reader \<Rightarrow> fat_volume \<Rightarrow> u32 \<Rightarrow> 'c dir_cb \<Rightarrow> 'c \<Rightarrow> bool \<times> fat_volume \<times> 'c" where
  "FatListDir rd V DirCluster cb ctx = ListChain MAX_CHAIN rd cb DirCluster scan_init V ctx"

definition LookupCallback :: "cstring \<Rightarrow> fat_entry option dir_cb" where
  "LookupCallback Want Entry Found =
     (if names_equal (EntryName Entry) Want then (True, Some Entry) else (False, Found))"

definition FatLookup :: "reader \<Rightarrow> fat_volume \<Rightarrow> u32 \<Rightarrow> cstring \<Rightarrow> fat_entry option \<times> fat_volume" where
  "FatLookup rd V DirCluster Want =
     (case FatListDir rd V DirCluster (LookupCallback Want) None of (_, V, Found) \<Rightarrow> (Found, V))"

section \<open>Reading a file\<close>

text \<open>\<open>while (Index < WantIndex)\<close>; the first argument is \<open>WantIndex - Index\<close>.\<close>
fun SkipClusters :: "nat \<Rightarrow> reader \<Rightarrow> u32 \<Rightarrow> fat_volume \<Rightarrow> u32 option \<times> fat_volume" where
  "SkipClusters 0 rd Cluster V = (Some Cluster, V)"
| "SkipClusters (Suc n) rd Cluster V =
     (let (Cluster, V) = NextCluster rd Cluster V
      in if \<not> ClusterValid Cluster then (None, V) else SkipClusters n rd Cluster V)"

text \<open>\<open>while (Done < Length)\<close>. The first argument bounds the rounds: each one takes at least a
  byte.\<close>
fun ReadClusters :: "nat \<Rightarrow> reader \<Rightarrow> u32 \<Rightarrow> u32 \<Rightarrow> u32 \<Rightarrow> u32 \<Rightarrow> u32 \<Rightarrow> u32 \<Rightarrow> u8 list \<Rightarrow> fat_volume
    \<Rightarrow> u32 \<times> u32 \<times> u32 \<times> u8 list \<times> fat_volume" where
  "ReadClusters 0 rd ClusterBytes Offset Len Done Index Cluster Out V = (Done, Index, Cluster, Out, V)"
| "ReadClusters (Suc fuel) rd ClusterBytes Offset Len Done Index Cluster Out V =
     (if \<not> Done < Len then (Done, Index, Cluster, Out, V)
      else let InCluster = (Offset + Done) mod ClusterBytes;
               SectorInCluster = InCluster div 512;
               SectorOffset = InCluster mod 512;
               SectorsLeft = ucast (SectorsPerCluster V) - SectorInCluster;
               Chunk = (if SectorsLeft > 8 then 8 else SectorsLeft)
      in case rd (VolDevice V) (ClusterLba V Cluster + ucast SectorInCluster) Chunk of
           None \<Rightarrow> (Done, Index, Cluster, Out, V)
         | Some B \<Rightarrow>
             let Available = Chunk * 512 - SectorOffset;
                 Take = (if Len - Done < Available then Len - Done else Available);
                 Out = Out @ bsub B (unat SectorOffset) (unat Take);
                 Done = Done + Take
             in if Done < Len \<and> (Offset + Done) mod ClusterBytes = 0
                then let (Next, V) = NextCluster rd Cluster V
                     in if \<not> ClusterValid Next then (Done, Index, Cluster, Out, V)
                        else ReadClusters fuel rd ClusterBytes Offset Len Done (Index + 1) Next Out V
                else ReadClusters fuel rd ClusterBytes Offset Len Done Index Cluster Out V)"

definition FatReadAt :: "reader \<Rightarrow> fat_volume \<Rightarrow> fat_entry \<Rightarrow> u32 \<Rightarrow> u32 \<Rightarrow> u32 \<times> u8 list \<times> fat_volume" where
  "FatReadAt rd V File Offset Len =
     (if EntryAttr File AND FAT_ATTR_DIRECTORY \<noteq> 0 \<or> Offset \<ge> EntrySize File
         \<or> \<not> ClusterValid (EntryCluster File) then (0, [], V)
      else
        let Len = (if Len > EntrySize File - Offset then EntrySize File - Offset else Len);
            ClusterBytes = ucast (SectorsPerCluster V) * 512;
            WantIndex = Offset div ClusterBytes;
            (Index, Cluster) =
              (if CursorFirst V = EntryCluster File \<and> CursorIndex V \<le> WantIndex
                  \<and> ClusterValid (CursorCluster V)
               then (CursorIndex V, CursorCluster V) else (0, EntryCluster File))
        in case SkipClusters (unat WantIndex - unat Index) rd Cluster V of
             (None, V) \<Rightarrow> (0, [], V)
           | (Some Cluster, V) \<Rightarrow>
               (case ReadClusters (Suc (unat Len)) rd ClusterBytes Offset Len 0 WantIndex Cluster [] V of
                  (Done, Index, Cluster, Out, V) \<Rightarrow>
                    (Done, Out, V\<lparr>CursorFirst := EntryCluster File, CursorIndex := Index,
                                  CursorCluster := Cluster\<rparr>)))"

section \<open>What is on the medium\<close>

text \<open>The part of a volume that a mount fixes; cache and cursor are the rest.\<close>
definition core :: "fat_volume \<Rightarrow> int \<times> u64 \<times> u16 \<times> u32 \<times> u32 \<times> u32" where
  "core V = (VolDevice V, StartLba V, SectorsPerCluster V, FatStart V, FirstData V, RootCluster V)"

definition vol_ok :: "fat_volume \<Rightarrow> bool" where
  "vol_ok V \<longleftrightarrow> SectorsPerCluster V \<noteq> 0 \<and> unat (StartLba V) < 2 ^ 63"

definition cluster_bytes :: "fat_volume \<Rightarrow> nat" where
  "cluster_bytes V = unat (SectorsPerCluster V) * 512"

definition cluster_sector :: "fat_volume \<Rightarrow> u32 \<Rightarrow> nat" where
  "cluster_sector V c =
     unat (StartLba V) + unat (FirstData V) + (unat c - 2) * unat (SectorsPerCluster V)"

definition fat_sector :: "fat_volume \<Rightarrow> u32 \<Rightarrow> nat" where
  "fat_sector V c = unat (StartLba V) + unat (FatStart V) + unat c * 4 div 512"

text \<open>The successor of a cluster in the file allocation table.\<close>
definition fat_next :: "medium \<Rightarrow> fat_volume \<Rightarrow> u32 \<Rightarrow> u32" where
  "fat_next m V c = Le32 (media_bytes m (fat_sector V c * 512 + unat c * 4 mod 512) 4) 0 AND 0x0FFFFFFF"

text \<open>The \<open>k\<close>-th cluster of the chain that starts at \<open>c\<close>.\<close>
fun chain :: "medium \<Rightarrow> fat_volume \<Rightarrow> u32 \<Rightarrow> nat \<Rightarrow> u32 option" where
  "chain m V c 0 = (if ClusterValid c then Some c else None)"
| "chain m V c (Suc k) =
     (case chain m V c k of None \<Rightarrow> None
      | Some d \<Rightarrow> let n = fat_next m V d in if ClusterValid n then Some n else None)"

text \<open>The byte at position \<open>p\<close> of the file that starts at cluster \<open>c\<close>.\<close>
definition file_byte :: "medium \<Rightarrow> fat_volume \<Rightarrow> u32 \<Rightarrow> nat \<Rightarrow> u8 option" where
  "file_byte m V c p = map_option (\<lambda>d. m (cluster_sector V d * 512 + p mod cluster_bytes V))
     (chain m V c (p div cluster_bytes V))"

definition cache_ok :: "medium \<Rightarrow> fat_volume \<Rightarrow> bool" where
  "cache_ok m V \<longleftrightarrow>
     (FatBufferValid V \<longrightarrow> FatBufferData V = media_bytes m (unat (FatBufferLba V) * 512) 512)"

definition cursor_ok :: "medium \<Rightarrow> fat_volume \<Rightarrow> bool" where
  "cursor_ok m V \<longleftrightarrow>
     (ClusterValid (CursorCluster V) \<longrightarrow>
        chain m V (CursorFirst V) (unat (CursorIndex V)) = Some (CursorCluster V))"

lemma core_cong:
  assumes "core V' = core V"
  shows "VolDevice V' = VolDevice V" "StartLba V' = StartLba V"
    "SectorsPerCluster V' = SectorsPerCluster V" "FatStart V' = FatStart V" "FirstData V' = FirstData V"
    "vol_ok V' = vol_ok V" "cluster_bytes V' = cluster_bytes V" "cluster_sector V' = cluster_sector V"
    "fat_sector V' = fat_sector V" "fat_next m V' = fat_next m V" "ClusterLba V' = ClusterLba V"
    "RootCluster V' = RootCluster V"
  using assms by (simp_all add: core_def vol_ok_def cluster_bytes_def cluster_sector_def fat_sector_def
      fat_next_def ClusterLba_def fun_eq_iff)

lemma chain_core:
  assumes "core V' = core V"
  shows "chain m V' c k = chain m V c k"
  by (induction k) (simp_all add: core_cong(10) [OF assms] cong: option.case_cong)

lemma file_byte_core:
  assumes "core V' = core V"
  shows "file_byte m V' c p = file_byte m V c p"
  by (simp add: file_byte_def chain_core [OF assms] core_cong [OF assms])

lemma chain_valid: "chain m V c k = Some d \<Longrightarrow> ClusterValid d"
  by (cases k) (auto simp: Let_def split: if_splits option.splits)

lemma ClusterValid_nat: "ClusterValid c \<Longrightarrow> 2 \<le> unat c" "ClusterValid c \<Longrightarrow> unat c < 0x0FFFFFF8"
  by (simp_all add: ClusterValid_def FAT_EOC_MIN_def word_le_nat_alt word_less_nat_alt)

lemma ClusterValid_EOC [simp]: "\<not> ClusterValid FAT_EOC_MIN"
  by (simp add: ClusterValid_def)

lemma ClusterLba_sector:
  assumes "vol_ok V" "ClusterValid c"
  shows "unat (ClusterLba V c) = cluster_sector V c" and "cluster_sector V c < 2 ^ 63 + 2 ^ 45"
proof -
  note c = ClusterValid_nat [OF assms(2)]
  then have sub: "unat (c - 2) = unat c - 2"
    by (subst unat_sub_nowrap) (simp_all add: word_le_nat_alt)
  have spc: "unat (SectorsPerCluster V) < 65536" by (rule unat_u16_lt)
  have "(unat c - 2) * unat (SectorsPerCluster V) \<le> 0x0FFFFFF8 * 65536"
    using c spc by (intro mult_mono) simp_all
  then have prod: "(unat c - 2) * unat (SectorsPerCluster V) < 2 ^ 44" by simp
  have start: "unat (StartLba V) < 2 ^ 63" using assms(1) by (simp add: vol_ok_def)
  have fd: "unat (FirstData V) < 2 ^ 32" using unat_u32_lt [of "FirstData V"] by simp
  from prod start fd show "cluster_sector V c < 2 ^ 63 + 2 ^ 45"
    by (simp add: cluster_sector_def)
  have "unat (ucast (c - 2) * ucast (SectorsPerCluster V) :: u64)
      = (unat c - 2) * unat (SectorsPerCluster V)"
    using prod by (subst unat_mult_nowrap) (simp_all add: unat_ucast_le sub)
  moreover have "unat (StartLba V + ucast (FirstData V)) = unat (StartLba V) + unat (FirstData V)"
    using start fd by (subst unat_add_nowrap) (simp_all add: unat_ucast_le)
  ultimately show "unat (ClusterLba V c) = cluster_sector V c"
    using prod start fd unfolding ClusterLba_def cluster_sector_def
    by (subst unat_add_nowrap) simp_all
qed

text \<open>The FAT sector and the offset in it that \<open>NextCluster\<close> computes in 32 bits.\<close>
lemma fat_address:
  assumes "vol_ok V" "ClusterValid c"
  shows "unat (StartLba V + ucast (FatStart V) + ucast (c * 4 div 512)) = fat_sector V c"
    and "unat (c * 4 mod 512) = unat c * 4 mod 512"
    and "fat_sector V c < 2 ^ 64"
proof -
  note c = ClusterValid_nat [OF assms(2)]
  then have four: "unat (c * 4) = unat c * 4" by (subst unat_mult_nowrap) simp_all
  then show "unat (c * 4 mod 512) = unat c * 4 mod 512" by (simp add: unat_mod_word)
  have q: "unat (ucast (c * 4 div 512) :: u64) = unat c * 4 div 512"
    by (simp add: unat_ucast_le unat_div_word four)
  have start: "unat (StartLba V) < 2 ^ 63" using assms(1) by (simp add: vol_ok_def)
  have fs: "unat (FatStart V) < 2 ^ 32" using unat_u32_lt [of "FatStart V"] by simp
  have "unat c * 4 div 512 \<le> unat c" by simp
  with c have qlt: "unat c * 4 div 512 < 2 ^ 32" by simp
  show "fat_sector V c < 2 ^ 64" using start fs qlt by (simp add: fat_sector_def)
  have "unat (StartLba V + ucast (FatStart V)) = unat (StartLba V) + unat (FatStart V)"
    using start fs by (subst unat_add_nowrap) (simp_all add: unat_ucast_le)
  then show "unat (StartLba V + ucast (FatStart V) + ucast (c * 4 div 512)) = fat_sector V c"
    using start fs qlt unfolding fat_sector_def
    by (subst unat_add_nowrap) (simp_all only: q, simp)
qed

lemma Le32_media:
  assumes "off + 4 \<le> n"
  shows "Le32 (media_bytes m a n) off = Le32 (media_bytes m (a + off) 4) 0"
  using assms by (intro Le32_cong) (simp add: add.assoc)

text \<open>The three ways through \<open>NextCluster\<close>: cached, read failure, fresh sector.\<close>
definition fat_lba :: "fat_volume \<Rightarrow> u32 \<Rightarrow> u64" where
  "fat_lba V c = StartLba V + ucast (FatStart V) + ucast (c * 4 div 512)"

lemma NextCluster_cases:
  assumes "NextCluster rd c V = (n, V')"
  obtains (hit) "FatBufferValid V" "FatBufferLba V = fat_lba V c"
      "n = Le32 (FatBufferData V) (unat (c * 4 mod 512)) AND 0x0FFFFFFF" "V' = V"
    | (failed) "rd (VolDevice V) (fat_lba V c) 1 = None" "n = FAT_EOC_MIN" "V' = V\<lparr>FatBufferValid := False\<rparr>"
    | (miss) bs where "rd (VolDevice V) (fat_lba V c) 1 = Some bs"
      "n = Le32 bs (unat (c * 4 mod 512)) AND 0x0FFFFFFF"
      "V' = V\<lparr>FatBufferData := bs, FatBufferLba := fat_lba V c, FatBufferValid := True\<rparr>"
proof (cases "FatBufferValid V \<and> FatBufferLba V = fat_lba V c")
  case True
  then have "NextCluster rd c V = (Le32 (FatBufferData V) (unat (c * 4 mod 512)) AND 0x0FFFFFFF, V)"
    by (simp add: NextCluster_def Let_def fat_lba_def)
  with assms have "n = Le32 (FatBufferData V) (unat (c * 4 mod 512)) AND 0x0FFFFFFF" "V' = V"
    by (metis prod.inject)+
  with True show thesis by (intro hit) simp_all
next
  case False
  then have "NextCluster rd c V = (case rd (VolDevice V) (fat_lba V c) 1 of
      None \<Rightarrow> (FAT_EOC_MIN, V\<lparr>FatBufferValid := False\<rparr>)
    | Some bs \<Rightarrow> (Le32 bs (unat (c * 4 mod 512)) AND 0x0FFFFFFF,
        V\<lparr>FatBufferData := bs, FatBufferLba := fat_lba V c, FatBufferValid := True\<rparr>))"
    by (auto simp: NextCluster_def Let_def fat_lba_def cong: option.case_cong)
  with assms show thesis
    by (cases "rd (VolDevice V) (fat_lba V c) 1") (auto intro: failed miss)
qed

context disk
begin

text \<open>\<open>NextCluster\<close> reads the table entry through its cache, which stays a copy of the medium; a
  failed read looks like the end of the chain.\<close>
lemma NextCluster_spec:
  assumes honest: "honest b (VolDevice V) m" and V: "vol_ok V" "cache_ok m V" and c: "ClusterValid c"
    and nxt: "NextCluster (rd b) c V = (n, V')"
  shows "core V' = core V" "cache_ok m V'"
    and "CursorFirst V' = CursorFirst V" "CursorIndex V' = CursorIndex V" "CursorCluster V' = CursorCluster V"
    and "n = fat_next m V c \<or> n = FAT_EOC_MIN"
    and "healthy b (VolDevice V) sz \<Longrightarrow> fat_sector V c < sz \<Longrightarrow> n = fat_next m V c"
proof -
  let ?lba = "fat_lba V c"
  note addr = fat_address [OF V(1) c, folded fat_lba_def]
  have "unat c * 4 mod 512 = 4 * (unat c mod 128)"
    using mult_mod_right [of 4 "unat c" 128] by (simp add: mult.commute)
  moreover have "unat c mod 128 < 128" by simp
  ultimately have "unat c * 4 mod 512 + 4 \<le> 512" by linarith
  from Le32_media [OF this, of m "fat_sector V c * 512"]
  have entry: "Le32 (media_bytes m (fat_sector V c * 512) 512) (unat (c * 4 mod 512)) AND 0x0FFFFFFF
      = fat_next m V c"
    unfolding fat_next_def addr(2) by simp

  show "core V' = core V" "CursorFirst V' = CursorFirst V" "CursorIndex V' = CursorIndex V"
    "CursorCluster V' = CursorCluster V"
    by (rule NextCluster_cases [OF nxt]; simp add: core_def)+
  show "cache_ok m V'"
    using V(2) by (cases rule: NextCluster_cases [OF nxt]) (simp_all add: cache_ok_def rd_sector [OF honest])
  show "n = fat_next m V c \<or> n = FAT_EOC_MIN"
    using nxt
  proof (cases rule: NextCluster_cases)
    case hit
    with V(2) have "FatBufferData V = media_bytes m (fat_sector V c * 512) 512"
      by (simp add: cache_ok_def addr(1))
    with hit entry show ?thesis by simp
  next
    case (miss bs)
    from rd_sector [OF honest miss(1)] miss(2) entry show ?thesis by (simp add: addr(1))
  qed simp
  assume "healthy b (VolDevice V) sz" "fat_sector V c < sz"
  then have ok: "rd b (VolDevice V) ?lba 1 \<noteq> None"
    using rd_healthy [OF honest, of sz ?lba 1] addr(1) by simp
  show "n = fat_next m V c"
    using nxt
  proof (cases rule: NextCluster_cases)
    case hit
    with V(2) have "FatBufferData V = media_bytes m (fat_sector V c * 512) 512"
      by (simp add: cache_ok_def addr(1))
    with hit entry show ?thesis by simp
  next
    case (miss bs)
    from rd_sector [OF honest miss(1)] miss(2) entry show ?thesis by (simp add: addr(1))
  qed (use ok in simp)
qed

end

text \<open>The clusters a read up to byte \<open>p\<close> (exclusive) of a file needs, all inside the device.\<close>
definition file_within :: "medium \<Rightarrow> fat_volume \<Rightarrow> u32 \<Rightarrow> nat \<Rightarrow> nat \<Rightarrow> bool" where
  "file_within m V c p sz \<longleftrightarrow> (\<forall>k. k * cluster_bytes V < p \<longrightarrow>
     (\<exists>d. chain m V c k = Some d \<and> fat_sector V d < sz \<and>
        cluster_sector V d + unat (SectorsPerCluster V) \<le> sz))"

lemma file_within_core:
  assumes "core V' = core V"
  shows "file_within m V' c p sz = file_within m V c p sz"
  by (simp add: file_within_def chain_core [OF assms] core_cong [OF assms])

lemma chain_Suc_next:
  "chain m V c k = Some d \<Longrightarrow>
   chain m V c (Suc k) = (if ClusterValid (fat_next m V d) then Some (fat_next m V d) else None)"
  by (simp add: Let_def)

declare chain.simps(2) [simp del]

lemma cluster_bytes_word:
  "unat (ucast (SectorsPerCluster V) * 512 :: u32) = cluster_bytes V"
  using unat_u16_lt [of "SectorsPerCluster V"] unfolding cluster_bytes_def
  by (subst unat_mult_nowrap) (simp_all add: unat_ucast_le)

lemma cluster_bytes_pos: "vol_ok V \<Longrightarrow> 0 < cluster_bytes V"
  by (simp add: vol_ok_def cluster_bytes_def unat_gt_0)

context disk
begin

text \<open>Walking \<open>n\<close> links follows the chain; it can fail only at its end or on a read error.\<close>
lemma SkipClusters_spec:
  assumes "honest b (VolDevice V) m" "vol_ok V" "cache_ok m V" "chain m V c j = Some d"
    and "SkipClusters n (rd b) d V = (r, V')"
  shows "core V' = core V \<and> cache_ok m V' \<and> CursorFirst V' = CursorFirst V \<and>
    CursorIndex V' = CursorIndex V \<and> CursorCluster V' = CursorCluster V \<and>
    (\<forall>d'. r = Some d' \<longrightarrow> chain m V c (j + n) = Some d') \<and>
    (healthy b (VolDevice V) sz \<and> p > (j + n) * cluster_bytes V \<and> file_within m V c p sz \<longrightarrow> r \<noteq> None)"
  using assms
proof (induction n arbitrary: j d V)
  case 0
  then have "r = Some d" "V' = V" by simp_all
  with 0 show ?case by simp
next
  case (Suc n)
  obtain e W where nxt: "NextCluster (rd b) d V = (e, W)" by (cases "NextCluster (rd b) d V")
  note step = NextCluster_spec [OF Suc.prems(1,2,3) chain_valid [OF Suc.prems(4)] nxt]
  have chain_Suc: "chain m V c (Suc j) =
      (if ClusterValid (fat_next m V d) then Some (fat_next m V d) else None)"
    using Suc.prems(4) by (rule chain_Suc_next)
  show ?case
  proof (cases "ClusterValid e")
    case True
    with step(6) have e: "e = fat_next m V d" by auto
    from True have run: "SkipClusters n (rd b) e W = (r, V')"
      using Suc.prems(5) nxt by simp
    have "chain m W c (Suc j) = Some e" using chain_Suc True e by (simp add: chain_core [OF step(1)])
    from Suc.IH [OF _ _ step(2) this run] Suc.prems(1,2) show ?thesis
      using step by (simp add: core_cong [OF step(1)] chain_core [OF step(1)] file_within_core [OF step(1)])
  next
    case False
    then have r: "r = None" "V' = W" using Suc.prems(5) nxt by simp_all
    have "\<not> (healthy b (VolDevice V) sz \<and> p > (j + Suc n) * cluster_bytes V \<and> file_within m V c p sz)"
    proof
      assume a: "healthy b (VolDevice V) sz \<and> p > (j + Suc n) * cluster_bytes V \<and> file_within m V c p sz"
      then have "Suc j * cluster_bytes V < p" "j * cluster_bytes V < p"
        by (auto simp: algebra_simps intro: le_less_trans [rotated])
      with a Suc.prems(4) have "chain m V c (Suc j) \<noteq> None" "fat_sector V d < sz"
        unfolding file_within_def by (metis option.distinct(1), metis option.inject)
      with a step(7) chain_Suc have "ClusterValid e" by (auto split: if_splits)
      with False show False by simp
    qed
    with r step show ?thesis by auto
  qed
qed

end

section \<open>Reading inside a cluster\<close>

text \<open>Moving \<open>t\<close> bytes forward without leaving the cluster.\<close>
lemma in_cluster_step:
  fixes p t CB :: nat
  assumes "0 < CB" "0 < t" "p mod CB + t \<le> CB"
  shows "(p + t) mod CB = 0 \<longleftrightarrow> p mod CB + t = CB"
    and "p mod CB + t = CB \<Longrightarrow> (p + t) div CB = Suc (p div CB)"
    and "p mod CB + t < CB \<Longrightarrow> (p + t) div CB = p div CB"
    and "i < t \<Longrightarrow> (p + i) div CB = p div CB \<and> (p + i) mod CB = p mod CB + i"
proof -
  have p: "p = p div CB * CB + p mod CB" by simp
  have same: "(p + k) div CB = p div CB \<and> (p + k) mod CB = p mod CB + k" if "p mod CB + k < CB" for k
  proof -
    have "p + k = (p mod CB + k) + p div CB * CB" using p by simp
    with that assms(1) show ?thesis by (metis add.commute div_less div_mult_self1 mod_less
      mod_mult_self1 add_0 bot_nat_0.not_eq_extremum not_gr0)
  qed
  have full: "p + t = Suc (p div CB) * CB" if "p mod CB + t = CB"
  proof -
    have "Suc (p div CB) * CB = CB + p div CB * CB" by simp
    with p that show ?thesis by linarith
  qed
  show "(p + t) mod CB = 0 \<longleftrightarrow> p mod CB + t = CB"
    using assms same [of t] full by (cases "p mod CB + t = CB") auto
  show "p mod CB + t = CB \<Longrightarrow> (p + t) div CB = Suc (p div CB)"
    using full assms(1) by simp
  show "p mod CB + t < CB \<Longrightarrow> (p + t) div CB = p div CB" using same by simp
  show "i < t \<Longrightarrow> (p + i) div CB = p div CB \<and> (p + i) mod CB = p mod CB + i"
    using same [of i] assms(3) by simp
qed

text \<open>The 32-bit quantities of one round of the read loop, as numbers.\<close>
lemma round_numbers:
  fixes V :: fat_volume and off len don :: u32
  assumes V: "vol_ok V" and fits: "unat off + unat len < 2 ^ 32" and don: "don < len"
  defines "p \<equiv> unat off + unat don" and "CB \<equiv> cluster_bytes V"
    and "ic \<equiv> (off + don) mod (ucast (SectorsPerCluster V) * 512)"
  defines "sic \<equiv> ic div 512" and "so \<equiv> ic mod 512"
  defines "left \<equiv> ucast (SectorsPerCluster V) - sic"
  defines "chunk \<equiv> (if left > 8 then 8 else left)"
  defines "avail \<equiv> chunk * 512 - so"
  defines "t \<equiv> (if len - don < avail then len - don else avail)"
  shows "unat sic = p mod CB div 512" "unat so = p mod CB mod 512"
    and "0 < unat chunk" "unat sic + unat chunk \<le> unat (SectorsPerCluster V)"
    and "0 < unat t" "unat so + unat t \<le> unat chunk * 512" "p mod CB + unat t \<le> CB"
    and "unat (don + t) = unat don + unat t" "unat don + unat t \<le> unat len"
    and "unat (off + (don + t)) = p + unat t"
proof -
  have don_nat: "unat don < unat len" using don by (simp add: word_less_nat_alt)
  have p: "unat (off + don) = p"
    using fits don_nat unfolding p_def by (subst unat_add_nowrap) simp_all
  have CB: "0 < CB" using V by (simp add: CB_def cluster_bytes_pos)
  have ic: "unat ic = p mod CB"
    unfolding ic_def by (simp add: unat_mod_word p cluster_bytes_word CB_def)
  then have lt: "unat ic < CB" using CB by simp
  show sic: "unat sic = p mod CB div 512" and so: "unat so = p mod CB mod 512"
    by (simp_all add: sic_def so_def unat_div_word unat_mod_word ic)
  have sic_lt: "unat sic < unat (SectorsPerCluster V)"
    using lt unfolding sic ic CB_def cluster_bytes_def by (simp add: less_mult_imp_div_less)
  then have left: "unat left = unat (SectorsPerCluster V) - unat sic"
    unfolding left_def by (subst unat_sub_nowrap) (simp_all add: word_le_nat_alt unat_ucast_le)
  then have chunk: "unat chunk = min 8 (unat (SectorsPerCluster V) - unat sic)"
    by (auto simp: chunk_def word_less_nat_alt)
  with sic_lt show "0 < unat chunk" and le: "unat sic + unat chunk \<le> unat (SectorsPerCluster V)"
    by simp_all
  have c512: "unat (chunk * 512) = unat chunk * 512"
    using chunk by (subst unat_mult_nowrap) simp_all
  have so_lt: "unat so < 512" by (simp add: so)
  have avail: "unat avail = unat chunk * 512 - unat so"
    using so_lt \<open>0 < unat chunk\<close> c512 unfolding avail_def
    by (subst unat_sub_nowrap) (simp_all add: word_le_nat_alt)
  have rest: "unat (len - don) = unat len - unat don"
    using don by (subst unat_sub_nowrap) simp_all
  have t: "unat t = min (unat len - unat don) (unat chunk * 512 - unat so)"
    by (auto simp: t_def word_less_nat_alt rest avail)
  with so_lt \<open>0 < unat chunk\<close> don_nat show "0 < unat t" by simp
  show tb: "unat so + unat t \<le> unat chunk * 512" using t so_lt \<open>0 < unat chunk\<close> by simp
  show tl: "unat don + unat t \<le> unat len" using t don_nat by simp
  have "p mod CB = unat sic * 512 + unat so" unfolding sic so by simp
  moreover have "(unat sic + unat chunk) * 512 \<le> CB"
    using le unfolding CB_def cluster_bytes_def by simp
  ultimately show "p mod CB + unat t \<le> CB" using tb by simp
  show dt: "unat (don + t) = unat don + unat t"
    using tl unat_u32_lt [of len] by (subst unat_add_nowrap) simp_all
  show "unat (off + (don + t)) = p + unat t"
    using tl fits unfolding p_def by (subst unat_add_nowrap) (simp_all add: dt)
qed

text \<open>What the read loop has established when it has copied \<open>don\<close> bytes.\<close>
definition read_inv :: "medium \<Rightarrow> fat_volume \<Rightarrow> u32 \<Rightarrow> nat \<Rightarrow> nat \<Rightarrow> u32 \<Rightarrow> u32 \<Rightarrow> u32 \<Rightarrow> u8 list \<Rightarrow> bool" where
  "read_inv m V c off len don Index Cluster Out \<longleftrightarrow>
     unat don \<le> len \<and> length Out = unat don \<and>
     (\<forall>i < unat don. file_byte m V c (off + i) = Some (Out ! i)) \<and>
     chain m V c (unat Index) = Some Cluster"

lemma read_inv_core:
  assumes "core V' = core V"
  shows "read_inv m V' c off len don i cl out = read_inv m V c off len don i cl out"
  unfolding read_inv_def by (simp add: file_byte_core [OF assms] chain_core [OF assms])

text \<open>Appending the bytes of a chunk.\<close>
lemma read_inv_append:
  assumes inv: "read_inv m V c off len don Index Cluster Out"
    and at: "unat Index = (off + unat don) div cluster_bytes V"
    and t: "unat (don + t) = unat don + unat t" "unat don + unat t \<le> len"
    and room: "(off + unat don) mod cluster_bytes V + unat t \<le> cluster_bytes V"
    and CB: "0 < cluster_bytes V"
    and chunk: "B = media_bytes m (cluster_sector V Cluster * 512 + (off + unat don) mod cluster_bytes V) (unat t)"
  shows "read_inv m V c off len (don + t) Index Cluster (Out @ B)"
proof -
  let ?p = "off + unat don"
  have "file_byte m V c (off + i) = Some ((Out @ B) ! i)" if i: "i < unat don + unat t" for i
  proof (cases "i < unat don")
    case True
    with inv show ?thesis by (simp add: read_inv_def nth_append)
  next
    case False
    define k where "k = i - unat don"
    from False i have k: "k < unat t" "off + i = ?p + k" unfolding k_def by linarith+
    then have "0 < unat t" by linarith
    from in_cluster_step(4) [OF CB this room k(1)]
    have pos: "(?p + k) div cluster_bytes V = unat Index"
      "(?p + k) mod cluster_bytes V = ?p mod cluster_bytes V + k" unfolding at by blast+
    have "(Out @ B) ! i = B ! k" using False inv by (simp add: nth_append read_inv_def k_def)
    also have "\<dots> = m (cluster_sector V Cluster * 512 + ?p mod cluster_bytes V + k)"
      unfolding chunk using k(1) by (rule nth_media_bytes)
    finally have nth: "(Out @ B) ! i = m (cluster_sector V Cluster * 512 + ?p mod cluster_bytes V + k)" .
    have link: "chain m V c (unat Index) = Some Cluster" using inv by (simp add: read_inv_def)
    show ?thesis unfolding file_byte_def k(2) pos nth link by (simp only: option.map add.assoc)
  qed
  then have bytes: "\<forall>i < unat don + unat t. file_byte m V c (off + i) = Some ((Out @ B) ! i)" by blast
  have len: "length (Out @ B) = unat don + unat t" using inv by (simp add: read_inv_def chunk)
  have "chain m V c (unat Index) = Some Cluster" using inv by (simp add: read_inv_def)
  with t(2) bytes len show ?thesis unfolding read_inv_def t(1) by blast
qed

context disk
begin

lemma ReadClusters_spec:
  assumes "honest b (VolDevice V) m" "vol_ok V" "cache_ok m V"
    and "unat off + unat len < 2 ^ 32"
    and "read_inv m V c (unat off) (unat len) don Index Cluster Out"
    and "don < len \<Longrightarrow> unat Index = (unat off + unat don) div cluster_bytes V"
    and "unat len - unat don < fuel"
    and "ReadClusters fuel (rd b) (ucast (SectorsPerCluster V) * 512) off len don Index Cluster Out V
           = (don', Index', Cluster', Out', V')"
  shows "core V' = core V \<and> cache_ok m V' \<and>
    read_inv m V c (unat off) (unat len) don' Index' Cluster' Out' \<and>
    (healthy b (VolDevice V) sz \<and> sz \<le> 2 ^ 64 \<and> file_within m V c (unat off + unat len) sz \<longrightarrow> don' = len)"
  using assms
proof (induction fuel arbitrary: don Index Cluster Out V)
  case 0
  then show ?case by simp
next
  case (Suc fuel)
  note honest = Suc.prems(1) and V = Suc.prems(2,3) and fits = Suc.prems(4) and inv = Suc.prems(5)
    and run = Suc.prems(8)
  show ?case
  proof (cases "don < len")
    case False
    then have "don = len" using inv by (simp add: read_inv_def word_le_nat_alt [symmetric])
    with False run inv V show ?thesis by simp
  next
    case True
    let ?p = "unat off + unat don" and ?CB = "cluster_bytes V"
    define sic where "sic = (off + don) mod (ucast (SectorsPerCluster V) * 512) div 512"
    define so where "so = (off + don) mod (ucast (SectorsPerCluster V) * 512) mod 512"
    define left where "left = ucast (SectorsPerCluster V) - sic"
    define chunk where "chunk = (if left > 8 then 8 else left)"
    define avail where "avail = chunk * 512 - so"
    define t where "t = (if len - don < avail then len - don else avail)"
    note defs = sic_def so_def left_def chunk_def avail_def t_def
    note num = round_numbers [OF V(1) fits True, folded sic_def so_def, folded left_def,
        folded chunk_def, folded avail_def, folded t_def]
    have CB: "0 < ?CB" using V(1) by (rule cluster_bytes_pos)
    have at: "unat Index = ?p div ?CB" using Suc.prems(6) True by blast
    have link: "chain m V c (unat Index) = Some Cluster" using inv by (simp add: read_inv_def)
    note addr = ClusterLba_sector [OF V(1) chain_valid [OF link]]
    let ?lba = "ClusterLba V Cluster + ucast sic"
    have spc: "unat (SectorsPerCluster V) < 65536" by (rule unat_u16_lt)
    have lba: "unat ?lba = cluster_sector V Cluster + unat sic"
      using addr num(4) spc by (subst unat_add_nowrap) (simp_all add: unat_ucast_le)
    have in_range: "unat ?lba + unat chunk \<le> 2 ^ 64" using addr(2) num(4) spc lba by simp
    have round: "ReadClusters (Suc fuel) (rd b) (ucast (SectorsPerCluster V) * 512) off len don Index Cluster Out V
      = (case rd b (VolDevice V) ?lba chunk of
           None \<Rightarrow> (don, Index, Cluster, Out, V)
         | Some B \<Rightarrow>
             if don + t < len \<and> (off + (don + t)) mod (ucast (SectorsPerCluster V) * 512) = 0
             then case NextCluster (rd b) Cluster V of (Next, W) \<Rightarrow>
                 if \<not> ClusterValid Next then (don + t, Index, Cluster, Out @ bsub B (unat so) (unat t), W)
                 else ReadClusters fuel (rd b) (ucast (SectorsPerCluster V) * 512) off len (don + t)
                        (Index + 1) Next (Out @ bsub B (unat so) (unat t)) W
             else ReadClusters fuel (rd b) (ucast (SectorsPerCluster V) * 512) off len (don + t)
                        Index Cluster (Out @ bsub B (unat so) (unat t)) V)"
      using True unfolding ReadClusters.simps Let_def defs [symmetric] by (simp only: if_False if_True not_True_eq_False)
    show ?thesis
    proof (cases "rd b (VolDevice V) ?lba chunk")
      case None
      then have res: "don' = don" "Index' = Index" "Cluster' = Cluster" "Out' = Out" "V' = V"
        using run unfolding round by simp_all
      have "\<not> (healthy b (VolDevice V) sz \<and> sz \<le> 2 ^ 64 \<and> file_within m V c (unat off + unat len) sz)"
      proof
        assume h: "healthy b (VolDevice V) sz \<and> sz \<le> 2 ^ 64 \<and> file_within m V c (unat off + unat len) sz"
        have "unat Index * ?CB < unat off + unat len"
          using True by (simp add: at word_less_nat_alt le_less_trans [OF div_times_less_eq_dividend])
        with h link have "cluster_sector V Cluster + unat (SectorsPerCluster V) \<le> sz"
          unfolding file_within_def by force
        with lba num(4) have "unat ?lba + unat chunk \<le> sz" by simp
        with h rd_healthy [OF honest, of sz ?lba chunk] None show False by simp
      qed
      with inv V show ?thesis unfolding res by blast
    next
      case (Some B)
      define Out2 where "Out2 = Out @ bsub B (unat so) (unat t)"
      have "B = media_bytes m (unat ?lba * 512) (unat chunk * 512)"
        by (rule rd_honest [OF honest in_range Some])
      then have "bsub B (unat so) (unat t) = media_bytes m (unat ?lba * 512 + unat so) (unat t)"
        using num(6) by (simp add: bsub_media_bytes)
      also have "unat ?lba * 512 + unat so = cluster_sector V Cluster * 512 + ?p mod ?CB"
        unfolding lba add_mult_distrib num(1,2) by simp
      finally have inv2: "read_inv m V c (unat off) (unat len) (don + t) Index Cluster Out2"
        unfolding Out2_def by (rule read_inv_append [OF inv at num(8,9,7) CB])
      have fuel: "unat len - unat (don + t) < fuel"
        using Suc.prems(7) num(5,8,9) by simp
      have pos: "unat off + unat (don + t) = ?p + unat t" by (simp add: num(8))
      have lt_nat: "don + t < len \<longleftrightarrow> ?p + unat t < unat off + unat len"
        by (simp add: word_less_nat_alt num(8))
      have mod0: "(off + (don + t)) mod (ucast (SectorsPerCluster V) * 512) = 0 \<longleftrightarrow> (?p + unat t) mod ?CB = 0"
        by (simp add: word_eq_0_iff_unat unat_mod_word cluster_bytes_word num(10))
      note step_in = in_cluster_step [OF CB num(5,7)]
      show ?thesis
      proof (cases "don + t < len \<and> (off + (don + t)) mod (ucast (SectorsPerCluster V) * 512) = 0")
        case False
        with run Some have rest: "ReadClusters fuel (rd b) (ucast (SectorsPerCluster V) * 512) off len (don + t)
            Index Cluster Out2 V = (don', Index', Cluster', Out', V')"
          unfolding round Out2_def by simp
        have "unat Index = (unat off + unat (don + t)) div ?CB" if "don + t < len"
          using False that num(7) step_in(1,3) mod0 unfolding at pos by simp
        from Suc.IH [OF honest V fits inv2 this fuel rest] show ?thesis .
      next
        case True
        obtain e W where nxt: "NextCluster (rd b) Cluster V = (e, W)" by (cases "NextCluster (rd b) Cluster V")
        note step = NextCluster_spec [OF honest V chain_valid [OF link] nxt]
        have next_div: "(?p + unat t) div ?CB = Suc (unat Index)"
          using True mod0 step_in(1,2) at by simp
        have lt: "?p + unat t < unat off + unat len" using True lt_nat by simp
        show ?thesis
        proof (cases "ClusterValid e")
          case False
          with run Some True have res: "don' = don + t" "Index' = Index" "Cluster' = Cluster" "Out' = Out2" "V' = W"
            unfolding round nxt Out2_def by simp_all
          have "\<not> (healthy b (VolDevice V) sz \<and> file_within m V c (unat off + unat len) sz)"
          proof
            assume h: "healthy b (VolDevice V) sz \<and> file_within m V c (unat off + unat len) sz"
            have "Suc (unat Index) * ?CB < unat off + unat len"
              using le_less_trans [OF div_times_less_eq_dividend [of "?p + unat t" ?CB] lt] by (simp only: next_div)
            moreover from this have "unat Index * ?CB < unat off + unat len" by simp
            ultimately have "chain m V c (Suc (unat Index)) \<noteq> None" "fat_sector V Cluster < sz"
              using h link unfolding file_within_def by (metis option.distinct(1), metis option.inject)
            with h step(7) False chain_Suc_next [OF link] show False by (auto split: if_splits)
          qed
          with inv2 step show ?thesis unfolding res read_inv_core [OF step(1)] by blast
        next
          case valid: True
          with step(6) have e: "e = fat_next m V Cluster" by auto
          from valid run Some True have rest: "ReadClusters fuel (rd b) (ucast (SectorsPerCluster W) * 512) off len
              (don + t) (Index + 1) e Out2 W = (don', Index', Cluster', Out', V')"
            unfolding round nxt Out2_def core_cong(3) [OF step(1)] by simp
          have "unat Index \<le> ?p" unfolding at by (rule div_le_dividend)
          with fits True have idx: "unat (Index + 1) = Suc (unat Index)"
            using lt by (subst unat_add_nowrap) simp_all
          have "chain m V c (Suc (unat Index)) = Some e"
            using chain_Suc_next [OF link] valid e by simp
          with inv2 have inv3: "read_inv m W c (unat off) (unat len) (don + t) (Index + 1) e Out2"
            unfolding read_inv_core [OF step(1)] unfolding read_inv_def idx
            by (elim conjE) (intro conjI, assumption+)
          have at2: "unat (Index + 1) = (unat off + unat (don + t)) div cluster_bytes W"
            unfolding core_cong(7) [OF step(1)] pos idx next_div ..
          have W: "honest b (VolDevice W) m" "vol_ok W"
            using honest V(1) by (simp_all add: core_cong [OF step(1)])
          from Suc.IH [OF W step(2) fits inv3 at2 fuel rest] step(1) show ?thesis
            unfolding core_cong [OF step(1)] file_within_core [OF step(1)] read_inv_core [OF step(1)] by simp
        qed
      qed
    qed
  qed
qed

end

text \<open>The bytes \<open>FatReadAt\<close> is asked for, cut at the end of the file.\<close>
definition wanted :: "fat_entry \<Rightarrow> u32 \<Rightarrow> u32 \<Rightarrow> nat" where
  "wanted File off len = min (unat len) (unat (EntrySize File) - unat off)"

definition is_file :: "fat_entry \<Rightarrow> bool" where
  "is_file File \<longleftrightarrow> EntryAttr File AND FAT_ATTR_DIRECTORY = 0 \<and> ClusterValid (EntryCluster File)"

lemma cut_length:
  fixes len :: u32
  assumes "off < EntrySize File"
  defines "L \<equiv> (if len > EntrySize File - off then EntrySize File - off else len)"
  shows "unat L = wanted File off len" "unat off + unat L < 2 ^ 32"
proof -
  have d: "unat (EntrySize File - off) = unat (EntrySize File) - unat off"
    using assms(1) by (subst unat_sub_nowrap) simp_all
  then show L: "unat L = wanted File off len"
    by (auto simp: L_def wanted_def word_less_nat_alt)
  have "unat off < unat (EntrySize File)" using assms(1) by (simp add: word_less_nat_alt)
  then show "unat off + unat L < 2 ^ 32"
    unfolding L wanted_def using unat_u32_lt [of "EntrySize File"] by simp
qed

text \<open>Where the search for the first cluster starts: at the cursor when it is usable.\<close>
definition read_start :: "fat_volume \<Rightarrow> fat_entry \<Rightarrow> u32 \<Rightarrow> u32 \<times> u32" where
  "read_start V File want =
     (if CursorFirst V = EntryCluster File \<and> CursorIndex V \<le> want \<and> ClusterValid (CursorCluster V)
      then (CursorIndex V, CursorCluster V) else (0, EntryCluster File))"

lemma read_start_chain:
  assumes "cursor_ok m V" "ClusterValid (EntryCluster File)" "read_start V File want = (i, d)"
  shows "chain m V (EntryCluster File) (unat i) = Some d" "i \<le> want"
  using assms by (auto simp: read_start_def cursor_ok_def split: if_splits)

lemma FatReadAt_eq:
  fixes len :: u32 and V :: fat_volume
  assumes "is_file File" "off < EntrySize File"
  defines "L \<equiv> (if len > EntrySize File - off then EntrySize File - off else len)"
    and "CB \<equiv> ucast (SectorsPerCluster V) * 512"
  shows "FatReadAt rd V File off len =
     (case read_start V File (off div CB) of (i, d) \<Rightarrow>
        case SkipClusters (unat (off div CB) - unat i) rd d V of
          (None, V) \<Rightarrow> (0, [], V)
        | (Some d, V) \<Rightarrow>
            (case ReadClusters (Suc (unat L)) rd CB off L 0 (off div CB) d [] V of
               (Done, Index, Cluster, Out, V) \<Rightarrow>
                 (Done, Out, V\<lparr>CursorFirst := EntryCluster File, CursorIndex := Index,
                               CursorCluster := Cluster\<rparr>)))"
proof -
  have "\<not> (EntryAttr File AND FAT_ATTR_DIRECTORY \<noteq> 0 \<or> off \<ge> EntrySize File
      \<or> \<not> ClusterValid (EntryCluster File))"
    using assms(1,2) by (auto simp: is_file_def)
  then show ?thesis
    unfolding FatReadAt_def read_start_def L_def CB_def Let_def by (simp only: if_False)
qed

context disk
begin

text \<open>Reading at an offset: whatever the cache and the cursor hold, the bytes are those of the file's
  cluster chain, and on a healthy device nothing that exists is left out.\<close>
lemma FatReadAt_spec:
  assumes honest: "honest b (VolDevice V) m" and V: "vol_ok V" "cache_ok m V" and cursor: "cursor_ok m V"
    and run: "FatReadAt (rd b) V File off len = (don, out, V')"
  shows "core V' = core V \<and> cache_ok m V' \<and> cursor_ok m V' \<and>
    length out = unat don \<and> unat don \<le> wanted File off len \<and>
    (\<forall>i < unat don. file_byte m V (EntryCluster File) (unat off + i) = Some (out ! i)) \<and>
    (is_file File \<and> healthy b (VolDevice V) sz \<and> sz \<le> 2 ^ 64 \<and>
     file_within m V (EntryCluster File) (unat off + wanted File off len) sz \<longrightarrow>
       unat don = wanted File off len)"
proof (cases "is_file File \<and> off < EntrySize File")
  case False
  then have "don = 0" "out = []" "V' = V"
    using run by (auto simp: FatReadAt_def is_file_def not_less)
  moreover have "is_file File \<Longrightarrow> wanted File off len = 0"
    using False by (simp add: wanted_def not_less word_le_nat_alt)
  ultimately show ?thesis using V cursor by simp
next
  case True
  let ?c = "EntryCluster File" and ?CB = "ucast (SectorsPerCluster V) * 512 :: u32"
  define L where "L = (if len > EntrySize File - off then EntrySize File - off else len)"
  note L = cut_length [OF conjunct2 [OF True], of len, folded L_def]
  have first: "ClusterValid ?c" using True by (simp add: is_file_def)
  obtain i d where start: "read_start V File (off div ?CB) = (i, d)" by (cases "read_start V File (off div ?CB)")
  note link = read_start_chain [OF cursor first start]
  have want: "unat (off div ?CB) = unat off div cluster_bytes V"
    by (simp add: unat_div_word cluster_bytes_word)
  have reach: "unat i + (unat (off div ?CB) - unat i) = unat off div cluster_bytes V"
    using link(2) want by (simp add: word_le_nat_alt)
  obtain r W where skip: "SkipClusters (unat (off div ?CB) - unat i) (rd b) d V = (r, W)"
    by (cases "SkipClusters (unat (off div ?CB) - unat i) (rd b) d V")
  note sk = SkipClusters_spec [OF honest V link(1) skip, unfolded reach, of sz "unat off + unat L"]
  have run2: "(case r of None \<Rightarrow> (0, [], W)
      | Some d \<Rightarrow> (case ReadClusters (Suc (unat L)) (rd b) ?CB off L 0 (off div ?CB) d [] W of
           (Done, Index, Cluster, Out, V) \<Rightarrow> (Done, Out, V\<lparr>CursorFirst := ?c, CursorIndex := Index,
              CursorCluster := Cluster\<rparr>))) = (don, out, V')"
    using run unfolding FatReadAt_eq [OF conjunct1 [OF True] conjunct2 [OF True], of "rd b" V len,
        folded L_def] start prod.case skip .
  show ?thesis
  proof (cases r)
    case None
    with run2 have res: "don = 0" "out = []" "V' = W" by simp_all
    have "wanted File off len = 0" if "healthy b (VolDevice V) sz"
      "file_within m V ?c (unat off + wanted File off len) sz"
    proof (rule ccontr)
      assume "wanted File off len \<noteq> 0"
      then have "unat off div cluster_bytes V * cluster_bytes V < unat off + unat L"
        using le_less_trans [OF div_times_less_eq_dividend [of "unat off" "cluster_bytes V"]] L(1) by simp
      with sk that None L(1) show False by simp
    qed
    moreover have "cursor_ok m W" using cursor sk by (simp add: cursor_ok_def chain_core [of W V])
    ultimately show ?thesis using sk by (auto simp: res)
  next
    case (Some d2)
    obtain Done Index Cl Out X where rc: "ReadClusters (Suc (unat L)) (rd b) ?CB off L 0 (off div ?CB) d2 [] W
        = (Done, Index, Cl, Out, X)"
      by (metis prod_cases5)
    with run2 Some have res: "don = Done" "out = Out"
        "V' = X\<lparr>CursorFirst := ?c, CursorIndex := Index, CursorCluster := Cl\<rparr>"
      by simp_all
    from sk have coreW: "core W = core V" and cacheW: "cache_ok m W"
      and linkW: "chain m W ?c (unat (off div ?CB)) = Some d2"
      by (simp_all add: Some want chain_core [of W V])
    have inv: "read_inv m W ?c (unat off) (unat L) 0 (off div ?CB) d2 []"
      using linkW by (simp add: read_inv_def)
    have at: "unat (off div ?CB) = (unat off + unat (0 :: u32)) div cluster_bytes W"
      by (simp add: want core_cong [OF coreW])
    have rcW: "ReadClusters (Suc (unat L)) (rd b) (ucast (SectorsPerCluster W) * 512) off L 0
        (off div ?CB) d2 [] W = (Done, Index, Cl, Out, X)"
      using rc by (simp only: core_cong(3) [OF coreW])
    have fuel: "unat L - unat (0 :: u32) < Suc (unat L)" by simp
    have W: "honest b (VolDevice W) m" "vol_ok W"
      using honest V by (simp_all add: core_cong [OF coreW])
    have rspec: "core X = core W \<and> cache_ok m X \<and> read_inv m W ?c (unat off) (unat L) Done Index Cl Out \<and>
      (healthy b (VolDevice W) sz \<and> sz \<le> 2 ^ 64 \<and> file_within m W ?c (unat off + unat L) sz \<longrightarrow> Done = L)"
      by (rule ReadClusters_spec [OF W cacheW L(2) inv at fuel rcW])
    then have coreX: "core X = core V" and invX: "read_inv m V ?c (unat off) (unat L) Done Index Cl Out"
      by (simp_all add: coreW read_inv_core [OF coreW])
    have coreV': "core V' = core V" using coreX by (simp add: res core_def)
    have "cache_ok m V'" using rspec by (simp add: res cache_ok_def)
    moreover have "cursor_ok m V'"
      using invX by (simp add: cursor_ok_def chain_core [OF coreV']) (simp add: read_inv_def res)
    ultimately show ?thesis
      using invX rspec coreV' L(1)
      by (simp add: res(1,2) read_inv_def core_cong [OF coreW] file_within_core [OF coreW])
  qed
qed

end

section \<open>Mounting\<close>

lemma pmm_ok_alloc: "pmm_ok s \<Longrightarrow> alloc b s = (a, s') \<Longrightarrow> pmm_ok s'"
  using alloc_contract by blast

text \<open>The two pages of a mount, and giving them back.\<close>
lemma two_pages:
  assumes ok: "pmm_ok s" and a: "AllocPage s = (A, s1)" "A \<noteq> 0" and b: "AllocPage s1 = (B, s2)" "B \<noteq> 0"
  shows "pmm_ok s2" "A \<noteq> B"
    and "\<exists>p \<in> free_set s. \<exists>q \<in> free_set s. p \<noteq> q \<and> A = p * PAGE_SIZE \<and> B = q * PAGE_SIZE \<and>
           free_set s2 = free_set s - {p, q}"
    and "pmm_ok (FreePage B (FreePage A s2))" "free_set (FreePage B (FreePage A s2)) = free_set s"
proof -
  note a' = a(1) [unfolded alloc_eq] and b' = b(1) [unfolded alloc_eq]
  have ok1: "pmm_ok s1" using ok a' by (rule pmm_ok_alloc)
  show ok2: "pmm_ok s2" using ok1 b' by (rule pmm_ok_alloc)
  have own: "owned_ok s1 {A}" using alloc_fresh(2) [OF ok _ a' a(2), of "{}"] by (simp add: owned_ok_def)
  show ne: "A \<noteq> B" using alloc_fresh(1) [OF ok1 own b' b(2)] by blast
  have own2: "owned_ok s2 {B, A}" using alloc_fresh(2) [OF ok1 own b' b(2)] by simp
  have ok3: "pmm_ok (FreePage A s2)" and own3: "owned_ok (FreePage A s2) {B}"
    using free_owned(1,2) [OF ok2 own2, of A] ne by (simp_all add: insert_Diff_if)
  show "pmm_ok (FreePage B (FreePage A s2))" using free_owned(1) [OF ok3 own3] by simp
  obtain p where p: "A = p * PAGE_SIZE" "p \<in> free_set s" "free_set s1 = free_set s - {p}"
      "TestBit s1 p" "TotalPages s1 = TotalPages s"
    using a' a(2) by (rule alloc_free_set)
  obtain q where q: "B = q * PAGE_SIZE" "q \<in> free_set s1" "free_set s2 = free_set s1 - {q}"
      "TestBit s2 q" "TotalPages s2 = TotalPages s1" "\<And>r. TestBit s2 r \<longleftrightarrow> r = q \<or> TestBit s1 r"
    using b' b(2) by (rule alloc_free_set) blast
  have T: "TotalPages s \<le> 2 ^ 52" using ok by (simp add: pmm_ok_def)
  have lt: "p < TotalPages s2" "q < TotalPages s2"
    using p(2,5) q(2,5) by (simp_all add: free_set_def)
  have pq: "q \<noteq> p" "q \<in> free_set s" using q(2) p(3) by auto
  have fs: "free_set s2 = free_set s - {p, q}" using p(3) q(3) by auto
  show "\<exists>p \<in> free_set s. \<exists>q \<in> free_set s. p \<noteq> q \<and> A = p * PAGE_SIZE \<and> B = q * PAGE_SIZE \<and>
      free_set s2 = free_set s - {p, q}"
    by (rule bexI [OF bexI [OF _ pq(2)] p(2)]) (intro conjI p(1) q(1) fs pq(1) [symmetric])
  have T2: "TotalPages s2 \<le> 2 ^ 52" using T p(5) q(5) by simp
  have used: "TestBit s2 p" using p(4) q(6) by simp
  note F1 = FreePage_set [OF used lt(1) T2, folded p(1)]
  have "TestBit (FreePage A s2) q" using F1(2) q(4) pq(1) by simp
  from FreePage_set(1) [OF this, folded q(1)] lt(2) T2
  have "free_set (FreePage B (FreePage A s2)) = insert q (insert p (free_set s2))"
    by (simp add: F1)
  with p(2,3) q(3) pq show "free_set (FreePage B (FreePage A s2)) = free_set s" by auto
qed

text \<open>A boot sector that passes the check describes a volume the driver can walk.\<close>
lemma MountedVolume_ok:
  assumes "FatBootSectorValid S" "unat Start < 2 ^ 63"
  shows "vol_ok (MountedVolume A B dev Start S V)" "cache_ok m (MountedVolume A B dev Start S V)"
    and "cursor_ok m (MountedVolume A B dev Start S V)"
proof -
  let ?bps = "Le16 S 0x0B" and ?spc = "bget S 0x0D"
  from assms(1) have bps: "?bps = 512 \<or> ?bps = 1024 \<or> ?bps = 2048 \<or> ?bps = 4096"
    and spc: "?spc \<noteq> 0" "?spc \<le> 128"
    by (auto simp: FatBootSectorValid_def Let_def split: if_splits)
  have scale: "unat (ucast ?bps div 512 :: u32) \<in> {1, 2, 4, 8}"
    using bps by (auto simp: unat_div_word unat_ucast_le)
  have spc_nat: "0 < unat ?spc" "unat ?spc \<le> 128"
    using spc by (simp_all add: word_neq_0_iff_unat word_le_nat_alt)
  have prod: "unat (ucast ?spc * (ucast ?bps div 512) :: u32) = unat ?spc * unat (ucast ?bps div 512 :: u32)"
    using scale spc_nat by (subst unat_mult_nowrap) (auto simp: unat_ucast_le)
  then have "unat (ucast (ucast ?spc * (ucast ?bps div 512 :: u32)) :: u16)
      = unat ?spc * unat (ucast ?bps div 512 :: u32)"
    using scale spc_nat by (subst unsigned_ucast_eq) (auto simp: take_bit_nat_eq_self)
  moreover have "0 < unat ?spc * unat (ucast ?bps div 512 :: u32)" using scale spc_nat by auto
  ultimately have "ucast (ucast ?spc * (ucast ?bps div 512 :: u32)) \<noteq> (0 :: u16)"
    by (simp add: word_neq_0_iff_unat)
  with assms(2) show "vol_ok (MountedVolume A B dev Start S V)"
    by (simp add: MountedVolume_def vol_ok_def Let_def)
  show "cache_ok m (MountedVolume A B dev Start S V)" "cursor_ok m (MountedVolume A B dev Start S V)"
    by (simp_all add: MountedVolume_def cache_ok_def cursor_ok_def ClusterValid_def Let_def)
qed

lemma FatMount_cases:
  assumes "pmm_ok s" "FatMount rd dev Start V s = (r, V', s')"
  shows "pmm_ok s' \<and> (if r
     then \<exists>p \<in> free_set s. \<exists>q \<in> free_set s. \<exists>S. p \<noteq> q \<and> rd dev Start 1 = Some S \<and> FatBootSectorValid S \<and>
            V' = MountedVolume (p * PAGE_SIZE) (q * PAGE_SIZE) dev Start S V \<and>
            free_set s' = free_set s - {p, q}
     else V' = V \<and> free_set s' = free_set s)"
proof -
  obtain A s1 B s2 where a: "AllocPage s = (A, s1)" and b: "AllocPage s1 = (B, s2)"
    by (cases "AllocPage s", cases "AllocPage (snd (AllocPage s))") auto
  show ?thesis
  proof (cases "A = 0 \<or> B = 0")
    case True
    have ok1: "pmm_ok s1" using assms(1) a unfolding alloc_eq by (rule pmm_ok_alloc)
    note c1 = alloc_contract [OF assms(1) a [unfolded alloc_eq]]
      and c2 = alloc_contract [OF ok1 b [unfolded alloc_eq]]
    from assms(2) True have r: "\<not> r" "V' = V"
      and s': "s' = (if B \<noteq> 0 then FreePage B (if A \<noteq> 0 then FreePage A s2 else s2)
                     else if A \<noteq> 0 then FreePage A s2 else s2)"
      by (auto simp: FatMount_def a b Let_def)
    show ?thesis
    proof (cases "A = 0")
      case A0: True
      with c1 have "s1 = s" by (auto split: if_splits)
      with a b A0 have "B = 0" "s2 = s" by simp_all
      with A0 s' r assms(1) show ?thesis by simp
    next
      case False
      with True have B0: "B = 0" by simp
      with c2 have "s2 = s1" by (auto split: if_splits)
      moreover have "FreePage A s1 = s"
        using alloc_fresh(5) [OF assms(1) _ a [unfolded alloc_eq] False, of "{}"] by (simp add: owned_ok_def)
      ultimately show ?thesis using False B0 s' r assms(1) by simp
    qed
  next
    case False
    note two = two_pages [OF assms(1) a _ b] 
    show ?thesis
    proof (cases "rd dev Start 1")
      case None
      with assms(2) False have "\<not> r" "V' = V" "s' = FreePage B (FreePage A s2)"
        by (auto simp: FatMount_def a b Let_def)
      with two False show ?thesis by simp
    next
      case (Some S)
      show ?thesis
      proof (cases "FatBootSectorValid S")
        case True
        with Some assms(2) False have "r" "V' = MountedVolume A B dev Start S V" "s' = s2"
          by (auto simp: FatMount_def a b Let_def)
        with two(1,3) False Some True show ?thesis by auto
      next
        case invalid: False
        with Some assms(2) False have "\<not> r" "V' = V" "s' = FreePage B (FreePage A s2)"
          by (auto simp: FatMount_def a b Let_def)
        with two False show ?thesis by simp
      qed
    qed
  qed
qed

end
