(* ===== verification/FatDir.thy ===== *)
theory FatDir
  imports Fat32
begin

text \<open>
  Directory listing of the FAT32 driver, against a specification that knows nothing of sectors, loops
  or caches: the directory is the list of 32-byte slots along its cluster chain, the slots decode to a
  list of entries, and the callback is fed that list until it says stop. The last part shows that the
  decoder reads back any long name that is stored the way VFAT prescribes, which is written out there independently of the code.
\<close>

section \<open>The specification\<close>

definition cluster_slots :: "medium \<Rightarrow> fat_volume \<Rightarrow> u32 \<Rightarrow> u8 list list" where
  "cluster_slots m V c = concat (map (\<lambda>s. map (\<lambda>e. media_bytes m ((cluster_sector V c + s) * 512 + e * 32) 32)
     [0..<16]) [0..<unat (SectorsPerCluster V)])"

text \<open>The slots of the first \<open>n\<close> clusters of a chain.\<close>
fun chain_slots :: "medium \<Rightarrow> fat_volume \<Rightarrow> u32 \<Rightarrow> nat \<Rightarrow> u8 list list" where
  "chain_slots m V c 0 = []"
| "chain_slots m V c (Suc n) =
     (if ClusterValid c then cluster_slots m V c @ chain_slots m V (fat_next m V c) n else [])"

fun scan_slots :: "u8 list list \<Rightarrow> dir_scan \<Rightarrow> fat_entry list" where
  "scan_slots [] d = []"
| "scan_slots (E # Es) d =
     (case ScanSlot E d of EndOfDir \<Rightarrow> [] | Skip d \<Rightarrow> scan_slots Es d
      | Emit entry d \<Rightarrow> entry # scan_slots Es d)"

fun deliver :: "'c dir_cb \<Rightarrow> fat_entry list \<Rightarrow> 'c \<Rightarrow> 'c" where
  "deliver cb [] ctx = ctx"
| "deliver cb (e # es) ctx = (case cb e ctx of (stop, ctx) \<Rightarrow> if stop then ctx else deliver cb es ctx)"

definition dir_entries :: "medium \<Rightarrow> fat_volume \<Rightarrow> u32 \<Rightarrow> fat_entry list" where
  "dir_entries m V c = scan_slots (chain_slots m V c MAX_CHAIN) scan_init"

text \<open>All clusters of the directory, and the table entries that link them, lie inside the device.\<close>
fun dir_within :: "medium \<Rightarrow> fat_volume \<Rightarrow> u32 \<Rightarrow> nat \<Rightarrow> nat \<Rightarrow> bool" where
  "dir_within m V c 0 sz = True"
| "dir_within m V c (Suc n) sz =
     (ClusterValid c \<longrightarrow> cluster_sector V c + unat (SectorsPerCluster V) \<le> sz \<and> fat_sector V c < sz \<and>
        dir_within m V (fat_next m V c) n sz)"

section \<open>The nested loops are one pass over the slots\<close>

fun run_slots :: "'c dir_cb \<Rightarrow> u8 list list \<Rightarrow> dir_scan \<Rightarrow> 'c \<Rightarrow> 'c flow" where
  "run_slots cb [] d ctx = Continue d ctx"
| "run_slots cb (E # Es) d ctx =
     (case ScanSlot E d of
        EndOfDir \<Rightarrow> Return True ctx
      | Skip d \<Rightarrow> run_slots cb Es d ctx
      | Emit entry d \<Rightarrow>
          (case cb entry ctx of (stop, ctx) \<Rightarrow>
             if stop then Return True ctx else run_slots cb Es d ctx))"

lemma run_slots_append:
  "run_slots cb (xs @ ys) d ctx =
     (case run_slots cb xs d ctx of Return r ctx \<Rightarrow> Return r ctx | Continue d ctx \<Rightarrow> run_slots cb ys d ctx)"
  by (induction xs arbitrary: d ctx) (auto split: slot_result.split prod.split)

text \<open>The context a pass ends with, whether it ran through or returned (successfully).\<close>
fun flow_ctx :: "'c flow \<Rightarrow> 'c \<Rightarrow> bool" where
  "flow_ctx (Continue d c') c \<longleftrightarrow> c' = c"
| "flow_ctx (Return r c') c \<longleftrightarrow> r \<and> c' = c"

lemma run_slots_deliver: "flow_ctx (run_slots cb Es d ctx) (deliver cb (scan_slots Es d) ctx)"
  by (induction Es arbitrary: d ctx) (auto split: slot_result.split prod.split)

lemma ListSlots_run:
  "ListSlots cb B es d ctx = run_slots cb (map (\<lambda>e. bsub B (e * 32) 32) es) d ctx"
  by (induction es arbitrary: d ctx) (simp_all split: slot_result.split prod.split)

lemma ListSlots_sector:
  "ListSlots cb (media_bytes m a 512) [0..<16] d ctx =
     run_slots cb (map (\<lambda>e. media_bytes m (a + e * 32) 32) [0..<16]) d ctx"
proof -
  have "map (\<lambda>e. bsub (media_bytes m a 512) (e * 32) 32) [0..<16] =
      map (\<lambda>e. media_bytes m (a + e * 32) 32) [0..<16]"
    by (rule map_cong) (auto simp: bsub_media_bytes)
  then show ?thesis by (simp only: ListSlots_run)
qed

lemma deliver_unique: "flow_ctx f c \<Longrightarrow> flow_ctx f c' \<Longrightarrow> c = c'"
  by (cases f) auto

lemma chain_slots_core:
  assumes "core V' = core V"
  shows "chain_slots m V' c n = chain_slots m V c n"
  by (induction n arbitrary: c) (simp_all add: cluster_slots_def core_cong [OF assms])

lemma dir_within_core:
  assumes "core V' = core V"
  shows "dir_within m V' c n sz = dir_within m V c n sz"
  by (induction n arbitrary: c) (simp_all add: core_cong [OF assms])

context disk
begin

lemma ListSectors_run:
  assumes honest: "honest b (VolDevice V) m" and V: "vol_ok V" and c: "ClusterValid c"
    and healthy: "healthy b (VolDevice V) sz" "cluster_sector V c + unat (SectorsPerCluster V) \<le> sz" "sz \<le> 2 ^ 64"
  shows "(\<forall>s \<in> set ss. s < unat (SectorsPerCluster V)) \<Longrightarrow>
    ListSectors (rd b) V cb c ss d ctx =
      run_slots cb (concat (map (\<lambda>s. map (\<lambda>e. media_bytes m ((cluster_sector V c + s) * 512 + e * 32) 32)
        [0..<16]) ss)) d ctx"
proof (induction ss arbitrary: d ctx)
  case (Cons s ss)
  have s: "s < unat (SectorsPerCluster V)" "s < 65536"
    using Cons.prems unat_u16_lt [of "SectorsPerCluster V"] by auto
  note addr = ClusterLba_sector [OF V c]
  have s64: "unat (of_nat s :: u64) = s" using s(2) by (simp add: unat_of_nat)
  have lba: "unat (ClusterLba V c + of_nat s) = cluster_sector V c + s"
    using addr s(2) by (subst unat_add_nowrap) (simp_all add: s64)
  have "rd b (VolDevice V) (ClusterLba V c + of_nat s) 1 =
      Some (media_bytes m ((cluster_sector V c + s) * 512) 512)"
    using rd_total [OF honest healthy(1,3), of "ClusterLba V c + of_nat s" 1] lba s(1) healthy(2) by simp
  with Cons show ?case
    by (simp add: ListSlots_sector run_slots_append cong: flow.case_cong)
qed simp

lemma ListChain_run:
  assumes "honest b (VolDevice V) m" "vol_ok V" "cache_ok m V"
    and "healthy b (VolDevice V) sz" "sz \<le> 2 ^ 64" "dir_within m V c n sz"
    and "ListChain n (rd b) cb c d V ctx = (r, V', ctx')"
  shows "r \<and> core V' = core V \<and> cache_ok m V' \<and> (cursor_ok m V \<longrightarrow> cursor_ok m V') \<and>
    ctx' = deliver cb (scan_slots (chain_slots m V c n) d) ctx"
  using assms
proof (induction n arbitrary: c d V ctx)
  case (Suc n)
  show ?case
  proof (cases "ClusterValid c")
    case True
    have within: "cluster_sector V c + unat (SectorsPerCluster V) \<le> sz" "fat_sector V c < sz"
      "dir_within m V (fat_next m V c) n sz" using Suc.prems(6) True by simp_all
    let ?S = "cluster_slots m V c"
    have sectors: "ListSectors (rd b) V cb c [0..<unat (SectorsPerCluster V)] d ctx = run_slots cb ?S d ctx"
      unfolding cluster_slots_def
      by (rule ListSectors_run [OF Suc.prems(1,2) True Suc.prems(4) within(1) Suc.prems(5)]) simp
    show ?thesis
    proof (cases "run_slots cb ?S d ctx")
      case (Return q ctx2)
      with run_slots_deliver [of cb ?S d ctx] have q: "q" by simp
      have res: "r = q" "V' = V" "ctx' = ctx2" using Suc.prems(7) True sectors Return by simp_all
      have "flow_ctx (run_slots cb (chain_slots m V c (Suc n)) d ctx) ctx2"
        using True Return q by (simp add: run_slots_append)
      from deliver_unique [OF run_slots_deliver this] q res Suc.prems(3) show ?thesis by simp
    next
      case (Continue d2 ctx2)
      obtain e W where nxt: "NextCluster (rd b) c V = (e, W)" by (cases "NextCluster (rd b) c V")
      note step = NextCluster_spec [OF Suc.prems(1,2,3) True nxt]
      have e: "e = fat_next m V c" using step(7) [OF Suc.prems(4) within(2)] .
      have run: "ListChain n (rd b) cb e d2 W ctx2 = (r, V', ctx')"
        using Suc.prems(7) True sectors Continue nxt by simp
      have W: "honest b (VolDevice W) m" "vol_ok W" "healthy b (VolDevice W) sz" "dir_within m W e n sz"
        using Suc.prems(1,2,4) within(3)
        by (simp_all add: core_cong [OF step(1)] dir_within_core [OF step(1)] e)
      note IH = Suc.IH [OF W(1,2) step(2) W(3) Suc.prems(5) W(4) run]
      have "run_slots cb (chain_slots m V c (Suc n)) d ctx = run_slots cb (chain_slots m V e n) d2 ctx2"
        using True Continue by (simp add: run_slots_append e)
      then have "deliver cb (scan_slots (chain_slots m V c (Suc n)) d) ctx =
          deliver cb (scan_slots (chain_slots m V e n) d2) ctx2"
        using run_slots_deliver deliver_unique by metis
      moreover have "cursor_ok m V \<longrightarrow> cursor_ok m W"
        by (simp add: cursor_ok_def step(3,4,5) chain_core [OF step(1)])
      ultimately show ?thesis
        using IH step(1) by (simp add: chain_slots_core [OF step(1)] del: chain_slots.simps)
    qed
  next
    case False
    with Suc.prems show ?thesis by simp
  qed
qed simp

text \<open>A listing on a healthy device feeds the callback the decoded entries of the directory in order,
  reports success, and leaves cache and cursor usable.\<close>
lemma FatListDir_spec:
  assumes "honest b (VolDevice V) m" "vol_ok V" "cache_ok m V"
    and "healthy b (VolDevice V) sz" "sz \<le> 2 ^ 64" "dir_within m V c MAX_CHAIN sz"
    and "FatListDir (rd b) V c cb ctx = (r, V', ctx')"
  shows "r \<and> core V' = core V \<and> cache_ok m V' \<and> (cursor_ok m V \<longrightarrow> cursor_ok m V') \<and>
    ctx' = deliver cb (dir_entries m V c) ctx"
  using ListChain_run [OF assms(1-6), of cb scan_init ctx r V' ctx'] assms(7)
  by (simp add: FatListDir_def dir_entries_def)

lemma FatLookup_spec:
  assumes "honest b (VolDevice V) m" "vol_ok V" "cache_ok m V"
    and "healthy b (VolDevice V) sz" "sz \<le> 2 ^ 64" "dir_within m V c MAX_CHAIN sz"
    and "FatLookup (rd b) V c Want = (Found, V')"
  shows "core V' = core V \<and> cache_ok m V' \<and> (cursor_ok m V \<longrightarrow> cursor_ok m V') \<and>
    Found = find (\<lambda>e. map lower (EntryName e) = map lower Want) (dir_entries m V c)"
proof -
  have lookup: "deliver (LookupCallback Want) es None =
      find (\<lambda>e. map lower (EntryName e) = map lower Want) es" for es
    by (induction es) (simp_all add: LookupCallback_def)
  obtain r W F where run: "FatListDir (rd b) V c (LookupCallback Want) None = (r, W, F)"
    by (metis prod_cases3)
  with assms(7) have "Found = F" "V' = W" by (simp_all add: FatLookup_def)
  with FatListDir_spec [OF assms(1-6) run] show ?thesis by (simp add: lookup)
qed

end

section \<open>Long names\<close>

text \<open>The cell \<open>p\<close> of a stored long name: its characters, a terminator, then padding.\<close>
definition lfn_cell :: "cstring \<Rightarrow> nat \<Rightarrow> u16" where
  "lfn_cell name p = (if p < length name then ucast (name ! p) else if p = length name then 0 else 0xFFFF)"

definition lfn_count :: "cstring \<Rightarrow> nat" where
  "lfn_count name = (length name + 12) div 13"

text \<open>A slot that stores piece \<open>i\<close> (from 1) of a long name, the last piece marked with \<open>0x40\<close>.\<close>
definition lfn_slot :: "cstring \<Rightarrow> u8 \<Rightarrow> nat \<Rightarrow> u8 list \<Rightarrow> bool" where
  "lfn_slot name chk i E \<longleftrightarrow>
     bget E 0 = of_nat i OR (if i = lfn_count name then 0x40 else 0) \<and> bget E 11 = 0x0F \<and> bget E 13 = chk
     \<and> (\<forall>k < 13. Le16 E (LfnOffsets ! k) = lfn_cell name (13 * (i - 1) + k))"

text \<open>The pieces of a name are stored last piece first, in front of the short entry.\<close>
fun lfn_slots :: "cstring \<Rightarrow> u8 \<Rightarrow> nat \<Rightarrow> u8 list list \<Rightarrow> bool" where
  "lfn_slots name chk 0 Es \<longleftrightarrow> Es = []"
| "lfn_slots name chk (Suc i) Es \<longleftrightarrow> (\<exists>E Es'. Es = E # Es' \<and> lfn_slot name chk (Suc i) E \<and> lfn_slots name chk i Es')"

lemma StoreLfn_nth:
  assumes "length L = 260" "1 \<le> i" "i \<le> 20"
  shows "length (StoreLfn E i L) = 260"
    and "p < 260 \<Longrightarrow> StoreLfn E i L ! p =
      (if 13 * (i - 1) \<le> p \<and> p < 13 * i then Le16 E (LfnOffsets ! (p - 13 * (i - 1))) else L ! p)"
proof -
  have "length (fold (\<lambda>k L. L[(i - 1) * 13 + k := Le16 E (LfnOffsets ! k)]) [0..<n] L) = 260 \<and>
    (\<forall>p < 260. fold (\<lambda>k L. L[(i - 1) * 13 + k := Le16 E (LfnOffsets ! k)]) [0..<n] L ! p =
      (if 13 * (i - 1) \<le> p \<and> p < 13 * (i - 1) + n then Le16 E (LfnOffsets ! (p - 13 * (i - 1))) else L ! p))"
    if "n \<le> 13" for n
    using that
  proof (induction n)
    case 0
    then show ?case by (auto simp: assms(1))
  next
    case (Suc n)
    then have "(i - 1) * 13 + n < 260" using assms(2,3) by simp
    with Suc show ?case
      by (auto simp: nth_list_update mult.commute [of _ 13] less_Suc_eq)
  qed
  from this [of 13] assms(2) show "length (StoreLfn E i L) = 260"
    and "p < 260 \<Longrightarrow> StoreLfn E i L ! p =
      (if 13 * (i - 1) \<le> p \<and> p < 13 * i then Le16 E (LfnOffsets ! (p - 13 * (i - 1))) else L ! p)"
    by (auto simp: StoreLfn_def diff_mult_distrib2)
qed

lemma lfn_order_byte:
  assumes "1 \<le> i" "i \<le> 20"
  shows "unat (of_nat i AND 0x1F :: u8) = i" "unat ((of_nat i OR 0x40) AND 0x1F :: u8) = i"
    and "of_nat i \<noteq> (0 :: u8)" "of_nat i OR 0x40 \<noteq> (0 :: u8)"
    and "of_nat i \<noteq> (0xE5 :: u8)" "of_nat i OR 0x40 \<noteq> (0xE5 :: u8)"
    and "of_nat i AND 0x40 = (0 :: u8)" "(of_nat i OR 0x40) AND 0x40 \<noteq> (0 :: u8)"
proof -
  have "\<forall>i \<in> set [1..<21]. unat (of_nat i AND 0x1F :: u8) = i \<and> unat ((of_nat i OR 0x40) AND 0x1F :: u8) = i
     \<and> of_nat i \<noteq> (0 :: u8) \<and> of_nat i OR 0x40 \<noteq> (0 :: u8) \<and> of_nat i \<noteq> (0xE5 :: u8)
     \<and> of_nat i OR 0x40 \<noteq> (0xE5 :: u8) \<and> of_nat i AND 0x40 = (0 :: u8)
     \<and> (of_nat i OR 0x40) AND 0x40 \<noteq> (0 :: u8)"
    by code_simp
  with assms show "unat (of_nat i AND 0x1F :: u8) = i" "unat ((of_nat i OR 0x40) AND 0x1F :: u8) = i"
    and "of_nat i \<noteq> (0 :: u8)" "of_nat i OR 0x40 \<noteq> (0 :: u8)"
    and "of_nat i \<noteq> (0xE5 :: u8)" "of_nat i OR 0x40 \<noteq> (0xE5 :: u8)"
    and "of_nat i AND 0x40 = (0 :: u8)" "(of_nat i OR 0x40) AND 0x40 \<noteq> (0 :: u8)"
    by auto
qed

text \<open>The scan state when the pieces from the last down to \<open>i + 1\<close> have been read.\<close>
definition lfn_read :: "cstring \<Rightarrow> u8 \<Rightarrow> nat \<Rightarrow> dir_scan \<Rightarrow> bool" where
  "lfn_read name chk i d \<longleftrightarrow> LfnValid d \<and> LfnSum d = chk \<and> LfnCount d = lfn_count name \<and> length (Lfn d) = 260 \<and>
     (\<forall>p < 260. 13 * i \<le> p \<longrightarrow> Lfn d ! p = (if p < 13 * lfn_count name then lfn_cell name p else 0xFFFF))"

lemma lfn_slot_skip:
  assumes "lfn_slot name chk i E" "1 \<le> i" "i \<le> 20"
  shows "ScanSlot E d = Skip (ScanLfn E d)" "unat (bget E 0 AND 0x1F) = i"
    and "bget E 0 AND 0x40 \<noteq> 0 \<longleftrightarrow> i = lfn_count name"
  using assms lfn_order_byte [OF assms(2,3)]
  by (auto simp: lfn_slot_def ScanSlot_def)

lemma lfn_store:
  assumes slot: "lfn_slot name chk (Suc i) E" and i: "Suc i \<le> lfn_count name" "lfn_count name \<le> 20"
    and len: "length (Lfn d) = 260" and d: "LfnValid d" "LfnSum d = chk" "LfnCount d = lfn_count name"
    and above: "\<forall>p < 260. 13 * Suc i \<le> p \<longrightarrow> Lfn d ! p = (if p < 13 * lfn_count name then lfn_cell name p else 0xFFFF)"
  shows "lfn_read name chk i (d\<lparr>Lfn := StoreLfn E (Suc i) (Lfn d)\<rparr>)"
proof -
  have cells: "Le16 E (LfnOffsets ! k) = lfn_cell name (13 * i + k)" if "k < 13" for k
    using slot that by (simp add: lfn_slot_def)
  have "StoreLfn E (Suc i) (Lfn d) ! p = (if p < 13 * lfn_count name then lfn_cell name p else 0xFFFF)"
    if p: "p < 260" "13 * i \<le> p" for p
  proof (cases "p < 13 * Suc i")
    case True
    with p have "p - 13 * i < 13" by simp
    from cells [OF this] p True i StoreLfn_nth(2) [OF len, of "Suc i" p E] show ?thesis by simp
  next
    case False
    with p i above StoreLfn_nth(2) [OF len, of "Suc i" p E] show ?thesis by simp
  qed
  with d len i StoreLfn_nth(1) [OF len, of "Suc i" E] show ?thesis by (simp add: lfn_read_def)
qed

lemma lfn_step:
  assumes "lfn_slot name chk (Suc i) E" "Suc i < lfn_count name" "lfn_count name \<le> 20" "lfn_read name chk (Suc i) d"
  shows "\<exists>d'. ScanSlot E d = Skip d' \<and> lfn_read name chk i d'"
proof -
  have E: "bget E 13 = chk" using assms(1) by (simp add: lfn_slot_def)
  note skip = lfn_slot_skip [OF assms(1)]
  have "ScanLfn E d = d\<lparr>Lfn := StoreLfn E (Suc i) (Lfn d)\<rparr>"
    using skip(2,3) assms E by (simp add: ScanLfn_def lfn_read_def MAX_LFN_ENTRIES_def Let_def)
  moreover have "lfn_read name chk i (d\<lparr>Lfn := StoreLfn E (Suc i) (Lfn d)\<rparr>)"
    using assms by (intro lfn_store) (simp_all add: lfn_read_def)
  ultimately show ?thesis using skip(1) assms by simp
qed

lemma lfn_first:
  assumes "lfn_slot name chk (Suc i) E" "Suc i = lfn_count name" "lfn_count name \<le> 20" "length (Lfn d) = 260"
  shows "\<exists>d'. ScanSlot E d = Skip d' \<and> lfn_read name chk i d'"
proof -
  have E: "bget E 13 = chk" using assms(1) by (simp add: lfn_slot_def)
  note skip = lfn_slot_skip [OF assms(1)]
  let ?d = "d\<lparr>LfnValid := True, LfnSum := chk, LfnCount := Suc i, Lfn := map (\<lambda>_. 0xFFFF) (Lfn d)\<rparr>"
  have "ScanLfn E d = ?d\<lparr>Lfn := StoreLfn E (Suc i) (Lfn ?d)\<rparr>"
    using skip(2,3) assms E by (simp add: ScanLfn_def MAX_LFN_ENTRIES_def Let_def)
  moreover have "lfn_read name chk i (?d\<lparr>Lfn := StoreLfn E (Suc i) (Lfn ?d)\<rparr>)"
    using assms by (intro lfn_store) simp_all
  ultimately show ?thesis using skip(1) assms by simp
qed

lemma lfn_rest:
  "lfn_slots name chk i Es \<Longrightarrow> i < lfn_count name \<Longrightarrow> lfn_count name \<le> 20 \<Longrightarrow> lfn_read name chk i d \<Longrightarrow>
   \<exists>d'. scan_slots (Es @ rest) d = scan_slots rest d' \<and> lfn_read name chk 0 d'"
proof (induction i arbitrary: Es d)
  case (Suc i)
  then obtain E Es' where Es: "Es = E # Es'" "lfn_slot name chk (Suc i) E" "lfn_slots name chk i Es'" by auto
  obtain d' where "ScanSlot E d = Skip d'" "lfn_read name chk i d'"
    using lfn_step [OF Es(2) Suc.prems(2,3,4)] by blast
  with Suc.IH [OF Es(3) _ _ this(2)] Suc.prems(2,3) show ?case by (simp add: Es(1))
qed auto

lemma LongNameLoop_name:
  assumes "rest = [] \<or> hd rest = 0"
  shows "length name \<le> room \<Longrightarrow> \<forall>c \<in> set name. c \<noteq> 0 \<and> c < 0x80 \<Longrightarrow>
    LongNameLoop (map ucast name @ rest) room = name"
proof (induction name arbitrary: room)
  case Nil
  with assms show ?case by (cases rest) auto
next
  case (Cons c name)
  then have c: "0 < unat c" "unat c < 128" by (simp_all add: word_neq_0_iff_unat word_less_nat_alt)
  have u: "unat (ucast c :: u16) = unat c" by (simp add: unat_ucast_le)
  with c have "ucast c \<noteq> (0 :: u16)" "ucast c \<noteq> (0xFFFF :: u16)" "ucast c < (0x80 :: u16)"
    by (auto simp: word_unat_eq_iff word_less_nat_alt simp del: unsigned_ucast_eq)
  moreover have "ucast (ucast c :: u16) = c" by (simp add: word_unat_eq_iff unsigned_ucast_eq take_bit_word_eq_self)
  ultimately show ?case using Cons by simp
qed

lemma lfn_name:
  assumes "lfn_read name chk 0 d" "name \<noteq> []" "length name \<le> 255" "\<forall>c \<in> set name. c \<noteq> 0 \<and> c < 0x80"
  shows "LongName d = name"
proof -
  let ?n = "13 * lfn_count name"
  have n: "?n \<le> 260" "length name \<le> ?n" using assms(3) by (simp_all add: lfn_count_def)
  have "take ?n (Lfn d) = map (lfn_cell name) [0..<?n]"
    using assms(1) n(1) by (intro nth_equalityI) (auto simp: lfn_read_def)
  also have "\<dots> = map (lfn_cell name) [0..<length name] @ map (lfn_cell name) [length name..<?n]"
    using n(2) upt_add_eq_append [of 0 "length name" "?n - length name"] by (simp flip: map_append)
  also have "map (lfn_cell name) [0..<length name] = map ucast name"
    by (rule nth_equalityI) (auto simp: lfn_cell_def)
  finally have cells: "take ?n (Lfn d) = map ucast name @ map (lfn_cell name) [length name..<?n]" .
  have "map (lfn_cell name) [length name..<?n] = [] \<or> hd (map (lfn_cell name) [length name..<?n]) = 0"
    by (cases "length name < ?n") (simp_all add: upt_conv_Cons lfn_cell_def)
  from LongNameLoop_name [OF this, of name 255] assms(3,4)
  have "LongNameLoop (take ?n (Lfn d)) 255 = name" by (simp add: cells)
  then show ?thesis
    using assms(1) n(1) by (simp add: LongName_def lfn_read_def MAX_LFN_ENTRIES_def FAT_NAME_MAX_def min_def mult.commute)
qed

text \<open>The stored form of a long name, written out from the VFAT format and not from the code: the
  checksum of the short name, the places of the thirteen characters in a slot, least significant byte
  first, the order byte, the attribute byte and the slots in descending order.\<close>
definition vfat_sum :: "u8 list \<Rightarrow> u8" where
  "vfat_sum bs = foldl (\<lambda>s b. (if s mod 2 = 1 then 128 else 0) + s div 2 + b) 0 bs"

definition vfat_place :: "nat \<Rightarrow> nat" where
  "vfat_place k = (if k < 5 then 1 + 2 * k else if k < 11 then 4 + 2 * k else 6 + 2 * k)"

definition vfat_pair :: "cstring \<Rightarrow> nat \<Rightarrow> u8 \<times> u8" where
  "vfat_pair name p =
     (if p < length name then (name ! p, 0) else if p = length name then (0, 0) else (0xFF, 0xFF))"

definition vfat_slot :: "cstring \<Rightarrow> u8 \<Rightarrow> nat \<Rightarrow> u8 list \<Rightarrow> bool" where
  "vfat_slot name chk i E \<longleftrightarrow> length E = 32 \<and>
     E ! 0 = (if 13 * i < length name then of_nat i else of_nat (64 + i)) \<and> E ! 11 = 15 \<and> E ! 13 = chk \<and>
     (\<forall>k < 13. (E ! vfat_place k, E ! (vfat_place k + 1)) = vfat_pair name (13 * (i - 1) + k))"

text \<open>\<open>Es\<close> are the slots of the whole name: the piece with the highest number first.\<close>
definition vfat_stored :: "cstring \<Rightarrow> u8 \<Rightarrow> u8 list list \<Rightarrow> bool" where
  "vfat_stored name chk Es \<longleftrightarrow> 13 * (length Es - 1) < length name \<and> length name \<le> 13 * length Es \<and>
     (\<forall>j < length Es. vfat_slot name chk (length Es - j) (Es ! j))"

lemma ShortChecksum_vfat: "length E = 32 \<Longrightarrow> ShortChecksum E = vfat_sum (take 11 E)"
proof -
  assume E: "length E = 32"
  have step: "push_bit 7 (s AND 1) + drop_bit 1 s + b = (if s mod 2 = 1 then 128 else 0) + s div 2 + b"
    for s b :: u8
    unfolding and_one_eq by (cases "s mod 2 = 1") (simp_all add: not_mod_2_eq_1_eq_0 drop_bit_Suc)
  have "take 11 E = map (bget E) [0..<11]"
    using E by (intro nth_equalityI) (simp_all add: bget_def)
  then show ?thesis
    unfolding ShortChecksum_def vfat_sum_def step by (simp add: foldl_conv_fold fold_map comp_def)
qed

lemma LfnOffsets_vfat: "k < 13 \<Longrightarrow> LfnOffsets ! k = vfat_place k"
proof -
  have "list_all (\<lambda>k. LfnOffsets ! k = vfat_place k) [0..<13]" by code_simp
  then show "k < 13 \<Longrightarrow> LfnOffsets ! k = vfat_place k" by (simp add: list_all_iff)
qed

lemma vfat_pair_cell:
  assumes "length E = 32" "k < 13" "(E ! vfat_place k, E ! (vfat_place k + 1)) = vfat_pair name p"
  shows "Le16 E (vfat_place k) = lfn_cell name p"
proof -
  have "vfat_place k + 1 < 32" using assms(2) by (simp add: vfat_place_def)
  then have "bget E (vfat_place k) = E ! vfat_place k" "bget E (vfat_place k + 1) = E ! (vfat_place k + 1)"
    using assms(1) by (simp_all add: bget_def)
  with assms(3) show ?thesis
    by (auto simp: Le16_def vfat_pair_def lfn_cell_def split: if_splits)
qed

lemma vfat_slot_lfn:
  assumes slot: "vfat_slot name chk i E" and i: "1 \<le> i" "i \<le> lfn_count name" "lfn_count name \<le> 20"
  shows "lfn_slot name chk i E"
proof -
  have E: "length E = 32" using slot by (simp add: vfat_slot_def)
  have last: "13 * i < length name \<longleftrightarrow> i \<noteq> lfn_count name"
    using i by (auto simp: lfn_count_def)
  have "\<forall>i \<in> set [1..<21]. of_nat (64 + i) = (of_nat i OR 0x40 :: u8)" by code_simp
  then have "of_nat (64 + i) = (of_nat i OR 0x40 :: u8)" using i by simp
  moreover have "Le16 E (LfnOffsets ! k) = lfn_cell name (13 * (i - 1) + k)" if "k < 13" for k
    unfolding LfnOffsets_vfat [OF that] using slot that E
    by (intro vfat_pair_cell) (simp_all add: vfat_slot_def)
  ultimately show ?thesis using slot E last
    by (auto simp: vfat_slot_def lfn_slot_def bget_def)
qed

lemma vfat_slots_lfn:
  "length Es = i \<Longrightarrow> \<forall>j < i. vfat_slot name chk (i - j) (Es ! j) \<Longrightarrow> i \<le> lfn_count name \<Longrightarrow>
   lfn_count name \<le> 20 \<Longrightarrow> lfn_slots name chk i Es"
proof (induction i arbitrary: Es)
  case (Suc i)
  then obtain E Es' where Es: "Es = E # Es'" "length Es' = i" by (cases Es) auto
  have "vfat_slot name chk (Suc i) E" using Suc.prems(2) by (auto simp: Es(1))
  then have "lfn_slot name chk (Suc i) E" using Suc.prems(3,4) by (intro vfat_slot_lfn) simp_all
  moreover have "vfat_slot name chk (i - j) (Es' ! j)" if "j < i" for j
    using Suc.prems(2) [rule_format, of "Suc j"] that by (simp add: Es(1))
  then have "lfn_slots name chk i Es'" using Suc.IH [OF Es(2)] Suc.prems(3,4) by simp
  ultimately show ?case by (simp add: Es(1))
qed simp

lemma vfat_stored_lfn:
  assumes "vfat_stored name chk Es" "name \<noteq> []" "length name \<le> 255"
  shows "lfn_slots name chk (lfn_count name) Es"
proof -
  have "lfn_count name = length Es"
    using assms unfolding vfat_stored_def lfn_count_def by (cases Es) auto
  with assms vfat_slots_lfn [of Es "lfn_count name" name chk] show ?thesis
    by (simp add: vfat_stored_def lfn_count_def)
qed

text \<open>A short entry that can carry a long name: in use, and not a volume label.\<close>
definition short_slot :: "u8 list \<Rightarrow> bool" where
  "short_slot E \<longleftrightarrow> length E = 32 \<and> E ! 0 \<noteq> 0 \<and> E ! 0 \<noteq> 0xE5 \<and> E ! 11 AND 0x08 = 0"

lemma lfn_slots_decode:
  assumes "name \<noteq> []" "length name \<le> 255" "\<forall>c \<in> set name. c \<noteq> 0 \<and> c < 0x80" "\<not> is_dot_name name"
    and "lfn_slots name (ShortChecksum E) (lfn_count name) Es" "short_slot E" "length (Lfn d) = 260"
  shows "\<exists>d'. scan_slots (Es @ E # rest) d =
    \<lparr>EntryName = name, EntryAttr = bget E 11, EntrySize = Le32 E 28,
     EntryCluster = push_bit 16 (ucast (Le16 E 20)) OR ucast (Le16 E 26)\<rparr> # scan_slots rest d'"
proof -
  have n: "0 < lfn_count name" "lfn_count name \<le> 20"
    using assms(1,2) by (cases name; simp add: lfn_count_def)+
  then obtain i where i: "lfn_count name = Suc i" by (cases "lfn_count name") auto
  with assms(5) obtain E1 Es1 where Es: "Es = E1 # Es1" "lfn_slot name (ShortChecksum E) (Suc i) E1"
      "lfn_slots name (ShortChecksum E) i Es1" by auto
  obtain d1 where d1: "ScanSlot E1 d = Skip d1" "lfn_read name (ShortChecksum E) i d1"
    using lfn_first [OF Es(2) i [symmetric] n(2) assms(7)] by blast
  obtain d2 where d2: "scan_slots (Es1 @ E # rest) d1 = scan_slots (E # rest) d2"
      "lfn_read name (ShortChecksum E) 0 d2"
    using lfn_rest [OF Es(3) _ n(2) d1(2), of "E # rest"] i by (auto simp del: scan_slots.simps)
  have "LongName d2 = name" using lfn_name [OF d2(2) assms(1,2,3)] .
  moreover have "bget E 11 \<noteq> 0x0F" using assms(6) by (auto simp: short_slot_def bget_def)
  ultimately have "ScanSlot E d2 = Emit \<lparr>EntryName = name, EntryAttr = bget E 11, EntrySize = Le32 E 28,
     EntryCluster = push_bit 16 (ucast (Le16 E 20)) OR ucast (Le16 E 26)\<rparr> (d2\<lparr>LfnValid := False\<rparr>)"
    using assms(4,6) d2(2) by (simp add: ScanSlot_def short_slot_def bget_def lfn_read_def Let_def)
  with d1(1) d2(1) show ?thesis by (auto simp: Es(1))
qed

text \<open>C8: A file stored with a long name of up to 255 ASCII characters, other than \<open>.\<close> and \<open>..\<close>, is
  listed under exactly that name: whatever the scan state was, the slots that VFAT prescribes for the
  name (checksum, character places, order bytes and their sequence written out independently of the
  code), followed by their short entry, decode to one entry with the name, and the attributes, size
  and first cluster of the short entry.\<close>
theorem long_name_roundtrip:
  assumes "name \<noteq> []" "length name \<le> 255" "\<forall>c \<in> set name. c \<noteq> 0 \<and> c < 0x80"
    and "name \<noteq> [46]" "name \<noteq> [46, 46]"
    and "short_slot E" "vfat_stored name (vfat_sum (take 11 E)) Es" "length (Lfn d) = 260"
  shows "\<exists>d'. scan_slots (Es @ E # rest) d =
    \<lparr>EntryName = name, EntryAttr = E ! 11, EntrySize = Le32 E 28,
     EntryCluster = push_bit 16 (ucast (Le16 E 20)) OR ucast (Le16 E 26)\<rparr> # scan_slots rest d'"
proof -
  have E: "length E = 32" "bget E 11 = E ! 11" using assms(6) by (simp_all add: short_slot_def bget_def)
  have "\<not> is_dot_name name" using assms(4,5) by (auto simp: is_dot_name_def)
  moreover have "lfn_slots name (ShortChecksum E) (lfn_count name) Es"
    unfolding ShortChecksum_vfat [OF E(1)] by (rule vfat_stored_lfn [OF assms(7,1,2)])
  ultimately show ?thesis using lfn_slots_decode [OF assms(1-3) _ _ assms(6,8)] by (simp add: E(2))
qed

text \<open>The three slots of a file called \<open>longer name.txt\<close>, with \<open>LONGER~1.TXT\<close> as its short name.\<close>
definition long_name_demo :: cstring where
  "long_name_demo = [0x6C, 0x6F, 0x6E, 0x67, 0x65, 0x72, 0x20, 0x6E, 0x61, 0x6D, 0x65, 0x2E, 0x74, 0x78,
     0x74]"

definition demo_short :: "u8 list" where
  "demo_short = [0x4C, 0x4F, 0x4E, 0x47, 0x45, 0x52, 0x7E, 0x31, 0x54, 0x58, 0x54, 0x20, 0, 0,
     0, 0, 0, 0, 0, 0, 0, 0, 0, 0, 0, 0, 5, 0,
     9, 0, 0, 0]"

definition demo_slots :: "u8 list list" where
  "demo_slots =
    [[0x42, 0x78, 0, 0x74, 0, 0, 0, 0xFF, 0xFF, 0xFF, 0xFF, 0x0F, 0, 0x91,
     0xFF, 0xFF, 0xFF, 0xFF, 0xFF, 0xFF, 0xFF, 0xFF, 0xFF, 0xFF, 0xFF, 0xFF, 0, 0,
     0xFF, 0xFF, 0xFF, 0xFF],
     [1, 0x6C, 0, 0x6F, 0, 0x6E, 0, 0x67, 0, 0x65, 0, 0x0F, 0, 0x91,
     0x72, 0, 0x20, 0, 0x6E, 0, 0x61, 0, 0x6D, 0, 0x65, 0, 0, 0,
     0x2E, 0, 0x74, 0]]"

lemma demo_slots_stored: "vfat_stored long_name_demo (vfat_sum (take 11 demo_short)) demo_slots"
proof -
  have "list_all (\<lambda>(i, E). length E = 32 \<and>
     E ! 0 = (if 13 * i < length long_name_demo then of_nat i else of_nat (64 + i)) \<and> E ! 11 = 15
     \<and> E ! 13 = vfat_sum (take 11 demo_short) \<and>
     list_all (\<lambda>k. (E ! vfat_place k, E ! (vfat_place k + 1)) = vfat_pair long_name_demo (13 * (i - 1) + k)) [0..<13])
     [(2, demo_slots ! 0), (1, demo_slots ! 1)]"
    by code_simp
  then have slots: "vfat_slot long_name_demo (vfat_sum (take 11 demo_short)) 2 (demo_slots ! 0)"
      "vfat_slot long_name_demo (vfat_sum (take 11 demo_short)) 1 (demo_slots ! 1)"
    by (simp_all add: vfat_slot_def list_all_iff del: upt_rec_numeral)
  have "length demo_slots = 2" "length long_name_demo = 15"
    by (simp_all add: demo_slots_def long_name_demo_def)
  with slots show ?thesis by (auto simp: vfat_stored_def less_2_cases_iff)
qed

lemma long_name_roundtrip_witness:
  "EntryName (hd (scan_slots (demo_slots @ demo_short # []) scan_init)) = long_name_demo"
proof -
  have "short_slot demo_short" by (simp add: short_slot_def demo_short_def)
  moreover have "long_name_demo \<noteq> []" "length long_name_demo \<le> 255" "long_name_demo \<noteq> [46]"
    "long_name_demo \<noteq> [46, 46]" "\<forall>c \<in> set long_name_demo. c \<noteq> 0 \<and> c < 0x80"
    by (simp_all add: long_name_demo_def)
  moreover have "length (Lfn scan_init) = 260" by (simp add: scan_init_def MAX_LFN_ENTRIES_def)
  ultimately obtain d' where "scan_slots (demo_slots @ demo_short # []) scan_init =
     \<lparr>EntryName = long_name_demo, EntryAttr = demo_short ! 11, EntrySize = Le32 demo_short 28,
     EntryCluster = push_bit 16 (ucast (Le16 demo_short 20)) OR ucast (Le16 demo_short 26)\<rparr>
       # scan_slots [] d'"
    using long_name_roundtrip [OF _ _ _ _ _ _ demo_slots_stored, of scan_init "[]"] by blast
  then show ?thesis by simp
qed

end
