(* ===== verification/FatOnBlock.thy ===== *)
theory FatOnBlock
  imports FatDir
begin

text \<open>
  The FAT32 driver linked to the block device table: the facts proved in the locale \<open>disk\<close>, read
  over \<open>BlockReadFrom\<close>. The hypotheses on the device are the contract of its driver; those on the
  volume are established by \<open>FatMount\<close> and kept by every operation.
\<close>

text \<open>A usable volume: its geometry, and a cache and a cursor that agree with the medium.\<close>
definition volume_ok :: "blocks \<Rightarrow> medium \<Rightarrow> fat_volume \<Rightarrow> bool" where
  "volume_ok b m V \<longleftrightarrow> device_honest b (VolDevice V) m \<and> vol_ok V \<and> cache_ok m V \<and> cursor_ok m V"

definition device_up :: "blocks \<Rightarrow> int \<Rightarrow> nat \<Rightarrow> bool" where
  "device_up b i sz \<longleftrightarrow> device_healthy b i sz \<and> sz \<le> 2 ^ 64"

lemma FatReadAt_outcome:
  assumes "volume_ok b m V" "FatReadAt (BlockReadFrom b) V File off len = (don, out, V')"
  shows "volume_ok b m V' \<and> length out = unat don \<and> unat don \<le> wanted File off len \<and>
    (\<forall>i < unat don. file_byte m V (EntryCluster File) (unat off + i) = Some (out ! i)) \<and>
    (is_file File \<and> device_up b (VolDevice V) sz \<and>
     file_within m V (EntryCluster File) (unat off + wanted File off len) sz \<longrightarrow>
       unat don = wanted File off len)"
proof -
  have V: "device_honest b (VolDevice V) m" "vol_ok V" "cache_ok m V" "cursor_ok m V"
    using assms(1) by (simp_all add: volume_ok_def)
  note spec = block.FatReadAt_spec [OF V assms(2), of sz]
  then have core: "core V' = core V" by blast
  from spec V show ?thesis
    by (simp add: volume_ok_def device_up_def core_cong [OF core])
qed

text \<open>C5: \<open>FatReadAt\<close> over the block layer: whatever the FAT cache and the cursor of the last read
  hold, the bytes it returns are the bytes of the file at the offset asked for, read along the cluster
  chain; on a device that is up it returns all the bytes up to the end of the file; and it leaves cache
  and cursor consistent.\<close>
theorem FatReadAt_correct:
  assumes "volume_ok b m V" "FatReadAt (BlockReadFrom b) V File off len = (don, out, V')"
  shows "volume_ok b m V' \<and> length out = unat don \<and> unat don \<le> wanted File off len \<and>
    (\<forall>i < unat don. file_byte m V (EntryCluster File) (unat off + i) = Some (out ! i)) \<and>
    (is_file File \<and> device_up b (VolDevice V) sz \<and>
     file_within m V (EntryCluster File) (unat off + wanted File off len) sz \<longrightarrow>
       unat don = wanted File off len)"
  by (rule FatReadAt_outcome [OF assms])

text \<open>The cursor and the FAT cache are invisible: two states of the same mounted volume give the
  same answer to every read on a device that is up, so reading a file in any order of offsets gives the
  same bytes as reading it from a fresh mount.\<close>
theorem FatReadAt_state_invisible:
  assumes "volume_ok b m V" "volume_ok b m W" "core W = core V" "device_up b (VolDevice V) sz"
    and "is_file File" "file_within m V (EntryCluster File) (unat off + wanted File off len) sz"
  shows "fst (FatReadAt (BlockReadFrom b) V File off len) = fst (FatReadAt (BlockReadFrom b) W File off len) \<and>
    fst (snd (FatReadAt (BlockReadFrom b) V File off len)) = fst (snd (FatReadAt (BlockReadFrom b) W File off len))"
proof -
  obtain d1 o1 V1 where r1: "FatReadAt (BlockReadFrom b) V File off len = (d1, o1, V1)" by (metis prod_cases3)
  obtain d2 o2 V2 where r2: "FatReadAt (BlockReadFrom b) W File off len = (d2, o2, V2)" by (metis prod_cases3)
  have V: "device_honest b (VolDevice V) m" "vol_ok V" "cache_ok m V" "cursor_ok m V"
    and W: "device_honest b (VolDevice W) m" "vol_ok W" "cache_ok m W" "cursor_ok m W"
    and up: "device_healthy b (VolDevice V) sz" "sz \<le> 2 ^ 64"
    using assms(1,2,4) by (simp_all add: volume_ok_def device_up_def)
  from block.FatReadAt_spec [OF V r1, of sz] assms(5,6) up
  have 1: "unat d1 = wanted File off len" "length o1 = unat d1"
    "\<forall>i < unat d1. file_byte m V (EntryCluster File) (unat off + i) = Some (o1 ! i)" by simp_all
  from block.FatReadAt_spec [OF W r2, of sz] assms(5,6) up
  have 2: "unat d2 = wanted File off len" "length o2 = unat d2"
    "\<forall>i < unat d2. file_byte m V (EntryCluster File) (unat off + i) = Some (o2 ! i)"
    by (simp_all add: file_byte_core [OF assms(3)] file_within_core [OF assms(3)] core_cong [OF assms(3)])
  have "o1 = o2"
  proof (rule nth_equalityI)
    show "length o1 = length o2" using 1 2 by simp
    show "o1 ! i = o2 ! i" if "i < length o1" for i
      using that 1 2 by (metis option.inject)
  qed
  moreover have "d1 = d2" using 1(1) 2(1) by (simp add: word_unat_eq_iff)
  ultimately show ?thesis by (simp add: r1 r2)
qed

text \<open>C6: \<open>FatLookup\<close> over the block layer: on a device that is up, the loops over clusters,
  sectors and slots find the first entry of the directory whose name is the wanted one, upper and lower
  case being the same, and report that there is none exactly when there is none.\<close>
theorem FatLookup_correct:
  assumes "volume_ok b m V" "device_up b (VolDevice V) sz" "dir_within m V c MAX_CHAIN sz"
    and "FatLookup (BlockReadFrom b) V c Want = (Found, V')"
  shows "volume_ok b m V' \<and>
    Found = find (\<lambda>e. map lower (EntryName e) = map lower Want) (dir_entries m V c)"
proof -
  have V: "device_honest b (VolDevice V) m" "vol_ok V" "cache_ok m V" "cursor_ok m V"
    and up: "device_healthy b (VolDevice V) sz" "sz \<le> 2 ^ 64"
    using assms(1,2) by (simp_all add: volume_ok_def device_up_def)
  note spec = block.FatLookup_spec [OF V(1-3) up assms(3,4)]
  then have core: "core V' = core V" by blast
  from spec V show ?thesis by (simp add: volume_ok_def core_cong [OF core])
qed

lemma FatMount_outcome:
  assumes "pmm_ok s" "device_honest b dev m" "unat Start < 2 ^ 63"
    and "FatMount (BlockReadFrom b) dev Start V s = (r, V', s')"
  shows "pmm_ok s' \<and> (if r
     then volume_ok b m V' \<and> VolDevice V' = dev \<and> FatBootSectorValid (media_bytes m (unat Start * 512) 512) \<and>
       (\<exists>p q. p \<noteq> q \<and> {p, q} \<subseteq> free_set s \<and> free_set s' = free_set s - {p, q} \<and>
          SectorBuffer V' = p * PAGE_SIZE \<and> FatBuffer V' = q * PAGE_SIZE)
     else V' = V \<and> free_set s' = free_set s)"
proof (cases r)
  case True
  with FatMount_cases [OF assms(1,4)] obtain p q S where
    *: "pmm_ok s'" "p \<in> free_set s" "q \<in> free_set s" "p \<noteq> q" "BlockReadFrom b dev Start 1 = Some S"
      "FatBootSectorValid S" "V' = MountedVolume (p * PAGE_SIZE) (q * PAGE_SIZE) dev Start S V"
      "free_set s' = free_set s - {p, q}" by auto
  have "S = media_bytes m (unat Start * 512) 512" by (rule block.rd_sector [OF assms(2) *(5)])
  moreover have "VolDevice V' = dev" "SectorBuffer V' = p * PAGE_SIZE" "FatBuffer V' = q * PAGE_SIZE"
    by (simp_all add: *(7) MountedVolume_def Let_def)
  moreover have "volume_ok b m V'"
    using MountedVolume_ok [OF *(6) assms(3)] assms(2) \<open>VolDevice V' = dev\<close> by (simp add: volume_ok_def *(7))
  ultimately show ?thesis using True * by auto
next
  case False
  with FatMount_cases [OF assms(1,4)] show ?thesis by simp
qed

text \<open>C7: Mounting is all or nothing: it succeeds only on a valid boot sector and then leaves a usable
  volume and takes exactly two free pages; on any failure (no page, read error, bad sector) the volume
  and the set of free pages are as before.\<close>
theorem FatMount_correct:
  assumes "pmm_ok s" "device_honest b dev m" "unat Start < 2 ^ 63"
    and "FatMount (BlockReadFrom b) dev Start V s = (r, V', s')"
  shows "pmm_ok s' \<and> (if r
     then volume_ok b m V' \<and> VolDevice V' = dev \<and> FatBootSectorValid (media_bytes m (unat Start * 512) 512) \<and>
       (\<exists>p q. p \<noteq> q \<and> {p, q} \<subseteq> free_set s \<and> free_set s' = free_set s - {p, q} \<and>
          SectorBuffer V' = p * PAGE_SIZE \<and> FatBuffer V' = q * PAGE_SIZE)
     else V' = V \<and> free_set s' = free_set s)"
  by (rule FatMount_outcome [OF assms])

section \<open>A small volume\<close>

text \<open>One sector per cluster; the table at sector 1 chains cluster 2 to cluster 3 and ends there; the
  data starts at sector 2. The file at cluster 2 begins like a WAV file: a format chunk for 16-bit
  stereo and a data chunk that claims 100 bytes. Cluster 4 is a directory with one empty file.\<close>
definition tiny_wav :: "u8 list" where
  "tiny_wav = [0x52, 0x49, 0x46, 0x46, 0x2E, 0, 0, 0, 0x57, 0x41, 0x56, 0x45, 0x66, 0x6D, 0x74, 0x20,
     0x10, 0, 0, 0, 1, 0, 2, 0, 0x40, 0x1F, 0, 0, 0, 0x7D, 0, 0,
     4, 0, 0x10, 0, 0x64, 0x61, 0x74, 0x61, 0x64, 0, 0, 0, 1, 2, 3, 4,
     5, 6, 7, 8, 9, 0x0A]"

definition tiny_medium :: medium where
  "tiny_medium a = (if 512 \<le> a \<and> a < 1024
     then [0, 0, 0, 0, 0, 0, 0, 0, 3, 0, 0, 0, 0xFF, 0xFF, 0xFF, 0x0F, 0xFF, 0xFF, 0xFF, 0x0F] ! ((a - 512) mod 20)
     else if 1024 \<le> a \<and> a < 1078 then tiny_wav ! (a - 1024)
     else if a < 2048 then of_nat (a mod 251)
     else if a = 2048 then 0x46 else if a < 2060 then 0x20 else 0)"

definition tiny_device :: block_device where
  "tiny_device = \<lparr>Legacy = None, Read = Some (\<lambda>c l n. Some (media_bytes tiny_medium (unat l * 512) (unat n * 512))),
     Context = 0, SectorSize = 512, MaxCount = 8, SectorCount = 0, Online = True, Name = lit ''ram0''\<rparr>"

definition tiny_volume :: fat_volume where
  "tiny_volume = \<lparr>VolDevice = 0, StartLba = 0, SectorsPerCluster = 1, FatStart = 1, FirstData = 2,
     RootCluster = 4, SectorBuffer = 0x200000, FatBuffer = 0x201000, FatBufferData = [], FatBufferLba = 0,
     FatBufferValid = False, CursorFirst = 0, CursorIndex = 0, CursorCluster = 0\<rparr>"

definition tiny_file :: fat_entry where
  "tiny_file = \<lparr>EntryName = lit ''a.txt'', EntryAttr = 0x20, EntrySize = 600, EntryCluster = 2\<rparr>"

lemma tiny_device_simps:
  "SectorSize tiny_device = 512" "MaxCount tiny_device = 8" "SectorCount tiny_device = 0" "Online tiny_device"
  "DeviceRead tiny_device l n = Some (media_bytes tiny_medium (unat l * 512) (unat n * 512))"
  by (simp_all add: tiny_device_def DeviceRead_def)

lemma tiny_device_ok:
  "device_honest [tiny_device] 0 tiny_medium" "device_up [tiny_device] 0 (2 ^ 64)"
proof -
  have idx: "\<not> bad_index [tiny_device] 0" and dev: "[tiny_device] ! nat 0 = tiny_device"
    by (simp_all add: bad_index_def)
  have ok: "device_ok tiny_device" by (simp add: device_ok_def ValidSectorSize_def tiny_device_simps)
  have drv: "drv_ok tiny_device tiny_medium" by (simp add: drv_ok_def tiny_device_simps)
  have up: "drv_healthy tiny_device" by (simp add: drv_healthy_def tiny_device_simps)
  show "device_honest [tiny_device] 0 tiny_medium" unfolding device_honest_def dev using ok drv by blast
  have size: "device_size tiny_device = 2 ^ 64" by (simp add: device_size_def tiny_device_simps)
  show "device_up [tiny_device] 0 (2 ^ 64)"
    unfolding device_up_def device_healthy_def dev using idx ok up by (simp add: size tiny_device_simps)
qed

lemma tiny_volume_simps:
  "VolDevice tiny_volume = 0" "StartLba tiny_volume = 0" "SectorsPerCluster tiny_volume = 1"
  "FatStart tiny_volume = 1" "FirstData tiny_volume = 2" "FatBufferValid tiny_volume = False"
  "CursorCluster tiny_volume = 0"
  by (simp_all add: tiny_volume_def)

lemma tiny_volume_ok: "volume_ok [tiny_device] tiny_medium tiny_volume"
  using tiny_device_ok(1)
  by (simp add: volume_ok_def vol_ok_def cache_ok_def cursor_ok_def tiny_volume_simps ClusterValid_def)

lemma tiny_fat:
  "fat_next tiny_medium tiny_volume 2 = 3" "\<not> ClusterValid (fat_next tiny_medium tiny_volume 4)"
proof -
  have "Le32 (media_bytes tiny_medium 520 4) 0 AND 0x0FFFFFFF = 3" by code_simp
  then show "fat_next tiny_medium tiny_volume 2 = 3"
    by (simp add: fat_next_def fat_sector_def tiny_volume_simps)
  have "\<not> ClusterValid (Le32 (media_bytes tiny_medium 528 4) 0 AND 0x0FFFFFFF)" by code_simp
  then show "\<not> ClusterValid (fat_next tiny_medium tiny_volume 4)"
    by (simp add: fat_next_def fat_sector_def tiny_volume_simps)
qed

lemma tiny_chain: "chain tiny_medium tiny_volume 2 0 = Some 2" "chain tiny_medium tiny_volume 2 (Suc 0) = Some 3"
  by (simp_all add: chain.simps(2) tiny_fat ClusterValid_def FAT_EOC_MIN_def)

lemma tiny_within: "file_within tiny_medium tiny_volume 2 600 (2 ^ 64)"
proof -
  have "\<exists>d. chain tiny_medium tiny_volume 2 k = Some d \<and> fat_sector tiny_volume d < 2 ^ 64 \<and>
      cluster_sector tiny_volume d + unat (SectorsPerCluster tiny_volume) \<le> 2 ^ 64" if "k * 512 < 600" for k
  proof -
    from that have "k = 0 \<or> k = Suc 0" by arith
    with tiny_chain show ?thesis
      by (auto simp: fat_sector_def cluster_sector_def tiny_volume_simps)
  qed
  then show ?thesis by (simp add: file_within_def cluster_bytes_def tiny_volume_simps)
qed

lemma tiny_wanted: "wanted tiny_file 500 200 = 100" "wanted tiny_file 500 100 = 100" "is_file tiny_file"
  by (simp_all add: wanted_def is_file_def tiny_file_def FAT_ATTR_DIRECTORY_def ClusterValid_def FAT_EOC_MIN_def)

text \<open>A read across the cluster boundary, cut at the end of the file.\<close>
lemma FatReadAt_correct_witness:
  "\<exists>out V'. FatReadAt (BlockReadFrom [tiny_device]) tiny_volume tiny_file 500 200 = (100, out, V') \<and>
     (\<forall>i < 100. file_byte tiny_medium tiny_volume 2 (500 + i) = Some (out ! i))"
proof -
  obtain don out V' where r: "FatReadAt (BlockReadFrom [tiny_device]) tiny_volume tiny_file 500 200 = (don, out, V')"
    by (metis prod_cases3)
  have c: "EntryCluster tiny_file = 2" by (simp add: tiny_file_def)
  from FatReadAt_correct [OF tiny_volume_ok r, of "2 ^ 64"] tiny_wanted tiny_within tiny_device_ok(2)
  have "unat don = 100" "\<forall>i < unat don. file_byte tiny_medium tiny_volume 2 (500 + i) = Some (out ! i)"
    by (simp_all add: tiny_volume_simps c)
  moreover from this(1) have "don = 100" by (simp add: word_unat_eq_iff)
  ultimately show ?thesis using r by auto
qed

lemma FatReadAt_state_invisible_witness:
  "fst (FatReadAt (BlockReadFrom [tiny_device]) tiny_volume tiny_file 500 200) =
   fst (FatReadAt (BlockReadFrom [tiny_device]) (tiny_volume\<lparr>FatBufferLba := 7\<rparr>) tiny_file 500 200)"
proof -
  have W: "volume_ok [tiny_device] tiny_medium (tiny_volume\<lparr>FatBufferLba := 7\<rparr>)"
    using tiny_device_ok(1)
    by (simp add: volume_ok_def vol_ok_def cache_ok_def cursor_ok_def tiny_volume_simps ClusterValid_def)
  have c: "EntryCluster tiny_file = 2" by (simp add: tiny_file_def)
  show ?thesis
    using FatReadAt_state_invisible [OF tiny_volume_ok W, of "2 ^ 64" tiny_file 500 200]
      tiny_wanted tiny_within tiny_device_ok(2) by (simp add: core_def tiny_volume_simps c)
qed

lemma tiny_dir_within: "dir_within tiny_medium tiny_volume 4 n (2 ^ 64)"
proof (cases n)
  case (Suc k)
  have "dir_within tiny_medium tiny_volume (fat_next tiny_medium tiny_volume 4) k (2 ^ 64)"
    using tiny_fat(2) by (cases k) simp_all
  then show ?thesis
    by (simp add: Suc cluster_sector_def fat_sector_def tiny_volume_simps)
qed simp

lemma FatLookup_correct_witness:
  "fst (FatLookup (BlockReadFrom [tiny_device]) tiny_volume 4 (lit ''x'')) =
     find (\<lambda>e. map lower (EntryName e) = map lower (lit ''x'')) (dir_entries tiny_medium tiny_volume 4)"
proof -
  obtain F V' where r: "FatLookup (BlockReadFrom [tiny_device]) tiny_volume 4 (lit ''x'') = (F, V')"
    by (metis prod.exhaust)
  from FatLookup_correct [OF tiny_volume_ok _ tiny_dir_within r] tiny_device_ok(2) show ?thesis
    by (simp add: r tiny_volume_simps)
qed

text \<open>Mounting the tiny medium fails (its first sector is no boot sector) and gives the page back.\<close>
lemma FatMount_correct_witness:
  "pmm_ok (snd (snd (FatMount (BlockReadFrom [tiny_device]) 0 0 tiny_volume one_page)))"
proof -
  obtain r V' s' where m: "FatMount (BlockReadFrom [tiny_device]) 0 0 tiny_volume one_page = (r, V', s')"
    by (metis prod_cases3)
  from FatMount_correct [OF one_page_ok tiny_device_ok(1) _ m] show ?thesis by (simp add: m)
qed

end
