(* ===== verification/Part.thy ===== *)
theory Part
  imports FatOnBlock Klog
begin

text \<open>
  Partition discovery (\<open>kernel/part.c\<close>): GPT, MBR with extended chains, and whole-disk volumes. The
  table of partitions lives in pages taken from the physical memory manager, \<open>PARTS_PER_PAGE\<close> entries
  a page; entry \<open>i\<close> of the list \<open>Parts\<close> is slot \<open>i mod PARTS_PER_PAGE\<close> of page
  \<open>i div PARTS_PER_PAGE\<close>. The record \<open>storage\<close> collects the state of the storage stack: the page
  allocator, the log, the device table and the partition table. The sector and table buffers are filled
  by a successful read before each use and are not part of the state.
\<close>

section \<open>Data\<close>

definition PART_SCHEME_RAW :: int where "PART_SCHEME_RAW = 0"
definition PART_SCHEME_MBR :: int where "PART_SCHEME_MBR = 1"
definition PART_SCHEME_GPT :: int where "PART_SCHEME_GPT = 2"

definition FS_UNKNOWN :: int where "FS_UNKNOWN = 0"
definition FS_FAT32 :: int where "FS_FAT32 = 1"
definition FS_FAT16 :: int where "FS_FAT16 = 2"
definition FS_NTFS :: int where "FS_NTFS = 3"
definition FS_EXFAT :: int where "FS_EXFAT = 4"
definition FS_BITLOCKER :: int where "FS_BITLOCKER = 5"
definition FS_EXT :: int where "FS_EXT = 6"

record part_info =
  PartDevice :: int
  PartNumber :: int
  PartStart :: u64
  PartSectors :: u64
  PartScheme :: int
  PartMbrType :: u8
  PartTypeGuid :: "u8 list"
  PartName :: cstring
  PartFs :: int

text \<open>\<open>sizeof(PART_INFO)\<close> is 80, so a page of 4096 bytes holds 51 entries.\<close>
definition PARTS_PER_PAGE :: nat where "PARTS_PER_PAGE = 51"
definition MAX_PART_PAGES :: nat where "MAX_PART_PAGES = 64"
definition MAX_SCANNED :: int where "MAX_SCANNED = 256"
definition MAX_EBR_CHAIN :: nat where "MAX_EBR_CHAIN = 4096"
definition MAX_GPT_ENTRIES :: u32 where "MAX_GPT_ENTRIES = 16384"

record storage =
  Phys :: pmm
  Log :: klog
  Blocks :: blocks
  Parts :: "part_info list"
  PartPages :: "nat \<Rightarrow> u64"
  SectorPage :: u64
  Scanned :: "int \<Rightarrow> bool"

text \<open>A log call of the storage stack.\<close>
definition st_log :: "cstring list \<Rightarrow> 'a storage_scheme \<Rightarrow> 'a storage_scheme" where
  "st_log ss st = st\<lparr>Log := KLogs ss (Log st)\<rparr>"

definition ReadNative :: "reader \<Rightarrow> int \<Rightarrow> u64 \<Rightarrow> u32 \<Rightarrow> u8 list option" where
  "ReadNative rd Device NativeLba Ratio = rd Device (NativeLba * ucast Ratio) Ratio"

definition MemEq :: "u8 list \<Rightarrow> u8 list \<Rightarrow> bool" where
  "MemEq A B \<longleftrightarrow> list_all2 (=) A B"

definition TextEq :: "u8 list \<Rightarrow> nat \<Rightarrow> string \<Rightarrow> bool" where
  "TextEq P off s \<longleftrightarrow> list_all (\<lambda>i. bget P (off + i) = lit s ! i) [0..<length s]"

section \<open>Recognising a file system\<close>

definition ProbeFs :: "reader \<Rightarrow> int \<Rightarrow> u64 \<Rightarrow> int" where
  "ProbeFs rd Device Start =
     (case rd Device Start 1 of None \<Rightarrow> FS_UNKNOWN
      | Some S \<Rightarrow>
          if TextEq S 3 ''NTFS    '' then FS_NTFS
          else if TextEq S 3 ''EXFAT   '' then FS_EXFAT
          else if TextEq S 3 ''-FVE-FS-'' then FS_BITLOCKER
          else if FatBootSectorValid S then FS_FAT32
          else if bget S 510 = 0x55 \<and> bget S 511 = 0xAA \<and>
               (TextEq S 54 ''FAT16   '' \<or> TextEq S 54 ''FAT12   '' \<or> TextEq S 54 ''FAT     '') then FS_FAT16
          else case rd Device (Start + 2) 1 of None \<Rightarrow> FS_UNKNOWN
               | Some S2 \<Rightarrow> if bget S2 56 = 0x53 \<and> bget S2 57 = 0xEF then FS_EXT else FS_UNKNOWN)"

text \<open>\<open>do { Digits[N++] = '0' + Value % 10; Value /= 10; } while (Value > 0 && N < 7)\<close> and the
  loop that writes the digits out in reverse.\<close>
fun NumberDigits :: "nat \<Rightarrow> int \<Rightarrow> cstring \<Rightarrow> cstring" where
  "NumberDigits 0 Value acc = acc"
| "NumberDigits (Suc room) Value acc =
     (let acc = (chr_code CHR ''0'' + of_int (Value mod 10)) # acc; Value = Value div 10
      in if Value > 0 then NumberDigits room Value acc else acc)"

definition MakeName :: "blocks \<Rightarrow> int \<Rightarrow> int \<Rightarrow> cstring" where
  "MakeName b Device Number =
     copy_loop (BlockDeviceName b Device) 16 @ [chr_code CHR ''p''] @ NumberDigits 7 Number []"

section \<open>The table\<close>

text \<open>The page for the next entry: it is there already, it is allocated now, or there is none.\<close>
definition PartSlot :: "'a storage_scheme \<Rightarrow> bool \<times> 'a storage_scheme" where
  "PartSlot st =
     (let Page = length (Parts st) div PARTS_PER_PAGE
      in if Page \<ge> MAX_PART_PAGES then (False, st)
      else if PartPages st Page \<noteq> 0 then (True, st)
      else let (a, s) = AllocPage (Phys st);
               st = st\<lparr>Phys := s, PartPages := (PartPages st)(Page := a)\<rparr>
           in (a \<noteq> 0, st))"

text \<open>The index of the new entry, or \<open>None\<close> for the null pointer.\<close>
definition AddPart :: "int \<Rightarrow> int \<Rightarrow> u64 \<Rightarrow> u64 \<Rightarrow> int \<Rightarrow> 'a storage_scheme \<Rightarrow> nat option \<times> 'a storage_scheme" where
  "AddPart Device Number Start Count Scheme st =
     (case PartSlot st of (ok, st) \<Rightarrow>
        if \<not> ok then (None, st)
        else let P = \<lparr>PartDevice = Device, PartNumber = Number, PartStart = Start, PartSectors = Count,
                      PartScheme = Scheme, PartMbrType = 0, PartTypeGuid = replicate 16 0,
                      PartName = MakeName (Blocks st) Device Number,
                      PartFs = ProbeFs (BlockReadFrom (Blocks st)) Device Start\<rparr>
             in (Some (length (Parts st)), st\<lparr>Parts := Parts st @ [P]\<rparr>))"

definition GuidEfi :: "u8 list" where
  "GuidEfi = [0x28, 0x73, 0x2A, 0xC1, 0x1F, 0xF8, 0xD2, 0x11, 0xBA, 0x4B, 0x00, 0xA0, 0xC9, 0x3E, 0xC9, 0x3B]"
definition GuidMsData :: "u8 list" where
  "GuidMsData = [0xA2, 0xA0, 0xD0, 0xEB, 0xE5, 0xB9, 0x33, 0x44, 0x87, 0xC0, 0x68, 0xB6, 0xB7, 0x26, 0x99, 0xC7]"
definition GuidMsReserved :: "u8 list" where
  "GuidMsReserved = [0x16, 0xE3, 0xC9, 0xE3, 0x5C, 0x0B, 0xB8, 0x4D, 0x81, 0x7D, 0xF9, 0x2D, 0xF0, 0x02, 0x15, 0xAE]"
definition GuidWinRe :: "u8 list" where
  "GuidWinRe = [0xA4, 0xBB, 0x94, 0xDE, 0xD1, 0x06, 0x40, 0x4D, 0xA1, 0x6A, 0xBF, 0xD5, 0x01, 0x79, 0xD6, 0xAC]"
definition GuidLinuxFs :: "u8 list" where
  "GuidLinuxFs = [0xAF, 0x3D, 0xC6, 0x0F, 0x83, 0x84, 0x72, 0x47, 0x8E, 0x79, 0x3D, 0x69, 0xD8, 0x47, 0x7D, 0xE4]"
definition GuidLinuxSwap :: "u8 list" where
  "GuidLinuxSwap = [0x6D, 0xFD, 0x57, 0x06, 0xAB, 0xA4, 0xC4, 0x43, 0x84, 0xE5, 0x09, 0x33, 0xC8, 0x4B, 0x4F, 0x4F]"

definition PartTypeName :: "part_info \<Rightarrow> string" where
  "PartTypeName P =
     (if PartScheme P = PART_SCHEME_RAW then ''Whole disk''
      else if PartScheme P = PART_SCHEME_MBR then
        (if PartMbrType P = 0x01 then ''FAT12''
         else if PartMbrType P \<in> {0x04, 0x06, 0x0E} then ''FAT16''
         else if PartMbrType P \<in> {0x0B, 0x0C} then ''FAT32''
         else if PartMbrType P = 0x07 then ''NTFS/exFAT''
         else if PartMbrType P = 0x82 then ''Linux swap''
         else if PartMbrType P = 0x83 then ''Linux''
         else if PartMbrType P = 0xEF then ''EFI System''
         else ''MBR partition'')
      else if MemEq (PartTypeGuid P) GuidEfi then ''EFI System''
      else if MemEq (PartTypeGuid P) GuidMsData then ''Microsoft basic data''
      else if MemEq (PartTypeGuid P) GuidMsReserved then ''Microsoft reserved''
      else if MemEq (PartTypeGuid P) GuidWinRe then ''Windows recovery''
      else if MemEq (PartTypeGuid P) GuidLinuxFs then ''Linux filesystem''
      else if MemEq (PartTypeGuid P) GuidLinuxSwap then ''Linux swap''
      else ''Unknown type'')"

definition PartFsName :: "int \<Rightarrow> string" where
  "PartFsName Fs =
     (if Fs = FS_FAT32 then ''FAT32'' else if Fs = FS_FAT16 then ''FAT12/16''
      else if Fs = FS_NTFS then ''NTFS'' else if Fs = FS_EXFAT then ''exFAT''
      else if Fs = FS_BITLOCKER then ''BitLocker'' else if Fs = FS_EXT then ''ext'' else ''unknown'')"

definition LogPart :: "nat \<Rightarrow> 'a storage_scheme \<Rightarrow> 'a storage_scheme" where
  "LogPart i st =
     (let P = Parts st ! i
      in st_log [lit ''PART: '', PartName P, lit '' start '', dec_text (PartStart P), lit '' sectors '',
           dec_text (PartSectors P), lit '' type '', lit (PartTypeName P), lit '' fs '',
           lit (PartFsName (PartFs P)), [10]] st)"

section \<open>GPT\<close>

definition EntryEmpty :: "u8 list \<Rightarrow> bool" where
  "EntryEmpty Entry \<longleftrightarrow> list_all (\<lambda>i. bget Entry i = 0) [0..<16]"

text \<open>The entry loop over one sector of the table. The flag tells that the function returns
  (\<open>return Found\<close>, the partition table is full).\<close>
fun GptEntries :: "int \<Rightarrow> u32 \<Rightarrow> u32 \<Rightarrow> u32 \<Rightarrow> u32 \<Rightarrow> u32 \<Rightarrow> u8 list \<Rightarrow> nat list \<Rightarrow> int \<Rightarrow> 'a storage_scheme
    \<Rightarrow> bool \<times> int \<times> 'a storage_scheme" where
  "GptEntries Device Ratio EntryCount EntSize PerSector s Tab [] Found st = (False, Found, st)"
| "GptEntries Device Ratio EntryCount EntSize PerSector s Tab (e # es) Found st =
     (let Index = s * PerSector + of_nat e;
          Entry = bsub Tab (e * unat EntSize) (unat EntSize)
      in if Index \<ge> EntryCount then (False, Found, st)
      else if EntryEmpty Entry
      then GptEntries Device Ratio EntryCount EntSize PerSector s Tab es Found st
      else let First = Le64 Entry 32; Last = Le64 Entry 40
      in if Last < First
      then GptEntries Device Ratio EntryCount EntSize PerSector s Tab es Found st
      else case AddPart Device (uint Index + 1) (First * ucast Ratio) ((Last - First + 1) * ucast Ratio)
                  PART_SCHEME_GPT st of
             (None, st) \<Rightarrow> (True, Found, st)
           | (Some i, st) \<Rightarrow>
               let st = st\<lparr>Parts := (Parts st)[i := (Parts st ! i)\<lparr>PartTypeGuid := bsub Entry 0 16\<rparr>]\<rparr>;
                   st = LogPart i st
               in GptEntries Device Ratio EntryCount EntSize PerSector s Tab es (Found + 1) st)"

fun GptSectors :: "int \<Rightarrow> u32 \<Rightarrow> u64 \<Rightarrow> u32 \<Rightarrow> u32 \<Rightarrow> u32 \<Rightarrow> nat list \<Rightarrow> int \<Rightarrow> 'a storage_scheme
    \<Rightarrow> int \<times> 'a storage_scheme" where
  "GptSectors Device Ratio EntriesLba EntryCount EntSize PerSector [] Found st = (Found, st)"
| "GptSectors Device Ratio EntriesLba EntryCount EntSize PerSector (s # ss) Found st =
     (case ReadNative (BlockReadFrom (Blocks st)) Device (EntriesLba + of_nat s) Ratio of
        None \<Rightarrow> (Found, st)
      | Some Tab \<Rightarrow>
          (case GptEntries Device Ratio EntryCount EntSize PerSector (of_nat s) Tab [0..<unat PerSector] Found st of
             (stop, Found, st) \<Rightarrow>
               if stop then (Found, st)
               else GptSectors Device Ratio EntriesLba EntryCount EntSize PerSector ss Found st))"

definition ScanGpt :: "int \<Rightarrow> u32 \<Rightarrow> 'a storage_scheme \<Rightarrow> int \<times> 'a storage_scheme" where
  "ScanGpt Device Ratio st =
     (case ReadNative (BlockReadFrom (Blocks st)) Device 1 Ratio of
        None \<Rightarrow> (0, st)
      | Some Tab \<Rightarrow>
          if \<not> TextEq Tab 0 ''EFI PART'' then (0, st)
          else let EntriesLba = Le64 Tab 72; EntryCount = Le32 Tab 80; EntSize = Le32 Tab 84;
                   NativeSize = Ratio * 512
          in if EntSize < 128 \<or> EntSize > NativeSize \<or> NativeSize mod EntSize \<noteq> 0 \<or> EntryCount = 0
                \<or> EntryCount > MAX_GPT_ENTRIES then (0, st)
          else let PerSector = NativeSize div EntSize;
                   Sectors = (EntryCount + PerSector - 1) div PerSector
          in GptSectors Device Ratio EntriesLba EntryCount EntSize PerSector [0..<unat Sectors] 0 st)"

section \<open>MBR\<close>

definition SetMbrType :: "nat \<Rightarrow> u8 \<Rightarrow> 'a storage_scheme \<Rightarrow> 'a storage_scheme" where
  "SetMbrType i t st = st\<lparr>Parts := (Parts st)[i := (Parts st ! i)\<lparr>PartMbrType := t\<rparr>]\<rparr>"

definition is_extended :: "u8 \<Rightarrow> bool" where
  "is_extended Type \<longleftrightarrow> Type = 0x05 \<or> Type = 0x0F \<or> Type = 0x85"

text \<open>The chain of extended boot records. The first argument is what is left of
  \<open>MAX_EBR_CHAIN\<close>; the flag tells that the function returns.\<close>
fun EbrChain :: "nat \<Rightarrow> int \<Rightarrow> u32 \<Rightarrow> u64 \<Rightarrow> u64 \<Rightarrow> int \<Rightarrow> int \<Rightarrow> 'a storage_scheme
    \<Rightarrow> bool \<times> int \<times> int \<times> 'a storage_scheme" where
  "EbrChain 0 Device Ratio ExtStart Ebr Logical Found st = (False, Logical, Found, st)"
| "EbrChain (Suc left) Device Ratio ExtStart Ebr Logical Found st =
     (case ReadNative (BlockReadFrom (Blocks st)) Device Ebr Ratio of
        None \<Rightarrow> (False, Logical, Found, st)
      | Some S \<Rightarrow>
          if bget S 510 \<noteq> 0x55 \<or> bget S 511 \<noteq> 0xAA then (False, Logical, Found, st)
          else let Ebr0 = bsub S 446 16; Ebr1 = bsub S 462 16;
                   LStart = Le32 Ebr0 8; LCount = Le32 Ebr0 12;
                   Nxt = Le32 Ebr1 8;
                   last = (bget Ebr1 4 = 0 \<or> Nxt = 0 \<or> ExtStart + ucast Nxt \<le> Ebr)
          in if bget Ebr0 4 \<noteq> 0 \<and> LCount \<noteq> 0
             then (case AddPart Device Logical ((Ebr + ucast LStart) * ucast Ratio) (ucast LCount * ucast Ratio)
                          PART_SCHEME_MBR st of
                     (None, st) \<Rightarrow> (True, Logical + 1, Found, st)
                   | (Some i, st) \<Rightarrow>
                       let st = LogPart i (SetMbrType i (bget Ebr0 4) st)
                       in if last then (False, Logical + 1, Found + 1, st)
                          else EbrChain left Device Ratio ExtStart (ExtStart + ucast Nxt) (Logical + 1) (Found + 1) st)
             else if last then (False, Logical, Found, st)
             else EbrChain left Device Ratio ExtStart (ExtStart + ucast Nxt) Logical Found st)"

fun MbrEntries :: "int \<Rightarrow> u8 list \<Rightarrow> u32 \<Rightarrow> nat list \<Rightarrow> int \<Rightarrow> int \<Rightarrow> 'a storage_scheme \<Rightarrow> int \<times> 'a storage_scheme" where
  "MbrEntries Device Entries Ratio [] Logical Found st = (Found, st)"
| "MbrEntries Device Entries Ratio (i # is) Logical Found st =
     (let E = bsub Entries (i * 16) 16; Type = bget E 4; Start = Le32 E 8; Count = Le32 E 12
      in if Type = 0 \<or> Count = 0 then MbrEntries Device Entries Ratio is Logical Found st
      else if is_extended Type
      then (case EbrChain MAX_EBR_CHAIN Device Ratio (ucast Start) (ucast Start) Logical Found st of
              (stop, Logical, Found, st) \<Rightarrow>
                if stop then (Found, st) else MbrEntries Device Entries Ratio is Logical Found st)
      else (case AddPart Device (int i + 1) (ucast Start * ucast Ratio) (ucast Count * ucast Ratio)
                   PART_SCHEME_MBR st of
              (None, st) \<Rightarrow> (Found, st)
            | (Some j, st) \<Rightarrow>
                MbrEntries Device Entries Ratio is Logical (Found + 1) (LogPart j (SetMbrType j Type st))))"

definition ScanMbr :: "int \<Rightarrow> u8 list \<Rightarrow> u32 \<Rightarrow> 'a storage_scheme \<Rightarrow> int \<times> 'a storage_scheme" where
  "ScanMbr Device Mbr Ratio st = MbrEntries Device (bsub Mbr 446 64) Ratio [0..<4] 5 0 st"

section \<open>Scanning a device\<close>

text \<open>The part of \<open>PartScanDevice\<close> after the first sector has been read.\<close>
definition ScanSectorZero :: "int \<Rightarrow> u32 \<Rightarrow> u8 list \<Rightarrow> 'a storage_scheme \<Rightarrow> int \<times> 'a storage_scheme" where
  "ScanSectorZero Device Ratio Mbr st =
     (if FatBootSectorValid Mbr
      then (case AddPart Device 1 0 (BlockSize512 (Blocks st) Device) PART_SCHEME_RAW st of
              (Some i, st) \<Rightarrow> (1, LogPart i st)
            | (None, st) \<Rightarrow> (0, st))
      else if bget Mbr 510 \<noteq> 0x55 \<or> bget Mbr 511 \<noteq> 0xAA
      then (0, st_log [lit ''PART: '', BlockDeviceName (Blocks st) Device, lit '' no partition table'' @ [10]] st)
      else if bget Mbr (446 + 4) = 0xEE \<or> bget Mbr (462 + 4) = 0xEE \<or> bget Mbr (478 + 4) = 0xEE \<or> bget Mbr (494 + 4) = 0xEE
      then (case ScanGpt Device Ratio st of (Count, st) \<Rightarrow>
              (Count, if Count = 0
                      then st_log [lit ''PART: '', BlockDeviceName (Blocks st) Device,
                             lit '' gpt header invalid'' @ [10]] st
                      else st))
      else ScanMbr Device Mbr Ratio st)"

definition PartScanDevice :: "int \<Rightarrow> 'a storage_scheme \<Rightarrow> int \<times> 'a storage_scheme" where
  "PartScanDevice Device st =
     (if Device < 0 \<or> Device \<ge> MAX_SCANNED \<or> Device \<ge> BlockDeviceCount (Blocks st) \<or> Scanned st Device
      then (0, st)
      else let st = (if SectorPage st = 0
                     then (case AllocPage (Phys st) of (a, s) \<Rightarrow> st\<lparr>Phys := s, SectorPage := a\<rparr>) else st)
      in if SectorPage st = 0 then (0, st)
      else let st = st\<lparr>Scanned := (Scanned st)(Device := True)\<rparr>;
               Ratio = BlockSectorSize (Blocks st) Device div 512;
               Ratio = (if Ratio = 0 then 1 else Ratio)
      in case BlockReadFrom (Blocks st) Device 0 1 of
           None \<Rightarrow> (0, st_log [lit ''PART: '', BlockDeviceName (Blocks st) Device,
                              lit '' sector 0 read failed'' @ [10]] st)
         | Some Mbr \<Rightarrow> ScanSectorZero Device Ratio Mbr st)"

definition PartCount :: "'a storage_scheme \<Rightarrow> int" where
  "PartCount st = int (length (Parts st))"

definition PartGet :: "'a storage_scheme \<Rightarrow> int \<Rightarrow> part_info option" where
  "PartGet st Index = (if Index < 0 \<or> Index \<ge> PartCount st then None else Some (Parts st ! nat Index))"

section \<open>What every scan keeps\<close>

definition part_ok :: "part_info \<Rightarrow> bool" where
  "part_ok P \<longleftrightarrow> length (PartName P) \<le> 23 \<and> length (PartTypeGuid P) = 16"

definition part_pages :: "'a storage_scheme \<Rightarrow> nat" where
  "part_pages st = (length (Parts st) + 50) div 51"

text \<open>The storage stack is consistent: its parts are, names fit their fields, and exactly the pages
  needed for the table have been taken.\<close>
definition storage_ok :: "'a storage_scheme \<Rightarrow> bool" where
  "storage_ok st \<longleftrightarrow> pmm_ok (Phys st) \<and> klog_ok (Log st) \<and> blocks_ok (Blocks st) \<and>
     length (Parts st) \<le> 3264 \<and> (\<forall>P \<in> set (Parts st). part_ok P) \<and>
     (\<forall>p < 64. PartPages st p \<noteq> 0 \<longleftrightarrow> p < part_pages st)"

text \<open>An operation that adds \<open>n\<close> partitions of a device at the end of the table, and takes pages for
  them and nothing else.\<close>
definition adds :: "int \<Rightarrow> int \<Rightarrow> 'a storage_scheme \<Rightarrow> 'a storage_scheme \<Rightarrow> bool" where
  "adds d n st st' \<longleftrightarrow> storage_ok st' \<and>
     (\<exists>new. Parts st' = Parts st @ new \<and> int (length new) = n \<and> (\<forall>P \<in> set new. PartDevice P = d)) \<and>
     Blocks st' = Blocks st \<and> Scanned st' = Scanned st \<and> SectorPage st' = SectorPage st \<and>
     storage.more st' = storage.more st \<and>
     card (free_set (Phys st')) + part_pages st' = card (free_set (Phys st)) + part_pages st"

lemma adds_refl: "storage_ok st \<Longrightarrow> adds d 0 st st"
  by (simp add: adds_def)

lemma adds_trans: "adds d n a b \<Longrightarrow> adds d k b c \<Longrightarrow> adds d (n + k) a c"
  by (auto simp: adds_def)

lemma adds_ok: "adds d n st st' \<Longrightarrow> storage_ok st'"
  by (simp add: adds_def)

lemma st_log_adds: "adds d n st st' \<Longrightarrow> adds d n st (st_log ss st')"
  by (auto simp: adds_def st_log_def storage_ok_def part_pages_def intro: klog_ok_KLogs)

lemma LogPart_adds: "adds d n st st' \<Longrightarrow> adds d n st (LogPart i st')"
  by (simp add: LogPart_def Let_def st_log_adds)

lemma length_NumberDigits: "length (NumberDigits room v acc) \<le> room + length acc"
  by (induction room v acc rule: NumberDigits.induct) (auto simp: Let_def)

lemma length_MakeName:
  assumes "blocks_ok b"
  shows "length (MakeName b d n) \<le> 23"
proof -
  have "length (BlockDeviceName b d) \<le> 15"
  proof (cases "bad_index b d")
    case False
    then have "nat d < length b" by (auto simp: bad_index_def)
    with assms have "entry_ok (b ! nat d)" by (simp add: blocks_ok_def)
    with False show ?thesis by (simp add: BlockDeviceName_def entry_ok_def NAME_SIZE_def)
  qed (simp add: BlockDeviceName_def lit_def)
  moreover have "length (NumberDigits 7 n []) \<le> 7" using length_NumberDigits [of 7 n "[]"] by simp
  ultimately show ?thesis by (simp add: MakeName_def)
qed

text \<open>The last page of the table is full exactly when the length is a multiple of 51.\<close>
lemma page_full: "\<not> (L::nat) div 51 < (L + 50) div 51 \<Longrightarrow> L = L div 51 * 51"
  by linarith

lemma table_full: "64 \<le> L div 51 \<Longrightarrow> L \<le> 3264 \<Longrightarrow> (L::nat) = 3264"
  by linarith

lemma page_room: "(L::nat) = q * 51 \<Longrightarrow> q < 64 \<Longrightarrow> Suc L \<le> 3264"
  by linarith

text \<open>Adding a partition: the new entry goes to the end; a fresh page is taken exactly when the last
  one is full.\<close>
lemma AddPart_cases:
  assumes ok: "storage_ok st" and run: "AddPart d n start cnt sch st = (r, st')"
  shows "(r = None \<and> adds d 0 st st' \<and> Parts st' = Parts st) \<or>
    (r = Some (length (Parts st)) \<and> adds d 1 st st' \<and>
     Parts st' = Parts st @ [\<lparr>PartDevice = d, PartNumber = n, PartStart = start, PartSectors = cnt,
        PartScheme = sch, PartMbrType = 0, PartTypeGuid = replicate 16 0, PartName = MakeName (Blocks st) d n,
        PartFs = ProbeFs (BlockReadFrom (Blocks st)) d start\<rparr>])"
proof -
  let ?Page = "length (Parts st) div 51" and ?P = "\<lparr>PartDevice = d, PartNumber = n, PartStart = start, PartSectors = cnt,
        PartScheme = sch, PartMbrType = 0, PartTypeGuid = replicate 16 0, PartName = MakeName (Blocks st) d n,
        PartFs = ProbeFs (BlockReadFrom (Blocks st)) d start\<rparr>"
  have pages: "\<forall>p < 64. PartPages st p \<noteq> 0 \<longleftrightarrow> p < (length (Parts st) + 50) div 51"
    and len: "length (Parts st) \<le> 3264" and pok: "\<forall>P \<in> set (Parts st). part_ok P"
    and base: "pmm_ok (Phys st)" "klog_ok (Log st)" "blocks_ok (Blocks st)"
    using ok by (simp_all add: storage_ok_def part_pages_def)
  have P: "part_ok ?P" using length_MakeName [OF base(3)] by (simp add: part_ok_def)
  consider (full) "64 \<le> ?Page" | (there) "?Page < 64" "PartPages st ?Page \<noteq> 0"
    | (fresh) "?Page < 64" "PartPages st ?Page = 0" by linarith
  then show ?thesis
  proof cases
    case full
    with run have "r = None" "st' = st"
      by (simp_all add: AddPart_def PartSlot_def PARTS_PER_PAGE_def MAX_PART_PAGES_def Let_def)
    with ok show ?thesis by (simp add: adds_refl)
  next
    case there
    with run have res: "r = Some (length (Parts st))" "st' = st\<lparr>Parts := Parts st @ [?P]\<rparr>"
      by (simp_all add: AddPart_def PartSlot_def PARTS_PER_PAGE_def MAX_PART_PAGES_def Let_def)
    have "(length (Parts st) + 50) div 51 = (Suc (length (Parts st)) + 50) div 51"
      using there pages by auto
    with ok P there(1) res base len pok pages have "adds d 1 st st'"
      by (auto simp: adds_def storage_ok_def part_pages_def)
    with res show ?thesis by simp
  next
    case fresh
    obtain a s where alloc: "AllocPage (Phys st) = (a, s)" by (cases "AllocPage (Phys st)")
    note al = alloc_contract [OF base(1) alloc [unfolded alloc_eq]]
    have "\<not> ?Page < (length (Parts st) + 50) div 51" using fresh pages by blast
    then have bound: "length (Parts st) = ?Page * 51" by (rule page_full)
    show ?thesis
    proof (cases "a = 0")
      case True
      with al have "s = Phys st" by (auto split: if_splits)
      with True fresh have upd: "st\<lparr>Phys := s, PartPages := (PartPages st)(?Page := a)\<rparr> = st"
        by (simp add: fun_upd_idem)
      with run True fresh(1) fresh(2) have "r = None" "st' = st"
        by (simp_all add: AddPart_def PartSlot_def PARTS_PER_PAGE_def MAX_PART_PAGES_def Let_def alloc)
      with ok show ?thesis by (simp add: adds_refl)
    next
      case False
      have "owned_ok (Phys st) {}" by (simp add: owned_ok_def)
      note fresh_page = alloc_fresh(3) [OF base(1) this alloc [unfolded alloc_eq] False]
      then have free: "Suc (card (free_set s)) = card (free_set (Phys st))" and "pmm_ok s"
        using al by simp_all
      from run False fresh have res: "r = Some (length (Parts st))"
          "st' = st\<lparr>Phys := s, PartPages := (PartPages st)(?Page := a), Parts := Parts st @ [?P]\<rparr>"
        by (simp_all add: AddPart_def PartSlot_def PARTS_PER_PAGE_def MAX_PART_PAGES_def Let_def alloc)
      have len': "length (Parts st') = Suc (length (Parts st))" by (simp add: res(2))
      have np: "part_pages st = ?Page" "part_pages st' = Suc ?Page"
        unfolding part_pages_def len' by (subst (1) bound, simp)+
      have "length (Parts st') \<le> 3264" unfolding len' by (rule page_room [OF bound fresh(1)])
      with ok P res(2) base pok pages np \<open>pmm_ok s\<close> False free have "adds d 1 st st'"
        by (auto simp: adds_def storage_ok_def part_pages_def)
      with res show ?thesis by simp
    qed
  qed
qed

text \<open>Filling in a field of the entry that was just added.\<close>
lemma adds_update:
  assumes "adds d 1 st st'" "Parts st' = Parts st @ [P]" "part_ok (f P)" "PartDevice (f P) = PartDevice P"
  shows "adds d 1 st (st'\<lparr>Parts := (Parts st')[length (Parts st) := f (Parts st' ! length (Parts st))]\<rparr>)"
proof -
  have "(Parts st')[length (Parts st) := f (Parts st' ! length (Parts st))] = Parts st @ [f P]"
    by (simp add: assms(2))
  with assms show ?thesis by (auto simp: adds_def storage_ok_def part_pages_def)
qed

lemma GptEntries_adds:
  "storage_ok st \<Longrightarrow> GptEntries d R cnt esz per s Tab es Found st = (stop, Found', st') \<Longrightarrow>
   adds d (Found' - Found) st st'"
proof (induction es arbitrary: Found st)
  case Nil
  then show ?case by (simp add: adds_refl)
next
  case (Cons e es)
  let ?Entry = "bsub Tab (e * unat esz) (unat esz)" and ?Index = "s * per + of_nat e"
  let ?First = "Le64 ?Entry 32" and ?Last = "Le64 ?Entry 40"
  show ?case
  proof (cases "cnt \<le> ?Index \<or> EntryEmpty ?Entry \<or> ?Last < ?First")
    case True
    with Cons.prems Cons.IH show ?thesis by (auto simp: Let_def adds_refl split: if_splits)
  next
    case False
    obtain r st1 where add: "AddPart d (uint ?Index + 1) (?First * ucast R) ((?Last - ?First + 1) * ucast R)
        PART_SCHEME_GPT st = (r, st1)" by (cases "AddPart d (uint ?Index + 1) (?First * ucast R)
        ((?Last - ?First + 1) * ucast R) PART_SCHEME_GPT st")
    show ?thesis
    proof (cases r)
      case None
      with AddPart_cases [OF Cons.prems(1) add] have "adds d 0 st st1" by auto
      moreover from Cons.prems(2) False add None have "Found' = Found" "st' = st1" by (simp_all add: Let_def)
      ultimately show ?thesis by simp
    next
      case (Some i)
      with AddPart_cases [OF Cons.prems(1) add] obtain P where i: "i = length (Parts st)"
        and ad: "adds d 1 st st1" and P: "Parts st1 = Parts st @ [P]" "part_ok P" by (fastforce simp: adds_def storage_ok_def)
      define st2 where "st2 = st1\<lparr>Parts := (Parts st1)[i := (Parts st1 ! i)\<lparr>PartTypeGuid := bsub ?Entry 0 16\<rparr>]\<rparr>"
      have "adds d 1 st st2"
        unfolding st2_def i using P(2) by (intro adds_update [OF ad P(1)]) (simp_all add: part_ok_def)
      then have ad2: "adds d 1 st (LogPart i st2)" by (rule LogPart_adds)
      from Cons.prems(2) False add Some
      have rest: "GptEntries d R cnt esz per s Tab es (Found + 1) (LogPart i st2) = (stop, Found', st')"
        by (simp add: Let_def st2_def)
      from adds_trans [OF ad2 Cons.IH [OF adds_ok [OF ad2] rest]] show ?thesis by simp
    qed
  qed
qed

lemma GptSectors_adds:
  "storage_ok st \<Longrightarrow> GptSectors d R lba cnt esz per ss Found st = (Found', st') \<Longrightarrow>
   adds d (Found' - Found) st st'"
proof (induction ss arbitrary: Found st)
  case (Cons s ss)
  show ?case
  proof (cases "ReadNative (BlockReadFrom (Blocks st)) d (lba + of_nat s) R")
    case (Some Tab)
    obtain stop F2 st2 where run: "GptEntries d R cnt esz per (of_nat s) Tab [0..<unat per] Found st = (stop, F2, st2)"
      by (metis prod_cases3)
    note ad = GptEntries_adds [OF Cons.prems(1) run]
    show ?thesis
    proof (cases stop)
      case True
      with Cons.prems(2) Some run ad show ?thesis by simp
    next
      case False
      with Cons.prems(2) Some run have "GptSectors d R lba cnt esz per ss F2 st2 = (Found', st')" by simp
      from adds_trans [OF ad Cons.IH [OF adds_ok [OF ad] this]] show ?thesis by simp
    qed
  qed (use Cons.prems in \<open>simp add: adds_refl\<close>)
qed (simp add: adds_refl)

lemma ScanGpt_adds:
  assumes "storage_ok st" "ScanGpt d R st = (n, st')"
  shows "adds d n st st'"
  using assms GptSectors_adds [OF assms(1), of d R _ _ _ _ _ 0 n st']
  by (auto simp: ScanGpt_def adds_refl Let_def split: option.splits if_splits)

lemma EbrChain_adds:
  "storage_ok st \<Longrightarrow> EbrChain left d R ext ebr Lg Found st = (stop, Lg', Found', st') \<Longrightarrow>
   adds d (Found' - Found) st st'"
proof (induction left arbitrary: ebr Lg Found st)
  case 0
  then show ?case by (simp add: adds_refl)
next
  case (Suc left)
  show ?case
  proof (cases "ReadNative (BlockReadFrom (Blocks st)) d ebr R")
    case None
    with Suc.prems show ?thesis by (simp add: adds_refl)
  next
    case (Some S)
    let ?A = "bsub S 446 16" and ?B = "bsub S 462 16"
    let ?last = "bget ?B 4 = 0 \<or> Le32 ?B 8 = 0 \<or> ext + ucast (Le32 ?B 8) \<le> ebr"
    show ?thesis
    proof (cases "bget S 510 \<noteq> 0x55 \<or> bget S 511 \<noteq> 0xAA")
      case True
      with Suc.prems Some show ?thesis by (simp add: adds_refl)
    next
      case sig: False
      show ?thesis
      proof (cases "bget ?A 4 \<noteq> 0 \<and> Le32 ?A 12 \<noteq> 0")
        case True
        obtain r st1 where add: "AddPart d Lg ((ebr + ucast (Le32 ?A 8)) * ucast R)
            (ucast (Le32 ?A 12) * ucast R) PART_SCHEME_MBR st = (r, st1)"
          by (cases "AddPart d Lg ((ebr + ucast (Le32 ?A 8)) * ucast R)
            (ucast (Le32 ?A 12) * ucast R) PART_SCHEME_MBR st")
        show ?thesis
        proof (cases r)
          case None
          with AddPart_cases [OF Suc.prems(1) add] have "adds d 0 st st1" by auto
          moreover from Suc.prems(2) Some sig True add None have "Found' = Found" "st' = st1"
            by (auto simp: Let_def)
          ultimately show ?thesis by simp
        next
          case i: (Some i)
          with AddPart_cases [OF Suc.prems(1) add] obtain P where i': "i = length (Parts st)"
            and ad: "adds d 1 st st1" and P: "Parts st1 = Parts st @ [P]" "part_ok P" by (fastforce simp: adds_def storage_ok_def)
          define st2 where "st2 = LogPart i (SetMbrType i (bget ?A 4) st1)"
          have ad2: "adds d 1 st st2"
            unfolding st2_def SetMbrType_def i' using P(2)
            by (intro LogPart_adds adds_update [OF ad P(1)]) (simp_all add: part_ok_def)
          show ?thesis
          proof (cases ?last)
            case last: True
            with Suc.prems(2) Some sig True add i have "Found' = Found + 1" "st' = st2"
              by (auto simp: Let_def st2_def)
            with ad2 show ?thesis by simp
          next
            case False
            with Suc.prems(2) Some sig True add i
            have rest: "EbrChain left d R ext (ext + ucast (Le32 ?B 8)) (Lg + 1) (Found + 1) st2 = (stop, Lg', Found', st')"
              by (auto simp: Let_def st2_def)
            from adds_trans [OF ad2 Suc.IH [OF adds_ok [OF ad2] rest]] show ?thesis by simp
          qed
        qed
      next
        case False
        with Suc.prems Suc.IH Some sig show ?thesis
          by (auto simp: Let_def adds_refl split: if_splits)
      qed
    qed
  qed
qed

lemma MbrEntries_adds:
  "storage_ok st \<Longrightarrow> MbrEntries d E R is Lg Found st = (Found', st') \<Longrightarrow> adds d (Found' - Found) st st'"
proof (induction "is" arbitrary: Lg Found st)
  case Nil
  then show ?case by (simp add: adds_refl)
next
  case (Cons i "is")
  let ?E = "bsub E (i * 16) 16"
  show ?case
  proof (cases "bget ?E 4 = 0 \<or> Le32 ?E 12 = 0")
    case True
    with Cons show ?thesis by (auto simp: Let_def)
  next
    case used: False
    show ?thesis
    proof (cases "is_extended (bget ?E 4)")
      case True
      obtain stop L2 F2 st2 where run: "EbrChain MAX_EBR_CHAIN d R (ucast (Le32 ?E 8)) (ucast (Le32 ?E 8)) Lg Found st
          = (stop, L2, F2, st2)" by (metis prod_cases4)
      note ad = EbrChain_adds [OF Cons.prems(1) run]
      show ?thesis
      proof (cases stop)
        case True
        with Cons.prems(2) used \<open>is_extended (bget ?E 4)\<close> run ad show ?thesis by (simp add: Let_def)
      next
        case False
        with Cons.prems(2) used True run have "MbrEntries d E R is L2 F2 st2 = (Found', st')"
          by (simp add: Let_def)
        from adds_trans [OF ad Cons.IH [OF adds_ok [OF ad] this]] show ?thesis by simp
      qed
    next
      case False
      obtain r st1 where add: "AddPart d (int i + 1) (ucast (Le32 ?E 8) * ucast R) (ucast (Le32 ?E 12) * ucast R)
          PART_SCHEME_MBR st = (r, st1)"
        by (cases "AddPart d (int i + 1) (ucast (Le32 ?E 8) * ucast R) (ucast (Le32 ?E 12) * ucast R)
          PART_SCHEME_MBR st")
      show ?thesis
      proof (cases r)
        case None
        with AddPart_cases [OF Cons.prems(1) add] have "adds d 0 st st1" by auto
        with Cons.prems(2) used False add None show ?thesis by (simp add: Let_def)
      next
        case (Some j)
        with AddPart_cases [OF Cons.prems(1) add] obtain P where j: "j = length (Parts st)"
          and ad: "adds d 1 st st1" and P: "Parts st1 = Parts st @ [P]" "part_ok P" by (fastforce simp: adds_def storage_ok_def)
        have ad2: "adds d 1 st (LogPart j (SetMbrType j (bget ?E 4) st1))"
          unfolding SetMbrType_def j using P(2)
          by (intro LogPart_adds adds_update [OF ad P(1)]) (simp_all add: part_ok_def)
        from Cons.prems(2) used False add Some
        have "MbrEntries d E R is Lg (Found + 1) (LogPart j (SetMbrType j (bget ?E 4) st1)) = (Found', st')"
          by (simp add: Let_def)
        from adds_trans [OF ad2 Cons.IH [OF adds_ok [OF ad2] this]] show ?thesis by simp
      qed
    qed
  qed
qed

lemma ScanSectorZero_adds:
  assumes ok: "storage_ok st" and run: "ScanSectorZero d R Mbr st = (n, st')"
  shows "adds d n st st'"
proof (cases "FatBootSectorValid Mbr")
  case True
  obtain r st1 where add: "AddPart d 1 0 (BlockSize512 (Blocks st) d) PART_SCHEME_RAW st = (r, st1)"
    by (cases "AddPart d 1 0 (BlockSize512 (Blocks st) d) PART_SCHEME_RAW st")
  from AddPart_cases [OF ok add] True run add show ?thesis
    by (auto simp: ScanSectorZero_def LogPart_adds)
next
  case False
  obtain k st1 where gpt: "ScanGpt d R st = (k, st1)" by (cases "ScanGpt d R st")
  have mbr: "adds d n st st'" if "ScanMbr d Mbr R st = (n, st')"
    using MbrEntries_adds [OF ok that [unfolded ScanMbr_def]] by simp
  from False run mbr ScanGpt_adds [OF ok gpt] gpt show ?thesis
    by (auto simp: ScanSectorZero_def st_log_adds adds_refl ok split: if_splits)
qed

text \<open>Pages the storage stack holds besides those handed to volumes.\<close>
definition held_pages :: "'a storage_scheme \<Rightarrow> nat" where
  "held_pages st = part_pages st + (if SectorPage st = 0 then 0 else 1)"

lemma sector_page_ok:
  assumes "storage_ok st" "SectorPage st = 0" "AllocPage (Phys st) = (a, s)"
  defines "st1 \<equiv> st\<lparr>Phys := s, SectorPage := a\<rparr>"
  shows "storage_ok st1" "a = 0 \<Longrightarrow> st1 = st"
    and "card (free_set (Phys st1)) + held_pages st1 = card (free_set (Phys st)) + held_pages st"
proof -
  have pmm: "pmm_ok (Phys st)" using assms(1) by (simp add: storage_ok_def)
  note al = alloc_contract [OF pmm assms(3) [unfolded alloc_eq]]
  have "owned_ok (Phys st) {}" by (simp add: owned_ok_def)
  note fresh = alloc_fresh(3) [OF pmm this assms(3) [unfolded alloc_eq]]
  from al assms(1) show "storage_ok st1" by (simp add: storage_ok_def st1_def part_pages_def)
  show zero: "a = 0 \<Longrightarrow> st1 = st" using al assms(2) by (auto simp: st1_def split: if_splits)
  show "card (free_set (Phys st1)) + held_pages st1 = card (free_set (Phys st)) + held_pages st"
  proof (cases "a = 0")
    case False
    with fresh show ?thesis by (simp add: st1_def held_pages_def part_pages_def assms(2))
  qed (simp add: zero)
qed

lemma PartScanDevice_cases:
  assumes ok: "storage_ok st" and run: "PartScanDevice d st = (n, st')"
  shows "storage_ok st' \<and> Blocks st' = Blocks st \<and> storage.more st' = storage.more st \<and>
    (\<exists>new. Parts st' = Parts st @ new \<and> int (length new) = n \<and> (\<forall>P \<in> set new. PartDevice P = d)) \<and>
    card (free_set (Phys st')) + held_pages st' = card (free_set (Phys st)) + held_pages st \<and>
    PartScanDevice d st' = (0, st')"
proof (cases "d < 0 \<or> d \<ge> MAX_SCANNED \<or> d \<ge> BlockDeviceCount (Blocks st) \<or> Scanned st d")
  case True
  with run have "n = 0" "st' = st" by (auto simp: PartScanDevice_def)
  with True ok show ?thesis by (auto simp: PartScanDevice_def)
next
  case False
  define st1 where "st1 = (if SectorPage st = 0
      then (case AllocPage (Phys st) of (a, s) \<Rightarrow> st\<lparr>Phys := s, SectorPage := a\<rparr>) else st)"
  obtain a s where alloc: "AllocPage (Phys st) = (a, s)" by (cases "AllocPage (Phys st)")
  have st1: "storage_ok st1" "Parts st1 = Parts st" "Blocks st1 = Blocks st" "storage.more st1 = storage.more st"
      "Scanned st1 = Scanned st"
      "card (free_set (Phys st1)) + held_pages st1 = card (free_set (Phys st)) + held_pages st"
      "SectorPage st1 = 0 \<Longrightarrow> st1 = st"
    using sector_page_ok [OF ok _ alloc] ok by (auto simp: st1_def alloc)
  show ?thesis
  proof (cases "SectorPage st1 = 0")
    case True
    with run False have "n = 0" "st' = st1" by (auto simp: PartScanDevice_def st1_def [symmetric])
    with True st1(7) run ok show ?thesis by simp
  next
    case page: False
    define st2 where "st2 = st1\<lparr>Scanned := (Scanned st1)(d := True)\<rparr>"
    have ok2: "storage_ok st2" using st1(1) by (simp add: st2_def storage_ok_def part_pages_def)
    define R where "R = (let R = BlockSectorSize (Blocks st2) d div 512 in if R = 0 then 1 else R)"
    have body: "(case BlockReadFrom (Blocks st2) d 0 1 of
           None \<Rightarrow> (0, st_log [lit ''PART: '', BlockDeviceName (Blocks st2) d,
                              lit '' sector 0 read failed'' @ [10]] st2)
         | Some Mbr \<Rightarrow> ScanSectorZero d R Mbr st2) = (n, st')"
      using run False page
      unfolding PartScanDevice_def st1_def [symmetric] Let_def st2_def [symmetric] R_def
      by (simp cong: option.case_cong)
    have "adds d n st2 st'"
    proof (cases "BlockReadFrom (Blocks st2) d 0 1")
      case None
      with body ok2 show ?thesis by (auto simp: adds_refl st_log_adds)
    next
      case (Some Mbr)
      with body have "ScanSectorZero d R Mbr st2 = (n, st')" by simp
      then show ?thesis by (rule ScanSectorZero_adds [OF ok2])
    qed
    then have ad: "storage_ok st'" "\<exists>new. Parts st' = Parts st2 @ new \<and> int (length new) = n \<and> (\<forall>P \<in> set new. PartDevice P = d)"
      "Blocks st' = Blocks st2" "Scanned st' = Scanned st2" "SectorPage st' = SectorPage st2"
      "storage.more st' = storage.more st2"
      "card (free_set (Phys st')) + part_pages st' = card (free_set (Phys st2)) + part_pages st2"
      by (simp_all add: adds_def)
    have "Scanned st' d" by (simp add: ad(4) st2_def)
    then have "PartScanDevice d st' = (0, st')" by (simp add: PartScanDevice_def)
    moreover have "card (free_set (Phys st')) + held_pages st' = card (free_set (Phys st)) + held_pages st"
      using ad(5,7) st1(6) by (simp add: held_pages_def st2_def part_pages_def)
    ultimately show ?thesis using ad st1 by (simp add: st2_def)
  qed
qed

text \<open>C9: Scanning a device is safe and idempotent: the storage stack stays consistent (names fit
  their 24 bytes, at most 3264 entries, exactly the needed pages taken and none lost); entries already
  in the table never move or change; the number returned is the number of entries added, all of that
  device; and a second scan of the same device does nothing.\<close>
theorem PartScanDevice_safe:
  assumes "storage_ok st" "PartScanDevice d st = (n, st')"
  shows "storage_ok st' \<and>
    (\<exists>new. Parts st' = Parts st @ new \<and> int (length new) = n \<and> (\<forall>P \<in> set new. PartDevice P = d)) \<and>
    card (free_set (Phys st')) + held_pages st' = card (free_set (Phys st)) + held_pages st \<and>
    PartScanDevice d st' = (0, st')"
  using PartScanDevice_cases [OF assms] by blast

text \<open>The state at boot, with one device and one free page.\<close>
definition boot_storage :: storage where
  "boot_storage = \<lparr>Phys = one_page, Log = klog_init, Blocks = [demo_device], Parts = [],
     PartPages = (\<lambda>_. 0), SectorPage = 0, Scanned = (\<lambda>_. False)\<rparr>"

lemma demo_blocks_ok: "blocks_ok [demo_device]"
  by (simp add: blocks_ok_def MAX_BLOCK_DEVICES_def entry_ok_def demo_device_def ValidSectorSize_def
      NAME_SIZE_def lit_def)

lemma boot_storage_ok: "storage_ok boot_storage"
  using one_page_ok demo_blocks_ok by (simp add: storage_ok_def boot_storage_def part_pages_def)

lemma PartScanDevice_safe_witness:
  "storage_ok (snd (PartScanDevice 0 boot_storage)) \<and>
   PartScanDevice 0 (snd (PartScanDevice 0 boot_storage)) = (0, snd (PartScanDevice 0 boot_storage))"
proof -
  obtain n st' where r: "PartScanDevice 0 boot_storage = (n, st')" by (cases "PartScanDevice 0 boot_storage")
  from PartScanDevice_safe [OF boot_storage_ok r] show ?thesis by (simp add: r)
qed

end
