(* ===== verification/Gpt.thy ===== *)
theory Gpt
  imports Part
begin

text \<open>
  The GPT scanner against a specification: a GUID partition table is a list of entries on the medium,
  and the scanner is to add the used ones in order. The loops over sectors and entries, the entry
  numbers and the early stop when the partition table is full are shown to implement that.
\<close>

section \<open>The specification\<close>

definition gpt_entry :: "medium \<Rightarrow> nat \<Rightarrow> nat \<Rightarrow> nat \<Rightarrow> u8 list" where
  "gpt_entry m base E i = media_bytes m (base + i * E) E"

definition gpt_used :: "u8 list \<Rightarrow> bool" where
  "gpt_used ent \<longleftrightarrow> \<not> EntryEmpty ent \<and> Le64 ent 32 \<le> Le64 ent 40"

text \<open>What the table says of entry \<open>i\<close>: number, first sector, sectors (in units of 512 bytes), type.\<close>
definition gpt_key :: "u32 \<Rightarrow> nat \<Rightarrow> u8 list \<Rightarrow> int \<times> u64 \<times> u64 \<times> u8 list" where
  "gpt_key R i ent = (int i + 1, Le64 ent 32 * ucast R, (Le64 ent 40 - Le64 ent 32 + 1) * ucast R, bsub ent 0 16)"

definition gpt_keys :: "medium \<Rightarrow> nat \<Rightarrow> nat \<Rightarrow> u32 \<Rightarrow> nat \<Rightarrow> nat list \<Rightarrow> (int \<times> u64 \<times> u64 \<times> u8 list) list" where
  "gpt_keys m base E R cnt is = map (\<lambda>i. gpt_key R i (gpt_entry m base E i))
     (filter (\<lambda>i. i < cnt \<and> gpt_used (gpt_entry m base E i)) is)"

definition part_key :: "part_info \<Rightarrow> int \<times> u64 \<times> u64 \<times> u8 list" where
  "part_key P = (PartNumber P, PartStart P, PartSectors P, PartTypeGuid P)"

text \<open>No room for another partition: the table or the memory is used up.\<close>
definition exhausted :: "'a storage_scheme \<Rightarrow> bool" where
  "exhausted st \<longleftrightarrow> length (Parts st) = 3264 \<or> free_set (Phys st) = {}"

text \<open>The scan has added the partitions \<open>ks\<close>, or as many as there was room for.\<close>
definition extends :: "'a storage_scheme \<Rightarrow> 'a storage_scheme \<Rightarrow> (int \<times> u64 \<times> u64 \<times> u8 list) list \<Rightarrow> bool \<Rightarrow> bool" where
  "extends st st' ks stop \<longleftrightarrow> (\<exists>new. Parts st' = Parts st @ new \<and> map part_key new = take (length new) ks \<and>
     (\<not> stop \<longrightarrow> length new = length ks) \<and> (stop \<longrightarrow> exhausted st'))"

lemma extends_refl: "extends st st [] False"
  by (simp add: extends_def)

lemma extends_stop: "exhausted st \<Longrightarrow> extends st st ks True"
  by (simp add: extends_def)

lemma extends_more:
  assumes "extends st st' ks True"
  shows "extends st st' (ks @ ks') True"
proof -
  from assms obtain new where new: "Parts st' = Parts st @ new" "map part_key new = take (length new) ks"
    "exhausted st'" by (auto simp: extends_def)
  from arg_cong [OF new(2), of length] have "length new \<le> length ks" by simp
  with new show ?thesis unfolding extends_def by (intro exI [of _ new]) simp
qed

lemma extends_trans:
  assumes "extends a b ks False" "extends b c ks' stop"
  shows "extends a c (ks @ ks') stop"
proof -
  from assms(1) obtain new where 1: "Parts b = Parts a @ new" "map part_key new = ks" "length new = length ks"
    by (auto simp: extends_def)
  from assms(2) obtain new' where 2: "Parts c = Parts b @ new'" "map part_key new' = take (length new') ks'"
    "\<not> stop \<longrightarrow> length new' = length ks'" "stop \<longrightarrow> exhausted c" by (auto simp: extends_def)
  show ?thesis unfolding extends_def
    by (rule exI [of _ "new @ new'"]) (use 1 2 in auto)
qed

lemma extends_log: "extends st st' ks stop \<Longrightarrow> extends st (LogPart i st') ks stop"
  by (simp add: extends_def LogPart_def st_log_def Let_def exhausted_def)

section \<open>The loops\<close>

lemma AddPart_exhausted:
  assumes ok: "storage_ok st" and run: "AddPart d n start cnt sch st = (None, st')"
  shows "exhausted st'" "Parts st' = Parts st"
proof -
  have len: "length (Parts st) \<le> 3264" and pmm: "pmm_ok (Phys st)" using ok by (simp_all add: storage_ok_def)
  show "Parts st' = Parts st" using AddPart_cases [OF ok run] by simp
  obtain a s where alloc: "AllocPage (Phys st) = (a, s)" by (cases "AllocPage (Phys st)")
  note al = alloc_contract [OF pmm alloc [unfolded alloc_eq]]
  have none: "free_set s = {}" if "a = 0"
  proof -
    from al that have "\<not> (\<exists>p \<in> free_set (Phys st). p < alloc_limit (Phys st) False)" "s = Phys st"
      by (auto split: if_splits)
    then show ?thesis by (auto simp: alloc_limit_def free_set_def)
  qed
  show "exhausted st'"
  proof (cases "64 \<le> length (Parts st) div 51")
    case True
    with run have "st' = st"
      by (simp add: AddPart_def PartSlot_def PARTS_PER_PAGE_def MAX_PART_PAGES_def Let_def)
    moreover have "length (Parts st) = 3264" using True len by (rule table_full)
    ultimately show ?thesis by (simp add: exhausted_def)
  next
    case False
    with run alloc none show ?thesis
      by (auto simp: AddPart_def PartSlot_def PARTS_PER_PAGE_def MAX_PART_PAGES_def Let_def exhausted_def
          split: if_splits)
  qed
qed

lemma gpt_keys_append: "gpt_keys m base E R cnt (xs @ ys) = gpt_keys m base E R cnt xs @ gpt_keys m base E R cnt ys"
  by (simp add: gpt_keys_def)

lemma gpt_keys_beyond: "cnt \<le> i \<Longrightarrow> gpt_keys m base E R cnt [i..<j] = []"
  by (simp add: gpt_keys_def filter_empty_conv)

lemma gpt_keys_Cons:
  "gpt_keys m base E R cnt (i # is) =
     (if i < cnt \<and> gpt_used (gpt_entry m base E i) then [gpt_key R i (gpt_entry m base E i)] else [])
       @ gpt_keys m base E R cnt is"
  by (simp add: gpt_keys_def)

lemma GptEntries_extends:
  assumes entries: "\<And>e. e < per \<Longrightarrow> bsub Tab (e * unat E) (unat E) = gpt_entry m base (unat E) (k + e)"
    and index: "\<And>e. e < per \<Longrightarrow> unat (s * W + of_nat e) = k + e"
  shows "storage_ok st \<Longrightarrow> GptEntries d R cnt E W s Tab [per - n..<per] Found st = (stop, Found', st') \<Longrightarrow>
    n \<le> per \<Longrightarrow> extends st st' (gpt_keys m base (unat E) R (unat cnt) [k + (per - n)..<k + per]) stop"
proof (induction n arbitrary: Found st)
  case 0
  then show ?case by (simp add: gpt_keys_def extends_refl)
next
  case (Suc n)
  define e where "e = per - Suc n"
  have e: "e < per" "per - n = Suc e" "[per - Suc n..<per] = e # [per - n..<per]"
    using Suc.prems(3) by (simp_all add: e_def upt_conv_Cons Suc_diff_Suc)
  let ?Entry = "bsub Tab (e * unat E) (unat E)" and ?Index = "s * W + of_nat e"
  let ?First = "Le64 ?Entry 32" and ?Last = "Le64 ?Entry 40"
  note ent = entries [OF e(1)] and idx = index [OF e(1)]
  have upt: "[k + (per - Suc n)..<k + per] = (k + e) # [k + (per - n)..<k + per]"
    using e by (simp add: e_def [symmetric] upt_conv_Cons)
  have int_idx: "uint ?Index = int (k + e)" using idx by (simp add: uint_nat)
  show ?case
  proof (cases "cnt \<le> ?Index")
    case True
    with Suc.prems(2) have "st' = st" "\<not> stop" by (simp_all add: e(3) Let_def)
    moreover have "unat cnt \<le> k + e" using True idx by (simp add: word_le_nat_alt)
    ultimately show ?thesis
      by (simp add: e_def [symmetric] gpt_keys_beyond extends_refl del: upt_Suc)
  next
    case in_table: False
    then have lt: "k + e < unat cnt" using idx by (simp add: word_le_nat_alt)
    show ?thesis
    proof (cases "gpt_used ?Entry")
      case False
      with Suc.prems(2) in_table
      have "GptEntries d R cnt E W s Tab [per - n..<per] Found st = (stop, Found', st')"
        by (auto simp: e(3) Let_def gpt_used_def not_le split: if_splits)
      from Suc.IH [OF Suc.prems(1) this] Suc.prems(3) False show ?thesis
        unfolding upt gpt_keys_Cons by (simp add: ent)
    next
      case used: True
      then have used': "\<not> EntryEmpty ?Entry" "\<not> ?Last < ?First" by (simp_all add: gpt_used_def not_less)
      obtain r st1 where add: "AddPart d (uint ?Index + 1) (?First * ucast R) ((?Last - ?First + 1) * ucast R)
          PART_SCHEME_GPT st = (r, st1)"
        by (cases "AddPart d (uint ?Index + 1) (?First * ucast R) ((?Last - ?First + 1) * ucast R) PART_SCHEME_GPT st")
      show ?thesis
      proof (cases r)
        case None
        from Suc.prems(2) in_table used' add None have "stop" "st' = st1"
          by (simp_all add: e(3) Let_def)
        with AddPart_exhausted [OF Suc.prems(1) add [unfolded None]] show ?thesis
          by (simp add: extends_def)
      next
        case (Some i)
        with AddPart_cases [OF Suc.prems(1) add] obtain P where i: "i = length (Parts st)"
          and ad: "adds d 1 st st1" and P: "Parts st1 = Parts st @ [P]" "part_ok P"
          and key: "PartNumber P = int (k + e) + 1" "PartStart P = ?First * ucast R"
            "PartSectors P = (?Last - ?First + 1) * ucast R"
          by (fastforce simp: adds_def storage_ok_def int_idx)
        define st2 where "st2 = st1\<lparr>Parts := (Parts st1)[i := (Parts st1 ! i)\<lparr>PartTypeGuid := bsub ?Entry 0 16\<rparr>]\<rparr>"
        have ad2: "adds d 1 st (LogPart i st2)"
          unfolding st2_def i using P(2)
          by (intro LogPart_adds adds_update [OF ad P(1)]) (simp_all add: part_ok_def)
        have "extends st st2 [gpt_key R (k + e) ?Entry] False"
          using key by (simp add: extends_def st2_def i P(1) part_key_def gpt_key_def)
        then have ex: "extends st (LogPart i st2) [gpt_key R (k + e) ?Entry] False" by (rule extends_log)
        from Suc.prems(2) in_table used' add Some
        have rest: "GptEntries d R cnt E W s Tab [per - n..<per] (Found + 1) (LogPart i st2) = (stop, Found', st')"
          by (simp add: e(3) Let_def st2_def)
        have "n \<le> per" using Suc.prems(3) by simp
        from extends_trans [OF ex Suc.IH [OF adds_ok [OF ad2] rest this]] show ?thesis
          unfolding upt gpt_keys_Cons using lt used by (simp add: ent)
      qed
    qed
  qed
qed
text \<open>The byte where the table starts, and one sector of it as the scanner reads it.\<close>
lemma sector_entry:
  assumes "e < per" "per * E = NB"
  shows "bsub (media_bytes m (base + s * NB) NB) (e * E) E = gpt_entry m base E (s * per + e)"
proof -
  have "(e + 1) * E \<le> per * E" using assms(1) by (intro mult_le_mono1) simp
  then have "e * E + E \<le> NB" using assms(2) by simp
  then show ?thesis
    by (simp add: bsub_media_bytes gpt_entry_def assms(2) [symmetric] algebra_simps)
qed

lemma ReadNative_up:
  assumes "device_honest b d m" "device_up b d sz" "(unat l + 1) * unat R \<le> sz"
  shows "ReadNative (BlockReadFrom b) d l R = Some (media_bytes m (unat l * unat R * 512) (unat R * 512))"
proof (cases "unat R = 0")
  case True
  have sz: "sz \<le> 2 ^ 64" and h: "device_healthy b d sz" using assms(2) by (simp_all add: device_up_def)
  have "unat (l * ucast R :: u64) + unat R \<le> sz" using True by (simp add: unat_eq_zero)
  from block.rd_total [OF assms(1) h sz this] show ?thesis using True
    by (simp add: ReadNative_def unat_eq_zero)
next
  case False
  have sz: "sz \<le> 2 ^ 64" and h: "device_healthy b d sz" using assms(2) by (simp_all add: device_up_def)
  have "unat l * unat R < (unat l + 1) * unat R" using False by simp
  with assms(3) sz have "unat l * unat R < 2 ^ 64" by linarith
  then have u: "unat (l * ucast R :: u64) = unat l * unat R"
    by (simp add: unat_mult_nowrap unat_ucast_le)
  with assms(3) have "unat (l * ucast R :: u64) + unat R \<le> sz" by simp
  from block.rd_total [OF assms(1) h sz this] show ?thesis by (simp add: ReadNative_def u)
qed

lemma GptSectors_extends:
  assumes disk: "device_honest (Blocks st0) d m" "device_up (Blocks st0) d sz"
    and room: "(unat lba + S) * unat R \<le> sz" "unat lba + S \<le> 2 ^ 64" "S * unat W < 2 ^ 32"
    and whole: "unat W * unat E = unat R * 512"
  shows "storage_ok st \<Longrightarrow> Blocks st = Blocks st0 \<Longrightarrow> n \<le> S \<Longrightarrow>
    GptSectors d R lba cnt E W [S - n..<S] Found st = (Found', st') \<Longrightarrow>
    \<exists>stop. extends st st' (gpt_keys m (unat lba * unat R * 512) (unat E) R (unat cnt)
      [(S - n) * unat W..<S * unat W]) stop"
proof (induction n arbitrary: Found st)
  case 0
  then show ?case using extends_refl by (auto simp: gpt_keys_def)
next
  case (Suc n)
  let ?NB = "unat R * 512" and ?base = "unat lba * unat R * 512" and ?per = "unat W"
  define s where "s = S - Suc n"
  have s: "s < S" "S - n = Suc s" "[S - Suc n..<S] = s # [S - n..<S]"
    using Suc.prems(3) by (simp_all add: s_def upt_conv_Cons Suc_diff_Suc)
  have wide: "s < 2 ^ 64" using s(1) room(2) by simp
  have us: "unat (lba + of_nat s) = unat lba + s"
    using room(2) s(1) wide by (subst unat_add_nowrap) (simp_all add: unat_of_nat_small)
  have "(unat (lba + of_nat s) + 1) * unat R \<le> (unat lba + S) * unat R"
    unfolding us using s(1) by (intro mult_le_mono1) simp
  with room(1) have "(unat (lba + of_nat s) + 1) * unat R \<le> sz" by simp
  from ReadNative_up [OF disk this] have read: "ReadNative (BlockReadFrom (Blocks st)) d (lba + of_nat s) R
      = Some (media_bytes m (?base + s * ?NB) ?NB)"
    unfolding us Suc.prems(2) by (simp add: algebra_simps)
  let ?Tab = "media_bytes m (?base + s * ?NB) ?NB"
  have entries: "bsub ?Tab (e * unat E) (unat E) = gpt_entry m ?base (unat E) (s * ?per + e)" if "e < ?per" for e
    by (rule sector_entry [OF that whole])
  have index: "unat (of_nat s * W + of_nat e) = s * ?per + e" if "e < ?per" for e
  proof -
    have "Suc s * ?per \<le> S * ?per" using s(1) by (intro mult_le_mono1) simp
    with that room(3) have lt: "s * ?per + e < 2 ^ 32" by simp
    have eq: "(of_nat s * W + of_nat e :: u32) = of_nat (s * ?per + e)" by simp
    show ?thesis unfolding eq by (rule unat_of_nat_small) (use lt in simp)
  qed
  obtain stop F2 st2 where run: "GptEntries d R cnt E W (of_nat s) ?Tab [0..<?per] Found st = (stop, F2, st2)"
    by (metis prod_cases3)
  have run': "GptEntries d R cnt E W (of_nat s) ?Tab [?per - ?per..<?per] Found st = (stop, F2, st2)"
    using run by simp
  from GptEntries_extends [OF entries index Suc.prems(1) run' order_refl]
  have ex: "extends st st2 (gpt_keys m ?base (unat E) R (unat cnt) [s * ?per..<s * ?per + ?per]) stop" by simp
  have split: "[s * ?per..<S * ?per] = [s * ?per..<s * ?per + ?per] @ [(S - n) * ?per..<S * ?per]"
  proof -
    have "Suc s * ?per \<le> S * ?per" using s(1) by (intro mult_le_mono1) simp
    then show ?thesis using upt_add_eq_append [of "s * ?per" "Suc s * ?per" "S * ?per - Suc s * ?per"]
      by (simp add: s(2) add.commute)
  qed
  show ?case
  proof (cases stop)
    case True
    with Suc.prems(4) read run have "st' = st2" by (simp add: s(3))
    with ex True have "extends st st' (gpt_keys m ?base (unat E) R (unat cnt) [s * ?per..<s * ?per + ?per]) True"
      by simp
    from extends_more [OF this] show ?thesis
      unfolding s_def [symmetric] split gpt_keys_append by blast
  next
    case False
    with Suc.prems(4) read run have rest: "GptSectors d R lba cnt E W [S - n..<S] F2 st2 = (Found', st')"
      by (simp add: s(3))
    have ad: "adds d (F2 - Found) st st2" by (rule GptEntries_adds [OF Suc.prems(1) run])
    then have "Blocks st2 = Blocks st0" using Suc.prems(2) by (simp add: adds_def)
    from Suc.IH [OF adds_ok [OF ad] this _ rest] Suc.prems(3) obtain stop'
      where "extends st2 st' (gpt_keys m ?base (unat E) R (unat cnt) [(S - n) * ?per..<S * ?per]) stop'" by auto
    moreover have "stop = False" using False by simp
    ultimately show ?thesis using extends_trans [OF ex [unfolded \<open>stop = False\<close>]]
      unfolding s_def [symmetric] split gpt_keys_append by blast
  qed
qed
text \<open>A header the scanner accepts.\<close>
definition gpt_header_ok :: "u8 list \<Rightarrow> u32 \<Rightarrow> bool" where
  "gpt_header_ok H R \<longleftrightarrow> TextEq H 0 ''EFI PART'' \<and> 128 \<le> Le32 H 84 \<and> Le32 H 84 \<le> R * 512 \<and>
     R * 512 mod Le32 H 84 = 0 \<and> Le32 H 80 \<noteq> 0 \<and> Le32 H 80 \<le> 16384"

text \<open>The sectors a table of \<open>cnt\<close> entries takes when a sector holds \<open>per\<close>.\<close>
definition gpt_sectors :: "nat \<Rightarrow> nat \<Rightarrow> nat" where
  "gpt_sectors cnt per = (cnt + per - 1) div per"

lemma gpt_sectors_bounds:
  assumes "0 < per"
  shows "cnt \<le> gpt_sectors cnt per * per" "gpt_sectors cnt per * per \<le> cnt + per - 1"
  using div_mult_mod_eq [of "cnt + per - 1" per] mod_less_divisor [OF assms, of "cnt + per - 1"] assms
  unfolding gpt_sectors_def by linarith+

text \<open>C10: The GPT scanner implements the table: on a device that is up, with a valid header in its
  second sector, it adds exactly the used entries of the table, in table order, with the number, the
  start, the length (in 512-byte sectors) and the type that the table gives them; it can stop early only
  when the partition table or the memory is used up; and it returns how many it added.\<close>
theorem ScanGpt_correct:
  assumes ok: "storage_ok st" and disk: "device_honest (Blocks st) d m" "device_up (Blocks st) d sz"
    and R: "unat R \<in> {1, 2, 4, 8}" and sz: "2 * unat R \<le> sz"
    and H: "H = media_bytes m (unat R * 512) (unat R * 512)" "gpt_header_ok H R"
    and fits: "(unat (Le64 H 72) + gpt_sectors (unat (Le32 H 80)) (unat R * 512 div unat (Le32 H 84))) * unat R \<le> sz"
    and run: "ScanGpt d R st = (n, st')"
  shows "\<exists>new. Parts st' = Parts st @ new \<and> n = int (length new) \<and>
    map part_key new = take (length new)
      (gpt_keys m (unat (Le64 H 72) * unat R * 512) (unat (Le32 H 84)) R (unat (Le32 H 80)) [0..<unat (Le32 H 80)]) \<and>
    (exhausted st' \<or> length new = length
      (gpt_keys m (unat (Le64 H 72) * unat R * 512) (unat (Le32 H 84)) R (unat (Le32 H 80)) [0..<unat (Le32 H 80)]))"
proof -
  let ?lba = "Le64 H 72" and ?cnt = "Le32 H 80" and ?E = "Le32 H 84" and ?W = "R * 512 div Le32 H 84"
  let ?S = "gpt_sectors (unat ?cnt) (unat ?W)"
    and ?keys = "gpt_keys m (unat ?lba * unat R * 512) (unat ?E) R (unat ?cnt)"
  have NB: "unat (R * 512 :: u32) = unat R * 512"
    using R by (subst unat_mult_nowrap) auto
  have E: "128 \<le> unat ?E" "unat ?E \<le> unat R * 512" "(unat R * 512) mod unat ?E = 0"
    and cnt: "unat ?cnt \<le> 16384"
    using H(2) NB unat_mod_word [of "R * 512" ?E]
    by (simp_all add: gpt_header_ok_def word_le_nat_alt)
  have W: "unat ?W = unat R * 512 div unat ?E" by (simp add: unat_div_word NB)
  have whole: "unat ?W * unat ?E = unat R * 512" unfolding W using E(3) by auto
  then have Wpos: "0 < unat ?W" using R by (cases "unat ?W") auto
  have "unat ?W * 128 \<le> unat R * 512" using mult_le_mono2 [OF E(1), of "unat ?W"] whole by simp
  then have Wle: "unat ?W \<le> 32" using R by auto
  have Sle: "?S * unat ?W \<le> 16384 + 32" "unat ?cnt \<le> ?S * unat ?W"
    using gpt_sectors_bounds [OF Wpos, of "unat ?cnt"] cnt Wle by simp_all
  have "unat (?cnt + ?W - 1) = unat ?cnt + unat ?W - 1"
  proof -
    have s: "unat (?cnt + ?W) = unat ?cnt + unat ?W" using cnt Wle by (intro unat_add_nowrap) simp
    have "1 \<le> ?cnt + ?W" unfolding word_le_nat_alt s using Wpos by simp
    then show ?thesis by (simp add: unat_sub_nowrap s)
  qed
  then have S: "unat ((?cnt + ?W - 1) div ?W) = ?S" by (simp add: unat_div_word gpt_sectors_def)
  have "ReadNative (BlockReadFrom (Blocks st)) d 1 R = Some (media_bytes m (unat (1 :: u64) * unat R * 512) (unat R * 512))"
    by (rule ReadNative_up [OF disk]) (use sz in simp)
  with H(1) have read: "ReadNative (BlockReadFrom (Blocks st)) d 1 R = Some H" by simp
  from H(2) have "\<not> (?E < 128 \<or> ?E > R * 512 \<or> R * 512 mod ?E \<noteq> 0 \<or> ?cnt = 0 \<or> ?cnt > 16384)" "TextEq H 0 ''EFI PART''"
    by (auto simp: gpt_header_ok_def not_less)
  with run have scan: "GptSectors d R ?lba ?cnt ?E ?W [0..<?S] 0 st = (n, st')"
    unfolding ScanGpt_def read MAX_GPT_ENTRIES_def option.case Let_def S by simp
  have fit: "(unat ?lba + ?S) * unat R \<le> sz" using fits by (simp add: W)
  moreover have "unat ?lba + ?S \<le> (unat ?lba + ?S) * unat R" using R by auto
  moreover have "sz \<le> 2 ^ 64" using disk(2) by (simp add: device_up_def)
  ultimately have "unat ?lba + ?S \<le> 2 ^ 64" by linarith
  from GptSectors_extends [OF disk fit this _ whole ok refl order_refl, of ?cnt 0 n st'] scan Sle
  obtain stop where ex: "extends st st' (?keys [0..<?S * unat ?W]) stop" by auto
  have "[0..<?S * unat ?W] = [0..<unat ?cnt] @ [unat ?cnt..<?S * unat ?W]"
    using upt_add_eq_append [of 0 "unat ?cnt" "?S * unat ?W - unat ?cnt"] Sle(2) by simp
  then have keys: "?keys [0..<?S * unat ?W] = ?keys [0..<unat ?cnt]"
    by (simp only: gpt_keys_append gpt_keys_beyond [OF order_refl] append_Nil2)
  from ScanGpt_adds [OF ok run] obtain new' where "Parts st' = Parts st @ new'" "int (length new') = n"
    by (auto simp: adds_def)
  with ex show ?thesis unfolding keys extends_def by (cases stop) auto
qed
text \<open>A medium with a table of one entry: header in sector 1, table in sector 2, a partition on
  sectors 3 to 5.\<close>
definition gpt_medium :: medium where
  "gpt_medium a = (if 512 \<le> a \<and> a < 520 then lit ''EFI PART'' ! (a - 512)
     else if a = 512 + 72 then 2 else if a = 512 + 80 then 1 else if a = 512 + 84 then 128
     else if a = 1024 then 0x28 else if a = 1024 + 32 then 3 else if a = 1024 + 40 then 5 else 0)"

definition gpt_device :: block_device where
  "gpt_device = tiny_device\<lparr>Read := Some (\<lambda>c l n. Some (media_bytes gpt_medium (unat l * 512) (unat n * 512)))\<rparr>"

definition gpt_storage :: storage where
  "gpt_storage = boot_storage\<lparr>Blocks := [gpt_device]\<rparr>"

lemma gpt_device_simps:
  "SectorSize gpt_device = 512" "MaxCount gpt_device = 8" "SectorCount gpt_device = 0" "Online gpt_device"
  "Name gpt_device = lit ''ram0''" "Read gpt_device \<noteq> None"
  "DeviceRead gpt_device l n = Some (media_bytes gpt_medium (unat l * 512) (unat n * 512))"
  by (simp_all add: gpt_device_def tiny_device_def DeviceRead_def)

lemma gpt_device_up:
  "device_honest [gpt_device] 0 gpt_medium" "device_up [gpt_device] 0 (2 ^ 64)"
proof -
  have idx: "\<not> bad_index [gpt_device] 0" and dev: "[gpt_device] ! nat 0 = gpt_device"
    by (simp_all add: bad_index_def)
  have ok: "device_ok gpt_device" by (simp add: device_ok_def ValidSectorSize_def gpt_device_simps)
  have drv: "drv_ok gpt_device gpt_medium" by (simp add: drv_ok_def gpt_device_simps)
  have up: "drv_healthy gpt_device" by (simp add: drv_healthy_def gpt_device_simps)
  show "device_honest [gpt_device] 0 gpt_medium" unfolding device_honest_def dev using ok drv by blast
  have size: "device_size gpt_device = 2 ^ 64" by (simp add: device_size_def gpt_device_simps)
  show "device_up [gpt_device] 0 (2 ^ 64)"
    unfolding device_up_def device_healthy_def dev using idx ok up by (simp add: size gpt_device_simps)
qed

lemma gpt_storage_ok: "storage_ok gpt_storage"
proof -
  have "entry_ok gpt_device"
    unfolding entry_ok_def using gpt_device_simps(6) by (simp add: gpt_device_simps ValidSectorSize_def NAME_SIZE_def lit_def)
  then have "blocks_ok [gpt_device]" by (simp add: blocks_ok_def MAX_BLOCK_DEVICES_def)
  with boot_storage_ok show ?thesis by (simp add: gpt_storage_def storage_ok_def part_pages_def)
qed

lemma gpt_header:
  "Le64 (media_bytes gpt_medium 512 512) 72 = 2" "Le32 (media_bytes gpt_medium 512 512) 80 = 1"
  "Le32 (media_bytes gpt_medium 512 512) 84 = 128" "TextEq (media_bytes gpt_medium 512 512) 0 ''EFI PART''"
  by (simp_all add: Le64_def Le32_def gpt_medium_def) (auto simp: TextEq_def list_all_iff gpt_medium_def eval_nat_numeral)

lemma ScanGpt_correct_witness:
  "\<exists>new. Parts (snd (ScanGpt 0 1 gpt_storage)) = new \<and>
     map part_key new = take (length new) [(1, 3, 3, media_bytes gpt_medium 1024 16)] \<and>
     (exhausted (snd (ScanGpt 0 1 gpt_storage)) \<or> length new = 1)"
proof -
  let ?H = "media_bytes gpt_medium 512 512"
  obtain n st' where run: "ScanGpt 0 1 gpt_storage = (n, st')" by (cases "ScanGpt 0 1 gpt_storage")
  have dev: "Blocks gpt_storage = [gpt_device]" "Parts gpt_storage = []"
    by (simp_all add: gpt_storage_def boot_storage_def)
  have H: "gpt_header_ok ?H 1" by (simp add: gpt_header_ok_def gpt_header)
  have fits: "(unat (Le64 ?H 72) + gpt_sectors (unat (Le32 ?H 80)) (unat (1 :: u32) * 512 div unat (Le32 ?H 84)))
      * unat (1 :: u32) \<le> 2 ^ 64"
    by (simp add: gpt_header gpt_sectors_def)
  have keys: "gpt_keys gpt_medium (unat (Le64 ?H 72) * unat (1 :: u32) * 512) (unat (Le32 ?H 84)) 1
      (unat (Le32 ?H 80)) [0..<unat (Le32 ?H 80)] = [(1, 3, 3, media_bytes gpt_medium 1024 16)]"
  proof -
    have "\<not> EntryEmpty (media_bytes gpt_medium 1024 128)"
      unfolding EntryEmpty_def list_all_iff by (auto simp: gpt_medium_def intro!: bexI [of _ 0])
    moreover have "Le64 (media_bytes gpt_medium 1024 128) 32 = 3" "Le64 (media_bytes gpt_medium 1024 128) 40 = 5"
      by (simp_all add: Le64_def Le32_def gpt_medium_def)
    ultimately show ?thesis
      by (simp add: gpt_header gpt_keys_def gpt_key_def gpt_used_def gpt_entry_def bsub_media_bytes)
  qed
  from ScanGpt_correct [OF gpt_storage_ok _ _ _ _ _ H fits run, of gpt_medium, unfolded keys]
  show ?thesis using gpt_device_up by (simp add: dev run)
qed

end
