(* ===== verification/Fs.thy ===== *)
theory Fs
  imports Gpt
begin

text \<open>
  The file system layer (\<open>kernel/fs.c\<close>): the table of mounted volumes, the splitting of paths into
  components, the working directory, and resolving a path by one lookup per component. The state extends
  the one of the partition scanner. The static component array is passed as a list.
\<close>

section \<open>Data\<close>

definition FS_OK :: int where "FS_OK = 1"
definition FS_ERR_NOVOLUME :: int where "FS_ERR_NOVOLUME = -1"
definition FS_ERR_NOTFOUND :: int where "FS_ERR_NOTFOUND = -2"
definition FS_ERR_NOTDIR :: int where "FS_ERR_NOTDIR = -3"
definition FS_ERR_IO :: int where "FS_ERR_IO = -4"
definition FS_ERR_PATH :: int where "FS_ERR_PATH = -5"
definition FS_ERR_UNSUPPORTED :: int where "FS_ERR_UNSUPPORTED = -6"

lemmas fs_codes = FS_OK_def FS_ERR_NOVOLUME_def FS_ERR_NOTFOUND_def FS_ERR_NOTDIR_def FS_ERR_IO_def
  FS_ERR_PATH_def FS_ERR_UNSUPPORTED_def

definition FS_PATH_MAX :: nat where "FS_PATH_MAX = 512"
definition MAX_COMPONENTS :: nat where "MAX_COMPONENTS = 128"
definition VOL_NAME_SIZE :: nat where "VOL_NAME_SIZE = 24"
definition MAX_VOLUME_PAGES :: nat where "MAX_VOLUME_PAGES = 64"

text \<open>\<open>sizeof(FS_VOLUME)\<close> is 104, so a page of 4096 bytes holds 39 of them.\<close>
definition VOLUMES_PER_PAGE :: nat where "VOLUMES_PER_PAGE = 39"

record fs_volume =
  VolName :: cstring
  VolPartition :: int
  VolFat :: fat_volume

record fs_node =
  NodeVolume :: int
  NodeIsDir :: bool
  NodeEntry :: fat_entry
  NodePath :: cstring

record filesys = storage +
  Volumes :: "fs_volume list"
  VolumePages :: "nat \<Rightarrow> u64"
  PartCursor :: nat
  CwdVolume :: int
  CwdPathText :: cstring

text \<open>A slot of a fresh page. No field of it is read before a mount has set it.\<close>
definition blank_volume :: fat_volume where
  "blank_volume = \<lparr>VolDevice = 0, StartLba = 0, SectorsPerCluster = 0, FatStart = 0, FirstData = 0,
     RootCluster = 0, SectorBuffer = 0, FatBuffer = 0, FatBufferData = [], FatBufferLba = 0,
     FatBufferValid = False, CursorFirst = 0, CursorIndex = 0, CursorCluster = 0\<rparr>"

definition CopyText :: "cstring \<Rightarrow> nat \<Rightarrow> cstring" where
  "CopyText Src mx = copy_loop Src (mx - 1)"

section \<open>Mounting\<close>

text \<open>The slot for the next volume: its page is there already, it is allocated now, or there is none.\<close>
definition VolumeNext :: "'a filesys_scheme \<Rightarrow> bool \<times> 'a filesys_scheme" where
  "VolumeNext st =
     (let Page = length (Volumes st) div VOLUMES_PER_PAGE
      in if Page \<ge> MAX_VOLUME_PAGES then (False, st)
      else if VolumePages st Page \<noteq> 0 then (True, st)
      else let (a, s) = AllocPage (Phys st);
               st = st\<lparr>Phys := s, VolumePages := (VolumePages st)(Page := a)\<rparr>
           in (a \<noteq> 0, st))"

lemma VolumeNext_frame [frame]:
  "VolumeNext st = (ok, st') \<Longrightarrow> Parts st' = Parts st \<and> PartCursor st' = PartCursor st \<and> Blocks st' = Blocks st \<and>
     Volumes st' = Volumes st \<and> CwdVolume st' = CwdVolume st \<and> CwdPathText st' = CwdPathText st"
  by (auto simp: VolumeNext_def Let_def split: if_splits prod.splits)

text \<open>The loop of \<open>MountNewPartitions\<close>; the first argument is \<open>Added\<close>.\<close>
function MountLoop :: "int \<Rightarrow> 'a filesys_scheme \<Rightarrow> int \<times> 'a filesys_scheme" where
  "MountLoop Added st =
     (if \<not> int (PartCursor st) < PartCount st then (Added, st)
      else let i = PartCursor st; st = st\<lparr>PartCursor := Suc i\<rparr>; P = Parts st ! i
      in if PartFs P \<noteq> FS_FAT32 then MountLoop Added st
      else case VolumeNext st of (slot, st) \<Rightarrow>
        if \<not> slot then (Added, st_log [lit ''FS: volume table full'' @ [10]] st)
        else case FatMount (BlockReadFrom (Blocks st)) (PartDevice P) (PartStart P) blank_volume (Phys st) of
          (mounted, V, s) \<Rightarrow>
            if \<not> mounted
            then MountLoop Added (st_log [lit ''FS: mount failed '', PartName P, [10]] (st\<lparr>Phys := s\<rparr>))
            else MountLoop (Added + 1) (st_log [lit ''FS: mounted '', PartName P, lit '' as FAT32 read-only'' @ [10]]
              (st\<lparr>Phys := s, Volumes := Volumes st @
                 [\<lparr>VolName = CopyText (PartName P) VOL_NAME_SIZE, VolPartition = int i, VolFat = V\<rparr>]\<rparr>)))"
  by pat_completeness auto

text \<open>Each round passes one partition, and none is added meanwhile.\<close>
termination
  by (relation "measure (\<lambda>(Added, st). length (Parts st) - PartCursor st)")
     (auto simp: PartCount_def st_log_def dest!: VolumeNext_frame [OF sym])

declare MountLoop.simps [simp del]

definition MountNewPartitions :: "'a filesys_scheme \<Rightarrow> int \<times> 'a filesys_scheme" where
  "MountNewPartitions st =
     (case MountLoop 0 st of (Added, st) \<Rightarrow>
        (Added, if Volumes st \<noteq> [] \<and> CwdVolume st < 0
                then st\<lparr>CwdVolume := 0, CwdPathText := [chr_code CHR ''/'']\<rparr> else st))"

definition FsInit :: "'a filesys_scheme \<Rightarrow> int \<times> 'a filesys_scheme" where
  "FsInit st =
     (let st = fold (\<lambda>d st. snd (PartScanDevice (int d) st)) [0..<length (Blocks st)] st;
          (_, st) = MountNewPartitions st
      in (int (length (Volumes st)), st))"

definition FsMountDevice :: "int \<Rightarrow> 'a filesys_scheme \<Rightarrow> int \<times> 'a filesys_scheme" where
  "FsMountDevice Device st = MountNewPartitions (snd (PartScanDevice Device st))"

definition FsVolumeCount :: "'a filesys_scheme \<Rightarrow> int" where
  "FsVolumeCount st = int (length (Volumes st))"

definition FsVolumeName :: "'a filesys_scheme \<Rightarrow> int \<Rightarrow> cstring" where
  "FsVolumeName st Index =
     (if Index < 0 \<or> Index \<ge> FsVolumeCount st then [] else VolName (Volumes st ! nat Index))"

definition FsVolumePartition :: "'a filesys_scheme \<Rightarrow> int \<Rightarrow> int" where
  "FsVolumePartition st Index =
     (if Index < 0 \<or> Index \<ge> FsVolumeCount st then -1 else VolPartition (Volumes st ! nat Index))"

section \<open>Paths\<close>

text \<open>The loop compares a stored name with a piece of the input, ignoring case; the piece is passed
  as a list of its own.\<close>
fun FindVolumeFrom :: "int \<Rightarrow> fs_volume list \<Rightarrow> cstring \<Rightarrow> int" where
  "FindVolumeFrom v [] Nm = -1"
| "FindVolumeFrom v (V # Vs) Nm =
     (if names_equal (VolName V) Nm then v else FindVolumeFrom (v + 1) Vs Nm)"

definition FindVolume :: "'a filesys_scheme \<Rightarrow> cstring \<Rightarrow> int" where
  "FindVolume st Nm = FindVolumeFrom 0 (Volumes st) Nm"

definition PartitionExists :: "'a storage_scheme \<Rightarrow> cstring \<Rightarrow> bool" where
  "PartitionExists st Nm \<longleftrightarrow> list_ex (\<lambda>P. names_equal (PartName P) Nm) (Parts st)"

definition is_slash :: "u8 \<Rightarrow> bool" where
  "is_slash c \<longleftrightarrow> c = chr_code CHR ''/'' \<or> c = chr_code (CHR 0x5C)"

definition PushComponent :: "cstring \<Rightarrow> cstring list \<Rightarrow> cstring list" where
  "PushComponent Text Components =
     (if length Components \<ge> MAX_COMPONENTS then Components
      else Components @ [take (min (length Text) (FAT_NAME_MAX - 1)) Text])"

text \<open>What the loop of \<open>SplitInto\<close> does with one run of characters between slashes.\<close>
definition StepComponent :: "cstring \<Rightarrow> cstring list \<Rightarrow> cstring list" where
  "StepComponent Start Components =
     (if Start = [] then Components
      else if Start = lit ''.'' then Components
      else if Start = lit ''..'' then (if Components \<noteq> [] then butlast Components else Components)
      else PushComponent Start Components)"

text \<open>A round of the loop consumes at least one character.\<close>
lemma split_consumes:
  "length (dropWhile (\<lambda>c. \<not> is_slash c) (dropWhile is_slash (c # cs))) < length (c # cs)"
proof (cases "is_slash c")
  case True
  then have "length (dropWhile (\<lambda>c. \<not> is_slash c) (dropWhile is_slash (c # cs))) \<le> length cs"
    using le_trans [OF length_dropWhile_le length_dropWhile_le] by simp
  then show ?thesis by simp
qed (simp add: length_dropWhile_le le_imp_less_Suc)

function SplitInto :: "cstring \<Rightarrow> cstring list \<Rightarrow> cstring list" where
  "SplitInto [] Components = Components"
| "SplitInto (c # cs) Components =
     (let P = dropWhile is_slash (c # cs);
          Start = takeWhile (\<lambda>c. \<not> is_slash c) P;
          P = dropWhile (\<lambda>c. \<not> is_slash c) P
      in SplitInto P (StepComponent Start Components))"
  by pat_completeness auto

termination
  by (relation "measure (\<lambda>(P, Components). length P)") (simp_all only: in_measure split_consumes prod.case wf_measure)

text \<open>The colon, if there is one before the first slash.\<close>
definition colon_prefix :: "cstring \<Rightarrow> cstring option" where
  "colon_prefix Input =
     (let H = takeWhile (\<lambda>c. \<not> is_slash c) Input
      in if chr_code CHR '':'' \<in> set H then Some (takeWhile (\<lambda>c. c \<noteq> chr_code CHR '':'') H) else None)"

text \<open>\<open>Inl\<close> is a negative status; \<open>Inr\<close> the volume and the components.\<close>
definition ParseInput :: "'a filesys_scheme \<Rightarrow> cstring \<Rightarrow> int + int \<times> cstring list" where
  "ParseInput st Input =
     (case colon_prefix Input of
        Some Nm \<Rightarrow>
          (let V = FindVolume st Nm
           in if V < 0
              then Inl (if PartitionExists st Nm then FS_ERR_UNSUPPORTED else FS_ERR_NOVOLUME)
              else Inr (V, SplitInto (drop (length Nm + 1) Input) []))
      | None \<Rightarrow>
          if Input \<noteq> [] \<and> is_slash (hd Input)
          then (if CwdVolume st < 0 then Inl FS_ERR_NOVOLUME else Inr (CwdVolume st, SplitInto Input []))
          else if CwdVolume st < 0 then Inl FS_ERR_NOVOLUME
          else Inr (CwdVolume st, SplitInto Input (SplitInto (CwdPathText st) [])))"

section \<open>Resolving\<close>

definition PushPath :: "cstring \<Rightarrow> cstring \<Rightarrow> cstring" where
  "PushPath Path Nm =
     (if length Path < FS_PATH_MAX - 2
      then let Path = Path @ [chr_code CHR ''/''] in Path @ copy_loop Nm (FS_PATH_MAX - 1 - length Path)
      else Path)"

fun ResolveLoop :: "reader \<Rightarrow> cstring list \<Rightarrow> fs_node \<Rightarrow> fat_volume \<Rightarrow> (int + fs_node) \<times> fat_volume" where
  "ResolveLoop rd [] Node Fat = (Inr Node, Fat)"
| "ResolveLoop rd (C # Cs) Node Fat =
     (if \<not> NodeIsDir Node then (Inl FS_ERR_NOTDIR, Fat)
      else case FatLookup rd Fat (EntryCluster (NodeEntry Node)) C of
        (None, Fat) \<Rightarrow> (Inl FS_ERR_NOTFOUND, Fat)
      | (Some Found, Fat) \<Rightarrow>
          ResolveLoop rd Cs (Node\<lparr>NodeEntry := Found,
            NodeIsDir := (EntryAttr Found AND FAT_ATTR_DIRECTORY \<noteq> 0),
            NodePath := PushPath (NodePath Node) (EntryName Found)\<rparr>) Fat)"

definition root_node :: "int \<Rightarrow> fat_volume \<Rightarrow> fs_node" where
  "root_node V Fat = \<lparr>NodeVolume = V, NodeIsDir = True,
     NodeEntry = \<lparr>EntryName = [], EntryAttr = FAT_ATTR_DIRECTORY, EntrySize = 0, EntryCluster = RootCluster Fat\<rparr>,
     NodePath = []\<rparr>"

text \<open>The FAT volume in a slot of the table, and writing it back.\<close>
definition FatOf :: "'a filesys_scheme \<Rightarrow> int \<Rightarrow> fat_volume" where
  "FatOf st V = VolFat (Volumes st ! nat V)"

definition SetFat :: "int \<Rightarrow> fat_volume \<Rightarrow> 'a filesys_scheme \<Rightarrow> 'a filesys_scheme" where
  "SetFat V Fat st = st\<lparr>Volumes := (Volumes st)[nat V := (Volumes st ! nat V)\<lparr>VolFat := Fat\<rparr>]\<rparr>"

definition FsResolve :: "cstring \<Rightarrow> 'a filesys_scheme \<Rightarrow> (int + fs_node) \<times> 'a filesys_scheme" where
  "FsResolve Input st =
     (case ParseInput st Input of
        Inl Status \<Rightarrow> (Inl Status, st)
      | Inr (V, Components) \<Rightarrow>
          (case ResolveLoop (BlockReadFrom (Blocks st)) Components (root_node V (FatOf st V)) (FatOf st V) of
             (Inl Status, Fat) \<Rightarrow> (Inl Status, SetFat V Fat st)
           | (Inr Node, Fat) \<Rightarrow>
               (Inr (if NodePath Node = [] then Node\<lparr>NodePath := [chr_code CHR ''/'']\<rparr> else Node),
                SetFat V Fat st)))"

definition FsList :: "fs_node \<Rightarrow> 'c dir_cb \<Rightarrow> 'c \<Rightarrow> 'a filesys_scheme \<Rightarrow> int \<times> 'c \<times> 'a filesys_scheme" where
  "FsList Dir cb ctx st =
     (if \<not> NodeIsDir Dir then (FS_ERR_NOTDIR, ctx, st)
      else case FatListDir (BlockReadFrom (Blocks st)) (FatOf st (NodeVolume Dir)) (EntryCluster (NodeEntry Dir)) cb ctx of
        (r, Fat, ctx) \<Rightarrow> (if r then FS_OK else FS_ERR_IO, ctx, SetFat (NodeVolume Dir) Fat st))"

definition FsRead :: "fs_node \<Rightarrow> u32 \<Rightarrow> u32 \<Rightarrow> 'a filesys_scheme \<Rightarrow> u32 \<times> u8 list \<times> 'a filesys_scheme" where
  "FsRead Node Offset Len st =
     (if NodeIsDir Node then (0, [], st)
      else case FatReadAt (BlockReadFrom (Blocks st)) (FatOf st (NodeVolume Node)) (NodeEntry Node) Offset Len of
        (don, out, Fat) \<Rightarrow> (don, out, SetFat (NodeVolume Node) Fat st))"

definition FsChdir :: "cstring \<Rightarrow> 'a filesys_scheme \<Rightarrow> int \<times> 'a filesys_scheme" where
  "FsChdir Input st =
     (case FsResolve Input st of
        (Inl Status, st) \<Rightarrow> (Status, st)
      | (Inr Node, st) \<Rightarrow>
          if \<not> NodeIsDir Node then (FS_ERR_NOTDIR, st)
          else (FS_OK, st\<lparr>CwdVolume := NodeVolume Node, CwdPathText := CopyText (NodePath Node) FS_PATH_MAX\<rparr>))"

definition FsHasCwd :: "'a filesys_scheme \<Rightarrow> bool" where
  "FsHasCwd st \<longleftrightarrow> CwdVolume st \<ge> 0"

definition FsCwdVolume :: "'a filesys_scheme \<Rightarrow> cstring" where
  "FsCwdVolume st = (if CwdVolume st \<ge> 0 then VolName (Volumes st ! nat (CwdVolume st)) else [])"

definition FsErrorText :: "int \<Rightarrow> string" where
  "FsErrorText Code =
     (if Code = FS_ERR_NOVOLUME then ''no such volume or no volume selected''
      else if Code = FS_ERR_NOTFOUND then ''no such file or directory''
      else if Code = FS_ERR_NOTDIR then ''not a directory''
      else if Code = FS_ERR_IO then ''read error''
      else if Code = FS_ERR_PATH then ''bad path''
      else if Code = FS_ERR_UNSUPPORTED then ''filesystem is not supported yet''
      else ''error'')"
section \<open>Paths as lists of names\<close>

text \<open>A path cut at every slash, without the empty pieces.\<close>
fun split_slash :: "cstring \<Rightarrow> cstring list" where
  "split_slash [] = [[]]"
| "split_slash (c # cs) =
     (if is_slash c then [] # split_slash cs else (c # hd (split_slash cs)) # tl (split_slash cs))"

definition pieces :: "cstring \<Rightarrow> cstring list" where
  "pieces P = filter (\<lambda>x. x \<noteq> []) (split_slash P)"

lemma split_slash_run:
  "\<forall>c \<in> set xs. \<not> is_slash c \<Longrightarrow> split_slash (xs @ ys) = (xs @ hd (split_slash ys)) # tl (split_slash ys)"
proof (induction xs)
  case Nil
  then show ?case by (cases ys) simp_all
qed simp

lemma pieces_slash: "is_slash c \<Longrightarrow> pieces (c # cs) = pieces cs"
  by (simp add: pieces_def)

lemma pieces_dropWhile: "pieces (dropWhile is_slash P) = pieces P"
  by (induction P) (simp_all add: pieces_slash)

lemma split_slash_boundary:
  "ys = [] \<or> is_slash (hd ys) \<Longrightarrow> hd (split_slash ys) = [] \<and> filter (\<lambda>x. x \<noteq> []) (tl (split_slash ys)) = pieces ys"
  by (cases ys) (auto simp: pieces_def)

lemma pieces_run:
  assumes "\<forall>c \<in> set xs. \<not> is_slash c" "ys = [] \<or> is_slash (hd ys)"
  shows "pieces (xs @ ys) = (if xs = [] then [] else [xs]) @ pieces ys"
  using split_slash_boundary [OF assms(2)]
  unfolding pieces_def [of "xs @ ys"] split_slash_run [OF assms(1)] by simp

text \<open>The scanning loop is the fold of one step per piece.\<close>
lemma SplitInto_pieces: "SplitInto P Components = fold StepComponent (pieces P) Components"
proof (induction P Components rule: SplitInto.induct)
  case (1 Components)
  then show ?case by (simp add: pieces_def)
next
  case (2 c cs Components)
  let ?D = "dropWhile is_slash (c # cs)"
  let ?S = "takeWhile (\<lambda>c. \<not> is_slash c) ?D" and ?R = "dropWhile (\<lambda>c. \<not> is_slash c) ?D"
  have boundary: "?R = [] \<or> is_slash (hd ?R)" using hd_dropWhile [of "\<lambda>c. \<not> is_slash c" ?D] by blast
  have "pieces (c # cs) = pieces ?D" by (rule pieces_dropWhile [symmetric])
  also have "\<dots> = pieces (?S @ ?R)" by (simp only: takeWhile_dropWhile_id)
  also have "\<dots> = (if ?S = [] then [] else [?S]) @ pieces ?R"
    by (rule pieces_run [OF _ boundary]) (auto dest: set_takeWhileD)
  finally have eq: "pieces (c # cs) = (if ?S = [] then [] else [?S]) @ pieces ?R" .
  have "SplitInto (c # cs) Components = SplitInto ?R (StepComponent ?S Components)"
    by (simp only: SplitInto.simps Let_def)
  also have "\<dots> = fold StepComponent (pieces ?R) (StepComponent ?S Components)"
    by (rule "2.IH" [OF refl refl refl])
  also have "\<dots> = fold StepComponent (pieces (c # cs)) Components"
    unfolding eq by (simp add: StepComponent_def)
  finally show ?case .
qed

text \<open>A name that can stand in a path, and a resolved list of names.\<close>
definition plain_name :: "cstring \<Rightarrow> bool" where
  "plain_name x \<longleftrightarrow> x \<noteq> [] \<and> x \<noteq> lit ''.'' \<and> x \<noteq> lit ''..'' \<and> length x \<le> 255 \<and> (\<forall>c \<in> set x. \<not> is_slash c)"

definition normal :: "cstring list \<Rightarrow> bool" where
  "normal xs \<longleftrightarrow> length xs \<le> MAX_COMPONENTS \<and> (\<forall>x \<in> set xs. plain_name x)"

definition join :: "cstring list \<Rightarrow> cstring" where
  "join xs = concat (map (\<lambda>x. chr_code CHR ''/'' # x) xs)"

lemma slash_is_slash [simp]: "is_slash 47"
  by (simp add: is_slash_def)

lemma join_boundary: "join xs = [] \<or> is_slash (hd (join xs))"
  by (cases xs) (simp_all add: join_def)

lemma pieces_join: "\<forall>x \<in> set xs. plain_name x \<Longrightarrow> pieces (join xs) = xs"
proof (induction xs)
  case Nil
  then show ?case by (simp add: join_def pieces_def)
next
  case (Cons x xs)
  have "pieces (join (x # xs)) = pieces (x @ join xs)"
    by (simp add: join_def pieces_slash)
  also have "\<dots> = [x] @ pieces (join xs)"
    using Cons.prems pieces_run [OF _ join_boundary, of x xs] by (simp add: plain_name_def)
  finally show ?case using Cons by simp
qed

lemma StepComponent_plain:
  "plain_name x \<Longrightarrow> length xs < MAX_COMPONENTS \<Longrightarrow> StepComponent x xs = xs @ [x]"
  by (auto simp: StepComponent_def plain_name_def PushComponent_def FAT_NAME_MAX_def)

lemma fold_plain: "normal (ys @ xs) \<Longrightarrow> fold StepComponent xs ys = ys @ xs"
proof (induction xs arbitrary: ys)
  case (Cons x xs)
  then have "StepComponent x ys = ys @ [x]" by (intro StepComponent_plain) (simp_all add: normal_def)
  with Cons show ?case by simp
qed simp

lemma SplitInto_join: "normal xs \<Longrightarrow> SplitInto (join xs) [] = xs"
  using fold_plain [of "[]" xs] by (simp add: SplitInto_pieces pieces_join normal_def)

lemma pieces_no_slash: "x \<in> set (pieces P) \<Longrightarrow> x \<noteq> [] \<and> (\<forall>c \<in> set x. \<not> is_slash c)"
proof -
  have ne: "split_slash P \<noteq> []" for P by (cases P) simp_all
  have "\<forall>x \<in> set (split_slash P). \<forall>c \<in> set x. \<not> is_slash c"
  proof (induction P)
    case (Cons a P)
    then show ?case using ne [of P] by (cases "split_slash P") auto
  qed simp
  then show "x \<in> set (pieces P) \<Longrightarrow> x \<noteq> [] \<and> (\<forall>c \<in> set x. \<not> is_slash c)" by (auto simp: pieces_def)
qed

lemma StepComponent_normal:
  assumes "normal xs" "x \<noteq> []" "\<forall>c \<in> set x. \<not> is_slash c"
  shows "normal (StepComponent x xs)"
proof -
  have "plain_name (take 255 x)" if "x \<noteq> lit ''.''" "x \<noteq> lit ''..''"
  proof -
    have "take 255 x \<noteq> lit s" if "length s < 255" "x \<noteq> lit s" for s
    proof
      assume "take 255 x = lit s"
      moreover from this have "length (take 255 x) < 255" using that(1) by (simp add: lit_def)
      then have "take 255 x = x" by simp
      ultimately show False using that(2) by simp
    qed
    from this [of "''.''"] this [of "''..''"] that assms(2,3) show ?thesis
      by (auto simp: plain_name_def dest: in_set_takeD)
  qed
  then show ?thesis using assms(1)
    by (auto simp: StepComponent_def PushComponent_def normal_def FAT_NAME_MAX_def min_def dest: in_set_butlastD)
qed

lemma SplitInto_normal: "normal xs \<Longrightarrow> normal (SplitInto P xs)"
proof -
  have "normal xs \<Longrightarrow> \<forall>x \<in> set ps. x \<noteq> [] \<and> (\<forall>c \<in> set x. \<not> is_slash c) \<Longrightarrow> normal (fold StepComponent ps xs)"
    for ps
    by (induction ps arbitrary: xs) (simp_all add: StepComponent_normal)
  then show "normal xs \<Longrightarrow> normal (SplitInto P xs)"
    using pieces_no_slash by (simp add: SplitInto_pieces)
qed

text \<open>C13: Splitting a path: the character loop does one step per non-empty piece between slashes
  (of either kind), dot and dot-dot included; whatever the input, the result is a list of at most 128 plain
  names, none of them longer than 255 characters; and writing such a list out as a path and splitting it
  again gives it back.\<close>
theorem SplitInto_correct:
  "SplitInto P xs = fold StepComponent (pieces P) xs \<and> normal (SplitInto P []) \<and>
   SplitInto (join (SplitInto P [])) [] = SplitInto P []"
proof -
  have "normal (SplitInto P [])" by (rule SplitInto_normal) (simp add: normal_def)
  with SplitInto_join [OF this] show ?thesis by (simp add: SplitInto_pieces)
qed

end
