(* ===== verification/FsCorrect.thy ===== *)
theory FsCorrect
  imports Fs
begin

text \<open>
  The file system layer against its specification. A path stands for a walk over the directory entries
  on the medium; \<open>FsResolve\<close> computes that walk, whatever the FAT caches hold. The path it reports
  is canonical: resolved again, it leads to the same node. The invariant of the volume table and of the
  working directory is kept by every operation.
\<close>

section \<open>The walk over the medium\<close>

definition entry_dir :: "fat_entry \<Rightarrow> bool" where
  "entry_dir e \<longleftrightarrow> EntryAttr e AND FAT_ATTR_DIRECTORY \<noteq> 0"

definition named :: "medium \<Rightarrow> fat_volume \<Rightarrow> fat_entry \<Rightarrow> cstring \<Rightarrow> fat_entry option" where
  "named m V e C = find (\<lambda>f. map lower (EntryName f) = map lower C) (dir_entries m V (EntryCluster e))"

text \<open>From a node, follow the names; the result is the last entry, whether it is a directory, and
  the names as the medium spells them.\<close>
fun walk :: "medium \<Rightarrow> fat_volume \<Rightarrow> cstring list \<Rightarrow> bool \<Rightarrow> fat_entry \<Rightarrow> cstring list
    \<Rightarrow> int + bool \<times> fat_entry \<times> cstring list" where
  "walk m V [] d e names = Inr (d, e, names)"
| "walk m V (C # Cs) d e names =
     (if \<not> d then Inl FS_ERR_NOTDIR
      else case named m V e C of None \<Rightarrow> Inl FS_ERR_NOTFOUND
        | Some f \<Rightarrow> walk m V Cs (entry_dir f) f (names @ [EntryName f]))"

text \<open>The directories the walk searches lie on the device.\<close>
fun walk_within :: "medium \<Rightarrow> fat_volume \<Rightarrow> nat \<Rightarrow> cstring list \<Rightarrow> bool \<Rightarrow> fat_entry \<Rightarrow> bool" where
  "walk_within m V sz [] d e = True"
| "walk_within m V sz (C # Cs) d e =
     (d \<longrightarrow> dir_within m V (EntryCluster e) MAX_CHAIN sz \<and>
        (case named m V e C of None \<Rightarrow> True | Some f \<Rightarrow> walk_within m V sz Cs (entry_dir f) f))"

definition node_of :: "int \<Rightarrow> bool \<times> fat_entry \<times> cstring list \<Rightarrow> fs_node" where
  "node_of v r = (case r of (d, e, names) \<Rightarrow>
     \<lparr>NodeVolume = v, NodeIsDir = d, NodeEntry = e, NodePath = fold (\<lambda>n p. PushPath p n) names []\<rparr>)"

lemma named_core:
  assumes "core V' = core V"
  shows "named m V' e C = named m V e C"
  by (simp add: named_def dir_entries_def chain_slots_core [OF assms])

lemma walk_core:
  assumes "core V' = core V"
  shows "walk m V' Cs d e names = walk m V Cs d e names"
  by (induction Cs arbitrary: d e names) (simp_all add: named_core [OF assms] cong: option.case_cong)

lemma walk_within_core:
  assumes "core V' = core V"
  shows "walk_within m V' sz Cs d e = walk_within m V sz Cs d e"
  by (induction Cs arbitrary: d e) (simp_all add: named_core [OF assms] dir_within_core [OF assms] cong: option.case_cong)

lemma lookup_step:
  assumes V: "volume_ok b m V" "device_up b (VolDevice V) sz" and dir: "dir_within m V c MAX_CHAIN sz"
    and run: "FatLookup (BlockReadFrom b) V c Want = (Found, V')"
  shows "volume_ok b m V'" "core V' = core V" "device_up b (VolDevice V') sz"
    "Found = find (\<lambda>e. map lower (EntryName e) = map lower Want) (dir_entries m V c)"
proof -
  have h: "device_honest b (VolDevice V) m" "vol_ok V" "cache_ok m V" "cursor_ok m V"
    and up: "device_healthy b (VolDevice V) sz" "sz \<le> 2 ^ 64"
    using V by (simp_all add: volume_ok_def device_up_def)
  note spec = block.FatLookup_spec [OF h(1-3) up dir run]
  from spec show core: "core V' = core V" by blast
  from spec h show "volume_ok b m V'" by (simp add: volume_ok_def core_cong [OF core])
  from V(2) show "device_up b (VolDevice V') sz" by (simp add: core_cong [OF core])
  from spec show "Found = find (\<lambda>e. map lower (EntryName e) = map lower Want) (dir_entries m V c)" by blast
qed

text \<open>The loop of \<open>FsResolve\<close> is the walk.\<close>
lemma ResolveLoop_walk:
  "volume_ok b m V \<Longrightarrow> device_up b (VolDevice V) sz \<Longrightarrow> walk_within m V sz Cs d e \<Longrightarrow>
   ResolveLoop (BlockReadFrom b) Cs (node_of v (d, e, names)) V = (r, V') \<Longrightarrow>
   volume_ok b m V' \<and> core V' = core V \<and> r = map_sum id (node_of v) (walk m V Cs d e names)"
proof (induction Cs arbitrary: V d e names)
  case Nil
  then show ?case by auto
next
  case (Cons C Cs)
  show ?case
  proof (cases d)
    case False
    with Cons.prems show ?thesis by (auto simp: node_of_def)
  next
    case True
    obtain Found W where look: "FatLookup (BlockReadFrom b) V (EntryCluster e) C = (Found, W)"
      by (cases "FatLookup (BlockReadFrom b) V (EntryCluster e) C")
    have within: "dir_within m V (EntryCluster e) MAX_CHAIN sz" using Cons.prems(3) True by simp
    note step = lookup_step [OF Cons.prems(1,2) within look]
    have Found: "Found = named m V e C" unfolding step(4) named_def ..
    show ?thesis
    proof (cases Found)
      case None
      with Cons.prems(4) True look have "r = Inl FS_ERR_NOTFOUND" "V' = W" by (simp_all add: node_of_def)
      with step None Found True show ?thesis by simp
    next
      case (Some f)
      have "node_of v (entry_dir f, f, names @ [EntryName f]) =
          (node_of v (d, e, names))\<lparr>NodeEntry := f, NodeIsDir := (EntryAttr f AND FAT_ATTR_DIRECTORY \<noteq> 0),
            NodePath := PushPath (NodePath (node_of v (d, e, names))) (EntryName f)\<rparr>"
        by (simp add: node_of_def entry_dir_def)
      with Cons.prems(4) True look Some
      have rest: "ResolveLoop (BlockReadFrom b) Cs (node_of v (entry_dir f, f, names @ [EntryName f])) W = (r, V')"
        by (simp add: node_of_def)
      have "walk_within m W sz Cs (entry_dir f) f"
        using Cons.prems(3) True Found [symmetric] Some by (simp add: walk_within_core [OF step(2)])
      from Cons.IH [OF step(1,3) this rest] step(2) Found [symmetric] Some True show ?thesis
        by (simp add: walk_core [OF step(2)])
    qed
  qed
qed

section \<open>Canonical paths\<close>

lemma lower_fixed:
  assumes "\<not> (65 \<le> unat k \<and> unat k \<le> 90)" "\<not> (97 \<le> unat k \<and> unat k \<le> 122)"
  shows "lower c = k \<longleftrightarrow> c = k"
proof (cases "65 \<le> unat c \<and> unat c \<le> 90")
  case True
  then have "lower c = c + 32" by (simp add: lower_def word_le_nat_alt)
  moreover have "unat (c + 32) = unat c + 32" using True by (subst unat_add_nowrap) simp_all
  ultimately show ?thesis using True assms by auto
next
  case False
  then have "lower c = c" by (auto simp: lower_def word_le_nat_alt)
  then show ?thesis by simp
qed

lemma PushPath_length: "length p \<le> length (PushPath p n)"
  by (simp add: PushPath_def Let_def)

lemma PushPath_short: "length (PushPath p n) < 510 \<Longrightarrow> PushPath p n = p @ chr_code CHR ''/'' # n"
  by (auto simp: PushPath_def Let_def FS_PATH_MAX_def min_def split: if_splits)

lemma path_short:
  "length (fold (\<lambda>n p. PushPath p n) names p) < 510 \<Longrightarrow> fold (\<lambda>n p. PushPath p n) names p = p @ join names"
proof (induction names arbitrary: p)
  case (Cons n names)
  have mono: "length q \<le> length (fold (\<lambda>n p. PushPath p n) names q)" for q
    by (induction names arbitrary: q) (auto intro: le_trans [OF PushPath_length])
  have "length (PushPath p n) < 510" using mono [of "PushPath p n"] Cons.prems by simp
  then have push: "PushPath p n = p @ chr_code CHR ''/'' # n" by (rule PushPath_short)
  have "fold (\<lambda>n p. PushPath p n) names (PushPath p n) = PushPath p n @ join names"
    by (rule Cons.IH) (use Cons.prems in simp)
  then show ?case by (simp add: push join_def)
qed (simp add: join_def)

text \<open>Names that differ only in case have the same slashes and dots.\<close>
lemma slash_lower: "lower c = lower d \<Longrightarrow> is_slash c = is_slash d"
  using lower_fixed [of 47 c] lower_fixed [of 47 d] lower_fixed [of 92 c] lower_fixed [of 92 d]
  by (auto simp: is_slash_def)

lemma slashes_lower:
  "map lower x = map lower y \<Longrightarrow> (\<forall>c \<in> set x. \<not> is_slash c) = (\<forall>c \<in> set y. \<not> is_slash c)"
proof (induction x arbitrary: y)
  case (Cons c x)
  then obtain d z where y: "y = d # z" "lower c = lower d" "map lower x = map lower z" by (cases y) auto
  from Cons.IH [OF y(3)] slash_lower [OF y(2)] show ?case by (simp add: y(1))
qed simp

lemma dots_lower: "map lower x = map lower (replicate n 46) \<Longrightarrow> x = replicate n 46"
proof (induction n arbitrary: x)
  case (Suc n)
  then obtain c y where "x = c # y" "lower c = lower 46" "map lower y = map lower (replicate n 46)"
    by (cases x) auto
  with Suc.IH [of y] lower_fixed [of 46 c] lower_fixed [of 46 46] show ?case by simp
qed simp

lemma plain_name_lower:
  assumes "map lower x = map lower y" "plain_name y"
  shows "plain_name x"
proof -
  have len: "length x = length y" using map_eq_imp_length_eq [OF assms(1)] .
  have "\<forall>c \<in> set x. \<not> is_slash c" using slashes_lower [OF assms(1)] assms(2) unfolding plain_name_def by blast
  moreover have dots: "x \<noteq> replicate n 46" if "y \<noteq> replicate n 46" for n
    using dots_lower [of y n] that assms(1) by metis
  have "lit ''.'' = replicate 1 46" "lit ''..'' = replicate 2 46" by (simp_all add: lit_def numeral_2_eq_2)
  with dots assms(2) have "x \<noteq> lit ''.''" "x \<noteq> lit ''..''" unfolding plain_name_def by metis+
  moreover have "x \<noteq> []" "length x \<le> 255" using assms(2) len by (auto simp: plain_name_def)
  ultimately show ?thesis unfolding plain_name_def by blast
qed
lemma find_cong_key: "map lower C = map lower D \<Longrightarrow> named m V e C = named m V e D"
  by (simp add: named_def)

lemma named_name: "named m V e C = Some f \<Longrightarrow> map lower (EntryName f) = map lower C"
  by (auto simp: named_def find_Some_iff)

text \<open>The names a walk reports lead to the same place.\<close>
lemma walk_canonical:
  "walk m V Cs d e ns = Inr (d', e', ns') \<Longrightarrow>
   \<exists>names. ns' = ns @ names \<and> list_all2 (\<lambda>n C. map lower n = map lower C) names Cs \<and>
     walk m V names d e ns = Inr (d', e', ns') \<and> walk_within m V sz names d e = walk_within m V sz Cs d e"
proof (induction Cs arbitrary: d e ns)
  case (Cons C Cs)
  then obtain f where d: "d" and f: "named m V e C = Some f"
    and rest: "walk m V Cs (entry_dir f) f (ns @ [EntryName f]) = Inr (d', e', ns')"
    by (auto split: if_splits option.splits)
  have key: "named m V e (EntryName f) = Some f"
    using find_cong_key [OF named_name [OF f]] f by simp
  from Cons.IH [OF rest] obtain names where "ns' = (ns @ [EntryName f]) @ names"
    "list_all2 (\<lambda>n C. map lower n = map lower C) names Cs"
    "walk m V names (entry_dir f) f (ns @ [EntryName f]) = Inr (d', e', ns')"
    "walk_within m V sz names (entry_dir f) f = walk_within m V sz Cs (entry_dir f) f" by blast
  then show ?case
    by (intro exI [of _ "EntryName f # names"]) (simp add: d f key named_name [OF f])
qed simp

lemma normal_lower:
  assumes "list_all2 (\<lambda>n C. map lower n = map lower C) names Cs" "normal Cs"
  shows "normal names"
proof -
  have "plain_name n" if "n \<in> set names" for n
  proof -
    from that obtain i where i: "i < length names" "n = names ! i" by (auto simp: in_set_conv_nth)
    with assms(1) have "map lower n = map lower (Cs ! i)" "Cs ! i \<in> set Cs"
      by (simp_all add: list_all2_conv_all_nth)
    with assms(2) plain_name_lower show ?thesis unfolding normal_def by blast
  qed
  then show ?thesis using assms list_all2_lengthD [OF assms(1)] by (simp add: normal_def)
qed

section \<open>The invariant\<close>

text \<open>The devices are media; none answers beyond \<open>2 ^ 63\<close> sectors.\<close>
definition media_ok :: "blocks \<Rightarrow> (int \<Rightarrow> medium) \<Rightarrow> bool" where
  "media_ok b med \<longleftrightarrow> (\<forall>d. device_honest b d (med d)) \<and>
     (\<forall>d l. BlockReadFrom b d l 1 \<noteq> None \<longrightarrow> unat l < 2 ^ 63)"

definition slot_ok :: "blocks \<Rightarrow> (int \<Rightarrow> medium) \<Rightarrow> nat \<Rightarrow> fs_volume \<Rightarrow> bool" where
  "slot_ok b med n v \<longleftrightarrow> length (VolName v) \<le> 23 \<and> 0 \<le> VolPartition v \<and> VolPartition v < int n \<and>
     volume_ok b (med (VolDevice (VolFat v))) (VolFat v)"

definition mounts_ok :: "(int \<Rightarrow> medium) \<Rightarrow> 'a filesys_scheme \<Rightarrow> bool" where
  "mounts_ok med st \<longleftrightarrow> storage_ok st \<and> media_ok (Blocks st) med \<and> PartCursor st \<le> length (Parts st) \<and>
     length (Volumes st) \<le> 2496 \<and> (\<forall>v \<in> set (Volumes st). slot_ok (Blocks st) med (length (Parts st)) v) \<and>
     -1 \<le> CwdVolume st \<and> CwdVolume st < int (length (Volumes st)) \<and>
     (\<exists>rest. CwdPathText st = chr_code CHR ''/'' # rest) \<and> length (CwdPathText st) < FS_PATH_MAX"

text \<open>Between operations a working directory is selected exactly when there is a volume.\<close>
definition fs_ok :: "(int \<Rightarrow> medium) \<Rightarrow> 'a filesys_scheme \<Rightarrow> bool" where
  "fs_ok med st \<longleftrightarrow> mounts_ok med st \<and> (CwdVolume st < 0 \<longleftrightarrow> Volumes st = [])"

lemma volume_room: "length (xs :: 'b list) div 39 < 64 \<Longrightarrow> Suc (length xs) \<le> 2496"
  by linarith

lemma storage_ok_cong:
  "storage_ok st \<Longrightarrow> Blocks st' = Blocks st \<Longrightarrow> Parts st' = Parts st \<Longrightarrow> PartPages st' = PartPages st \<Longrightarrow>
   klog_ok (Log st') \<Longrightarrow> pmm_ok (Phys st') \<Longrightarrow> storage_ok st'"
  by (simp add: storage_ok_def part_pages_def)

lemma st_log_mounts: "mounts_ok med st \<Longrightarrow> mounts_ok med (st_log ss st)"
  by (auto simp: mounts_ok_def st_log_def storage_ok_def part_pages_def intro: klog_ok_KLogs)

lemma VolumeNext_mounts:
  assumes "mounts_ok med st" "VolumeNext st = (slot, st')"
  shows "mounts_ok med st'" "CwdVolume st' = CwdVolume st"
    "slot \<Longrightarrow> Suc (length (Volumes st')) \<le> 2496"
proof -
  obtain a s where alloc: "AllocPage (Phys st) = (a, s)" by (cases "AllocPage (Phys st)")
  have ok: "storage_ok st" using assms(1) by (simp add: mounts_ok_def)
  then have pmm: "pmm_ok (Phys st)" by (simp add: storage_ok_def)
  from alloc_contract [OF pmm alloc [unfolded alloc_eq]] have s: "pmm_ok s" by simp
  from assms(2) consider "st' = st" | "st' = st\<lparr>Phys := s, VolumePages := (VolumePages st)(length (Volumes st) div 39 := a)\<rparr>"
    by (auto simp: VolumeNext_def VOLUMES_PER_PAGE_def alloc Let_def split: if_splits)
  then show "mounts_ok med st'"
  proof cases
    case 2
    have "storage_ok st'" unfolding 2 by (rule storage_ok_cong [OF ok]) (use ok s in \<open>simp_all add: storage_ok_def\<close>)
    with assms(1) show ?thesis unfolding 2 by (simp add: mounts_ok_def)
  qed (use assms(1) in simp)
  from assms(2) show "CwdVolume st' = CwdVolume st"
    by (auto simp: VolumeNext_def alloc Let_def split: if_splits)
  show "slot \<Longrightarrow> Suc (length (Volumes st')) \<le> 2496"
    using assms(2) volume_room [of "Volumes st"]
    by (auto simp: VolumeNext_def VOLUMES_PER_PAGE_def MAX_VOLUME_PAGES_def alloc Let_def not_le split: if_splits)
qed
text \<open>What the mount loop does: it appends volumes, and leaves the partitions and the working directory.\<close>
definition mounts :: "int \<Rightarrow> 'a filesys_scheme \<Rightarrow> 'a filesys_scheme \<Rightarrow> bool" where
  "mounts n st st' \<longleftrightarrow> (\<exists>new. Volumes st' = Volumes st @ new \<and> int (length new) = n) \<and>
     Parts st' = Parts st \<and> Blocks st' = Blocks st \<and> CwdVolume st' = CwdVolume st \<and> CwdPathText st' = CwdPathText st"

lemma mounts_trans: "mounts a st st1 \<Longrightarrow> mounts b st1 st2 \<Longrightarrow> mounts (a + b) st st2"
  by (auto simp: mounts_def)

lemma st_log_fields [simp]:
  "Volumes (st_log ss st) = Volumes st" "Parts (st_log ss st) = Parts st" "Blocks (st_log ss st) = Blocks st"
  "CwdVolume (st_log ss st) = CwdVolume st" "CwdPathText (st_log ss st) = CwdPathText st"
  "PartCursor (st_log ss st) = PartCursor st" "Phys (st_log ss st) = Phys st"
  by (simp_all add: st_log_def)

lemma mount_one:
  assumes ok: "mounts_ok med st" and room: "Suc (length (Volumes st)) \<le> 2496"
    and i: "i < length (Parts st)"
    and run: "FatMount (BlockReadFrom (Blocks st)) (PartDevice P) (PartStart P) blank_volume (Phys st) = (mounted, V, s)"
  shows "mounts_ok med (st\<lparr>Phys := s\<rparr>)"
    and "mounted \<Longrightarrow> mounts_ok med (st\<lparr>Phys := s, Volumes := Volumes st @
      [\<lparr>VolName = CopyText Nm VOL_NAME_SIZE, VolPartition = int i, VolFat = V\<rparr>]\<rparr>)"
proof -
  have st: "storage_ok st" and media: "media_ok (Blocks st) med" using ok by (simp_all add: mounts_ok_def)
  then have pmm: "pmm_ok (Phys st)" by (simp add: storage_ok_def)
  note cases = FatMount_cases [OF pmm run]
  have "storage_ok (st\<lparr>Phys := s\<rparr>)"
    by (rule storage_ok_cong [OF st]) (use st cases in \<open>simp_all add: storage_ok_def\<close>)
  with ok show ok1: "mounts_ok med (st\<lparr>Phys := s\<rparr>)" by (simp add: mounts_ok_def)
  have "storage_ok (st\<lparr>Phys := s, Volumes := vs\<rparr>)" for vs
    by (rule storage_ok_cong [OF st]) (use st cases in \<open>simp_all add: storage_ok_def\<close>)
  moreover have "volume_ok (Blocks st) (med (VolDevice V)) V" if mounted
  proof -
    from cases that obtain S where "BlockReadFrom (Blocks st) (PartDevice P) (PartStart P) 1 = Some S" by auto
    with media have far: "unat (PartStart P) < 2 ^ 63" unfolding media_ok_def by blast
    have "device_honest (Blocks st) (PartDevice P) (med (PartDevice P))" using media by (simp add: media_ok_def)
    from FatMount_outcome [OF pmm this far run] that show ?thesis by simp
  qed
  ultimately show "mounted \<Longrightarrow> mounts_ok med (st\<lparr>Phys := s, Volumes := Volumes st @
      [\<lparr>VolName = CopyText Nm VOL_NAME_SIZE, VolPartition = int i, VolFat = V\<rparr>]\<rparr>)"
    using ok room i by (auto simp: mounts_ok_def slot_ok_def CopyText_def VOL_NAME_SIZE_def)
qed

lemma MountLoop_ok:
  "mounts_ok med st \<Longrightarrow> MountLoop Added st = (Added', st') \<Longrightarrow> mounts_ok med st' \<and> mounts (Added' - Added) st st'"
proof (induction "length (Parts st) - PartCursor st" arbitrary: Added st rule: less_induct)
  case less
  show ?case
  proof (cases "int (PartCursor st) < PartCount st")
    case False
    with less.prems show ?thesis by (auto simp: MountLoop.simps [of Added st] mounts_def)
  next
    case True
    define st1 where "st1 = st\<lparr>PartCursor := Suc (PartCursor st)\<rparr>"
    let ?i = "PartCursor st" and ?P = "Parts st ! PartCursor st"
    have i: "?i < length (Parts st)" using True by (simp add: PartCount_def)
    have ok1: "mounts_ok med st1"
      using less.prems(1) i unfolding st1_def mounts_ok_def by (auto simp: storage_ok_def part_pages_def)
    have again: ?thesis if "MountLoop A st2 = (Added', st')" "mounts_ok med st2" "mounts (A - Added) st st2"
        "PartCursor st2 = Suc ?i" for A st2
    proof -
      have "length (Parts st2) - PartCursor st2 < length (Parts st) - PartCursor st"
        using that(3,4) i by (simp add: mounts_def)
      from less.hyps [OF this that(2,1)] mounts_trans [OF that(3), of "Added' - A" st'] show ?thesis by simp
    qed
    have P: "Parts st1 ! ?i = ?P" by (simp add: st1_def)
    note step = MountLoop.simps [of Added st, unfolded Let_def, folded st1_def, unfolded P]
    show ?thesis
    proof (cases "PartFs ?P = FS_FAT32")
      case False
      with less.prems(2) True have "MountLoop Added st1 = (Added', st')" unfolding step by simp
      then show ?thesis by (rule again [OF _ ok1]) (simp_all add: st1_def mounts_def)
    next
      case fat: True
      obtain slot st2 where slot: "VolumeNext st1 = (slot, st2)" by (cases "VolumeNext st1")
      note ok2 = VolumeNext_mounts [OF ok1 slot]
      have same: "Parts st2 = Parts st" "PartCursor st2 = Suc ?i" "Blocks st2 = Blocks st" "Volumes st2 = Volumes st"
          "CwdVolume st2 = CwdVolume st" "CwdPathText st2 = CwdPathText st"
        using VolumeNext_frame [OF slot] slot by (simp_all add: st1_def)
      show ?thesis
      proof (cases slot)
        case False
        with less.prems(2) True fat slot have "Added' = Added"
            "st' = st_log [lit ''FS: volume table full'' @ [10]] st2" unfolding step by simp_all
        with ok2(1) same show ?thesis by (simp add: st_log_mounts mounts_def)
      next
        case free: True
        obtain mounted V s where mnt: "FatMount (BlockReadFrom (Blocks st2)) (PartDevice ?P) (PartStart ?P)
            blank_volume (Phys st2) = (mounted, V, s)" by (metis prod_cases3)
        have i2: "?i < length (Parts st2)" using i same by simp
        note one = mount_one [OF ok2(1) ok2(3) [OF free] i2 mnt]
        show ?thesis
        proof (cases mounted)
          case False
          with less.prems(2) True fat slot free mnt have "MountLoop Added (st_log [lit ''FS: mount failed '',
              PartName ?P, [10]] (st2\<lparr>Phys := s\<rparr>)) = (Added', st')" unfolding step by simp
          then show ?thesis
            by (rule again [OF _ st_log_mounts [OF one(1)]]) (simp_all add: mounts_def same)
        next
          case True
          with less.prems(2) \<open>int (PartCursor st) < PartCount st\<close> fat slot free mnt
          have "MountLoop (Added + 1) (st_log [lit ''FS: mounted '', PartName ?P, lit '' as FAT32 read-only'' @ [10]]
              (st2\<lparr>Phys := s, Volumes := Volumes st2 @
                [\<lparr>VolName = CopyText (PartName ?P) VOL_NAME_SIZE, VolPartition = int ?i, VolFat = V\<rparr>]\<rparr>)) = (Added', st')"
            unfolding step by simp
          then show ?thesis
            by (rule again [OF _ st_log_mounts [OF one(2) [OF True]]]) (simp_all add: mounts_def same)
        qed
      qed
    qed
  qed
qed
text \<open>Selecting the first volume at the end of a mount.\<close>
lemma select_fs_ok:
  assumes "mounts_ok med st"
  shows "fs_ok med (if Volumes st \<noteq> [] \<and> CwdVolume st < 0
    then st\<lparr>CwdVolume := 0, CwdPathText := [chr_code CHR ''/'']\<rparr> else st)"
proof (cases "Volumes st \<noteq> [] \<and> CwdVolume st < 0")
  case True
  have "storage_ok st" using assms by (simp add: mounts_ok_def)
  then have "storage_ok (st\<lparr>CwdVolume := 0, CwdPathText := [chr_code CHR ''/'']\<rparr>)"
    by (simp add: storage_ok_def part_pages_def)
  with assms True show ?thesis by (auto simp: fs_ok_def mounts_ok_def FS_PATH_MAX_def)
next
  case False
  with assms show ?thesis by (auto simp: fs_ok_def mounts_ok_def)
qed

lemma MountNewPartitions_ok:
  assumes "mounts_ok med st" "MountNewPartitions st = (n, st')"
  shows "fs_ok med st'" "Blocks st' = Blocks st" "Parts st' = Parts st"
    "\<exists>new. Volumes st' = Volumes st @ new \<and> int (length new) = n"
    "0 \<le> CwdVolume st \<Longrightarrow> CwdVolume st' = CwdVolume st \<and> CwdPathText st' = CwdPathText st"
proof -
  obtain k st1 where run: "MountLoop 0 st = (k, st1)" by (cases "MountLoop 0 st")
  with MountLoop_ok [OF assms(1) run] have ok: "mounts_ok med st1" and m: "mounts k st st1" by simp_all
  have res: "n = k" "st' = (if Volumes st1 \<noteq> [] \<and> CwdVolume st1 < 0
      then st1\<lparr>CwdVolume := 0, CwdPathText := [chr_code CHR ''/'']\<rparr> else st1)"
    using assms(2) run by (simp_all add: MountNewPartitions_def)
  show "fs_ok med st'" unfolding res(2) by (rule select_fs_ok [OF ok])
  from m show "Blocks st' = Blocks st" "Parts st' = Parts st"
    "\<exists>new. Volumes st' = Volumes st @ new \<and> int (length new) = n"
    by (simp_all add: res mounts_def)
  assume "0 \<le> CwdVolume st"
  with m show "CwdVolume st' = CwdVolume st \<and> CwdPathText st' = CwdPathText st"
    by (simp add: res mounts_def)
qed

lemma same_extension:
  "storage.more st' = storage.more (st :: 'a filesys_scheme) \<Longrightarrow> Volumes st' = Volumes st \<and> VolumePages st' = VolumePages st \<and>
   PartCursor st' = PartCursor st \<and> CwdVolume st' = CwdVolume st \<and> CwdPathText st' = CwdPathText (st :: 'a filesys_scheme)"
  by (cases st, cases st') simp

lemma PartScanDevice_mounts:
  assumes "mounts_ok med st" "PartScanDevice d st = (n, st')"
  shows "mounts_ok med st'" "Volumes st' = Volumes st" "Blocks st' = Blocks st" "CwdVolume st' = CwdVolume st"
    "CwdPathText st' = CwdPathText st"
proof -
  have "storage_ok st" using assms(1) by (simp add: mounts_ok_def)
  from PartScanDevice_cases [OF this assms(2)] obtain new where
    ok: "storage_ok st'" and B: "Blocks st' = Blocks st" and more: "storage.more st' = storage.more st"
    and P: "Parts st' = Parts st @ new" by auto
  note same = same_extension [OF more]
  have "slot_ok (Blocks st) med (length (Parts st')) v" if "slot_ok (Blocks st) med (length (Parts st)) v" for v
    using that by (simp add: slot_ok_def P)
  with assms(1) same show "mounts_ok med st'" by (simp add: mounts_ok_def ok B) (simp add: P)
  from same B show "Volumes st' = Volumes st" "Blocks st' = Blocks st" "CwdVolume st' = CwdVolume st"
    "CwdPathText st' = CwdPathText st" by simp_all
qed

lemma FsMountDevice_ok:
  assumes "fs_ok med st" "FsMountDevice d st = (n, st')"
  shows "fs_ok med st'" "\<exists>new. Volumes st' = Volumes st @ new \<and> int (length new) = n"
    "0 \<le> CwdVolume st \<Longrightarrow> CwdVolume st' = CwdVolume st \<and> CwdPathText st' = CwdPathText st"
proof -
  obtain k st1 where scan: "PartScanDevice d st = (k, st1)" by (cases "PartScanDevice d st")
  have "mounts_ok med st" using assms(1) by (simp add: fs_ok_def)
  note s = PartScanDevice_mounts [OF this scan]
  have "MountNewPartitions st1 = (n, st')" using assms(2) by (simp add: FsMountDevice_def scan)
  from MountNewPartitions_ok [OF s(1) this] show "fs_ok med st'"
    "\<exists>new. Volumes st' = Volumes st @ new \<and> int (length new) = n"
    "0 \<le> CwdVolume st \<Longrightarrow> CwdVolume st' = CwdVolume st \<and> CwdPathText st' = CwdPathText st"
    by (simp_all add: s)
qed

lemma FsInit_ok:
  assumes "fs_ok med st" "FsInit st = (n, st')"
  shows "fs_ok med st'" "n = FsVolumeCount st'"
proof -
  define st1 where "st1 = fold (\<lambda>d st. snd (PartScanDevice (int d) st)) [0..<length (Blocks st)] st"
  have "mounts_ok med st1"
  proof -
    have "mounts_ok med st \<Longrightarrow> mounts_ok med (fold (\<lambda>d st. snd (PartScanDevice (int d) st)) ds st)" for ds
    proof (induction ds arbitrary: st)
      case (Cons d ds)
      obtain k st2 where scan: "PartScanDevice (int d) st = (k, st2)" by (cases "PartScanDevice (int d) st")
      with Cons.IH [OF PartScanDevice_mounts(1) [OF Cons.prems scan]] show ?case by simp
    qed simp
    then show ?thesis using assms(1) by (simp add: st1_def fs_ok_def)
  qed
  moreover obtain k st2 where run: "MountNewPartitions st1 = (k, st2)" by (cases "MountNewPartitions st1")
  moreover from assms(2) run have "int (length (Volumes st2)) = n \<and> st2 = st'"
    unfolding FsInit_def Let_def st1_def by auto
  then have "st' = st2" "n = int (length (Volumes st2))" by blast+
  ultimately show "fs_ok med st'" "n = FsVolumeCount st'"
    using MountNewPartitions_ok(1) by (auto simp: FsVolumeCount_def)
qed
section \<open>Using a volume\<close>

text \<open>Whatever the device does, a listing leaves the volume usable.\<close>
lemma ListChain_safe:
  "volume_ok b m V \<Longrightarrow> ListChain n (BlockReadFrom b) cb c d V ctx = (r, V', ctx') \<Longrightarrow>
   volume_ok b m V' \<and> core V' = core V"
proof (induction n arbitrary: c d V ctx)
  case (Suc n)
  show ?case
  proof (cases "ClusterValid c")
    case False
    with Suc.prems show ?thesis by simp
  next
    case valid: True
    show ?thesis
    proof (cases "ListSectors (BlockReadFrom b) V cb c [0..<unat (SectorsPerCluster V)] d ctx")
      case (Return r0 ctx0)
      with Suc.prems valid show ?thesis by simp
    next
      case (Continue d1 ctx1)
      obtain c1 V1 where nxt: "NextCluster (BlockReadFrom b) c V = (c1, V1)"
        by (cases "NextCluster (BlockReadFrom b) c V")
      have V: "device_honest b (VolDevice V) m" "vol_ok V" "cache_ok m V" "cursor_ok m V"
        using Suc.prems(1) by (simp_all add: volume_ok_def)
      note step = block.NextCluster_spec [OF V(1-3) valid nxt]
      have "volume_ok b m V1"
        using V step(2-5) by (simp add: volume_ok_def core_cong [OF step(1)] cursor_ok_def chain_core [OF step(1)])
      moreover from Suc.prems(2) Continue valid nxt
      have "ListChain n (BlockReadFrom b) cb c1 d1 V1 ctx1 = (r, V', ctx')" by simp
      ultimately show ?thesis using Suc.IH step(1) by metis
    qed
  qed
qed simp

lemma FatListDir_safe:
  "volume_ok b m V \<Longrightarrow> FatListDir (BlockReadFrom b) V c cb ctx = (r, V', ctx') \<Longrightarrow>
   volume_ok b m V' \<and> core V' = core V"
  unfolding FatListDir_def by (rule ListChain_safe)

lemma FatLookup_safe:
  assumes "volume_ok b m V" "FatLookup (BlockReadFrom b) V c Want = (Found, V')"
  shows "volume_ok b m V'" "core V' = core V"
proof -
  obtain r W F where run: "FatListDir (BlockReadFrom b) V c (LookupCallback Want) None = (r, W, F)"
    by (metis prod_cases3)
  with assms(2) have "V' = W" by (simp add: FatLookup_def)
  with FatListDir_safe [OF assms(1) run] show "volume_ok b m V'" "core V' = core V" by simp_all
qed

lemma FatReadAt_safe:
  assumes "volume_ok b m V" "FatReadAt (BlockReadFrom b) V File off len = (don, out, V')"
  shows "volume_ok b m V'" "core V' = core V"
proof -
  have V: "device_honest b (VolDevice V) m" "vol_ok V" "cache_ok m V" "cursor_ok m V"
    using assms(1) by (simp_all add: volume_ok_def)
  from block.FatReadAt_spec [OF V assms(2), of 0] show core: "core V' = core V" by blast
  show "volume_ok b m V'" using FatReadAt_outcome [OF assms, of 0] by blast
qed

lemma ResolveLoop_safe:
  "volume_ok b m V \<Longrightarrow> ResolveLoop (BlockReadFrom b) Cs Node V = (r, V') \<Longrightarrow>
   volume_ok b m V' \<and> core V' = core V \<and> (\<forall>N. r = Inr N \<longrightarrow> NodeVolume N = NodeVolume Node)"
proof (induction Cs arbitrary: V Node)
  case (Cons C Cs)
  obtain Found W where look: "FatLookup (BlockReadFrom b) V (EntryCluster (NodeEntry Node)) C = (Found, W)"
    by (cases "FatLookup (BlockReadFrom b) V (EntryCluster (NodeEntry Node)) C")
  note safe = FatLookup_safe [OF Cons.prems(1) look]
  show ?case
  proof (cases "NodeIsDir Node")
    case False
    with Cons.prems show ?thesis by auto
  next
    case True
    show ?thesis
    proof (cases Found)
      case None
      with Cons.prems True look safe show ?thesis by auto
    next
      case (Some f)
      let ?N = "Node\<lparr>NodeEntry := f, NodeIsDir := (EntryAttr f AND FAT_ATTR_DIRECTORY \<noteq> 0),
            NodePath := PushPath (NodePath Node) (EntryName f)\<rparr>"
      from Cons.prems(2) True look Some have "ResolveLoop (BlockReadFrom b) Cs ?N W = (r, V')" by simp
      from Cons.IH [OF safe(1) this]
      have V': "volume_ok b m V'" "core V' = core W" and N: "\<forall>N. r = Inr N \<longrightarrow> NodeVolume N = NodeVolume ?N"
        by blast+
      have "NodeVolume ?N = NodeVolume Node" by simp
      with N have "\<forall>N. r = Inr N \<longrightarrow> NodeVolume N = NodeVolume Node" by metis
      then show ?thesis using V' safe(2) by metis
    qed
  qed
qed auto

text \<open>Writing back a used volume.\<close>
lemma SetFat_fs_ok:
  assumes ok: "fs_ok med st" and v: "0 \<le> v" "v < FsVolumeCount st"
    and V: "volume_ok (Blocks st) (med (VolDevice (FatOf st v))) V" "core V = core (FatOf st v)"
  shows "fs_ok med (SetFat v V st)"
proof -
  have at: "slot_ok (Blocks st) med (length (Parts st)) (Volumes st ! nat v)"
    using ok v by (auto simp: fs_ok_def mounts_ok_def FsVolumeCount_def)
  have new: "slot_ok (Blocks st) med (length (Parts st)) ((Volumes st ! nat v)\<lparr>VolFat := V\<rparr>)"
    using at V core_cong(1) [OF V(2)] by (simp add: slot_ok_def FatOf_def)
  have "storage_ok (SetFat v V st)"
    using ok by (simp add: fs_ok_def mounts_ok_def SetFat_def storage_ok_def part_pages_def)
  moreover have "slot_ok (Blocks st) med (length (Parts st)) w"
    if "w \<in> set ((Volumes st)[nat v := (Volumes st ! nat v)\<lparr>VolFat := V\<rparr>])" for w
    using that new ok set_update_subset_insert [of "Volumes st" "nat v" "(Volumes st ! nat v)\<lparr>VolFat := V\<rparr>"]
    by (auto simp: fs_ok_def mounts_ok_def)
  ultimately show ?thesis using ok
    by (simp add: fs_ok_def mounts_ok_def SetFat_def)
qed
section \<open>The operations keep the invariant\<close>

lemma FindVolumeFrom_bounds:
  "FindVolumeFrom v Vs Nm = r \<Longrightarrow> r = -1 \<or> (v \<le> r \<and> r < v + int (length Vs) \<and>
     map lower (VolName (Vs ! nat (r - v))) = map lower Nm)"
proof (induction Vs arbitrary: v)
  case (Cons V Vs)
  show ?case
  proof (cases "names_equal (VolName V) Nm")
    case False
    with Cons.prems have "FindVolumeFrom (v + 1) Vs Nm = r" by simp
    from Cons.IH [OF this] consider "r = -1" | "v + 1 \<le> r" "r < v + 1 + int (length Vs)"
        "map lower (VolName (Vs ! nat (r - (v + 1)))) = map lower Nm" by blast
    then show ?thesis
    proof cases
      case 2
      then have "nat (r - v) = Suc (nat (r - (v + 1)))" by simp
      with 2 show ?thesis by simp
    qed simp
  qed (use Cons.prems in auto)
qed simp

lemma ParseInput_volume:
  assumes "fs_ok med st" "ParseInput st Input = Inr (v, Cs)"
  shows "0 \<le> v" "v < FsVolumeCount st" "normal Cs"
proof -
  have nil: "normal []" by (simp add: normal_def)
  note norm = SplitInto_normal [OF nil] SplitInto_normal [OF SplitInto_normal [OF nil]]
  have cwd: "CwdVolume st < FsVolumeCount st"
    using assms(1) by (simp add: fs_ok_def mounts_ok_def FsVolumeCount_def)
  have find: "0 \<le> FindVolume st Nm \<Longrightarrow> FindVolume st Nm < FsVolumeCount st" for Nm
    using FindVolumeFrom_bounds [of 0 "Volumes st" Nm "FindVolume st Nm"]
    by (auto simp: FindVolume_def FsVolumeCount_def)
  show "0 \<le> v" "v < FsVolumeCount st" "normal Cs"
    using assms(2) cwd find norm
    by (auto simp: ParseInput_def Let_def not_less split: option.splits if_splits)
qed

lemma fs_volume_ok:
  assumes "fs_ok med st" "0 \<le> v" "v < FsVolumeCount st"
  shows "volume_ok (Blocks st) (med (VolDevice (FatOf st v))) (FatOf st v)"
  using assms by (auto simp: fs_ok_def mounts_ok_def FsVolumeCount_def FatOf_def slot_ok_def)

lemma FsResolve_ok:
  assumes ok: "fs_ok med st" and run: "FsResolve Input st = (r, st')"
  shows "fs_ok med st' \<and> (\<forall>Node. r = Inr Node \<longrightarrow> 0 \<le> NodeVolume Node \<and> NodeVolume Node < FsVolumeCount st')"
proof (cases "ParseInput st Input")
  case (Inl e)
  with run have "st' = st" "r = Inl e" by (simp_all add: FsResolve_def)
  with ok show ?thesis by simp
next
  case (Inr p)
  then obtain v Cs where parse: "ParseInput st Input = Inr (v, Cs)" by (cases p) simp
  note v = ParseInput_volume [OF ok parse]
  obtain q V' where loop: "ResolveLoop (BlockReadFrom (Blocks st)) Cs (root_node v (FatOf st v)) (FatOf st v) = (q, V')"
    by (cases "ResolveLoop (BlockReadFrom (Blocks st)) Cs (root_node v (FatOf st v)) (FatOf st v)")
  note safe = ResolveLoop_safe [OF fs_volume_ok [OF ok v(1,2)] loop]
  have st': "st' = SetFat v V' st" and res: "\<forall>Node. r = Inr Node \<longrightarrow> (\<exists>N. q = Inr N \<and> NodeVolume Node = NodeVolume N)"
    using run parse loop by (auto simp: FsResolve_def split: sum.splits if_splits)
  have "fs_ok med st'" unfolding st' using SetFat_fs_ok [OF ok v(1,2), of V'] safe by blast
  moreover have "NodeVolume Node = v" if "r = Inr Node" for Node
    using res safe that by (auto simp: root_node_def)
  moreover have "FsVolumeCount st' = FsVolumeCount st" by (simp add: st' SetFat_def FsVolumeCount_def)
  ultimately show ?thesis using v by simp
qed

text \<open>What the kernel does with the layer: a sequence of its operations, on nodes of mounted volumes.\<close>
inductive fs_step :: "'a filesys_scheme \<Rightarrow> 'a filesys_scheme \<Rightarrow> bool" where
  init: "fs_step st (snd (FsInit st))"
| mount: "fs_step st (snd (FsMountDevice d st))"
| resolve: "fs_step st (snd (FsResolve Input st))"
| chdir: "fs_step st (snd (FsChdir Input st))"
| list_dir: "0 \<le> NodeVolume N \<Longrightarrow> NodeVolume N < FsVolumeCount st \<Longrightarrow>
    FsList N (cb :: fat_entry list dir_cb) ctx st = (r, ctx', st') \<Longrightarrow> fs_step st st'"
| read: "0 \<le> NodeVolume N \<Longrightarrow> NodeVolume N < FsVolumeCount st \<Longrightarrow>
    FsRead N off len st = (n, out, st') \<Longrightarrow> fs_step st st'"

inductive_cases fs_stepE: "fs_step st st'"

lemma PushPath_rooted: "p = [] \<or> hd p = 47 \<Longrightarrow> PushPath p n = [] \<or> hd (PushPath p n) = 47"
  by (cases p) (auto simp: PushPath_def Let_def)

lemma ResolveLoop_rooted:
  "ResolveLoop rd Cs N0 V = (Inr N, V') \<Longrightarrow> NodePath N0 = [] \<or> hd (NodePath N0) = 47 \<Longrightarrow>
   NodePath N = [] \<or> hd (NodePath N) = 47"
proof (induction Cs arbitrary: N0 V)
  case (Cons C Cs)
  then obtain f W where rest: "ResolveLoop rd Cs (N0\<lparr>NodeEntry := f, NodeIsDir := (EntryAttr f AND FAT_ATTR_DIRECTORY \<noteq> 0),
            NodePath := PushPath (NodePath N0) (EntryName f)\<rparr>) W = (Inr N, V')"
    by (auto split: if_splits prod.splits option.splits)
  have "NodePath (N0\<lparr>NodeEntry := f, NodeIsDir := (EntryAttr f AND FAT_ATTR_DIRECTORY \<noteq> 0),
            NodePath := PushPath (NodePath N0) (EntryName f)\<rparr>) = PushPath (NodePath N0) (EntryName f)" by simp
  with PushPath_rooted [OF Cons.prems(2), of "EntryName f"] Cons.IH [OF rest] show ?case by metis
qed simp

lemma FsResolve_path:
  assumes "FsResolve Input st = (Inr Node, st')"
  shows "\<exists>rest. NodePath Node = chr_code CHR ''/'' # rest"
proof -
  from assms obtain v Cs where parse: "ParseInput st Input = Inr (v, Cs)"
    by (auto simp: FsResolve_def split: sum.splits)
  obtain q V' where loop: "ResolveLoop (BlockReadFrom (Blocks st)) Cs (root_node v (FatOf st v)) (FatOf st v) = (q, V')"
    by (cases "ResolveLoop (BlockReadFrom (Blocks st)) Cs (root_node v (FatOf st v)) (FatOf st v)")
  with assms parse obtain N where N: "q = Inr N"
    "Node = (if NodePath N = [] then N\<lparr>NodePath := [chr_code CHR ''/'']\<rparr> else N)"
    by (auto simp: FsResolve_def split: sum.splits)
  with ResolveLoop_rooted [OF loop [unfolded N(1)]] show ?thesis
    by (cases "NodePath N") (auto simp: root_node_def)
qed
lemma FsChdir_ok:
  assumes ok: "fs_ok med st" and run: "FsChdir Input st = (c, st')"
  shows "fs_ok med st'"
proof -
  obtain r st1 where res: "FsResolve Input st = (r, st1)" by (cases "FsResolve Input st")
  note R = FsResolve_ok [OF ok res]
  show ?thesis
  proof (cases "\<exists>Node. r = Inr Node \<and> NodeIsDir Node")
    case False
    with run res have "st' = st1" by (auto simp: FsChdir_def split: sum.splits if_splits)
    with R show ?thesis by blast
  next
    case True
    then obtain Node where Node: "r = Inr Node" "NodeIsDir Node" by blast
    with run res have st': "st' = st1\<lparr>CwdVolume := NodeVolume Node, CwdPathText := CopyText (NodePath Node) FS_PATH_MAX\<rparr>"
      by (simp add: FsChdir_def)
    obtain rest where path: "NodePath Node = chr_code CHR ''/'' # rest" using FsResolve_path [of Input st] res Node by auto
    have vol: "0 \<le> NodeVolume Node" "NodeVolume Node < FsVolumeCount st1" and ok1: "fs_ok med st1"
      using R Node by blast+
    have "storage_ok st'" using ok1 by (simp add: st' fs_ok_def mounts_ok_def storage_ok_def part_pages_def)
    moreover have "Volumes st1 \<noteq> []" using vol by (auto simp: FsVolumeCount_def)
    ultimately show ?thesis using ok1 vol path
      by (auto simp: st' fs_ok_def mounts_ok_def FsVolumeCount_def CopyText_def FS_PATH_MAX_def)
  qed
qed

lemma FsList_ok:
  assumes ok: "fs_ok med st" and v: "0 \<le> NodeVolume N" "NodeVolume N < FsVolumeCount st"
    and run: "FsList N cb ctx st = (r, ctx', st')"
  shows "fs_ok med st'"
proof (cases "NodeIsDir N")
  case True
  obtain q V' c' where l: "FatListDir (BlockReadFrom (Blocks st)) (FatOf st (NodeVolume N)) (EntryCluster (NodeEntry N)) cb ctx
      = (q, V', c')" by (metis prod_cases3)
  note safe = FatListDir_safe [OF fs_volume_ok [OF ok v] l]
  from run True l have "st' = SetFat (NodeVolume N) V' st" by (simp add: FsList_def)
  with SetFat_fs_ok [OF ok v, of V'] safe show ?thesis by blast
qed (use run ok in \<open>simp add: FsList_def\<close>)

lemma FsRead_ok:
  assumes ok: "fs_ok med st" and v: "0 \<le> NodeVolume N" "NodeVolume N < FsVolumeCount st"
    and run: "FsRead N off len st = (n, out, st')"
  shows "fs_ok med st'"
proof (cases "NodeIsDir N")
  case False
  obtain q o' V' where l: "FatReadAt (BlockReadFrom (Blocks st)) (FatOf st (NodeVolume N)) (NodeEntry N) off len
      = (q, o', V')" by (metis prod_cases3)
  note safe = FatReadAt_safe [OF fs_volume_ok [OF ok v] l]
  from run False l have "st' = SetFat (NodeVolume N) V' st" by (simp add: FsRead_def)
  with SetFat_fs_ok [OF ok v, of V'] safe show ?thesis by blast
qed (use run ok in \<open>simp add: FsRead_def\<close>)

lemma fs_step_ok: "fs_step st st' \<Longrightarrow> fs_ok med st \<Longrightarrow> fs_ok med st'"
proof (induction rule: fs_step.induct)
  case (init st)
  show ?case by (rule FsInit_ok(1) [OF init surjective_pairing])
next
  case (mount st d)
  show ?case by (rule FsMountDevice_ok(1) [OF mount surjective_pairing])
next
  case (resolve st Input)
  show ?case using FsResolve_ok [OF resolve surjective_pairing] by blast
next
  case (chdir st Input)
  show ?case by (rule FsChdir_ok [OF chdir surjective_pairing])
next
  case (list_dir N st cb ctx r ctx' st')
  then show ?case by (intro FsList_ok [of med st N cb ctx r ctx' st'])
next
  case (read N st off len n out st')
  then show ?case by (intro FsRead_ok [of med st N off len n out st'])
qed

text \<open>C12: Through any sequence of the layer's operations, succeeding or failing, on devices that read
  back what is on the medium: the table never exceeds its 2496 slots, names fit their fields, every
  volume belongs to a partition of the table and keeps a usable geometry, cache and cursor, a working
  directory is selected exactly when there is a volume and lies on a mounted one, and its path is an
  absolute path that fits its buffer.\<close>
theorem fs_invariant:
  assumes "fs_step\<^sup>*\<^sup>* st st'" "fs_ok med st"
  shows "fs_ok med st'"
  using assms by (induction rule: rtranclp_induct) (simp_all add: fs_step_ok)

section \<open>Resolving is walking\<close>

definition shown_node :: "int \<Rightarrow> bool \<times> fat_entry \<times> cstring list \<Rightarrow> fs_node" where
  "shown_node v r = (let n = node_of v r in if NodePath n = [] then n\<lparr>NodePath := [chr_code CHR ''/'']\<rparr> else n)"

definition walk_root :: "(int \<Rightarrow> medium) \<Rightarrow> fat_volume \<Rightarrow> cstring list \<Rightarrow> int + bool \<times> fat_entry \<times> cstring list" where
  "walk_root med V Cs = walk (med (VolDevice V)) V Cs True (NodeEntry (root_node 0 V)) []"

definition walkable :: "(int \<Rightarrow> medium) \<Rightarrow> blocks \<Rightarrow> fat_volume \<Rightarrow> cstring list \<Rightarrow> bool" where
  "walkable med b V Cs \<longleftrightarrow> (\<exists>sz. device_up b (VolDevice V) sz \<and>
     walk_within (med (VolDevice V)) V sz Cs True (NodeEntry (root_node 0 V)))"

lemma walk_root_core:
  assumes "core V' = core V"
  shows "walk_root med V' Cs = walk_root med V Cs" "walkable med b V' Cs = walkable med b V Cs"
  by (simp_all add: walk_root_def walkable_def root_node_def core_cong [OF assms] walk_core [OF assms]
      walk_within_core [OF assms])

lemma root_node_of: "root_node v V = node_of v (True, NodeEntry (root_node 0 V), [])"
  by (simp add: root_node_def node_of_def)

lemma FsResolve_walk:
  assumes ok: "fs_ok med st" and parse: "ParseInput st Input = Inr (v, Cs)"
    and up: "walkable med (Blocks st) (FatOf st v) Cs" and run: "FsResolve Input st = (r, st')"
  shows "r = map_sum id (shown_node v) (walk_root med (FatOf st v) Cs)"
    "\<exists>V'. st' = SetFat v V' st \<and> core V' = core (FatOf st v)"
proof -
  note v = ParseInput_volume [OF ok parse]
  let ?V = "FatOf st v" and ?b = "BlockReadFrom (Blocks st)"
  obtain q V' where loop: "ResolveLoop ?b Cs (node_of v (True, NodeEntry (root_node 0 ?V), [])) ?V = (q, V')"
    by (cases "ResolveLoop ?b Cs (node_of v (True, NodeEntry (root_node 0 ?V), [])) ?V")
  from up obtain sz where sz: "device_up (Blocks st) (VolDevice ?V) sz"
    "walk_within (med (VolDevice ?V)) ?V sz Cs True (NodeEntry (root_node 0 ?V))" by (auto simp: walkable_def)
  note walk = ResolveLoop_walk [OF fs_volume_ok [OF ok v(1,2)] sz loop]
  then have q: "q = map_sum id (node_of v) (walk_root med ?V Cs)" and core: "core V' = core ?V"
    by (simp_all add: walk_root_def)
  from run parse loop show "r = map_sum id (shown_node v) (walk_root med ?V Cs)"
    by (cases "walk_root med ?V Cs")
       (auto simp: FsResolve_def root_node_of [of v] q shown_node_def Let_def split: if_splits)
  from run parse loop core show "\<exists>V'. st' = SetFat v V' st \<and> core V' = core ?V"
    by (intro exI [of _ V']) (auto simp: FsResolve_def root_node_of [of v] split: sum.splits)
qed
lemma FsResolve_outcome:
  assumes "fs_ok med st" "ParseInput st Input = Inr (v, Cs)" "walkable med (Blocks st) (FatOf st v) Cs"
  shows "fst (FsResolve Input st) = map_sum id (shown_node v) (walk_root med (FatOf st v) Cs) \<and> normal Cs \<and>
    (\<exists>V'. snd (FsResolve Input st) = SetFat v V' st \<and> core V' = core (FatOf st v))"
  using FsResolve_walk [OF assms surjective_pairing] ParseInput_volume(3) [OF assms(1,2)] by blast

text \<open>C11: Resolving implements the specification: on a volume whose device is up, \<open>FsResolve\<close>
  follows the components of the path over the directory entries on the medium, from the root, ignoring
  case; it reports a missing entry and a file used as a directory as such; the node it returns has the
  entry found and the path as the medium spells it; and it changes nothing but the FAT cache of the
  volume, which the answer does not depend on.\<close>
theorem FsResolve_correct:
  assumes "fs_ok med st" "ParseInput st Input = Inr (v, Cs)" "walkable med (Blocks st) (FatOf st v) Cs"
  shows "fst (FsResolve Input st) = map_sum id (shown_node v) (walk_root med (FatOf st v) Cs) \<and> normal Cs \<and>
    (\<exists>V'. snd (FsResolve Input st) = SetFat v V' st \<and> core V' = core (FatOf st v))"
  by (rule FsResolve_outcome [OF assms])

lemma walk_error: "walk m V Cs d e names \<noteq> Inl FS_OK"
  by (induction Cs arbitrary: d e names) (auto simp: fs_codes split: option.split)

lemma shown_path:
  assumes "normal names" "shown_node v (d, e, names) = Node" "length (NodePath Node) < 510"
  shows "SplitInto (NodePath Node) [] = names"
proof -
  let ?p = "fold (\<lambda>n p. PushPath p n) names []"
  have len: "length ?p < 510"
    using assms(2,3) by (auto simp: shown_node_def node_of_def Let_def split: if_splits)
  have p: "?p = join names" using path_short [OF len] by simp
  show ?thesis
  proof (cases "names = []")
    case True
    then have "NodePath Node = [chr_code CHR ''/'']" using assms(2) by (auto simp: shown_node_def node_of_def)
    then show ?thesis using True by (simp add: StepComponent_def)
  next
    case False
    then have "join names \<noteq> []" by (cases names) (simp_all add: join_def)
    with assms(2) p have "NodePath Node = join names" by (auto simp: shown_node_def node_of_def Let_def)
    then show ?thesis using SplitInto_join [OF assms(1)] by simp
  qed
qed

text \<open>The working directory is where \<open>FsChdir\<close> went: after it succeeds, with a path that was
  not cut at the end of its buffer, the volume and the path it stored are those of the node the input
  resolved to, and resolving that path again (the empty input) gives the same node, although names were
  matched ignoring case and the path went through dot-dots.\<close>
theorem FsChdir_stable:
  assumes ok: "fs_ok med st" and parse: "ParseInput st Input = Inr (v, Cs)"
    and up: "walkable med (Blocks st) (FatOf st v) Cs"
    and run: "FsChdir Input st = (FS_OK, st')" and short: "length (CwdPathText st') < 510"
  shows "\<exists>Node. fst (FsResolve Input st) = Inr Node \<and> NodeIsDir Node \<and> CwdVolume st' = NodeVolume Node \<and>
    CwdPathText st' = NodePath Node \<and> fst (FsResolve [] st') = Inr Node"
proof -
  note v = ParseInput_volume [OF ok parse]
  obtain r st1 where res: "FsResolve Input st = (r, st1)" by (cases "FsResolve Input st")
  note walk = FsResolve_walk [OF ok parse up res]
  have "r \<noteq> Inl FS_OK"
    using walk(1) walk_error by (cases "walk_root med (FatOf st v) Cs") (auto simp: walk_root_def)
  with run res obtain Node where r: "r = Inr Node" and dir: "NodeIsDir Node"
    and st': "st' = st1\<lparr>CwdVolume := NodeVolume Node, CwdPathText := take 511 (NodePath Node)\<rparr>"
    by (auto simp: FsChdir_def CopyText_def FS_PATH_MAX_def fs_codes split: sum.splits if_splits)
  from walk(2) obtain V' where st1: "st1 = SetFat v V' st" and core: "core V' = core (FatOf st v)" by blast
  from r walk(1) obtain d e names where w: "walk_root med (FatOf st v) Cs = Inr (d, e, names)"
    and Node: "shown_node v (d, e, names) = Node"
    by (cases "walk_root med (FatOf st v) Cs") auto
  have vol: "NodeVolume Node = v" using Node by (auto simp: shown_node_def node_of_def Let_def)
  have path: "CwdPathText st' = NodePath Node" "length (NodePath Node) < 510" using short by (simp_all add: st')
  from walk_canonical [OF w [unfolded walk_root_def]] have
    names: "list_all2 (\<lambda>n C. map lower n = map lower C) names Cs"
    "walk_root med (FatOf st v) names = Inr (d, e, names)"
    "walkable med (Blocks st) (FatOf st v) names" using up
    by (auto simp: walk_root_def walkable_def)
  have norm: "normal names" by (rule normal_lower [OF names(1) v(3)])
  have same: "FatOf st' v = V'" "Blocks st' = Blocks st"
    using v by (simp_all add: st' st1 SetFat_def FatOf_def FsVolumeCount_def)
  have parse': "ParseInput st' [] = Inr (v, names)"
    using v(1) shown_path [OF norm Node path(2)]
    by (simp add: ParseInput_def colon_prefix_def path(1)) (simp add: st' vol)
  have ok': "fs_ok med st'" by (rule FsChdir_ok [OF ok run])
  have "fst (FsResolve [] st') = Inr Node"
    using FsResolve_outcome [OF ok' parse'] names(2,3) Node
    by (simp add: same walk_root_core [OF core])
  with dir vol path(1) show ?thesis by (simp add: res r) (simp add: st')
qed
section \<open>A mounted volume\<close>

text \<open>The tiny medium on a device of 16 sectors, with one partition mounted.\<close>
definition small_device :: block_device where
  "small_device = tiny_device\<lparr>SectorCount := 16\<rparr>"

definition small_fs :: filesys where
  "small_fs = \<lparr>Phys = one_page, Log = klog_init, Blocks = [small_device],
     Parts = [\<lparr>PartDevice = 0, PartNumber = 1, PartStart = 0, PartSectors = 16, PartScheme = 0, PartMbrType = 0,
       PartTypeGuid = replicate 16 0, PartName = lit ''ram0p1'', PartFs = FS_FAT32\<rparr>],
     PartPages = (\<lambda>p. if p = 0 then 0x300000 else 0), SectorPage = 0x302000, Scanned = (\<lambda>d. d = 0),
     Volumes = [\<lparr>VolName = lit ''ram0p1'', VolPartition = 0, VolFat = tiny_volume\<rparr>],
     VolumePages = (\<lambda>p. if p = 0 then 0x303000 else 0), PartCursor = 1, CwdVolume = 0, CwdPathText = [47]\<rparr>"

lemma small_device_simps:
  "SectorSize small_device = 512" "MaxCount small_device = 8" "SectorCount small_device = 16" "Online small_device"
  "Name small_device = lit ''ram0''" "Read small_device \<noteq> None"
  "DeviceRead small_device l n = Some (media_bytes tiny_medium (unat l * 512) (unat n * 512))"
  by (simp_all add: small_device_def tiny_device_def DeviceRead_def)

lemma small_device_ok:
  shows "device_honest [small_device] d tiny_medium" "device_up [small_device] 0 16"
    and "BlockReadFrom [small_device] d l 1 \<noteq> None \<Longrightarrow> unat l < 2 ^ 63"
proof -
  have at: "bad_index [small_device] d \<longleftrightarrow> d \<noteq> 0" for d by (auto simp: bad_index_def)
  have dev: "[small_device] ! nat 0 = small_device" by simp
  have ok: "device_ok small_device" by (simp add: device_ok_def ValidSectorSize_def small_device_simps)
  have drv: "drv_ok small_device tiny_medium" by (simp add: drv_ok_def small_device_simps)
  have up: "drv_healthy small_device" by (simp add: drv_healthy_def small_device_simps)
  have size: "device_size small_device = 16" by (simp add: device_size_def small_device_simps)
  have h0: "device_honest [small_device] 0 tiny_medium" unfolding device_honest_def dev using ok drv by blast
  then show "device_honest [small_device] d tiny_medium"
    by (cases "d = 0") (simp_all add: device_honest_def at)
  show "device_up [small_device] 0 16"
    unfolding device_up_def device_healthy_def dev using at ok up by (simp add: size small_device_simps)
  assume some: "BlockReadFrom [small_device] d l 1 \<noteq> None"
  then have d: "d = 0" using bad_index_read at by metis
  have "unat l + unat (1 :: u32) \<le> device_size small_device"
  proof (rule ccontr)
    assume far: "\<not> unat l + unat (1 :: u32) \<le> device_size small_device"
    have "unat l + unat (1 :: u32) \<le> 2 ^ 64" using unat_u64_lt [of l] by simp
    from BlockReadFrom_outcome(2) [OF _ dev [symmetric] ok drv this _ _ far] some at d small_device_simps(4)
    show False by simp
  qed
  then show "unat l < 2 ^ 63" by (simp add: size)
qed

lemma small_fs_ok: "fs_ok (\<lambda>_. tiny_medium) small_fs"
proof -
  have "entry_ok small_device"
    unfolding entry_ok_def using small_device_simps(6)
    by (simp add: small_device_simps ValidSectorSize_def NAME_SIZE_def lit_def)
  then have blocks: "blocks_ok [small_device]" by (simp add: blocks_ok_def MAX_BLOCK_DEVICES_def)
  have storage: "storage_ok small_fs"
    using blocks one_page_ok by (simp add: storage_ok_def small_fs_def part_pages_def part_ok_def lit_def)
  have "volume_ok [small_device] tiny_medium tiny_volume"
    using small_device_ok(1)
    by (simp add: volume_ok_def vol_ok_def cache_ok_def cursor_ok_def tiny_volume_simps ClusterValid_def)
  then have "slot_ok [small_device] (\<lambda>_. tiny_medium) 1 \<lparr>VolName = lit ''ram0p1'', VolPartition = 0, VolFat = tiny_volume\<rparr>"
    by (simp add: slot_ok_def lit_def)
  moreover have "media_ok [small_device] (\<lambda>_. tiny_medium)"
    using small_device_ok(1,3) by (simp add: media_ok_def)
  ultimately show ?thesis using storage
    by (simp add: fs_ok_def mounts_ok_def) (simp add: small_fs_def FS_PATH_MAX_def)
qed

lemma small_parse:
  "ParseInput small_fs (lit ''X'') = Inr (0, [lit ''X''])" "ParseInput small_fs (lit ''.'') = Inr (0, [])"
  by (simp_all add: ParseInput_def colon_prefix_def lit_def is_slash_def small_fs_def StepComponent_def
      PushComponent_def MAX_COMPONENTS_def FAT_NAME_MAX_def)

lemma small_within: "dir_within tiny_medium tiny_volume 4 n 16"
proof (cases n)
  case (Suc k)
  have "dir_within tiny_medium tiny_volume (fat_next tiny_medium tiny_volume 4) k 16"
    using tiny_fat(2) by (cases k) simp_all
  then show ?thesis
    by (simp add: Suc cluster_sector_def fat_sector_def tiny_volume_simps)
qed simp

text \<open>The root directory of the tiny volume holds one empty file.\<close>
definition small_entry :: fat_entry where
  "small_entry = \<lparr>EntryName = lit ''F'', EntryAttr = 0x20, EntrySize = 0, EntryCluster = 0\<rparr>"

lemma small_root: "dir_entries tiny_medium tiny_volume 4 = [small_entry]"
proof -
  let ?F = "0x46 # replicate 11 0x20 @ replicate 20 0 :: u8 list"
  have first: "media_bytes tiny_medium 2048 32 = ?F"
    by (rule nth_equalityI) (auto simp: tiny_medium_def nth_Cons' nth_append)
  have second: "media_bytes tiny_medium 2080 32 = replicate 32 0"
    by (rule nth_equalityI) (auto simp: tiny_medium_def)
  have "MAX_CHAIN = Suc (MAX_CHAIN - 1)" by (simp add: MAX_CHAIN_def)
  moreover have "ClusterValid 4" by (simp add: ClusterValid_def FAT_EOC_MIN_def)
  ultimately have "dir_entries tiny_medium tiny_volume 4 = scan_slots (cluster_slots tiny_medium tiny_volume 4 @
      chain_slots tiny_medium tiny_volume (fat_next tiny_medium tiny_volume 4) (MAX_CHAIN - 1)) scan_init"
    unfolding dir_entries_def by (metis chain_slots.simps(2))
  moreover have "\<exists>rest. cluster_slots tiny_medium tiny_volume 4 = media_bytes tiny_medium 2048 32 # media_bytes tiny_medium 2080 32 # rest"
    by (simp add: cluster_slots_def tiny_volume_simps cluster_sector_def upt_conv_Cons)
  moreover have "ScanSlot ?F scan_init = Emit small_entry (scan_init\<lparr>LfnValid := False\<rparr>)" by code_simp
  ultimately show ?thesis by (auto simp: first second ScanSlot_def [of "replicate 32 0"])
qed

lemma small_walk:
  "walkable (\<lambda>_. tiny_medium) (Blocks small_fs) (FatOf small_fs 0) [lit ''X'']"
  "walkable (\<lambda>_. tiny_medium) (Blocks small_fs) (FatOf small_fs 0) []"
  "walk_root (\<lambda>_. tiny_medium) (FatOf small_fs 0) [lit ''X''] = Inl FS_ERR_NOTFOUND"
proof -
  have fat: "FatOf small_fs 0 = tiny_volume" "Blocks small_fs = [small_device]" by (simp_all add: FatOf_def small_fs_def)
  have root: "EntryCluster (NodeEntry (root_node 0 tiny_volume)) = 4" "VolDevice tiny_volume = 0"
    by (simp_all add: root_node_def tiny_volume_def)
  show "walkable (\<lambda>_. tiny_medium) (Blocks small_fs) (FatOf small_fs 0) []"
    using small_device_ok(2) by (auto simp: walkable_def fat root)
  show "walkable (\<lambda>_. tiny_medium) (Blocks small_fs) (FatOf small_fs 0) [lit ''X'']"
    unfolding walkable_def fat root using small_device_ok(2) small_within
    by (intro exI [of _ 16]) (simp add: root named_def small_root small_entry_def lit_def lower_def)
  show "walk_root (\<lambda>_. tiny_medium) (FatOf small_fs 0) [lit ''X''] = Inl FS_ERR_NOTFOUND"
    by (simp add: walk_root_def fat root named_def small_root small_entry_def lit_def lower_def)
qed

text \<open>The file by its name.\<close>
lemma small_F:
  "walkable (\<lambda>_. tiny_medium) (Blocks small_fs) (FatOf small_fs 0) [lit ''F'']"
  "walk_root (\<lambda>_. tiny_medium) (FatOf small_fs 0) [lit ''F''] = Inr (False, small_entry, [lit ''F''])"
proof -
  have fat: "FatOf small_fs 0 = tiny_volume" "Blocks small_fs = [small_device]" by (simp_all add: FatOf_def small_fs_def)
  have root: "EntryCluster (NodeEntry (root_node 0 tiny_volume)) = 4" "VolDevice tiny_volume = 0"
    by (simp_all add: root_node_def tiny_volume_def)
  show "walkable (\<lambda>_. tiny_medium) (Blocks small_fs) (FatOf small_fs 0) [lit ''F'']"
    unfolding walkable_def fat root using small_device_ok(2) small_within
    by (intro exI [of _ 16]) (simp add: root named_def small_root)
  show "walk_root (\<lambda>_. tiny_medium) (FatOf small_fs 0) [lit ''F''] = Inr (False, small_entry, [lit ''F''])"
    by (simp add: walk_root_def fat root named_def small_root)
       (simp add: small_entry_def entry_dir_def FAT_ATTR_DIRECTORY_def)
qed

lemma fs_invariant_witness:
  "fs_ok (\<lambda>_. tiny_medium) (snd (FsMountDevice 0 (snd (FsResolve (lit ''X'') small_fs))))"
proof -
  have "fs_step\<^sup>*\<^sup>* small_fs (snd (FsMountDevice 0 (snd (FsResolve (lit ''X'') small_fs))))"
    by (rule rtranclp.rtrancl_into_rtrancl [OF r_into_rtranclp [of fs_step, OF fs_step.resolve] fs_step.mount])
  from fs_invariant [OF this small_fs_ok] show ?thesis .
qed

lemma FsResolve_correct_witness:
  "fst (FsResolve (lit ''X'') small_fs) = Inl FS_ERR_NOTFOUND"
  using FsResolve_correct [OF small_fs_ok small_parse(1) small_walk(1)] by (simp add: small_walk(3))

lemma FsChdir_stable_witness:
  "\<exists>st' Node. FsChdir (lit ''.'') small_fs = (FS_OK, st') \<and> CwdPathText st' = lit ''/'' \<and>
     fst (FsResolve [] st') = Inr Node \<and> NodePath Node = lit ''/''"
proof -
  have fat: "FatOf small_fs 0 = tiny_volume" by (simp add: FatOf_def small_fs_def)
  obtain c st' where run: "FsChdir (lit ''.'') small_fs = (c, st')" by (cases "FsChdir (lit ''.'') small_fs")
  then have c: "c = FS_OK" "CwdPathText st' = [47]"
    by (auto simp: FsChdir_def FsResolve_def small_parse fat root_node_def CopyText_def FS_PATH_MAX_def)
  from FsChdir_stable [OF small_fs_ok small_parse(2) small_walk(2) run [unfolded c(1)]] c(2)
  obtain Node where "CwdPathText st' = NodePath Node" "fst (FsResolve [] st') = Inr Node" by auto
  with run c show ?thesis by (intro exI [of _ st'] exI [of _ Node]) (simp add: lit_def)
qed

end
