(* ===== verification/Gfx.thy ===== *)
theory Gfx
  imports Text
begin

text \<open>
  Drawing (\<open>kernel/gfx.c\<close> and the font table \<open>kernel/font8x16.h\<close>): a frame buffer of 32-bit
  pixels addressed by \<open>y * Stride + x\<close>, rectangles, and 8 by 16 glyphs. A program over the frame
  buffer extends the record \<open>gfx\<close> with its own state.
\<close>

section \<open>The frame buffer\<close>

record gfx =
  Frame :: "u64 \<Rightarrow> u32"
  ScreenWidth :: u64
  ScreenHeight :: u64
  Stride :: u64

definition FONT_FIRST_CHAR :: u8 where "FONT_FIRST_CHAR = 32"
definition FONT_LAST_CHAR :: u8 where "FONT_LAST_CHAR = 126"
definition FONT_WIDTH :: nat where "FONT_WIDTH = 8"
definition FONT_HEIGHT :: nat where "FONT_HEIGHT = 16"

definition Font8x16 :: "u8 list list" where
  "Font8x16 = [
    [0x00, 0x00, 0x00, 0x00, 0x00, 0x00, 0x00, 0x00, 0x00, 0x00, 0x00, 0x00, 0x00, 0x00, 0x00, 0x00],
    [0x00, 0x00, 0x00, 0x18, 0x18, 0x18, 0x18, 0x18, 0x18, 0x18, 0x00, 0x18, 0x18, 0x00, 0x00, 0x00],
    [0x00, 0x00, 0x00, 0x26, 0x26, 0x26, 0x26, 0x00, 0x00, 0x00, 0x00, 0x00, 0x00, 0x00, 0x00, 0x00],
    [0x00, 0x00, 0x00, 0x1B, 0x1A, 0x12, 0x7F, 0x36, 0x24, 0xFF, 0x6C, 0x6C, 0x48, 0x00, 0x00, 0x00],
    [0x00, 0x00, 0x08, 0x08, 0x3E, 0x6A, 0x68, 0x78, 0x1E, 0x0E, 0x0A, 0x6E, 0x3C, 0x08, 0x08, 0x00],
    [0x00, 0x00, 0x00, 0x70, 0xD0, 0xD0, 0x71, 0x04, 0x10, 0x46, 0x09, 0x09, 0x06, 0x00, 0x00, 0x00],
    [0x00, 0x00, 0x00, 0x3C, 0x30, 0x30, 0x30, 0x78, 0x79, 0xCD, 0xCF, 0x67, 0x3F, 0x00, 0x00, 0x00],
    [0x00, 0x00, 0x00, 0x18, 0x18, 0x18, 0x18, 0x00, 0x00, 0x00, 0x00, 0x00, 0x00, 0x00, 0x00, 0x00],
    [0x00, 0x00, 0x0C, 0x0C, 0x18, 0x18, 0x18, 0x18, 0x18, 0x18, 0x18, 0x18, 0x0C, 0x0C, 0x00, 0x00],
    [0x00, 0x00, 0x30, 0x18, 0x18, 0x08, 0x0C, 0x0C, 0x0C, 0x0C, 0x08, 0x18, 0x18, 0x30, 0x00, 0x00],
    [0x00, 0x00, 0x00, 0x08, 0x4A, 0x3C, 0x3C, 0x4A, 0x08, 0x00, 0x00, 0x00, 0x00, 0x00, 0x00, 0x00],
    [0x00, 0x00, 0x00, 0x00, 0x18, 0x18, 0x18, 0xFF, 0xFF, 0x18, 0x18, 0x18, 0x00, 0x00, 0x00, 0x00],
    [0x00, 0x00, 0x00, 0x00, 0x00, 0x00, 0x00, 0x00, 0x00, 0x00, 0x18, 0x18, 0x18, 0x10, 0x00, 0x00],
    [0x00, 0x00, 0x00, 0x00, 0x00, 0x00, 0x00, 0x00, 0x3C, 0x3C, 0x00, 0x00, 0x00, 0x00, 0x00, 0x00],
    [0x00, 0x00, 0x00, 0x00, 0x00, 0x00, 0x00, 0x00, 0x00, 0x00, 0x18, 0x18, 0x18, 0x00, 0x00, 0x00],
    [0x00, 0x00, 0x00, 0x02, 0x06, 0x06, 0x04, 0x0C, 0x08, 0x18, 0x10, 0x30, 0x20, 0x60, 0x60, 0x00],
    [0x00, 0x00, 0x00, 0x3C, 0x26, 0x66, 0x62, 0x6B, 0x6B, 0x62, 0x66, 0x26, 0x3C, 0x00, 0x00, 0x00],
    [0x00, 0x00, 0x00, 0x18, 0x18, 0x08, 0x08, 0x08, 0x08, 0x08, 0x08, 0x08, 0x7F, 0x00, 0x00, 0x00],
    [0x00, 0x00, 0x00, 0x3C, 0x46, 0x06, 0x06, 0x0E, 0x0C, 0x18, 0x30, 0x60, 0x7E, 0x00, 0x00, 0x00],
    [0x00, 0x00, 0x00, 0x3C, 0x46, 0x06, 0x06, 0x1C, 0x06, 0x06, 0x02, 0x46, 0x3C, 0x00, 0x00, 0x00],
    [0x00, 0x00, 0x00, 0x0E, 0x1E, 0x1E, 0x36, 0x66, 0x66, 0x7F, 0x06, 0x06, 0x06, 0x00, 0x00, 0x00],
    [0x00, 0x00, 0x00, 0x7E, 0x60, 0x60, 0x7C, 0x46, 0x06, 0x06, 0x06, 0x46, 0x3C, 0x00, 0x00, 0x00],
    [0x00, 0x00, 0x00, 0x1C, 0x32, 0x60, 0x7C, 0x76, 0x63, 0x63, 0x63, 0x36, 0x1C, 0x00, 0x00, 0x00],
    [0x00, 0x00, 0x00, 0x7E, 0x06, 0x06, 0x0E, 0x0C, 0x0C, 0x18, 0x18, 0x38, 0x30, 0x00, 0x00, 0x00],
    [0x00, 0x00, 0x00, 0x3C, 0x66, 0x66, 0x66, 0x3C, 0x66, 0x62, 0x62, 0x66, 0x3C, 0x00, 0x00, 0x00],
    [0x00, 0x00, 0x00, 0x3C, 0x66, 0x66, 0x66, 0x67, 0x66, 0x3E, 0x06, 0x06, 0x3C, 0x00, 0x00, 0x00],
    [0x00, 0x00, 0x00, 0x00, 0x00, 0x00, 0x18, 0x18, 0x18, 0x00, 0x18, 0x18, 0x18, 0x00, 0x00, 0x00],
    [0x00, 0x00, 0x00, 0x00, 0x00, 0x00, 0x18, 0x18, 0x18, 0x00, 0x18, 0x18, 0x18, 0x10, 0x00, 0x00],
    [0x00, 0x00, 0x00, 0x00, 0x00, 0x01, 0x0F, 0x78, 0x60, 0x78, 0x0F, 0x01, 0x00, 0x00, 0x00, 0x00],
    [0x00, 0x00, 0x00, 0x00, 0x00, 0x7F, 0x7F, 0x00, 0x00, 0x7F, 0x7F, 0x00, 0x00, 0x00, 0x00, 0x00],
    [0x00, 0x00, 0x00, 0x00, 0x00, 0x40, 0x78, 0x1E, 0x07, 0x1E, 0x78, 0x40, 0x00, 0x00, 0x00, 0x00],
    [0x00, 0x00, 0x00, 0x1C, 0x06, 0x06, 0x0E, 0x1C, 0x18, 0x18, 0x00, 0x18, 0x18, 0x00, 0x00, 0x00],
    [0x00, 0x00, 0x00, 0x1C, 0x62, 0x43, 0xCF, 0xD3, 0x91, 0x91, 0xD3, 0xCF, 0x40, 0x20, 0x1E, 0x00],
    [0x00, 0x00, 0x00, 0x1C, 0x1C, 0x3C, 0x34, 0x36, 0x66, 0x7E, 0x63, 0x63, 0xC3, 0x00, 0x00, 0x00],
    [0x00, 0x00, 0x00, 0x7C, 0x66, 0x63, 0x66, 0x7C, 0x66, 0x63, 0x63, 0x67, 0x7E, 0x00, 0x00, 0x00],
    [0x00, 0x00, 0x00, 0x1E, 0x30, 0x70, 0x60, 0x60, 0x60, 0x60, 0x70, 0x30, 0x1E, 0x00, 0x00, 0x00],
    [0x00, 0x00, 0x00, 0x7C, 0x66, 0x66, 0x63, 0x63, 0x63, 0x63, 0x66, 0x66, 0x7C, 0x00, 0x00, 0x00],
    [0x00, 0x00, 0x00, 0x7E, 0x60, 0x60, 0x60, 0x7E, 0x60, 0x60, 0x60, 0x60, 0x7E, 0x00, 0x00, 0x00],
    [0x00, 0x00, 0x00, 0x7F, 0x60, 0x60, 0x60, 0x7E, 0x60, 0x60, 0x60, 0x60, 0x60, 0x00, 0x00, 0x00],
    [0x00, 0x00, 0x00, 0x1E, 0x30, 0x60, 0x60, 0x60, 0x67, 0x63, 0x63, 0x33, 0x1E, 0x00, 0x00, 0x00],
    [0x00, 0x00, 0x00, 0x66, 0x66, 0x66, 0x66, 0x7E, 0x66, 0x66, 0x66, 0x66, 0x66, 0x00, 0x00, 0x00],
    [0x00, 0x00, 0x00, 0x7E, 0x18, 0x18, 0x18, 0x18, 0x18, 0x18, 0x18, 0x18, 0x7E, 0x00, 0x00, 0x00],
    [0x00, 0x00, 0x00, 0x3E, 0x06, 0x06, 0x06, 0x06, 0x06, 0x06, 0x06, 0x46, 0x3C, 0x00, 0x00, 0x00],
    [0x00, 0x00, 0x00, 0x63, 0x66, 0x6C, 0x78, 0x78, 0x7C, 0x6C, 0x66, 0x67, 0x63, 0x00, 0x00, 0x00],
    [0x00, 0x00, 0x00, 0x30, 0x30, 0x30, 0x30, 0x30, 0x30, 0x30, 0x30, 0x30, 0x3F, 0x00, 0x00, 0x00],
    [0x00, 0x00, 0x00, 0x67, 0x67, 0x77, 0x7F, 0x5B, 0x5B, 0x43, 0x43, 0x43, 0x43, 0x00, 0x00, 0x00],
    [0x00, 0x00, 0x00, 0x63, 0x73, 0x73, 0x73, 0x7B, 0x6B, 0x6F, 0x6F, 0x67, 0x67, 0x00, 0x00, 0x00],
    [0x00, 0x00, 0x00, 0x3C, 0x66, 0x66, 0x63, 0x63, 0x63, 0x63, 0x66, 0x66, 0x3C, 0x00, 0x00, 0x00],
    [0x00, 0x00, 0x00, 0x7E, 0x66, 0x63, 0x63, 0x66, 0x7E, 0x60, 0x60, 0x60, 0x60, 0x00, 0x00, 0x00],
    [0x00, 0x00, 0x00, 0x3C, 0x66, 0x66, 0x63, 0x63, 0x63, 0x63, 0x66, 0x66, 0x3C, 0x06, 0x02, 0x00],
    [0x00, 0x00, 0x00, 0x7C, 0x66, 0x66, 0x66, 0x66, 0x7C, 0x6E, 0x66, 0x67, 0x63, 0x00, 0x00, 0x00],
    [0x00, 0x00, 0x00, 0x3C, 0x62, 0x60, 0x70, 0x7C, 0x1E, 0x07, 0x07, 0x46, 0x3C, 0x00, 0x00, 0x00],
    [0x00, 0x00, 0x00, 0x7F, 0x18, 0x18, 0x18, 0x18, 0x18, 0x18, 0x18, 0x18, 0x18, 0x00, 0x00, 0x00],
    [0x00, 0x00, 0x00, 0x63, 0x63, 0x63, 0x63, 0x63, 0x63, 0x63, 0x63, 0x66, 0x3C, 0x00, 0x00, 0x00],
    [0x00, 0x00, 0x00, 0x63, 0x63, 0x66, 0x66, 0x66, 0x36, 0x34, 0x3C, 0x3C, 0x1C, 0x00, 0x00, 0x00],
    [0x00, 0x00, 0x00, 0xC1, 0xC1, 0xC3, 0xDB, 0x5B, 0x5F, 0x77, 0x77, 0x66, 0x66, 0x00, 0x00, 0x00],
    [0x00, 0x00, 0x00, 0x63, 0x66, 0x36, 0x3C, 0x1C, 0x1C, 0x3C, 0x36, 0x66, 0xE3, 0x00, 0x00, 0x00],
    [0x00, 0x00, 0x00, 0xC3, 0x67, 0x66, 0x3E, 0x3C, 0x1C, 0x18, 0x18, 0x18, 0x18, 0x00, 0x00, 0x00],
    [0x00, 0x00, 0x00, 0x7F, 0x07, 0x0E, 0x0E, 0x1C, 0x18, 0x38, 0x70, 0x60, 0x7F, 0x00, 0x00, 0x00],
    [0x00, 0x00, 0x1C, 0x18, 0x18, 0x18, 0x18, 0x18, 0x18, 0x18, 0x18, 0x18, 0x18, 0x1C, 0x00, 0x00],
    [0x00, 0x00, 0x00, 0x40, 0x60, 0x20, 0x30, 0x10, 0x18, 0x08, 0x0C, 0x04, 0x06, 0x06, 0x02, 0x00],
    [0x00, 0x00, 0x3C, 0x0C, 0x0C, 0x0C, 0x0C, 0x0C, 0x0C, 0x0C, 0x0C, 0x0C, 0x0C, 0x3C, 0x00, 0x00],
    [0x00, 0x00, 0x00, 0x18, 0x3C, 0x36, 0x63, 0x00, 0x00, 0x00, 0x00, 0x00, 0x00, 0x00, 0x00, 0x00],
    [0x00, 0x00, 0x00, 0x00, 0x00, 0x00, 0x00, 0x00, 0x00, 0x00, 0x00, 0x00, 0x00, 0x00, 0x00, 0xFF],
    [0x00, 0x30, 0x10, 0x18, 0x00, 0x00, 0x00, 0x00, 0x00, 0x00, 0x00, 0x00, 0x00, 0x00, 0x00, 0x00],
    [0x00, 0x00, 0x00, 0x00, 0x00, 0x3C, 0x06, 0x02, 0x3F, 0x63, 0x67, 0x67, 0x3F, 0x00, 0x00, 0x00],
    [0x00, 0x00, 0x60, 0x60, 0x60, 0x7C, 0x76, 0x63, 0x63, 0x63, 0x63, 0x76, 0x7E, 0x00, 0x00, 0x00],
    [0x00, 0x00, 0x00, 0x00, 0x00, 0x1E, 0x30, 0x60, 0x60, 0x60, 0x60, 0x30, 0x1E, 0x00, 0x00, 0x00],
    [0x00, 0x00, 0x06, 0x06, 0x06, 0x3E, 0x66, 0x66, 0x66, 0x66, 0x66, 0x66, 0x3E, 0x00, 0x00, 0x00],
    [0x00, 0x00, 0x00, 0x00, 0x00, 0x3C, 0x66, 0x63, 0x7F, 0x60, 0x60, 0x70, 0x3E, 0x00, 0x00, 0x00],
    [0x00, 0x00, 0x0E, 0x18, 0x18, 0x7E, 0x18, 0x18, 0x18, 0x18, 0x18, 0x18, 0x18, 0x00, 0x00, 0x00],
    [0x00, 0x00, 0x00, 0x00, 0x00, 0x3E, 0x66, 0x66, 0x66, 0x66, 0x66, 0x66, 0x3E, 0x06, 0x06, 0x3C],
    [0x00, 0x00, 0x60, 0x60, 0x60, 0x7E, 0x76, 0x66, 0x66, 0x66, 0x66, 0x66, 0x66, 0x00, 0x00, 0x00],
    [0x00, 0x00, 0x18, 0x18, 0x00, 0x38, 0x18, 0x18, 0x18, 0x18, 0x18, 0x18, 0x7F, 0x00, 0x00, 0x00],
    [0x00, 0x00, 0x0C, 0x0C, 0x00, 0x3C, 0x0C, 0x0C, 0x0C, 0x0C, 0x0C, 0x0C, 0x0C, 0x0C, 0x1C, 0x78],
    [0x00, 0x00, 0x60, 0x60, 0x60, 0x67, 0x6E, 0x7C, 0x78, 0x7C, 0x66, 0x66, 0x63, 0x00, 0x00, 0x00],
    [0x00, 0x00, 0x78, 0x18, 0x18, 0x18, 0x18, 0x18, 0x18, 0x18, 0x18, 0x18, 0x0E, 0x00, 0x00, 0x00],
    [0x00, 0x00, 0x00, 0x00, 0x00, 0x7E, 0x5B, 0x5B, 0x5B, 0x5B, 0x5B, 0x5B, 0x5B, 0x00, 0x00, 0x00],
    [0x00, 0x00, 0x00, 0x00, 0x00, 0x7E, 0x76, 0x66, 0x66, 0x66, 0x66, 0x66, 0x66, 0x00, 0x00, 0x00],
    [0x00, 0x00, 0x00, 0x00, 0x00, 0x3C, 0x66, 0x63, 0x63, 0x63, 0x63, 0x66, 0x3C, 0x00, 0x00, 0x00],
    [0x00, 0x00, 0x00, 0x00, 0x00, 0x7E, 0x76, 0x63, 0x63, 0x63, 0x63, 0x76, 0x7E, 0x60, 0x60, 0x60],
    [0x00, 0x00, 0x00, 0x00, 0x00, 0x3E, 0x66, 0x66, 0x66, 0x66, 0x66, 0x66, 0x3E, 0x06, 0x06, 0x06],
    [0x00, 0x00, 0x00, 0x00, 0x00, 0x3F, 0x39, 0x30, 0x30, 0x30, 0x30, 0x30, 0x30, 0x00, 0x00, 0x00],
    [0x00, 0x00, 0x00, 0x00, 0x00, 0x3C, 0x62, 0x60, 0x7C, 0x1E, 0x06, 0x46, 0x3C, 0x00, 0x00, 0x00],
    [0x00, 0x00, 0x00, 0x18, 0x18, 0x7E, 0x18, 0x18, 0x18, 0x18, 0x18, 0x18, 0x1E, 0x00, 0x00, 0x00],
    [0x00, 0x00, 0x00, 0x00, 0x00, 0x66, 0x66, 0x66, 0x66, 0x66, 0x66, 0x66, 0x3E, 0x00, 0x00, 0x00],
    [0x00, 0x00, 0x00, 0x00, 0x00, 0x63, 0x66, 0x66, 0x26, 0x36, 0x3C, 0x1C, 0x1C, 0x00, 0x00, 0x00],
    [0x00, 0x00, 0x00, 0x00, 0x00, 0xC1, 0xC1, 0xDB, 0x5B, 0x5F, 0x76, 0x76, 0x66, 0x00, 0x00, 0x00],
    [0x00, 0x00, 0x00, 0x00, 0x00, 0x66, 0x36, 0x3C, 0x18, 0x1C, 0x3C, 0x76, 0x67, 0x00, 0x00, 0x00],
    [0x00, 0x00, 0x00, 0x00, 0x00, 0x63, 0x67, 0x66, 0x36, 0x3E, 0x3C, 0x1C, 0x18, 0x18, 0x18, 0x70],
    [0x00, 0x00, 0x00, 0x00, 0x00, 0x7E, 0x06, 0x0E, 0x1C, 0x38, 0x38, 0x70, 0x7E, 0x00, 0x00, 0x00],
    [0x00, 0x00, 0x0E, 0x18, 0x18, 0x18, 0x18, 0x18, 0x70, 0x18, 0x18, 0x18, 0x18, 0x18, 0x0E, 0x00],
    [0x00, 0x00, 0x18, 0x18, 0x18, 0x18, 0x18, 0x18, 0x18, 0x18, 0x18, 0x18, 0x18, 0x18, 0x18, 0x18],
    [0x00, 0x00, 0x70, 0x18, 0x18, 0x18, 0x18, 0x1C, 0x0E, 0x1C, 0x18, 0x18, 0x18, 0x18, 0x70, 0x00],
    [0x00, 0x00, 0x00, 0x00, 0x00, 0x00, 0x00, 0x71, 0x7F, 0x0E, 0x00, 0x00, 0x00, 0x00, 0x00, 0x00]]"

lemma length_Font: "length Font8x16 = 95"
  by (simp add: Font8x16_def)

definition GfxInit :: "(u64 \<Rightarrow> u32) \<Rightarrow> u64 \<Rightarrow> u64 \<Rightarrow> u64 \<Rightarrow> gfx" where
  "GfxInit Base Width Height PixelsPerScanLine =
     \<lparr>Frame = Base, ScreenWidth = Width, ScreenHeight = Height, Stride = PixelsPerScanLine\<rparr>"

definition set_pixel :: "u64 \<Rightarrow> u32 \<Rightarrow> 'a gfx_scheme \<Rightarrow> 'a gfx_scheme" where
  "set_pixel i color g = g\<lparr>Frame := (Frame g)(i := color)\<rparr>"

definition PutPixel :: "u32 \<Rightarrow> u32 \<Rightarrow> u32 \<Rightarrow> 'a gfx_scheme \<Rightarrow> 'a gfx_scheme" where
  "PutPixel x y color g = set_pixel (ucast y * Stride g + ucast x) color g"

definition FillScreen :: "u32 \<Rightarrow> 'a gfx_scheme \<Rightarrow> 'a gfx_scheme" where
  "FillScreen color g =
     (let S = Stride g; W = unat (ScreenWidth g)
      in fold (\<lambda>y g. let Line = of_nat y * S
                 in fold (\<lambda>x g. set_pixel (Line + of_nat x) color g) [0..<W] g)
       [0..<unat (ScreenHeight g)] g)"

definition FillRect :: "u32 \<Rightarrow> u32 \<Rightarrow> u32 \<Rightarrow> u32 \<Rightarrow> u32 \<Rightarrow> 'a gfx_scheme \<Rightarrow> 'a gfx_scheme" where
  "FillRect x y w h color g =
     (let S = Stride g
      in fold (\<lambda>row g. let Line = ucast (y + of_nat row) * S + ucast x
                   in fold (\<lambda>col g. set_pixel (Line + of_nat col) color g) [0..<unat w] g)
       [0..<unat h] g)"

text \<open>The row of a glyph, or nothing for a character outside the font.\<close>
definition glyph_row :: "u8 \<Rightarrow> nat \<Rightarrow> u8" where
  "glyph_row ch row =
     (if FONT_FIRST_CHAR \<le> ch \<and> ch \<le> FONT_LAST_CHAR then Font8x16 ! unat (ch - FONT_FIRST_CHAR) ! row else 0)"

definition DrawChar :: "u32 \<Rightarrow> u32 \<Rightarrow> u8 \<Rightarrow> u32 \<Rightarrow> 'a gfx_scheme \<Rightarrow> 'a gfx_scheme" where
  "DrawChar x y ch color g =
     (if ch < FONT_FIRST_CHAR \<or> ch > FONT_LAST_CHAR then g
      else fold (\<lambda>row g. let Bits = glyph_row ch row
                         in fold (\<lambda>col g. if Bits AND push_bit (7 - col) 1 \<noteq> 0
                                          then PutPixel (x + of_nat col) (y + of_nat row) color g else g)
                              [0..<FONT_WIDTH] g)
             [0..<FONT_HEIGHT] g)"

definition DrawCell :: "u32 \<Rightarrow> u32 \<Rightarrow> u8 \<Rightarrow> u32 \<Rightarrow> u32 \<Rightarrow> 'a gfx_scheme \<Rightarrow> 'a gfx_scheme" where
  "DrawCell x y ch fg bg g =
     (let S = Stride g
      in fold (\<lambda>row g. let Line = ucast (y + of_nat row) * S + ucast x; Bits = glyph_row ch row
                   in fold (\<lambda>col g. set_pixel (Line + of_nat col)
                                (if Bits AND drop_bit col 0x80 \<noteq> 0 then fg else bg) g)
                        [0..<FONT_WIDTH] g)
       [0..<FONT_HEIGHT] g)"

fun DrawString :: "u32 \<Rightarrow> u32 \<Rightarrow> cstring \<Rightarrow> u32 \<Rightarrow> 'a gfx_scheme \<Rightarrow> 'a gfx_scheme" where
  "DrawString CurX y [] color g = g"
| "DrawString CurX y (c # cs) color g = DrawString (CurX + of_nat FONT_WIDTH) y cs color (DrawChar CurX y c color g)"

definition DrawUInt64 :: "u32 \<Rightarrow> u32 \<Rightarrow> u64 \<Rightarrow> u32 \<Rightarrow> 'a gfx_scheme \<Rightarrow> 'a gfx_scheme" where
  "DrawUInt64 x y v color g = DrawString x y (dec_text v) color g"

section \<open>What the loops paint\<close>

text \<open>A frame buffer whose addresses do not wrap.\<close>
definition frame_ok :: "'a gfx_scheme \<Rightarrow> bool" where
  "frame_ok g \<longleftrightarrow> ScreenWidth g \<le> Stride g \<and> unat (ScreenHeight g) * unat (Stride g) < 2 ^ 64"

definition pixel :: "'a gfx_scheme \<Rightarrow> nat \<Rightarrow> nat \<Rightarrow> u32" where
  "pixel g x y = Frame g (of_nat (y * unat (Stride g) + x))"

text \<open>Everything but the pixels.\<close>
definition same_screen :: "'a gfx_scheme \<Rightarrow> 'a gfx_scheme \<Rightarrow> bool" where
  "same_screen g g' \<longleftrightarrow> (\<exists>F. g' = g\<lparr>Frame := F\<rparr>)"

lemma same_screen_refl [simp]: "same_screen g g"
  unfolding same_screen_def by (rule exI [of _ "Frame g"]) simp

lemma same_screen_trans: "same_screen a b \<Longrightarrow> same_screen b c \<Longrightarrow> same_screen a c"
  by (auto simp: same_screen_def)

lemma same_screen_fields:
  "same_screen g g' \<Longrightarrow> Stride g' = Stride g \<and> ScreenWidth g' = ScreenWidth g \<and> ScreenHeight g' = ScreenHeight g"
  by (auto simp: same_screen_def)

lemma set_pixel_screen [simp]: "same_screen g (set_pixel i c g)"
  by (auto simp: same_screen_def set_pixel_def)

lemma fold_screen: "(\<And>x g. same_screen g (f x g)) \<Longrightarrow> same_screen g (fold f xs g)"
  by (induction xs arbitrary: g) (auto intro: same_screen_trans)

text \<open>Painting a run of pixels, those that \<open>b\<close> selects.\<close>
lemma paint_run:
  assumes "n \<le> 2 ^ 64"
  shows "Frame (fold (\<lambda>col g. if b col then set_pixel (L + of_nat col) (c col) g else g) [0..<n] g) i =
     (if unat (i - L) < n \<and> b (unat (i - L)) then c (unat (i - L)) else Frame g i)"
  using assms
proof (induction n)
  case (Suc n)
  have at: "i = L + of_nat n \<longleftrightarrow> unat (i - L) = n"
  proof
    assume "i = L + of_nat n"
    then have "i - L = of_nat n" by simp
    then show "unat (i - L) = n" using Suc.prems by (simp add: unat_of_nat_small)
  next
    assume "unat (i - L) = n"
    moreover have "of_nat (unat (i - L)) = i - L" by simp
    ultimately have "of_nat n = i - L" by simp
    then show "i = L + of_nat n" by simp
  qed
  show ?case using Suc at by (auto simp: set_pixel_def less_Suc_eq)
qed simp

lemma run_address:
  fixes S x y w px py r :: nat
  assumes "x + w \<le> S" "px < S" "py * S + S \<le> 2 ^ 64" "r * S + S \<le> 2 ^ 64" and w: "0 < w"
  shows "unat (of_nat (py * S + px) - of_nat (r * S + x) :: u64) < w \<longleftrightarrow> py = r \<and> x \<le> px \<and> px < x + w"
    and "py = r \<Longrightarrow> x \<le> px \<Longrightarrow> unat (of_nat (py * S + px) - of_nat (r * S + x) :: u64) = px - x"
proof -
  let ?a = "py * S + px" and ?b = "r * S + x"
  have a: "?a < 2 ^ 64" "?b + w \<le> 2 ^ 64" using assms by linarith+
  then have ua: "unat (of_nat ?a :: u64) = ?a" by (intro unat_of_nat_small) simp
  show eq: "unat (of_nat ?a - of_nat ?b :: u64) = px - x" if "py = r" "x \<le> px"
  proof -
    have "(of_nat ?a - of_nat ?b :: u64) = of_nat (px - x)" using that by (simp add: of_nat_diff)
    moreover have "px - x < 2 ^ 64" using a(1) by linarith
    ultimately show ?thesis by (simp only: unat_of_nat_small len_num1 len_bit0 simp_thms) (simp add: unat_of_nat_small)
  qed
  show "unat (of_nat ?a - of_nat ?b :: u64) < w \<longleftrightarrow> py = r \<and> x \<le> px \<and> px < x + w"
  proof (cases "?b \<le> ?a")
    case True
    then have "(of_nat ?a - of_nat ?b :: u64) = of_nat (?a - ?b)" by (simp add: of_nat_diff)
    moreover have "?a - ?b < 2 ^ 64" using a(1) by linarith
    ultimately have u: "unat (of_nat ?a - of_nat ?b :: u64) = ?a - ?b" by (simp add: unat_of_nat_small)
    have le: "r \<le> py"
    proof (rule ccontr)
      assume "\<not> r \<le> py"
      then have "Suc py * S \<le> r * S" by (intro mult_le_mono1) simp
      with True assms(2) show False by simp
    qed
    show ?thesis
    proof (cases "py = r")
      case False
      with le have "Suc r * S \<le> py * S" by (intro mult_le_mono1) simp
      with assms(1) have "w \<le> ?a - ?b" by simp
      with u False show ?thesis by simp
    qed (use u True in auto)
  next
    case False
    have "(of_nat ?a - of_nat ?b :: u64) = of_nat (2 ^ 64 + ?a - ?b)"
      using a(2) by (subst of_nat_diff) simp_all
    moreover have "N + ?a - ?b < N" if "?b \<le> N" for N using False that by linarith
    then have "2 ^ 64 + ?a - ?b < 2 ^ LENGTH(64)" using a(2) by simp
    ultimately have "unat (of_nat ?a - of_nat ?b :: u64) = 2 ^ 64 + ?a - ?b"
      by (simp only: unat_of_nat_small)
    then have "w \<le> unat (of_nat ?a - of_nat ?b :: u64)" using a(2) by simp
    moreover have "\<not> (py = r \<and> x \<le> px)" using False by auto
    ultimately show ?thesis by auto
  qed
qed

text \<open>Painting a block of pixels, row by row.\<close>
lemma paint_block:
  fixes g :: "'a gfx_scheme"
  defines "S \<equiv> unat (Stride g)"
  assumes "x + w \<le> S" "(y + h) * S \<le> 2 ^ 64" "px < S" "py * S + S \<le> 2 ^ 64"
    and base: "\<And>row. row < h \<Longrightarrow> base row = of_nat ((y + row) * S + x)"
  shows "pixel (fold (\<lambda>row g. fold (\<lambda>col g. if b row col then set_pixel (base row + of_nat col) (c row col) g else g)
      [0..<w] g) [0..<h] g) px py =
    (if y \<le> py \<and> py < y + h \<and> x \<le> px \<and> px < x + w \<and> b (py - y) (px - x) then c (py - y) (px - x) else pixel g px py)"
    (is "pixel (fold ?row [0..<h] g) px py = _")
  using assms(3) base
proof (induction h)
  case (Suc h)
  let ?g = "fold ?row [0..<h] g"
  have screen: "same_screen g (fold ?row rs g)" for rs
    by (intro fold_screen) simp
  have stride: "Stride (fold ?row rs g) = Stride g" for rs
    using same_screen_fields [OF screen] by blast
  have S: "unat (Stride ?g) = S" "unat (Stride (fold ?row [0..<Suc h] g)) = S"
    unfolding S_def stride by simp_all
  have room: "(y + h) * S + S \<le> 2 ^ 64" using Suc.prems(1) by simp
  have "w \<le> 2 ^ 64" using assms(2) room by linarith
  note run = paint_run [OF this, of "b h" "base h" "c h" ?g "of_nat (py * S + px)"]
  have bh: "base h = of_nat ((y + h) * S + x)" by (rule Suc.prems(2)) simp
  note addr = run_address [OF assms(2,4,5) room]
  have IH: "pixel ?g px py = (if y \<le> py \<and> py < y + h \<and> x \<le> px \<and> px < x + w \<and> b (py - y) (px - x)
      then c (py - y) (px - x) else pixel g px py)"
    using Suc.IH Suc.prems by simp
  let ?A = "of_nat (py * S + px) :: u64"
  have cond: "unat (?A - base h) < w \<longleftrightarrow> py = y + h \<and> x \<le> px \<and> px < x + w"
    unfolding bh using addr(1) by (cases "w = 0") auto
  have idx: "unat (?A - base h) = px - x" if "py = y + h \<and> x \<le> px \<and> px < x + w"
    unfolding bh using addr(2) that by auto
  have "pixel (fold ?row [0..<Suc h] g) px py = Frame (fold ?row [0..<Suc h] g) ?A"
    unfolding pixel_def S ..
  also have "\<dots> = (if unat (?A - base h) < w \<and> b h (unat (?A - base h)) then c h (unat (?A - base h)) else Frame ?g ?A)"
    using run by simp
  also have "\<dots> = (if py = y + h \<and> x \<le> px \<and> px < x + w \<and> b h (px - x) then c h (px - x) else Frame ?g ?A)"
    unfolding cond using idx by (auto split: if_splits)
  also have "Frame ?g ?A = pixel ?g px py" unfolding pixel_def S ..
  finally have "pixel (fold ?row [0..<Suc h] g) px py =
      (if py = y + h \<and> x \<le> px \<and> px < x + w \<and> b h (px - x) then c h (px - x) else pixel ?g px py)" .
  then show ?case unfolding IH by (cases "py = y + h") auto
qed auto


lemmas paint_full = paint_block [where b = "\<lambda>_ _. True", simplified if_True simp_thms]

lemma row_base:
  assumes "unat y + h \<le> 2 ^ 32" "row < h" "(unat y + h) * unat S \<le> 2 ^ 64" "unat (x :: u32) < unat S"
  shows "ucast (y + of_nat row :: u32) * S + ucast x = (of_nat ((unat y + row) * unat S + unat x) :: u64)"
proof -
  have "unat (of_nat row :: u32) = row" using assms(1,2) by (intro unat_of_nat_small) simp
  then have "unat (y + of_nat row) = unat y + row" using assms(1,2) by (subst unat_add_nowrap) simp_all
  moreover have "(ucast (y + of_nat row) :: u64) = of_nat (unat (y + of_nat row))" by simp
  ultimately have "(ucast (y + of_nat row) :: u64) = of_nat (unat y + row)" by (simp only:)
  then show ?thesis by simp
qed

text \<open>The picture of one character cell.\<close>
definition cell_pixel :: "u8 \<Rightarrow> u32 \<Rightarrow> u32 \<Rightarrow> nat \<Rightarrow> nat \<Rightarrow> u32" where
  "cell_pixel ch fg bg row col = (if glyph_row ch row AND drop_bit col 0x80 \<noteq> 0 then fg else bg)"

lemma DrawCell_pixel:
  assumes "unat x + 8 \<le> unat (Stride g)" "unat y + 16 \<le> 2 ^ 32" "(unat y + 16) * unat (Stride g) \<le> 2 ^ 64"
    and "px < unat (Stride g)" "py * unat (Stride g) + unat (Stride g) \<le> 2 ^ 64"
  shows "pixel (DrawCell x y ch fg bg g) px py =
    (if unat y \<le> py \<and> py < unat y + 16 \<and> unat x \<le> px \<and> px < unat x + 8
     then cell_pixel ch fg bg (py - unat y) (px - unat x) else pixel g px py)"
proof -
  have x: "unat x < unat (Stride g)" using assms(1) by simp
  show ?thesis
    unfolding DrawCell_def Let_def FONT_WIDTH_def FONT_HEIGHT_def cell_pixel_def
    by (rule paint_full [OF assms(1,3,4,5) row_base [OF assms(2) _ assms(3) x]])
qed

lemma DrawCell_screen [simp]: "same_screen g (DrawCell x y ch fg bg g)"
  unfolding DrawCell_def Let_def by (intro fold_screen) simp

lemma FillScreen_pixel:
  assumes "frame_ok g" "px < unat (ScreenWidth g)" "py < unat (ScreenHeight g)"
  shows "pixel (FillScreen color g) px py = color"
proof -
  let ?S = "unat (Stride g)"
  have W: "0 + unat (ScreenWidth g) \<le> ?S" "(0 + unat (ScreenHeight g)) * ?S \<le> 2 ^ 64"
    using assms(1) by (simp_all add: frame_ok_def word_le_nat_alt)
  have "Suc py * ?S \<le> unat (ScreenHeight g) * ?S" using assms(3) by (intro mult_le_mono1) simp
  then have py: "py * ?S + ?S \<le> 2 ^ 64" using W(2) by simp
  have px: "px < ?S" using assms(2) W(1) by simp
  have base: "of_nat row * Stride g = of_nat ((0 + row) * ?S + 0)" for row by simp
  show ?thesis
    unfolding FillScreen_def Let_def using paint_full [OF W px py base] assms(2,3) by simp
qed

lemma FillScreen_screen [simp]: "same_screen g (FillScreen color g)"
  unfolding FillScreen_def Let_def by (intro fold_screen) simp

lemma FillRect_pixel:
  assumes "unat x + unat w \<le> unat (Stride g)" "0 < unat w" "unat y + unat h \<le> 2 ^ 32"
    "(unat y + unat h) * unat (Stride g) \<le> 2 ^ 64"
    and "px < unat (Stride g)" "py * unat (Stride g) + unat (Stride g) \<le> 2 ^ 64"
  shows "pixel (FillRect x y w h color g) px py =
    (if unat y \<le> py \<and> py < unat y + unat h \<and> unat x \<le> px \<and> px < unat x + unat w then color else pixel g px py)"
proof -
  have x: "unat x < unat (Stride g)" using assms(1,2) by simp
  show ?thesis
    unfolding FillRect_def Let_def
    by (rule paint_full [OF assms(1,4,5,6) row_base [OF assms(3) _ assms(4) x]])
qed

lemma FillRect_screen [simp]: "same_screen g (FillRect x y w h color g)"
  unfolding FillRect_def Let_def by (intro fold_screen) simp

lemma PutPixel_screen [simp]: "same_screen g (PutPixel x y color g)"
  by (simp add: PutPixel_def)

lemma DrawChar_screen [simp]: "same_screen g (DrawChar x y ch color g)"
  unfolding DrawChar_def Let_def by (auto intro!: fold_screen)

end
