(* ===== verification/Console.thy ===== *)
theory Console
  imports Gfx
begin

text \<open>
  The text console (\<open>kernel/console.c\<close>): a grid of characters and attributes with a cursor, rows
  marked dirty when they change, and a flush that redraws the dirty rows and the rows of the old and of the
  new cursor. Grid positions are natural numbers: the code keeps them below 256. The tab loop
  may not end, so printing returns an option.
\<close>

section \<open>State\<close>

definition MAX_COLS :: nat where "MAX_COLS = 256"
definition MAX_ROWS :: nat where "MAX_ROWS = 128"
definition MARGIN :: nat where "MARGIN = 8"
definition BACKGROUND :: u32 where "BACKGROUND = 0x00201040"
definition CONSOLE_ATTR_NORMAL :: u8 where "CONSOLE_ATTR_NORMAL = 0"

definition Palette :: "u32 list" where
  "Palette = [0x00E0D0FF, 0x0080FFC0, 0x00FF7070, 0x008878A8]"

record console = gfx +
  Chars :: "nat \<Rightarrow> nat \<Rightarrow> u8"
  Attrs :: "nat \<Rightarrow> nat \<Rightarrow> u8"
  Dirty :: "nat \<Rightarrow> bool"
  Cols :: nat
  Rows :: nat
  CurCol :: nat
  CurRow :: nat
  PrevRow :: nat
  CurAttr :: u8

section \<open>The grid\<close>

definition ClearRow :: "nat \<Rightarrow> 'a console_scheme \<Rightarrow> 'a console_scheme" where
  "ClearRow Row c =
     c\<lparr>Chars := (Chars c)(Row := (\<lambda>col. if col < MAX_COLS then chr_code CHR '' '' else Chars c Row col)),
       Attrs := (Attrs c)(Row := (\<lambda>col. if col < MAX_COLS then CONSOLE_ATTR_NORMAL else Attrs c Row col)),
       Dirty := (Dirty c)(Row := True)\<rparr>"

text \<open>One round of the copying loop: row \<open>r\<close> goes to row \<open>r - 1\<close>, in the visible columns.\<close>
definition CopyRowUp :: "nat \<Rightarrow> 'a console_scheme \<Rightarrow> 'a console_scheme" where
  "CopyRowUp r c =
     c\<lparr>Chars := (Chars c)(r - 1 := (\<lambda>col. if col < Cols c then Chars c r col else Chars c (r - 1) col)),
       Attrs := (Attrs c)(r - 1 := (\<lambda>col. if col < Cols c then Attrs c r col else Attrs c (r - 1) col))\<rparr>"

definition ScrollUp :: "'a console_scheme \<Rightarrow> 'a console_scheme" where
  "ScrollUp c =
     (let c = fold CopyRowUp [1..<Rows c] c;
          c = ClearRow (Rows c - 1) c
      in c\<lparr>Dirty := (\<lambda>r. r < Rows c \<or> Dirty c r)\<rparr>)"

definition NewLine :: "'a console_scheme \<Rightarrow> 'a console_scheme" where
  "NewLine c =
     (let c = c\<lparr>CurCol := 0\<rparr>
      in if CurRow c + 1 < Rows c then c\<lparr>CurRow := CurRow c + 1\<rparr> else ScrollUp c)"

definition BlankCursor :: "'a console_scheme \<Rightarrow> 'a console_scheme" where
  "BlankCursor c =
     c\<lparr>Chars := (Chars c)(CurRow c := (Chars c (CurRow c))(CurCol c := chr_code CHR '' '')),
       Attrs := (Attrs c)(CurRow c := (Attrs c (CurRow c))(CurCol c := CONSOLE_ATTR_NORMAL)),
       Dirty := (Dirty c)(CurRow c := True)\<rparr>"

definition Backspace :: "'a console_scheme \<Rightarrow> 'a console_scheme" where
  "Backspace c =
     (if CurCol c > 0 then BlankCursor (c\<lparr>CurCol := CurCol c - 1\<rparr>)
      else if CurRow c > 0
      then BlankCursor (c\<lparr>Dirty := (Dirty c)(CurRow c := True), CurRow := CurRow c - 1, CurCol := Cols c - 1\<rparr>)
      else c)"

section \<open>Drawing\<close>

definition DrawRow :: "nat \<Rightarrow> 'a console_scheme \<Rightarrow> 'a console_scheme" where
  "DrawRow Row c =
     (let Y = of_nat (MARGIN + Row * FONT_HEIGHT)
      in fold (\<lambda>col c.
           let Fg = Palette ! unat (Attrs c Row col AND 3); Bg = BACKGROUND;
               (Fg, Bg) = (if Row = CurRow c \<and> col = CurCol c
                           then (BACKGROUND, Palette ! unat CONSOLE_ATTR_NORMAL) else (Fg, Bg))
           in DrawCell (of_nat (MARGIN + col * FONT_WIDTH)) Y (Chars c Row col) Fg Bg c) [0..<Cols c] c)"

definition ConsoleFlush :: "'a console_scheme \<Rightarrow> 'a console_scheme" where
  "ConsoleFlush c =
     (let c = fold (\<lambda>r c. if Dirty c r \<or> r = CurRow c \<or> r = PrevRow c
                          then (DrawRow r c)\<lparr>Dirty := (Dirty c)(r := False)\<rparr> else c) [0..<Rows c] c
      in c\<lparr>PrevRow := CurRow c\<rparr>)"

definition ConsoleClear :: "'a console_scheme \<Rightarrow> 'a console_scheme" where
  "ConsoleClear c =
     ConsoleFlush (FillScreen BACKGROUND ((fold ClearRow [0..<MAX_ROWS] c)\<lparr>CurCol := 0, CurRow := 0, PrevRow := 0\<rparr>))"

definition ConsoleRefresh :: "'a console_scheme \<Rightarrow> 'a console_scheme" where
  "ConsoleRefresh c =
     (let c = FillScreen BACKGROUND c in ConsoleFlush (c\<lparr>Dirty := (\<lambda>r. r < Rows c \<or> Dirty c r)\<rparr>))"

text \<open>The sizes are computed in 64 bits and cut to 32; the margins are constants of type \<open>int\<close>.\<close>
definition ConsoleInit :: "'a console_scheme \<Rightarrow> 'a console_scheme" where
  "ConsoleInit c =
     (let cols = unat (ucast ((ScreenWidth c - 2 * of_nat MARGIN) div of_nat FONT_WIDTH) :: u32);
          rows = unat (ucast ((ScreenHeight c - 2 * of_nat MARGIN) div of_nat FONT_HEIGHT) :: u32)
      in ConsoleClear (c\<lparr>Cols := if cols > MAX_COLS then MAX_COLS else cols,
           Rows := if rows > MAX_ROWS then MAX_ROWS else rows, CurAttr := CONSOLE_ATTR_NORMAL\<rparr>))"

section \<open>Printing\<close>

definition ConsoleSetAttr :: "u8 \<Rightarrow> 'a console_scheme \<Rightarrow> 'a console_scheme" where
  "ConsoleSetAttr Attr c = c\<lparr>CurAttr := Attr AND 3\<rparr>"

text \<open>What \<open>ConsolePutChar\<close> does with a character that is not a control character.\<close>
definition PutGlyph :: "u8 \<Rightarrow> 'a console_scheme \<Rightarrow> 'a console_scheme" where
  "PutGlyph ch c =
     (if ch < 32 \<or> ch > 126 then c
      else let c = c\<lparr>Chars := (Chars c)(CurRow c := (Chars c (CurRow c))(CurCol c := ch)),
                     Attrs := (Attrs c)(CurRow c := (Attrs c (CurRow c))(CurCol c := CurAttr c)),
                     Dirty := (Dirty c)(CurRow c := True), CurCol := CurCol c + 1\<rparr>
           in if CurCol c \<ge> Cols c then NewLine c else c)"

text \<open>\<open>while (CurCol < Next) ConsolePutChar(' ')\<close>.\<close>
partial_function (option) TabLoop :: "nat \<Rightarrow> 'a console_scheme \<Rightarrow> 'a console_scheme option" where
  "TabLoop Nxt c = (if CurCol c < Nxt then TabLoop Nxt (PutGlyph (chr_code CHR '' '') c) else Some c)"

definition ConsolePutChar :: "u8 \<Rightarrow> 'a console_scheme \<Rightarrow> 'a console_scheme option" where
  "ConsolePutChar ch c =
     (if ch = 10 then Some (NewLine c)
      else if ch = 13 then Some (c\<lparr>CurCol := 0\<rparr>)
      else if ch = 8 then Some (Backspace c)
      else if ch = 9 then TabLoop ((CurCol c + 4) div 4 * 4) c
      else Some (PutGlyph ch c))"

fun ConsolePrint :: "cstring \<Rightarrow> 'a console_scheme \<Rightarrow> 'a console_scheme option" where
  "ConsolePrint [] c = Some c"
| "ConsolePrint (ch # s) c = (case ConsolePutChar ch c of None \<Rightarrow> None | Some c \<Rightarrow> ConsolePrint s c)"

definition ConsolePrintUInt :: "u64 \<Rightarrow> 'a console_scheme \<Rightarrow> 'a console_scheme option" where
  "ConsolePrintUInt v c = ConsolePrint (dec_text v) c"

definition ConsolePrintHex :: "u64 \<Rightarrow> int \<Rightarrow> 'a console_scheme \<Rightarrow> 'a console_scheme option" where
  "ConsolePrintHex v MinDigits c = ConsolePrint (hex_text v MinDigits) c"

section \<open>The invariant\<close>

definition console_ok :: "'a console_scheme \<Rightarrow> bool" where
  "console_ok c \<longleftrightarrow> 0 < Cols c \<and> Cols c \<le> MAX_COLS \<and> 0 < Rows c \<and> Rows c \<le> MAX_ROWS \<and>
     CurCol c < Cols c \<and> CurRow c < Rows c \<and> frame_ok c \<and>
     16 + Cols c * 8 \<le> unat (ScreenWidth c) \<and> 16 + Rows c * 16 \<le> unat (ScreenHeight c)"

definition cell_shown :: "'a console_scheme \<Rightarrow> nat \<Rightarrow> nat \<Rightarrow> bool \<Rightarrow> bool" where
  "cell_shown c r col cur \<longleftrightarrow> (\<forall>dx < 8. \<forall>dy < 16. pixel c (8 + col * 8 + dx) (8 + r * 16 + dy) =
     (if cur then cell_pixel (Chars c r col) BACKGROUND 0x00E0D0FF dy dx
      else cell_pixel (Chars c r col) (Palette ! unat (Attrs c r col AND 3)) BACKGROUND dy dx))"

text \<open>A row of the screen shows a row of the grid, with the cursor if it is there.\<close>
definition row_shown :: "'a console_scheme \<Rightarrow> nat \<Rightarrow> nat option \<Rightarrow> bool" where
  "row_shown c r cur \<longleftrightarrow> (\<forall>col < Cols c. cell_shown c r col (cur = Some col))"

text \<open>Every row shows the grid, or will be redrawn by the next flush.\<close>
definition synced :: "'a console_scheme \<Rightarrow> bool" where
  "synced c \<longleftrightarrow> (\<forall>r < Rows c. Dirty c r \<or> r = PrevRow c \<or> row_shown c r None)"

definition all_shown :: "'a console_scheme \<Rightarrow> bool" where
  "all_shown c \<longleftrightarrow> (\<forall>r < Rows c. row_shown c r (if r = CurRow c then Some (CurCol c) else None))"

lemma row_shown_cong:
  "Frame c' = Frame c \<Longrightarrow> Stride c' = Stride c \<Longrightarrow> Cols c' = Cols c \<Longrightarrow> Chars c' r = Chars c r \<Longrightarrow> Attrs c' r = Attrs c r \<Longrightarrow>
   row_shown c' r cur = row_shown c r cur"
  by (simp add: row_shown_def cell_shown_def pixel_def)

text \<open>A change of the grid that marks every row it touches.\<close>
definition marks :: "'a console_scheme \<Rightarrow> 'a console_scheme \<Rightarrow> bool" where
  "marks c c' \<longleftrightarrow> Frame c' = Frame c \<and> Stride c' = Stride c \<and> ScreenWidth c' = ScreenWidth c \<and>
     ScreenHeight c' = ScreenHeight c \<and> Cols c' = Cols c \<and> Rows c' = Rows c \<and> PrevRow c' = PrevRow c \<and>
     (\<forall>r < Rows c. Dirty c' r \<or> (\<not> Dirty c r \<and> Chars c' r = Chars c r \<and> Attrs c' r = Attrs c r))"

lemma marks_refl [simp]: "marks c c"
  by (auto simp: marks_def)

lemma marks_trans: "marks a b \<Longrightarrow> marks b c \<Longrightarrow> marks a c"
  unfolding marks_def by metis

lemma marks_synced: "marks c c' \<Longrightarrow> synced c \<Longrightarrow> synced c'"
  unfolding synced_def marks_def by (metis row_shown_cong)

lemma marks_ok:
  "marks c c' \<Longrightarrow> console_ok c \<Longrightarrow> CurCol c' < Cols c \<Longrightarrow> CurRow c' < Rows c \<Longrightarrow> console_ok c'"
  by (simp add: marks_def console_ok_def frame_ok_def)


lemma CopyRows_frame:
  "fold CopyRowUp rs c = c\<lparr>Chars := Chars (fold CopyRowUp rs c), Attrs := Attrs (fold CopyRowUp rs c)\<rparr>"
proof (induction rs arbitrary: c)
  case (Cons r rs)
  show ?case using Cons [of "CopyRowUp r c"] by (simp add: CopyRowUp_def)
qed simp

lemma ScrollUp_marks: "marks c (ScrollUp c)"
proof -
  define d where "d = fold CopyRowUp [1..<Rows c] c"
  have "d = c\<lparr>Chars := Chars d, Attrs := Attrs d\<rparr>" unfolding d_def by (rule CopyRows_frame)
  then obtain C A where d: "d = c\<lparr>Chars := C, Attrs := A\<rparr>" by blast
  show ?thesis unfolding ScrollUp_def Let_def d_def [symmetric] by (simp add: d ClearRow_def marks_def)
qed

lemma ScrollUp_cursor: "CurCol (ScrollUp c) = CurCol c" "CurRow (ScrollUp c) = CurRow c"
proof -
  define d where "d = fold CopyRowUp [1..<Rows c] c"
  have "d = c\<lparr>Chars := Chars d, Attrs := Attrs d\<rparr>" unfolding d_def by (rule CopyRows_frame)
  then obtain C A where d: "d = c\<lparr>Chars := C, Attrs := A\<rparr>" by blast
  show "CurCol (ScrollUp c) = CurCol c" "CurRow (ScrollUp c) = CurRow c"
    unfolding ScrollUp_def Let_def d_def [symmetric] by (simp_all add: d ClearRow_def)
qed

lemma NewLine_marks: "marks c (NewLine c)"
proof -
  have "marks c (c\<lparr>CurCol := 0\<rparr>)" by (simp add: marks_def)
  from marks_trans [OF this ScrollUp_marks] show ?thesis by (simp add: NewLine_def Let_def marks_def)
qed

lemma NewLine_ok: "console_ok c \<or> (CurCol c = Cols c \<and> console_ok (c\<lparr>CurCol := 0\<rparr>)) \<Longrightarrow> console_ok (NewLine c)"
proof -
  assume "console_ok c \<or> (CurCol c = Cols c \<and> console_ok (c\<lparr>CurCol := 0\<rparr>))"
  then have ok: "console_ok (c\<lparr>CurCol := 0\<rparr>)" by (auto simp: console_ok_def frame_ok_def)
  show ?thesis
  proof (cases "CurRow c + 1 < Rows c")
    case True
    with ok show ?thesis by (simp add: NewLine_def console_ok_def frame_ok_def)
  next
    case False
    have "console_ok (ScrollUp (c\<lparr>CurCol := 0\<rparr>))"
      by (rule marks_ok [OF ScrollUp_marks ok]) (use ok in \<open>simp_all add: ScrollUp_cursor console_ok_def\<close>)
    with False show ?thesis by (simp add: NewLine_def)
  qed
qed

lemma Backspace_keeps: "console_ok c \<Longrightarrow> console_ok (Backspace c) \<and> marks c (Backspace c)"
  by (auto simp: Backspace_def BlankCursor_def console_ok_def frame_ok_def marks_def)

lemma PutGlyph_keeps:
  assumes "console_ok c"
  shows "console_ok (PutGlyph ch c)" "marks c (PutGlyph ch c)"
proof -
  define d where "d = c\<lparr>Chars := (Chars c)(CurRow c := (Chars c (CurRow c))(CurCol c := ch)),
                     Attrs := (Attrs c)(CurRow c := (Attrs c (CurRow c))(CurCol c := CurAttr c)),
                     Dirty := (Dirty c)(CurRow c := True), CurCol := CurCol c + 1\<rparr>"
  have put: "PutGlyph ch c = (if ch < 32 \<or> ch > 126 then c else if CurCol d \<ge> Cols d then NewLine d else d)"
    by (simp add: PutGlyph_def d_def)
  have m: "marks c d" by (auto simp: marks_def d_def)
  have d: "console_ok d \<or> (CurCol d = Cols d \<and> console_ok (d\<lparr>CurCol := 0\<rparr>))"
    using assms by (auto simp: d_def console_ok_def frame_ok_def)
  have "\<not> CurCol d \<ge> Cols d \<Longrightarrow> console_ok d" using d by auto
  with assms NewLine_ok [OF d] show "console_ok (PutGlyph ch c)" by (simp add: put)
  from m marks_trans [OF m NewLine_marks] show "marks c (PutGlyph ch c)" by (simp add: put)
qed

lemma marks_size: "marks c c' \<Longrightarrow> Cols c' = Cols c \<and> Rows c' = Rows c"
  by (simp add: marks_def)

section \<open>The tab loop\<close>

text \<open>Before the end of the line each blank moves the cursor by one.\<close>
lemma PutGlyph_space:
  "CurCol c + 1 < Cols c \<Longrightarrow> CurCol (PutGlyph 32 c) = CurCol c + 1"
  by (simp add: PutGlyph_def Let_def)

lemma TabLoop_ends:
  "console_ok c \<Longrightarrow> Nxt < Cols c \<Longrightarrow> \<exists>c'. TabLoop Nxt c = Some c' \<and> console_ok c' \<and> marks c c'"
proof (induction "Nxt - CurCol c" arbitrary: c)
  case 0
  then show ?case by (auto simp: TabLoop.simps [of Nxt c])
next
  case (Suc n)
  let ?d = "PutGlyph 32 c"
  note keep = PutGlyph_keeps [OF Suc.prems(1), of 32]
  have "CurCol ?d = CurCol c + 1" using Suc.hyps(2) Suc.prems(2) by (intro PutGlyph_space) simp
  with Suc.hyps(2) have "n = Nxt - CurCol ?d" "CurCol c < Nxt" by simp_all
  moreover have "Nxt < Cols ?d" using Suc.prems(2) marks_size [OF keep(2)] by simp
  ultimately obtain c' where "TabLoop Nxt ?d = Some c'" "console_ok c'" "marks ?d c'"
    using Suc.hyps(1) keep(1) by blast
  with \<open>CurCol c < Nxt\<close> marks_trans [OF keep(2)] show ?case
    by (auto simp: TabLoop.simps [of Nxt c])
qed

text \<open>At the last tab stop the cursor wraps to the next line and the loop never ends.\<close>
lemma TabLoop_diverges:
  assumes "console_ok c" "Cols c \<le> Nxt"
  shows "TabLoop Nxt c = None"
proof (rule ccontr)
  assume "TabLoop Nxt c \<noteq> None"
  then obtain y where "TabLoop Nxt c = Some y" by blast
  then have "\<not> (console_ok c \<and> Cols c \<le> Nxt)"
  proof (rule TabLoop.raw_induct [rotated])
    fix f :: "nat \<Rightarrow> 'a console_scheme \<Rightarrow> 'a console_scheme option" and Nxt c y
    assume IH: "\<And>Nxt c y. f Nxt c = Some y \<Longrightarrow> \<not> (console_ok c \<and> Cols c \<le> Nxt)"
      and run: "(if CurCol c < Nxt then f Nxt (PutGlyph (chr_code CHR '' '') c) else Some c) = Some y"
    show "\<not> (console_ok c \<and> Cols c \<le> Nxt)"
    proof
      assume c: "console_ok c \<and> Cols c \<le> Nxt"
      then have "CurCol c < Nxt" by (simp add: console_ok_def)
      with run have "f Nxt (PutGlyph 32 c) = Some y" by simp
      from IH [OF this] c PutGlyph_keeps [of c 32] show False
        using marks_size [of c "PutGlyph 32 c"] by simp
    qed
  qed
  with assms show False by simp
qed
section \<open>The flush\<close>

text \<open>The colour a pixel of a cell is to have.\<close>
definition want :: "'a console_scheme \<Rightarrow> nat \<Rightarrow> nat \<Rightarrow> nat \<Rightarrow> nat \<Rightarrow> u32" where
  "want c r col dy dx = (if r = CurRow c \<and> col = CurCol c
     then cell_pixel (Chars c r col) BACKGROUND 0x00E0D0FF dy dx
     else cell_pixel (Chars c r col) (Palette ! unat (Attrs c r col AND 3)) BACKGROUND dy dx)"

text \<open>Only the pixels differ.\<close>
definition repainted :: "'a console_scheme \<Rightarrow> 'a console_scheme \<Rightarrow> bool" where
  "repainted c d \<longleftrightarrow> (\<exists>F. d = c\<lparr>Frame := F\<rparr>)"

lemma repainted_screen: "same_screen c d = repainted c d"
  by (simp add: same_screen_def repainted_def)

lemma repainted_refl: "repainted c c"
  by (simp add: repainted_screen [symmetric])

lemma repainted_fields:
  assumes "repainted c d"
  shows "Chars d = Chars c" "Attrs d = Attrs c" "Dirty d = Dirty c" "Cols d = Cols c" "Rows d = Rows c"
    "CurCol d = CurCol c" "CurRow d = CurRow c" "PrevRow d = PrevRow c" "Stride d = Stride c"
    "ScreenWidth d = ScreenWidth c" "ScreenHeight d = ScreenHeight c" "want d = want c" "console_ok d = console_ok c"
proof -
  from assms obtain F where "d = c\<lparr>Frame := F\<rparr>" by (auto simp: repainted_def)
  then show "Chars d = Chars c" "Attrs d = Attrs c" "Dirty d = Dirty c" "Cols d = Cols c" "Rows d = Rows c"
    "CurCol d = CurCol c" "CurRow d = CurRow c" "PrevRow d = PrevRow c" "Stride d = Stride c"
    "ScreenWidth d = ScreenWidth c" "ScreenHeight d = ScreenHeight c" "want d = want c" "console_ok d = console_ok c"
    by (simp_all add: want_def console_ok_def frame_ok_def fun_eq_iff)
qed

lemma repainted_trans: "repainted a b \<Longrightarrow> repainted b c \<Longrightarrow> repainted a c"
  by (auto simp: repainted_def)

definition DrawOne :: "nat \<Rightarrow> nat \<Rightarrow> 'a console_scheme \<Rightarrow> 'a console_scheme" where
  "DrawOne r col c = DrawCell (of_nat (8 + col * 8)) (of_nat (8 + r * 16)) (Chars c r col)
     (if r = CurRow c \<and> col = CurCol c then BACKGROUND else Palette ! unat (Attrs c r col AND 3))
     (if r = CurRow c \<and> col = CurCol c then 0x00E0D0FF else BACKGROUND) c"

lemma DrawRow_fold: "DrawRow r c = fold (DrawOne r) [0..<Cols c] c"
  unfolding DrawRow_def DrawOne_def [abs_def] Let_def MARGIN_def FONT_WIDTH_def FONT_HEIGHT_def
  by (rule fold_cong [OF refl refl], rule ext)
     (simp add: Palette_def CONSOLE_ATTR_NORMAL_def split: if_split)

lemma DrawOne_repainted: "repainted c (DrawOne r col c)"
  unfolding DrawOne_def repainted_screen [symmetric] by simp

lemma grid_row: "dy < 16 \<Longrightarrow> (8 + r * 16 \<le> 8 + r' * 16 + dy \<and> 8 + r' * 16 + dy < 8 + r * 16 + 16) \<longleftrightarrow> r' = (r :: nat)"
  by linarith

lemma grid_col: "dx < 8 \<Longrightarrow> (8 + n * 8 \<le> 8 + k * 8 + dx \<and> 8 + k * 8 + dx < 8 + n * 8 + 8) \<longleftrightarrow> k = (n :: nat)"
  by linarith

lemma DrawOne_pixel:
  assumes ok: "console_ok c" and at: "r < Rows c" "col < Cols c" and r': "r' < Rows c" "k < Cols c" "dx < 8" "dy < 16"
  shows "pixel (DrawOne r col c) (8 + k * 8 + dx) (8 + r' * 16 + dy) =
    (if r' = r \<and> k = col then want c r col dy dx else pixel c (8 + k * 8 + dx) (8 + r' * 16 + dy))"
proof -
  let ?S = "unat (Stride c)" and ?x = "of_nat (8 + col * 8) :: u32" and ?y = "of_nat (8 + r * 16) :: u32"
  have size: "Cols c \<le> 256" "Rows c \<le> 128" "16 + Cols c * 8 \<le> ?S" "16 + Rows c * 16 \<le> unat (ScreenHeight c)"
      "unat (ScreenHeight c) * ?S < 2 ^ 64"
    using ok by (simp_all add: console_ok_def MAX_COLS_def MAX_ROWS_def frame_ok_def word_le_nat_alt)
  have x: "unat ?x = 8 + col * 8" and y: "unat ?y = 8 + r * 16"
    using size at by (intro unat_of_nat_small; simp)+
  have rows: "q * ?S \<le> 2 ^ 64" if "q \<le> 16 + Rows c * 16" for q
    using mult_le_mono1 [OF le_trans [OF that size(4)], of ?S] size(5) by linarith
  have "Suc (8 + r' * 16 + dy) * ?S \<le> 2 ^ 64" by (rule rows) (use r' in simp)
  moreover have "Suc (8 + r' * 16 + dy) * ?S = (8 + r' * 16 + dy) * ?S + ?S" by (simp only: mult_Suc add.commute)
  ultimately have py: "(8 + r' * 16 + dy) * ?S + ?S \<le> 2 ^ 64" by (simp only:)
  have "(8 + r * 16 + 16) * ?S \<le> 2 ^ 64" by (rule rows) (use at in simp)
  with size x y at r' py
  have "pixel (DrawOne r col c) (8 + k * 8 + dx) (8 + r' * 16 + dy) =
      (if 8 + r * 16 \<le> 8 + r' * 16 + dy \<and> 8 + r' * 16 + dy < 8 + r * 16 + 16 \<and>
          8 + col * 8 \<le> 8 + k * 8 + dx \<and> 8 + k * 8 + dx < 8 + col * 8 + 8
       then cell_pixel (Chars c r col) (if r = CurRow c \<and> col = CurCol c then BACKGROUND else Palette ! unat (Attrs c r col AND 3))
         (if r = CurRow c \<and> col = CurCol c then 0x00E0D0FF else BACKGROUND) (8 + r' * 16 + dy - (8 + r * 16)) (8 + k * 8 + dx - (8 + col * 8))
       else pixel c (8 + k * 8 + dx) (8 + r' * 16 + dy))"
    unfolding DrawOne_def by (subst DrawCell_pixel) (simp_all only: x y; simp)+
  then show ?thesis
    using grid_row [OF r'(4), of r r'] grid_col [OF r'(3), of col k] by (auto simp: want_def)
qed

lemma DrawRow_upto:
  assumes "console_ok c" "r < Rows c"
  shows "n \<le> Cols c \<Longrightarrow> repainted c (fold (DrawOne r) [0..<n] c) \<and>
    (\<forall>r' < Rows c. \<forall>k < Cols c. \<forall>dx < 8. \<forall>dy < 16.
       pixel (fold (DrawOne r) [0..<n] c) (8 + k * 8 + dx) (8 + r' * 16 + dy) =
         (if r' = r \<and> k < n then want c r k dy dx else pixel c (8 + k * 8 + dx) (8 + r' * 16 + dy)))"
proof (induction n)
  case (Suc n)
  let ?d = "fold (DrawOne r) [0..<n] c"
  have rep: "repainted c ?d" using Suc by simp
  note f = repainted_fields [OF rep]
  have "repainted c (DrawOne r n ?d)" by (rule repainted_trans [OF rep DrawOne_repainted])
  moreover have "pixel (DrawOne r n ?d) (8 + k * 8 + dx) (8 + r' * 16 + dy) =
      (if r' = r \<and> k < Suc n then want c r k dy dx else pixel c (8 + k * 8 + dx) (8 + r' * 16 + dy))"
    if "r' < Rows c" "k < Cols c" "dx < 8" "dy < 16" for r' k dx dy
  proof -
    have "pixel (DrawOne r n ?d) (8 + k * 8 + dx) (8 + r' * 16 + dy) =
        (if r' = r \<and> k = n then want ?d r n dy dx else pixel ?d (8 + k * 8 + dx) (8 + r' * 16 + dy))"
      by (rule DrawOne_pixel) (use assms Suc.prems that f in simp_all)
    with Suc that show ?thesis by (auto simp: f)
  qed
  ultimately show ?case by simp
qed (simp add: repainted_refl)

lemma row_shown_want:
  "row_shown c r (if r = CurRow c then Some (CurCol c) else None) \<longleftrightarrow>
   (\<forall>k < Cols c. \<forall>dx < 8. \<forall>dy < 16. pixel c (8 + k * 8 + dx) (8 + r * 16 + dy) = want c r k dy dx)"
  by (auto simp: row_shown_def cell_shown_def want_def)

lemma DrawRow_spec:
  assumes "console_ok c" "r < Rows c"
  shows "repainted c (DrawRow r c)" "row_shown (DrawRow r c) r (if r = CurRow c then Some (CurCol c) else None)"
    and "r' < Rows c \<Longrightarrow> r' \<noteq> r \<Longrightarrow> row_shown (DrawRow r c) r' cur = row_shown c r' cur"
proof -
  note up = DrawRow_upto [OF assms order_refl, folded DrawRow_fold]
  then show rep: "repainted c (DrawRow r c)" by blast
  note f = repainted_fields [OF rep]
  have "row_shown (DrawRow r c) r (if r = CurRow (DrawRow r c) then Some (CurCol (DrawRow r c)) else None)"
    unfolding row_shown_want using up assms(2) by (simp add: f)
  then show "row_shown (DrawRow r c) r (if r = CurRow c then Some (CurCol c) else None)"
    unfolding f(6,7) .
  show "r' < Rows c \<Longrightarrow> r' \<noteq> r \<Longrightarrow> row_shown (DrawRow r c) r' cur = row_shown c r' cur"
    using up by (simp add: row_shown_def cell_shown_def f)
qed
definition FlushRow :: "nat \<Rightarrow> 'a console_scheme \<Rightarrow> 'a console_scheme" where
  "FlushRow r c = (if Dirty c r \<or> r = CurRow c \<or> r = PrevRow c
     then (DrawRow r c)\<lparr>Dirty := (Dirty c)(r := False)\<rparr> else c)"

lemma ConsoleFlush_fold: "ConsoleFlush c = (let d = fold FlushRow [0..<Rows c] c in d\<lparr>PrevRow := CurRow d\<rparr>)"
  by (simp add: ConsoleFlush_def FlushRow_def [abs_def])

text \<open>Only pixels and marks differ.\<close>
definition flushed :: "'a console_scheme \<Rightarrow> 'a console_scheme \<Rightarrow> bool" where
  "flushed c d \<longleftrightarrow> (\<exists>F D. d = c\<lparr>Frame := F, Dirty := D\<rparr>)"

lemma flushed_fields:
  assumes "flushed c d"
  shows "Cols d = Cols c" "Rows d = Rows c" "CurCol d = CurCol c" "CurRow d = CurRow c" "PrevRow d = PrevRow c"
    "console_ok d = console_ok c"
  using assms by (auto simp: flushed_def console_ok_def frame_ok_def)

lemma flushed_trans:
  assumes "flushed a b" "flushed b c"
  shows "flushed a c"
proof -
  from assms obtain F D F' D' where "b = a\<lparr>Frame := F, Dirty := D\<rparr>" "c = b\<lparr>Frame := F', Dirty := D'\<rparr>"
    unfolding flushed_def by blast
  then have "c = a\<lparr>Frame := F', Dirty := D'\<rparr>" by simp
  then show ?thesis unfolding flushed_def by blast
qed

definition cursor_at :: "'a console_scheme \<Rightarrow> nat \<Rightarrow> nat option" where
  "cursor_at c r = (if r = CurRow c then Some (CurCol c) else None)"

lemma row_shown_marks [simp]: "row_shown (c\<lparr>Dirty := D\<rparr>) r cur = row_shown c r cur"
  "row_shown (c\<lparr>PrevRow := p\<rparr>) r cur = row_shown c r cur"
  by (simp_all add: row_shown_def cell_shown_def pixel_def)

lemma FlushRow_spec:
  assumes "console_ok c" "r < Rows c" "Dirty c r \<or> r = PrevRow c \<or> row_shown c r None"
  shows "flushed c (FlushRow r c)" "row_shown (FlushRow r c) r (cursor_at c r)" "\<not> Dirty (FlushRow r c) r"
    and "r' \<noteq> r \<Longrightarrow> Dirty (FlushRow r c) r' = Dirty c r'"
    and "r' < Rows c \<Longrightarrow> r' \<noteq> r \<Longrightarrow> row_shown (FlushRow r c) r' cur = row_shown c r' cur"
proof -
  note draw = DrawRow_spec [OF assms(1,2)] and f = repainted_fields [OF DrawRow_spec(1) [OF assms(1,2)]]
  from draw(1) obtain F where F: "DrawRow r c = c\<lparr>Frame := F\<rparr>" by (auto simp: repainted_def)
  have "flushed c c" unfolding flushed_def by (intro exI [of _ "Frame c"] exI [of _ "Dirty c"]) simp
  then show "flushed c (FlushRow r c)" by (auto simp: FlushRow_def F flushed_def)
  show "row_shown (FlushRow r c) r (cursor_at c r)"
    using draw(2) assms(3) by (auto simp: FlushRow_def cursor_at_def)
  show "\<not> Dirty (FlushRow r c) r" by (auto simp: FlushRow_def F)
  show "r' \<noteq> r \<Longrightarrow> Dirty (FlushRow r c) r' = Dirty c r'" by (simp add: FlushRow_def F)
  show "r' < Rows c \<Longrightarrow> r' \<noteq> r \<Longrightarrow> row_shown (FlushRow r c) r' cur = row_shown c r' cur"
    using draw(3) by (simp add: FlushRow_def)
qed

lemma flush_upto:
  assumes "console_ok c" "synced c"
  shows "n \<le> Rows c \<Longrightarrow> flushed c (fold FlushRow [0..<n] c) \<and>
    (\<forall>r < n. row_shown (fold FlushRow [0..<n] c) r (cursor_at c r) \<and> \<not> Dirty (fold FlushRow [0..<n] c) r) \<and>
    (\<forall>r < Rows c. n \<le> r \<longrightarrow> Dirty (fold FlushRow [0..<n] c) r = Dirty c r \<and>
       (\<forall>cur. row_shown (fold FlushRow [0..<n] c) r cur = row_shown c r cur))"
proof (induction n)
  case 0
  have "flushed c c" unfolding flushed_def by (intro exI [of _ "Frame c"] exI [of _ "Dirty c"]) simp
  then show ?case by simp
next
  case (Suc n)
  let ?d = "fold FlushRow [0..<n] c"
  from Suc have IH: "flushed c ?d" "\<And>r. r < n \<Longrightarrow> row_shown ?d r (cursor_at c r) \<and> \<not> Dirty ?d r"
    "\<And>r cur. r < Rows c \<Longrightarrow> n \<le> r \<Longrightarrow> Dirty ?d r = Dirty c r \<and> row_shown ?d r cur = row_shown c r cur" by simp_all
  note f = flushed_fields [OF IH(1)]
  have n: "n < Rows ?d" "console_ok ?d" using Suc.prems assms(1) by (simp_all add: f)
  have "Dirty ?d n \<or> n = PrevRow ?d \<or> row_shown ?d n None"
    using assms(2) Suc.prems IH(3) [of n] by (simp add: synced_def f)
  note row = FlushRow_spec [OF n(2,1) this]
  have at: "cursor_at ?d r = cursor_at c r" for r by (simp add: cursor_at_def f)
  have "flushed c (FlushRow n ?d)" by (rule flushed_trans [OF IH(1) row(1)])
  moreover have "row_shown (FlushRow n ?d) r (cursor_at c r) \<and> \<not> Dirty (FlushRow n ?d) r" if "r < Suc n" for r
    using that row(2,3) row(4) [of r] row(5) [of r] IH(2) [of r] n(1) by (cases "r = n") (simp_all add: at)
  moreover have "Dirty (FlushRow n ?d) r = Dirty c r \<and> row_shown (FlushRow n ?d) r cur = row_shown c r cur"
    if "r < Rows c" "Suc n \<le> r" for r cur
    using that row(4) [of r] row(5) [of r cur] IH(3) [of r cur] by (simp add: f)
  ultimately show ?case by simp
qed

lemma ConsoleFlush_spec:
  assumes "console_ok c" "synced c"
  shows "console_ok (ConsoleFlush c)" "synced (ConsoleFlush c)" "all_shown (ConsoleFlush c)"
    "Rows (ConsoleFlush c) = Rows c" "CurRow (ConsoleFlush c) = CurRow c" "CurCol (ConsoleFlush c) = CurCol c"
proof -
  define d where "d = fold FlushRow [0..<Rows c] c"
  note up = flush_upto [OF assms order_refl, folded d_def]
  then have fl: "flushed c d" and rows: "\<And>r. r < Rows c \<Longrightarrow> row_shown d r (cursor_at c r) \<and> \<not> Dirty d r" by blast+
  note f = flushed_fields [OF fl]
  have eq: "ConsoleFlush c = d\<lparr>PrevRow := CurRow d\<rparr>" by (simp add: ConsoleFlush_fold d_def Let_def)
  show "console_ok (ConsoleFlush c)" using assms(1) f(6) by (simp add: eq console_ok_def frame_ok_def)
  show "all_shown (ConsoleFlush c)"
    unfolding all_shown_def cursor_at_def [symmetric] using rows by (simp add: eq f cursor_at_def cong: if_cong)
  show "synced (ConsoleFlush c)" unfolding synced_def
  proof (intro allI impI)
    fix r assume "r < Rows (ConsoleFlush c)"
    with rows [of r] show "Dirty (ConsoleFlush c) r \<or> r = PrevRow (ConsoleFlush c) \<or> row_shown (ConsoleFlush c) r None"
      by (cases "r = CurRow c") (simp_all add: eq f cursor_at_def)
  qed
  show "Rows (ConsoleFlush c) = Rows c" "CurRow (ConsoleFlush c) = CurRow c" "CurCol (ConsoleFlush c) = CurCol c"
    by (simp_all add: eq f)
qed

section \<open>Clearing and starting\<close>

text \<open>When every row is marked, the screen may hold anything.\<close>
lemma dirty_synced: "\<forall>r < Rows c. Dirty c r \<Longrightarrow> synced c"
  by (simp add: synced_def)

lemma ClearRows_frame:
  "\<exists>C A D. fold ClearRow rs c = c\<lparr>Chars := C, Attrs := A, Dirty := D\<rparr> \<and> (\<forall>r \<in> set rs. D r) \<and> (\<forall>r. Dirty c r \<longrightarrow> D r)"
proof (induction rs arbitrary: c)
  case Nil
  show ?case by (intro exI [of _ "Chars c"] exI [of _ "Attrs c"] exI [of _ "Dirty c"]) simp
next
  case (Cons r rs)
  from Cons [of "ClearRow r c"] obtain C A D where
    all: "fold ClearRow rs (ClearRow r c) = (ClearRow r c)\<lparr>Chars := C, Attrs := A, Dirty := D\<rparr>"
      "\<forall>q \<in> set rs. D q" "\<forall>q. Dirty (ClearRow r c) q \<longrightarrow> D q" by blast
  have "(ClearRow r c)\<lparr>Chars := C, Attrs := A, Dirty := D\<rparr> = c\<lparr>Chars := C, Attrs := A, Dirty := D\<rparr>"
    by (simp add: ClearRow_def)
  moreover have "D r" "\<forall>q. Dirty c q \<longrightarrow> D q" using all(3) by (auto simp: ClearRow_def)
  ultimately have "fold ClearRow (r # rs) c = c\<lparr>Chars := C, Attrs := A, Dirty := D\<rparr> \<and> (\<forall>q \<in> set (r # rs). D q) \<and>
      (\<forall>q. Dirty c q \<longrightarrow> D q)" using all(1,2) by simp
  then show ?case by blast
qed

lemma ConsoleClear_spec:
  assumes "console_ok (c\<lparr>CurCol := 0, CurRow := 0\<rparr>)"
  shows "console_ok (ConsoleClear c)" "synced (ConsoleClear c)" "all_shown (ConsoleClear c)"
proof -
  from ClearRows_frame [of "[0..<MAX_ROWS]" c] obtain C A D where
    clear: "fold ClearRow [0..<MAX_ROWS] c = c\<lparr>Chars := C, Attrs := A, Dirty := D\<rparr>" and D: "\<forall>r < MAX_ROWS. D r"
    by auto
  define d where "d = FillScreen BACKGROUND (c\<lparr>Chars := C, Attrs := A, Dirty := D, CurCol := 0, CurRow := 0, PrevRow := 0\<rparr>)"
  have rep: "repainted (c\<lparr>Chars := C, Attrs := A, Dirty := D, CurCol := 0, CurRow := 0, PrevRow := 0\<rparr>) d"
    unfolding d_def repainted_screen [symmetric] by simp
  note f = repainted_fields [OF rep]
  have ok: "console_ok d" using assms unfolding f by (simp add: console_ok_def frame_ok_def)
  moreover have "synced d" using D ok by (intro dirty_synced) (auto simp: f console_ok_def)
  moreover have "ConsoleClear c = ConsoleFlush d" unfolding ConsoleClear_def clear d_def by simp
  ultimately show "console_ok (ConsoleClear c)" "synced (ConsoleClear c)" "all_shown (ConsoleClear c)"
    using ConsoleFlush_spec [of d] by simp_all
qed

lemma ConsoleRefresh_spec:
  assumes "console_ok c"
  shows "console_ok (ConsoleRefresh c)" "synced (ConsoleRefresh c)" "all_shown (ConsoleRefresh c)"
proof -
  have "repainted c (FillScreen BACKGROUND c)" unfolding repainted_screen [symmetric] by simp
  then obtain F where F: "FillScreen BACKGROUND c = c\<lparr>Frame := F\<rparr>" by (auto simp: repainted_def)
  define d where "d = c\<lparr>Frame := F, Dirty := (\<lambda>r. r < Rows c \<or> Dirty c r)\<rparr>"
  have "console_ok d" using assms by (simp add: d_def console_ok_def frame_ok_def)
  moreover have "synced d" by (intro dirty_synced) (simp add: d_def)
  moreover have "ConsoleRefresh c = ConsoleFlush d" by (simp add: ConsoleRefresh_def F d_def)
  ultimately show "console_ok (ConsoleRefresh c)" "synced (ConsoleRefresh c)" "all_shown (ConsoleRefresh c)"
    using ConsoleFlush_spec [of d] by simp_all
qed
section \<open>Using the console\<close>

lemma ConsoleInit_ok:
  assumes "frame_ok c" "24 \<le> unat (ScreenWidth c)" "32 \<le> unat (ScreenHeight c)"
    and "unat (ScreenWidth c) < 2 ^ 32" "unat (ScreenHeight c) < 2 ^ 32"
  shows "console_ok (ConsoleInit c)" "synced (ConsoleInit c)" "all_shown (ConsoleInit c)"
proof -
  let ?w = "unat (ScreenWidth c)" and ?h = "unat (ScreenHeight c)"
  have sub: "unat (x - 16 :: u64) = unat x - 16" if "16 \<le> unat x" for x
    using unat_sub_nowrap [of 16 x] that by (simp add: word_le_nat_alt)
  have cut: "unat (ucast y :: u32) = unat y" if "unat (y :: u64) < 2 ^ 32" for y
    using that by (simp add: unsigned_ucast_eq take_bit_nat_eq_self)
  have "unat ((ScreenWidth c - 16) div 8) = (?w - 16) div 8" "unat ((ScreenHeight c - 16) div 16) = (?h - 16) div 16"
    using assms(2,3) by (simp_all add: unat_div_word sub)
  moreover have "(?w - 16) div 8 < 2 ^ 32" "(?h - 16) div 16 < 2 ^ 32" using assms(4,5) by simp_all
  ultimately have size: "unat (ucast ((ScreenWidth c - 16) div 8) :: u32) = (?w - 16) div 8"
      "unat (ucast ((ScreenHeight c - 16) div 16) :: u32) = (?h - 16) div 16"
    by (simp_all add: cut)
  define d where "d = c\<lparr>Cols := if (?w - 16) div 8 > MAX_COLS then MAX_COLS else (?w - 16) div 8,
           Rows := if (?h - 16) div 16 > MAX_ROWS then MAX_ROWS else (?h - 16) div 16, CurAttr := CONSOLE_ATTR_NORMAL\<rparr>"
  have init: "ConsoleInit c = ConsoleClear d"
    unfolding ConsoleInit_def Let_def MARGIN_def FONT_WIDTH_def FONT_HEIGHT_def d_def by (simp add: size)
  have pos: "0 < (?w - 16) div 8" "0 < (?h - 16) div 16" using assms(2,3) by (simp_all add: div_greater_zero_iff)
  have cap: "16 + min 256 ((?w - 16) div 8) * 8 \<le> ?w" "16 + min 128 ((?h - 16) div 16) * 16 \<le> ?h"
    using assms(2,3) by linarith+
  have "console_ok (d\<lparr>CurCol := 0, CurRow := 0\<rparr>)"
    using assms(1) pos cap by (simp add: d_def console_ok_def frame_ok_def MAX_COLS_def MAX_ROWS_def min_def split: if_splits)
  from ConsoleClear_spec [OF this] show "console_ok (ConsoleInit c)" "synced (ConsoleInit c)" "all_shown (ConsoleInit c)"
    by (simp_all add: init)
qed

lemma ConsolePutChar_keeps:
  assumes "console_ok c" "ConsolePutChar ch c = Some c'"
  shows "console_ok c'" "marks c c'"
proof -
  note tab = TabLoop_ends [OF assms(1), of "(CurCol c + 4) div 4 * 4"]
    and div = TabLoop_diverges [OF assms(1), of "(CurCol c + 4) div 4 * 4"]
  have "console_ok (c\<lparr>CurCol := 0\<rparr>)" "marks c (c\<lparr>CurCol := 0\<rparr>)"
    using assms(1) by (auto simp: console_ok_def frame_ok_def marks_def)
  then show "console_ok c'" "marks c c'"
    using assms NewLine_ok [of c] NewLine_marks [of c] Backspace_keeps [OF assms(1)]
      PutGlyph_keeps [OF assms(1), of ch] tab div
    by (auto simp: ConsolePutChar_def split: if_splits) (metis not_le option.distinct(1) option.inject)+
qed

text \<open>The operations the rest of the kernel uses.\<close>
inductive console_step :: "'a console_scheme \<Rightarrow> 'a console_scheme \<Rightarrow> bool" where
  put: "ConsolePutChar ch c = Some c' \<Longrightarrow> console_step c c'"
| attr: "console_step c (ConsoleSetAttr a c)"
| flush: "console_step c (ConsoleFlush c)"
| clear: "console_step c (ConsoleClear c)"
| refresh: "console_step c (ConsoleRefresh c)"

lemma console_step_keeps:
  "console_step c c' \<Longrightarrow> console_ok c \<and> synced c \<Longrightarrow> console_ok c' \<and> synced c'"
proof (induction rule: console_step.induct)
  case (put ch c c')
  then show ?case using ConsolePutChar_keeps marks_synced by blast
next
  case (attr c a)
  then show ?case
    by (auto simp: ConsoleSetAttr_def console_ok_def frame_ok_def synced_def row_shown_def cell_shown_def pixel_def)
next
  case (flush c)
  then show ?case using ConsoleFlush_spec by blast
next
  case (clear c)
  then have "console_ok (c\<lparr>CurCol := 0, CurRow := 0\<rparr>)" by (auto simp: console_ok_def frame_ok_def)
  then show ?case using ConsoleClear_spec by blast
next
  case (refresh c)
  then show ?case using ConsoleRefresh_spec by blast
qed

text \<open>C14: What is on the screen is what was printed: from a fresh console, after any sequence of
  printing, scrolling, erasing, clearing and refreshing, the cursor stays on the grid, and one flush, which redraws
  only the marked rows and the rows of the two cursors, leaves every pixel of every character cell the
  way the grid, its attributes and the cursor say.\<close>
theorem console_shows:
  assumes "frame_ok c" "24 \<le> unat (ScreenWidth c)" "32 \<le> unat (ScreenHeight c)"
    and "unat (ScreenWidth c) < 2 ^ 32" "unat (ScreenHeight c) < 2 ^ 32"
    and "console_step\<^sup>*\<^sup>* (ConsoleInit c) c'"
  shows "CurCol c' < Cols c' \<and> CurRow c' < Rows c' \<and> all_shown (ConsoleFlush c')"
proof -
  have "console_ok c' \<and> synced c'"
    using assms(6) ConsoleInit_ok [OF assms(1-5)]
    by (induction rule: rtranclp_induct) (auto dest: console_step_keeps)
  then have ok: "console_ok c'" "synced c'" by blast+
  then show ?thesis using ConsoleFlush_spec(3) [OF ok] unfolding console_ok_def by blast
qed

text \<open>C15: Printing a character returns, except a tab whose stop lies at or beyond the right edge: there the
  blanks wrap to the next line before the stop is reached, and the loop never ends.\<close>
theorem ConsolePutChar_returns:
  assumes "console_ok c"
  shows "(\<exists>c'. ConsolePutChar ch c = Some c' \<and> console_ok c') \<longleftrightarrow>
    \<not> (ch = 9 \<and> Cols c \<le> (CurCol c + 4) div 4 * 4)"
proof (cases "ch = 9")
  case True
  then have put: "ConsolePutChar ch c = TabLoop ((CurCol c + 4) div 4 * 4) c" by (simp add: ConsolePutChar_def)
  show ?thesis
  proof (cases "Cols c \<le> (CurCol c + 4) div 4 * 4")
    case True
    from TabLoop_diverges [OF assms this] show ?thesis unfolding put using \<open>ch = 9\<close> True by simp
  next
    case False
    with TabLoop_ends [OF assms, of "(CurCol c + 4) div 4 * 4"] show ?thesis by (auto simp: put)
  qed
next
  case False
  then have "\<exists>c'. ConsolePutChar ch c = Some c'" by (simp add: ConsolePutChar_def)
  with ConsolePutChar_keeps(1) [OF assms] False show ?thesis by blast
qed

text \<open>A screen of 800 by 600.\<close>
definition demo_console :: console where
  "demo_console = \<lparr>Frame = (\<lambda>_. 0), ScreenWidth = 800, ScreenHeight = 600, Stride = 800, Chars = (\<lambda>_ _. 0),
     Attrs = (\<lambda>_ _. 0), Dirty = (\<lambda>_. False), Cols = 98, Rows = 36, CurCol = 97, CurRow = 0, PrevRow = 0, CurAttr = 0\<rparr>"

lemma demo_console_ok: "console_ok demo_console"
  by (simp add: demo_console_def console_ok_def MAX_COLS_def MAX_ROWS_def frame_ok_def)

lemma console_shows_witness:
  "all_shown (ConsoleFlush (PutGlyph 65 (ConsoleInit demo_console)))"
proof -
  have "console_step\<^sup>*\<^sup>* (ConsoleInit demo_console) (PutGlyph 65 (ConsoleInit demo_console))"
    by (rule r_into_rtranclp [of console_step, OF console_step.put [of 65]]) (simp add: ConsolePutChar_def)
  from console_shows [OF _ _ _ _ _ this] show ?thesis by (simp add: demo_console_def frame_ok_def)
qed

lemma ConsolePutChar_returns_witness:
  "ConsolePutChar 9 demo_console = None \<and> (\<exists>c'. ConsolePutChar 65 demo_console = Some c')"
proof -
  have "\<not> (\<exists>c'. ConsolePutChar 9 demo_console = Some c' \<and> console_ok c')"
    using ConsolePutChar_returns [OF demo_console_ok, of 9] by (simp add: demo_console_def)
  with ConsolePutChar_keeps(1) [OF demo_console_ok] have "ConsolePutChar 9 demo_console = None"
    by (cases "ConsolePutChar 9 demo_console") auto
  moreover have "\<exists>c'. ConsolePutChar 65 demo_console = Some c'"
    using ConsolePutChar_returns [OF demo_console_ok, of 65] by auto
  ultimately show ?thesis ..
qed

end
