(* ===== verification/Wav.thy ===== *)
theory Wav
  imports FsCorrect
begin

text \<open>
  The WAV reader (\<open>kernel/wav.c\<close>): the walk over the chunks of a RIFF file, with every size and
  position in 32 bits, and the conversion of PCM frames to 16-bit stereo.
\<close>

section \<open>Parsing\<close>

definition WAV_ERR_READ :: int where "WAV_ERR_READ = -1"
definition WAV_ERR_NOTWAV :: int where "WAV_ERR_NOTWAV = -2"
definition WAV_ERR_FORMAT :: int where "WAV_ERR_FORMAT = -3"
definition WAV_ERR_NODATA :: int where "WAV_ERR_NODATA = -4"

lemmas wav_codes = WAV_ERR_READ_def WAV_ERR_NOTWAV_def WAV_ERR_FORMAT_def WAV_ERR_NODATA_def

record wav_info =
  Channels :: u16
  BitsPerSample :: u16
  BlockAlign :: u16
  SampleRate :: u32
  DataOffset :: u32
  DataBytes :: u32

definition TagEq :: "u8 list \<Rightarrow> nat \<Rightarrow> string \<Rightarrow> bool" where
  "TagEq p off Tag \<longleftrightarrow> bget p off = lit Tag ! 0 \<and> bget p (off + 1) = lit Tag ! 1 \<and>
     bget p (off + 2) = lit Tag ! 2 \<and> bget p (off + 3) = lit Tag ! 3"

text \<open>The fields of the format chunk; the flag is false for an unsupported format, and then the
  fields that were set before the failing check are set.\<close>
definition ParseFmt :: "u8 list \<Rightarrow> u32 \<Rightarrow> wav_info \<Rightarrow> bool \<times> wav_info" where
  "ParseFmt Fmt Want Info =
     (let Tag = Le16 Fmt 0; Tag = (if Tag = 0xFFFE \<and> Want \<ge> 26 then Le16 Fmt 24 else Tag)
      in if Tag \<noteq> 1 then (False, Info)
      else let Info = Info\<lparr>Channels := Le16 Fmt 2, SampleRate := Le32 Fmt 4, BlockAlign := Le16 Fmt 12,
                           BitsPerSample := Le16 Fmt 14\<rparr>
      in if Channels Info = 0 \<or> Channels Info > 8 then (False, Info)
      else if BitsPerSample Info \<noteq> 8 \<and> BitsPerSample Info \<noteq> 16 \<and> BitsPerSample Info \<noteq> 24 \<and> BitsPerSample Info \<noteq> 32
      then (False, Info)
      else if uint (BlockAlign Info) \<noteq> uint (Channels Info) * (uint (BitsPerSample Info) div 8) then (False, Info)
      else (True, Info))"

text \<open>The position grows in every round, even when the sum wraps: a wrapped sum ends the loop.\<close>
lemma pos_grows: "\<not> Nxt \<le> Pos \<Longrightarrow> 2 ^ 32 - unat (Nxt :: u32) < 2 ^ 32 - unat Pos"
  using unat_u32_lt [of Nxt] by (simp add: word_le_nat_alt)

text \<open>The chunk loop; the arguments are \<open>HaveFmt\<close> and \<open>Pos\<close>.\<close>
function WavLoop :: "fs_node \<Rightarrow> bool \<Rightarrow> u32 \<Rightarrow> wav_info \<Rightarrow> 'a filesys_scheme \<Rightarrow> int \<times> wav_info \<times> 'a filesys_scheme" where
  "WavLoop N HaveFmt Pos Info st =
     (let FileSize = EntrySize (NodeEntry N)
      in if \<not> Pos + 8 \<le> FileSize then (if HaveFmt then WAV_ERR_NODATA else WAV_ERR_FORMAT, Info, st)
      else case FsRead N Pos 8 st of (don, Chunk, st) \<Rightarrow>
        if don \<noteq> 8 then (WAV_ERR_READ, Info, st)
        else let Size = Le32 Chunk 4; Body = Pos + 8; Nxt = Body + Size + (Size AND 1)
        in if TagEq Chunk 0 ''fmt ''
        then let Want = (if Size < 40 then Size else 40)
             in if Want < 16 then (WAV_ERR_FORMAT, Info, st)
             else (case FsRead N Body Want st of (don, Fmt, st) \<Rightarrow>
               if don \<noteq> Want then (WAV_ERR_FORMAT, Info, st)
               else case ParseFmt Fmt Want Info of (ok, Info) \<Rightarrow>
                 if \<not> ok then (WAV_ERR_FORMAT, Info, st)
                 else if Nxt \<le> Pos then (WAV_ERR_NODATA, Info, st)
                 else WavLoop N True Nxt Info st)
        else if TagEq Chunk 0 ''data''
        then if \<not> HaveFmt then (WAV_ERR_FORMAT, Info, st)
             else let Avail = FileSize - Body;
                      Size = (if Size > Avail then Avail else Size);
                      Size = Size - Size mod ucast (BlockAlign Info)
                  in if Size = 0 then (WAV_ERR_NODATA, Info, st)
                     else (1, Info\<lparr>DataOffset := Body, DataBytes := Size\<rparr>, st)
        else if Nxt \<le> Pos then (if HaveFmt then WAV_ERR_NODATA else WAV_ERR_FORMAT, Info, st)
        else WavLoop N HaveFmt Nxt Info st)"
  by pat_completeness auto

termination
  by (relation "measure (\<lambda>(N, HaveFmt, Pos, Info, st). 2 ^ 32 - unat Pos)")
     (simp only: wf_measure, (simp only: in_measure prod.case, erule pos_grows)+)

declare WavLoop.simps [simp del]

definition WavParse :: "fs_node \<Rightarrow> wav_info \<Rightarrow> 'a filesys_scheme \<Rightarrow> int \<times> wav_info \<times> 'a filesys_scheme" where
  "WavParse N Info st =
     (let FileSize = EntrySize (NodeEntry N)
      in if FileSize < 12 then (WAV_ERR_NOTWAV, Info, st)
      else case FsRead N 0 12 st of (don, Head, st) \<Rightarrow>
        if don \<noteq> 12 then (WAV_ERR_NOTWAV, Info, st)
        else if \<not> TagEq Head 0 ''RIFF'' \<or> \<not> TagEq Head 8 ''WAVE'' then (WAV_ERR_NOTWAV, Info, st)
        else WavLoop N False 12 (Info\<lparr>DataBytes := 0, DataOffset := 0\<rparr>) st)"

section \<open>Converting\<close>

type_synonym i16 = "16 word"

definition DecodeSample :: "u8 list \<Rightarrow> nat \<Rightarrow> u16 \<Rightarrow> i16" where
  "DecodeSample p off Bits =
     (if Bits = 8 then push_bit 8 (of_int (uint (bget p off) - 128))
      else if Bits = 16 then Le16 p off
      else if Bits = 24 then Le16 p (off + 1)
      else Le16 p (off + 2))"

definition WavConvert :: "wav_info \<Rightarrow> u8 list \<Rightarrow> nat \<Rightarrow> i16 list" where
  "WavConvert Info Src Frames =
     (let Bytes = unat (BitsPerSample Info) div 8
      in concat (map (\<lambda>i.
           let Frm = i * unat (BlockAlign Info);
               Left = DecodeSample Src Frm (BitsPerSample Info);
               Right = (if Channels Info > 1 then DecodeSample Src (Frm + Bytes) (BitsPerSample Info) else Left)
           in [Left, Right]) [0..<Frames]))"

definition WavErrorText :: "int \<Rightarrow> string" where
  "WavErrorText Code =
     (if Code = WAV_ERR_READ then ''read error''
      else if Code = WAV_ERR_NOTWAV then ''not a RIFF/WAVE file''
      else if Code = WAV_ERR_FORMAT then ''unsupported WAV format (need PCM 8/16/24/32-bit, 1-8 channels)''
      else if Code = WAV_ERR_NODATA then ''no audio data''
      else ''unknown error'')"
section \<open>What a successful parse promises\<close>

definition supported :: "wav_info \<Rightarrow> bool" where
  "supported I \<longleftrightarrow> 1 \<le> unat (Channels I) \<and> unat (Channels I) \<le> 8 \<and> unat (BitsPerSample I) \<in> {8, 16, 24, 32} \<and>
     unat (BlockAlign I) = unat (Channels I) * (unat (BitsPerSample I) div 8)"

lemma ParseFmt_supported:
  assumes "ParseFmt Fmt Want Info = (True, I)"
  shows "supported I"
proof -
  have ch: "Channels I \<noteq> 0" "\<not> Channels I > 8"
    and bits: "BitsPerSample I = 8 \<or> BitsPerSample I = 16 \<or> BitsPerSample I = 24 \<or> BitsPerSample I = 32"
    and ba: "uint (BlockAlign I) = uint (Channels I) * (uint (BitsPerSample I) div 8)"
    using assms by (auto simp: ParseFmt_def Let_def split: if_splits)
  have "int (unat (BlockAlign I)) = int (unat (Channels I) * (unat (BitsPerSample I) div 8))"
    using ba by (simp add: zdiv_int)
  then have "unat (BlockAlign I) = unat (Channels I) * (unat (BitsPerSample I) div 8)" by (simp only: of_nat_eq_iff)
  moreover have "1 \<le> unat (Channels I)" using ch(1) by (simp add: word_neq_0_iff_unat)
  moreover have "unat (Channels I) \<le> 8" using ch(2) by (simp add: not_less word_le_nat_alt)
  ultimately show ?thesis using bits by (auto simp: supported_def)
qed

lemma supported_align: "supported I \<Longrightarrow> BlockAlign I \<noteq> 0"
  by (auto simp: supported_def)

lemma FsRead_bound:
  assumes ok: "fs_ok med st" and v: "0 \<le> NodeVolume N" "NodeVolume N < FsVolumeCount st"
    and run: "FsRead N off len st = (don, out, st')" and don: "don \<noteq> 0"
  shows "unat off + unat don \<le> unat (EntrySize (NodeEntry N))" "length out = unat don"
proof -
  obtain V' where read: "FatReadAt (BlockReadFrom (Blocks st)) (FatOf st (NodeVolume N)) (NodeEntry N) off len
      = (don, out, V')"
    using run don by (auto simp: FsRead_def split: if_splits prod.splits)
  from FatReadAt_outcome [OF fs_volume_ok [OF ok v] read, of 0] don
  have "unat don \<le> wanted (NodeEntry N) off len" "length out = unat don" "0 < unat don"
    by (simp_all add: word_neq_0_iff_unat)
  then have "unat don \<le> unat (EntrySize (NodeEntry N)) - unat off" "length out = unat don" "0 < unat don"
    by (simp_all add: wanted_def)
  then show "unat off + unat don \<le> unat (EntrySize (NodeEntry N))" "length out = unat don" by linarith+
qed

lemma FsRead_count: "FsRead N off len st = (n, out, st') \<Longrightarrow> FsVolumeCount st' = FsVolumeCount st"
  by (auto simp: FsRead_def FsVolumeCount_def SetFat_def split: if_splits prod.splits)

text \<open>The bytes a parse points at.\<close>
definition data_ok :: "fs_node \<Rightarrow> wav_info \<Rightarrow> bool" where
  "data_ok N I \<longleftrightarrow> supported I \<and> 0 < unat (DataBytes I) \<and> unat (DataBytes I) mod unat (BlockAlign I) = 0 \<and>
     unat (DataOffset I) + unat (DataBytes I) \<le> unat (EntrySize (NodeEntry N))"

lemma data_chunk_ok:
  assumes "supported I" "unat Pos + 8 \<le> unat (EntrySize (NodeEntry N))" "Size - Size mod ucast (BlockAlign I) \<noteq> 0"
    and "Size \<le> EntrySize (NodeEntry N) - (Pos + 8)"
  shows "data_ok N (I\<lparr>DataOffset := Pos + 8, DataBytes := Size - Size mod ucast (BlockAlign I)\<rparr>)"
proof -
  have body: "unat (Pos + 8) = unat Pos + 8"
    using assms(2) unat_u32_lt [of "EntrySize (NodeEntry N)"] by (subst unat_add_nowrap) simp_all
  then have "unat (EntrySize (NodeEntry N) - (Pos + 8)) = unat (EntrySize (NodeEntry N)) - (unat Pos + 8)"
    using assms(2) by (subst unat_sub_nowrap) (simp_all add: word_le_nat_alt)
  then have size: "unat Size + (unat Pos + 8) \<le> unat (EntrySize (NodeEntry N))"
    using assms(2,4) by (simp add: word_le_nat_alt)
  let ?B = "ucast (BlockAlign I) :: u32"
  have B: "unat ?B = unat (BlockAlign I)" by (simp add: unat_ucast_le)
  have "Size mod ?B \<le> Size" by (simp add: word_le_nat_alt unat_mod_word)
  then have cut: "unat (Size - Size mod ?B) = unat Size - unat Size mod unat (BlockAlign I)"
    by (simp add: unat_sub_nowrap unat_mod_word B)
  have "0 < unat (Size - Size mod ?B)" by (rule word_neq_0_iff_unat [THEN iffD1, OF assms(3)])
  moreover have "unat (Size - Size mod ?B) mod unat (BlockAlign I) = 0"
    unfolding cut by (simp add: minus_mod_eq_div_mult)
  moreover have "unat (Size - Size mod ?B) \<le> unat Size" unfolding cut by simp
  then have "unat (Pos + 8) + unat (Size - Size mod ?B) \<le> unat (EntrySize (NodeEntry N))"
    unfolding body using size by linarith
  moreover have "supported (I\<lparr>DataOffset := Pos + 8, DataBytes := Size - Size mod ?B\<rparr>)"
    using assms(1) by (simp add: supported_def)
  ultimately show ?thesis by (simp add: data_ok_def)
qed

lemma WavLoop_safe:
  "fs_ok med st \<Longrightarrow> 0 \<le> NodeVolume N \<Longrightarrow> NodeVolume N < FsVolumeCount st \<Longrightarrow> (HaveFmt \<Longrightarrow> supported Info) \<Longrightarrow>
   WavLoop N HaveFmt Pos Info st = (c, I, st') \<Longrightarrow> fs_ok med st' \<and> (c = 1 \<longrightarrow> data_ok N I)"
proof (induction "2 ^ 32 - unat Pos" arbitrary: HaveFmt Pos Info st rule: less_induct)
  case less
  let ?size = "EntrySize (NodeEntry N)"
  obtain don Chunk st1 where rd: "FsRead N Pos 8 st = (don, Chunk, st1)" by (metis prod_cases3)
  note run = less.prems(5) [unfolded WavLoop.simps [of N HaveFmt Pos Info st] Let_def rd prod.case]
  have ok1: "fs_ok med st1" "NodeVolume N < FsVolumeCount st1"
    using FsRead_ok [OF less.prems(1-3) rd] FsRead_count [OF rd] less.prems(3) by simp_all
  show ?case
  proof (cases "Pos + 8 \<le> ?size \<and> don = 8")
    case False
    with less.prems(1) run ok1 show ?thesis by (auto simp: wav_codes split: if_splits)
  next
    case True
    then have fits: "unat Pos + 8 \<le> unat ?size"
      using FsRead_bound(1) [OF less.prems(1-3) rd] by simp
    let ?Size = "Le32 Chunk 4" let ?Nxt = "Pos + 8 + ?Size + (?Size AND 1)"
    have again: "fs_ok med st' \<and> (c = 1 \<longrightarrow> data_ok N I)"
      if "WavLoop N H ?Nxt J st2 = (c, I, st')" "fs_ok med st2" "NodeVolume N < FsVolumeCount st2"
        "H \<Longrightarrow> supported J" "\<not> ?Nxt \<le> Pos" for H J st2
      by (rule less.hyps [OF pos_grows [OF that(5)] that(2) less.prems(2) that(3,4,1)])
    show ?thesis
    proof (cases "TagEq Chunk 0 ''fmt ''")
      case fmt: True
      let ?Want = "if ?Size < 40 then ?Size else 40"
      obtain d2 Fmt st2 where rd2: "FsRead N (Pos + 8) ?Want st1 = (d2, Fmt, st2)" by (metis prod_cases3)
      obtain f J where parse: "ParseFmt Fmt ?Want Info = (f, J)" by (cases "ParseFmt Fmt ?Want Info")
      have ok2: "fs_ok med st2" "NodeVolume N < FsVolumeCount st2"
        using FsRead_ok [OF ok1(1) less.prems(2) ok1(2) rd2] FsRead_count [OF rd2] ok1(2) by simp_all
      show ?thesis
      proof (cases "\<not> ?Want < 16 \<and> d2 = ?Want \<and> f \<and> \<not> ?Nxt \<le> Pos")
        case False
        with run True fmt rd2 parse have "st' \<in> {st1, st2}" "c \<noteq> 1"
          by (auto simp: wav_codes simp del: if_weak_cong split: if_splits)
        with ok1 ok2 show ?thesis by auto
      next
        case go: True
        with run True fmt rd2 parse have "WavLoop N True ?Nxt J st2 = (c, I, st')"
          by (simp del: if_weak_cong)
        from again [OF this ok2 ParseFmt_supported] parse go show ?thesis by simp
      qed
    next
      case notfmt: False
      show ?thesis
      proof (cases "TagEq Chunk 0 ''data''")
        case dat: True
        let ?cut = "if ?Size > ?size - (Pos + 8) then ?size - (Pos + 8) else ?Size"
        show ?thesis
        proof (cases "HaveFmt \<and> ?cut - ?cut mod ucast (BlockAlign Info) \<noteq> 0")
          case False
          with run True notfmt dat ok1 show ?thesis
            by (auto simp: wav_codes split: if_splits)
        next
          case good: True
          with run True notfmt dat have res: "st' = st1"
            "I = Info\<lparr>DataOffset := Pos + 8, DataBytes := ?cut - ?cut mod ucast (BlockAlign Info)\<rparr>"
            by (auto split: if_splits)
          have "data_ok N (Info\<lparr>DataOffset := Pos + 8, DataBytes := ?cut - ?cut mod ucast (BlockAlign Info)\<rparr>)"
            by (rule data_chunk_ok [OF less.prems(4) fits]) (use good in \<open>auto simp: not_less\<close>)
          with ok1 show ?thesis unfolding res by blast
        qed
      next
        case other: False
        show ?thesis
        proof (cases "?Nxt \<le> Pos")
          case stop: True
          with run True notfmt other ok1 show ?thesis
            by (auto simp: wav_codes split: if_splits)
        next
          case go: False
          with run True notfmt other have "WavLoop N HaveFmt ?Nxt Info st1 = (c, I, st')"
            by simp
          from again [OF this ok1 less.prems(4) go] show ?thesis by simp
        qed
      qed
    qed
  qed
qed


lemma WavParse_outcome:
  assumes "fs_ok med st" "0 \<le> NodeVolume N" "NodeVolume N < FsVolumeCount st"
    and run: "WavParse N Info st = (c, I, st')"
  shows "fs_ok med st' \<and> (c = 1 \<longrightarrow> data_ok N I)"
proof -
  obtain don Head st1 where rd: "FsRead N 0 12 st = (don, Head, st1)" by (metis prod_cases3)
  have ok1: "fs_ok med st1" "NodeVolume N < FsVolumeCount st1"
    using FsRead_ok [OF assms(1-3) rd] FsRead_count [OF rd] assms(3) by simp_all
  note run' = run [unfolded WavParse_def Let_def rd prod.case]
  show ?thesis
  proof (cases "\<not> EntrySize (NodeEntry N) < 12 \<and> don = 12 \<and> TagEq Head 0 ''RIFF'' \<and> TagEq Head 8 ''WAVE''")
    case False
    with run' assms(1) ok1 show ?thesis by (auto simp: wav_codes split: if_splits)
  next
    case True
    with run' have loop: "WavLoop N False 12 (Info\<lparr>DataBytes := 0, DataOffset := 0\<rparr>) st1 = (c, I, st')" by simp
    show ?thesis by (rule WavLoop_safe [OF ok1(1) assms(2) ok1(2) _ loop]) simp
  qed
qed

text \<open>C16: Whatever the bytes of a file are, chunk sizes that wrap around included, the parse returns
  and keeps the file system consistent; when it accepts the file (a result of 1) the format is a
  supported one (1 to 8 channels of 8, 16, 24 or 32 bits), the block size is the size of one frame and
  not zero, and the data is a non-empty run of whole frames that lies inside the file. The sample rate
  is not among the fields it checks.\<close>
theorem WavParse_safe:
  assumes "fs_ok med st" "0 \<le> NodeVolume N" "NodeVolume N < FsVolumeCount st"
    and run: "WavParse N Info st = (c, I, st')"
  shows "fs_ok med st' \<and> (c = 1 \<longrightarrow> data_ok N I)"
  by (rule WavParse_outcome [OF assms])

text \<open>The file of the small file system that begins with the bytes of \<open>tiny_wav\<close>, 54 bytes long: its
  data chunk claims 100 bytes, ten are there, and two whole frames are kept.\<close>
definition wav_node :: fs_node where
  "wav_node = \<lparr>NodeVolume = 0, NodeIsDir = False,
     NodeEntry = \<lparr>EntryName = lit ''a.wav'', EntryAttr = 0x20, EntrySize = 54, EntryCluster = 2\<rparr>,
     NodePath = lit ''/a.wav''\<rparr>"

definition no_wav :: wav_info where
  "no_wav = \<lparr>Channels = 0, BitsPerSample = 0, BlockAlign = 0, SampleRate = 0, DataOffset = 0, DataBytes = 0\<rparr>"

text \<open>What every read leaves as it is.\<close>
definition small_kept :: "filesys \<Rightarrow> bool" where
  "small_kept st \<longleftrightarrow> Blocks st = [small_device] \<and> length (Volumes st) = 1 \<and>
     core (FatOf st 0) = core tiny_volume \<and> volume_ok [small_device] tiny_medium (FatOf st 0)"

lemma wav_within:
  assumes "p \<le> 512" shows "file_within tiny_medium tiny_volume 2 p 16"
proof -
  have "\<exists>d. chain tiny_medium tiny_volume 2 k = Some d \<and> fat_sector tiny_volume d < 16 \<and>
      cluster_sector tiny_volume d + unat (SectorsPerCluster tiny_volume) \<le> 16" if "k * 512 < p" for k
  proof -
    from that assms have "k = 0" by simp
    with tiny_chain show ?thesis
      by (auto simp: fat_sector_def cluster_sector_def tiny_volume_simps)
  qed
  then show ?thesis by (simp add: file_within_def cluster_bytes_def tiny_volume_simps)
qed

lemma wav_byte: "p < 54 \<Longrightarrow> file_byte tiny_medium tiny_volume 2 p = Some (tiny_wav ! p)"
  using tiny_chain by (simp add: file_byte_def cluster_bytes_def tiny_volume_simps cluster_sector_def tiny_medium_def)

lemma FatReadAt_core:
  assumes "volume_ok b m V" "FatReadAt (BlockReadFrom b) V File off len = (don, out, V')"
  shows "core V' = core V"
proof -
  have "device_honest b (VolDevice V) m" "vol_ok V" "cache_ok m V" "cursor_ok m V"
    using assms(1) by (simp_all add: volume_ok_def)
  from block.FatReadAt_spec [OF this assms(2), of 0] show ?thesis by blast
qed

lemma wav_read:
  assumes st: "small_kept st" and len: "unat off + unat len \<le> 54" "0 < unat len"
  obtains st' where "FsRead wav_node off len st = (len, take (unat len) (drop (unat off) tiny_wav), st')" "small_kept st'"
proof -
  let ?F = "NodeEntry wav_node"
  obtain don out V' where r: "FatReadAt (BlockReadFrom [small_device]) (FatOf st 0) ?F off len = (don, out, V')"
    by (metis prod_cases3)
  from st have V: "volume_ok [small_device] tiny_medium (FatOf st 0)" "core (FatOf st 0) = core tiny_volume"
    by (simp_all add: small_kept_def)
  have F: "EntryCluster ?F = 2" "is_file ?F" "wanted ?F off len = unat len"
    using len by (simp_all add: wav_node_def is_file_def FAT_ATTR_DIRECTORY_def ClusterValid_def FAT_EOC_MIN_def wanted_def)
  note out = FatReadAt_outcome [OF V(1) r, of 16, unfolded F core_cong [OF V(2)] file_within_core [OF V(2)]
      file_byte_core [OF V(2)]]
  have "file_within tiny_medium tiny_volume 2 (unat off + unat len) 16" using len by (intro wav_within) simp
  with out F(2) small_device_ok(2) have n: "unat don = unat len" by (simp add: tiny_volume_simps)
  have "length tiny_wav = 54" by (simp add: tiny_wav_def)
  with out n len have "out = take (unat len) (drop (unat off) tiny_wav)"
    by (intro nth_equalityI) (auto simp: wav_byte)
  moreover have "don = len" using n by (simp add: word_unat_eq_iff)
  ultimately have "FsRead wav_node off len st = (len, take (unat len) (drop (unat off) tiny_wav), SetFat 0 V' st)"
    using r st by (simp add: FsRead_def small_kept_def wav_node_def)
  moreover have "core V' = core (FatOf st 0)" using FatReadAt_core [OF V(1) r] .
  then have "small_kept (SetFat 0 V' st)"
    using st out V by (simp add: small_kept_def SetFat_def FatOf_def)
  ultimately show thesis by (rule that)
qed

lemma wav_node_parses:
  "\<exists>st'. WavParse wav_node no_wav small_fs =
     (1, \<lparr>Channels = 2, BitsPerSample = 16, BlockAlign = 4, SampleRate = 8000, DataOffset = 44, DataBytes = 8\<rparr>, st')"
proof -
  have "small_kept small_fs"
    using small_fs_ok fs_volume_ok [OF small_fs_ok, of 0]
    by (simp add: small_kept_def small_fs_def FatOf_def FsVolumeCount_def)
  then obtain s1 where s1: "FsRead wav_node 0 12 small_fs = (12, take 12 tiny_wav, s1)" "small_kept s1"
    by (rule wav_read [where off = 0 and len = 12]) simp_all
  from s1(2) obtain s2 where s2: "FsRead wav_node 12 8 s1 = (8, take 8 (drop 12 tiny_wav), s2)" "small_kept s2"
    by (rule wav_read [where off = 12 and len = 8]) simp_all
  from s2(2) obtain s3 where s3: "FsRead wav_node 20 16 s2 = (16, take 16 (drop 20 tiny_wav), s3)" "small_kept s3"
    by (rule wav_read [where off = 20 and len = 16]) simp_all
  from s3(2) obtain s4 where s4: "FsRead wav_node 36 8 s3 = (8, take 8 (drop 36 tiny_wav), s4)" "small_kept s4"
    by (rule wav_read [where off = 36 and len = 8]) simp_all
  have sz: "EntrySize (NodeEntry wav_node) = 54" by (simp add: wav_node_def)
  have head: "TagEq (take 12 tiny_wav) 0 ''RIFF''" "TagEq (take 12 tiny_wav) 8 ''WAVE''"
    "TagEq (take 8 (drop 12 tiny_wav)) 0 ''fmt ''" "Le32 (take 8 (drop 12 tiny_wav)) 4 = 16"
    "\<not> TagEq (take 8 (drop 36 tiny_wav)) 0 ''fmt ''" "TagEq (take 8 (drop 36 tiny_wav)) 0 ''data''"
    "Le32 (take 8 (drop 36 tiny_wav)) 4 = 100" by code_simp+
  have fmt: "ParseFmt (take 16 (drop 20 tiny_wav)) 16 no_wav =
      (True, \<lparr>Channels = 2, BitsPerSample = 16, BlockAlign = 4, SampleRate = 8000, DataOffset = 0, DataBytes = 0\<rparr>)"
    by code_simp
  have reset: "no_wav\<lparr>DataBytes := 0, DataOffset := 0\<rparr> = no_wav" by (simp add: no_wav_def)
  have "WavLoop wav_node True 36 \<lparr>Channels = 2, BitsPerSample = 16, BlockAlign = 4, SampleRate = 8000,
      DataOffset = 0, DataBytes = 0\<rparr> s3 =
     (1, \<lparr>Channels = 2, BitsPerSample = 16, BlockAlign = 4, SampleRate = 8000, DataOffset = 44, DataBytes = 8\<rparr>, s4)"
    by (subst WavLoop.simps) (simp add: sz s4(1) head Let_def)
  then have "WavLoop wav_node False 12 no_wav s1 =
     (1, \<lparr>Channels = 2, BitsPerSample = 16, BlockAlign = 4, SampleRate = 8000, DataOffset = 44, DataBytes = 8\<rparr>, s4)"
    by (subst WavLoop.simps) (simp add: sz s2(1) s3(1) head fmt Let_def)
  then show ?thesis by (simp add: WavParse_def sz s1(1) head reset)
qed

lemma WavParse_safe_witness:
  "\<exists>I st'. WavParse wav_node no_wav small_fs = (1, I, st') \<and> fs_ok (\<lambda>_. tiny_medium) st' \<and> data_ok wav_node I
     \<and> DataOffset I = 44 \<and> DataBytes I = 8"
proof -
  obtain st' where r: "WavParse wav_node no_wav small_fs =
     (1, \<lparr>Channels = 2, BitsPerSample = 16, BlockAlign = 4, SampleRate = 8000, DataOffset = 44, DataBytes = 8\<rparr>, st')"
    using wav_node_parses by blast
  have v: "0 \<le> NodeVolume wav_node" "NodeVolume wav_node < FsVolumeCount small_fs"
    by (simp_all add: wav_node_def FsVolumeCount_def small_fs_def)
  from WavParse_safe [OF small_fs_ok v r] show ?thesis unfolding r by simp
qed

section \<open>What the conversion computes\<close>

text \<open>The number a sample stands for: offset binary for 8 bits, two's complement, little endian,
  for the others.\<close>
definition sample_value :: "u8 list \<Rightarrow> nat \<Rightarrow> nat \<Rightarrow> int" where
  "sample_value p off Bits =
     (if Bits = 8 then uint (bget p off) - 128
      else let v = (\<Sum>i<Bits div 8. uint (bget p (off + i)) * 256 ^ i)
           in if v \<ge> 2 ^ (Bits - 1) then v - 2 ^ Bits else v)"

lemma bytes_disjoint: "(ucast (a :: u8) :: u16) AND push_bit 8 (ucast (b :: u8)) = 0"
proof (rule bit_word_eqI)
  fix n assume "n < LENGTH(16)"
  have "\<not> (bit (ucast a :: u16) n \<and> bit (push_bit 8 (ucast b) :: u16) n)"
    using bit_imp_le_length [of a n] by (auto simp: bit_ucast_iff bit_push_bit_iff)
  then show "bit (ucast a AND push_bit 8 (ucast b) :: u16) n = bit (0 :: u16) n" by (simp add: bit_and_iff)
qed

lemma unat_Le16: "unat (Le16 p off) = unat (bget p off) + 256 * unat (bget p (off + 1))"
proof -
  let ?a = "ucast (bget p off) :: u16" and ?b = "push_bit 8 (ucast (bget p (off + 1))) :: u16"
  have b: "unat ?b = 256 * unat (bget p (off + 1))"
    using unat_u8_lt [of "bget p (off + 1)"] by (simp add: push_bit_eq_mult unat_word_ariths unat_ucast_le)
  have a: "unat ?a = unat (bget p off)" by (simp add: unat_ucast_le)
  have "Le16 p off = ?a + ?b" unfolding Le16_def using word_plus_and_or [of ?a ?b] bytes_disjoint by simp
  then show ?thesis using a b unat_u8_lt [of "bget p off"] unat_u8_lt [of "bget p (off + 1)"]
    by (simp add: unat_add_nowrap)
qed

lemma uint_Le16: "uint (Le16 p off) = uint (bget p off) + 256 * uint (bget p (off + 1))"
  using arg_cong [OF unat_Le16, of int p off] by simp

lemma sint_u16: "sint (w :: i16) = uint w - (if uint w \<ge> 32768 then 65536 else 0)"
proof -
  have lt: "0 \<le> uint w" "uint w < 65536" using uint_lt2p [of w] by simp_all
  have "bit (uint w) 15 \<longleftrightarrow> odd (uint w div 32768)" by (simp add: bit_iff_odd)
  moreover have "uint w div 32768 = (if uint w \<ge> 32768 then 1 else 0)"
    using lt by (cases "uint w \<ge> 32768"; simp; linarith)
  moreover have "take_bit 16 (uint w) = uint w" using lt by (simp add: take_bit_int_eq_self)
  moreover have "sint w = signed_take_bit 15 (uint w)" by (simp add: sint_uint)
  ultimately show ?thesis
    by (simp add: signed_take_bit_eq_take_bit_minus)
qed

text \<open>Dropping the low bytes of a sample keeps its sign.\<close>
lemma drop_low:
  fixes a K m :: int
  assumes "0 \<le> a" "a < K"
  shows "(if a + K * m \<ge> K * 32768 then a + K * m - K * 65536 else a + K * m) * 65536 div (K * 65536) =
    m - (if m \<ge> 32768 then 65536 else 0)"
proof -
  have K: "0 < K" using assms by simp
  have sign: "a + K * m \<ge> K * 32768 \<longleftrightarrow> m \<ge> 32768"
  proof
    assume "a + K * m \<ge> K * 32768"
    with assms(2) have "K * 32768 < K * (m + 1)" by (simp add: algebra_simps)
    with K show "m \<ge> 32768" by simp
  next
    assume "m \<ge> 32768"
    with K have "K * 32768 \<le> K * m" by simp
    with assms(1) show "a + K * m \<ge> K * 32768" by simp
  qed
  have drop: "(a + K * q) * 65536 div (K * 65536) = q" for q
  proof -
    have "(a + K * q) * 65536 div (K * 65536) = (a + K * q) div K" by (rule div_mult_mult2) simp
    also have "\<dots> = q + a div K" using K by simp
    also have "a div K = 0" using assms by (rule div_pos_pos_trivial)
    finally show ?thesis by simp
  qed
  have eq: "a + K * m - K * 65536 = a + K * (m - 65536)" by (simp add: algebra_simps)
  show ?thesis unfolding sign eq by (cases "m \<ge> 32768") (simp_all only: drop if_True if_False diff_0_right)
qed

lemma DecodeSample_value:
  assumes "unat Bits \<in> {8, 16, 24, 32}"
  shows "sint (DecodeSample p off Bits) = sample_value p off (unat Bits) * 2 ^ 16 div 2 ^ unat Bits"
proof -
  have B: "Bits = of_nat (unat Bits)" by simp
  let ?b = "\<lambda>i. uint (bget p (off + i))"
  have lt: "0 \<le> ?b i" "?b i < 256" for i using uint_lt2p [of "bget p (off + i)"] by simp_all
  have sum: "(\<Sum>i<2. ?b i * 256 ^ i) = ?b 0 + 256 * ?b 1"
    "(\<Sum>i<3. ?b i * 256 ^ i) = ?b 0 + 256 * ?b 1 + 65536 * ?b 2"
    "(\<Sum>i<4. ?b i * 256 ^ i) = ?b 0 + 256 * ?b 1 + 65536 * ?b 2 + 16777216 * ?b 3"
    by (simp_all add: numeral_2_eq_2 numeral_3_eq_3 eval_nat_numeral)
  from assms consider "unat Bits = 8" | "unat Bits = 16" | "unat Bits = 24" | "unat Bits = 32" by blast
  then show ?thesis
  proof cases
    case 1
    then have "Bits = 8" using B by simp
    have "push_bit 8 (of_int (uint (bget p off) - 128)) = (of_int ((?b 0 - 128) * 256) :: i16)"
      by (simp add: push_bit_eq_mult)
    moreover have "sint (of_int ((?b 0 - 128) * 256) :: i16) = (?b 0 - 128) * 256"
      using lt [of 0] by (simp add: signed_of_int signed_take_bit_int_eq_self del: of_int_mult of_int_diff)
    ultimately show ?thesis using 1 \<open>Bits = 8\<close> by (simp add: DecodeSample_def sample_value_def)
  next
    case 2
    then have "Bits = 16" using B by simp
    with 2 show ?thesis using lt [of 0] lt [of 1]
      by (simp add: DecodeSample_def sample_value_def sint_u16 uint_Le16 sum Let_def)
  next
    case 3
    then have "Bits = 24" using B by simp
    then have "sint (DecodeSample p off Bits) = ?b 1 + 256 * ?b 2 - (if ?b 1 + 256 * ?b 2 \<ge> 32768 then 65536 else 0)"
      by (simp add: DecodeSample_def sint_u16 uint_Le16)
    also have "\<dots> = sample_value p off 24 * 65536 div (256 * 65536)"
    proof -
      have "sample_value p off 24 = (if ?b 0 + 256 * (?b 1 + 256 * ?b 2) \<ge> 256 * 32768
          then ?b 0 + 256 * (?b 1 + 256 * ?b 2) - 256 * 65536 else ?b 0 + 256 * (?b 1 + 256 * ?b 2))"
        unfolding sample_value_def by (simp add: sum Let_def distrib_left add.assoc)
      then show ?thesis unfolding drop_low [OF lt [of 0], of "?b 1 + 256 * ?b 2", symmetric] by simp
    qed
    finally show ?thesis using 3 by simp
  next
    case 4
    then have "Bits = 32" using B by simp
    then have "sint (DecodeSample p off Bits) = ?b 2 + 256 * ?b 3 - (if ?b 2 + 256 * ?b 3 \<ge> 32768 then 65536 else 0)"
      by (simp add: DecodeSample_def sint_u16 uint_Le16 numeral_3_eq_3)
    also have "\<dots> = sample_value p off 32 * 65536 div (65536 * 65536)"
    proof -
      have low: "0 \<le> ?b 0 + 256 * ?b 1" "?b 0 + 256 * ?b 1 < 65536" using lt [of 0] lt [of 1] by linarith+
      have "sample_value p off 32 = (if ?b 0 + 256 * ?b 1 + 65536 * (?b 2 + 256 * ?b 3) \<ge> 65536 * 32768
          then ?b 0 + 256 * ?b 1 + 65536 * (?b 2 + 256 * ?b 3) - 65536 * 65536
          else ?b 0 + 256 * ?b 1 + 65536 * (?b 2 + 256 * ?b 3))"
        unfolding sample_value_def by (simp add: sum Let_def distrib_left add.assoc)
      then show ?thesis unfolding drop_low [OF low, of "?b 2 + 256 * ?b 3", symmetric] by simp
    qed
    finally show ?thesis using 4 by simp
  qed
qed

lemma frames_nth:
  fixes f g :: "nat \<Rightarrow> 'b"
  shows "length (concat (map (\<lambda>i. [f i, g i]) [0..<n])) = 2 * n"
    "i < n \<Longrightarrow> concat (map (\<lambda>i. [f i, g i]) [0..<n]) ! (2 * i) = f i"
    "i < n \<Longrightarrow> concat (map (\<lambda>i. [f i, g i]) [0..<n]) ! (2 * i + 1) = g i"
proof -
  show len: "length (concat (map (\<lambda>i. [f i, g i]) [0..<n])) = 2 * n" for n by (induction n) simp_all
  show "i < n \<Longrightarrow> concat (map (\<lambda>i. [f i, g i]) [0..<n]) ! (2 * i) = f i"
    "i < n \<Longrightarrow> concat (map (\<lambda>i. [f i, g i]) [0..<n]) ! (2 * i + 1) = g i"
    by (induction n) (auto simp: nth_append len less_Suc_eq)
qed

text \<open>C17: Converting frames gives two 16-bit samples per frame, each the value of the sample on the file
  scaled from its own width to 16 bits (rounded down); mono is put on both channels, of more
  channels the first two are taken; and no byte beyond the frames is looked at.\<close>
theorem WavConvert_correct:
  assumes "supported I"
  shows "length (WavConvert I Src Frames) = 2 * Frames \<and>
    (\<forall>i < Frames. let B = unat (BitsPerSample I); L = i * unat (BlockAlign I);
        R = (if Channels I > 1 then L + B div 8 else L)
      in sint (WavConvert I Src Frames ! (2 * i)) = sample_value Src L B * 2 ^ 16 div 2 ^ B \<and>
         sint (WavConvert I Src Frames ! (2 * i + 1)) = sample_value Src R B * 2 ^ 16 div 2 ^ B \<and>
         R + B div 8 \<le> Frames * unat (BlockAlign I))"
proof (intro conjI allI impI)
  show "length (WavConvert I Src Frames) = 2 * Frames" by (simp add: WavConvert_def Let_def frames_nth)
  fix i assume i: "i < Frames"
  have bits: "unat (BitsPerSample I) \<in> {8, 16, 24, 32}" using assms by (simp add: supported_def)
  note val = DecodeSample_value [OF bits, of Src]
  let ?l = "\<lambda>i. DecodeSample Src (i * unat (BlockAlign I)) (BitsPerSample I)"
    and ?r = "\<lambda>i. if Channels I > 1 then DecodeSample Src (i * unat (BlockAlign I) + unat (BitsPerSample I) div 8) (BitsPerSample I)
      else DecodeSample Src (i * unat (BlockAlign I)) (BitsPerSample I)"
  have conv: "WavConvert I Src Frames = concat (map (\<lambda>i. [?l i, ?r i]) [0..<Frames])"
    by (simp add: WavConvert_def Let_def)
  let ?B = "unat (BitsPerSample I)" and ?L = "i * unat (BlockAlign I)"
  let ?R = "if Channels I > 1 then ?L + ?B div 8 else ?L"
  have "unat (BlockAlign I) = unat (Channels I) * (?B div 8)" "1 \<le> unat (Channels I)"
    using assms by (simp_all add: supported_def)
  moreover have "2 \<le> unat (Channels I)" if "Channels I > 1" using that by (simp add: word_less_nat_alt)
  moreover have "x + x \<le> c * x" if "2 \<le> c" for x c :: nat using mult_le_mono1 [OF that, of x] by (simp only: mult_2)
  moreover have "x \<le> c * x" if "1 \<le> c" for x c :: nat using mult_le_mono1 [OF that, of x] by (simp only: mult_1)
  ultimately have "(if Channels I > 1 then ?B div 8 else 0) + ?B div 8 \<le> unat (BlockAlign I)"
    by (cases "Channels I > 1") simp_all
  moreover have "Suc i * unat (BlockAlign I) \<le> Frames * unat (BlockAlign I)" using i by (intro mult_le_mono1) simp
  ultimately have "?R + ?B div 8 \<le> Frames * unat (BlockAlign I)" by (auto split: if_splits)
  then show "let B = unat (BitsPerSample I); L = i * unat (BlockAlign I);
        R = (if Channels I > 1 then L + B div 8 else L)
      in sint (WavConvert I Src Frames ! (2 * i)) = sample_value Src L B * 2 ^ 16 div 2 ^ B \<and>
         sint (WavConvert I Src Frames ! (2 * i + 1)) = sample_value Src R B * 2 ^ 16 div 2 ^ B \<and>
         R + B div 8 \<le> Frames * unat (BlockAlign I)"
    using frames_nth(2) [OF i, of ?l ?r] frames_nth(3) [OF i, of ?l ?r] val
    unfolding Let_def conv by simp
qed

lemma WavConvert_correct_witness:
  "sint (WavConvert \<lparr>Channels = 1, BitsPerSample = 8, BlockAlign = 1, SampleRate = 8000, DataOffset = 44, DataBytes = 2\<rparr>
     [0, 255] 2 ! 1) = -32768"
proof -
  let ?I = "\<lparr>Channels = 1, BitsPerSample = 8, BlockAlign = 1, SampleRate = 8000, DataOffset = 44, DataBytes = 2\<rparr> :: wav_info"
  have "supported ?I" by (simp add: supported_def)
  from conjunct2 [OF WavConvert_correct [OF this, of "[0, 255]" 2]] show ?thesis
    by (auto simp: Let_def sample_value_def dest!: spec [of _ 0])
qed

end
