(* ===== verification/Errors.thy ===== *)
theory Errors
  imports Klog
begin

text \<open>
  Error codes and their texts (\<open>kernel/errors.c\<close>): the table, the two lookups, the message that is
  shown and the line that is logged.
\<close>

definition E_NO_VOLUMES :: int where "E_NO_VOLUMES = 100"
definition E_FOLDER_READ :: int where "E_FOLDER_READ = 102"
definition E_FOLDER_LARGE :: int where "E_FOLDER_LARGE = 103"
definition E_NAME_LONG :: int where "E_NAME_LONG = 104"
definition E_PATH_LONG :: int where "E_PATH_LONG = 105"
definition E_FILE_OPEN :: int where "E_FILE_OPEN = 110"
definition E_FILE_READ :: int where "E_FILE_READ = 111"
definition E_FILE_TRUNCATED :: int where "E_FILE_TRUNCATED = 112"
definition E_FILE_BINARY :: int where "E_FILE_BINARY = 113"
definition E_FILE_EMPTY :: int where "E_FILE_EMPTY = 114"
definition E_VIEW_LINES :: int where "E_VIEW_LINES = 115"
definition E_VIEW_RANGE :: int where "E_VIEW_RANGE = 116"
definition E_AUDIO_RATE :: int where "E_AUDIO_RATE = 120"
definition E_AUDIO_FORMAT :: int where "E_AUDIO_FORMAT = 121"
definition E_AUDIO_DEVICE :: int where "E_AUDIO_DEVICE = 122"
definition E_AUDIO_MEMORY :: int where "E_AUDIO_MEMORY = 123"
definition E_AUDIO_READ :: int where "E_AUDIO_READ = 124"
definition E_AUDIO_NOTWAV :: int where "E_AUDIO_NOTWAV = 125"
definition E_INTERNAL_SEL :: int where "E_INTERNAL_SEL = 130"
definition E_SCREEN_SMALL :: int where "E_SCREEN_SMALL = 131"
definition E_TEXT_NOTFOUND :: int where "E_TEXT_NOTFOUND = 140"
definition E_INFO_FAILED :: int where "E_INFO_FAILED = 141"

lemmas error_codes = E_NO_VOLUMES_def E_FOLDER_READ_def E_FOLDER_LARGE_def E_NAME_LONG_def E_PATH_LONG_def E_FILE_OPEN_def
  E_FILE_READ_def E_FILE_TRUNCATED_def E_FILE_BINARY_def E_FILE_EMPTY_def E_VIEW_LINES_def E_VIEW_RANGE_def
  E_AUDIO_RATE_def E_AUDIO_FORMAT_def E_AUDIO_DEVICE_def E_AUDIO_MEMORY_def E_AUDIO_READ_def E_AUDIO_NOTWAV_def
  E_INTERNAL_SEL_def E_SCREEN_SMALL_def E_TEXT_NOTFOUND_def E_INFO_FAILED_def

record error_entry =
  Code :: int
  Warning :: bool
  ErrText :: string

definition ErrorTable :: "error_entry list" where
  "ErrorTable = [
    \<lparr>Code = E_NO_VOLUMES, Warning = False, ErrText = ''no readable volumes found''\<rparr>,
    \<lparr>Code = E_FOLDER_READ, Warning = False, ErrText = ''cannot read folder''\<rparr>,
    \<lparr>Code = E_FOLDER_LARGE, Warning = True, ErrText = ''folder is large, showing the first 1024 entries''\<rparr>,
    \<lparr>Code = E_NAME_LONG, Warning = False, ErrText = ''name is too long to open''\<rparr>,
    \<lparr>Code = E_PATH_LONG, Warning = False, ErrText = ''path is too long''\<rparr>,
    \<lparr>Code = E_FILE_OPEN, Warning = False, ErrText = ''cannot open file''\<rparr>,
    \<lparr>Code = E_FILE_READ, Warning = False, ErrText = ''read error while loading file''\<rparr>,
    \<lparr>Code = E_FILE_TRUNCATED, Warning = True, ErrText = ''file is large, showing only the first 256 KB''\<rparr>,
    \<lparr>Code = E_FILE_BINARY, Warning = True, ErrText = ''binary file, opened in hex view''\<rparr>,
    \<lparr>Code = E_FILE_EMPTY, Warning = True, ErrText = ''file is empty''\<rparr>,
    \<lparr>Code = E_VIEW_LINES, Warning = True, ErrText = ''too many lines, view is truncated''\<rparr>,
    \<lparr>Code = E_VIEW_RANGE, Warning = False, ErrText = ''internal viewer range error''\<rparr>,
    \<lparr>Code = E_AUDIO_RATE, Warning = False, ErrText = ''sample rate is not supported by the HDA driver''\<rparr>,
    \<lparr>Code = E_AUDIO_FORMAT, Warning = False, ErrText = ''unsupported WAV format (need PCM 8/16/24/32-bit, 1-8 channels)''\<rparr>,
    \<lparr>Code = E_AUDIO_DEVICE, Warning = False, ErrText = ''HDA audio stream is not available''\<rparr>,
    \<lparr>Code = E_AUDIO_MEMORY, Warning = False, ErrText = ''not enough low memory for audio buffers''\<rparr>,
    \<lparr>Code = E_AUDIO_READ, Warning = False, ErrText = ''read error during playback''\<rparr>,
    \<lparr>Code = E_AUDIO_NOTWAV, Warning = False, ErrText = ''not a RIFF/WAVE file''\<rparr>,
    \<lparr>Code = E_INTERNAL_SEL, Warning = False, ErrText = ''internal selection error, auto-corrected''\<rparr>,
    \<lparr>Code = E_SCREEN_SMALL, Warning = False, ErrText = ''screen is too small, need at least 800x480''\<rparr>,
    \<lparr>Code = E_TEXT_NOTFOUND, Warning = True, ErrText = ''text not found''\<rparr>,
    \<lparr>Code = E_INFO_FAILED, Warning = False, ErrText = ''cannot read file details''\<rparr>]"

fun find_error :: "error_entry list \<Rightarrow> int \<Rightarrow> error_entry option" where
  "find_error [] code = None"
| "find_error (e # es) code = (if Code e = code then Some e else find_error es code)"

definition ErrorText :: "int \<Rightarrow> cstring" where
  "ErrorText code = (case find_error ErrorTable code of Some e \<Rightarrow> lit (ErrText e) | None \<Rightarrow> lit ''unknown error'')"

definition ErrorIsWarning :: "int \<Rightarrow> bool" where
  "ErrorIsWarning code = (case find_error ErrorTable code of Some e \<Rightarrow> Warning e | None \<Rightarrow> False)"

text \<open>\<open>while (Value > 0) { Tmp[--Pos] = '0' + Value % 10; Value /= 10; }\<close>.\<close>
function int_digits :: "int \<Rightarrow> cstring \<Rightarrow> cstring" where
  "int_digits v acc = (if v > 0 then int_digits (v div 10) ((48 + of_int (v mod 10)) # acc) else acc)"
  by pat_completeness auto

termination
  by (relation "measure (\<lambda>(v, acc). nat v)") auto

declare int_digits.simps [simp del]

definition UIntText :: "int \<Rightarrow> cstring" where
  "UIntText v = int_digits v (if v = 0 then [48] else [])"

text \<open>The detail is a pointer that may be null.\<close>
definition ErrorFormat :: "int \<Rightarrow> cstring option \<Rightarrow> nat \<Rightarrow> cstring" where
  "ErrorFormat code Detail mx =
     (let Num = UIntText code;
          Out = append_text [] (lit ''E'') mx;
          Out = append_text Out Num mx;
          Out = append_text Out (lit '' '') mx;
          Out = append_text Out (ErrorText code) mx
      in case Detail of
           Some d \<Rightarrow> (if d \<noteq> [] then append_text (append_text Out (lit '': '') mx) d mx else Out)
         | None \<Rightarrow> Out)"

definition ErrorLog :: "cstring \<Rightarrow> int \<Rightarrow> cstring option \<Rightarrow> klog \<Rightarrow> klog" where
  "ErrorLog Source code Detail k =
     (let k = KLogs [Source, lit '': E''] k;
          k = KLogUInt (of_int code) k;
          k = KLogs [lit '' '', ErrorText code] k;
          k = (case Detail of Some d \<Rightarrow> (if d \<noteq> [] then KLogs [lit '' ['', d, lit '']''] k else k) | None \<Rightarrow> k)
      in KLog [10] k)"

section \<open>What is shown\<close>

text \<open>The whole message, before it is cut to the buffer.\<close>
definition error_message :: "int \<Rightarrow> cstring option \<Rightarrow> cstring" where
  "error_message code Detail = lit ''E'' @ UIntText code @ lit '' '' @ ErrorText code @
     (case Detail of Some d \<Rightarrow> (if d \<noteq> [] then lit '': '' @ d else []) | None \<Rightarrow> [])"

definition int_value :: "cstring \<Rightarrow> int" where
  "int_value s = foldl (\<lambda>n c. 10 * n + (uint c - 48)) 0 s"

lemma int_digits_append: "int_digits v (xs @ ys) = int_digits v xs @ ys"
  by (induction v xs rule: int_digits.induct) (subst (1 2) int_digits.simps, simp)

lemma uint_digit: "0 \<le> d \<Longrightarrow> d < 10 \<Longrightarrow> uint (48 + of_int d :: u8) - 48 = d"
  by (simp add: uint_word_ariths uint_word_of_int)

lemma int_digits_value: "0 \<le> v \<Longrightarrow> int_value (int_digits v []) = v"
proof (induction "nat v" arbitrary: v rule: less_induct)
  case less
  show ?case
  proof (cases "v = 0")
    case True
    then show ?thesis by (simp add: int_digits.simps int_value_def)
  next
    case False
    with less.prems have pos: "v > 0" by simp
    then have "int_digits v [] = int_digits (v div 10) [] @ [48 + of_int (v mod 10)]"
      using int_digits_append [of "v div 10" "[]" "[48 + of_int (v mod 10)]"] by (simp add: int_digits.simps [of v])
    then have "int_value (int_digits v []) = 10 * int_value (int_digits (v div 10) []) + v mod 10"
      using uint_digit [of "v mod 10"] pos by (simp add: int_value_def)
    also have "int_value (int_digits (v div 10) []) = v div 10" using pos by (intro less.hyps) simp_all
    finally show ?thesis by simp
  qed
qed

lemma UIntText_value: "0 \<le> v \<Longrightarrow> int_value (UIntText v) = v"
  using int_digits_value [of v] by (auto simp: UIntText_def int_digits.simps [of 0] int_value_def)

lemma append_take:
  "0 < mx \<Longrightarrow> append_text (take (mx - 1) dst) src mx = take (mx - 1) (dst @ src)"
  by (subst append_text_take) (auto simp: min_def)

text \<open>An error message is the code, its text and the detail, in that order, cut at the end of the
  buffer and never beyond it; the number shown is the code; and the codes of the table are distinct, so
  that each one shows its own entry and only the marked ones count as warnings.\<close>
theorem ErrorFormat_correct:
  assumes "0 < mx" "0 \<le> code"
  shows "ErrorFormat code Detail mx = take (mx - 1) (error_message code Detail) \<and>
    int_value (UIntText code) = code \<and> distinct (map Code ErrorTable) \<and>
    (\<forall>e \<in> set ErrorTable. ErrorText (Code e) = lit (ErrText e) \<and> ErrorIsWarning (Code e) = Warning e)"
proof -
  note app = append_take [OF assms(1)]
  have "append_text [] (lit ''E'') mx = take (mx - 1) (lit ''E'')" using app [of "[]"] by simp
  then have "ErrorFormat code Detail mx = take (mx - 1) (error_message code Detail)"
    by (cases Detail) (simp_all add: ErrorFormat_def error_message_def Let_def app del: take_append One_nat_def)
  moreover have dist: "distinct (map Code ErrorTable)" by (simp add: ErrorTable_def error_codes)
  moreover have find: "distinct (map Code es) \<Longrightarrow> e \<in> set es \<Longrightarrow> find_error es (Code e) = Some e" for es e
    by (induction es) auto
  ultimately show ?thesis
    using UIntText_value [OF assms(2)] find [OF dist] by (simp add: ErrorText_def ErrorIsWarning_def)
qed

lemma ErrorFormat_correct_witness:
  "ErrorFormat E_FILE_EMPTY (Some (lit ''a'')) 64 = lit ''E114 file is empty: a''"
proof -
  have "ErrorFormat E_FILE_EMPTY (Some (lit ''a'')) 64 = take (64 - 1) (error_message E_FILE_EMPTY (Some (lit ''a'')))"
    using ErrorFormat_correct [of 64 E_FILE_EMPTY] by (simp add: E_FILE_EMPTY_def)
  also have "error_message E_FILE_EMPTY (Some (lit ''a'')) = lit ''E114 file is empty: a''"
    by (simp add: error_message_def UIntText_def int_digits.simps ErrorText_def ErrorTable_def error_codes lit_def)
  finally show ?thesis by (simp add: lit_def)
qed

end
