(* ===== verification/Queue.thy ===== *)
theory Queue
  imports Prelude
begin

text \<open>
  The contract of a bounded first-in first-out buffer, as the interrupt handlers and their readers rely
  on it: what is taken out is what was put in, in order, and only a full buffer drops. It is
  interpreted on the ring buffer of the keyboard driver.
\<close>

locale bounded_queue =
  fixes contents :: "'s \<Rightarrow> 'k list"
    and inv :: "'s \<Rightarrow> bool"
    and put :: "'k \<Rightarrow> 's \<Rightarrow> 's"
    and get :: "'s \<Rightarrow> 'k option \<times> 's"
    and cap :: nat
  assumes put_inv: "inv s \<Longrightarrow> inv (put k s)"
    and put_contents: "inv s \<Longrightarrow> contents (put k s) = (if length (contents s) < cap then contents s @ [k] else contents s)"
    and get_inv: "inv s \<Longrightarrow> inv (snd (get s))"
    and get_contents: "inv s \<Longrightarrow> contents s = (case fst (get s) of None \<Rightarrow> [] | Some k \<Rightarrow> k # contents (snd (get s)))"
    and get_empty: "inv s \<Longrightarrow> fst (get s) = None \<Longrightarrow> contents (snd (get s)) = []"
begin

lemma get_cases:
  assumes "inv s" "get s = (r, s')"
  shows "inv s'" "contents s = (case r of None \<Rightarrow> [] | Some k \<Rightarrow> [k]) @ contents s'"
  using get_inv [OF assms(1)] get_contents [OF assms(1)] get_empty [OF assms(1)] assms(2)
  by (auto split: option.splits)

text \<open>A stretch of execution in which the keys \<open>ins\<close> go in and the keys \<open>outs\<close> come out.\<close>
definition moves :: "'s \<Rightarrow> 'k list \<Rightarrow> 'k list \<Rightarrow> 's \<Rightarrow> bool" where
  "moves s ins outs t \<longleftrightarrow> inv t \<and> outs @ contents t = contents s @ ins"

lemma moves_refl: "inv s \<Longrightarrow> moves s [] [] s"
  by (simp add: moves_def)

lemma moves_trans: "moves s ins outs t \<Longrightarrow> moves t ins' outs' u \<Longrightarrow> moves s (ins @ ins') (outs @ outs') u"
  unfolding moves_def by (metis append.assoc)

lemma moves_put: "inv s \<Longrightarrow> length (contents s) < cap \<Longrightarrow> moves s [k] [] (put k s)"
  by (simp add: moves_def put_inv put_contents)

lemma moves_get:
  assumes "inv s" "get s = (r, t)"
  shows "moves s [] (case r of None \<Rightarrow> [] | Some k \<Rightarrow> [k]) t"
  using get_cases [OF assms] by (simp add: moves_def)

text \<open>A full buffer drops the new key and keeps the old ones.\<close>
lemma put_full: "inv s \<Longrightarrow> cap \<le> length (contents s) \<Longrightarrow> contents (put k s) = contents s"
  by (simp add: put_contents)

end

end
