(* ===== verification/Keyboard.thy ===== *)
theory Keyboard
  imports Queue Text
begin

text \<open>
  The PS/2 keyboard driver (\<open>kernel/keyboard.c\<close>): the ring buffer of keys, the scan code decoder with
  its modifier and lock state, and the readers. The interrupt handler is a function of the two bytes it
  reads from the controller (status and data); what it writes to the data port is returned as a list.
  The port accesses and the waits for the controller are in \<open>Irq\<close>.
\<close>

section \<open>State\<close>

definition KEY_BUFFER_SIZE :: nat where "KEY_BUFFER_SIZE = 256"
definition KEY_UP :: int where "KEY_UP = 0x101"
definition KEY_DOWN :: int where "KEY_DOWN = 0x102"
definition KEY_LEFT :: int where "KEY_LEFT = 0x103"
definition KEY_RIGHT :: int where "KEY_RIGHT = 0x104"
definition KEY_HOME :: int where "KEY_HOME = 0x105"
definition KEY_END :: int where "KEY_END = 0x106"
definition KEY_DELETE :: int where "KEY_DELETE = 0x107"
definition KEY_PGUP :: int where "KEY_PGUP = 0x108"
definition KEY_PGDN :: int where "KEY_PGDN = 0x109"

lemmas key_codes = KEY_UP_def KEY_DOWN_def KEY_LEFT_def KEY_RIGHT_def KEY_HOME_def KEY_END_def KEY_DELETE_def
  KEY_PGUP_def KEY_PGDN_def

record keyboard =
  KeyBuffer :: "int list"
  KeyBufferHead :: nat
  KeyBufferTail :: nat
  ShiftHeld :: bool
  CtrlHeld :: bool
  AltHeld :: bool
  ExtendedPrefix :: bool
  CapsLockOn :: bool
  NumLockOn :: bool
  ScrollLockOn :: bool

definition keyboard_init :: keyboard where
  "keyboard_init = \<lparr>KeyBuffer = replicate KEY_BUFFER_SIZE 0, KeyBufferHead = 0, KeyBufferTail = 0, ShiftHeld = False,
     CtrlHeld = False, AltHeld = False, ExtendedPrefix = False, CapsLockOn = False, NumLockOn = False,
     ScrollLockOn = False\<rparr>"

definition ScancodeToAscii :: "u8 list" where
  "ScancodeToAscii = [0, 27, 49, 50, 51, 52, 53, 54, 55, 56, 57, 48, 45, 61, 8, 9,
    113, 119, 101, 114, 116, 121, 117, 105, 111, 112, 91, 93, 10, 0, 97, 115,
    100, 102, 103, 104, 106, 107, 108, 59, 39, 96, 0, 92, 122, 120, 99, 118,
    98, 110, 109, 44, 46, 47, 0, 42, 0, 32, 0, 0, 0, 0, 0, 0,
    0, 0, 0, 0, 0, 0, 0, 55, 56, 57, 45, 52, 53, 54, 43, 49,
    50, 51, 48, 46, 0, 0, 0, 0, 0, 0, 0, 0, 0, 0, 0, 0,
    0, 0, 0, 0, 0, 0, 0, 0, 0, 0, 0, 0, 0, 0, 0, 0,
    0, 0, 0, 0, 0, 0, 0, 0, 0, 0, 0, 0, 0, 0, 0, 0]"

definition ScancodeToAsciiShift :: "u8 list" where
  "ScancodeToAsciiShift = [0, 27, 33, 64, 35, 36, 37, 94, 38, 42, 40, 41, 95, 43, 8, 9,
    81, 87, 69, 82, 84, 89, 85, 73, 79, 80, 123, 125, 10, 0, 65, 83,
    68, 70, 71, 72, 74, 75, 76, 58, 34, 126, 0, 124, 90, 88, 67, 86,
    66, 78, 77, 60, 62, 63, 0, 42, 0, 32, 0, 0, 0, 0, 0, 0,
    0, 0, 0, 0, 0, 0, 0, 55, 56, 57, 45, 52, 53, 54, 43, 49,
    50, 51, 48, 46, 0, 0, 0, 0, 0, 0, 0, 0, 0, 0, 0, 0,
    0, 0, 0, 0, 0, 0, 0, 0, 0, 0, 0, 0, 0, 0, 0, 0,
    0, 0, 0, 0, 0, 0, 0, 0, 0, 0, 0, 0, 0, 0, 0, 0]"

section \<open>The ring buffer\<close>

definition PushChar :: "int \<Rightarrow> keyboard \<Rightarrow> keyboard" where
  "PushChar c k =
     (let Nxt = (KeyBufferHead k + 1) mod KEY_BUFFER_SIZE
      in if Nxt = KeyBufferTail k then k
         else k\<lparr>KeyBuffer := (KeyBuffer k)[KeyBufferHead k := c], KeyBufferHead := Nxt\<rparr>)"

text \<open>The result 0 of an empty buffer.\<close>
definition KeyboardGetKey :: "keyboard \<Rightarrow> int \<times> keyboard" where
  "KeyboardGetKey k =
     (if KeyBufferTail k = KeyBufferHead k then (0, k)
      else (KeyBuffer k ! KeyBufferTail k, k\<lparr>KeyBufferTail := (KeyBufferTail k + 1) mod KEY_BUFFER_SIZE\<rparr>))"

definition KeyboardGetChar :: "keyboard \<Rightarrow> u8 \<times> keyboard" where
  "KeyboardGetChar k =
     (case KeyboardGetKey k of (Key, k) \<Rightarrow> (if Key \<le> 0 \<or> Key > 0xFF then 0 else of_int Key, k))"

definition KeyboardCapsLock :: "keyboard \<Rightarrow> bool" where
  "KeyboardCapsLock k = CapsLockOn k"
definition KeyboardNumLock :: "keyboard \<Rightarrow> bool" where
  "KeyboardNumLock k = NumLockOn k"
definition KeyboardScrollLock :: "keyboard \<Rightarrow> bool" where
  "KeyboardScrollLock k = ScrollLockOn k"

section \<open>The decoder\<close>

text \<open>The bytes written to port \<open>0x60\<close>.\<close>
definition UpdateLeds :: "keyboard \<Rightarrow> u8 list" where
  "UpdateLeds k =
     [0xED, (if ScrollLockOn k then 1 else 0) OR (if NumLockOn k then 2 else 0) OR (if CapsLockOn k then 4 else 0)]"

text \<open>The switch over the keys with an extended prefix.\<close>
definition ExtendedKey :: "u8 \<Rightarrow> int option" where
  "ExtendedKey c =
     (if c = 0x48 then Some KEY_UP else if c = 0x50 then Some KEY_DOWN else if c = 0x4B then Some KEY_LEFT
      else if c = 0x4D then Some KEY_RIGHT else if c = 0x47 then Some KEY_HOME else if c = 0x4F then Some KEY_END
      else if c = 0x53 then Some KEY_DELETE else if c = 0x49 then Some KEY_PGUP else if c = 0x51 then Some KEY_PGDN
      else if c = 0x1C then Some 10 else if c = 0x35 then Some 47 else None)"

definition is_lower :: "u8 \<Rightarrow> bool" where "is_lower c \<longleftrightarrow> c \<ge> chr_code CHR ''a'' \<and> c \<le> chr_code CHR ''z''"
definition is_upper :: "u8 \<Rightarrow> bool" where "is_upper c \<longleftrightarrow> c \<ge> chr_code CHR ''A'' \<and> c \<le> chr_code CHR ''Z''"

text \<open>The end of the handler: a pressed key that is neither a modifier nor a lock. The result is the key
  it pushes, if it does.\<close>
definition PlainKey :: "u8 \<Rightarrow> keyboard \<Rightarrow> int option" where
  "PlainKey c k =
     (let Ascii = (if ShiftHeld k then ScancodeToAsciiShift ! unat c else ScancodeToAscii ! unat c)
      in if Ascii = 0 then None
      else let Ascii = (if CapsLockOn k \<and> is_lower Ascii then Ascii - chr_code CHR ''a'' + chr_code CHR ''A''
                        else if CapsLockOn k \<and> is_upper Ascii then Ascii - chr_code CHR ''A'' + chr_code CHR ''a''
                        else Ascii)
      in if CtrlHeld k \<and> \<not> AltHeld k \<and> (is_lower Ascii \<or> is_upper Ascii)
         then Some (uint (Ascii OR 0x20) - 97 + 1)
         else if CtrlHeld k \<or> AltHeld k then None
         else Some (uint Ascii))"

definition KeyboardIrqHandler :: "u8 \<Rightarrow> u8 \<Rightarrow> keyboard \<Rightarrow> keyboard \<times> u8 list" where
  "KeyboardIrqHandler Status Scancode k =
     (if Status AND 0x20 \<noteq> 0 then (k, [])
      else if Scancode = 0xE0 then (k\<lparr>ExtendedPrefix := True\<rparr>, [])
      else let Released = (Scancode AND 0x80 \<noteq> 0); c = Scancode AND 0x7F
      in if ExtendedPrefix k
      then (let k = k\<lparr>ExtendedPrefix := False\<rparr>
            in if c = 0x1D then (k\<lparr>CtrlHeld := \<not> Released\<rparr>, [])
            else if c = 0x38 then (k\<lparr>AltHeld := \<not> Released\<rparr>, [])
            else if \<not> Released
            then (case ExtendedKey c of Some key \<Rightarrow> (PushChar key k, []) | None \<Rightarrow> (k, []))
            else (k, []))
      else if c = 0x2A \<or> c = 0x36 then (k\<lparr>ShiftHeld := \<not> Released\<rparr>, [])
      else if c = 0x1D then (k\<lparr>CtrlHeld := \<not> Released\<rparr>, [])
      else if c = 0x38 then (k\<lparr>AltHeld := \<not> Released\<rparr>, [])
      else if Released then (k, [])
      else if c = 0x3A then (let k = k\<lparr>CapsLockOn := \<not> CapsLockOn k\<rparr> in (k, UpdateLeds k))
      else if c = 0x45 then (let k = k\<lparr>NumLockOn := \<not> NumLockOn k\<rparr> in (k, UpdateLeds k))
      else if c = 0x46 then (let k = k\<lparr>ScrollLockOn := \<not> ScrollLockOn k\<rparr> in (k, UpdateLeds k))
      else case PlainKey c k of Some key \<Rightarrow> (PushChar key k, []) | None \<Rightarrow> (k, []))"

section \<open>The ring buffer is a queue\<close>

definition ring_ok :: "keyboard \<Rightarrow> bool" where
  "ring_ok k \<longleftrightarrow> length (KeyBuffer k) = 256 \<and> KeyBufferHead k < 256 \<and> KeyBufferTail k < 256"

definition ring_length :: "keyboard \<Rightarrow> nat" where
  "ring_length k = (KeyBufferHead k + 256 - KeyBufferTail k) mod 256"

definition ring_keys :: "keyboard \<Rightarrow> int list" where
  "ring_keys k = map (\<lambda>i. KeyBuffer k ! ((KeyBufferTail k + i) mod 256)) [0..<ring_length k]"

definition ring_get :: "keyboard \<Rightarrow> int option \<times> keyboard" where
  "ring_get k = (if KeyBufferTail k = KeyBufferHead k then (None, k)
     else case KeyboardGetKey k of (key, k) \<Rightarrow> (Some key, k))"

lemma ring_length_cases:
  assumes "ring_ok k"
  shows "ring_length k = (if KeyBufferTail k \<le> KeyBufferHead k then KeyBufferHead k - KeyBufferTail k
    else KeyBufferHead k + 256 - KeyBufferTail k)"
proof (cases "KeyBufferTail k \<le> KeyBufferHead k")
  case True
  then have "KeyBufferHead k + 256 - KeyBufferTail k = (KeyBufferHead k - KeyBufferTail k) + 256" by simp
  moreover have "KeyBufferHead k - KeyBufferTail k < 256" using assms by (simp add: ring_ok_def less_imp_diff_less)
  ultimately have "ring_length k = KeyBufferHead k - KeyBufferTail k"
    unfolding ring_length_def by (simp only: mod_add_self2 mod_less)
  with True show ?thesis by simp
next
  case False
  with assms show ?thesis by (simp add: ring_length_def ring_ok_def)
qed

lemma ring_full: "ring_ok k \<Longrightarrow> (KeyBufferHead k + 1) mod 256 = KeyBufferTail k \<longleftrightarrow> ring_length k = 255"
  by (cases "KeyBufferHead k = 255") (auto simp: ring_length_cases ring_ok_def)

lemma ring_empty: "ring_ok k \<Longrightarrow> KeyBufferTail k = KeyBufferHead k \<longleftrightarrow> ring_length k = 0"
  by (auto simp: ring_length_cases ring_ok_def)

lemma ring_bound: "ring_ok k \<Longrightarrow> ring_length k < 256"
  by (simp add: ring_length_def)

text \<open>The slot behind the last key is the head.\<close>
lemma ring_head: "ring_ok k \<Longrightarrow> (KeyBufferTail k + ring_length k) mod 256 = KeyBufferHead k"
  by (auto simp: ring_length_cases ring_ok_def)

lemma ring_slots:
  assumes "ring_ok k" "i < ring_length k"
  shows "(KeyBufferTail k + i) mod 256 \<noteq> KeyBufferHead k"
proof
  assume "(KeyBufferTail k + i) mod 256 = KeyBufferHead k"
  with ring_head [OF assms(1)] have "(KeyBufferTail k + i) mod 256 = (KeyBufferTail k + ring_length k) mod 256" by simp
  moreover have "i < 256" "ring_length k < 256" using ring_bound [OF assms(1)] assms(2) by simp_all
  ultimately have "i = ring_length k"
    using assms(1) by (simp add: ring_ok_def mod_if split: if_splits)
  with assms(2) show False by simp
qed

lemma PushChar_ring:
  assumes "ring_ok k"
  shows "ring_ok (PushChar c k)"
    "ring_keys (PushChar c k) = (if length (ring_keys k) < 255 then ring_keys k @ [c] else ring_keys k)"
proof -
  show "ring_ok (PushChar c k)" using assms by (simp add: PushChar_def ring_ok_def KEY_BUFFER_SIZE_def Let_def)
  have len: "length (ring_keys k) = ring_length k" by (simp add: ring_keys_def)
  show "ring_keys (PushChar c k) = (if length (ring_keys k) < 255 then ring_keys k @ [c] else ring_keys k)"
  proof (cases "ring_length k = 255")
    case True
    with ring_full [OF assms] len show ?thesis by (simp add: PushChar_def KEY_BUFFER_SIZE_def)
  next
    case False
    let ?k = "k\<lparr>KeyBuffer := (KeyBuffer k)[KeyBufferHead k := c], KeyBufferHead := (KeyBufferHead k + 1) mod 256\<rparr>"
    have push: "PushChar c k = ?k" using ring_full [OF assms] False by (simp add: PushChar_def KEY_BUFFER_SIZE_def Let_def)
    have ok: "ring_ok ?k" using assms by (simp add: ring_ok_def)
    have ne: "(KeyBufferHead k + 1) mod 256 \<noteq> KeyBufferTail k" using ring_full [OF assms] False by simp
    have "ring_length ?k = Suc (ring_length k)"
      using assms ne unfolding ring_length_cases [OF ok] ring_length_cases [OF assms]
      by (cases "KeyBufferHead k = 255") (auto simp: ring_ok_def)
    moreover have "KeyBuffer ?k ! ((KeyBufferTail ?k + i) mod 256) = KeyBuffer k ! ((KeyBufferTail k + i) mod 256)"
      if "i < ring_length k" for i
      using ring_slots [OF assms that] by simp
    moreover have "KeyBuffer ?k ! ((KeyBufferTail ?k + ring_length k) mod 256) = c"
      using assms by (simp add: ring_head [OF assms] ring_ok_def)
    ultimately have "ring_keys ?k = ring_keys k @ [c]" unfolding ring_keys_def by simp
    with False ring_bound [OF assms] show ?thesis by (simp add: push len)
  qed
qed

lemma ring_get_keys:
  assumes "ring_ok k"
  shows "ring_ok (snd (ring_get k))"
    "ring_keys k = (case fst (ring_get k) of None \<Rightarrow> [] | Some key \<Rightarrow> key # ring_keys (snd (ring_get k)))"
    "fst (ring_get k) = None \<Longrightarrow> ring_keys (snd (ring_get k)) = []"
proof -
  show "ring_ok (snd (ring_get k))"
    using assms by (auto simp: ring_get_def KeyboardGetKey_def ring_ok_def KEY_BUFFER_SIZE_def)
  show "ring_keys k = (case fst (ring_get k) of None \<Rightarrow> [] | Some key \<Rightarrow> key # ring_keys (snd (ring_get k)))"
  proof (cases "KeyBufferTail k = KeyBufferHead k")
    case True
    with ring_empty [OF assms] show ?thesis by (simp add: ring_get_def ring_keys_def)
  next
    case False
    let ?k = "k\<lparr>KeyBufferTail := (KeyBufferTail k + 1) mod 256\<rparr>"
    have ok: "ring_ok ?k" using assms by (simp add: ring_ok_def)
    have len: "ring_length k = Suc (ring_length ?k)"
      using assms False unfolding ring_length_cases [OF ok] ring_length_cases [OF assms]
      by (cases "KeyBufferTail k = 255") (auto simp: ring_ok_def)
    have "(Suc (KeyBufferTail k) mod 256 + i) mod 256 = (KeyBufferTail k + Suc i) mod 256" for i
      by (simp add: mod_add_left_eq)
    then have "ring_keys k = KeyBuffer k ! KeyBufferTail k # ring_keys ?k"
      using assms unfolding ring_keys_def len by (simp add: upt_conv_Cons map_Suc_upt [symmetric] ring_ok_def del: upt_Suc)
    with False show ?thesis by (simp add: ring_get_def KeyboardGetKey_def KEY_BUFFER_SIZE_def)
  qed
  show "fst (ring_get k) = None \<Longrightarrow> ring_keys (snd (ring_get k)) = []"
    using ring_empty [OF assms] by (auto simp: ring_get_def ring_keys_def split: if_splits prod.splits)
qed

interpretation ring: bounded_queue ring_keys ring_ok PushChar ring_get 255
  by unfold_locales (simp_all add: PushChar_ring ring_get_keys(1,3), rule ring_get_keys(2))

section \<open>Interrupts and readers\<close>

datatype key_event = Interrupt u8 u8 | ReadKey

text \<open>The key an interrupt delivers: none for a byte of the mouse, a prefix, a release, a modifier or a lock.\<close>
definition irq_key :: "u8 \<Rightarrow> u8 \<Rightarrow> keyboard \<Rightarrow> int option" where
  "irq_key Status Scancode k =
     (if Status AND 0x20 \<noteq> 0 \<or> Scancode = 0xE0 \<or> Scancode AND 0x80 \<noteq> 0 then None
      else if ExtendedPrefix k then ExtendedKey (Scancode AND 0x7F)
      else if Scancode AND 0x7F \<in> {0x2A, 0x36, 0x1D, 0x38, 0x3A, 0x45, 0x46} then None
      else PlainKey (Scancode AND 0x7F) k)"

text \<open>A run of interrupts and reads: the keys delivered, the keys read (a read of an empty buffer gives none) and the state.\<close>
fun key_session :: "key_event list \<Rightarrow> keyboard \<Rightarrow> int list \<times> int list \<times> keyboard" where
  "key_session [] k = ([], [], k)"
| "key_session (Interrupt s c # es) k =
     (case key_session es (fst (KeyboardIrqHandler s c k)) of (typed, seen, k') \<Rightarrow> ((case irq_key s c k of None \<Rightarrow> [] | Some key \<Rightarrow> [key]) @ typed, seen, k'))"
| "key_session (ReadKey # es) k =
     (let (key, k) = KeyboardGetKey k
      in case key_session es k of (typed, seen, k') \<Rightarrow> (typed, (if key = 0 then [] else [key]) @ seen, k'))"

text \<open>No interrupt finds the buffer full.\<close>
fun key_room :: "key_event list \<Rightarrow> keyboard \<Rightarrow> bool" where
  "key_room [] k \<longleftrightarrow> True"
| "key_room (Interrupt s c # es) k \<longleftrightarrow> length (ring_keys k) < 255 \<and> key_room es (fst (KeyboardIrqHandler s c k))"
| "key_room (ReadKey # es) k \<longleftrightarrow> key_room es (snd (KeyboardGetKey k))"

definition keyboard_ok :: "keyboard \<Rightarrow> bool" where
  "keyboard_ok k \<longleftrightarrow> ring_ok k \<and> 0 \<notin> set (ring_keys k)"

subsection \<open>The key tables\<close>

lemma table_rows:
  "list_all (\<lambda>i. let lo = ScancodeToAscii ! i; hi = ScancodeToAsciiShift ! i
     in uint lo < 128 \<and> uint hi < 128 \<and> (is_lower lo \<longleftrightarrow> is_upper hi) \<and> (is_lower lo \<longrightarrow> uint hi = uint lo - 32)
        \<and> \<not> is_upper lo \<and> \<not> is_lower hi) [0..<128]"
  by code_simp
definition letter_codes :: "nat list" where
  "letter_codes = List.filter (\<lambda>i. is_lower (ScancodeToAscii ! i)) [0..<128]"

lemma letter_codes_eq: "letter_codes =
  [16, 17, 18, 19, 20, 21, 22, 23, 24, 25, 30, 31, 32, 33, 34, 35, 36, 37, 38, 44, 45, 46, 47, 48, 49, 50]"
  by code_simp

lemma letter_keys:
  "list_all (\<lambda>i. list_all (\<lambda>(sh, caps, ctrl).
     let lo = uint (ScancodeToAscii ! i)
     in PlainKey (of_nat i) (keyboard_init\<lparr>ShiftHeld := sh, CapsLockOn := caps, CtrlHeld := ctrl\<rparr>) =
        Some (if ctrl then lo - 96 else if sh = caps then lo else lo - 32))
     (List.product [True, False] (List.product [True, False] [True, False]))) letter_codes"
  unfolding letter_codes_eq by code_simp

lemma PlainKey_cong:
  "ShiftHeld k = ShiftHeld l \<Longrightarrow> CapsLockOn k = CapsLockOn l \<Longrightarrow> CtrlHeld k = CtrlHeld l \<Longrightarrow> AltHeld k = AltHeld l \<Longrightarrow>
   PlainKey c k = PlainKey c l"
  by (simp only: PlainKey_def)

lemma letter_or:
  "list_all (\<lambda>i. uint (word_of_nat i OR 0x20 :: u8) = int i + 32) [65..<91]"
  "list_all (\<lambda>i. uint (word_of_nat i OR 0x20 :: u8) = int i) [97..<123]"
  by code_simp+
lemma letter_range: "is_lower a \<Longrightarrow> 97 \<le> uint a \<and> uint a \<le> 122" "is_upper a \<Longrightarrow> 65 \<le> uint a \<and> uint a \<le> 90"
  by (simp_all add: is_lower_def is_upper_def word_le_def)

lemma letter_or_value:
  assumes "is_lower c \<or> is_upper c"
  shows "97 \<le> uint (c OR 0x20) \<and> uint (c OR 0x20) \<le> 122"
proof -
  have "is_lower c \<Longrightarrow> unat c \<in> {97..<123}" "is_upper c \<Longrightarrow> unat c \<in> {65..<91}"
    unfolding is_lower_def is_upper_def word_le_nat_alt atLeastLessThan_iff by simp_all
  then have "is_lower c \<Longrightarrow> uint (c OR 0x20) = uint c" "is_upper c \<Longrightarrow> uint (c OR 0x20) = uint c + 32"
    using letter_or(2) [unfolded list_all_iff set_upt, rule_format, of "unat c"]
      letter_or(1) [unfolded list_all_iff set_upt, rule_format, of "unat c"] by simp_all
  with assms letter_range [of c] show ?thesis by auto
qed

lemma table_bound:
  assumes "unat c < 128"
  shows "uint (ScancodeToAscii ! unat c) < 128" "uint (ScancodeToAsciiShift ! unat c) < 128"
  using table_rows assms by (simp_all add: list_all_iff Let_def)

lemma case_flip:
  fixes a :: u8
  shows "is_lower a \<Longrightarrow> uint (a - chr_code CHR ''a'' + chr_code CHR ''A'') = uint a - 32"
    "is_upper a \<Longrightarrow> uint (a - chr_code CHR ''A'' + chr_code CHR ''a'') = uint a + 32"
proof -
  have e: "a - chr_code CHR ''a'' + chr_code CHR ''A'' = a - 32" "a - chr_code CHR ''A'' + chr_code CHR ''a'' = a + 32"
    by simp_all
  show "is_lower a \<Longrightarrow> uint (a - chr_code CHR ''a'' + chr_code CHR ''A'') = uint a - 32"
    unfolding e by (simp add: is_lower_def uint_sub_if' word_le_def)
  show "is_upper a \<Longrightarrow> uint (a - chr_code CHR ''A'' + chr_code CHR ''a'') = uint a + 32"
    unfolding e by (simp add: is_upper_def uint_plus_if' word_le_def)
qed

lemma PlainKey_bound:
  assumes "unat c < 128" "PlainKey c k = Some key"
  shows "0 < key" "key < 128"
proof -
  define a where "a = (if ShiftHeld k then ScancodeToAsciiShift ! unat c else ScancodeToAscii ! unat c)"
  define b where "b = (if CapsLockOn k \<and> is_lower a then a - chr_code CHR ''a'' + chr_code CHR ''A''
    else if CapsLockOn k \<and> is_upper a then a - chr_code CHR ''A'' + chr_code CHR ''a'' else a)"
  have run: "a \<noteq> 0" "(if CtrlHeld k \<and> \<not> AltHeld k \<and> (is_lower b \<or> is_upper b) then Some (uint (b OR 0x20) - 97 + 1)
      else if CtrlHeld k \<or> AltHeld k then None else Some (uint b)) = Some key"
    using assms(2) unfolding PlainKey_def Let_def a_def [symmetric] b_def [symmetric] by (simp_all split: if_splits)
  have "uint a < 128" using table_bound [OF assms(1)] by (simp add: a_def)
  moreover have "0 < uint a" using run(1) by (simp add: uint_0_iff less_le)
  ultimately have "0 < uint b \<and> uint b < 128"
    using case_flip [of a] letter_range [of a] by (auto simp: b_def)
  with run(2) letter_or_value [of b] show "0 < key" "key < 128" by (auto split: if_splits)
qed

subsection \<open>What an interrupt delivers\<close>

definition same_ring :: "keyboard \<Rightarrow> keyboard \<Rightarrow> bool" where
  "same_ring l k \<longleftrightarrow> KeyBuffer l = KeyBuffer k \<and> KeyBufferHead l = KeyBufferHead k \<and> KeyBufferTail l = KeyBufferTail k"

lemma same_ring_keys: "same_ring l k \<Longrightarrow> ring_keys l = ring_keys k" "same_ring l k \<Longrightarrow> ring_ok l = ring_ok k"
  by (simp_all add: same_ring_def ring_keys_def ring_ok_def ring_length_def)

lemma irq_none: "same_ring l k \<Longrightarrow> \<exists>m. same_ring m k \<and> l = (case None of None \<Rightarrow> m | Some key \<Rightarrow> PushChar key m)"
  by simp

text \<open>An interrupt delivers its key through \<open>PushChar\<close>; nothing else in the handler touches the ring.\<close>
lemma irq_shape:
  "\<exists>l. same_ring l k \<and> fst (KeyboardIrqHandler s c k) = (case irq_key s c k of None \<Rightarrow> l | Some key \<Rightarrow> PushChar key l)"
proof -
  note def = KeyboardIrqHandler_def irq_key_def Let_def same_ring_def
  consider (Ignored) "s AND 0x20 \<noteq> 0 \<or> c = 0xE0"
    | (Up) "s AND 0x20 = 0" "c \<noteq> 0xE0" "c AND 0x80 \<noteq> 0"
    | (Extended) "s AND 0x20 = 0" "c \<noteq> 0xE0" "c AND 0x80 = 0" "ExtendedPrefix k"
    | (Special) "s AND 0x20 = 0" "c \<noteq> 0xE0" "c AND 0x80 = 0" "\<not> ExtendedPrefix k"
        "c AND 0x7F \<in> {0x2A, 0x36, 0x1D, 0x38, 0x3A, 0x45, 0x46}"
    | (Plain) "s AND 0x20 = 0" "c \<noteq> 0xE0" "c AND 0x80 = 0" "\<not> ExtendedPrefix k"
        "c AND 0x7F \<notin> {0x2A, 0x36, 0x1D, 0x38, 0x3A, 0x45, 0x46}"
    by blast
  then show ?thesis
  proof cases
    case Ignored
    then show ?thesis by (auto simp: def)
  next
    case Up
    then show ?thesis by (simp add: def)
  next
    case Extended
    show ?thesis
    proof (cases "c AND 0x7F = 0x1D \<or> c AND 0x7F = 0x38")
      case True
      with Extended show ?thesis by (auto simp: def ExtendedKey_def)
    next
      case False
      with Extended show ?thesis
        by (intro exI [of _ "k\<lparr>ExtendedPrefix := False\<rparr>"]) (simp add: def split: option.split)
    qed
  next
    case Special
    then show ?thesis by (auto simp: def)
  next
    case Plain
    then show ?thesis by (intro exI [of _ k]) (simp add: def split: option.split)
  qed
qed

lemma irq_key_bound:
  assumes "irq_key s c k = Some key"
  shows "0 < key"
proof -
  have "unat (c AND 0x7F) < 128"
    using word_and_le1 [of c "0x7F"] by (simp add: word_le_nat_alt)
  with assms PlainKey_bound [of "c AND 0x7F" k key] show ?thesis
    by (auto simp: irq_key_def ExtendedKey_def key_codes split: if_splits)
qed

lemma irq_moves:
  assumes "keyboard_ok k" "length (ring_keys k) < 255"
  shows "keyboard_ok (fst (KeyboardIrqHandler s c k))"
    "ring.moves k (case irq_key s c k of None \<Rightarrow> [] | Some key \<Rightarrow> [key]) [] (fst (KeyboardIrqHandler s c k))"
proof -
  obtain l where l: "same_ring l k" "fst (KeyboardIrqHandler s c k) = (case irq_key s c k of None \<Rightarrow> l | Some key \<Rightarrow> PushChar key l)"
    using irq_shape by blast
  note eqs = same_ring_keys [OF l(1)]
  show "ring.moves k (case irq_key s c k of None \<Rightarrow> [] | Some key \<Rightarrow> [key]) [] (fst (KeyboardIrqHandler s c k))"
    using assms eqs ring.moves_put [of l] by (auto simp: l(2) ring.moves_def keyboard_ok_def split: option.splits)
  then show "keyboard_ok (fst (KeyboardIrqHandler s c k))"
    using assms(1) irq_key_bound [of s c k] by (auto simp: ring.moves_def keyboard_ok_def split: option.splits)
qed

lemma read_moves:
  assumes "keyboard_ok k" "KeyboardGetKey k = (key, l)"
  shows "keyboard_ok l" "ring.moves k [] (if key = 0 then [] else [key]) l"
proof -
  obtain r where r: "ring_get k = (r, l)" "key = (case r of None \<Rightarrow> 0 | Some key \<Rightarrow> key)"
    using assms(2) by (auto simp: ring_get_def KeyboardGetKey_def split: if_splits)
  have m: "ring.moves k [] (case r of None \<Rightarrow> [] | Some key \<Rightarrow> [key]) l"
    using ring.moves_get [OF _ r(1)] assms(1) by (simp add: keyboard_ok_def)
  have ne: "r \<noteq> Some 0"
  proof
    assume "r = Some 0"
    with m have "0 # ring_keys l = ring_keys k" by (simp add: ring.moves_def)
    then have "0 \<in> set (ring_keys k)" by (metis list.set_intros(1))
    with assms(1) show False by (simp add: keyboard_ok_def)
  qed
  with m r(2) show "ring.moves k [] (if key = 0 then [] else [key]) l" by (auto split: option.splits)
  from m have "ring_ok l" "set (ring_keys l) \<subseteq> set (ring_keys k)"
    unfolding ring.moves_def by (metis append_Nil2, metis append_Nil2 set_append Un_upper2)
  with assms(1) show "keyboard_ok l" by (auto simp: keyboard_ok_def)
qed

text \<open>C18: the keyboard buffer is a faithful queue between the interrupt and the readers: over any interleaving of
  interrupts and calls of KeyboardGetKey in which no interrupt finds 255 keys pending, the keys read followed by
  the keys still buffered are the keys that were pending followed by the keys typed, in order, and no key is the
  0 that stands for an empty buffer.\<close>
theorem keyboard_fifo:
  assumes "keyboard_ok k" "key_room es k" "key_session es k = (typed, seen, k')"
  shows "seen @ ring_keys k' = ring_keys k @ typed \<and> keyboard_ok k'"
proof -
  have "ring.moves k typed seen k' \<and> keyboard_ok k'"
    using assms
  proof (induction es arbitrary: k typed seen)
    case Nil
    then show ?case by (auto simp: keyboard_ok_def intro: ring.moves_refl)
  next
    case (Cons e es)
    show ?case
    proof (cases e)
      case (Interrupt s c)
      let ?k = "fst (KeyboardIrqHandler s c k)"
      obtain ts ss where r: "key_session es ?k = (ts, ss, k')"
        using Cons.prems(3) Interrupt by (auto split: prod.splits)
      from Cons.prems Interrupt have room: "length (ring_keys k) < 255" "key_room es ?k" by simp_all
      note m = irq_moves [OF Cons.prems(1) room(1), of s c]
      from ring.moves_trans [OF m(2)] Cons.IH [OF m(1) room(2) r] Cons.prems(3) r Interrupt
      show ?thesis by auto
    next
      case ReadKey
      obtain key l where g: "KeyboardGetKey k = (key, l)" by (cases "KeyboardGetKey k")
      obtain ts ss where r: "key_session es l = (ts, ss, k')"
        using Cons.prems(3) ReadKey g by (auto split: prod.splits)
      note m = read_moves [OF Cons.prems(1) g]
      have room: "key_room es l" using Cons.prems(2) ReadKey g by simp
      from ring.moves_trans [OF m(2)] Cons.IH [OF m(1) room r] Cons.prems(3) r g ReadKey
      show ?thesis by auto
    qed
  qed
  then show ?thesis by (simp add: ring.moves_def)
qed

text \<open>A letter key types the capital exactly when Shift and Caps Lock disagree, and with Control the control
  code 1 to 26 of the letter, whatever Shift and Caps Lock are.\<close>
theorem letter_typed:
  assumes "unat c < 128" "is_lower (ScancodeToAscii ! unat c)"
    and "Status AND 0x20 = 0" "\<not> ExtendedPrefix k" "\<not> AltHeld k"
  shows "KeyboardIrqHandler Status c k =
    (let lo = uint (ScancodeToAscii ! unat c)
     in (PushChar (if CtrlHeld k then lo - 96 else if ShiftHeld k = CapsLockOn k then lo else lo - 32) k, []))"
proof -
  let ?lo = "uint (ScancodeToAscii ! unat c)"
  have code: "unat c \<in> set letter_codes" using assms(1,2) by (simp add: letter_codes_def)
  let ?k = "keyboard_init\<lparr>ShiftHeld := ShiftHeld k, CapsLockOn := CapsLockOn k, CtrlHeld := CtrlHeld k\<rparr>"
  have "PlainKey c k = PlainKey c ?k"
    by (rule PlainKey_cong) (simp_all add: assms(5) keyboard_init_def)
  also have "\<dots> = Some (if CtrlHeld k then ?lo - 96 else if ShiftHeld k = CapsLockOn k then ?lo else ?lo - 32)"
    using letter_keys [unfolded list_all_iff, rule_format, OF code, of "(ShiftHeld k, CapsLockOn k, CtrlHeld k)"]
    by (auto simp: Let_def)
  finally have key: "PlainKey c k = Some (if CtrlHeld k then ?lo - 96 else if ShiftHeld k = CapsLockOn k then ?lo else ?lo - 32)" .
  have "unat c \<in> {16, 17, 18, 19, 20, 21, 22, 23, 24, 25, 30, 31, 32, 33, 34, 35, 36, 37, 38, 44, 45, 46, 47, 48, 49, 50}"
    using code unfolding letter_codes_eq by simp
  then have "c \<in> word_of_nat ` {16, 17, 18, 19, 20, 21, 22, 23, 24, 25, 30, 31, 32, 33, 34, 35, 36, 37, 38, 44, 45, 46, 47, 48, 49, 50}"
    by (intro image_eqI [of c word_of_nat "unat c"]) simp_all
  then have "c AND 0x7F = c" "c AND 0x80 = 0" "c \<notin> {0xE0, 0x2A, 0x36, 0x1D, 0x38, 0x3A, 0x45, 0x46}" by auto
  with assms(3,4) key show ?thesis by (simp add: KeyboardIrqHandler_def)
qed

text \<open>Shift down, the letter A, Shift up, the letter A; the first key is read in between.\<close>
lemma keyboard_fifo_witness:
  "fst (snd (key_session [Interrupt 0 0x2A, Interrupt 0 0x1E, ReadKey, Interrupt 0 0xAA, Interrupt 0 0x1E] keyboard_init))
     @ ring_keys (snd (snd (key_session [Interrupt 0 0x2A, Interrupt 0 0x1E, ReadKey, Interrupt 0 0xAA, Interrupt 0 0x1E] keyboard_init)))
   = [65, 97]"
proof -
  let ?es = "[Interrupt 0 0x2A, Interrupt 0 0x1E, ReadKey, Interrupt 0 0xAA, Interrupt 0 0x1E]"
  have ok: "keyboard_ok keyboard_init" by code_simp
  have room: "key_room ?es keyboard_init" by code_simp
  have typed: "ring_keys keyboard_init @ fst (key_session ?es keyboard_init) = [65, 97]" by code_simp
  from keyboard_fifo [OF ok room, of "fst (key_session ?es keyboard_init)" "fst (snd (key_session ?es keyboard_init))"
      "snd (snd (key_session ?es keyboard_init))"] typed
  show ?thesis by simp
qed

lemma letter_typed_witness:
  "fst (KeyboardIrqHandler 0 0x1E (keyboard_init\<lparr>CapsLockOn := True\<rparr>)) = PushChar 65 (keyboard_init\<lparr>CapsLockOn := True\<rparr>)"
  using letter_typed [of "0x1E" 0 "keyboard_init\<lparr>CapsLockOn := True\<rparr>"]
  by (simp add: ScancodeToAscii_def is_lower_def keyboard_init_def)

end
