(* ===== verification/Mouse.thy ===== *)
theory Mouse
  imports Text
begin

text \<open>
  The PS/2 mouse driver (\<open>kernel/mouse.c\<close>): the interrupt handler that assembles three-byte packets,
  and the readers that take the accumulated motion and the pressed buttons. The handler is a function of
  the byte it reads and of the tick counter. The readers run with interrupts enabled, so they are
  modelled twice: as a whole, for the callers (\<open>MouseGetDelta\<close>, \<open>MouseTakePressed\<close>), and statement by
  statement, with a byte arriving between any two statements. Setting up the controller is in \<open>Irq\<close>.
\<close>

section \<open>State and operations\<close>

record mouse =
  AccumDx :: int
  AccumDy :: int
  MouseButtons :: u8
  PressedLatch :: u8
  LastButtonState :: u8
  MouseDataReady :: bool
  PacketBytes :: "u8 list"
  PacketIndex :: nat
  LastByteTick :: u64

definition mouse_init :: mouse where
  "mouse_init = \<lparr>AccumDx = 0, AccumDy = 0, MouseButtons = 0, PressedLatch = 0, LastButtonState = 0,
     MouseDataReady = False, PacketBytes = [0, 0, 0], PacketIndex = 0, LastByteTick = 0\<rparr>"

text \<open>The end of the handler: the three bytes are there.\<close>
definition TakePacket :: "mouse \<Rightarrow> mouse" where
  "TakePacket m =
     (let Status = PacketBytes m ! 0;
          Dx = uint (PacketBytes m ! 1); Dy = uint (PacketBytes m ! 2);
          Dx = (if Status AND 0x10 \<noteq> 0 then Dx - 256 else Dx);
          Dy = (if Status AND 0x20 \<noteq> 0 then Dy - 256 else Dy)
      in m\<lparr>PacketIndex := 0, AccumDx := AccumDx m + Dx, AccumDy := AccumDy m + Dy,
           MouseButtons := Status AND 0x07,
           PressedLatch := PressedLatch m OR ((Status AND 0x07) AND NOT (LastButtonState m)),
           LastButtonState := Status AND 0x07, MouseDataReady := True\<rparr>)"

definition MouseIrqHandler :: "u64 \<Rightarrow> u8 \<Rightarrow> mouse \<Rightarrow> mouse" where
  "MouseIrqHandler Tick Data m =
     (let m = (if PacketIndex m \<noteq> 0 \<and> Tick - LastByteTick m > 20 then m\<lparr>PacketIndex := 0\<rparr> else m);
          m = m\<lparr>LastByteTick := Tick\<rparr>
      in if PacketIndex m = 0 \<and> Data AND 0x08 = 0 then m
      else let m = m\<lparr>PacketBytes := (PacketBytes m)[PacketIndex m := Data], PacketIndex := PacketIndex m + 1\<rparr>
      in if PacketIndex m < 3 then m else TakePacket m)"

text \<open>The deltas and the buttons, or nothing when no packet came since the last call. This is the call
  with no interrupt between its statements; with interrupts it is the run of statements below.\<close>
definition MouseGetDelta :: "mouse \<Rightarrow> (int \<times> int \<times> u8) option \<times> mouse" where
  "MouseGetDelta m =
     (if \<not> MouseDataReady m then (None, m)
      else (Some (AccumDx m, AccumDy m, MouseButtons m), m\<lparr>AccumDx := 0, AccumDy := 0, MouseDataReady := False\<rparr>))"

definition MouseTakePressed :: "mouse \<Rightarrow> u8 \<times> mouse" where
  "MouseTakePressed m = (PressedLatch m, m\<lparr>PressedLatch := 0\<rparr>)"

section \<open>Packets\<close>

text \<open>Status and motion bytes, each with the tick it arrives at.\<close>
datatype packet = Packet "u64 \<times> u8" "u64 \<times> u8" "u64 \<times> u8"

fun packet_bytes :: "packet \<Rightarrow> (u64 \<times> u8) list" where
  "packet_bytes (Packet a b c) = [a, b, c]"

text \<open>What a mouse that works sends: the status byte has its marker bit, and no gap inside a packet.\<close>
fun timely :: "packet \<Rightarrow> bool" where
  "timely (Packet (t0, s) (t1, x) (t2, y)) \<longleftrightarrow> s AND 0x08 \<noteq> 0 \<and> t1 - t0 \<le> 20 \<and> t2 - t1 \<le> 20"

fun packet_status :: "packet \<Rightarrow> u8" where "packet_status (Packet a b c) = snd a"
fun packet_dx :: "packet \<Rightarrow> int" where
  "packet_dx (Packet a b c) = uint (snd b) - (if snd a AND 0x10 \<noteq> 0 then 256 else 0)"
fun packet_dy :: "packet \<Rightarrow> int" where
  "packet_dy (Packet a b c) = uint (snd c) - (if snd a AND 0x20 \<noteq> 0 then 256 else 0)"

fun buttons_after :: "u8 \<Rightarrow> packet list \<Rightarrow> u8" where
  "buttons_after l [] = l"
| "buttons_after l (p # ps) = buttons_after (packet_status p AND 7) ps"

text \<open>The buttons that go down in a run of packets, after the buttons \<open>l\<close>.\<close>
fun presses :: "u8 \<Rightarrow> packet list \<Rightarrow> u8" where
  "presses l [] = 0"
| "presses l (p # ps) = ((packet_status p AND 7) AND NOT l) OR presses (packet_status p AND 7) ps"

section \<open>The readers, statement by statement\<close>

text \<open>The statement of a reader that is executed next: \<open>MouseGetDelta\<close> after its test, in the order of
  the code, and \<open>MouseTakePressed\<close> after it has read the latch.\<close>
datatype reader_pc = Outside | ReadDx | ReadDy | ReadButtons | ClearDx | ClearDy | ClearReady | ClearLatch

text \<open>The driver and a reader's variables, what the calls have returned so far, and what the handler
  added to a variable after a reader had read it and before it cleared it.\<close>
record mouse_run =
  MouseDev :: mouse
  ReaderPc :: reader_pc
  LocalDx :: int
  LocalDy :: int
  LocalButtons :: u8
  LocalPressed :: u8
  GotDx :: int
  GotDy :: int
  GotPressed :: u8
  LostDx :: int
  LostDy :: int
  LostPressed :: u8

definition run_from :: "mouse \<Rightarrow> mouse_run" where
  "run_from m = \<lparr>MouseDev = m, ReaderPc = Outside, LocalDx = 0, LocalDy = 0, LocalButtons = 0, LocalPressed = 0,
     GotDx = 0, GotDy = 0, GotPressed = 0, LostDx = 0, LostDy = 0, LostPressed = 0\<rparr>"

text \<open>The next statement of the reader that is running.\<close>
definition ReaderStmt :: "mouse_run \<Rightarrow> mouse_run" where
  "ReaderStmt s = (case ReaderPc s of
       Outside \<Rightarrow> s
     | ReadDx \<Rightarrow> s\<lparr>LocalDx := AccumDx (MouseDev s), ReaderPc := ReadDy\<rparr>
     | ReadDy \<Rightarrow> s\<lparr>LocalDy := AccumDy (MouseDev s), ReaderPc := ReadButtons\<rparr>
     | ReadButtons \<Rightarrow> s\<lparr>LocalButtons := MouseButtons (MouseDev s), ReaderPc := ClearDx\<rparr>
     | ClearDx \<Rightarrow> s\<lparr>MouseDev := (MouseDev s)\<lparr>AccumDx := 0\<rparr>, ReaderPc := ClearDy\<rparr>
     | ClearDy \<Rightarrow> s\<lparr>MouseDev := (MouseDev s)\<lparr>AccumDy := 0\<rparr>, ReaderPc := ClearReady\<rparr>
     | ClearReady \<Rightarrow> s\<lparr>MouseDev := (MouseDev s)\<lparr>MouseDataReady := False\<rparr>, GotDx := GotDx s + LocalDx s,
                     GotDy := GotDy s + LocalDy s, ReaderPc := Outside\<rparr>
     | ClearLatch \<Rightarrow> s\<lparr>MouseDev := (MouseDev s)\<lparr>PressedLatch := 0\<rparr>, GotPressed := GotPressed s OR LocalPressed s, ReaderPc := Outside\<rparr>)"

lemma ReaderStmt_at:
  "ReaderPc s = Outside \<Longrightarrow> ReaderStmt s = s"
  "ReaderPc s = ReadDx \<Longrightarrow> ReaderStmt s = s\<lparr>LocalDx := AccumDx (MouseDev s), ReaderPc := ReadDy\<rparr>"
  "ReaderPc s = ReadDy \<Longrightarrow> ReaderStmt s = s\<lparr>LocalDy := AccumDy (MouseDev s), ReaderPc := ReadButtons\<rparr>"
  "ReaderPc s = ReadButtons \<Longrightarrow> ReaderStmt s = s\<lparr>LocalButtons := MouseButtons (MouseDev s), ReaderPc := ClearDx\<rparr>"
  "ReaderPc s = ClearDx \<Longrightarrow> ReaderStmt s = s\<lparr>MouseDev := (MouseDev s)\<lparr>AccumDx := 0\<rparr>, ReaderPc := ClearDy\<rparr>"
  "ReaderPc s = ClearDy \<Longrightarrow> ReaderStmt s = s\<lparr>MouseDev := (MouseDev s)\<lparr>AccumDy := 0\<rparr>, ReaderPc := ClearReady\<rparr>"
  "ReaderPc s = ClearReady \<Longrightarrow> ReaderStmt s = s\<lparr>MouseDev := (MouseDev s)\<lparr>MouseDataReady := False\<rparr>,
     GotDx := GotDx s + LocalDx s, GotDy := GotDy s + LocalDy s, ReaderPc := Outside\<rparr>"
  "ReaderPc s = ClearLatch \<Longrightarrow> ReaderStmt s = s\<lparr>MouseDev := (MouseDev s)\<lparr>PressedLatch := 0\<rparr>,
     GotPressed := GotPressed s OR LocalPressed s, ReaderPc := Outside\<rparr>"
  by (simp_all add: ReaderStmt_def)

text \<open>An interrupt with a byte, a call of a reader (its first statement: the test, the read of the
  latch), or one more statement of the running call. There is one caller: a call while another one runs
  does not exist, and is left out.\<close>
datatype mouse_event = Byte u64 u8 | GetDelta | TakePressed | Stmt

definition MouseByte :: "u64 \<Rightarrow> u8 \<Rightarrow> mouse_run \<Rightarrow> mouse_run" where
  "MouseByte t b s =
     (let m = MouseDev s; m' = MouseIrqHandler t b m
      in s\<lparr>MouseDev := m',
           LostDx := LostDx s + (if ReaderPc s \<in> {ReadDy, ReadButtons, ClearDx} then AccumDx m' - AccumDx m else 0),
           LostDy := LostDy s + (if ReaderPc s \<in> {ReadButtons, ClearDx, ClearDy} then AccumDy m' - AccumDy m else 0),
           LostPressed := LostPressed s OR (if ReaderPc s = ClearLatch then PressedLatch m' AND NOT (PressedLatch m) else 0)\<rparr>)"

fun mouse_step :: "mouse_event \<Rightarrow> mouse_run \<Rightarrow> mouse_run" where
  "mouse_step (Byte t b) s = MouseByte t b s"
| "mouse_step GetDelta s = (if ReaderPc s = Outside \<and> MouseDataReady (MouseDev s) then s\<lparr>ReaderPc := ReadDx\<rparr> else s)"
| "mouse_step TakePressed s =
     (if ReaderPc s = Outside then s\<lparr>LocalPressed := PressedLatch (MouseDev s), ReaderPc := ClearLatch\<rparr> else s)"
| "mouse_step Stmt s = ReaderStmt s"

fun mouse_session :: "mouse_event list \<Rightarrow> mouse_run \<Rightarrow> mouse_run" where
  "mouse_session [] s = s"
| "mouse_session (e # es) s = mouse_session es (mouse_step e s)"

text \<open>The calls as a whole are the calls with no interrupt inside.\<close>
lemma MouseGetDelta_statements:
  assumes "ReaderPc s = Outside" "MouseGetDelta (MouseDev s) = (r, m)"
  shows "mouse_session (GetDelta # replicate 6 Stmt) s =
    (case r of None \<Rightarrow> s
     | Some (dx, dy, b) \<Rightarrow> s\<lparr>MouseDev := m, LocalDx := dx, LocalDy := dy, LocalButtons := b,
         GotDx := GotDx s + dx, GotDy := GotDy s + dy\<rparr>)"
proof (cases "MouseDataReady (MouseDev s)")
  case True
  with assms have "r = Some (AccumDx (MouseDev s), AccumDy (MouseDev s), MouseButtons (MouseDev s))"
    "m = (MouseDev s)\<lparr>AccumDx := 0, AccumDy := 0, MouseDataReady := False\<rparr>"
    by (auto simp: MouseGetDelta_def)
  then show ?thesis using True assms(1) by (simp add: numeral_eq_Suc ReaderStmt_at)
next
  case False
  with assms show ?thesis by (auto simp: MouseGetDelta_def ReaderStmt_at numeral_eq_Suc)
qed

lemma MouseTakePressed_statements:
  assumes "ReaderPc s = Outside" "MouseTakePressed (MouseDev s) = (q, m)"
  shows "mouse_session [TakePressed, Stmt] s =
    s\<lparr>MouseDev := m, LocalPressed := q, GotPressed := GotPressed s OR q\<rparr>"
  using assms by (auto simp: MouseTakePressed_def ReaderStmt_at)

section \<open>What is read, pending and lost\<close>

fun event_bytes :: "mouse_event list \<Rightarrow> (u64 \<times> u8) list" where
  "event_bytes [] = []"
| "event_bytes (Byte t b # es) = (t, b) # event_bytes es"
| "event_bytes (e # es) = event_bytes es"

text \<open>No byte arrives inside a call.\<close>
fun undisturbed :: "mouse_event list \<Rightarrow> mouse_run \<Rightarrow> bool" where
  "undisturbed [] s \<longleftrightarrow> True"
| "undisturbed (e # es) s \<longleftrightarrow> (case e of Byte t b \<Rightarrow> ReaderPc s = Outside | _ \<Rightarrow> True) \<and> undisturbed es (mouse_step e s)"

definition mouse_ok :: "mouse \<Rightarrow> bool" where
  "mouse_ok m \<longleftrightarrow> length (PacketBytes m) = 3 \<and> PacketIndex m < 3"

text \<open>The motion and the buttons in the system, wherever the reader stands.\<close>
definition total_dx :: "mouse_run \<Rightarrow> int" where
  "total_dx s = GotDx s + LostDx s + (if ReaderPc s \<in> {ReadDy, ReadButtons, ClearDx} then LocalDx s
     else if ReaderPc s \<in> {ClearDy, ClearReady} then LocalDx s + AccumDx (MouseDev s) else AccumDx (MouseDev s))"

definition total_dy :: "mouse_run \<Rightarrow> int" where
  "total_dy s = GotDy s + LostDy s + (if ReaderPc s \<in> {ReadButtons, ClearDx, ClearDy} then LocalDy s
     else if ReaderPc s = ClearReady then LocalDy s + AccumDy (MouseDev s) else AccumDy (MouseDev s))"

definition total_pressed :: "mouse_run \<Rightarrow> u8" where
  "total_pressed s = GotPressed s OR LostPressed s OR PressedLatch (MouseDev s) OR (if ReaderPc s = ClearLatch then LocalPressed s else 0)"

text \<open>Between the read of the latch and its clearing, the latch holds nothing but what was read and what
  is going to be lost.\<close>
definition latch_read :: "mouse_run \<Rightarrow> bool" where
  "latch_read s \<longleftrightarrow> (ReaderPc s = ClearLatch \<longrightarrow>
     (\<forall>n. bit (PressedLatch (MouseDev s)) n \<longrightarrow> bit (LocalPressed s) n \<or> bit (LostPressed s) n))"

text \<open>What the packets \<open>ps\<close> add on the way from \<open>s\<close> to \<open>s'\<close>.\<close>
definition accounted :: "mouse_run \<Rightarrow> packet list \<Rightarrow> mouse_run \<Rightarrow> bool" where
  "accounted s ps s' \<longleftrightarrow>
     total_dx s' = total_dx s + sum_list (map packet_dx ps) \<and> total_dy s' = total_dy s + sum_list (map packet_dy ps) \<and>
     total_pressed s' = total_pressed s OR presses (LastButtonState (MouseDev s)) ps \<and>
     LastButtonState (MouseDev s') = buttons_after (LastButtonState (MouseDev s)) ps \<and>
     \<bar>AccumDx (MouseDev s')\<bar> \<le> \<bar>AccumDx (MouseDev s)\<bar> + 256 * int (length ps) \<and>
     \<bar>AccumDy (MouseDev s')\<bar> \<le> \<bar>AccumDy (MouseDev s)\<bar> + 256 * int (length ps)"

text \<open>Where a packet stands: its bytes so far are in the buffer.\<close>
definition partial_packet :: "mouse \<Rightarrow> (u64 \<times> u8) list \<Rightarrow> bool" where
  "partial_packet m bs \<longleftrightarrow> PacketIndex m = length bs \<and> length bs < 3 \<and> take (length bs) (PacketBytes m) = map snd bs
     \<and> (bs \<noteq> [] \<longrightarrow> LastByteTick m = fst (last bs))"

text \<open>What the handler adds when it takes the packets \<open>ps\<close>.\<close>
definition added :: "mouse \<Rightarrow> packet list \<Rightarrow> mouse \<Rightarrow> bool" where
  "added m ps m' \<longleftrightarrow> AccumDx m' = AccumDx m + sum_list (map packet_dx ps) \<and>
     AccumDy m' = AccumDy m + sum_list (map packet_dy ps) \<and>
     PressedLatch m' = PressedLatch m OR presses (LastButtonState m) ps \<and>
     LastButtonState m' = buttons_after (LastButtonState m) ps"

text \<open>The first byte starts a packet when none is pending or the pending one is stale.\<close>
lemma first_byte:
  assumes "mouse_ok m" "PacketIndex m = 0 \<or> t - LastByteTick m > 20" "s AND 8 \<noteq> 0"
  shows "partial_packet (MouseIrqHandler t s m) [(t, s)]" "mouse_ok (MouseIrqHandler t s m)"
    "added m [] (MouseIrqHandler t s m)"
  using assms by (auto simp: MouseIrqHandler_def partial_packet_def mouse_ok_def added_def Let_def take_Suc_conv_app_nth)

lemma second_byte:
  assumes "mouse_ok m" "partial_packet m [(t0, s)]" "t - t0 \<le> 20"
  shows "partial_packet (MouseIrqHandler t x m) [(t0, s), (t, x)]" "mouse_ok (MouseIrqHandler t x m)"
    "added m [] (MouseIrqHandler t x m)"
  using assms by (auto simp: MouseIrqHandler_def partial_packet_def mouse_ok_def added_def Let_def take_Suc_conv_app_nth not_less[symmetric])

lemma third_byte:
  assumes "mouse_ok m" "partial_packet m [(t0, s), (t1, x)]" "t - t1 \<le> 20"
  shows "partial_packet (MouseIrqHandler t y m) []" "mouse_ok (MouseIrqHandler t y m)"
    "added m [Packet (t0, s) (t1, x) (t, y)] (MouseIrqHandler t y m)"
  using assms by (auto simp: MouseIrqHandler_def TakePacket_def partial_packet_def mouse_ok_def added_def Let_def
      take_Suc_conv_app_nth numeral_2_eq_2 not_less[symmetric] or.assoc)

lemma packet_bounds: "\<bar>packet_dx p\<bar> \<le> 256" "\<bar>packet_dy p\<bar> \<le> 256"
proof -
  obtain s x y where "p = Packet s x y" by (cases p)
  with uint_lt2p [of "snd x"] uint_lt2p [of "snd y"] show "\<bar>packet_dx p\<bar> \<le> 256" "\<bar>packet_dy p\<bar> \<le> 256"
    by auto
qed

text \<open>A byte adds what its packet holds, if it is the last of one.\<close>
lemma MouseByte_accounted:
  assumes "added (MouseDev s) qs (MouseIrqHandler t b (MouseDev s))" "length qs \<le> 1"
  shows "accounted s qs (MouseByte t b s)"
proof -
  have b: "\<bar>sum_list (map packet_dx qs)\<bar> \<le> 256 * int (length qs)" "\<bar>sum_list (map packet_dy qs)\<bar> \<le> 256 * int (length qs)"
    using assms(2) packet_bounds by (cases qs; simp)+
  let ?s = "MouseByte t b s"
  have "total_dx ?s = total_dx s + sum_list (map packet_dx qs)"
    and "total_dy ?s = total_dy s + sum_list (map packet_dy qs)"
    using assms(1) by (auto simp: added_def MouseByte_def total_dx_def total_dy_def Let_def)
  moreover have "total_pressed ?s = total_pressed s OR presses (LastButtonState (MouseDev s)) qs"
    by (rule bit_word_eqI) (use assms(1) in \<open>auto simp: added_def MouseByte_def total_pressed_def Let_def bit_simps\<close>)
  moreover have "MouseDev ?s = MouseIrqHandler t b (MouseDev s)" by (simp add: MouseByte_def Let_def)
  moreover have "\<bar>a + d\<bar> \<le> \<bar>a\<bar> + k" if "\<bar>d\<bar> \<le> k" for a d k :: int using that by arith
  ultimately show ?thesis using assms(1) b by (simp add: accounted_def added_def)
qed

lemma MouseByte_latch:
  assumes "added (MouseDev s) qs (MouseIrqHandler t b (MouseDev s))" "latch_read s"
  shows "latch_read (MouseByte t b s)"
  using assms by (auto simp: added_def latch_read_def MouseByte_def Let_def bit_simps dest: bit_imp_le_length)

text \<open>A statement of a reader adds nothing.\<close>
definition is_byte :: "mouse_event \<Rightarrow> bool" where
  "is_byte e = (case e of Byte t b \<Rightarrow> True | _ \<Rightarrow> False)"

lemma reader_accounted:
  assumes "latch_read s" "\<not> is_byte e"
  shows "accounted s [] (mouse_step e s)" "latch_read (mouse_step e s)"
proof -
  have pressed: "total_pressed (ReaderStmt s) = total_pressed s"
    by (rule bit_word_eqI; cases "ReaderPc s")
      (use assms(1) in \<open>auto simp: ReaderStmt_at total_pressed_def latch_read_def bit_simps\<close>)
  have "total_dx (ReaderStmt s) = total_dx s" "total_dy (ReaderStmt s) = total_dy s"
    by (cases "ReaderPc s"; simp add: ReaderStmt_at total_dx_def total_dy_def)+
  then have stmt: "accounted s [] (ReaderStmt s) \<and> latch_read (ReaderStmt s)"
    using assms(1) pressed by (cases "ReaderPc s") (simp_all add: ReaderStmt_at accounted_def latch_read_def)
  have "accounted s [] (mouse_step e s) \<and> latch_read (mouse_step e s)"
  proof (cases e)
    case GetDelta
    then show ?thesis using assms(1) by (simp add: accounted_def total_dx_def total_dy_def total_pressed_def latch_read_def)
  next
    case TakePressed
    then show ?thesis using assms(1) by (simp add: accounted_def total_dx_def total_dy_def total_pressed_def latch_read_def)
  qed (use stmt assms(2) in \<open>simp_all add: is_byte_def\<close>)
  then show "accounted s [] (mouse_step e s)" "latch_read (mouse_step e s)" by simp_all
qed

lemma reader_frame:
  assumes "\<not> is_byte e"
  shows "PacketBytes (MouseDev (mouse_step e s)) = PacketBytes (MouseDev s)" "PacketIndex (MouseDev (mouse_step e s)) = PacketIndex (MouseDev s)"
    "LastByteTick (MouseDev (mouse_step e s)) = LastByteTick (MouseDev s)"
  using assms by (cases e; cases "ReaderPc s"; simp add: is_byte_def ReaderStmt_at)+

lemma accounted_step:
  "accounted s [] s1 \<Longrightarrow> accounted s1 ps s' \<Longrightarrow> accounted s ps s'"
  "accounted s [q] s1 \<Longrightarrow> accounted s1 qs s' \<Longrightarrow> accounted s (q # qs) s'"
  by (auto simp: accounted_def or.assoc)

text \<open>The bytes still to come, \<open>bs\<close> of the current packet being in.\<close>
definition awaits :: "mouse \<Rightarrow> packet list \<Rightarrow> (u64 \<times> u8) list \<Rightarrow> (u64 \<times> u8) list \<Rightarrow> bool" where
  "awaits m ps bs rest \<longleftrightarrow>
     bs @ rest = concat (map packet_bytes ps) \<and>
     (if bs = [] then rest = [] \<or> PacketIndex m = 0 \<or> fst (hd rest) - LastByteTick m > 20 else ps \<noteq> [] \<and> partial_packet m bs)"

lemma awaits_frame:
  "PacketBytes m' = PacketBytes m \<Longrightarrow> PacketIndex m' = PacketIndex m \<Longrightarrow> LastByteTick m' = LastByteTick m \<Longrightarrow>
   awaits m' ps bs rest = awaits m ps bs rest"
  by (simp add: awaits_def partial_packet_def)

lemma awaits_byte:
  assumes "mouse_ok m" "list_all timely ps" "awaits m ps bs ((t, b) # rest)"
  obtains qs bs' qs' where "ps = qs @ qs'" "awaits (MouseIrqHandler t b m) qs' bs' rest" "mouse_ok (MouseIrqHandler t b m)"
    "added m qs (MouseIrqHandler t b m)" "length qs \<le> 1"
proof -
  from assms(3) obtain q qs where ps: "ps = q # qs" by (cases ps) (auto simp: awaits_def)
  obtain t0 s t1 x t2 y where q: "q = Packet (t0, s) (t1, x) (t2, y)" by (metis packet.exhaust prod.exhaust)
  have bytes: "bs @ (t, b) # rest = (t0, s) # (t1, x) # (t2, y) # concat (map packet_bytes qs)"
    using assms(3) by (simp add: awaits_def ps q)
  have time: "s AND 8 \<noteq> 0" "t1 - t0 \<le> 20" "t2 - t1 \<le> 20" using assms(2) by (simp_all add: ps q)
  have "length bs < 3" using assms(3) by (auto simp: awaits_def partial_packet_def split: if_splits)
  with bytes consider (First) "bs = []" "t = t0" "b = s" "rest = (t1, x) # (t2, y) # concat (map packet_bytes qs)"
    | (Second) "bs = [(t0, s)]" "t = t1" "b = x" "rest = (t2, y) # concat (map packet_bytes qs)"
    | (Third) "bs = [(t0, s), (t1, x)]" "t = t2" "b = y" "rest = concat (map packet_bytes qs)"
    by (cases bs; cases "tl bs"; cases "tl (tl bs)") auto
  then show ?thesis
  proof cases
    case First
    have "PacketIndex m = 0 \<or> t - LastByteTick m > 20" using assms(3) First by (simp add: awaits_def)
    note f = first_byte [OF assms(1) this, of b]
    show ?thesis
      using f time First by (intro that [of "[]" ps "[(t0, s)]"]) (simp_all add: awaits_def ps q)
  next
    case Second
    have "partial_packet m [(t0, s)]" using assms(3) Second by (simp add: awaits_def)
    note f = second_byte [OF assms(1) this, of t b]
    show ?thesis
      using f time Second by (intro that [of "[]" ps "[(t0, s), (t1, x)]"]) (simp_all add: awaits_def ps q)
  next
    case Third
    have "partial_packet m [(t0, s), (t1, x)]" using assms(3) Third by (simp add: awaits_def)
    note f = third_byte [OF assms(1) this, of t b]
    show ?thesis
      using f time Third by (intro that [of "[q]" qs "[]"]) (simp_all add: awaits_def ps q partial_packet_def)
  qed
qed

lemma event_bytes_reader: "\<not> is_byte e \<Longrightarrow> event_bytes (e # es) = event_bytes es"
  by (cases e) (simp_all add: is_byte_def)

lemma session_accounted:
  "mouse_ok (MouseDev s) \<Longrightarrow> latch_read s \<Longrightarrow> list_all timely ps \<Longrightarrow> awaits (MouseDev s) ps bs (event_bytes es) \<Longrightarrow>
   accounted s ps (mouse_session es s)"
proof (induction es arbitrary: s ps bs)
  case Nil
  then have "ps = []" by (cases ps; cases "hd ps") (auto simp: awaits_def partial_packet_def split: if_splits)
  then show ?case by (simp add: accounted_def)
next
  case (Cons e es)
  show ?case
  proof (cases "is_byte e")
    case True
    then obtain t b where e: "e = Byte t b" by (cases e) (auto simp: is_byte_def)
    have aw: "awaits (MouseDev s) ps bs ((t, b) # event_bytes es)" using Cons.prems(4) e by simp
    from awaits_byte [OF Cons.prems(1,3) aw] obtain qs bs' qs' where q: "ps = qs @ qs'"
      "awaits (MouseIrqHandler t b (MouseDev s)) qs' bs' (event_bytes es)" "mouse_ok (MouseIrqHandler t b (MouseDev s))"
      "added (MouseDev s) qs (MouseIrqHandler t b (MouseDev s))" "length qs \<le> 1" .
    have dev: "MouseDev (MouseByte t b s) = MouseIrqHandler t b (MouseDev s)" by (simp add: MouseByte_def Let_def)
    have "list_all timely qs'" using Cons.prems(3) q(1) by simp
    with Cons.IH [of "MouseByte t b s"] q MouseByte_latch [OF q(4) Cons.prems(2)]
    have rest: "accounted (MouseByte t b s) qs' (mouse_session es (MouseByte t b s))" by (simp add: dev)
    from q(5) consider "qs = []" | p where "qs = [p]" by (cases qs) auto
    then show ?thesis
      using accounted_step [OF _ rest] MouseByte_accounted [OF q(4,5)] q(1) by cases (simp_all add: e)
  next
    case False
    note f = reader_frame [OF False, of s]
    have "mouse_ok (MouseDev (mouse_step e s))" using Cons.prems(1) by (simp add: mouse_ok_def f)
    moreover have "awaits (MouseDev (mouse_step e s)) ps bs (event_bytes es)"
      using Cons.prems(4) unfolding awaits_frame [OF f] event_bytes_reader [OF False] .
    ultimately have "accounted (mouse_step e s) ps (mouse_session es (mouse_step e s))"
      using Cons.IH Cons.prems(3) reader_accounted(2) [OF Cons.prems(2) False] by blast
    with accounted_step(1) [OF reader_accounted(1) [OF Cons.prems(2) False]] show ?thesis by simp
  qed
qed

text \<open>Only a byte that arrives inside a call can be lost.\<close>
lemma undisturbed_step:
  assumes "case e of Byte t b \<Rightarrow> ReaderPc s = Outside | _ \<Rightarrow> True"
  shows "LostDx (mouse_step e s) = LostDx s" "LostDy (mouse_step e s) = LostDy s" "LostPressed (mouse_step e s) = LostPressed s"
  using assms by (cases e; cases "ReaderPc s"; simp add: MouseByte_def Let_def ReaderStmt_at)+

lemma undisturbed_session:
  "undisturbed es s \<Longrightarrow> LostDx (mouse_session es s) = LostDx s \<and> LostDy (mouse_session es s) = LostDy s \<and>
     LostPressed (mouse_session es s) = LostPressed s"
  by (induction es arbitrary: s) (auto simp: undisturbed_step)

text \<open>C19: Where the motion and the clicks of the mouse go. Let well-formed packets arrive byte by byte, before,
  between and inside the calls of the readers, at any statement, from any state of the driver in which either
  no packet is pending or the first byte comes more than 20 ticks after the last one. When no call is running,
  the motion the calls returned, plus the motion pending, plus what the handler added between a call's reading
  and its clearing of the same variable, is the sum of the signed deltas of the packets; and in the same way
  the buttons returned, pending or overwritten are those that went down. That last part is lost; it is nothing
  when no byte arrives inside a call. The accumulators change by at most 256 for each packet.\<close>
theorem mouse_accounts:
  assumes "mouse_ok m" "list_all timely ps" "event_bytes es = concat (map packet_bytes ps)"
    and "event_bytes es = [] \<or> PacketIndex m = 0 \<or> fst (hd (event_bytes es)) - LastByteTick m > 20"
    and "mouse_session es (run_from m) = s" "ReaderPc s = Outside"
  shows "GotDx s + AccumDx (MouseDev s) + LostDx s = AccumDx m + sum_list (map packet_dx ps) \<and>
    GotDy s + AccumDy (MouseDev s) + LostDy s = AccumDy m + sum_list (map packet_dy ps) \<and>
    GotPressed s OR PressedLatch (MouseDev s) OR LostPressed s = PressedLatch m OR presses (LastButtonState m) ps \<and>
    (undisturbed es (run_from m) \<longrightarrow> LostDx s = 0 \<and> LostDy s = 0 \<and> LostPressed s = 0) \<and>
    \<bar>AccumDx (MouseDev s)\<bar> \<le> \<bar>AccumDx m\<bar> + 256 * int (length ps) \<and>
    \<bar>AccumDy (MouseDev s)\<bar> \<le> \<bar>AccumDy m\<bar> + 256 * int (length ps)"
proof -
  let ?r = "run_from m"
  have "accounted ?r ps (mouse_session es ?r)"
    using session_accounted [of ?r ps "[]" es] assms(1-4)
    by (simp add: awaits_def run_from_def latch_read_def)
  then have acc: "accounted ?r ps s" by (simp add: assms(5))
  have "undisturbed es ?r \<Longrightarrow> LostDx s = 0 \<and> LostDy s = 0 \<and> LostPressed s = 0"
    using undisturbed_session [of es ?r] assms(5) by (simp add: run_from_def)
  with acc assms(6) show ?thesis
    by (simp add: accounted_def total_dx_def total_dy_def total_pressed_def run_from_def or.assoc or.commute or.left_commute)
qed

text \<open>A stale byte is pending; a packet (motion 5, -1, left button) arrives, and while its motion is being taken
  a second one completes: its horizontal motion 7 comes after the read and before the clearing, and is lost.\<close>
lemma mouse_accounts_witness:
  "\<exists>s. mouse_session [Byte 100 0x29, Byte 101 5, Byte 102 0xFF, Byte 103 0x09, Byte 104 7, GetDelta, Stmt, Stmt,
      Byte 105 0, Stmt, Stmt, Stmt, Stmt, TakePressed, Stmt] (run_from (mouse_init\<lparr>PacketIndex := 1\<rparr>)) = s \<and>
    GotDx s = 5 \<and> LostDx s = 7 \<and> GotDx s + AccumDx (MouseDev s) + LostDx s = 12 \<and>
    GotDy s + AccumDy (MouseDev s) + LostDy s = -1 \<and> GotPressed s OR PressedLatch (MouseDev s) OR LostPressed s = 1"
proof -
  let ?es = "[Byte 100 0x29, Byte 101 5, Byte 102 0xFF, Byte 103 0x09, Byte 104 7, GetDelta, Stmt, Stmt,
      Byte 105 0, Stmt, Stmt, Stmt, Stmt, TakePressed, Stmt]"
  let ?m = "mouse_init\<lparr>PacketIndex := 1\<rparr>"
  let ?s = "mouse_session ?es (run_from ?m)"
  have ok: "mouse_ok ?m" by (simp add: mouse_ok_def mouse_init_def)
  have run: "ReaderPc ?s = Outside" "GotDx ?s = 5" "LostDx ?s = 7" by code_simp+
  from mouse_accounts [OF ok _ _ _ refl run(1), of "[Packet (100, 0x29) (101, 5) (102, 0xFF), Packet (103, 0x09) (104, 7) (105, 0)]"]
  have "GotDx ?s + AccumDx (MouseDev ?s) + LostDx ?s = 12 \<and> GotDy ?s + AccumDy (MouseDev ?s) + LostDy ?s = -1 \<and>
      GotPressed ?s OR PressedLatch (MouseDev ?s) OR LostPressed ?s = 1"
    by (simp add: mouse_init_def del: mouse_session.simps)
  with run show ?thesis by blast
qed

end
