(* ===== verification/Ui.thy ===== *)
theory Ui
  imports Gfx Mouse "HOL-Library.Signed_Division"
begin

text \<open>
  The user interface helpers (\<open>kernel/ui.c\<close>): clipped text, hit tests, the software mouse cursor
  that saves and restores the pixels under it, the polling of the mouse, and the formatting of sizes and
  times. The string routines of the same file are in \<open>Text\<close>. The state extends the frame buffer with the
  screen size, the cursor and the mouse driver it polls.
\<close>

section \<open>State\<close>

definition COL_BG :: u32 where "COL_BG = 0x00201040"
definition COL_BG_ALT :: u32 where "COL_BG_ALT = 0x00241248"
definition COL_PANEL :: u32 where "COL_PANEL = 0x00180C34"
definition COL_HEADER :: u32 where "COL_HEADER = 0x00342070"
definition COL_SELECT :: u32 where "COL_SELECT = 0x00583CA0"
definition COL_TEXT :: u32 where "COL_TEXT = 0x00E0D0FF"
definition COL_DIM :: u32 where "COL_DIM = 0x008878A8"
definition COL_ACCENT :: u32 where "COL_ACCENT = 0x0080FFC0"
definition COL_ERROR :: u32 where "COL_ERROR = 0x00FF7070"
definition COL_WARN :: u32 where "COL_WARN = 0x00F0C060"
definition COL_FOLDER :: u32 where "COL_FOLDER = 0x00F0C060"
definition COL_FOLDER_DK :: u32 where "COL_FOLDER_DK = 0x00B88830"
definition COL_FILE :: u32 where "COL_FILE = 0x00A8A0D8"
definition COL_BUTTON :: u32 where "COL_BUTTON = 0x00483088"
definition COL_TRACK :: u32 where "COL_TRACK = 0x00100820"
definition COL_MATCH :: u32 where "COL_MATCH = 0x00806018"

definition CURSOR_W :: nat where "CURSOR_W = 12"
definition CURSOR_H :: nat where "CURSOR_H = 19"

record ui = gfx +
  UiW :: u32
  UiH :: u32
  UiMouseX :: int
  UiMouseY :: int
  CursorShown :: bool
  CursorDrawX :: int
  CursorDrawY :: int
  CursorSaved :: "u32 list"
  Pointer :: mouse

definition Arrow :: "string list" where
  "Arrow = [
    ''X           '',
    ''XX          '',
    ''X.X         '',
    ''X..X        '',
    ''X...X       '',
    ''X....X      '',
    ''X.....X     '',
    ''X......X    '',
    ''X.......X   '',
    ''X........X  '',
    ''X.....XXXXX '',
    ''X..X..X     '',
    ''X.X X..X    '',
    ''XX  X..X    '',
    ''X    X..X   '',
    ''     X..X   '',
    ''      X..X  '',
    ''      X..X  '',
    ''       XX   '']"

section \<open>Formatting\<close>

text \<open>Both formatters write into a buffer of 24 characters.\<close>
definition UiFormatSize :: "u32 \<Rightarrow> cstring" where
  "UiFormatSize Size =
     (if Size < 1024 then append_text (append_text [] (dec_text (ucast Size)) 24) (lit '' B'') 24
      else if Size < 1024 * 1024
      then append_text (append_text [] (dec_text (ucast (Size div 1024))) 24) (lit '' KB'') 24
      else let Unit = (if Size < 1024 * 1024 * 1024 then 1024 * 1024 else 1024 * 1024 * 1024) :: u64;
               Tenths = (ucast Size * 10) div Unit;
               Out = append_text [] (dec_text (Tenths div 10)) 24;
               Out = append_text Out (lit ''.'') 24;
               Out = append_text Out (dec_text (Tenths mod 10)) 24
           in append_text Out (if Unit = 1024 * 1024 then lit '' MB'' else lit '' GB'') 24)"

definition UiFormatTime :: "u32 \<Rightarrow> cstring" where
  "UiFormatTime Seconds =
     (let Out = copy_loop (dec_text (ucast (Seconds div 60))) 23;
          Out = append_text Out (lit '':'') 24;
          Out = (if Seconds mod 60 < 10 then append_text Out (lit ''0'') 24 else Out)
      in append_text Out (dec_text (ucast (Seconds mod 60))) 24)"

section \<open>Text and hit tests\<close>

definition UiText :: "u32 \<Rightarrow> u32 \<Rightarrow> cstring \<Rightarrow> u32 \<Rightarrow> int \<Rightarrow> 'a gfx_scheme \<Rightarrow> 'a gfx_scheme" where
  "UiText X Y Str Color MaxChars g =
     (let n = int (length Str);
          Clipped = n > MaxChars;
          Draw = (if Clipped then MaxChars - 1 else n)
      in if MaxChars \<le> 0 then g
      else let g = fold (\<lambda>i. DrawChar (X + of_nat i * of_nat FONT_WIDTH) Y (Str ! i) Color) [0..<nat Draw] g
      in if Clipped then DrawChar (X + of_int Draw * of_nat FONT_WIDTH) Y (chr_code CHR ''~'') COL_DIM g else g)"

definition UiInside :: "int \<Rightarrow> int \<Rightarrow> u32 \<Rightarrow> u32 \<Rightarrow> u32 \<Rightarrow> u32 \<Rightarrow> bool" where
  "UiInside X Y RX RY RW RH \<longleftrightarrow> X \<ge> sint RX \<and> Y \<ge> sint RY \<and> X < sint (RX + RW) \<and> Y < sint (RY + RH)"

section \<open>The cursor\<close>

text \<open>The test of both cursor loops, and the pixel it guards.\<close>
definition on_screen :: "'a ui_scheme \<Rightarrow> nat \<Rightarrow> nat \<Rightarrow> bool" where
  "on_screen u y x \<longleftrightarrow>
     (let PX = CursorDrawX u + int x; PY = CursorDrawY u + int y
      in PX \<ge> 0 \<and> PY \<ge> 0 \<and> PX < sint (UiW u) \<and> PY < sint (UiH u))"

definition cursor_address :: "'a ui_scheme \<Rightarrow> nat \<Rightarrow> nat \<Rightarrow> u64" where
  "cursor_address u y x = of_int (CursorDrawY u + int y) * Stride u + of_int (CursorDrawX u + int x)"

text \<open>The bodies of the two loops.\<close>
definition HidePixel :: "nat \<Rightarrow> nat \<Rightarrow> 'a ui_scheme \<Rightarrow> 'a ui_scheme" where
  "HidePixel y x u =
     (if on_screen u y x then set_pixel (cursor_address u y x) (CursorSaved u ! (y * CURSOR_W + x)) u else u)"

definition ShowPixel :: "nat \<Rightarrow> nat \<Rightarrow> 'a ui_scheme \<Rightarrow> 'a ui_scheme" where
  "ShowPixel y x u =
     (if \<not> on_screen u y x then u
      else let i = cursor_address u y x;
               u = u\<lparr>CursorSaved := (CursorSaved u)[y * CURSOR_W + x := Frame u i]\<rparr>;
               Ch = Arrow ! y ! x
           in if Ch = CHR ''X'' then set_pixel i 0x00000000 u
              else if Ch = CHR ''.'' then set_pixel i 0x00FFFFFF u
              else u)"

definition UiCursorHide :: "'a ui_scheme \<Rightarrow> 'a ui_scheme" where
  "UiCursorHide u =
     (if \<not> CursorShown u then u
      else (fold (\<lambda>y. fold (HidePixel y) [0..<CURSOR_W]) [0..<CURSOR_H] u)\<lparr>CursorShown := False\<rparr>)"

definition UiCursorShow :: "'a ui_scheme \<Rightarrow> 'a ui_scheme" where
  "UiCursorShow u =
     (if CursorShown u then u
      else let u = u\<lparr>CursorDrawX := UiMouseX u, CursorDrawY := UiMouseY u\<rparr>
           in (fold (\<lambda>y. fold (ShowPixel y) [0..<CURSOR_W]) [0..<CURSOR_H] u)\<lparr>CursorShown := True\<rparr>)"

section \<open>Start and polling\<close>

text \<open>What was moved and pressed before is dropped.\<close>
definition UiInit :: "'a ui_scheme \<Rightarrow> 'a ui_scheme" where
  "UiInit u =
     (let u = u\<lparr>UiW := ucast (ScreenWidth u), UiH := ucast (ScreenHeight u)\<rparr>;
          u = u\<lparr>UiMouseX := sint (UiW u) sdiv 2, UiMouseY := sint (UiH u) sdiv 2, CursorShown := False\<rparr>
      in u\<lparr>Pointer := snd (MouseTakePressed (snd (MouseGetDelta (Pointer u))))\<rparr>)"

text \<open>The clamping of the pointer to the screen, in the order of the code.\<close>
definition ClampPointer :: "'a ui_scheme \<Rightarrow> 'a ui_scheme" where
  "ClampPointer u =
     (let u = (if UiMouseX u < 0 then u\<lparr>UiMouseX := 0\<rparr> else u);
          u = (if UiMouseY u < 0 then u\<lparr>UiMouseY := 0\<rparr> else u);
          u = (if UiMouseX u \<ge> sint (UiW u) then u\<lparr>UiMouseX := sint (UiW u) - 1\<rparr> else u)
      in if UiMouseY u \<ge> sint (UiH u) then u\<lparr>UiMouseY := sint (UiH u) - 1\<rparr> else u)"

text \<open>Whether anything happened, the buttons pressed, and the state.\<close>
definition UiPollMouse :: "'a ui_scheme \<Rightarrow> bool \<times> u8 \<times> 'a ui_scheme" where
  "UiPollMouse u =
     (case MouseGetDelta (Pointer u) of (Moved, m) \<Rightarrow>
      case MouseTakePressed m of (P, m) \<Rightarrow>
        let u = u\<lparr>Pointer := m\<rparr>
        in if Moved = None \<and> P = 0 then (False, P, u)
        else let u = UiCursorHide u
        in (True, P, case Moved of None \<Rightarrow> u
             | Some (Dx, Dy, Buttons) \<Rightarrow> ClampPointer (u\<lparr>UiMouseX := UiMouseX u + Dx, UiMouseY := UiMouseY u - Dy\<rparr>)))"

section \<open>The cursor leaves no trace\<close>

definition ui_ok :: "'a ui_scheme \<Rightarrow> bool" where
  "ui_ok u \<longleftrightarrow> frame_ok u \<and> UiW u = ucast (ScreenWidth u) \<and> UiH u = ucast (ScreenHeight u)
     \<and> ScreenWidth u < 2 ^ 31 \<and> ScreenHeight u < 2 ^ 31 \<and> length (CursorSaved u) = CURSOR_W * CURSOR_H"

text \<open>Everything but the pixels and the saved pixels.\<close>
definition same_ui :: "'a ui_scheme \<Rightarrow> 'a ui_scheme \<Rightarrow> bool" where
  "same_ui u v \<longleftrightarrow> (\<exists>F S. v = u\<lparr>Frame := F, CursorSaved := S\<rparr>)"

lemma same_ui_refl: "same_ui u u"
  unfolding same_ui_def by (intro exI [of _ "Frame u"] exI [of _ "CursorSaved u"]) simp

lemma same_ui_trans: "same_ui u v \<Longrightarrow> same_ui v w \<Longrightarrow> same_ui u w"
  unfolding same_ui_def by (elim exE, intro exI, simp)

lemma same_ui_cells:
  "same_ui u v \<Longrightarrow> on_screen v y x = on_screen u y x" "same_ui u v \<Longrightarrow> cursor_address v y x = cursor_address u y x"
  by (auto simp: same_ui_def on_screen_def cursor_address_def)

lemma ShowPixel_ui: "same_ui u (ShowPixel y x u)"
  unfolding same_ui_def
  by (rule exI [of _ "Frame (ShowPixel y x u)"], rule exI [of _ "CursorSaved (ShowPixel y x u)"])
     (auto simp: ShowPixel_def set_pixel_def Let_def)

lemma HidePixel_ui: "same_ui u (HidePixel y x u)"
  unfolding same_ui_def
  by (rule exI [of _ "Frame (HidePixel y x u)"], rule exI [of _ "CursorSaved (HidePixel y x u)"])
     (auto simp: HidePixel_def set_pixel_def)

lemma fold_ui: "(\<And>c u. same_ui u (f c u)) \<Longrightarrow> same_ui u (fold f cs u)"
  by (induction cs arbitrary: u) (auto intro: same_ui_refl same_ui_trans)

text \<open>The two nested loops visit the cells of a list.\<close>
lemma fold_cells: "fold (\<lambda>y. fold (f y) xs) ys s = fold (\<lambda>(y, x). f y x) (List.product ys xs) s"
  by (induction ys arbitrary: s) (simp_all add: fold_map comp_def)

definition cursor_cells :: "(nat \<times> nat) list" where
  "cursor_cells = List.product [0..<CURSOR_H] [0..<CURSOR_W]"

lemma cursor_cells: "distinct cursor_cells" "(y, x) \<in> set cursor_cells \<longleftrightarrow> y < CURSOR_H \<and> x < CURSOR_W"
  by (auto simp: cursor_cells_def distinct_product)

lemma sint_u32_small: "uint w < 2 ^ 31 \<Longrightarrow> sint (w :: u32) = uint w"
  unfolding sint_uint by (rule signed_take_bit_int_eq_self) (simp_all add: order_trans [OF _ uint_ge_0])

lemma sint_screen:
  fixes w :: u64
  assumes "w < 2 ^ 31"
  shows "sint (ucast w :: u32) = int (unat w)"
proof -
  have "uint w < 2 ^ 31" using assms by (simp add: word_less_def)
  moreover from this have "uint (ucast w :: u32) = uint w" by (simp add: unsigned_ucast_eq take_bit_int_eq_self)
  ultimately show ?thesis by (simp add: sint_u32_small)
qed

text \<open>A visible cell of the cursor, as a position of the screen.\<close>
lemma cell_position:
  assumes "ui_ok u" "on_screen u y x"
  obtains px py where "CursorDrawX u + int x = int px" "CursorDrawY u + int y = int py"
    "px < unat (Stride u)" "cursor_address u y x = of_nat (py * unat (Stride u) + px)"
    "py * unat (Stride u) + px < 2 ^ 64"
proof -
  let ?S = "unat (Stride u)"
  have W: "sint (UiW u) = int (unat (ScreenWidth u))" "sint (UiH u) = int (unat (ScreenHeight u))"
    using assms(1) by (simp_all add: ui_ok_def sint_screen)
  have nonneg: "0 \<le> CursorDrawX u + int x" "0 \<le> CursorDrawY u + int y"
    using assms(2) by (simp_all add: on_screen_def Let_def)
  obtain px where px: "CursorDrawX u + int x = int px" using nonneg(1) by (rule nonneg_int_cases)
  obtain py where py: "CursorDrawY u + int y = int py" using nonneg(2) by (rule nonneg_int_cases)
  have lt: "px < unat (ScreenWidth u)" "py < unat (ScreenHeight u)"
    using assms(2) unfolding on_screen_def Let_def W px py of_nat_less_iff by simp_all
  have frame: "unat (ScreenWidth u) \<le> ?S" "unat (ScreenHeight u) * ?S < 2 ^ 64"
    using assms(1) by (simp_all add: ui_ok_def frame_ok_def word_le_nat_alt)
  have "Suc py * ?S \<le> unat (ScreenHeight u) * ?S" using lt(2) by (intro mult_le_mono1) simp
  then have "py * ?S + px < 2 ^ 64" using frame lt(1) by simp
  moreover have "cursor_address u y x = of_nat (py * ?S + px)"
    unfolding cursor_address_def px py by simp
  ultimately show thesis using that [OF px py] lt(1) frame(1) by simp
qed

lemma address_inj:
  assumes "ui_ok u" "on_screen u y x" "on_screen u y' x'" "cursor_address u y x = cursor_address u y' x'"
  shows "y = y' \<and> x = x'"
proof -
  let ?S = "unat (Stride u)"
  obtain px py where p: "CursorDrawX u + int x = int px" "CursorDrawY u + int y = int py" "px < ?S"
    "cursor_address u y x = of_nat (py * ?S + px)" "py * ?S + px < 2 ^ 64" using cell_position [OF assms(1,2)] .
  obtain qx qy where q: "CursorDrawX u + int x' = int qx" "CursorDrawY u + int y' = int qy" "qx < ?S"
    "cursor_address u y' x' = of_nat (qy * ?S + qx)" "qy * ?S + qx < 2 ^ 64" using cell_position [OF assms(1,3)] .
  have "unat (of_nat (py * ?S + px) :: u64) = unat (of_nat (qy * ?S + qx) :: u64)" using assms(4) p(4) q(4) by simp
  then have e: "py * ?S + px = qy * ?S + qx" using p(5) q(5) by (simp add: unat_of_nat_small del: of_nat_add of_nat_mult)
  have "(py * ?S + px) div ?S = py" "(qy * ?S + qx) div ?S = qy" using p(3) q(3) by simp_all
  with e have "py = qy" by simp
  with e p(1,2) q(1,2) show ?thesis by simp
qed

lemma saved_inj: "x < CURSOR_W \<Longrightarrow> x' < CURSOR_W \<Longrightarrow> y * CURSOR_W + x = y' * CURSOR_W + x' \<Longrightarrow> y = y' \<and> x = x'"
  unfolding CURSOR_W_def by presburger

text \<open>What the showing loop has done after some cells: their pixels are saved, the other pixels untouched.\<close>
definition shown_cells :: "'a ui_scheme \<Rightarrow> (nat \<times> nat) list \<Rightarrow> 'a ui_scheme \<Rightarrow> bool" where
  "shown_cells u cs v \<longleftrightarrow> same_ui u v \<and> length (CursorSaved v) = CURSOR_W * CURSOR_H \<and>
     (\<forall>y x. (y, x) \<in> set cs \<longrightarrow> on_screen u y x \<longrightarrow> CursorSaved v ! (y * CURSOR_W + x) = Frame u (cursor_address u y x)) \<and>
     (\<forall>i. (\<forall>y x. (y, x) \<in> set cs \<longrightarrow> on_screen u y x \<longrightarrow> i \<noteq> cursor_address u y x) \<longrightarrow> Frame v i = Frame u i)"

lemma show_cells:
  assumes "ui_ok u" "distinct cs" "set cs \<subseteq> set cursor_cells"
  shows "shown_cells u cs (fold (\<lambda>(y, x). ShowPixel y x) cs u)"
  using assms(2,3)
proof (induction cs rule: rev_induct)
  case Nil
  show ?case using assms(1) by (simp add: shown_cells_def same_ui_refl ui_ok_def)
next
  case (snoc c cs)
  obtain y x where c: "c = (y, x)" by (cases c)
  let ?v = "fold (\<lambda>(y, x). ShowPixel y x) cs u"
  have IH: "shown_cells u cs ?v" using snoc by simp
  then have ui: "same_ui u ?v" by (simp add: shown_cells_def)
  have cell: "y < CURSOR_H" "x < CURSOR_W" "(y, x) \<notin> set cs"
    using snoc.prems by (auto simp: c cursor_cells)
  have old: "y' < CURSOR_H \<and> x' < CURSOR_W" if "(y', x') \<in> set cs" for y' x'
    using that snoc.prems(2) cursor_cells(2) by auto
  have "shown_cells u (cs @ [(y, x)]) (ShowPixel y x ?v)"
  proof (cases "on_screen u y x")
    case False
    then have "ShowPixel y x ?v = ?v" by (simp add: ShowPixel_def same_ui_cells [OF ui])
    with IH False show ?thesis by (auto simp: shown_cells_def)
  next
    case True
    let ?i = "cursor_address u y x"
    have new: "?i \<noteq> cursor_address u y' x'" if "(y', x') \<in> set cs" "on_screen u y' x'" for y' x'
      using address_inj [OF assms(1) True that(2)] that(1) cell(3) by auto
    then have saved: "Frame ?v ?i = Frame u ?i" using IH unfolding shown_cells_def by blast
    have index: "y * CURSOR_W + x < CURSOR_W * CURSOR_H"
      using cell(1,2) by (simp add: CURSOR_W_def CURSOR_H_def)
    have step: "CursorSaved (ShowPixel y x ?v) = (CursorSaved ?v)[y * CURSOR_W + x := Frame u ?i]"
      "\<And>i. i \<noteq> ?i \<Longrightarrow> Frame (ShowPixel y x ?v) i = Frame ?v i"
      using True by (auto simp: ShowPixel_def same_ui_cells [OF ui] set_pixel_def saved Let_def)
    have "CursorSaved (ShowPixel y x ?v) ! (y' * CURSOR_W + x') = Frame u (cursor_address u y' x')"
      if "(y', x') \<in> set (cs @ [(y, x)])" "on_screen u y' x'" for y' x'
    proof (cases "(y', x') = (y, x)")
      case True
      then show ?thesis using index IH by (simp add: step(1) shown_cells_def)
    next
      case False
      with that have "(y', x') \<in> set cs" by auto
      moreover from this old False cell have "y' * CURSOR_W + x' \<noteq> y * CURSOR_W + x" using saved_inj by blast
      ultimately show ?thesis using IH that(2) by (simp add: step(1) shown_cells_def)
    qed
    moreover have "Frame (ShowPixel y x ?v) i = Frame u i"
      if "\<forall>y' x'. (y', x') \<in> set (cs @ [(y, x)]) \<longrightarrow> on_screen u y' x' \<longrightarrow> i \<noteq> cursor_address u y' x'" for i
    proof -
      have "i \<noteq> ?i" using that True by auto
      moreover have "Frame ?v i = Frame u i" using IH that unfolding shown_cells_def by auto
      ultimately show ?thesis by (simp add: step(2))
    qed
    moreover have "same_ui u (ShowPixel y x ?v)" using same_ui_trans [OF ui ShowPixel_ui] .
    ultimately show ?thesis using IH unfolding shown_cells_def step(1) by simp
  qed
  then show ?case by (simp add: c)
qed

text \<open>The hiding loop writes the saved pixels back and keeps everything else.\<close>
lemma hide_cells:
  assumes "ui_ok u" "distinct cs" "\<And>y x. (y, x) \<in> set cs \<Longrightarrow> on_screen u y x \<Longrightarrow> CursorSaved u ! (y * CURSOR_W + x) = F (cursor_address u y x)"
  defines "v \<equiv> fold (\<lambda>(y, x). HidePixel y x) cs u"
  shows "Frame v i = (if \<exists>(y, x) \<in> set cs. on_screen u y x \<and> i = cursor_address u y x then F i else Frame u i) \<and>
    same_ui u v \<and> CursorSaved v = CursorSaved u"
  using assms(2,3) unfolding v_def
proof (induction cs rule: rev_induct)
  case Nil
  show ?case by (simp add: same_ui_refl)
next
  case (snoc c cs)
  obtain y x where c: "c = (y, x)" by (cases c)
  let ?v = "fold (\<lambda>(y, x). HidePixel y x) cs u"
  have IH: "Frame ?v i = (if \<exists>(y, x) \<in> set cs. on_screen u y x \<and> i = cursor_address u y x then F i else Frame u i)"
    "same_ui u ?v" "CursorSaved ?v = CursorSaved u" using snoc by auto
  have "same_ui u (HidePixel y x ?v)" using same_ui_trans [OF IH(2) HidePixel_ui] .
  moreover have "CursorSaved (HidePixel y x ?v) = CursorSaved u"
    by (simp add: HidePixel_def set_pixel_def IH(3))
  moreover have "Frame (HidePixel y x ?v) i =
      (if on_screen u y x \<and> i = cursor_address u y x then F i else Frame ?v i)"
    using snoc.prems(2) [of y x] by (simp add: HidePixel_def set_pixel_def IH(3) same_ui_cells [OF IH(2)] c)
  ultimately show ?case using IH(1) by (auto simp: c)
qed
lemma UiCursorShow_fold:
  "\<not> CursorShown u \<Longrightarrow> UiCursorShow u =
     (fold (\<lambda>(y, x). ShowPixel y x) cursor_cells (u\<lparr>CursorDrawX := UiMouseX u, CursorDrawY := UiMouseY u\<rparr>))\<lparr>CursorShown := True\<rparr>"
  by (simp add: UiCursorShow_def cursor_cells_def fold_cells Let_def)

lemma UiCursorHide_fold:
  "CursorShown u \<Longrightarrow> UiCursorHide u = (fold (\<lambda>(y, x). HidePixel y x) cursor_cells u)\<lparr>CursorShown := False\<rparr>"
  by (simp add: UiCursorHide_def cursor_cells_def fold_cells)

lemma ui_ok_draw [simp]:
  "ui_ok (u\<lparr>CursorDrawX := X, CursorDrawY := Y\<rparr>) = ui_ok u" "ui_ok (u\<lparr>CursorShown := b\<rparr>) = ui_ok u"
  by (simp_all add: ui_ok_def frame_ok_def)

lemma cells_shown [simp]:
  "on_screen (u\<lparr>CursorShown := b\<rparr>) y x = on_screen u y x" "cursor_address (u\<lparr>CursorShown := b\<rparr>) y x = cursor_address u y x"
  by (simp_all add: on_screen_def cursor_address_def)

text \<open>Hiding the cursor after showing it, the buffer being as the showing left it.\<close>
lemma hide_after_show:
  assumes "ui_ok u" "\<not> CursorShown u"
  shows "Frame (UiCursorHide (UiCursorShow u)) = Frame u \<and> \<not> CursorShown (UiCursorHide (UiCursorShow u))"
proof -
  let ?u = "u\<lparr>CursorDrawX := UiMouseX u, CursorDrawY := UiMouseY u\<rparr>"
  let ?v = "fold (\<lambda>(y, x). ShowPixel y x) cursor_cells ?u"
  let ?w = "?v\<lparr>CursorShown := True\<rparr>"
  have "shown_cells ?u cursor_cells ?v" using show_cells [of ?u cursor_cells] assms(1) cursor_cells(1) by simp
  then have v: "same_ui ?u ?v" "length (CursorSaved ?v) = CURSOR_W * CURSOR_H"
    "\<And>y x. (y, x) \<in> set cursor_cells \<Longrightarrow> on_screen ?u y x \<Longrightarrow> CursorSaved ?v ! (y * CURSOR_W + x) = Frame u (cursor_address ?u y x)"
    "\<And>i. (\<And>y x. (y, x) \<in> set cursor_cells \<Longrightarrow> on_screen ?u y x \<Longrightarrow> i \<noteq> cursor_address ?u y x) \<Longrightarrow> Frame ?v i = Frame u i"
    unfolding shown_cells_def by auto
  have ok: "ui_ok ?w"
    using assms(1) v(1,2) by (auto simp: ui_ok_def frame_ok_def same_ui_def)
  note cells = same_ui_cells [OF v(1)]
  have hide: "Frame (fold (\<lambda>(y, x). HidePixel y x) cursor_cells ?w) i =
      (if \<exists>(y, x) \<in> set cursor_cells. on_screen ?w y x \<and> i = cursor_address ?w y x then Frame u i else Frame ?w i)" for i
    using hide_cells [OF ok cursor_cells(1), of "Frame u" i] v(3) by (simp add: cells)
  have "Frame (fold (\<lambda>(y, x). HidePixel y x) cursor_cells ?w) i = Frame u i" for i
    unfolding hide using v(4) [of i] by (auto simp: cells)
  then show ?thesis using assms(2) by (simp add: UiCursorShow_fold UiCursorHide_fold fun_eq_iff)
qed

section \<open>The pointer stays on the screen\<close>

definition pointer_ok :: "'a ui_scheme \<Rightarrow> bool" where
  "pointer_ok u \<longleftrightarrow> 0 \<le> UiMouseX u \<and> UiMouseX u < sint (UiW u) \<and> 0 \<le> UiMouseY u \<and> UiMouseY u < sint (UiH u)"

lemma ClampPointer_shape: "\<exists>X Y. ClampPointer u = u\<lparr>UiMouseX := X, UiMouseY := Y\<rparr>"
  by (rule exI [of _ "UiMouseX (ClampPointer u)"], rule exI [of _ "UiMouseY (ClampPointer u)"], rule ui.equality)
     (simp_all add: ClampPointer_def Let_def)

lemma ClampPointer_ok: "0 < sint (UiW u) \<Longrightarrow> 0 < sint (UiH u) \<Longrightarrow> pointer_ok (ClampPointer u)"
  by (auto simp: ClampPointer_def pointer_ok_def Let_def)

lemma ui_invariants [simp]:
  "ui_ok (u\<lparr>Frame := F, CursorShown := b\<rparr>) = ui_ok u" "pointer_ok (u\<lparr>Frame := F, CursorShown := b\<rparr>) = pointer_ok u"
  "ui_ok (u\<lparr>Frame := F\<rparr>) = ui_ok u" "pointer_ok (u\<lparr>Frame := F\<rparr>) = pointer_ok u"
  "ui_ok (u\<lparr>Pointer := m\<rparr>) = ui_ok u" "pointer_ok (u\<lparr>Pointer := m\<rparr>) = pointer_ok u"
  "ui_ok (u\<lparr>UiMouseX := X, UiMouseY := Y\<rparr>) = ui_ok u"
  by (simp_all add: ui_ok_def pointer_ok_def frame_ok_def)

lemma hide_frame: "\<exists>F. UiCursorHide u = u\<lparr>Frame := F, CursorShown := False\<rparr>"
proof (cases "CursorShown u")
  case True
  have "\<exists>F. fold (\<lambda>(y, x). HidePixel y x) cs u = u\<lparr>Frame := F\<rparr>" for cs
  proof (induction cs rule: rev_induct)
    case Nil
    show ?case by (rule exI [of _ "Frame u"]) simp
  next
    case (snoc c cs)
    obtain y x where c: "c = (y, x)" by (cases c)
    from snoc obtain F where F: "fold (\<lambda>(y, x). HidePixel y x) cs u = u\<lparr>Frame := F\<rparr>" by blast
    have "\<exists>G. HidePixel y x v = v\<lparr>Frame := G\<rparr>" for v :: "'a ui_scheme"
      by (rule exI [of _ "Frame (HidePixel y x v)"]) (simp add: HidePixel_def set_pixel_def)
    then obtain G where "HidePixel y x (u\<lparr>Frame := F\<rparr>) = u\<lparr>Frame := F, Frame := G\<rparr>" by blast
    then show ?case by (intro exI [of _ G]) (simp add: F c)
  qed
  then obtain F where "fold (\<lambda>(y, x). HidePixel y x) cursor_cells u = u\<lparr>Frame := F\<rparr>" by blast
  then show ?thesis using True by (simp add: UiCursorHide_fold) blast
next
  case False
  then show ?thesis by (intro exI [of _ "Frame u"]) (simp add: UiCursorHide_def)
qed

lemma hide_pointer: "Frame (UiCursorHide (u\<lparr>Pointer := m\<rparr>)) = Frame (UiCursorHide u)"
proof -
  have "HidePixel y x (u\<lparr>Pointer := m\<rparr>) = (HidePixel y x u)\<lparr>Pointer := m\<rparr>" for y x and u :: "'a ui_scheme"
    by (simp add: HidePixel_def set_pixel_def on_screen_def cursor_address_def)
  then have "fold (\<lambda>(y, x). HidePixel y x) cs (u\<lparr>Pointer := m\<rparr>) = (fold (\<lambda>(y, x). HidePixel y x) cs u)\<lparr>Pointer := m\<rparr>" for cs
    by (induction cs arbitrary: u) (simp_all add: case_prod_beta)
  then show ?thesis by (simp add: UiCursorHide_def cursor_cells_def fold_cells)
qed

text \<open>The picture under the cursor is \<open>F\<close>, and the pointer is on the screen.\<close>
definition clean :: "'a ui_scheme \<Rightarrow> (u64 \<Rightarrow> u32) \<Rightarrow> bool" where
  "clean u F \<longleftrightarrow> ui_ok u \<and> pointer_ok u \<and> Frame (UiCursorHide u) = F"

lemma clean_hide:
  assumes "clean u F"
  shows "clean (UiCursorHide u) F" "\<not> CursorShown (UiCursorHide u)"
proof -
  obtain G where G: "UiCursorHide u = u\<lparr>Frame := G, CursorShown := False\<rparr>" using hide_frame by blast
  show "\<not> CursorShown (UiCursorHide u)" by (simp add: G)
  then have "UiCursorHide (UiCursorHide u) = UiCursorHide u" by (simp add: UiCursorHide_def)
  with assms show "clean (UiCursorHide u) F" by (simp add: clean_def) (simp add: G)
qed

lemma clean_show:
  assumes "clean u F"
  shows "clean (UiCursorShow u) F"
proof (cases "CursorShown u")
  case False
  let ?u = "u\<lparr>CursorDrawX := UiMouseX u, CursorDrawY := UiMouseY u\<rparr>"
  let ?v = "fold (\<lambda>(y, x). ShowPixel y x) cursor_cells ?u"
  have "shown_cells ?u cursor_cells ?v"
    using show_cells [of ?u cursor_cells] assms cursor_cells(1) by (simp add: clean_def)
  then have "same_ui ?u ?v" "length (CursorSaved ?v) = CURSOR_W * CURSOR_H" by (simp_all add: shown_cells_def)
  then have "ui_ok (UiCursorShow u)" "pointer_ok (UiCursorShow u)"
    using assms False by (auto simp: clean_def UiCursorShow_fold ui_ok_def frame_ok_def pointer_ok_def same_ui_def)
  moreover have "Frame (UiCursorHide u) = Frame u" using False by (simp add: UiCursorHide_def)
  ultimately show ?thesis using hide_after_show [of u] assms False by (simp add: clean_def)
qed (simp add: UiCursorShow_def assms)

lemma clean_pointer: "clean u F \<Longrightarrow> clean (u\<lparr>Pointer := m\<rparr>) F"
  by (simp add: clean_def hide_pointer)

lemma clean_poll:
  assumes "clean u F"
  shows "clean (snd (snd (UiPollMouse u))) F"
proof -
  obtain Moved m where g: "MouseGetDelta (Pointer u) = (Moved, m)" by (cases "MouseGetDelta (Pointer u)")
  obtain P m' where t: "MouseTakePressed m = (P, m')" by (cases "MouseTakePressed m")
  let ?u = "u\<lparr>Pointer := m'\<rparr>"
  have c: "clean ?u F" using clean_pointer [OF assms(1)] .
  note h = clean_hide [OF c]
  let ?h = "UiCursorHide ?u"
  show ?thesis
  proof (cases Moved)
    case None
    then show ?thesis using c h by (simp add: UiPollMouse_def g t Let_def)
  next
    case (Some d)
    obtain Dx Dy B where d: "d = (Dx, Dy, B)" by (cases d)
    let ?m = "?h\<lparr>UiMouseX := UiMouseX ?h + Dx, UiMouseY := UiMouseY ?h - Dy\<rparr>"
    have v: "snd (snd (UiPollMouse u)) = ClampPointer ?m" by (simp add: UiPollMouse_def g t Let_def Some d)
    obtain X Y where X: "ClampPointer ?m = ?h\<lparr>UiMouseX := X, UiMouseY := Y\<rparr>"
      using ClampPointer_shape [of ?m] by auto
    have "pointer_ok (ClampPointer ?m)"
      using h(1) by (intro ClampPointer_ok) (auto simp: clean_def pointer_ok_def)
    moreover have "UiCursorHide (ClampPointer ?m) = ClampPointer ?m" using h(2) unfolding X by (simp add: UiCursorHide_def)
    moreover have "Frame ?h = F" using c by (simp add: clean_def)
    ultimately show ?thesis using h(1) by (simp add: clean_def v) (simp add: X)
  qed
qed

datatype ui_event = MouseByte u64 u8 | Poll | Show | Hide

fun ui_run :: "ui_event list \<Rightarrow> 'a ui_scheme \<Rightarrow> 'a ui_scheme" where
  "ui_run [] u = u"
| "ui_run (MouseByte t b # es) u = ui_run es (u\<lparr>Pointer := MouseIrqHandler t b (Pointer u)\<rparr>)"
| "ui_run (Poll # es) u = ui_run es (snd (snd (UiPollMouse u)))"
| "ui_run (Show # es) u = ui_run es (UiCursorShow u)"
| "ui_run (Hide # es) u = ui_run es (UiCursorHide u)"

text \<open>C20: the mouse cursor leaves no trace and never leaves the screen. Whatever bytes the mouse sends and however the
  calls that poll it, show and hide the cursor are interleaved, hiding the cursor gives back exactly the picture
  that was there before, and the pointer is on the screen.\<close>
theorem cursor_traceless:
  assumes "ui_ok u" "pointer_ok u" "\<not> CursorShown u"
  shows "Frame (UiCursorHide (ui_run es u)) = Frame u \<and> pointer_ok (ui_run es u)"
proof -
  have "clean u F \<Longrightarrow> clean (ui_run es u) F" for F
    by (induction es u rule: ui_run.induct)
       (auto intro: clean_pointer clean_show clean_hide(1) clean_poll)
  moreover have "clean u (Frame u)" using assms by (simp add: clean_def UiCursorHide_def)
  ultimately show ?thesis by (simp add: clean_def)
qed

text \<open>A screen of 4 by 3 pixels, all black; the cursor is shown half outside it and the mouse moves.\<close>
definition demo_ui :: ui where
  "demo_ui = \<lparr>Frame = (\<lambda>_. 0), ScreenWidth = 4, ScreenHeight = 3, Stride = 4, UiW = 4, UiH = 3, UiMouseX = 2, UiMouseY = 1,
     CursorShown = False, CursorDrawX = 0, CursorDrawY = 0, CursorSaved = replicate 228 0, Pointer = mouse_init\<rparr>"

lemma cursor_traceless_witness:
  "Frame (UiCursorHide (ui_run [Show, MouseByte 1 8, MouseByte 2 1, MouseByte 3 0, Poll, Show] demo_ui)) 6 = 0"
proof -
  have ok: "ui_ok demo_ui" "pointer_ok demo_ui" "\<not> CursorShown demo_ui"
    by (simp_all add: demo_ui_def ui_ok_def frame_ok_def pointer_ok_def CURSOR_W_def CURSOR_H_def)
  have "Frame demo_ui 6 = 0" by (simp add: demo_ui_def)
  then show ?thesis
    by (simp only: conjunct1 [OF cursor_traceless [OF ok, of "[Show, MouseByte 1 8, MouseByte 2 1, MouseByte 3 0, Poll, Show]"]])
qed

section \<open>What drawing and polling leave alone\<close>

lemma UiText_screen [simp]: "same_screen g (UiText X Y Str Color MaxChars g)"
  unfolding UiText_def Let_def by (auto intro: fold_screen same_screen_trans [OF fold_screen DrawChar_screen] DrawChar_screen)

text \<open>Everything but the pixels, the cursor and the mouse.\<close>
definition ui_only :: "'a ui_scheme \<Rightarrow> 'a ui_scheme \<Rightarrow> bool" where
  "ui_only u v \<longleftrightarrow> (\<exists>F X Y b DX DY S p. v = u\<lparr>Frame := F, UiMouseX := X, UiMouseY := Y, CursorShown := b,
     CursorDrawX := DX, CursorDrawY := DY, CursorSaved := S, Pointer := p\<rparr>)"

lemma ui_onlyI:
  "ui.more v = ui.more u \<Longrightarrow> ScreenWidth v = ScreenWidth u \<Longrightarrow> ScreenHeight v = ScreenHeight u \<Longrightarrow> Stride v = Stride u \<Longrightarrow>
   UiW v = UiW u \<Longrightarrow> UiH v = UiH u \<Longrightarrow> ui_only u v"
  unfolding ui_only_def
  by (rule exI [of _ "Frame v"], rule exI [of _ "UiMouseX v"], rule exI [of _ "UiMouseY v"], rule exI [of _ "CursorShown v"],
      rule exI [of _ "CursorDrawX v"], rule exI [of _ "CursorDrawY v"], rule exI [of _ "CursorSaved v"], rule exI [of _ "Pointer v"])
     simp

lemma ui_onlyD:
  assumes "ui_only u v"
  shows "ui.more v = ui.more u" "ScreenWidth v = ScreenWidth u" "ScreenHeight v = ScreenHeight u" "Stride v = Stride u"
    "UiW v = UiW u" "UiH v = UiH u"
  using assms by (auto simp: ui_only_def)

lemma ui_only_refl [simp]: "ui_only u u"
  by (rule ui_onlyI) simp_all

lemma ui_only_trans: "ui_only u v \<Longrightarrow> ui_only v w \<Longrightarrow> ui_only u w"
  by (rule ui_onlyI) (simp_all add: ui_onlyD)

lemma ui_only_screen: "same_screen u v \<Longrightarrow> ui_only u v"
  by (rule ui_onlyI) (auto simp: same_screen_def)

lemma ui_only_same: "same_ui u v \<Longrightarrow> ui_only u v"
  by (rule ui_onlyI) (auto simp: same_ui_def)

lemma ui_only_hide [simp]: "ui_only u (UiCursorHide u)"
proof -
  obtain F where "UiCursorHide u = u\<lparr>Frame := F, CursorShown := False\<rparr>" using hide_frame by blast
  then show ?thesis by (intro ui_onlyI) simp_all
qed

lemma ui_only_show [simp]: "ui_only u (UiCursorShow u)"
proof (cases "CursorShown u")
  case False
  let ?u = "u\<lparr>CursorDrawX := UiMouseX u, CursorDrawY := UiMouseY u\<rparr>"
  have "ui_only ?u (fold (\<lambda>(y, x). ShowPixel y x) cursor_cells ?u)"
    by (intro ui_only_same fold_ui) (simp add: ShowPixel_ui split: prod.split)
  then show ?thesis using False by (intro ui_onlyI) (simp_all add: UiCursorShow_fold ui_onlyD)
qed (simp add: UiCursorShow_def)

lemma ui_only_poll: "UiPollMouse u = (b, P, v) \<Longrightarrow> ui_only u v"
proof -
  assume run: "UiPollMouse u = (b, P, v)"
  obtain Moved m where g: "MouseGetDelta (Pointer u) = (Moved, m)" by (cases "MouseGetDelta (Pointer u)")
  obtain Q m' where t: "MouseTakePressed m = (Q, m')" by (cases "MouseTakePressed m")
  let ?u = "u\<lparr>Pointer := m'\<rparr>"
  have hide: "ui_only u (UiCursorHide ?u)"
    using ui_only_trans [of u ?u "UiCursorHide ?u"] by (simp add: ui_onlyI)
  have "ui_only w (ClampPointer (w\<lparr>UiMouseX := X, UiMouseY := Y\<rparr>))" for w :: "'a ui_scheme" and X Y
    by (rule ui_onlyI) (simp_all add: ClampPointer_def Let_def)
  with hide run show ?thesis
    by (auto simp: UiPollMouse_def g t Let_def ui_onlyI split: if_splits option.splits intro: ui_only_trans [OF hide])
qed

section \<open>What the formatted numbers say\<close>

lemma unat_ucast_u32 [simp]: "unat (ucast (w :: u32) :: u64) = unat w"
proof -
  have "unat w < 2 ^ 64" using unat_u32_lt [of w] by simp
  then show ?thesis by (simp add: unsigned_ucast_eq take_bit_nat_eq_self)
qed

text \<open>A play time is shown as minutes, a colon and two digits of seconds below 60, and reads back as the time.\<close>
theorem UiFormatTime_roundtrip:
  "\<exists>m s. UiFormatTime Seconds = m @ lit '':'' @ s \<and> length s = 2 \<and> dec_value s < 60 \<and>
     60 * dec_value m + dec_value s = unat Seconds"
proof -
  let ?m = "dec_text (ucast (Seconds div 60) :: u64)" and ?s = "dec_text (ucast (Seconds mod 60) :: u64)"
  have v: "dec_value ?m = unat Seconds div 60" "dec_value ?s = unat Seconds mod 60"
    by (simp_all add: dec_text_value unat_div_word unat_mod_word)
  have "unat Seconds div 60 < 10 ^ 10" using unat_u32_lt [of Seconds] by simp
  then have lm: "length ?m \<le> 10" by (intro dec_text_short) (simp_all add: unat_div_word)
  have l2: "length ?s \<le> 2" by (intro dec_text_short) (simp_all add: unat_mod_word less_trans [of _ 60])
  show ?thesis
  proof (cases "unat Seconds mod 60 < 10")
    case True
    then have one: "length ?s = 1"
      using dec_text_short [of "ucast (Seconds mod 60) :: u64" 1] dec_text_nonempty [of "ucast (Seconds mod 60)"]
      by (cases ?s) (auto simp: unat_mod_word)
    have "Seconds mod 60 < 10" using True by (simp add: word_less_nat_alt unat_mod_word)
    then have "UiFormatTime Seconds = ?m @ lit '':'' @ (chr_code CHR ''0'' # ?s)"
      using lm one by (simp add: UiFormatTime_def append_text_fits lit_def)
    then show ?thesis
      using one v by - (rule exI [of _ ?m], rule exI [of _ "chr_code CHR ''0'' # ?s"], simp add: dec_value_zero [simplified])
  next
    case False
    then have two: "length ?s = 2"
      by (intro dec_text_two) (simp_all add: unat_mod_word less_trans [of _ 60])
    have "\<not> Seconds mod 60 < 10" using False by (simp add: word_less_nat_alt unat_mod_word)
    then have "UiFormatTime Seconds = ?m @ lit '':'' @ ?s"
      using lm two by (simp add: UiFormatTime_def append_text_fits lit_def)
    then show ?thesis using two v by - (rule exI [of _ ?m], rule exI [of _ ?s], simp)
  qed
qed

text \<open>A file size is shown without truncation: the bytes exactly, the kilobytes rounded down, and from one
  megabyte on a number with one decimal that is the size rounded down to a tenth of the unit.\<close>
theorem UiFormatSize_value:
  "if unat Size < 2 ^ 10 then \<exists>d. UiFormatSize Size = d @ lit '' B'' \<and> dec_value d = unat Size
   else if unat Size < 2 ^ 20
   then \<exists>d. UiFormatSize Size = d @ lit '' KB'' \<and> dec_value d * 2 ^ 10 \<le> unat Size \<and> unat Size < (dec_value d + 1) * 2 ^ 10
   else \<exists>d t U. UiFormatSize Size = d @ lit ''.'' @ t @ (if unat Size < 2 ^ 30 then lit '' MB'' else lit '' GB'') \<and>
     U = (if unat Size < 2 ^ 30 then 2 ^ 20 else 2 ^ 30) \<and> length t = 1 \<and>
     (10 * dec_value d + dec_value t) * U \<le> 10 * unat Size \<and> 10 * unat Size < (10 * dec_value d + dec_value t + 1) * U"
proof -
  have lt: "unat Size < 2 ^ 32" using unat_u32_lt [of Size] by simp
  have small: "Size < 1024 \<longleftrightarrow> unat Size < 2 ^ 10" "Size < 1024 * 1024 \<longleftrightarrow> unat Size < 2 ^ 20"
    "Size < 1024 * 1024 * 1024 \<longleftrightarrow> unat Size < 2 ^ 30"
    by (simp_all add: word_less_nat_alt)
  consider (B) "unat Size < 2 ^ 10" | (KB) "\<not> unat Size < 2 ^ 10" "unat Size < 2 ^ 20" | (Large) "\<not> unat Size < 2 ^ 20"
    by linarith
  then show ?thesis
  proof cases
    case B
    have "length (dec_text (ucast Size)) \<le> 4" using B by (intro dec_text_short) simp_all
    then have "UiFormatSize Size = dec_text (ucast Size) @ lit '' B''"
      using B unfolding UiFormatSize_def small by (simp add: append_text_fits lit_def)
    then show ?thesis using B by (auto intro!: exI [of _ "dec_text (ucast Size)"] simp: dec_text_value)
  next
    case KB
    let ?d = "dec_text (ucast (Size div 1024) :: u64)"
    have "length ?d \<le> 4" using KB by (intro dec_text_short) (simp_all add: unat_div_word)
    then have "UiFormatSize Size = ?d @ lit '' KB''"
      using KB unfolding UiFormatSize_def small by (simp add: append_text_fits lit_def)
    moreover have "dec_value ?d = unat Size div 1024" by (simp add: dec_text_value unat_div_word)
    moreover have "unat Size div 1024 * 1024 \<le> unat Size" "unat Size < (unat Size div 1024 + 1) * 1024"
      by (simp_all add: div_times_less_eq_dividend dividend_less_div_times)
    ultimately show ?thesis using KB by (auto intro!: exI [of _ ?d])
  next
    case Large
    define U :: nat where "U = (if unat Size < 2 ^ 30 then 2 ^ 20 else 2 ^ 30)"
    let ?U = "(if Size < 1024 * 1024 * 1024 then 1024 * 1024 else 1024 * 1024 * 1024) :: u64"
    let ?T = "(ucast Size * 10) div ?U :: u64"
    have "unat (ucast Size * 10 :: u64) = unat Size * 10" using lt by (subst unat_mult_nowrap) simp_all
    then have T: "unat ?T = 10 * unat Size div U"
      using small(3) by (auto simp: unat_div_word U_def mult.commute)
    have "unat ?T < 10 ^ 5" using lt unfolding T U_def by (simp add: div_less_iff_less_mult)
    let ?d = "dec_text (?T div 10)" and ?t = "dec_text (?T mod 10)"
    have v: "dec_value ?d = unat ?T div 10" "dec_value ?t = unat ?T mod 10"
      by (simp_all only: dec_text_value unat_div_word unat_mod_word) simp_all
    have ld: "length ?d \<le> 4" using \<open>unat ?T < 10 ^ 5\<close> by (intro dec_text_short) (simp_all add: unat_div_word)
    have "length ?t \<le> 1" by (intro dec_text_short) (simp_all add: unat_mod_word)
    then have t1: "length ?t = 1" using dec_text_nonempty [of "?T mod 10"] by (cases ?t) auto
    have "?U = 1024 * 1024 \<longleftrightarrow> unat Size < 2 ^ 30" using small(3) by simp
    then have "UiFormatSize Size = ?d @ lit ''.'' @ ?t @ (if unat Size < 2 ^ 30 then lit '' MB'' else lit '' GB'')"
      using Large ld t1 small(1,2) by (simp add: UiFormatSize_def append_text_fits lit_def Let_def)
    moreover have "10 * dec_value ?d + dec_value ?t = 10 * unat Size div U" unfolding v T by simp
    moreover have "10 * unat Size div U * U \<le> 10 * unat Size" "10 * unat Size < (10 * unat Size div U + 1) * U"
      by (simp_all add: div_times_less_eq_dividend dividend_less_div_times U_def)
    ultimately have "\<exists>d t. UiFormatSize Size = d @ lit ''.'' @ t @ (if unat Size < 2 ^ 30 then lit '' MB'' else lit '' GB'') \<and>
        length t = 1 \<and> (10 * dec_value d + dec_value t) * U \<le> 10 * unat Size \<and>
        10 * unat Size < (10 * dec_value d + dec_value t + 1) * U"
      using t1 by - (rule exI [of _ ?d], rule exI [of _ ?t], simp only: simp_thms)
    moreover have "\<not> unat Size < 2 ^ 10" using Large by simp
    ultimately show ?thesis using Large unfolding U_def [symmetric] by (simp only: if_False ex_simps simp_thms)
  qed
qed

end
