(* ===== verification/Bus.thy ===== *)
theory Bus
  imports Text "HOL-Library.State_Monad"
begin

text \<open>
  The hardware as a driver sees it. A device answers a read with a value that may depend on the whole
  history of the accesses, reads and delays before it; so the device is a function from the trace of
  the accesses to the value read, and every access extends the trace. Nothing is assumed of that
  function here: a property that needs the device to behave names what it needs. Registers, port
  numbers and the memory a device shares with the driver are addresses of the one space.

  Drivers are long sequences of accesses, so they are written in the state monad. \<open>valid\<close> is the triple
  of a precondition, a program and a postcondition, \<open>keeps\<close> its instance for an invariant.
\<close>

section \<open>Programs\<close>

named_theorems keep \<open>the program keeps the invariant\<close>

abbreviation ret :: "'a \<Rightarrow> ('s, 'a) state" where "ret \<equiv> State_Monad.return"

definition ask :: "('s \<Rightarrow> 'a) \<Rightarrow> ('s, 'a) state" where "ask f = State (\<lambda>s. (f s, s))"
definition change :: "('s \<Rightarrow> 's) \<Rightarrow> ('s, unit) state" where "change f = State (\<lambda>s. ((), f s))"
definition when_do :: "bool \<Rightarrow> ('s, unit) state \<Rightarrow> ('s, unit) state" where
  "when_do b m = (if b then m else ret ())"

text \<open>\<open>for (x in xs) body\<close>.\<close>
primrec each :: "'x list \<Rightarrow> ('x \<Rightarrow> ('s, unit) state) \<Rightarrow> ('s, unit) state" where
  "each [] m = ret ()"
| "each (x # xs) m = do { m x; each xs m }"

text \<open>The loop \<open>for (i = 0; i < n; i++) { if (test) break; wait; }\<close>, the shape of the waits of the
  drivers; the result says whether the test held.\<close>
primrec poll :: "nat \<Rightarrow> ('s, bool) state \<Rightarrow> ('s, unit) state \<Rightarrow> ('s, bool) state" where
  "poll 0 test wait = ret False"
| "poll (Suc n) test wait = do { ok \<leftarrow> test; if ok then ret True else do { wait; poll n test wait } }"

lemma run_ask [simp]: "run_state (ask f) s = (f s, s)" by (simp add: ask_def)
lemma run_change [simp]: "run_state (change f) s = ((), f s)" by (simp add: change_def)
lemma run_when_do [simp]: "run_state (when_do b m) s = (if b then run_state m s else ((), s))"
  by (simp add: when_do_def)

lemma run_if [simp]: "run_state (if b then m else n) s = (if b then run_state m s else run_state n s)" by simp

definition valid :: "('s \<Rightarrow> bool) \<Rightarrow> ('s, 'a) state \<Rightarrow> ('a \<Rightarrow> 's \<Rightarrow> bool) \<Rightarrow> bool" where
  "valid P m Q \<longleftrightarrow> (\<forall>s x s'. P s \<longrightarrow> run_state m s = (x, s') \<longrightarrow> Q x s')"

definition keeps :: "('s \<Rightarrow> bool) \<Rightarrow> ('s, 'a) state \<Rightarrow> bool" where
  "keeps P m \<longleftrightarrow> valid P m (\<lambda>_. P)"

lemma validI: "(\<And>s x s'. P s \<Longrightarrow> run_state m s = (x, s') \<Longrightarrow> Q x s') \<Longrightarrow> valid P m Q"
  by (auto simp: valid_def)

lemma validD: "valid P m Q \<Longrightarrow> P s \<Longrightarrow> run_state m s = (x, s') \<Longrightarrow> Q x s'"
  by (auto simp: valid_def)

lemma valid_bind: "valid P m R \<Longrightarrow> (\<And>x. valid (R x) (f x) Q) \<Longrightarrow> valid P (m \<bind> f) Q"
  unfolding valid_def by (auto split: prod.splits)

lemma keepsI: "(\<And>s x s'. P s \<Longrightarrow> run_state m s = (x, s') \<Longrightarrow> P s') \<Longrightarrow> keeps P m"
  by (auto simp: keeps_def valid_def)

lemma keepsD: "keeps P m \<Longrightarrow> P s \<Longrightarrow> run_state m s = (x, s') \<Longrightarrow> P s'"
  by (auto simp: keeps_def valid_def)

lemma keeps_return [keep]: "keeps P (ret x)" by (rule keepsI) simp
lemma keeps_ask [keep]: "keeps P (ask f)" by (rule keepsI) simp
lemma keeps_change: "(\<And>s. P s \<Longrightarrow> P (f s)) \<Longrightarrow> keeps P (change f)" by (rule keepsI) auto
lemma keeps_bind [keep]: "keeps P m \<Longrightarrow> (\<And>x. keeps P (f x)) \<Longrightarrow> keeps P (m \<bind> f)"
  unfolding keeps_def by (rule valid_bind)
lemma keeps_if [keep]: "keeps P m \<Longrightarrow> keeps P n \<Longrightarrow> keeps P (if b then m else n)" by simp
lemma keeps_when [keep]: "keeps P m \<Longrightarrow> keeps P (when_do b m)" by (simp add: when_do_def keeps_return)

lemma keeps_each [keep]: "(\<And>x. keeps P (m x)) \<Longrightarrow> keeps P (each xs m)"
  by (induction xs) (auto intro: keep)

lemma keeps_poll [keep]: "keeps P test \<Longrightarrow> keeps P wait \<Longrightarrow> keeps P (poll n test wait)"
  by (induction n) (auto intro!: keep)

text \<open>A poll that reports success ended in a test that held.\<close>
lemma poll_ok: "run_state (poll n test wait) s = (True, s') \<Longrightarrow> \<exists>u. run_state test u = (True, s')"
  by (induction n arbitrary: s) (auto split: prod.splits if_splits)

section \<open>Accesses\<close>

datatype access = Rd nat u64 | Wr nat u64 u64 | Pause u64

record bus =
  Respond :: "access list \<Rightarrow> u64"
  Trace :: "access list"

text \<open>A read of the given number of bytes.\<close>
definition bus_read :: "nat \<Rightarrow> u64 \<Rightarrow> bus \<Rightarrow> u64 \<times> bus" where
  "bus_read w a b = (let t = Trace b @ [Rd w a] in (take_bit (8 * w) (Respond b t), b\<lparr>Trace := t\<rparr>))"

definition bus_write :: "nat \<Rightarrow> u64 \<Rightarrow> u64 \<Rightarrow> bus \<Rightarrow> bus" where
  "bus_write w a v b = b\<lparr>Trace := Trace b @ [Wr w a (take_bit (8 * w) v)]\<rparr>"

text \<open>A delay: idle loops, \<open>Sleep\<close> and \<open>hlt\<close>.\<close>
definition bus_pause :: "u64 \<Rightarrow> bus \<Rightarrow> bus" where
  "bus_pause n b = b\<lparr>Trace := Trace b @ [Pause n]\<rparr>"

section \<open>What a program may change\<close>

text \<open>\<open>frames R m\<close>: the program changes the state only as the relation allows; the relations used are
  closed under composition.\<close>
named_theorems quiet \<open>the program changes only what its frame names\<close>

definition frames :: "('s \<Rightarrow> 's \<Rightarrow> bool) \<Rightarrow> ('s, 'a) state \<Rightarrow> bool" where
  "frames R m \<longleftrightarrow> reflp R \<and> transp R \<and> state_io_rel R m"

lemma framesI: "reflp R \<Longrightarrow> transp R \<Longrightarrow> (\<And>s x s'. run_state m s = (x, s') \<Longrightarrow> R s s') \<Longrightarrow> frames R m"
  unfolding frames_def by (blast intro: state_io_relI)

lemma framesD: "frames R m \<Longrightarrow> run_state m s = (x, s') \<Longrightarrow> R s s'"
  unfolding frames_def by (blast dest: state_io_relD)

lemma frames_change: "reflp R \<Longrightarrow> transp R \<Longrightarrow> (\<And>s. R s (f s)) \<Longrightarrow> frames R (change f)"
  by (rule framesI) auto

lemma frames_return: "reflp R \<Longrightarrow> transp R \<Longrightarrow> frames R (ret x)"
  by (rule framesI) (auto dest: reflpD)

lemma frames_ask: "reflp R \<Longrightarrow> transp R \<Longrightarrow> frames R (ask f)"
  by (rule framesI) (auto dest: reflpD)

lemma frames_bind [quiet]: "frames R m \<Longrightarrow> (\<And>x. frames R (f x)) \<Longrightarrow> frames R (m \<bind> f)"
proof (rule framesI)
  assume m: "frames R m" and f: "\<And>x. frames R (f x)"
  show "reflp R" "transp R" using m by (simp_all add: frames_def)
  fix s x s' assume run: "run_state (m \<bind> f) s = (x, s')"
  obtain y u where "run_state m s = (y, u)" by (cases "run_state m s")
  with run framesD [OF m, of s] framesD [OF f, of y u] have "R s u" "R u s'" by simp_all
  with m show "R s s'" unfolding frames_def by (blast dest: transpD)
qed

lemma frames_if [quiet]: "frames R m \<Longrightarrow> frames R n \<Longrightarrow> frames R (if b then m else n)" by simp

lemma frames_when [quiet]: "frames R m \<Longrightarrow> frames R (when_do b m)"
  by (cases b) (simp_all add: when_do_def frames_return frames_def [of R m])

lemma frames_option [quiet]:
  "frames R m \<Longrightarrow> (\<And>v. frames R (n v)) \<Longrightarrow> frames R (case r of None \<Rightarrow> m | Some v \<Rightarrow> n v)"
  by (cases r) auto

lemma frames_each: "reflp R \<Longrightarrow> transp R \<Longrightarrow> (\<And>x. frames R (m x)) \<Longrightarrow> frames R (each xs m)"
  by (induction xs) (auto intro: quiet frames_return)

lemma frames_poll: "reflp R \<Longrightarrow> transp R \<Longrightarrow> frames R test \<Longrightarrow> frames R wait \<Longrightarrow> frames R (poll n test wait)"
  by (induction n) (auto intro!: quiet frames_return)

text \<open>The frames used are of one shape: some part of the state is the same before and after.\<close>
definition same :: "('s \<Rightarrow> 'x) \<Rightarrow> 's \<Rightarrow> 's \<Rightarrow> bool" where "same f s s' \<longleftrightarrow> f s' = f s"

lemma same_rel: "reflp (same f)" "transp (same f)"
  by (auto simp: same_def intro: reflpI transpI)

lemmas same_frames [quiet] =
  frames_return [OF same_rel] frames_ask [OF same_rel] frames_each [OF same_rel] frames_poll [OF same_rel]

lemma same_change: "(\<And>s. f (g s) = f s) \<Longrightarrow> frames (same f) (change g)"
  by (rule frames_change [OF same_rel]) (simp add: same_def)

lemma same_state: "(\<And>s x s'. m s = (x, s') \<Longrightarrow> f s' = f s) \<Longrightarrow> frames (same f) (State m)"
  by (rule framesI [OF same_rel]) (simp add: same_def)

lemma sameD: "frames (same f) m \<Longrightarrow> run_state m s = (x, s') \<Longrightarrow> f s' = f s"
  by (drule framesD) (simp_all add: same_def)

end
