(* ===== verification/Hda.thy ===== *)
theory Hda
  imports Wav Bus
begin

text \<open>
  The HD Audio driver (\<open>kernel/hda.c\<close>): the controller, the command rings, the walk over the codec, and
  the output stream with its ring of \<open>PLAY_PAGES\<close> pages. The static variables of the file are the fields
  of the record; a pointer is an address. The samples of a page of the stream are kept by address in
  \<open>DmaSamples\<close>; everything else the driver shares with the controller is accessed over the bus.
\<close>

section \<open>State\<close>

record hda = filesys +
  HdaBus :: bus
  HdaBase :: u64
  Corb :: u64
  Rirb :: u64
  CorbEntries :: u16
  RirbEntries :: u16
  LastRirbWp :: u16
  CorbWritePos :: u16
  RirbReadPos :: u16
  HdaStuck :: bool
  CodecAddr :: u8
  OutStreamBase :: u32
  StreamOk :: bool
  AfgInAmpCaps :: u32
  AfgOutAmpCaps :: u32
  Dacs :: "u8 list"
  Pins :: "(u8 \<times> u32 \<times> u32) list"
  UsedDacs :: "u8 list"
  EnabledPins :: "u8 list"
  SampleBuffer :: u64
  BdlPage :: u64
  DmaSamples :: "u64 \<Rightarrow> i16 list"
  PlayPages :: "u64 list"
  PlayBdl :: u64
  PlayAllocated :: bool
  PlayActive :: bool
  PlayStarted :: bool
  PlayFilled :: u32
  PlayHwTotal :: u32
  PlayLastHw :: u32

record hda_status =
  StFound :: bool
  StCodecFound :: bool
  StCorbEntriesUsed :: u32
  StRirbEntriesUsed :: u32
  StRootFgCount :: u32
  StFgStartNid :: u32
  StRepeatSameCallRaw :: u32
  StAfgFound :: bool
  StLastFgTypeRaw :: u32
  StWpAfterFirst :: u32
  StWpBeforeSecond :: u32
  StCorbWpReadback :: u32
  StCorbRpAfterFirst :: u32
  StCorbSts :: u32
  StWidgetCount :: u32
  StDacFound :: bool
  StPinFound :: bool
  StPathLinked :: bool
  StStreamStarted :: bool

section \<open>Registers\<close>

definition REG_GCAP :: u32 where "REG_GCAP = 0x00"
definition REG_GCTL :: u32 where "REG_GCTL = 0x08"
definition REG_STATESTS :: u32 where "REG_STATESTS = 0x0E"
definition REG_INTCTL :: u32 where "REG_INTCTL = 0x18"
definition REG_CORBLBASE :: u32 where "REG_CORBLBASE = 0x40"
definition REG_CORBUBASE :: u32 where "REG_CORBUBASE = 0x44"
definition REG_CORBWP :: u32 where "REG_CORBWP = 0x48"
definition REG_CORBRP :: u32 where "REG_CORBRP = 0x4A"
definition REG_CORBCTL :: u32 where "REG_CORBCTL = 0x4C"
definition REG_CORBSTS :: u32 where "REG_CORBSTS = 0x4D"
definition REG_CORBSIZE :: u32 where "REG_CORBSIZE = 0x4E"
definition REG_RIRBLBASE :: u32 where "REG_RIRBLBASE = 0x50"
definition REG_RIRBUBASE :: u32 where "REG_RIRBUBASE = 0x54"
definition REG_RIRBWP :: u32 where "REG_RIRBWP = 0x58"
definition REG_RINTCNT :: u32 where "REG_RINTCNT = 0x5A"
definition REG_RIRBCTL :: u32 where "REG_RIRBCTL = 0x5C"
definition REG_RIRBSTS :: u32 where "REG_RIRBSTS = 0x5D"
definition REG_RIRBSIZE :: u32 where "REG_RIRBSIZE = 0x5E"
definition REG_SD_BASE :: u32 where "REG_SD_BASE = 0x80"
definition SD_SIZE :: u32 where "SD_SIZE = 0x20"
definition SDCTL_OFF :: u32 where "SDCTL_OFF = 0x00"
definition SDSTS_OFF :: u32 where "SDSTS_OFF = 0x03"
definition SDLPIB_OFF :: u32 where "SDLPIB_OFF = 0x04"
definition SDCBL_OFF :: u32 where "SDCBL_OFF = 0x08"
definition SDLVI_OFF :: u32 where "SDLVI_OFF = 0x0C"
definition SDFMT_OFF :: u32 where "SDFMT_OFF = 0x12"
definition SDBDPL_OFF :: u32 where "SDBDPL_OFF = 0x18"
definition SDBDPU_OFF :: u32 where "SDBDPU_OFF = 0x1C"

definition hda_read :: "nat \<Rightarrow> u64 \<Rightarrow> ('h hda_scheme, u64) state" where
  "hda_read w a = State (\<lambda>h. case bus_read w a (HdaBus h) of (v, b) \<Rightarrow> (v, h\<lparr>HdaBus := b\<rparr>))"

definition hda_write :: "nat \<Rightarrow> u64 \<Rightarrow> u64 \<Rightarrow> ('h hda_scheme, unit) state" where
  "hda_write w a v = change (\<lambda>h. h\<lparr>HdaBus := bus_write w a v (HdaBus h)\<rparr>)"

definition Wait :: "u64 \<Rightarrow> ('h hda_scheme, unit) state" where
  "Wait n = change (\<lambda>h. h\<lparr>HdaBus := bus_pause n (HdaBus h)\<rparr>)"

definition Read8 :: "u32 \<Rightarrow> ('h hda_scheme, u8) state" where
  "Read8 Offset = do { base \<leftarrow> ask HdaBase; v \<leftarrow> hda_read 1 (base + ucast Offset); ret (ucast v) }"
definition Read16 :: "u32 \<Rightarrow> ('h hda_scheme, u16) state" where
  "Read16 Offset = do { base \<leftarrow> ask HdaBase; v \<leftarrow> hda_read 2 (base + ucast Offset); ret (ucast v) }"
definition Read32 :: "u32 \<Rightarrow> ('h hda_scheme, u32) state" where
  "Read32 Offset = do { base \<leftarrow> ask HdaBase; v \<leftarrow> hda_read 4 (base + ucast Offset); ret (ucast v) }"
definition Write8 :: "u32 \<Rightarrow> u8 \<Rightarrow> ('h hda_scheme, unit) state" where
  "Write8 Offset v = do { base \<leftarrow> ask HdaBase; hda_write 1 (base + ucast Offset) (ucast v) }"
definition Write16 :: "u32 \<Rightarrow> u16 \<Rightarrow> ('h hda_scheme, unit) state" where
  "Write16 Offset v = do { base \<leftarrow> ask HdaBase; hda_write 2 (base + ucast Offset) (ucast v) }"
definition Write32 :: "u32 \<Rightarrow> u32 \<Rightarrow> ('h hda_scheme, unit) state" where
  "Write32 Offset v = do { base \<leftarrow> ask HdaBase; hda_write 4 (base + ucast Offset) (ucast v) }"

definition hlog :: "cstring list \<Rightarrow> ('h hda_scheme, unit) state" where
  "hlog ss = change (st_log ss)"

text \<open>The text \<open>KLogHex\<close> writes.\<close>
definition hex0 :: "u64 \<Rightarrow> int \<Rightarrow> cstring" where "hex0 v n = lit ''0x'' @ hex_text v n"

definition AllocLow :: "('h hda_scheme, u64) state" where
  "AllocLow = State (\<lambda>h. case AllocPageBelow4G (Phys h) of (p, s) \<Rightarrow> (p, h\<lparr>Phys := s\<rparr>))"

definition FreeLow :: "u64 \<Rightarrow> ('h hda_scheme, unit) state" where
  "FreeLow p = change (\<lambda>h. h\<lparr>Phys := FreePage p (Phys h)\<rparr>)"

section \<open>The controller and the command rings\<close>

definition WAITS :: nat where "WAITS = 100000"

definition ResetController :: "('h hda_scheme, bool) state" where
  "ResetController = do {
     v \<leftarrow> Read32 REG_GCTL;
     Write32 REG_GCTL (v AND NOT 1);
     poll WAITS (do { v \<leftarrow> Read32 REG_GCTL; ret (v AND 1 = 0) }) (Wait 100);
     v \<leftarrow> Read32 REG_GCTL;
     Write32 REG_GCTL (v OR 1);
     poll WAITS (do { v \<leftarrow> Read32 REG_GCTL; ret (v AND 1 \<noteq> 0) }) (Wait 100) }"

text \<open>The number of entries of a ring and the size bits, from the capability bits of the size register.\<close>
definition RingSize :: "u8 \<Rightarrow> u16 \<times> u8" where
  "RingSize v =
     (let Cap = drop_bit 4 v AND 7
      in if Cap AND 4 \<noteq> 0 then (256, 2) else if Cap AND 2 \<noteq> 0 then (16, 1) else (2, 0))"

definition SetupCorbRirb :: "('h hda_scheme, bool) state" where
  "SetupCorbRirb = do {
     Write8 REG_CORBCTL 0;
     Write8 REG_RIRBCTL 0;
     CorbPage \<leftarrow> AllocLow;
     RirbPage \<leftarrow> AllocLow;
     if CorbPage = 0 \<or> RirbPage = 0 then ret False else do {
     change (\<lambda>h. h\<lparr>Corb := CorbPage, Rirb := RirbPage\<rparr>);
     each [0..<1024] (\<lambda>i. hda_write 4 (CorbPage + of_nat i * 4) 0);
     each [0..<512] (\<lambda>i. hda_write 8 (RirbPage + of_nat i * 8) 0);
     v \<leftarrow> Read8 REG_CORBSIZE;
     change (CorbEntries_update (\<lambda>_. fst (RingSize v)));
     w \<leftarrow> Read8 REG_RIRBSIZE;
     change (RirbEntries_update (\<lambda>_. fst (RingSize w)));
     Write32 REG_CORBLBASE (ucast CorbPage);
     Write32 REG_CORBUBASE 0;
     Write8 REG_CORBSIZE (snd (RingSize v));
     Write16 REG_CORBRP 0x8000;
     poll WAITS (do { v \<leftarrow> Read16 REG_CORBRP; ret (v AND 0x8000 \<noteq> 0) }) (Wait 100);
     Write16 REG_CORBRP 0;
     poll WAITS (do { v \<leftarrow> Read16 REG_CORBRP; ret (v AND 0x8000 = 0) }) (Wait 100);
     Write16 REG_CORBWP 0;
     change (CorbWritePos_update (\<lambda>_. 0));
     Write32 REG_RIRBLBASE (ucast RirbPage);
     Write32 REG_RIRBUBASE 0;
     Write8 REG_RIRBSIZE (snd (RingSize w));
     Write16 REG_RIRBWP 0x8000;
     change (RirbReadPos_update (\<lambda>_. 0));
     Write16 REG_RINTCNT 0xC0;
     v \<leftarrow> Read8 REG_RIRBSTS;
     Write8 REG_RIRBSTS v;
     Write8 REG_CORBCTL 0x02;
     Write8 REG_RIRBCTL 0x03;
     ret True } }"

text \<open>The command word of a verb: a verb of four bits carries sixteen bits of payload, a longer one eight.\<close>
definition VerbCommand :: "u8 \<Rightarrow> u8 \<Rightarrow> u32 \<Rightarrow> u32 \<Rightarrow> u32" where
  "VerbCommand Codec Nid Verb Payload =
     (if Verb \<le> 0xF
      then push_bit 28 (ucast Codec) OR push_bit 20 (ucast Nid) OR push_bit 16 Verb OR (Payload AND 0xFFFF)
      else push_bit 28 (ucast Codec) OR push_bit 20 (ucast Nid) OR push_bit 8 Verb OR (Payload AND 0xFF))"

text \<open>The inner loop over the response ring, up to the device's write pointer. A full turn that brings
  only unsolicited responses and never meets the pointer means that the pointer is outside the ring; the
  code then goes on turning until the device delivers a response, which the model marks with \<open>HdaStuck\<close>.\<close>
primrec RirbLoop :: "nat \<Rightarrow> u16 \<Rightarrow> ('h hda_scheme, u32 option) state" where
  "RirbLoop 0 Wp = do { pos \<leftarrow> ask RirbReadPos;
     when_do (pos \<noteq> Wp) (change (HdaStuck_update (\<lambda>_. True))); ret None }"
| "RirbLoop (Suc n) Wp = do {
     pos \<leftarrow> ask RirbReadPos;
     if pos = Wp then ret None else do {
     change (\<lambda>h. h\<lparr>RirbReadPos := (pos + 1) mod RirbEntries h\<rparr>);
     pos \<leftarrow> ask RirbReadPos;
     ring \<leftarrow> ask Rirb;
     Entry \<leftarrow> hda_read 8 (ring + ucast pos * 8);
     change (LastRirbWp_update (\<lambda>_. pos));
     v \<leftarrow> Read8 REG_RIRBSTS;
     Write8 REG_RIRBSTS v;
     if bit Entry 36 then RirbLoop n Wp else ret (Some (ucast Entry)) } }"

primrec ResponseLoop :: "nat \<Rightarrow> ('h hda_scheme, u32) state" where
  "ResponseLoop 0 = ret 0"
| "ResponseLoop (Suc n) = do {
     Wp \<leftarrow> Read16 REG_RIRBWP;
     size \<leftarrow> ask RirbEntries;
     r \<leftarrow> RirbLoop (unat size) (Wp AND 0xFF);
     (case r of Some v \<Rightarrow> ret v | None \<Rightarrow> do { Wait 50; ResponseLoop n }) }"

definition SendVerb :: "u8 \<Rightarrow> u32 \<Rightarrow> u32 \<Rightarrow> ('h hda_scheme, u32) state" where
  "SendVerb Nid Verb Payload = do {
     Codec \<leftarrow> ask CodecAddr;
     NextPos \<leftarrow> ask (\<lambda>h. (CorbWritePos h + 1) mod CorbEntries h);
     ring \<leftarrow> ask Corb;
     hda_write 4 (ring + ucast NextPos * 4) (ucast (VerbCommand Codec Nid Verb Payload));
     change (CorbWritePos_update (\<lambda>_. NextPos));
     Write16 REG_CORBWP NextPos;
     ResponseLoop 1000000 }"

definition GetParam :: "u8 \<Rightarrow> u32 \<Rightarrow> ('h hda_scheme, u32) state" where
  "GetParam Nid Param = SendVerb Nid 0xF00 Param"

section \<open>The codec\<close>

definition MAX_DACS :: nat where "MAX_DACS = 8"
definition MAX_PINS :: nat where "MAX_PINS = 16"

definition UnmuteWidget :: "u8 \<Rightarrow> int \<Rightarrow> ('h hda_scheme, unit) state" where
  "UnmuteWidget Nid InputIndex = do {
     Caps \<leftarrow> GetParam Nid 0x09;
     SendVerb Nid 0x705 0;
     when_do (bit Caps 2) (do {
       OutCaps \<leftarrow> (if bit Caps 3 then GetParam Nid 0x12 else ask AfgOutAmpCaps);
       SendVerb Nid 0x3 (0xB000 OR (OutCaps AND 0x7F));
       ret () });
     when_do (bit Caps 1 \<and> InputIndex \<ge> 0) (do {
       InCaps \<leftarrow> (if bit Caps 3 then GetParam Nid 0x0D else ask AfgInAmpCaps);
       SendVerb Nid 0x3 (0x7000 OR push_bit 8 (of_int InputIndex AND 0xF) OR (InCaps AND 0x7F));
       ret () }) }"

text \<open>The loop over the connection list of a widget; \<open>deeper\<close> is the recursive call.\<close>
primrec ConnLoop :: "(u8 \<Rightarrow> ('h hda_scheme, bool) state) \<Rightarrow> u8 \<Rightarrow> u8 \<Rightarrow> nat list \<Rightarrow> ('h hda_scheme, bool) state" where
  "ConnLoop deeper TargetDac Nid [] = ret False"
| "ConnLoop deeper TargetDac Nid (i # is) = do {
     Resp \<leftarrow> SendVerb Nid 0xF02 (of_nat i AND NOT 3);
     let Entry = ucast (drop_bit (i mod 4 * 8) Resp AND 0x7F);
     Match \<leftarrow> (if Entry = TargetDac then ret True else deeper Entry);
     if Match then do { SendVerb Nid 0x701 (of_nat i); UnmuteWidget Nid (int i); ret True }
     else ConnLoop deeper TargetDac Nid is }"

primrec ConnectPathToDac :: "nat \<Rightarrow> u8 \<Rightarrow> u8 \<Rightarrow> ('h hda_scheme, bool) state" where
  "ConnectPathToDac 0 TargetDac Nid = ret False"
| "ConnectPathToDac (Suc Depth) TargetDac Nid = do {
     ConnParam \<leftarrow> GetParam Nid 0x0E;
     let Count = unat (ConnParam AND 0x7F);
     if Count = 0 \<or> bit ConnParam 7 then ret False
     else ConnLoop (ConnectPathToDac Depth TargetDac) TargetDac Nid [0..<Count] }"

definition LogConnList :: "u8 \<Rightarrow> ('h hda_scheme, unit) state" where
  "LogConnList Nid = do {
     ConnParam \<leftarrow> GetParam Nid 0x0E;
     let Count = unat (ConnParam AND 0x7F);
     when_do (\<not> (Count = 0 \<or> ConnParam AND 0x80 \<noteq> 0)) (do {
       hlog [lit '' conn''];
       each [0..<min Count 8] (\<lambda>i. do {
         Resp \<leftarrow> SendVerb Nid 0xF02 (of_nat i AND NOT 3);
         hlog [lit (if i = 0 then '' '' else '',''), hex0 (ucast (drop_bit (i mod 4 * 8) Resp AND 0xFF)) 2] }) }) }"

definition WalkWidget :: "u8 \<Rightarrow> ('h hda_scheme, unit) state" where
  "WalkWidget Nid = do {
     Caps \<leftarrow> GetParam Nid 0x09;
     let Type = drop_bit 20 Caps AND 0xF;
     hlog [lit ''HDA w '', hex0 (ucast Nid) 2, lit '' t'', dec_text (ucast Type), lit '' c'', hex0 (ucast Caps) 1];
     when_do (Type = 0 \<and> \<not> bit Caps 9)
       (change (\<lambda>h. if length (Dacs h) < MAX_DACS then h\<lparr>Dacs := Dacs h @ [Nid]\<rparr> else h));
     when_do (Type = 4) (do {
       PinCaps \<leftarrow> GetParam Nid 0x0C;
       Cfg \<leftarrow> SendVerb Nid 0xF1C 0;
       hlog [lit '' cfg '', hex0 (ucast Cfg) 8, lit '' pc '', hex0 (ucast PinCaps) 1];
       change (\<lambda>h. if length (Pins h) < MAX_PINS then h\<lparr>Pins := Pins h @ [(Nid, Cfg, PinCaps)]\<rparr> else h) });
     when_do (bit Caps 8) (LogConnList Nid);
     hlog [[10]] }"

definition WalkWidgets :: "u8 \<Rightarrow> ('h hda_scheme, u8) state" where
  "WalkWidgets AfgNid = do {
     NodeCount \<leftarrow> GetParam AfgNid 0x04;
     let StartNid = ucast (drop_bit 16 NodeCount AND 0xFF);
     let Count = (ucast (NodeCount AND 0xFF) :: u8);
     change (\<lambda>h. h\<lparr>Dacs := [], Pins := []\<rparr>);
     each [0..<unat Count] (\<lambda>i. WalkWidget (StartNid + of_nat i));
     ret Count }"

definition PinIsOutputTarget :: "u32 \<Rightarrow> u32 \<Rightarrow> bool" where
  "PinIsOutputTarget PinCaps Cfg \<longleftrightarrow>
     PinCaps AND push_bit 4 1 \<noteq> 0 \<and> drop_bit 30 Cfg AND 3 \<noteq> 1 \<and> drop_bit 20 Cfg AND 0xF \<le> 2"

definition EnablePin :: "u8 \<Rightarrow> u32 \<Rightarrow> ('h hda_scheme, unit) state" where
  "EnablePin Nid PinCaps = do {
     SendVerb Nid 0x705 0;
     SendVerb Nid 0x707 0xC0;
     when_do (bit PinCaps 16) (do { SendVerb Nid 0x70C 0x02; ret () }) }"

definition MarkDacUsed :: "u8 \<Rightarrow> 'h hda_scheme \<Rightarrow> 'h hda_scheme" where
  "MarkDacUsed Dac h =
     (if Dac \<in> set (UsedDacs h) then h
      else if length (UsedDacs h) < MAX_DACS then h\<lparr>UsedDacs := UsedDacs h @ [Dac]\<rparr> else h)"

text \<open>The first converter the pin reaches.\<close>
primrec RoutePin :: "u8 \<Rightarrow> u32 \<Rightarrow> u8 list \<Rightarrow> ('h hda_scheme, bool) state" where
  "RoutePin Pin PinCaps [] = ret False"
| "RoutePin Pin PinCaps (Dac # ds) = do {
     linked \<leftarrow> ConnectPathToDac 4 Dac Pin;
     if linked then do {
       EnablePin Pin PinCaps;
       change (MarkDacUsed Dac);
       change (\<lambda>h. if length (EnabledPins h) < MAX_PINS then h\<lparr>EnabledPins := EnabledPins h @ [Pin]\<rparr> else h);
       hlog [lit ''HDA: pin '', hex0 (ucast Pin) 2, lit '' -> dac '', hex0 (ucast Dac) 2, [10]];
       ret True }
     else RoutePin Pin PinCaps ds }"

text \<open>The loop over the pins; the result is the candidate pins and the enabled ones.\<close>
primrec RoutePins :: "bool \<Rightarrow> (u8 \<times> u32 \<times> u32) list \<Rightarrow> ('h hda_scheme, nat \<times> nat) state" where
  "RoutePins RequireTarget [] = ret (0, 0)"
| "RoutePins RequireTarget (p # ps) =
     (case p of (Pin, Cfg, PinCaps) \<Rightarrow>
        if \<not> (if RequireTarget then PinIsOutputTarget PinCaps Cfg else PinCaps AND push_bit 4 1 \<noteq> 0)
        then RoutePins RequireTarget ps
        else do {
          ds \<leftarrow> ask Dacs;
          linked \<leftarrow> RoutePin Pin PinCaps ds;
          r \<leftarrow> RoutePins RequireTarget ps;
          ret (fst r + 1, if linked then snd r + 1 else snd r) })"

definition RouteOutputPins :: "bool \<Rightarrow> ('h hda_scheme, nat \<times> nat) state" where
  "RouteOutputPins RequireTarget = do { ps \<leftarrow> ask Pins; RoutePins RequireTarget ps }"

definition ConfigureUsedDacs :: "('h hda_scheme, unit) state" where
  "ConfigureUsedDacs = do {
     ds \<leftarrow> ask UsedDacs;
     each ds (\<lambda>Dac. do {
       SendVerb Dac 0x705 0;
       SendVerb Dac 0x706 0x10;
       SendVerb Dac 0x2 0x0011;
       UnmuteWidget Dac (- 1) }) }"

definition LogVerify :: "('h hda_scheme, unit) state" where
  "LogVerify = do {
     ds \<leftarrow> ask UsedDacs;
     each ds (\<lambda>Dac. do {
       hlog [lit ''HDA: chk dac '', hex0 (ucast Dac) 2, lit '' fmt ''];
       v \<leftarrow> SendVerb Dac 0xA 0; hlog [hex0 (ucast v) 4, lit '' strm ''];
       v \<leftarrow> SendVerb Dac 0xF06 0; hlog [hex0 (ucast v) 2, lit '' amp ''];
       v \<leftarrow> SendVerb Dac 0xB 0xA000; hlog [hex0 (ucast v) 2, lit '' pwr ''];
       v \<leftarrow> SendVerb Dac 0xF05 0; hlog [hex0 (ucast v) 2, [10]] });
     ps \<leftarrow> ask EnabledPins;
     each ps (\<lambda>Pin. do {
       hlog [lit ''HDA: chk pin '', hex0 (ucast Pin) 2, lit '' ctl ''];
       v \<leftarrow> SendVerb Pin 0xF07 0; hlog [hex0 (ucast v) 2, lit '' amp ''];
       v \<leftarrow> SendVerb Pin 0xB 0xA000; hlog [hex0 (ucast v) 2, lit '' pwr ''];
       v \<leftarrow> SendVerb Pin 0xF05 0; hlog [hex0 (ucast v) 2, [10]] }) }"

end
