(* ===== verification/HdaStream.thy ===== *)
theory HdaStream
  imports Hda
begin

text \<open>
  The output stream of the HD Audio driver (\<open>kernel/hda.c\<close>): initialisation, the test tone, and the ring
  of \<open>PLAY_PAGES\<close> pages the player fills and the controller plays.
\<close>

section \<open>The stream engine\<close>

definition BUFFER_FRAMES :: nat where "BUFFER_FRAMES = 1024"
definition STREAM_TAG :: u8 where "STREAM_TAG = 1"
definition PLAY_PAGES :: nat where "PLAY_PAGES = 32"
definition HDA_STREAM_PAGE_BYTES :: nat where "HDA_STREAM_PAGE_BYTES = 4096"
definition HDA_STREAM_PAGE_FRAMES :: nat where "HDA_STREAM_PAGE_FRAMES = 1024"
definition HDA_STREAM_ERR_UNAVAILABLE :: int where "HDA_STREAM_ERR_UNAVAILABLE = -1"
definition HDA_STREAM_ERR_RATE :: int where "HDA_STREAM_ERR_RATE = -2"
definition HDA_STREAM_ERR_MEMORY :: int where "HDA_STREAM_ERR_MEMORY = -3"

definition FillSquareWave :: "i16 list" where
  "FillSquareWave = concat (map (\<lambda>i. let v = (if i mod 128 < 64 then 12000 else - 12000) in [v, v]) [0..<BUFFER_FRAMES])"

definition SetCtl :: "u32 \<Rightarrow> (u8 \<Rightarrow> u8) \<Rightarrow> ('h hda_scheme, unit) state" where
  "SetCtl Off f = do { base \<leftarrow> ask OutStreamBase; v \<leftarrow> Read8 (base + Off); Write8 (base + Off) (f v) }"

definition WaitCtl :: "u8 \<Rightarrow> bool \<Rightarrow> ('h hda_scheme, unit) state" where
  "WaitCtl Bits Up = do {
     base \<leftarrow> ask OutStreamBase;
     poll WAITS (do { v \<leftarrow> Read8 (base + SDCTL_OFF); ret ((v AND Bits \<noteq> 0) = Up) }) (Wait 50);
     ret () }"

text \<open>The reset bit is set and cleared again, each time waiting for the controller.\<close>
definition PulseReset :: "('h hda_scheme, unit) state" where
  "PulseReset = do {
     SetCtl SDCTL_OFF (\<lambda>v. v OR 0x01); WaitCtl 0x01 True;
     SetCtl SDCTL_OFF (\<lambda>v. v AND NOT 0x01); WaitCtl 0x01 False }"

definition SetStreamTag :: "('h hda_scheme, unit) state" where
  "SetStreamTag = SetCtl (SDCTL_OFF + 2) (\<lambda>v. v AND 0x0F OR push_bit 4 (STREAM_TAG AND 0xF))"

definition SetupStream :: "('h hda_scheme, bool) state" where
  "SetupStream = do {
     Samples \<leftarrow> AllocLow;
     Bdl \<leftarrow> AllocLow;
     change (\<lambda>h. h\<lparr>SampleBuffer := Samples, BdlPage := Bdl\<rparr>);
     if Samples = 0 \<or> Bdl = 0 then ret False else do {
     change (\<lambda>h. h\<lparr>DmaSamples := (DmaSamples h)(Samples := FillSquareWave)\<rparr>);
     hda_write 4 Bdl (ucast (ucast Samples :: u32));
     hda_write 4 (Bdl + 4) 0;
     hda_write 4 (Bdl + 8) (of_nat (BUFFER_FRAMES * 4));
     hda_write 4 (Bdl + 12) 1;
     PulseReset;
     SdBase \<leftarrow> ask OutStreamBase;
     Write32 (SdBase + SDBDPL_OFF) (ucast Bdl);
     Write32 (SdBase + SDBDPU_OFF) 0;
     Write16 (SdBase + SDLVI_OFF) 0;
     Write32 (SdBase + SDCBL_OFF) (of_nat (BUFFER_FRAMES * 4));
     Write16 (SdBase + SDFMT_OFF) 0x0011;
     SetStreamTag;
     ret True } }"

definition ResetStreamEngine :: "('h hda_scheme, unit) state" where
  "ResetStreamEngine = do {
     SetCtl SDCTL_OFF (\<lambda>v. v AND NOT 0x02); WaitCtl 0x02 False;
     PulseReset }"

definition ProgramStream :: "u64 \<Rightarrow> u32 \<Rightarrow> u16 \<Rightarrow> u16 \<Rightarrow> ('h hda_scheme, unit) state" where
  "ProgramStream Bdl TotalBytes LastIndex Format = do {
     SdBase \<leftarrow> ask OutStreamBase;
     ResetStreamEngine;
     Write32 (SdBase + SDBDPL_OFF) (ucast Bdl);
     Write32 (SdBase + SDBDPU_OFF) 0;
     Write16 (SdBase + SDLVI_OFF) LastIndex;
     Write32 (SdBase + SDCBL_OFF) TotalBytes;
     Write16 (SdBase + SDFMT_OFF) Format;
     SetStreamTag;
     ds \<leftarrow> ask UsedDacs;
     each ds (\<lambda>Dac. do { SendVerb Dac 0x2 (ucast Format); ret () }) }"

definition FormatForRate :: "u32 \<Rightarrow> u16" where
  "FormatForRate Rate =
     (if Rate = 8000 then 0x0511 else if Rate = 11025 then 0x4311 else if Rate = 12000 then 0x0311
      else if Rate = 16000 then 0x0211 else if Rate = 22050 then 0x4111 else if Rate = 24000 then 0x0111
      else if Rate = 32000 then 0x0A11 else if Rate = 44100 then 0x4011 else if Rate = 48000 then 0x0011
      else if Rate = 88200 then 0x4811 else if Rate = 96000 then 0x0811 else if Rate = 176400 then 0x5811
      else if Rate = 192000 then 0x1811 else 0)"

section \<open>The play ring\<close>

text \<open>The position register counts bytes around the ring; the pages passed since the last look are added
  to the total.\<close>
definition UpdatePlayPosition :: "('h hda_scheme, unit) state" where
  "UpdatePlayPosition = do {
     started \<leftarrow> ask PlayStarted;
     if \<not> started then ret () else do {
     base \<leftarrow> ask OutStreamBase;
     pos \<leftarrow> Read32 (base + SDLPIB_OFF);
     let Hw = pos div of_nat HDA_STREAM_PAGE_BYTES;
     let Hw = (if Hw \<ge> of_nat PLAY_PAGES then of_nat PLAY_PAGES - 1 else Hw);
     change (\<lambda>h. h\<lparr>PlayHwTotal := PlayHwTotal h + (Hw + of_nat PLAY_PAGES - PlayLastHw h) mod of_nat PLAY_PAGES,
                     PlayLastHw := Hw\<rparr>) } }"

text \<open>The pages of the ring, until the allocator fails; the addresses obtained stay in \<open>PlayPages\<close>.\<close>
primrec AllocPlayPages :: "nat \<Rightarrow> ('h hda_scheme, unit) state" where
  "AllocPlayPages 0 = ret ()"
| "AllocPlayPages (Suc n) = do {
     p \<leftarrow> AllocLow;
     if p = 0 then ret () else do { change (\<lambda>h. h\<lparr>PlayPages := PlayPages h @ [p]\<rparr>); AllocPlayPages n } }"

definition AllocRing :: "('h hda_scheme, bool) state" where
  "AllocRing = do {
     Bdl \<leftarrow> AllocLow;
     change (\<lambda>h. h\<lparr>PlayBdl := Bdl, PlayPages := []\<rparr>);
     when_do (Bdl \<noteq> 0) (AllocPlayPages PLAY_PAGES);
     ps \<leftarrow> ask PlayPages;
     if Bdl = 0 \<or> length ps < PLAY_PAGES then do {
       each ps FreeLow;
       when_do (Bdl \<noteq> 0) (do { FreeLow Bdl; change (\<lambda>h. h\<lparr>PlayBdl := 0\<rparr>) });
       ret False }
     else do { change (\<lambda>h. h\<lparr>PlayAllocated := True\<rparr>); ret True } }"

text \<open>A page is silenced and entered in the descriptor list.\<close>
definition ClearSlot :: "nat \<Rightarrow> ('h hda_scheme, unit) state" where
  "ClearSlot i = do {
     Bdl \<leftarrow> ask PlayBdl;
     Page \<leftarrow> ask (\<lambda>h. PlayPages h ! i);
     change (\<lambda>h. h\<lparr>DmaSamples := (DmaSamples h)(Page := replicate (HDA_STREAM_PAGE_FRAMES * 2) 0)\<rparr>);
     hda_write 4 (Bdl + of_nat (i * 16)) (ucast (ucast Page :: u32));
     hda_write 4 (Bdl + of_nat (i * 16 + 4)) 0;
     hda_write 4 (Bdl + of_nat (i * 16 + 8)) (of_nat HDA_STREAM_PAGE_BYTES);
     hda_write 4 (Bdl + of_nat (i * 16 + 12)) 0 }"

text \<open>The rest of \<open>HdaStreamOpen\<close>, once there is a ring.\<close>
definition OpenTail :: "u16 \<Rightarrow> ('h hda_scheme, int) state" where
  "OpenTail Format = do {
     each [0..<PLAY_PAGES] ClearSlot;
     Bdl \<leftarrow> ask PlayBdl;
     ProgramStream Bdl (of_nat (PLAY_PAGES * HDA_STREAM_PAGE_BYTES)) (of_nat PLAY_PAGES - 1) Format;
     change (\<lambda>h. h\<lparr>PlayFilled := 0, PlayHwTotal := 0, PlayLastHw := 0, PlayStarted := False, PlayActive := True\<rparr>);
     ret 1 }"

definition HdaStreamOpen :: "u32 \<Rightarrow> ('h hda_scheme, int) state" where
  "HdaStreamOpen Rate = do {
     closed \<leftarrow> ask (\<lambda>h. \<not> StreamOk h \<or> PlayActive h);
     if closed then ret HDA_STREAM_ERR_UNAVAILABLE
     else if FormatForRate Rate = 0 then ret HDA_STREAM_ERR_RATE else do {
     allocated \<leftarrow> ask PlayAllocated;
     got \<leftarrow> (if allocated then ret True else AllocRing);
     if \<not> got then ret HDA_STREAM_ERR_MEMORY else OpenTail (FormatForRate Rate) } }"

text \<open>The next free page of the ring; 0 when there is none.\<close>
definition HdaStreamNextPage :: "('h hda_scheme, u64) state" where
  "HdaStreamNextPage = do {
     active \<leftarrow> ask PlayActive;
     if \<not> active then ret 0 else do {
     UpdatePlayPosition;
     full \<leftarrow> ask (\<lambda>h. PlayFilled h \<ge> PlayHwTotal h + of_nat PLAY_PAGES);
     if full then ret 0 else ask (\<lambda>h. PlayPages h ! (unat (PlayFilled h) mod PLAY_PAGES)) } }"

definition HdaStreamCommit :: "('h hda_scheme, unit) state" where
  "HdaStreamCommit = change (\<lambda>h. if PlayActive h then h\<lparr>PlayFilled := PlayFilled h + 1\<rparr> else h)"

definition HdaStreamStart :: "('h hda_scheme, unit) state" where
  "HdaStreamStart = do {
     active \<leftarrow> ask PlayActive;
     if \<not> active then ret () else do {
     base \<leftarrow> ask OutStreamBase;
     Write8 (base + SDSTS_OFF) 0x1C;
     SetCtl SDCTL_OFF (\<lambda>v. v OR 0x02);
     poll 50 (do { pos \<leftarrow> Read32 (base + SDLPIB_OFF); ret (pos < of_nat HDA_STREAM_PAGE_BYTES) }) (Wait 1);
     change (\<lambda>h. h\<lparr>PlayHwTotal := 0, PlayLastHw := 0, PlayStarted := True\<rparr>) } }"

definition HdaStreamFilled :: "'h hda_scheme \<Rightarrow> u32" where "HdaStreamFilled h = PlayFilled h"

definition HdaStreamPlayed :: "('h hda_scheme, u32) state" where
  "HdaStreamPlayed = do {
     active \<leftarrow> ask PlayActive;
     if \<not> active then ret 0 else do { UpdatePlayPosition; ask PlayHwTotal } }"

definition HdaStreamClose :: "('h hda_scheme, unit) state" where
  "HdaStreamClose = do {
     active \<leftarrow> ask PlayActive;
     if \<not> active then ret () else do {
     change (\<lambda>h. h\<lparr>PlayActive := False, PlayStarted := False\<rparr>);
     Bdl \<leftarrow> ask BdlPage;
     ProgramStream Bdl (of_nat (BUFFER_FRAMES * 4)) 0 0x0011 } }"

section \<open>Initialisation\<close>

definition status_init :: hda_status where
  "status_init = \<lparr>StFound = True, StCodecFound = False, StCorbEntriesUsed = 0, StRirbEntriesUsed = 0, StRootFgCount = 0,
     StFgStartNid = 0, StRepeatSameCallRaw = 0xFFFFFFFF, StAfgFound = False, StLastFgTypeRaw = 0, StWpAfterFirst = 0,
     StWpBeforeSecond = 0, StCorbWpReadback = 0, StCorbRpAfterFirst = 0, StCorbSts = 0, StWidgetCount = 0,
     StDacFound = False, StPinFound = False, StPathLinked = False, StStreamStarted = False\<rparr>"

text \<open>The search for the audio function group.\<close>
primrec FindAfg :: "u8 list \<Rightarrow> hda_status \<Rightarrow> ('h hda_scheme, u8 option \<times> hda_status) state" where
  "FindAfg [] Status = ret (None, Status)"
| "FindAfg (Nid # ns) Status = do {
     FgType \<leftarrow> GetParam Nid 0x05;
     Wp \<leftarrow> Read16 REG_CORBWP;
     let Status = Status\<lparr>StLastFgTypeRaw := FgType, StCorbWpReadback := ucast Wp\<rparr>;
     if FgType AND 0xFF = 0x01 then ret (Some Nid, Status) else FindAfg ns Status }"

text \<open>From the function group on: widgets, routing, and the stream.\<close>
definition InitCodec :: "u8 \<Rightarrow> hda_status \<Rightarrow> ('h hda_scheme, hda_status) state" where
  "InitCodec AfgNid Status = do {
     let Status = Status\<lparr>StAfgFound := True\<rparr>;
     Vendor \<leftarrow> (do { hlog [lit ''HDA: vendor '']; GetParam 0 0x00 });
     base \<leftarrow> ask OutStreamBase;
     hlog [hex0 (ucast Vendor) 8, lit '', out stream base '', hex0 (ucast base) 2, [10]];
     SendVerb AfgNid 0x705 0;
     Wait 20;
     InCaps \<leftarrow> GetParam AfgNid 0x0D;
     change (AfgInAmpCaps_update (\<lambda>_. InCaps));
     OutCaps \<leftarrow> GetParam AfgNid 0x12;
     change (AfgOutAmpCaps_update (\<lambda>_. OutCaps));
     Count \<leftarrow> WalkWidgets AfgNid;
     let Status = Status\<lparr>StWidgetCount := ucast Count\<rparr>;
     ds \<leftarrow> ask Dacs;
     if ds = [] then ret Status else do {
     let Status = Status\<lparr>StDacFound := True\<rparr>;
     first \<leftarrow> RouteOutputPins True;
     routed \<leftarrow> (if snd first = 0 then RouteOutputPins False else ret first);
     if fst routed = 0 then ret Status else do {
     let Status = Status\<lparr>StPinFound := True\<rparr>;
     if snd routed = 0 then ret Status else do {
     let Status = Status\<lparr>StPathLinked := True\<rparr>;
     ConfigureUsedDacs;
     Gpio \<leftarrow> (do { hlog [lit ''HDA: afg gpio '']; GetParam AfgNid 0x11 });
     hlog [hex0 (ucast Gpio) 1, lit '', out amp caps '', hex0 (ucast OutCaps) 1, [10]];
     LogVerify;
     ok \<leftarrow> SetupStream;
     if \<not> ok then ret Status else do {
     change (StreamOk_update (\<lambda>_. True));
     ret (Status\<lparr>StStreamStarted := True, StFound := True\<rparr>) } } } } }"

text \<open>The lowest codec address whose bit is set among the first fifteen; the address stays as it was if
  there is none.\<close>
definition PickCodec :: "u16 \<Rightarrow> u8 \<Rightarrow> u8" where
  "PickCodec States Old = (case find (\<lambda>i. bit States i) [0..<15] of Some i \<Rightarrow> of_nat i | None \<Rightarrow> Old)"

definition HdaInit :: "u32 \<Rightarrow> ('h hda_scheme, hda_status) state" where
  "HdaInit Bar0 = do {
     let Status = status_init;
     change (\<lambda>h. h\<lparr>HdaBase := ucast Bar0\<rparr>);
     Cap \<leftarrow> Read16 REG_GCAP;
     change (\<lambda>h. h\<lparr>OutStreamBase := REG_SD_BASE + (ucast (drop_bit 8 Cap) AND 0xF) * SD_SIZE\<rparr>);
     ok \<leftarrow> ResetController;
     if \<not> ok then ret Status else do {
     Write32 REG_INTCTL 0;
     ok \<leftarrow> SetupCorbRirb;
     if \<not> ok then ret Status else do {
     sizes \<leftarrow> ask (\<lambda>h. (CorbEntries h, RirbEntries h));
     let Status = Status\<lparr>StCorbEntriesUsed := ucast (fst sizes), StRirbEntriesUsed := ucast (snd sizes)\<rparr>;
     Wait 20000;
     States \<leftarrow> Read16 REG_STATESTS;
     if States = 0 then ret Status else do {
     change (\<lambda>h. h\<lparr>CodecAddr := PickCodec States (CodecAddr h)\<rparr>);
     RootNodeCount \<leftarrow> GetParam 0 0x04;
     let FgStart = (ucast (drop_bit 16 RootNodeCount AND 0xFF) :: u8);
     let FgCount = (ucast (RootNodeCount AND 0xFF) :: u8);
     Again \<leftarrow> GetParam 0 0x04;
     Last \<leftarrow> ask LastRirbWp;
     Wp \<leftarrow> Read16 REG_RIRBWP;
     Rp \<leftarrow> Read16 REG_CORBRP;
     Sts \<leftarrow> Read8 REG_CORBSTS;
     let Status = Status\<lparr>StCodecFound := True, StRootFgCount := ucast FgCount, StFgStartNid := ucast FgStart,
       StRepeatSameCallRaw := Again, StWpAfterFirst := ucast Last, StWpBeforeSecond := ucast (Wp AND 0xFF),
       StCorbRpAfterFirst := ucast (Rp AND 0xFF), StCorbSts := ucast Sts\<rparr>;
     found \<leftarrow> FindAfg (map (\<lambda>i. FgStart + of_nat i) [0..<unat FgCount]) Status;
     (case fst found of
        None \<Rightarrow> ret (snd found)
      | Some AfgNid \<Rightarrow> if AfgNid = 0xFF then ret (snd found) else InitCodec AfgNid (snd found)) } } } }"

definition HdaPlayTestTone :: "('h hda_scheme, unit) state" where
  "HdaPlayTestTone = do {
     SdBase \<leftarrow> ask OutStreamBase;
     Write8 (SdBase + SDSTS_OFF) 0x1C;
     SetCtl SDCTL_OFF (\<lambda>v. v OR 0x02);
     Samples \<leftarrow> State_Monad.traverse_list (\<lambda>i. do { Wait 190; Read32 (SdBase + SDLPIB_OFF) }) [0..<8];
     Sts \<leftarrow> Read8 (SdBase + SDSTS_OFF);
     Ctl \<leftarrow> Read8 (SdBase + SDCTL_OFF);
     SetCtl SDCTL_OFF (\<lambda>v. v AND NOT 0x02);
     hlog (lit ''HDA: beep lpib'' # concat (map (\<lambda>s. [lit '' '', dec_text (ucast s)]) Samples) @ [[10]]);
     hlog [lit ''HDA: beep sdsts '', hex0 (ucast Sts) 2, lit '' sdctl '', hex0 (ucast Ctl) 2, [10]] }"

section \<open>What the operations change\<close>

text \<open>The state without the bus and the positions in the command rings: all that talking to the codec
  changes.\<close>
definition off_bus :: "'h hda_scheme \<Rightarrow> 'h hda_scheme" where
  "off_bus h = h\<lparr>HdaBus := \<lparr>Respond = (\<lambda>_. 0), Trace = []\<rparr>, RirbReadPos := 0, LastRirbWp := 0, HdaStuck := False, CorbWritePos := 0\<rparr>"

lemma bus_changes [quiet]:
  "frames (same off_bus) (hda_read w a)" "frames (same off_bus) (hda_write w a v)" "frames (same off_bus) (Wait n)"
  unfolding hda_read_def hda_write_def Wait_def
  by (rule same_state same_change, auto simp: off_bus_def split: prod.splits)+

lemma ring_changes [quiet]:
  "frames (same off_bus) (change (\<lambda>h. h\<lparr>RirbReadPos := f h\<rparr>))" "frames (same off_bus) (change (LastRirbWp_update g))"
  "frames (same off_bus) (change (HdaStuck_update i))" "frames (same off_bus) (change (CorbWritePos_update k))"
  by (rule same_change, simp add: off_bus_def)+

lemma register_changes [quiet]:
  "frames (same off_bus) (Read8 r)" "frames (same off_bus) (Read16 r)" "frames (same off_bus) (Read32 r)"
  "frames (same off_bus) (Write8 r x)" "frames (same off_bus) (Write16 r y)" "frames (same off_bus) (Write32 r z)"
  unfolding Read8_def Read16_def Read32_def Write8_def Write16_def Write32_def by (intro quiet)+

lemma RirbLoop_quiet [quiet]: "frames (same off_bus) (RirbLoop n Wp)"
  by (induction n) (auto intro!: quiet)

lemma ResponseLoop_quiet [quiet]: "frames (same off_bus) (ResponseLoop n)"
  by (induction n) (auto intro!: quiet)

lemma SendVerb_quiet [quiet]: "frames (same off_bus) (SendVerb Nid Verb Payload)"
  unfolding SendVerb_def by (intro quiet)

lemma engine_quiet [quiet]:
  "frames (same off_bus) (SetCtl Off f)" "frames (same off_bus) (WaitCtl Bits Up)" "frames (same off_bus) PulseReset"
  "frames (same off_bus) SetStreamTag" "frames (same off_bus) ResetStreamEngine"
  unfolding SetCtl_def WaitCtl_def PulseReset_def SetStreamTag_def ResetStreamEngine_def
  by (intro quiet | simp only: SetCtl_def WaitCtl_def PulseReset_def)+

lemma ProgramStream_quiet [quiet]: "frames (same off_bus) (ProgramStream Bdl n i Format)"
  unfolding ProgramStream_def by (intro quiet)
lemma off_busD:
  assumes "off_bus h' = off_bus h"
  shows "PlayFilled h' = PlayFilled h" "PlayHwTotal h' = PlayHwTotal h" "PlayLastHw h' = PlayLastHw h"
    "PlayStarted h' = PlayStarted h" "PlayActive h' = PlayActive h" "PlayAllocated h' = PlayAllocated h"
    "PlayPages h' = PlayPages h" "PlayBdl h' = PlayBdl h" "DmaSamples h' = DmaSamples h" "StreamOk h' = StreamOk h"
    "Phys h' = Phys h" "Volumes h' = Volumes h" "hda.more h' = hda.more h"
  using assms [THEN arg_cong [where f = PlayFilled]] assms [THEN arg_cong [where f = PlayHwTotal]]
    assms [THEN arg_cong [where f = PlayLastHw]] assms [THEN arg_cong [where f = PlayStarted]]
    assms [THEN arg_cong [where f = PlayActive]] assms [THEN arg_cong [where f = PlayAllocated]]
    assms [THEN arg_cong [where f = PlayPages]] assms [THEN arg_cong [where f = PlayBdl]]
    assms [THEN arg_cong [where f = DmaSamples]] assms [THEN arg_cong [where f = StreamOk]]
    assms [THEN arg_cong [where f = Phys]] assms [THEN arg_cong [where f = Volumes]]
    assms [THEN arg_cong [where f = hda.more]]
  by (simp_all add: off_bus_def)

section \<open>The position\<close>

definition lpib :: "'h hda_scheme \<Rightarrow> u64" where
  "lpib h = HdaBase h + ucast (OutStreamBase h + SDLPIB_OFF)"

text \<open>What the position register is documented to do: it gives the place in the ring, \<open>played\<close> being the
  pages the controller has fetched since the stream was started.\<close>
definition plays :: "(access list \<Rightarrow> nat) \<Rightarrow> 'h hda_scheme \<Rightarrow> bool" where
  "plays played h \<longleftrightarrow> (\<forall>t. let t = t @ [Rd 4 (lpib h)] in
     \<exists>r < 4096. unat (take_bit 32 (Respond (HdaBus h) t)) = played t mod 32 * 4096 + r)"

text \<open>The counters of the driver stand for \<open>n\<close> pages.\<close>
definition tracks :: "nat \<Rightarrow> 'h hda_scheme \<Rightarrow> bool" where
  "tracks n h \<longleftrightarrow> PlayHwTotal h = of_nat n \<and> unat (PlayLastHw h) = n mod 32"

lemma page_sizes [simp]: "unat (of_nat HDA_STREAM_PAGE_BYTES :: u32) = 4096" "unat (of_nat PLAY_PAGES :: u32) = 32"
  by (simp_all add: HDA_STREAM_PAGE_BYTES_def PLAY_PAGES_def)

lemma look:
  assumes "run_state UpdatePlayPosition h = (x, h')" "PlayStarted h"
  obtains v where "v = take_bit 32 (Respond (HdaBus h) (Trace (HdaBus h) @ [Rd 4 (lpib h)]))"
    and "off_bus h' = off_bus (let Hw = ucast v div 4096; Hw = (if Hw \<ge> 32 then 31 else Hw)
       in h\<lparr>PlayHwTotal := PlayHwTotal h + (Hw + 32 - PlayLastHw h) mod 32, PlayLastHw := Hw\<rparr>)"
  using assms that
  by (auto simp: UpdatePlayPosition_def Read32_def hda_read_def bus_read_def off_bus_def lpib_def Let_def
      HDA_STREAM_PAGE_BYTES_def PLAY_PAGES_def split: prod.splits)

lemma ring_advance:
  assumes "n \<le> m" "m < n + 32" "unat (L :: u32) = n mod 32" "unat (H :: u32) = m mod 32"
  shows "(H + 32 - L) mod 32 = of_nat (m - n)"
proof -
  have lt: "unat L < 32" "unat H < 32" unfolding assms(3,4) by simp_all
  have "unat (H + 32 - L) = unat H + 32 - unat L"
    using lt by (subst unat_sub_nowrap) (simp_all add: word_le_nat_alt unat_add_nowrap)
  then have "unat ((H + 32 - L) mod 32) = (m mod 32 + 32 - n mod 32) mod 32"
    by (simp add: unat_mod_word assms(3,4))
  also have "\<dots> = m - n"
  proof -
    have "int ((m mod 32 + 32 - n mod 32) mod 32) = (int m mod 32 + 32 - int n mod 32) mod 32"
      by (simp add: of_nat_diff zmod_int trans_le_add2)
    also have "\<dots> = (int m mod 32 - int n mod 32 + 32) mod 32" by (simp add: algebra_simps)
    also have "\<dots> = (int m - int n) mod 32" by (simp only: mod_add_self2 mod_diff_eq)
    also have "\<dots> = int m - int n" using assms(1,2) by (simp add: mod_pos_pos_trivial)
    finally show ?thesis using assms(1) by linarith
  qed
  finally have "of_nat (unat ((H + 32 - L) mod 32)) = (of_nat (m - n) :: u32)" by (rule arg_cong)
  then show ?thesis by simp
qed

text \<open>The driver knows the true position of the controller: if the controller fetched less than one
  turn of the ring since the driver last looked, then after a look the page total and the last position
  agree with the number of pages really fetched, however many turns there have been, wrap of the 32-bit
  total included.\<close>
lemma position_tracked:
  assumes "plays played h" "PlayStarted h" "tracks n h"
    and "n \<le> played (Trace (HdaBus h) @ [Rd 4 (lpib h)])" "played (Trace (HdaBus h) @ [Rd 4 (lpib h)]) < n + 32"
    and "run_state UpdatePlayPosition h = (x, h')"
  shows "tracks (played (Trace (HdaBus h) @ [Rd 4 (lpib h)])) h'"
proof -
  let ?t = "Trace (HdaBus h) @ [Rd 4 (lpib h)]"
  obtain v where v: "v = take_bit 32 (Respond (HdaBus h) ?t)"
    and h': "off_bus h' = off_bus (let Hw = ucast v div 4096; Hw = (if Hw \<ge> 32 then 31 else Hw)
       in h\<lparr>PlayHwTotal := PlayHwTotal h + (Hw + 32 - PlayLastHw h) mod 32, PlayLastHw := Hw\<rparr>)"
    using assms(6,2) by (rule look)
  obtain r where r: "r < 4096" "unat v = played ?t mod 32 * 4096 + r"
    using assms(1) unfolding plays_def Let_def v by blast
  let ?Hw = "ucast v div 4096 :: u32"
  have "played ?t mod 32 \<le> 31" by simp
  with r have "unat v < 2 ^ 32" by simp
  then have "unat (ucast v :: u32) = unat v" by (simp add: unsigned_ucast_eq take_bit_nat_eq_self)
  then have Hw: "unat ?Hw = played ?t mod 32" using r by (simp add: unat_div_word)
  then have "\<not> ?Hw \<ge> 32" by (simp add: word_le_nat_alt not_le)
  then have cut: "(if ?Hw \<ge> 32 then 31 else ?Hw) = ?Hw" by simp
  have L: "unat (PlayLastHw h) = n mod 32" and T: "PlayHwTotal h = of_nat n" using assms(3) by (simp_all add: tracks_def)
  have "of_nat n + (of_nat (played ?t - n) :: u32) = of_nat (played ?t)"
    using assms(4) by (simp flip: of_nat_add)
  with off_busD(2,3) [OF h'] ring_advance [OF assms(4,5) L Hw] show ?thesis
    by (simp add: tracks_def Let_def cut Hw T)
qed
text \<open>A controller that fetches a page at every access, and a machine with its stream running.\<close>
definition demo_bus :: bus where
  "demo_bus = \<lparr>Respond = (\<lambda>t. of_nat (length t mod 32 * 4096)), Trace = []\<rparr>"

definition demo_hda :: hda where
  "demo_hda = filesys.extend small_fs (hda.fields demo_bus 0 0 0 256 256 0 0 0 False 0 0x80 True 0 0 [] [] [] []
     0 0 (\<lambda>_. []) [] 0 False False True 0 0 0)"

lemma demo_hda_fields [simp]:
  "HdaBus demo_hda = demo_bus" "HdaBase demo_hda = 0" "OutStreamBase demo_hda = 0x80" "PlayStarted demo_hda = True"
  "PlayHwTotal demo_hda = 0" "PlayLastHw demo_hda = 0" "StreamOk demo_hda" "PlayActive demo_hda = False"
  "PlayAllocated demo_hda = False" "Phys demo_hda = Phys small_fs" "PlayPages demo_hda = []"
  by (simp_all add: demo_hda_def filesys.defs hda.defs)

lemma demo_plays: "plays length demo_hda"
proof -
  have small: "unat (take_bit 32 (of_nat k :: u64)) = k" if "k < 2 ^ 32" for k
  proof -
    from that have "unat (of_nat k :: u64) = k" by (intro unat_of_nat_small) simp
    then show ?thesis using that by (simp only: unsigned_take_bit_eq take_bit_nat_eq_self)
  qed
  have "unat (take_bit 32 (of_nat (n mod 32 * 4096) :: u64)) = n mod 32 * 4096" for n
    by (rule small) (use mod_less_divisor [of 32 n] in simp)
  then show ?thesis by (auto simp: plays_def demo_bus_def Let_def intro!: exI [of _ 0])
qed

section \<open>Memory\<close>

text \<open>The pages taken so far, as page numbers: what was free and is not free now.\<close>
definition taken :: "u64 set \<Rightarrow> pmm \<Rightarrow> u64 list \<Rightarrow> bool" where
  "taken F s ps \<longleftrightarrow> pmm_ok s \<and> distinct ps \<and> set ps \<subseteq> F \<and> free_set s = F - set ps \<and> (\<forall>p \<in> F. 256 \<le> p \<and> p < TotalPages s)"

definition page_address :: "u64 \<Rightarrow> u64" where "page_address p = p * PAGE_SIZE"

lemma taken_start: "pmm_ok s \<Longrightarrow> taken (free_set s) s []"
  by (auto simp: taken_def free_set_def pmm_ok_def intro: leI)

lemma taken_perm: "taken F s ps \<Longrightarrow> mset qs = mset ps \<Longrightarrow> taken F s qs"
  unfolding taken_def by (metis mset_eq_setD mset_eq_imp_distinct_iff)

lemma taken_alloc:
  assumes "taken F s ps" "AllocPageBelow4G s = (a, s')"
  shows "if a = 0 then s' = s else \<exists>p. a = page_address p \<and> taken F s' (ps @ [p])"
proof (cases "a = 0")
  case True
  have ok: "pmm_ok s" using assms(1) by (simp add: taken_def)
  from alloc_contract [OF ok, of True a s'] assms(2) True show ?thesis by (auto simp: alloc_eq split: if_splits)
next
  case False
  have ok: "pmm_ok s" using assms(1) by (simp add: taken_def)
  have run: "alloc True s = (a, s')" using assms(2) by (simp add: alloc_eq)
  obtain p where p: "a = p * PAGE_SIZE" "p \<in> free_set s" "free_set s' = free_set s - {p}" "TotalPages s' = TotalPages s"
    using alloc_free_set [OF run False] by metis
  from alloc_contract [OF ok run] have "pmm_ok s'" by blast
  with p assms(1) have "taken F s' (ps @ [p])" by (auto simp: taken_def)
  with p(1) False show ?thesis by (auto simp: page_address_def)
qed

lemma taken_free:
  assumes "taken F s (p # ps)"
  shows "taken F (FreePage (page_address p) s) ps"
proof -
  have ok: "pmm_ok s" and p: "p \<in> F" "p < TotalPages s" "p \<notin> free_set s" "p \<notin> set ps" "256 \<le> p"
    and rest: "distinct ps" "set ps \<subseteq> F" "free_set s = F - insert p (set ps)" "\<forall>p \<in> F. 256 \<le> p \<and> p < TotalPages s"
    using assms by (auto simp: taken_def)
  have bit: "TestBit s p" using p(2,3) by (simp add: free_set_def)
  have T: "TotalPages s \<le> 2 ^ 52" using ok by (simp add: pmm_ok_def)
  note F = FreePage_set [OF bit p(2) T]
  have "owned_ok s {p * PAGE_SIZE}" using p(2,5) bit by (auto simp: owned_ok_def)
  then have "pmm_ok (FreePage (p * PAGE_SIZE) s)" by (rule free_owned(1) [OF ok]) simp
  moreover have "insert p (F - insert p (set ps)) = F - set ps" using p(1,4) by auto
  ultimately show ?thesis using rest F(1,3) by (simp add: taken_def page_address_def)
qed
lemma FreeAll:
  "taken F (Phys h) (ps @ qs) \<Longrightarrow> run_state (each (map page_address ps) FreeLow) h = (x, h') \<Longrightarrow>
   taken F (Phys h') qs \<and> h' = h\<lparr>Phys := Phys h'\<rparr>"
proof (induction ps arbitrary: h)
  case (Cons p ps)
  have "taken F (Phys (h\<lparr>Phys := FreePage (page_address p) (Phys h)\<rparr>)) (ps @ qs)"
    using taken_free [of F "Phys h" p "ps @ qs"] Cons.prems(1) by simp
  from Cons.IH [OF this] Cons.prems(2) show ?case by (simp add: FreeLow_def)
qed simp

text \<open>What the allocation loop brings: the ring grows by pages that were free, and it stops short only
  when there is none left below 4 GB.\<close>
lemma AllocPlayPages_takes:
  "taken F (Phys h) ps \<Longrightarrow> run_state (AllocPlayPages n) h = (x, h') \<Longrightarrow>
   \<exists>qs. taken F (Phys h') (ps @ qs) \<and> PlayPages h' = PlayPages h @ map page_address qs \<and> length qs \<le> n \<and>
     h' = h\<lparr>Phys := Phys h', PlayPages := PlayPages h'\<rparr>"
proof (induction n arbitrary: h ps)
  case 0
  then show ?case by (intro exI [of _ "[]"]) simp
next
  case (Suc n)
  obtain a s where al: "AllocPageBelow4G (Phys h) = (a, s)" by (cases "AllocPageBelow4G (Phys h)")
  note t = taken_alloc [OF Suc.prems(1) al]
  show ?case
  proof (cases "a = 0")
    case True
    with t Suc.prems al show ?thesis by (intro exI [of _ "[]"]) (simp add: AllocLow_def)
  next
    case False
    with t obtain p where p: "a = page_address p" "taken F s (ps @ [p])" by auto
    let ?h = "h\<lparr>Phys := s, PlayPages := PlayPages h @ [a]\<rparr>"
    have run: "run_state (AllocPlayPages n) ?h = (x, h')" using Suc.prems(2) al False by (simp add: AllocLow_def)
    have "taken F (Phys ?h) (ps @ [p])" using p(2) by simp
    from Suc.IH [OF this run] obtain qs where qs: "taken F (Phys h') ((ps @ [p]) @ qs)"
      "PlayPages h' = PlayPages ?h @ map page_address qs" "length qs \<le> n"
      "h' = ?h\<lparr>Phys := Phys h', PlayPages := PlayPages h'\<rparr>" by blast
    from qs(4) have "h' = h\<lparr>Phys := Phys h', PlayPages := PlayPages h'\<rparr>" by simp
    with qs(1-3) p(1) show ?thesis by (intro exI [of _ "p # qs"]) simp
  qed
qed
lemma AllocRing_outcome:
  assumes ok: "pmm_ok (Phys h)" and run: "run_state AllocRing h = (got, h')"
  shows "if got then \<exists>b qs. taken (free_set (Phys h)) (Phys h') (b # qs) \<and> length qs = PLAY_PAGES \<and>
      PlayPages h' = map page_address qs \<and> PlayBdl h' = page_address b \<and> PlayAllocated h'
    else pmm_ok (Phys h') \<and> free_set (Phys h') = free_set (Phys h) \<and> PlayAllocated h' = PlayAllocated h"
proof -
  let ?F = "free_set (Phys h)"
  obtain b s where al: "AllocPageBelow4G (Phys h) = (b, s)" by (cases "AllocPageBelow4G (Phys h)")
  note t = taken_alloc [OF taken_start [OF ok] al]
  let ?h = "h\<lparr>Phys := s, PlayBdl := b, PlayPages := []\<rparr>"
  show ?thesis
  proof (cases "b = 0")
    case True
    with t run al ok show ?thesis by (auto simp: AllocRing_def AllocLow_def)
  next
    case False
    with t obtain p where p: "b = page_address p" "taken ?F (Phys ?h) [p]" by auto
    obtain u g where more: "run_state (AllocPlayPages PLAY_PAGES) ?h = (u, g)"
      by (cases "run_state (AllocPlayPages PLAY_PAGES) ?h")
    from AllocPlayPages_takes [OF p(2) more] obtain qs where qs: "taken ?F (Phys g) (p # qs)"
      "PlayPages g = map page_address qs" "length qs \<le> PLAY_PAGES" "g = ?h\<lparr>Phys := Phys g, PlayPages := PlayPages g\<rparr>"
      by auto
    have g: "PlayBdl g = b" "PlayAllocated g = PlayAllocated h" by (subst qs(4), simp)+
    show ?thesis
    proof (cases "length qs < PLAY_PAGES")
      case False
      with qs(3) have "length qs = PLAY_PAGES" by simp
      with run al \<open>b \<noteq> 0\<close> more qs(2) have "got \<and> h' = g\<lparr>PlayAllocated := True\<rparr>"
        by (auto simp: AllocRing_def AllocLow_def)
      with qs(1,2) p(1) g(1) \<open>length qs = PLAY_PAGES\<close> show ?thesis
        by simp (rule exI [of _ p], rule exI [of _ qs], simp)
    next
      case True
      obtain w k where fr: "run_state (each (map page_address qs) FreeLow) g = (w, k)"
        by (cases "run_state (each (map page_address qs) FreeLow) g")
      have "taken ?F (Phys g) (qs @ [p])" using qs(1) by (rule taken_perm) simp
      from FreeAll [OF this fr] have k: "taken ?F (Phys k) [p]" "k = g\<lparr>Phys := Phys k\<rparr>" by blast+
      have "PlayAllocated k = PlayAllocated h" by (subst k(2)) (simp add: g)
      moreover have "taken ?F (FreePage b (Phys k)) []" using taken_free [OF k(1)] p(1) by simp
      moreover have "got = False \<and> h' = k\<lparr>Phys := FreePage b (Phys k), PlayBdl := 0\<rparr>"
        using run al \<open>b \<noteq> 0\<close> more qs(2) True fr by (auto simp: AllocRing_def AllocLow_def FreeLow_def)
      ultimately show ?thesis by (auto simp: taken_def)
    qed
  qed
qed

text \<open>Preparing the slots of the ring changes the bus and the samples.\<close>
definition off_dma :: "'h hda_scheme \<Rightarrow> 'h hda_scheme" where
  "off_dma h = (off_bus h)\<lparr>DmaSamples := (\<lambda>_. [])\<rparr>"

lemma bus_dma: "frames (same off_bus) m \<Longrightarrow> frames (same off_dma) m"
  by (rule framesI [OF same_rel]) (auto simp: same_def off_dma_def dest: sameD)

lemma ClearSlot_quiet [quiet]: "frames (same off_dma) (ClearSlot i)"
  unfolding ClearSlot_def
  by (intro quiet bus_changes [THEN bus_dma] same_change) (simp add: off_dma_def off_bus_def)

lemma ClearSlots_quiet [quiet]: "frames (same off_dma) (each is ClearSlot)"
  by (intro quiet)

lemma off_dma_update:
  "off_dma h' = off_dma h \<Longrightarrow>
   off_dma (h'\<lparr>PlayFilled := a, PlayHwTotal := b, PlayLastHw := c, PlayStarted := d, PlayActive := e\<rparr>) =
   off_dma (h\<lparr>PlayFilled := a, PlayHwTotal := b, PlayLastHw := c, PlayStarted := d, PlayActive := e\<rparr>)"
proof -
  have "off_dma (h\<lparr>PlayFilled := a, PlayHwTotal := b, PlayLastHw := c, PlayStarted := d, PlayActive := e\<rparr>) =
      (off_dma h)\<lparr>PlayFilled := a, PlayHwTotal := b, PlayLastHw := c, PlayStarted := d, PlayActive := e\<rparr>" for h :: "'a hda_scheme"
    by (simp add: off_dma_def off_bus_def)
  then show "off_dma h' = off_dma h \<Longrightarrow> ?thesis" by simp
qed

lemma page_address_inj: "inj_on page_address {p. p < 2 ^ 52}"
  by (rule inj_onI) (metis mem_Collect_eq page_addr_div page_address_def)
text \<open>The pages of the ring are different pages of memory.\<close>
definition ring_ready :: "'h hda_scheme \<Rightarrow> bool" where
  "ring_ready h \<longleftrightarrow> length (PlayPages h) = PLAY_PAGES \<and> distinct (PlayPages h) \<and> 0 \<notin> set (PlayPages h)"

lemma taken_ring:
  assumes "taken F s (b # qs)" "length qs = PLAY_PAGES" "PlayPages h = map page_address qs"
  shows "ring_ready h" "page_address b \<notin> set (PlayPages h)"
proof -
  have lt: "q < 2 ^ 52" if "q \<in> set (b # qs)" for q
  proof -
    have "q < TotalPages s" "TotalPages s \<le> 2 ^ 52" using assms(1) that by (auto simp: taken_def pmm_ok_def)
    then show ?thesis by (rule less_le_trans)
  qed
  then have "set (b # qs) \<subseteq> {q. q < 2 ^ 52}" by blast
  then have inj: "inj_on page_address (set (b # qs))" by (rule inj_on_subset [OF page_address_inj])
  have "page_address q \<noteq> 0" if q: "q \<in> set qs" for q
  proof -
    have "256 \<le> q" using assms(1) q by (auto simp: taken_def)
    moreover have "unat (page_address q) = unat q * 4096"
      unfolding page_address_def by (rule page_addr) (rule lt, simp add: q)
    ultimately show ?thesis by (auto simp: word_le_nat_alt word_eq_0_iff_unat)
  qed
  moreover have "distinct (b # qs)" using assms(1) by (simp add: taken_def)
  ultimately show "ring_ready h" "page_address b \<notin> set (PlayPages h)"
    using inj assms(2) by (auto simp: ring_ready_def assms(3) distinct_map)
qed

lemma OpenTail_outcome:
  assumes run: "run_state (OpenTail Format) h = (x, h')"
  shows "x = 1 \<and> off_dma h' = off_dma (h\<lparr>PlayFilled := 0, PlayHwTotal := 0, PlayLastHw := 0, PlayStarted := False, PlayActive := True\<rparr>)"
proof -
  let ?P = "\<lambda>g. ProgramStream (PlayBdl g) (of_nat (PLAY_PAGES * HDA_STREAM_PAGE_BYTES)) (of_nat PLAY_PAGES - 1) Format"
  obtain u g where g: "run_state (each [0..<PLAY_PAGES] ClearSlot) h = (u, g)" by (cases "run_state (each [0..<PLAY_PAGES] ClearSlot) h")
  obtain w k where k: "run_state (?P g) g = (w, k)" by (cases "run_state (?P g) g")
  from sameD [OF ClearSlots_quiet g] sameD [OF ProgramStream_quiet k] have "off_dma k = off_dma h" by (simp add: off_dma_def)
  from off_dma_update [OF this] run g k show ?thesis by (auto simp: OpenTail_def)
qed

lemma off_dmaD:
  assumes "off_dma h' = off_dma h"
  shows "PlayFilled h' = PlayFilled h" "PlayHwTotal h' = PlayHwTotal h" "PlayLastHw h' = PlayLastHw h"
    "PlayStarted h' = PlayStarted h" "PlayActive h' = PlayActive h" "PlayAllocated h' = PlayAllocated h"
    "PlayPages h' = PlayPages h" "PlayBdl h' = PlayBdl h" "StreamOk h' = StreamOk h"
    "Phys h' = Phys h" "Volumes h' = Volumes h" "hda.more h' = hda.more h"
  using assms [THEN arg_cong [where f = PlayFilled]] assms [THEN arg_cong [where f = PlayHwTotal]]
    assms [THEN arg_cong [where f = PlayLastHw]] assms [THEN arg_cong [where f = PlayStarted]]
    assms [THEN arg_cong [where f = PlayActive]] assms [THEN arg_cong [where f = PlayAllocated]]
    assms [THEN arg_cong [where f = PlayPages]] assms [THEN arg_cong [where f = PlayBdl]]
    assms [THEN arg_cong [where f = StreamOk]]
    assms [THEN arg_cong [where f = Phys]] assms [THEN arg_cong [where f = Volumes]]
    assms [THEN arg_cong [where f = hda.more]]
  by (simp_all add: off_dma_def off_bus_def)

lemma HdaStreamOpen_split:
  "run_state (HdaStreamOpen Rate) h =
     (if \<not> StreamOk h \<or> PlayActive h then (HDA_STREAM_ERR_UNAVAILABLE, h)
      else if FormatForRate Rate = 0 then (HDA_STREAM_ERR_RATE, h)
      else case (if PlayAllocated h then (True, h) else run_state AllocRing h) of (got, g) \<Rightarrow>
        if got then run_state (OpenTail (FormatForRate Rate)) g else (HDA_STREAM_ERR_MEMORY, g))"
  by (simp add: HdaStreamOpen_def split: prod.split)

lemma HdaStreamOpen_outcome:
  assumes "pmm_ok (Phys h)" "run_state (HdaStreamOpen Rate) h = (c, h')"
  shows "pmm_ok (Phys h') \<and>
    (if c \<noteq> 1 then free_set (Phys h') = free_set (Phys h)
     else if PlayAllocated h then Phys h' = Phys h \<and> PlayPages h' = PlayPages h
     else ring_ready h' \<and> PlayBdl h' \<notin> set (PlayPages h') \<and>
       (\<exists>ps. distinct ps \<and> set ps \<subseteq> free_set (Phys h) \<and> free_set (Phys h') = free_set (Phys h) - set ps \<and>
         map page_address ps = PlayBdl h' # PlayPages h'))"
proof (cases "\<not> StreamOk h \<or> PlayActive h \<or> FormatForRate Rate = 0")
  case True
  then have "run_state (HdaStreamOpen Rate) h \<in> {(HDA_STREAM_ERR_UNAVAILABLE, h), (HDA_STREAM_ERR_RATE, h)}"
    unfolding HdaStreamOpen_split by auto
  then have "c \<noteq> 1 \<and> h' = h"
    unfolding assms(2) by (auto simp: HDA_STREAM_ERR_UNAVAILABLE_def HDA_STREAM_ERR_RATE_def)
  with assms(1) show ?thesis by simp
next
  case go: False
  show ?thesis
  proof (cases "PlayAllocated h")
    case True
    with go have "run_state (OpenTail (FormatForRate Rate)) h = (c, h')"
      using assms(2) by (simp add: HdaStreamOpen_split)
    from OpenTail_outcome [OF this] have c: "c = 1"
      and h': "off_dma h' = off_dma (h\<lparr>PlayFilled := 0, PlayHwTotal := 0, PlayLastHw := 0, PlayStarted := False, PlayActive := True\<rparr>)"
      by blast+
    from off_dmaD(7,10) [OF h'] have "Phys h' = Phys h" "PlayPages h' = PlayPages h" by simp_all
    with True assms(1) c show ?thesis by simp
  next
    case new: False
    obtain got g where ring: "run_state AllocRing h = (got, g)" by (cases "run_state AllocRing h")
    note out = AllocRing_outcome [OF assms(1) ring]
    show ?thesis
    proof (cases got)
      case False
      with go new assms(2) ring have "c = HDA_STREAM_ERR_MEMORY" "h' = g" by (simp_all add: HdaStreamOpen_split)
      with out False show ?thesis by (simp add: HDA_STREAM_ERR_MEMORY_def)
    next
      case True
      with out obtain b qs where t: "taken (free_set (Phys h)) (Phys g) (b # qs)" "length qs = PLAY_PAGES"
        "PlayPages g = map page_address qs" "PlayBdl g = page_address b" by auto
      have "run_state (OpenTail (FormatForRate Rate)) g = (c, h')"
        using go new assms(2) ring True by (simp add: HdaStreamOpen_split)
      from OpenTail_outcome [OF this] have c: "c = 1"
        and h': "off_dma h' = off_dma (g\<lparr>PlayFilled := 0, PlayHwTotal := 0, PlayLastHw := 0, PlayStarted := False, PlayActive := True\<rparr>)"
        by blast+
      note f = off_dmaD(7,8,10) [OF h', simplified]
      have "ring_ready h'" "PlayBdl h' \<notin> set (PlayPages h')"
        using taken_ring [OF t(1,2), of h'] by (simp_all add: f t(3,4))
      moreover have "distinct (b # qs) \<and> set (b # qs) \<subseteq> free_set (Phys h) \<and>
          free_set (Phys h') = free_set (Phys h) - set (b # qs) \<and> map page_address (b # qs) = PlayBdl h' # PlayPages h'"
        using t by (simp add: taken_def f)
      then have "\<exists>ps. distinct ps \<and> set ps \<subseteq> free_set (Phys h) \<and> free_set (Phys h') = free_set (Phys h) - set ps \<and>
         map page_address ps = PlayBdl h' # PlayPages h'" by (rule exI)
      moreover have "pmm_ok (Phys h')" using t(1) by (simp add: taken_def f)
      ultimately show ?thesis using c new by simp
    qed
  qed
qed

text \<open>Opening the stream takes memory all or nothing: when it fails, for lack of memory or any other
  reason, exactly the pages that were free before are free again; when it succeeds for the first time it
  holds 33 different pages that were free, the descriptor page and the 32 of the ring; and a later
  success takes none.\<close>
theorem HdaStreamOpen_memory:
  assumes "pmm_ok (Phys h)" "run_state (HdaStreamOpen Rate) h = (c, h')"
  shows "pmm_ok (Phys h') \<and>
    (if c \<noteq> 1 then free_set (Phys h') = free_set (Phys h)
     else if PlayAllocated h then Phys h' = Phys h \<and> PlayPages h' = PlayPages h
     else ring_ready h' \<and> PlayBdl h' \<notin> set (PlayPages h') \<and>
       (\<exists>ps. distinct ps \<and> set ps \<subseteq> free_set (Phys h) \<and> free_set (Phys h') = free_set (Phys h) - set ps \<and>
         map page_address ps = PlayBdl h' # PlayPages h'))"
  by (rule HdaStreamOpen_outcome [OF assms])
text \<open>On a machine with one free page the ring cannot be had, and the page is free again.\<close>
lemma HdaStreamOpen_memory_witness:
  "\<exists>c h'. run_state (HdaStreamOpen 44100) demo_hda = (c, h') \<and> c = HDA_STREAM_ERR_MEMORY \<and>
     free_set (Phys h') = free_set one_page"
proof -
  obtain c h' where run: "run_state (HdaStreamOpen 44100) demo_hda = (c, h')" by (cases "run_state (HdaStreamOpen 44100) demo_hda")
  have mem: "Phys demo_hda = one_page" by (simp add: small_fs_def)
  have ok: "pmm_ok (Phys demo_hda)" unfolding mem by (rule one_page_ok)
  note out = HdaStreamOpen_memory [OF ok run]
  have "c \<noteq> 1"
  proof
    assume "c = 1"
    with out have ready: "ring_ready h'" and "\<exists>ps. distinct ps \<and> set ps \<subseteq> free_set one_page \<and>
        free_set (Phys h') = free_set one_page - set ps \<and> map page_address ps = PlayBdl h' # PlayPages h'"
      unfolding mem by simp_all
    from this(2) obtain ps where ps: "distinct ps" "set ps \<subseteq> free_set one_page" "map page_address ps = PlayBdl h' # PlayPages h'"
      by (elim exE conjE)
    have "card (free_set one_page) = 1" using one_page_ok by (simp add: pmm_ok_def) (simp add: one_page_def)
    with ps(1,2) have "length ps \<le> 1" by (metis card_mono distinct_card finite)
    moreover have "length ps = 33" using arg_cong [OF ps(3), of length] ready by (simp add: ring_ready_def PLAY_PAGES_def)
    ultimately show False by simp
  qed
  moreover have "c \<in> {1, HDA_STREAM_ERR_MEMORY}"
    using run OpenTail_outcome by (auto simp: HdaStreamOpen_split FormatForRate_def split: if_splits prod.splits)
  ultimately show ?thesis using run out by (simp add: mem [simplified])
qed

section \<open>The formats\<close>

text \<open>What a stream format means: the base rate, its multiplier and divisor, the bits of a sample and the
  channels.\<close>
definition format_rate :: "u16 \<Rightarrow> int \<times> int \<times> int" where
  "format_rate f = ((if bit f 14 then 44100 else 48000) * (uint (drop_bit 11 f AND 7) + 1) div (uint (drop_bit 8 f AND 7) + 1),
     [8, 16, 20, 24, 32] ! unat (drop_bit 4 f AND 7), uint (f AND 15) + 1)"

definition stream_rates :: "u32 list" where
  "stream_rates = [8000, 11025, 12000, 16000, 22050, 24000, 32000, 44100, 48000, 88200, 96000, 176400, 192000]"

lemma FormatForRate_supported: "FormatForRate Rate \<noteq> 0 \<longleftrightarrow> Rate \<in> set stream_rates"
  by (simp add: FormatForRate_def stream_rates_def)

lemma format_each: "list_all (\<lambda>r. format_rate (FormatForRate r) = (uint r, 16, 2)) stream_rates"
  by code_simp

text \<open>A sample rate is accepted exactly if it is one of the thirteen of the table, and then the format
  word programmed into the stream and the converters means that rate, 16-bit samples and two channels.\<close>
theorem FormatForRate_correct:
  "if Rate \<in> set stream_rates then FormatForRate Rate \<noteq> 0 \<and> format_rate (FormatForRate Rate) = (uint Rate, 16, 2)
   else FormatForRate Rate = 0"
  using FormatForRate_supported [of Rate] format_each by (auto simp: list_all_iff)
section \<open>Handing out pages\<close>

text \<open>Looking at the position changes the bus and the two counters.\<close>
definition off_pos :: "'h hda_scheme \<Rightarrow> 'h hda_scheme" where
  "off_pos h = (off_bus h)\<lparr>PlayHwTotal := 0, PlayLastHw := 0\<rparr>"

lemma bus_pos: "frames (same off_bus) m \<Longrightarrow> frames (same off_pos) m"
  by (rule framesI [OF same_rel]) (auto simp: same_def off_pos_def dest: sameD)

lemmas register_pos [quiet] = register_changes [THEN bus_pos]

lemma position_pos [quiet]: "frames (same off_pos) (change (\<lambda>h. h\<lparr>PlayHwTotal := f h, PlayLastHw := g h\<rparr>))"
  by (rule same_change) (simp add: off_pos_def off_bus_def)

lemma UpdatePlayPosition_quiet [quiet]: "frames (same off_pos) UpdatePlayPosition"
  unfolding UpdatePlayPosition_def Let_def by (intro quiet)

lemma NextPage_quiet [quiet]: "frames (same off_pos) HdaStreamNextPage"
  unfolding HdaStreamNextPage_def by (intro quiet)

lemma Played_quiet [quiet]: "frames (same off_pos) HdaStreamPlayed"
  unfolding HdaStreamPlayed_def by (intro quiet)

lemma off_posD:
  assumes "off_pos h' = off_pos h"
  shows "PlayFilled h' = PlayFilled h" "PlayStarted h' = PlayStarted h" "PlayActive h' = PlayActive h"
    "PlayAllocated h' = PlayAllocated h" "PlayPages h' = PlayPages h" "PlayBdl h' = PlayBdl h"
    "DmaSamples h' = DmaSamples h" "StreamOk h' = StreamOk h" "Phys h' = Phys h"
  using assms [THEN arg_cong [where f = PlayFilled]]
    assms [THEN arg_cong [where f = PlayStarted]] assms [THEN arg_cong [where f = PlayActive]]
    assms [THEN arg_cong [where f = PlayAllocated]]
    assms [THEN arg_cong [where f = PlayPages]] assms [THEN arg_cong [where f = PlayBdl]]
    assms [THEN arg_cong [where f = DmaSamples]] assms [THEN arg_cong [where f = StreamOk]]
    assms [THEN arg_cong [where f = Phys]]
  by (simp_all add: off_pos_def off_bus_def)

text \<open>What a page handed out means.\<close>
lemma NextPage_outcome:
  assumes "run_state HdaStreamNextPage h = (Page, h')" "PlayActive h"
  shows "run_state UpdatePlayPosition h = ((), h')"
    and "Page = (if PlayFilled h' \<ge> PlayHwTotal h' + 32 then 0 else PlayPages h' ! (unat (PlayFilled h') mod 32))"
  using assms by (auto simp: HdaStreamNextPage_def PLAY_PAGES_def split: prod.splits if_splits)

lemma same_slot: "k < n \<Longrightarrow> n < k + 32 \<Longrightarrow> k mod 32 \<noteq> n mod (32 :: nat)"
proof
  assume kn: "k < n" "n < k + 32" and eq: "k mod 32 = n mod 32"
  then have "32 dvd n - k" by (metis mod_eq_dvd_iff_nat less_imp_le)
  with kn show False by (auto dest: dvd_imp_le)
qed

text \<open>C24: The player never overwrites what has still to be played: if the controller fetched less than one
  turn of the ring since the driver last looked, a page handed out for filling belongs to the ring and is
  none of the pages that are filled and not fetched yet; and looking for it leaves the driver with the true
  position again.\<close>
theorem HdaStreamNextPage_safe:
  assumes "plays played h" "PlayStarted h" "tracks n h" "PlayActive h" "ring_ready h"
    and "m = played (Trace (HdaBus h) @ [Rd 4 (lpib h)])" "n \<le> m" "m < n + 32" "m + 32 < 2 ^ 32"
    and "run_state HdaStreamNextPage h = (Page, h')"
  shows "tracks m h' \<and>
    (Page \<noteq> 0 \<longrightarrow> Page \<in> set (PlayPages h) \<and>
      (\<forall>k. m \<le> k \<and> k < unat (PlayFilled h) \<longrightarrow> PlayPages h ! (k mod 32) \<noteq> Page))"
proof -
  note out = NextPage_outcome [OF assms(10,4)]
  from position_tracked [OF assms(1-3) _ _ out(1)] assms(6-8) have t: "tracks m h'" by simp
  have same: "off_pos h' = off_pos h" by (rule sameD [OF NextPage_quiet assms(10)])
  note f = off_posD(1,5) [OF same]
  have len: "length (PlayPages h) = 32" and dis: "distinct (PlayPages h)"
    using assms(5) by (simp_all add: ring_ready_def PLAY_PAGES_def)
  have "Page \<in> set (PlayPages h) \<and> (\<forall>k. m \<le> k \<and> k < unat (PlayFilled h) \<longrightarrow> PlayPages h ! (k mod 32) \<noteq> Page)"
    if "Page \<noteq> 0"
  proof -
    from that out(2) have P: "Page = PlayPages h ! (unat (PlayFilled h) mod 32)" and room: "\<not> PlayFilled h \<ge> PlayHwTotal h' + 32"
      by (auto simp: f split: if_splits)
    have "unat (PlayHwTotal h' + 32) = m + 32"
      using t assms(9) by (simp add: tracks_def unat_add_nowrap unat_of_nat_small)
    with room have lt: "unat (PlayFilled h) < m + 32" by (simp add: word_le_nat_alt)
    have "PlayPages h ! (k mod 32) \<noteq> Page" if k: "m \<le> k" "k < unat (PlayFilled h)" for k
    proof -
      have "k mod 32 \<noteq> unat (PlayFilled h) mod 32" using k lt by (intro same_slot) simp_all
      then show ?thesis using dis len by (simp add: P nth_eq_iff_index_eq)
    qed
    then show ?thesis using len by (simp add: P)
  qed
  with t show ?thesis by blast
qed

text \<open>The demonstration machine with a ring.\<close>
definition demo_pages :: "u64 list" where
  "demo_pages = map (\<lambda>i. of_nat (0x400000 + i * 4096)) [0..<32]"

definition demo_ring :: hda where
  "demo_ring = demo_hda\<lparr>PlayPages := demo_pages, PlayActive := True, PlayAllocated := True, PlayFilled := 5\<rparr>"

lemma demo_ring_fields:
  "PlayPages demo_ring = demo_pages" "PlayActive demo_ring" "PlayFilled demo_ring = 5" "PlayStarted demo_ring"
  "tracks 0 demo_ring" "HdaBus demo_ring = demo_bus" "lpib demo_ring = lpib demo_hda"
  by (simp_all add: demo_ring_def tracks_def lpib_def)

lemma demo_pages_ok: "length demo_pages = 32" "distinct demo_pages" "0 \<notin> set demo_pages"
proof -
  have u: "unat (of_nat (0x400000 + i * 4096) :: u64) = 0x400000 + i * 4096" if "i < 32" for i
    by (rule unat_of_nat_small) (use that in simp)
  show "length demo_pages = 32" by (simp add: demo_pages_def)
  have "inj_on (\<lambda>i. of_nat (0x400000 + i * 4096) :: u64) {0..<32}"
  proof (rule inj_onI)
    fix i j :: nat assume ij: "i \<in> {0..<32}" "j \<in> {0..<32}"
      and eq: "(of_nat (0x400000 + i * 4096) :: u64) = of_nat (0x400000 + j * 4096)"
    then have "0x400000 + i * 4096 = 0x400000 + j * 4096" using u [of i] u [of j] by (metis atLeastLessThan_iff)
    then show "i = j" by simp
  qed
  then show "distinct demo_pages" unfolding demo_pages_def distinct_map by simp
  show "0 \<notin> set demo_pages"
  proof
    assume "0 \<in> set demo_pages"
    then obtain i :: nat where "i < 32" "(of_nat (0x400000 + i * 4096) :: u64) = 0" by (auto simp only: demo_pages_def set_map set_upt image_iff atLeastLessThan_iff)
    with u [of i] show False by simp
  qed
qed

lemma demo_ring_ready: "ring_ready demo_ring"
  by (simp add: ring_ready_def demo_ring_fields demo_pages_ok PLAY_PAGES_def)

lemma HdaStreamNextPage_safe_witness:
  "\<exists>Page h'. run_state HdaStreamNextPage demo_ring = (Page, h') \<and> tracks 1 h' \<and> Page \<noteq> 0 \<and> Page \<in> set demo_pages \<and>
     demo_pages ! 1 \<noteq> Page"
proof -
  obtain Page h' where run: "run_state HdaStreamNextPage demo_ring = (Page, h')" by (cases "run_state HdaStreamNextPage demo_ring")
  have plays: "plays length demo_ring" using demo_plays by (simp add: plays_def demo_ring_fields)
  have trace: "Trace (HdaBus demo_ring) = []" by (simp add: demo_ring_fields demo_bus_def)
  have safe: "tracks 1 h' \<and> (Page \<noteq> 0 \<longrightarrow> Page \<in> set (PlayPages demo_ring) \<and>
      (\<forall>k. 1 \<le> k \<and> k < unat (PlayFilled demo_ring) \<longrightarrow> PlayPages demo_ring ! (k mod 32) \<noteq> Page))"
    by (rule HdaStreamNextPage_safe [OF plays demo_ring_fields(4,5,2) demo_ring_ready _ _ _ _ run]) (simp_all add: trace)
  have same: "off_pos h' = off_pos demo_ring" by (rule sameD [OF NextPage_quiet run])
  have "PlayHwTotal h' = 1" using safe by (simp add: tracks_def)
  with NextPage_outcome(2) [OF run demo_ring_fields(2)] off_posD(1,5) [OF same]
  have page: "Page = demo_pages ! 5" by (simp add: demo_ring_fields)
  then have "Page \<in> set demo_pages" by (simp add: demo_pages_ok)
  then have nz: "Page \<noteq> 0" using demo_pages_ok(3) by blast
  have "demo_pages ! 1 \<noteq> Page" unfolding page by (simp add: nth_eq_iff_index_eq demo_pages_ok)
  with safe nz run page show ?thesis by (simp add: demo_pages_ok)
qed

end
