(* ===== verification/Player.thy ===== *)
theory Player
  imports HdaStream
begin

text \<open>
  The player (\<open>kernel/player.c\<close>) without its console command, which is in \<open>Commands\<close>: it decodes a WAV file into the play ring of
  the audio driver, a page at a time, whenever it is polled. The static variables of the file are the
  fields of the record; \<open>SourceBuffer\<close> is only used within a poll.
\<close>

section \<open>State\<close>

definition PLAYER_ERR_NONE :: int where "PLAYER_ERR_NONE = 0"
definition PLAYER_ERR_FS :: int where "PLAYER_ERR_FS = 1"
definition PLAYER_ERR_DIR :: int where "PLAYER_ERR_DIR = 2"
definition PLAYER_ERR_NOTWAV :: int where "PLAYER_ERR_NOTWAV = 3"
definition PLAYER_ERR_FORMAT :: int where "PLAYER_ERR_FORMAT = 4"
definition PLAYER_ERR_NODATA :: int where "PLAYER_ERR_NODATA = 5"
definition PLAYER_ERR_RATE :: int where "PLAYER_ERR_RATE = 6"
definition PLAYER_ERR_MEMORY :: int where "PLAYER_ERR_MEMORY = 7"
definition PLAYER_ERR_DEVICE :: int where "PLAYER_ERR_DEVICE = 8"
definition PLAYER_ERR_READ :: int where "PLAYER_ERR_READ = 9"

record player_info =
  PubSampleRate :: u32
  PubBitsPerSample :: u16
  PubChannels :: u16
  PubTotalSeconds :: u32

record player = hda +
  PlayNode :: fs_node
  PlayInfo :: wav_info
  Public :: player_info
  LastError :: int
  Finished :: bool
  Active :: bool
  Started :: bool
  ReadFailed :: bool
  TotalFrames :: u32
  FramesDone :: u32
  DataPages :: u32

section \<open>Operations\<close>

definition PlayerStop :: "('p player_scheme, unit) state" where
  "PlayerStop = do {
     active \<leftarrow> ask Active;
     if \<not> active then ret () else do {
     HdaStreamClose;
     change (\<lambda>p. p\<lparr>Active := False, Started := False\<rparr>) } }"

text \<open>\<open>FsRead\<close>: the bytes read and their number.\<close>
definition fs_read :: "fs_node \<Rightarrow> u32 \<Rightarrow> u32 \<Rightarrow> ('h filesys_scheme, u32 \<times> u8 list) state" where
  "fs_read N off len = State (\<lambda>st. case FsRead N off len st of (n, out, st) \<Rightarrow> ((n, out), st))"

text \<open>The samples of a page of the ring: the converted frames, and silence up to the end.\<close>
definition FillPage :: "u64 \<Rightarrow> i16 list \<Rightarrow> ('h hda_scheme, unit) state" where
  "FillPage Page Out = change (\<lambda>h. h\<lparr>DmaSamples := (DmaSamples h)(Page := Out @ replicate (HDA_STREAM_PAGE_FRAMES * 2 - length Out) 0)\<rparr>)"

text \<open>The frames of the next page.\<close>
definition NextFrames :: "'p player_scheme \<Rightarrow> u32" where
  "NextFrames p =
     (let Frames = TotalFrames p - FramesDone p
      in if Frames > of_nat HDA_STREAM_PAGE_FRAMES then of_nat HDA_STREAM_PAGE_FRAMES else Frames)"

text \<open>The stream is started once sixteen pages are filled.\<close>
definition StartIfFilled :: "('p player_scheme, unit) state" where
  "StartIfFilled = do {
     ready \<leftarrow> ask (\<lambda>p. \<not> Started p \<and> HdaStreamFilled p \<ge> 16);
     when_do ready (do { HdaStreamStart; change (Started_update (\<lambda>_. True)) }) }"

text \<open>The body of the filling loop for a page of the ring: false when the file cannot be read.\<close>
definition FillOne :: "u64 \<Rightarrow> ('p player_scheme, bool) state" where
  "FillOne Page = do {
     Frames \<leftarrow> ask NextFrames;
     N \<leftarrow> ask PlayNode;
     I \<leftarrow> ask PlayInfo;
     don \<leftarrow> ask FramesDone;
     let Align = (ucast (BlockAlign I) :: u32);
     r \<leftarrow> fs_read N (DataOffset I + don * Align) (Frames * Align);
     if fst r < Align then do { change (ReadFailed_update (\<lambda>_. True)); ret False } else do {
     let Frames = fst r div Align;
     FillPage Page (WavConvert I (snd r) (unat Frames));
     HdaStreamCommit;
     change (\<lambda>p. p\<lparr>FramesDone := FramesDone p + Frames, DataPages := DataPages p + 1\<rparr>);
     StartIfFilled;
     ret True } }"

text \<open>The filling loop. Every round that continues delivers a frame, so the frames that are left are
  enough fuel (\<open>PlayerPoll_returns\<close>).\<close>
primrec PollLoop :: "nat \<Rightarrow> ('p player_scheme, unit) state" where
  "PollLoop 0 = ret ()"
| "PollLoop (Suc n) = do {
     more \<leftarrow> ask (\<lambda>p. FramesDone p < TotalFrames p \<and> \<not> ReadFailed p);
     if \<not> more then ret () else do {
     Page \<leftarrow> HdaStreamNextPage;
     if Page = 0 then ret () else do {
     ok \<leftarrow> FillOne Page;
     if ok then PollLoop n else ret () } } }"

definition InputDone :: "'p player_scheme \<Rightarrow> bool" where
  "InputDone p \<longleftrightarrow> FramesDone p \<ge> TotalFrames p \<or> ReadFailed p"

text \<open>\<open>PlayerPoll\<close> after its loop: a short track is started late, and a track that is played is over.\<close>
definition StartLate :: "('p player_scheme, unit) state" where
  "StartLate = do {
     late \<leftarrow> ask (\<lambda>p. \<not> Started p \<and> DataPages p > 0 \<and> InputDone p);
     when_do late (do { HdaStreamStart; change (Started_update (\<lambda>_. True)) }) }"

definition Finish :: "('p player_scheme, unit) state" where
  "Finish = do { change (Finished_update (\<lambda>_. True)); PlayerStop }"

definition FinishIfPlayed :: "('p player_scheme, unit) state" where
  "FinishIfPlayed = do {
     finishing \<leftarrow> ask (\<lambda>p. Started p \<and> InputDone p);
     when_do finishing (do {
       played \<leftarrow> HdaStreamPlayed;
       over \<leftarrow> ask (\<lambda>p. played \<ge> DataPages p);
       when_do over Finish }) }"

definition PollTail :: "('p player_scheme, unit) state" where
  "PollTail = do {
     StartLate;
     nothing \<leftarrow> ask (\<lambda>p. DataPages p = 0 \<and> InputDone p);
     if nothing then Finish else FinishIfPlayed }"

definition PlayerPoll :: "('p player_scheme, unit) state" where
  "PlayerPoll = do {
     active \<leftarrow> ask Active;
     if \<not> active then ret () else do {
     left \<leftarrow> ask (\<lambda>p. unat (TotalFrames p - FramesDone p));
     PollLoop (left + 1);
     PollTail } }"

definition WavCodeToPlayer :: "int \<Rightarrow> int" where
  "WavCodeToPlayer Status =
     (if Status = WAV_ERR_NOTWAV then PLAYER_ERR_NOTWAV else if Status = WAV_ERR_NODATA then PLAYER_ERR_NODATA
      else if Status = WAV_ERR_READ then PLAYER_ERR_READ else PLAYER_ERR_FORMAT)"

definition start_fails :: "int \<Rightarrow> string \<Rightarrow> ('p player_scheme, string option) state" where
  "start_fails Code Msg = do { change (LastError_update (\<lambda>_. Code)); ret (Some Msg) }"

text \<open>The result is the error text, \<open>None\<close> when the player has started.\<close>
definition PlayerStart :: "cstring \<Rightarrow> ('p player_scheme, string option) state" where
  "PlayerStart Path = do {
     PlayerStop;
     change (\<lambda>p. p\<lparr>LastError := PLAYER_ERR_NONE, Finished := False\<rparr>);
     found \<leftarrow> State (FsResolve Path);
     (case found of
        Inl Status \<Rightarrow> start_fails PLAYER_ERR_FS (FsErrorText Status)
      | Inr N \<Rightarrow> do {
     change (PlayNode_update (\<lambda>_. N));
     if NodeIsDir N then start_fails PLAYER_ERR_DIR ''is a directory'' else do {
     Info \<leftarrow> ask PlayInfo;
     parsed \<leftarrow> State (\<lambda>p. case WavParse N Info p of (Status, Info, p) \<Rightarrow> ((Status, Info), p));
     change (PlayInfo_update (\<lambda>_. snd parsed));
     if fst parsed \<noteq> 1 then start_fails (WavCodeToPlayer (fst parsed)) (WavErrorText (fst parsed)) else do {
     let Info = snd parsed;
     Status \<leftarrow> HdaStreamOpen (SampleRate Info);
     if Status = HDA_STREAM_ERR_RATE then start_fails PLAYER_ERR_RATE ''sample rate is not supported by the HDA driver''
     else if Status = HDA_STREAM_ERR_MEMORY then start_fails PLAYER_ERR_MEMORY ''not enough low memory for audio buffers''
     else if Status \<noteq> 1 then start_fails PLAYER_ERR_DEVICE ''HDA stream is not available''
     else do {
     let Total = DataBytes Info div ucast (BlockAlign Info);
     change (\<lambda>p. p\<lparr>TotalFrames := Total, FramesDone := 0, DataPages := 0, Started := False, ReadFailed := False,
       Active := True,
       Public := \<lparr>PubSampleRate = SampleRate Info, PubBitsPerSample = BitsPerSample Info,
         PubChannels = Channels Info, PubTotalSeconds = Total div SampleRate Info\<rparr>\<rparr>);
     PlayerPoll;
     ret None } } } }) }"

definition PlayerTakeFinished :: "('p player_scheme, bool) state" where
  "PlayerTakeFinished = do { v \<leftarrow> ask Finished; change (Finished_update (\<lambda>_. False)); ret v }"

definition PlayerElapsedSeconds :: "('p player_scheme, u32) state" where
  "PlayerElapsedSeconds = do {
     running \<leftarrow> ask (\<lambda>p. Active p \<and> Started p);
     if \<not> running then ret 0 else do {
     played \<leftarrow> HdaStreamPlayed;
     rate \<leftarrow> ask (\<lambda>p. SampleRate (PlayInfo p));
     total \<leftarrow> ask (\<lambda>p. PubTotalSeconds (Public p));
     let Seconds = (ucast ((ucast played :: u64) * of_nat HDA_STREAM_PAGE_FRAMES div ucast rate) :: u32);
     ret (if Seconds > total then total else Seconds) } }"

end
