(* ===== verification/Desk.thy ===== *)
theory Desk
  imports Ui Keyboard Errors Player
begin

text \<open>
  What the graphical programs share: the frame buffer with its cursor and mouse, the keyboard, and the
  player with the audio driver, the file system and the kernel log below it. The viewer and the explorer extend this state by their own.
\<close>

record desk = ui +
  Kbd :: keyboard
  Files :: player

text \<open>\<open>ErrorLog\<close> on the log of the kernel.\<close>
definition desk_log :: "cstring \<Rightarrow> int \<Rightarrow> cstring option \<Rightarrow> 'a desk_scheme \<Rightarrow> 'a desk_scheme" where
  "desk_log Source code Detail d = d\<lparr>Files := (Files d)\<lparr>Log := ErrorLog Source code Detail (Log (Files d))\<rparr>\<rparr>"

text \<open>An operation of the player, and of what lies below it.\<close>
definition on_player :: "(player, 'x) state \<Rightarrow> 'a desk_scheme \<Rightarrow> 'x \<times> 'a desk_scheme" where
  "on_player m d = (case run_state m (Files d) of (x, p) \<Rightarrow> (x, d\<lparr>Files := p\<rparr>))"

text \<open>The interrupts that come in between the rounds of a program: a keyboard byte with the status of the
  controller, or a mouse byte with the tick it arrives at.\<close>
datatype irq = KeyIrq u8 u8 | MouseIrq u64 u8

fun desk_irq :: "irq \<Rightarrow> 'a desk_scheme \<Rightarrow> 'a desk_scheme" where
  "desk_irq (KeyIrq s c) d = d\<lparr>Kbd := fst (KeyboardIrqHandler s c (Kbd d))\<rparr>"
| "desk_irq (MouseIrq t b) d = d\<lparr>Pointer := MouseIrqHandler t b (Pointer d)\<rparr>"

definition GetKey :: "'a desk_scheme \<Rightarrow> int \<times> 'a desk_scheme" where
  "GetKey d = (case KeyboardGetKey (Kbd d) of (key, k) \<Rightarrow> (key, d\<lparr>Kbd := k\<rparr>))"

text \<open>\<open>while (KeyboardGetKey() != 0) { }\<close>. The buffer holds at most 255 keys, so as many rounds empty it.\<close>
primrec drain_keys :: "nat \<Rightarrow> 'a desk_scheme \<Rightarrow> 'a desk_scheme" where
  "drain_keys 0 d = d"
| "drain_keys (Suc n) d = (case GetKey d of (key, d) \<Rightarrow> if key \<noteq> 0 then drain_keys n d else d)"

lemma drain_keys_enough:
  "keyboard_ok (Kbd d) \<Longrightarrow> length (ring_keys (Kbd d)) < n \<Longrightarrow> ring_keys (Kbd (drain_keys n d)) = []"
proof (induction n arbitrary: d)
  case (Suc n)
  obtain key k where g: "KeyboardGetKey (Kbd d) = (key, k)" by (cases "KeyboardGetKey (Kbd d)")
  note m = read_moves [OF Suc.prems(1) g]
  show ?case
  proof (cases "key = 0")
    case True
    then have "KeyBufferTail (Kbd d) = KeyBufferHead (Kbd d)"
      using g m(2) Suc.prems(1) ring_empty ring_get_keys [of "Kbd d"]
      by (auto simp: KeyboardGetKey_def keyboard_ok_def ring_get_def split: if_splits)
    then have "ring_keys k = []" using g Suc.prems(1) by (simp add: KeyboardGetKey_def ring_keys_def ring_empty keyboard_ok_def)
    then show ?thesis using True g by (simp add: GetKey_def)
  next
    case False
    have "length (ring_keys k) < n" using m(2) Suc.prems(2) False by (simp add: ring.moves_def) (metis length_Cons Suc_less_eq)
    from Suc.IH [of "d\<lparr>Kbd := k\<rparr>"] this m(1) g False show ?thesis by (simp add: GetKey_def)
  qed
qed simp

end
