(* ===== verification/Viewer.thy ===== *)
theory Viewer
  imports Desk
begin

text \<open>
  The file viewer (\<open>kernel/viewer.c\<close>): loading, breaking a file into screen lines, scrolling, the hex
  view, the search, and drawing. The static variables of the file are the fields of the record; \<open>SearchLen\<close>
  is the length of the search text. A position in the buffer is a natural number: it never exceeds
  \<open>VIEW_MAX_BYTES\<close>, so the unsigned arithmetic of the code does not wrap.
\<close>

section \<open>State\<close>

definition VIEW_MAX_BYTES :: nat where "VIEW_MAX_BYTES = 256 * 1024"
definition VIEW_MAX_LINES :: nat where "VIEW_MAX_LINES = 16384"
definition TITLE_H :: u32 where "TITLE_H = 28"
definition HINT_H :: u32 where "HINT_H = 28"
definition VROW :: u32 where "VROW = 18"
definition SCROLL_W :: u32 where "SCROLL_W = 10"
definition GUTTER_W :: u32 where "GUTTER_W = 64"
definition TEXT_X :: u32 where "TEXT_X = 72"
definition SEARCH_MAX :: nat where "SEARCH_MAX = 48"
definition VD_TITLE :: u32 where "VD_TITLE = 1"
definition VD_CONTENT :: u32 where "VD_CONTENT = 2"
definition VD_HINT :: u32 where "VD_HINT = 4"
definition VD_ALL :: u32 where "VD_ALL = 7"

record viewer = desk +
  VBuf :: "nat \<Rightarrow> u8"
  VLen :: nat
  VTotalSize :: nat
  LineOff :: "nat list"
  LineNum :: "nat list"
  LinesTruncated :: bool
  HexMode :: bool
  VTop :: int
  VRows :: int
  VCols :: int
  VFlags :: u32
  VTitle :: cstring
  VDetail :: cstring
  VMessage :: cstring
  VMessageKind :: int
  VMessageUntil :: u64
  SearchText :: cstring
  Searching :: bool
  HaveMatch :: bool
  MatchStart :: nat

definition SearchLen :: "'a viewer_scheme \<Rightarrow> nat" where "SearchLen v = length (SearchText v)"
definition LineCount :: "'a viewer_scheme \<Rightarrow> int" where "LineCount v = int (length (LineNum v))"

definition raise_flags :: "u32 \<Rightarrow> 'a viewer_scheme \<Rightarrow> 'a viewer_scheme" where
  "raise_flags f v = v\<lparr>VFlags := VFlags v OR f\<rparr>"

definition ViewerDetail :: "'a viewer_scheme \<Rightarrow> cstring" where "ViewerDetail v = VDetail v"

text \<open>\<open>Tick\<close> is the tick counter.\<close>
definition Say :: "u64 \<Rightarrow> int \<Rightarrow> cstring \<Rightarrow> 'a viewer_scheme \<Rightarrow> 'a viewer_scheme" where
  "Say Tick code Info v =
     (let Txt = ErrorFormat code (Some Info) 200;
          v = desk_log (lit ''viewer'') code (Some Info) v
      in raise_flags VD_HINT (v\<lparr>VMessage := copy_loop Txt 199, VMessageKind := if ErrorIsWarning code then 2 else 1,
           VMessageUntil := Tick + 6000\<rparr>))"

section \<open>Loading\<close>

lemma load_step: "L < Want \<Longrightarrow> Got \<noteq> 0 \<Longrightarrow> VLen v = L + unat (Got :: u32) \<Longrightarrow> Want - VLen v < Want - L"
  by (simp add: diff_less_mono2 unat_gt_0)

text \<open>The reading loop: it ends at the first chunk that brings nothing.\<close>
function LoadLoop :: "fs_node \<Rightarrow> nat \<Rightarrow> 'a viewer_scheme \<Rightarrow> 'a viewer_scheme" where
  "LoadLoop N Want v =
     (if \<not> VLen v < Want then v
      else let Chunk = (if Want - VLen v > 16384 then 16384 else Want - VLen v)
      in case FsRead N (of_nat (VLen v)) (of_nat Chunk) (Files v) of (Got, bytes, st) \<Rightarrow>
        let L = VLen v; v = v\<lparr>VBuf := (\<lambda>i. if L \<le> i \<and> i < L + length bytes then bytes ! (i - L) else VBuf v i), Files := st\<rparr>
        in if Got = 0 \<or> unat Got > Chunk then v
           else LoadLoop N Want (v\<lparr>VLen := L + unat Got\<rparr>))"
  by pat_completeness auto
termination
  by (relation "measure (\<lambda>(N, Want, v). Want - VLen v)") (simp, simp only: in_measure prod.case, rule load_step, auto)

declare LoadLoop.simps [simp del]

text \<open>0, an error code, or the negative of one when the file was read in part.\<close>
definition LoadFile :: "cstring \<Rightarrow> 'a viewer_scheme \<Rightarrow> int \<times> 'a viewer_scheme" where
  "LoadFile Path v =
     (case FsResolve Path (Files v) of (r, st) \<Rightarrow>
       let v = v\<lparr>Files := st, VDetail := [], VLen := 0, VTotalSize := 0\<rparr>
       in case r of
         Inl Status \<Rightarrow> (E_FILE_OPEN, v\<lparr>VDetail := copy_loop (lit (FsErrorText Status)) 159\<rparr>)
       | Inr N \<Rightarrow>
         if NodeIsDir N then (E_FILE_OPEN, v\<lparr>VDetail := copy_loop (lit ''is a folder'') 159\<rparr>)
         else let v = v\<lparr>VTotalSize := unat (EntrySize (NodeEntry N))\<rparr>
         in if VTotalSize v = 0 then (0, v)
         else let Want = (if VTotalSize v > VIEW_MAX_BYTES then VIEW_MAX_BYTES else VTotalSize v);
                  v = LoadLoop N Want v
         in if VLen v = 0 then (E_FILE_READ, v\<lparr>VDetail := copy_loop (lit ''no data could be read'') 159\<rparr>)
         else if VLen v < Want
         then (- E_FILE_READ, v\<lparr>VDetail := append_text (copy_loop (lit ''stopped at byte '') 159) (dec_text (of_nat (VLen v))) 160\<rparr>)
         else (0, v))"

text \<open>A NUL in the first 4096 bytes, or more than one odd byte in twenty.\<close>
definition odd_byte :: "u8 \<Rightarrow> bool" where
  "odd_byte c \<longleftrightarrow> c < 9 \<or> (c > 13 \<and> c < 32 \<and> c \<noteq> 27)"

definition LooksBinary :: "'a viewer_scheme \<Rightarrow> bool" where
  "LooksBinary v =
     (let Check = (if VLen v < 4096 then VLen v else 4096); bytes = map (VBuf v) [0..<Check]
      in if 0 \<in> set bytes then True
         else let Odd = length (List.filter odd_byte bytes) in Check > 0 \<and> Odd * 20 > Check)"

section \<open>Lines\<close>

text \<open>\<open>while (End < Len && End < Pos + Need && (Buf[End] & 0xC0) == 0x80) End++\<close>.\<close>
function SkipCont :: "(nat \<Rightarrow> u8) \<Rightarrow> nat \<Rightarrow> nat \<Rightarrow> nat \<Rightarrow> nat" where
  "SkipCont Buf Len Stop End =
     (if End < Len \<and> End < Stop \<and> Buf End AND 0xC0 = 0x80 then SkipCont Buf Len Stop (End + 1) else End)"
  by pat_completeness auto
termination by (relation "measure (\<lambda>(Buf, Len, Stop, End). Stop - End)") auto

declare SkipCont.simps [simp del]

text \<open>The width, the glyph and the next position of the character at \<open>Pos\<close>, drawn in column \<open>Col\<close>.\<close>
definition CharInfo :: "(nat \<Rightarrow> u8) \<Rightarrow> nat \<Rightarrow> nat \<Rightarrow> nat \<Rightarrow> nat \<times> u8 \<times> nat" where
  "CharInfo Buf Len Pos Col =
     (let c = Buf Pos
      in if c = 9 then (4 - Col mod 4, chr_code CHR '' '', Pos + 1)
      else if c \<ge> 0xC0
      then (let Need = (if c \<ge> 0xF0 then 4 else if c \<ge> 0xE0 then 3 else 2)
            in (1, chr_code CHR ''?'', SkipCont Buf Len (Pos + Need) (Pos + 1)))
      else if c \<ge> 0x80 then (1, chr_code CHR ''?'', Pos + 1)
      else if c < 32 \<or> c = 127 then (1, chr_code CHR ''.'', Pos + 1)
      else (1, c, Pos + 1))"

lemma SkipCont_ge: "End \<le> SkipCont Buf Len Stop End"
  by (induction Buf Len Stop End rule: SkipCont.induct) (subst SkipCont.simps, auto)

lemma SkipCont_le: "End \<le> Len \<Longrightarrow> SkipCont Buf Len Stop End \<le> Len"
  by (induction Buf Len Stop End rule: SkipCont.induct) (subst SkipCont.simps, auto)

lemma CharInfo_bounds:
  assumes "CharInfo Buf Len Pos Col = (W, G, N)"
  shows "Pos < N" "0 < W" "W \<le> 4" "Pos < Len \<Longrightarrow> N \<le> Len"
  using assms SkipCont_ge [of "Pos + 1" Buf Len] SkipCont_le [of "Pos + 1" Len Buf]
  by (auto simp: CharInfo_def Let_def Suc_le_eq split: if_splits)

lemma char_step: "(W, r) = CharInfo Buf Len Pos Col \<Longrightarrow> (G, N) = r \<Longrightarrow> Pos < E \<Longrightarrow> E - N < E - Pos"
  using CharInfo_bounds(1) [of Buf Len Pos Col W G N] by simp

text \<open>The inner loop: where the line ends, and whether at a line feed.\<close>
function WrapLoop :: "(nat \<Rightarrow> u8) \<Rightarrow> nat \<Rightarrow> nat \<Rightarrow> nat \<Rightarrow> nat \<Rightarrow> nat \<times> bool" where
  "WrapLoop Buf Len Cols Pos Col =
     (if \<not> Pos < Len then (Pos, False)
      else if Buf Pos = 10 then (Pos + 1, True)
      else if Buf Pos = 13 then WrapLoop Buf Len Cols (Pos + 1) Col
      else case CharInfo Buf Len Pos Col of (W, G, N) \<Rightarrow>
        if Col + W > Cols \<and> Col > 0 then (Pos, False) else WrapLoop Buf Len Cols N (Col + W))"
  by pat_completeness auto
termination
  by (relation "measure (\<lambda>(Buf, Len, Cols, Pos, Col). Len - Pos)") (rule wf_measure, simp, simp only: in_measure prod.case, erule char_step, assumption, simp)

declare WrapLoop.simps [simp del]

text \<open>The outer loop: the offsets and numbers of the lines, and whether there were too many.\<close>
function BuildLoop :: "(nat \<Rightarrow> u8) \<Rightarrow> nat \<Rightarrow> nat \<Rightarrow> nat \<Rightarrow> nat \<Rightarrow> bool \<Rightarrow> nat list \<Rightarrow> nat list \<Rightarrow> nat list \<times> nat list \<times> bool" where
  "BuildLoop Buf Len Cols Pos Logical NewLogical Offs Nums =
     (if length Offs \<ge> VIEW_MAX_LINES then (Offs, Nums, True)
      else let Logical = (if NewLogical then Logical + 1 else Logical);
               Offs = Offs @ [Pos];
               Nums = Nums @ [if NewLogical then Logical else 0]
      in case WrapLoop Buf Len Cols Pos 0 of (Pos, NewLogical) \<Rightarrow>
        if Pos \<ge> Len then (Offs, Nums, False) else BuildLoop Buf Len Cols Pos Logical NewLogical Offs Nums)"
  by pat_completeness auto
termination
  by (relation "measure (\<lambda>(Buf, Len, Cols, Pos, Logical, NewLogical, Offs, Nums). VIEW_MAX_LINES - length Offs)") auto

declare BuildLoop.simps [simp del]

definition BuildLines :: "'a viewer_scheme \<Rightarrow> 'a viewer_scheme" where
  "BuildLines v =
     (case BuildLoop (VBuf v) (VLen v) (nat (VCols v)) 0 0 True [] [] of (Offs, Nums, Truncated) \<Rightarrow>
       v\<lparr>LineOff := Offs @ [VLen v], LineNum := Nums, LinesTruncated := Truncated\<rparr>)"

section \<open>Scrolling\<close>

definition TotalRows :: "'a viewer_scheme \<Rightarrow> int" where
  "TotalRows v = (if HexMode v then int ((VLen v + 15) div 16) else LineCount v)"

definition ClampTop :: "'a viewer_scheme \<Rightarrow> 'a viewer_scheme" where
  "ClampTop v =
     (let Total = TotalRows v; Mx = (if Total > VRows v then Total - VRows v else 0);
          v = (if VTop v > Mx then v\<lparr>VTop := Mx\<rparr> else v)
      in if VTop v < 0 then v\<lparr>VTop := 0\<rparr> else v)"

text \<open>Binary search for the last line that starts at or before an offset.\<close>
function LineSearch :: "nat list \<Rightarrow> nat \<Rightarrow> int \<Rightarrow> int \<Rightarrow> int" where
  "LineSearch Offs Off Lo Hi =
     (if \<not> Lo < Hi then Lo
      else let Mid = (Lo + Hi + 1) div 2
      in if Offs ! nat Mid \<le> Off then LineSearch Offs Off Mid Hi else LineSearch Offs Off Lo (Mid - 1))"
  by pat_completeness auto
termination by (relation "measure (\<lambda>(Offs, Off, Lo, Hi). nat (Hi - Lo))") auto

declare LineSearch.simps [simp del]

definition LineForOffset :: "'a viewer_scheme \<Rightarrow> nat \<Rightarrow> int" where
  "LineForOffset v Off = LineSearch (LineOff v) Off 0 (LineCount v - 1)"

definition TopOffset :: "'a viewer_scheme \<Rightarrow> nat" where
  "TopOffset v =
     (if HexMode v then nat (VTop v) * 16 else if VTop v < LineCount v then LineOff v ! nat (VTop v) else 0)"

definition ShowOffset :: "nat \<Rightarrow> 'a viewer_scheme \<Rightarrow> 'a viewer_scheme" where
  "ShowOffset Off v =
     (let v = (if HexMode v then v\<lparr>VTop := int (Off div 16) - 2\<rparr> else v\<lparr>VTop := LineForOffset v Off - 2\<rparr>)
      in raise_flags (VD_CONTENT OR VD_TITLE) (ClampTop v))"

definition ToggleHex :: "'a viewer_scheme \<Rightarrow> 'a viewer_scheme" where
  "ToggleHex v =
     (let Off = TopOffset v;
          v = v\<lparr>HexMode := \<not> HexMode v\<rparr>;
          v = (if HexMode v then v\<lparr>VTop := int (Off div 16)\<rparr> else v\<lparr>VTop := LineForOffset v Off\<rparr>)
      in raise_flags (VD_CONTENT OR VD_TITLE OR VD_HINT) (ClampTop v))"

section \<open>Searching\<close>

definition MatchAt :: "'a viewer_scheme \<Rightarrow> nat \<Rightarrow> bool" where
  "MatchAt v Pos = list_all (\<lambda>i. lower (VBuf v (Pos + i)) = lower (SearchText v ! i)) [0..<SearchLen v]"

definition FindText :: "u64 \<Rightarrow> nat \<Rightarrow> 'a viewer_scheme \<Rightarrow> 'a viewer_scheme" where
  "FindText Tick From v =
     (if SearchLen v = 0 then v
      else if VLen v < SearchLen v then Say Tick E_TEXT_NOTFOUND (SearchText v) (v\<lparr>HaveMatch := False\<rparr>)
      else let Last = VLen v - SearchLen v;
               From = (if From > Last then 0 else From);
               found = (\<lambda>p. ShowOffset p (v\<lparr>HaveMatch := True, MatchStart := p\<rparr>));
               missing = Say Tick E_TEXT_NOTFOUND (SearchText v) (raise_flags VD_CONTENT (v\<lparr>HaveMatch := False\<rparr>))
      in case find (MatchAt v) [From..<Last + 1] of
           Some p \<Rightarrow> found p
         | None \<Rightarrow>
             if From = 0 then missing
             else (case find (MatchAt v) [0..<From] of Some p \<Rightarrow> found p | None \<Rightarrow> missing))"

definition Scroll :: "int \<Rightarrow> 'a viewer_scheme \<Rightarrow> 'a viewer_scheme" where
  "Scroll Delta v =
     (let Old = VTop v; v = ClampTop (v\<lparr>VTop := VTop v + Delta\<rparr>)
      in if VTop v \<noteq> Old then raise_flags (VD_CONTENT OR VD_TITLE) v else v)"
section \<open>Drawing\<close>

definition DrawScrollbar :: "'a viewer_scheme \<Rightarrow> 'a viewer_scheme" where
  "DrawScrollbar v =
     (let X = UiW v - SCROLL_W; Y = TITLE_H; Height = UiH v - TITLE_H - HINT_H; Total = TotalRows v;
          v = FillRect X Y SCROLL_W Height COL_PANEL v
      in if Total \<le> VRows v then v
      else let ThumbH = Height * of_int (VRows v) div of_int Total;
               ThumbH = (if ThumbH < 20 then 20 else ThumbH);
               ThumbY = Y + (Height - ThumbH) * of_int (VTop v) div of_int (Total - VRows v)
           in FillRect (X + 1) ThumbY (SCROLL_W - 2) ThumbH COL_DIM v)"

text \<open>One character of a text line, on its match background if it is part of the match.\<close>
definition DrawGlyph :: "nat \<Rightarrow> nat \<Rightarrow> nat \<Rightarrow> u8 \<Rightarrow> nat \<Rightarrow> u32 \<Rightarrow> 'a viewer_scheme \<Rightarrow> 'a viewer_scheme" where
  "DrawGlyph Pos Col Width Glyph Nxt Y v =
     (let X = TEXT_X + of_nat Col * of_nat FONT_WIDTH;
          v = (if HaveMatch v \<and> Pos < MatchStart v + SearchLen v \<and> Nxt > MatchStart v
               then FillRect X Y (of_nat Width * of_nat FONT_WIDTH) (VROW - 2) COL_MATCH v else v)
      in if Glyph \<noteq> chr_code CHR '' ''
         then DrawChar X Y Glyph (if Glyph = chr_code CHR ''?'' \<or> Glyph = chr_code CHR ''.'' then COL_DIM else COL_TEXT) v
         else v)"

function DrawLineLoop :: "nat \<Rightarrow> nat \<Rightarrow> nat \<Rightarrow> u32 \<Rightarrow> 'a viewer_scheme \<Rightarrow> 'a viewer_scheme" where
  "DrawLineLoop Pos End Col Y v =
     (if \<not> Pos < End then v
      else if VBuf v Pos = 10 \<or> VBuf v Pos = 13 then DrawLineLoop (Pos + 1) End Col Y v
      else case CharInfo (VBuf v) (VLen v) Pos Col of (Width, Glyph, Nxt) \<Rightarrow>
        DrawLineLoop Nxt End (Col + Width) Y (DrawGlyph Pos Col Width Glyph Nxt Y v))"
  by pat_completeness auto
termination
  by (relation "measure (\<lambda>(Pos, End, Col, Y, v). End - Pos)") (rule wf_measure, simp, simp only: in_measure prod.case, erule char_step, assumption, simp)

declare DrawLineLoop.simps [simp del]

definition DrawTextLine :: "nat \<Rightarrow> u32 \<Rightarrow> 'a viewer_scheme \<Rightarrow> 'a viewer_scheme" where
  "DrawTextLine Index Y v =
     (let v = (if LineNum v ! Index \<noteq> 0 \<and> VLen v > 0
               then let Num = dec_text (of_nat (LineNum v ! Index))
                    in UiText (GUTTER_W - 8 - of_nat (length Num) * of_nat FONT_WIDTH) Y Num COL_DIM 8 v
               else v)
      in DrawLineLoop (LineOff v ! Index) (LineOff v ! (Index + 1)) 0 Y v)"

definition upper_hex :: "u32 \<Rightarrow> u8" where
  "upper_hex d = lit ''0123456789ABCDEF'' ! unat d"

text \<open>One byte of a row of the hex view, as a number and as a character.\<close>
definition DrawHexByte :: "nat \<Rightarrow> u32 \<Rightarrow> nat \<Rightarrow> 'a viewer_scheme \<Rightarrow> 'a viewer_scheme" where
  "DrawHexByte Off Y i v =
     (if Off + i \<ge> VLen v then v
      else let W = of_nat FONT_WIDTH;
               X = 12 + 10 * W + of_nat i * 3 * W + (if i \<ge> 8 then W else 0);
               AX = 12 + 10 * W + 16 * 3 * W + 2 * W + of_nat i * W;
               b = VBuf v (Off + i);
               Pair = [upper_hex (ucast (drop_bit 4 b)), upper_hex (ucast (b AND 15))];
               Hit = HaveMatch v \<and> Off + i \<ge> MatchStart v \<and> Off + i < MatchStart v + SearchLen v;
               v = (if Hit then FillRect AX Y W (VROW - 2) COL_MATCH (FillRect X Y (2 * W) (VROW - 2) COL_MATCH v) else v);
               v = UiText X Y Pair COL_TEXT 3 v
           in DrawChar AX Y (if b \<ge> 32 \<and> b < 127 then b else chr_code CHR ''.'') (if b \<ge> 32 \<and> b < 127 then COL_ACCENT else COL_DIM) v)"

definition DrawHexRow :: "nat \<Rightarrow> u32 \<Rightarrow> 'a viewer_scheme \<Rightarrow> 'a viewer_scheme" where
  "DrawHexRow Index Y v =
     (let Off = Index * 16;
          Line = map (\<lambda>i. upper_hex (drop_bit (28 - i * 4) (of_nat Off) AND 0xF)) [0..<8];
          v = UiText 12 Y Line COL_DIM 9 v
      in fold (DrawHexByte Off Y) [0..<16] v)"

text \<open>One row of the window.\<close>
definition DrawViewRow :: "nat \<Rightarrow> 'a viewer_scheme \<Rightarrow> 'a viewer_scheme" where
  "DrawViewRow r v =
     (let Index = VTop v + int r; Y = TITLE_H + 6 + of_nat r * VROW
      in if Index \<ge> TotalRows v then v
         else if HexMode v then DrawHexRow (nat Index) Y v else DrawTextLine (nat Index) Y v)"

definition DrawContent :: "'a viewer_scheme \<Rightarrow> 'a viewer_scheme" where
  "DrawContent v =
     (let Height = UiH v - TITLE_H - HINT_H; Width = UiW v - SCROLL_W;
          v = FillRect 0 TITLE_H Width Height COL_BG v;
          v = (if \<not> HexMode v then FillRect 0 TITLE_H GUTTER_W Height COL_PANEL v else v);
          v = (if VLen v = 0 then UiText TEXT_X (TITLE_H + 12) (lit ''(empty file)'') COL_DIM 40 v else v);
          v = fold DrawViewRow [0..<nat (VRows v)] v
      in DrawScrollbar v)"

definition DrawTitle :: "'a viewer_scheme \<Rightarrow> 'a viewer_scheme" where
  "DrawTitle v =
     (let Total = TotalRows v; Span = (if Total > VRows v then Total - VRows v else 1);
          Percent = (if Total > VRows v then of_int (VTop v) * 100 div of_int Span else 100) :: u32;
          v = FillRect 0 0 (UiW v) TITLE_H COL_HEADER v;
          v = FillRect 8 2 56 24 COL_BUTTON v;
          v = UiText (8 + 12) 6 (lit ''Back'') COL_TEXT 6 v;
          v = UiText 76 6 (VTitle v) COL_ACCENT (sint ((UiW v - 76 - 260) div of_nat FONT_WIDTH)) v;
          Info = append_text (append_text (append_text [] (lit (if HexMode v then ''Hex '' else ''Text '')) 64) (dec_text (ucast Percent)) 64) (lit ''%'') 64;
          v = UiText (UiW v - 250) 6 Info COL_DIM 14 v;
          v = FillRect (UiW v - 130) 2 120 24 COL_BUTTON v
      in UiText (UiW v - 130 + 8) 6 (lit (if HexMode v then ''Show as text'' else ''Show as hex'')) COL_TEXT 14 v)"

definition DrawHint :: "'a viewer_scheme \<Rightarrow> 'a viewer_scheme" where
  "DrawHint v =
     (let Y = UiH v - HINT_H; Fit = sint ((UiW v - 24) div of_nat FONT_WIDTH);
          v = FillRect 0 Y (UiW v) HINT_H COL_PANEL v
      in if Searching v
      then (let Line = copy_loop (lit ''Find: '') 63;
                Line = append_text Line (SearchText v) 64;
                Line = append_text Line (lit ''_'') 64
            in UiText 12 (Y + 6) Line COL_ACCENT Fit v)
      else if VMessage v \<noteq> []
      then UiText 12 (Y + 6) (VMessage v)
             (if VMessageKind v = 1 then COL_ERROR else if VMessageKind v = 2 then COL_WARN else COL_ACCENT) Fit v
      else UiText 12 (Y + 6)
             (lit ''Up/Down scroll   PgUp/PgDn page   Home/End   / find   N next   H hex/text   Esc back'') COL_DIM Fit v)"

text \<open>The name of the drawing of \<open>viewer.c\<close> that brings the screen up to date.\<close>
definition ViewerPresent :: "'a viewer_scheme \<Rightarrow> 'a viewer_scheme" where
  "ViewerPresent v =
     (let v = (if VFlags v \<noteq> 0
               then let F = VFlags v; v = UiCursorHide v;
                        v = (if F AND VD_CONTENT \<noteq> 0 then DrawContent v else v);
                        v = (if F AND VD_TITLE \<noteq> 0 then DrawTitle v else v);
                        v = (if F AND VD_HINT \<noteq> 0 then DrawHint v else v)
                    in v\<lparr>VFlags := 0\<rparr>
               else v)
      in UiCursorShow v)"

section \<open>Keys and clicks\<close>

definition HandleSearchKey :: "u64 \<Rightarrow> int \<Rightarrow> 'a viewer_scheme \<Rightarrow> bool \<times> 'a viewer_scheme" where
  "HandleSearchKey Tick Key v =
     (if Key = 27 then (False, raise_flags VD_HINT (v\<lparr>Searching := False\<rparr>))
      else if Key = 10
      then (let v = raise_flags VD_HINT (v\<lparr>Searching := False\<rparr>)
            in (False, FindText Tick (if HaveMatch v then MatchStart v else TopOffset v) v))
      else if Key = 8
      then (False, if SearchLen v > 0 then raise_flags VD_HINT (v\<lparr>SearchText := butlast (SearchText v)\<rparr>) else v)
      else if Key \<ge> 32 \<and> Key \<le> 126 \<and> SearchLen v < SEARCH_MAX - 1
      then (False, raise_flags VD_HINT (v\<lparr>SearchText := SearchText v @ [of_int Key]\<rparr>))
      else (False, v))"

text \<open>The result says whether the viewer is left.\<close>
definition ViewerHandleKey :: "u64 \<Rightarrow> int \<Rightarrow> 'a viewer_scheme \<Rightarrow> bool \<times> 'a viewer_scheme" where
  "ViewerHandleKey Tick Key v =
     (if Searching v then HandleSearchKey Tick Key v
      else if Key = 27 \<or> Key = 8 \<or> Key = 113 \<or> Key = 81 then (True, v)
      else if Key = KEY_UP then (False, Scroll (- 1) v)
      else if Key = KEY_DOWN then (False, Scroll 1 v)
      else if Key = KEY_PGUP then (False, Scroll (- (VRows v - 1)) v)
      else if Key = KEY_PGDN \<or> Key = 32 then (False, Scroll (VRows v - 1) v)
      else if Key = KEY_HOME then (False, Scroll (- TotalRows v) v)
      else if Key = KEY_END then (False, Scroll (TotalRows v) v)
      else if Key = 104 \<or> Key = 72 then (False, ToggleHex v)
      else if Key = 47
      then (False, raise_flags VD_HINT (v\<lparr>Searching := True, SearchText := [], VMessage := []\<rparr>))
      else if Key = 110 \<or> Key = 78
      then (False, if SearchLen v > 0 then FindText Tick (if HaveMatch v then MatchStart v + 1 else TopOffset v) v
                   else raise_flags VD_HINT (v\<lparr>Searching := True\<rparr>))
      else (False, v))"

definition ViewerHandleClick :: "'a viewer_scheme \<Rightarrow> bool \<times> 'a viewer_scheme" where
  "ViewerHandleClick v =
     (if UiInside (UiMouseX v) (UiMouseY v) 8 2 56 24 then (True, v)
      else if UiInside (UiMouseX v) (UiMouseY v) (UiW v - 130) 2 120 24 then (False, ToggleHex v)
      else if UiInside (UiMouseX v) (UiMouseY v) (UiW v - SCROLL_W) TITLE_H SCROLL_W (UiH v - TITLE_H - HINT_H)
      then (let Mid = sint (TITLE_H + (UiH v - TITLE_H - HINT_H) div 2)
            in (False, Scroll (if UiMouseY v < Mid then - (VRows v - 1) else VRows v - 1) v))
      else (False, v))"

section \<open>The viewer\<close>

text \<open>What is said when the file opens.\<close>
definition OpeningNotice :: "u64 \<Rightarrow> int \<Rightarrow> 'a viewer_scheme \<Rightarrow> 'a viewer_scheme" where
  "OpeningNotice Tick Warn v =
     (if Warn = E_FILE_READ then Say Tick E_FILE_READ (VDetail v) v
      else if VLen v < VTotalSize v then Say Tick E_FILE_TRUNCATED [] v
      else if HexMode v then Say Tick E_FILE_BINARY [] v
      else if LinesTruncated v then Say Tick E_VIEW_LINES [] v
      else if VTotalSize v = 0 then Say Tick E_FILE_EMPTY [] v
      else v)"

text \<open>\<open>ViewerRun\<close> up to its main loop: 0 when the loop is entered.\<close>
definition ViewerOpen :: "u64 \<Rightarrow> cstring \<Rightarrow> cstring \<Rightarrow> 'a viewer_scheme \<Rightarrow> int \<times> 'a viewer_scheme" where
  "ViewerOpen Tick Path Nm v =
     (case LoadFile Path v of (Status, v) \<Rightarrow>
        if Status > 0 then (Status, desk_log (lit ''viewer'') Status (Some (VDetail v)) v)
        else let Warn = (if Status < 0 then - Status else 0);
                 v = v\<lparr>VTitle := copy_loop Nm (FAT_NAME_MAX - 1)\<rparr>;
                 v = v\<lparr>VRows := sint ((UiH v - TITLE_H - HINT_H - 8) div VROW),
                       VCols := sint ((UiW v - TEXT_X - 16 - SCROLL_W) div of_nat FONT_WIDTH)\<rparr>
        in if VRows v < 4 \<or> VCols v < 20
        then (let v = v\<lparr>VDetail := copy_loop (lit ''viewer area is too small'') 159\<rparr>
              in (E_VIEW_RANGE, desk_log (lit ''viewer'') E_VIEW_RANGE (Some (VDetail v)) v))
        else let v = v\<lparr>HexMode := False, VTop := 0, Searching := False, SearchText := [], HaveMatch := False,
                       VMessage := [], VMessageUntil := 0\<rparr>;
                 v = BuildLines v;
                 v = (if LooksBinary v then v\<lparr>HexMode := True\<rparr> else v);
                 v = FillScreen COL_BG (ClampTop v);
                 v = OpeningNotice Tick Warn (v\<lparr>VFlags := VD_ALL\<rparr>)
             in (0, drain_keys KEY_BUFFER_SIZE v))"

text \<open>One round of the main loop: whether it is left.\<close>
definition ViewerRound :: "u64 \<Rightarrow> 'a viewer_scheme \<Rightarrow> bool \<times> 'a viewer_scheme" where
  "ViewerRound Tick v =
     (case GetKey v of (Key, v) \<Rightarrow>
      case (if Key \<noteq> 0 then ViewerHandleKey Tick Key v else (False, v)) of (leave, v) \<Rightarrow>
        if leave then (True, v)
        else case UiPollMouse v of (moved, Pressed, v) \<Rightarrow>
        case (if moved \<and> Pressed AND 1 \<noteq> 0 then ViewerHandleClick v else (False, v)) of (leave, v) \<Rightarrow>
        if leave then (True, v)
        else let v = snd (on_player PlayerPoll v);
                 v = (if VMessage v \<noteq> [] \<and> Tick \<ge> VMessageUntil v then raise_flags VD_HINT (v\<lparr>VMessage := []\<rparr>) else v)
        in (False, ViewerPresent v))"

text \<open>The rounds, each with the interrupts before it and its tick, until one leaves the loop.\<close>
fun ViewerRounds :: "(irq list \<times> u64) list \<Rightarrow> 'a viewer_scheme \<Rightarrow> bool \<times> 'a viewer_scheme" where
  "ViewerRounds [] v = (False, v)"
| "ViewerRounds ((irqs, t) # ts) v =
     (case ViewerRound t (fold desk_irq irqs v) of (leave, v) \<Rightarrow>
        if leave then (True, UiCursorHide v) else ViewerRounds ts v)"

text \<open>The whole of \<open>ViewerRun\<close>; \<open>None\<close> when the rounds given do not leave the main loop.\<close>
definition ViewerRun :: "u64 \<Rightarrow> (irq list \<times> u64) list \<Rightarrow> cstring \<Rightarrow> cstring \<Rightarrow> 'a viewer_scheme
    \<Rightarrow> int option \<times> 'a viewer_scheme" where
  "ViewerRun Tick Rounds Path Nm v =
     (case ViewerOpen Tick Path Nm v of (code, v) \<Rightarrow>
        if code \<noteq> 0 then (Some code, v)
        else case ViewerRounds Rounds v of (left, v) \<Rightarrow> (if left then Some 0 else None, v))"

end
