(* ===== verification/PlayerCorrect.thy ===== *)
theory PlayerCorrect
  imports Player
begin

text \<open>
  What the player of \<open>kernel/player.c\<close> guarantees: its invariant, the frames it puts into the ring, that
  every poll returns, and that a track on a healthy medium is played to its end.
\<close>

section \<open>Reading the track\<close>

text \<open>The byte of the file of a node at a position, on the medium of its volume.\<close>
definition file_at :: "(int \<Rightarrow> medium) \<Rightarrow> 'a filesys_scheme \<Rightarrow> fs_node \<Rightarrow> nat \<Rightarrow> u8 option" where
  "file_at med st N pos =
     (let V = FatOf st (NodeVolume N) in file_byte (med (VolDevice V)) V (EntryCluster (NodeEntry N)) pos)"

definition node_ok :: "'a filesys_scheme \<Rightarrow> fs_node \<Rightarrow> bool" where
  "node_ok st N \<longleftrightarrow> 0 \<le> NodeVolume N \<and> NodeVolume N < FsVolumeCount st"

text \<open>The device of the node is up and holds the whole chain of the file.\<close>
definition track_up :: "(int \<Rightarrow> medium) \<Rightarrow> 'a filesys_scheme \<Rightarrow> fs_node \<Rightarrow> bool" where
  "track_up med st N \<longleftrightarrow> \<not> NodeIsDir N \<and> is_file (NodeEntry N) \<and>
     (\<exists>sz. let V = FatOf st (NodeVolume N) in device_up (Blocks st) (VolDevice V) sz \<and>
        file_within (med (VolDevice V)) V (EntryCluster (NodeEntry N)) (unat (EntrySize (NodeEntry N))) sz)"

lemma file_within_less: "file_within m V c p sz \<Longrightarrow> q \<le> p \<Longrightarrow> file_within m V c q sz"
  unfolding file_within_def by (meson less_le_trans)

lemma SetFat_simps [simp]:
  "Phys (SetFat v V st) = Phys st" "Log (SetFat v V st) = Log st" "Blocks (SetFat v V st) = Blocks st"
  "FsVolumeCount (SetFat v V st) = FsVolumeCount st"
  by (simp_all add: SetFat_def FsVolumeCount_def)

lemma FatOf_SetFat: "0 \<le> v \<Longrightarrow> v < FsVolumeCount st \<Longrightarrow> FatOf (SetFat v V st) v = V"
  by (simp add: FatOf_def SetFat_def FsVolumeCount_def)

text \<open>A read changes the cache of one volume and delivers bytes of the file; on a device that is up, all
  that were asked for within the file.\<close>
lemma FsRead_outcome:
  assumes ok: "fs_ok med st" and N: "node_ok st N" and run: "FsRead N off len st = (n, out, st')"
  shows "\<exists>vs. st' = st\<lparr>Volumes := vs\<rparr>" "fs_ok med st'" "node_ok st' N" "file_at med st' N = file_at med st N"
    "track_up med st' N = track_up med st N"
    "unat n \<le> unat len" "n \<noteq> 0 \<longrightarrow> length out = unat n"
    "\<forall>i < unat n. file_at med st N (unat off + i) = Some (out ! i)"
    "track_up med st N \<Longrightarrow> unat off + unat len \<le> unat (EntrySize (NodeEntry N)) \<Longrightarrow> n = len"
proof -
  let ?V = "FatOf st (NodeVolume N)"
  have v: "0 \<le> NodeVolume N" "NodeVolume N < FsVolumeCount st" using N by (simp_all add: node_ok_def)
  show fs': "fs_ok med st'" by (rule FsRead_ok [OF ok v run])
  obtain don o2 V' where l: "FatReadAt (BlockReadFrom (Blocks st)) ?V (NodeEntry N) off len = (don, o2, V')" by (metis prod_cases3)
  note spec = FatReadAt_outcome [OF fs_volume_ok [OF ok v] l]
  note core = FatReadAt_safe(2) [OF fs_volume_ok [OF ok v] l]
  show "\<exists>vs. st' = st\<lparr>Volumes := vs\<rparr>"
  proof (cases "NodeIsDir N")
    case True
    with run have "st' = st\<lparr>Volumes := Volumes st\<rparr>" by (simp add: FsRead_def)
    then show ?thesis ..
  next
    case False
    with run l show ?thesis by (auto simp: FsRead_def SetFat_def)
  qed
  show "node_ok st' N" using N FsRead_count [OF run] by (simp add: node_ok_def)
  have core': "core (FatOf st' (NodeVolume N)) = core ?V" and blocks: "Blocks st' = Blocks st"
    using run l core v by (auto simp: FsRead_def FatOf_SetFat split: if_splits)
  show "file_at med st' N = file_at med st N"
    by (rule ext) (simp add: file_at_def Let_def file_byte_core [OF core'] core_cong(1) [OF core'])
  show "track_up med st' N = track_up med st N"
    by (simp add: track_up_def Let_def file_within_core [OF core'] core_cong(1) [OF core'] blocks)
  show "unat n \<le> unat len" "n \<noteq> 0 \<longrightarrow> length out = unat n"
    "\<forall>i < unat n. file_at med st N (unat off + i) = Some (out ! i)"
    using run l spec [of 0] by (auto simp: FsRead_def wanted_def file_at_def Let_def split: if_splits)
  assume up: "track_up med st N" and fits: "unat off + unat len \<le> unat (EntrySize (NodeEntry N))"
  then obtain sz where sz: "device_up (Blocks st) (VolDevice ?V) sz"
    "file_within (med (VolDevice ?V)) ?V (EntryCluster (NodeEntry N)) (unat (EntrySize (NodeEntry N))) sz"
    by (auto simp: track_up_def Let_def)
  have w: "wanted (NodeEntry N) off len = unat len" using fits by (simp add: wanted_def)
  have "unat don = unat len"
    using spec [of sz] up sz(1) file_within_less [OF sz(2)] fits by (simp add: w track_up_def)
  then have "don = len" by (simp add: word_unat_eq_iff)
  then show "n = len" using run l up by (simp add: FsRead_def track_up_def)
qed
section \<open>Frames and pages\<close>

text \<open>The two samples of the \<open>k\<close>-th frame of a track, from the bytes of its file, and the samples of its
  \<open>k\<close>-th page, silence included.\<close>
definition frame_of :: "wav_info \<Rightarrow> (nat \<Rightarrow> u8 option) \<Rightarrow> nat \<Rightarrow> i16 list" where
  "frame_of I f k =
     (let B = unat (BlockAlign I) in WavConvert I (map (\<lambda>i. the (f (unat (DataOffset I) + k * B + i))) [0..<B]) 1)"

definition page_of :: "wav_info \<Rightarrow> (nat \<Rightarrow> u8 option) \<Rightarrow> nat \<Rightarrow> nat \<Rightarrow> i16 list" where
  "page_of I f tot k =
     (let Out = concat (map (frame_of I f) [1024 * k..<min (1024 * (k + 1)) tot])
      in Out @ replicate (2048 - length Out) 0)"

lemma DecodeSample_cong:
  assumes "unat Bits \<in> {8, 16, 24, 32}" and "\<And>i. i < unat Bits div 8 \<Longrightarrow> bget p (a + i) = bget q (b + i)"
  shows "DecodeSample p a Bits = DecodeSample q b Bits"
proof -
  have w: "Bits = of_nat (unat Bits)" by simp
  consider "Bits = 8" | "Bits = 16" | "Bits = 24" | "Bits = 32" using assms(1) w by (auto simp del: of_nat_unat)
  then show ?thesis
  proof cases
    case 1
    then show ?thesis using assms(2) [of 0] by (simp add: DecodeSample_def)
  next
    case 2
    then show ?thesis using assms(2) Le16_cong [of p a q b] by (simp add: DecodeSample_def)
  next
    case 3
    have "Le16 p (a + 1) = Le16 q (b + 1)"
      by (rule Le16_cong) (use assms(2) [of "1 + _"] 3 in \<open>simp add: add.assoc\<close>)
    then show ?thesis using 3 by (simp add: DecodeSample_def)
  next
    case 4
    have "Le16 p (a + 2) = Le16 q (b + 2)"
      by (rule Le16_cong) (use assms(2) [of "2 + _"] 4 in \<open>simp add: add.assoc\<close>)
    then show ?thesis using 4 by (simp add: DecodeSample_def)
  qed
qed

text \<open>Converting is done frame by frame.\<close>
lemma WavConvert_frames:
  assumes I: "supported I"
  shows "WavConvert I Src n = concat (map (\<lambda>k. WavConvert I (bsub Src (k * unat (BlockAlign I)) (unat (BlockAlign I))) 1) [0..<n])"
proof -
  let ?B = "unat (BlockAlign I)" and ?b = "unat (BitsPerSample I) div 8"
  have bits: "unat (BitsPerSample I) \<in> {8, 16, 24, 32}" and ch: "1 \<le> unat (Channels I)"
    and B: "?B = unat (Channels I) * ?b" using I by (simp_all add: supported_def)
  have left: "?b \<le> ?B" using mult_le_mono1 [OF ch, of ?b] by (simp add: B)
  have right: "?b + ?b \<le> ?B" if "1 < Channels I"
  proof -
    from that have "2 \<le> unat (Channels I)" by (simp add: word_less_nat_alt)
    then have "2 * ?b \<le> unat (Channels I) * ?b" by (rule mult_le_mono1)
    then show ?thesis unfolding B by linarith
  qed
  have cut: "DecodeSample (bsub Src (k * ?B) ?B) off (BitsPerSample I) = DecodeSample Src (k * ?B + off) (BitsPerSample I)"
    if "off + ?b \<le> ?B" for k off
    by (rule DecodeSample_cong [OF bits]) (use that in \<open>simp add: add.assoc del: bget_nth\<close>)
  have "concat (map F [0..<1]) = F 0" for F :: "nat \<Rightarrow> i16 list" by simp
  then show ?thesis
    unfolding WavConvert_def Let_def
    using cut [of 0] left cut [of ?b] right by (intro arg_cong [where f = concat] map_cong refl) auto
qed

lemma frame_size_bounds: "supported I \<Longrightarrow> 0 < unat (BlockAlign I) \<and> unat (BlockAlign I) \<le> 32"
proof -
  assume I: "supported I"
  then have "unat (BitsPerSample I) div 8 \<in> {1, 2, 3, 4}" "1 \<le> unat (Channels I)" "unat (Channels I) \<le> 8"
    and B: "unat (BlockAlign I) = unat (Channels I) * (unat (BitsPerSample I) div 8)"
    by (auto simp: supported_def)
  then show ?thesis using mult_le_mono [of "unat (Channels I)" 8 "unat (BitsPerSample I) div 8" 4] by auto
qed

lemma length_frame_of [simp]: "length (frame_of I f k) = 2"
  by (simp add: frame_of_def WavConvert_def Let_def)

text \<open>The frames of a run of the file.\<close>
lemma read_frames:
  assumes I: "supported I" and len: "n * unat (BlockAlign I) \<le> length out"
    and bytes: "\<forall>i < n * unat (BlockAlign I). f (unat (DataOffset I) + s * unat (BlockAlign I) + i) = Some (out ! i)"
  shows "WavConvert I out n = concat (map (frame_of I f) [s..<s + n])"
proof -
  let ?B = "unat (BlockAlign I)"
  have "WavConvert I (bsub out (k * ?B) ?B) 1 = frame_of I f (s + k)" if k: "k < n" for k
  proof -
    have "bsub out (k * ?B) ?B = map (\<lambda>i. the (f (unat (DataOffset I) + (s + k) * ?B + i))) [0..<?B]"
    proof (rule nth_equalityI)
      fix i assume "i < length (bsub out (k * ?B) ?B)"
      then have i: "i < ?B" by simp
      have "k * ?B + i < (k + 1) * ?B" using i by simp
      also have "\<dots> \<le> n * ?B" using k by (intro mult_le_mono1) simp
      finally have lt: "k * ?B + i < n * ?B" .
      from bytes [rule_format, OF lt] i lt len
      show "bsub out (k * ?B) ?B ! i = map (\<lambda>i. the (f (unat (DataOffset I) + (s + k) * ?B + i))) [0..<?B] ! i"
        by (simp add: bsub_def algebra_simps)
    qed simp
    then show ?thesis by (simp add: frame_of_def Let_def)
  qed
  then have "WavConvert I out n = concat (map (\<lambda>k. frame_of I f (s + k)) [0..<n])"
    unfolding WavConvert_frames [OF I, of out n] by (intro arg_cong [where f = concat] map_cong refl) simp
  also have "map (\<lambda>k. frame_of I f (s + k)) [0..<n] = map (frame_of I f) [s..<s + n]"
    by (rule nth_equalityI) simp_all
  finally show ?thesis .
qed
section \<open>The invariant of the player\<close>

definition player_ok :: "(int \<Rightarrow> medium) \<Rightarrow> 'p player_scheme \<Rightarrow> bool" where
  "player_ok med p \<longleftrightarrow> fs_ok med p \<and> (PlayAllocated p \<longrightarrow> ring_ready p) \<and> (PlayActive p \<longrightarrow> PlayAllocated p) \<and>
     PlayActive p = Active p \<and>
     (Active p \<longrightarrow> node_ok p (PlayNode p) \<and> data_ok (PlayNode p) (PlayInfo p) \<and> SampleRate (PlayInfo p) \<noteq> 0 \<and>
        TotalFrames p = DataBytes (PlayInfo p) div ucast (BlockAlign (PlayInfo p)) \<and> FramesDone p \<le> TotalFrames p \<and>
        DataPages p = PlayFilled p \<and> unat (DataPages p) \<le> unat (FramesDone p) \<and> Started p = PlayStarted p)"

text \<open>The state without what starting the stream and looking at its position change.\<close>
definition off_start :: "'p player_scheme \<Rightarrow> 'p player_scheme" where
  "off_start p = (off_pos p)\<lparr>PlayStarted := False, Started := False\<rparr>"

lemma pos_start: "frames (same off_pos) m \<Longrightarrow> frames (same off_start) (m :: ('p player_scheme, 'a) state)"
  by (rule framesI [OF same_rel]) (auto simp: same_def off_start_def dest: sameD)

lemma bus_start: "frames (same off_bus) m \<Longrightarrow> frames (same off_start) (m :: ('p player_scheme, 'a) state)"
  by (intro pos_start bus_pos)

lemmas to_start [quiet] = register_changes [THEN bus_start] bus_changes [THEN bus_start] engine_quiet [THEN bus_start]
  NextPage_quiet [THEN pos_start] Played_quiet [THEN pos_start] UpdatePlayPosition_quiet [THEN pos_start]

lemma start_change [quiet]:
  "frames (same off_start) (change (\<lambda>h. h\<lparr>PlayHwTotal := a, PlayLastHw := b, PlayStarted := c\<rparr>))"
  "frames (same off_start) (change (Started_update f))"
  by (rule same_change, simp add: off_start_def off_pos_def off_bus_def)+

lemma Start_quiet [quiet]: "frames (same off_start) HdaStreamStart"
  unfolding HdaStreamStart_def by (intro quiet)

lemma StartIfFilled_quiet [quiet]: "frames (same off_start) StartIfFilled"
  unfolding StartIfFilled_def by (intro quiet)

lemma off_startD:
  assumes "off_start p' = off_start p"
  shows "PlayFilled p' = PlayFilled p" "PlayActive p' = PlayActive p" "PlayAllocated p' = PlayAllocated p"
    "PlayPages p' = PlayPages p" "DmaSamples p' = DmaSamples p" "PlayNode p' = PlayNode p" "PlayInfo p' = PlayInfo p"
    "Active p' = Active p" "ReadFailed p' = ReadFailed p" "TotalFrames p' = TotalFrames p"
    "FramesDone p' = FramesDone p" "DataPages p' = DataPages p" "Finished p' = Finished p" "Public p' = Public p"
  using assms [THEN arg_cong [where f = PlayFilled]] assms [THEN arg_cong [where f = PlayActive]]
    assms [THEN arg_cong [where f = PlayAllocated]] assms [THEN arg_cong [where f = PlayPages]]
    assms [THEN arg_cong [where f = DmaSamples]] assms [THEN arg_cong [where f = PlayNode]]
    assms [THEN arg_cong [where f = PlayInfo]] assms [THEN arg_cong [where f = Active]]
    assms [THEN arg_cong [where f = ReadFailed]] assms [THEN arg_cong [where f = TotalFrames]]
    assms [THEN arg_cong [where f = FramesDone]] assms [THEN arg_cong [where f = DataPages]]
    assms [THEN arg_cong [where f = Finished]] assms [THEN arg_cong [where f = Public]]
  by (simp_all add: off_start_def off_pos_def off_bus_def)

text \<open>The part of the state the file system is about.\<close>
definition fs_part :: "'a filesys_scheme \<Rightarrow> _" where
  "fs_part st = (Phys st, Log st, Blocks st, Parts st, PartPages st, Volumes st, PartCursor st, CwdVolume st, CwdPathText st)"

lemma fs_part_cong:
  assumes "fs_part st' = fs_part st"
  shows "fs_ok med st' = fs_ok med st" "node_ok st' N = node_ok st N" "track_up med st' N = track_up med st N"
    "file_at med st' N = file_at med st N"
  using assms
  by (simp_all add: fs_part_def fs_ok_def mounts_ok_def storage_ok_def part_pages_def node_ok_def FsVolumeCount_def
      track_up_def FatOf_def file_at_def fun_eq_iff)

lemma fs_part_start: "off_start p' = off_start p \<Longrightarrow> fs_part p' = fs_part p"
proof -
  have "fs_part (off_start p) = fs_part p" for p :: "'p player_scheme"
    by (simp add: fs_part_def off_start_def off_pos_def off_bus_def)
  then show "off_start p' = off_start p \<Longrightarrow> ?thesis" by metis
qed

text \<open>Starting keeps the two flags together.\<close>
lemma HdaStart_flag: "run_state HdaStreamStart h = (x, h') \<Longrightarrow> PlayActive h \<Longrightarrow> PlayStarted h'"
  by (auto simp: HdaStreamStart_def split: prod.splits)

lemma StartIfFilled_flag:
  "run_state StartIfFilled p = (x, p') \<Longrightarrow> PlayActive p \<Longrightarrow> Started p = PlayStarted p \<Longrightarrow> Started p' = PlayStarted p'"
  by (auto simp: StartIfFilled_def split: prod.splits if_splits dest: HdaStart_flag)

lemma player_ok_start:
  assumes "player_ok med p" "off_start p' = off_start p" "Started p' = PlayStarted p'"
  shows "player_ok med p'"
  using assms(1,3)
  unfolding player_ok_def ring_ready_def off_startD [OF assms(2)] fs_part_cong [OF fs_part_start [OF assms(2)]]
  by blast
section \<open>One page\<close>

text \<open>The arithmetic of a read: neither the offset nor the length wraps, the read stays in the file, and
  it fits the buffer of the source.\<close>
lemma read_bounds:
  fixes p :: "'p player_scheme"
  defines "B \<equiv> unat (BlockAlign (PlayInfo p))" and "Al \<equiv> ucast (BlockAlign (PlayInfo p)) :: u32"
  assumes ok: "player_ok med p" and act: "Active p" and more: "FramesDone p < TotalFrames p"
  shows "0 < B" "B \<le> 32" "unat Al = B" "unat (NextFrames p) = min 1024 (unat (TotalFrames p) - unat (FramesDone p))"
    "0 < unat (NextFrames p)"
    "unat (DataOffset (PlayInfo p) + FramesDone p * Al) = unat (DataOffset (PlayInfo p)) + unat (FramesDone p) * B"
    "unat (NextFrames p * Al) = unat (NextFrames p) * B" "unat (NextFrames p * Al) \<le> 32768"
    "unat (DataOffset (PlayInfo p)) + unat (FramesDone p) * B + unat (NextFrames p) * B \<le> unat (EntrySize (NodeEntry (PlayNode p)))"
proof -
  have dat: "data_ok (PlayNode p) (PlayInfo p)" and tot: "TotalFrames p = DataBytes (PlayInfo p) div Al"
    using ok act by (simp_all add: player_ok_def Al_def)
  have I: "supported (PlayInfo p)" using dat by (simp add: data_ok_def)
  show B: "0 < B" "B \<le> 32" using frame_size_bounds [OF I] by (simp_all add: B_def)
  show Al: "unat Al = B" by (simp add: Al_def B_def unat_ucast_le)
  have T: "unat (TotalFrames p) = unat (DataBytes (PlayInfo p)) div B" by (simp add: tot unat_div_word Al)
  have lt: "unat (FramesDone p) < unat (TotalFrames p)" using more by (simp add: word_less_nat_alt)
  have sub: "unat (TotalFrames p - FramesDone p) = unat (TotalFrames p) - unat (FramesDone p)"
    using lt by (subst unat_sub_nowrap) (simp_all add: word_le_nat_alt)
  show n: "unat (NextFrames p) = min 1024 (unat (TotalFrames p) - unat (FramesDone p))"
    by (auto simp: NextFrames_def Let_def HDA_STREAM_PAGE_FRAMES_def word_less_nat_alt sub)
  then show "0 < unat (NextFrames p)" using lt by simp
  have sum: "unat (FramesDone p) + unat (NextFrames p) \<le> unat (TotalFrames p)" using n lt by simp
  have "(unat (FramesDone p) + unat (NextFrames p)) * B \<le> unat (TotalFrames p) * B" using sum by (rule mult_le_mono1)
  also have "\<dots> \<le> unat (DataBytes (PlayInfo p))" by (simp add: T)
  finally have bytes: "unat (FramesDone p) * B + unat (NextFrames p) * B \<le> unat (DataBytes (PlayInfo p))"
    by (simp add: distrib_right)
  moreover have room: "unat (DataOffset (PlayInfo p)) + unat (DataBytes (PlayInfo p)) \<le> unat (EntrySize (NodeEntry (PlayNode p)))"
    using dat by (simp add: data_ok_def)
  ultimately show fits: "unat (DataOffset (PlayInfo p)) + unat (FramesDone p) * B + unat (NextFrames p) * B
      \<le> unat (EntrySize (NodeEntry (PlayNode p)))" by linarith
  have lt32: "unat (EntrySize (NodeEntry (PlayNode p))) < 2 ^ 32" using unat_u32_lt by simp
  have "unat (FramesDone p * Al) = unat (FramesDone p) * B"
    using fits lt32 Al by (subst unat_mult_nowrap) simp_all
  then show "unat (DataOffset (PlayInfo p) + FramesDone p * Al) = unat (DataOffset (PlayInfo p)) + unat (FramesDone p) * B"
    using fits lt32 by (subst unat_add_nowrap) simp_all
  show len: "unat (NextFrames p * Al) = unat (NextFrames p) * B"
    using fits lt32 Al by (subst unat_mult_nowrap) simp_all
  have "unat (NextFrames p) * B \<le> 1024 * 32" using n B(2) by (intro mult_le_mono) simp_all
  then show "unat (NextFrames p * Al) \<le> 32768" by (simp add: len)
qed

text \<open>What filling a page does to the state.\<close>
definition filled :: "fs_volume list \<Rightarrow> u64 \<Rightarrow> i16 list \<Rightarrow> nat \<Rightarrow> 'p player_scheme \<Rightarrow> 'p player_scheme" where
  "filled vs Page S n p = p\<lparr>Volumes := vs, DmaSamples := (DmaSamples p)(Page := S), PlayFilled := PlayFilled p + 1,
     FramesDone := FramesDone p + of_nat n, DataPages := DataPages p + 1\<rparr>"

lemma FillOne_outcome:
  assumes ok: "player_ok med p" and act: "Active p" and more: "FramesDone p < TotalFrames p"
    and run: "run_state (FillOne Page) p = (r, p')"
  obtains (failed) vs where "\<not> r" "p' = p\<lparr>Volumes := vs, ReadFailed := True\<rparr>" "\<not> track_up med p (PlayNode p)"
      "fs_ok med p'" "node_ok p' (PlayNode p)" "\<not> track_up med p' (PlayNode p)"
  | (page) vs n where "r" "0 < n" "n \<le> unat (NextFrames p)" "track_up med p (PlayNode p) \<Longrightarrow> n = unat (NextFrames p)"
      "off_start p' = off_start (filled vs Page (let Out = concat (map (frame_of (PlayInfo p) (file_at med p (PlayNode p)))
          [unat (FramesDone p)..<unat (FramesDone p) + n]) in Out @ replicate (2048 - length Out) 0) n p)"
      "Started p' = PlayStarted p'" "fs_ok med (p\<lparr>Volumes := vs\<rparr>)" "node_ok (p\<lparr>Volumes := vs\<rparr>) (PlayNode p)"
      "track_up med (p\<lparr>Volumes := vs\<rparr>) (PlayNode p) = track_up med p (PlayNode p)"
      "file_at med (p\<lparr>Volumes := vs\<rparr>) (PlayNode p) = file_at med p (PlayNode p)"
proof -
  let ?N = "PlayNode p" and ?I = "PlayInfo p" and ?Al = "ucast (BlockAlign (PlayInfo p)) :: u32"
  let ?off = "DataOffset ?I + FramesDone p * ?Al" and ?len = "NextFrames p * ?Al" and ?B = "unat (BlockAlign (PlayInfo p))"
  note b = read_bounds [OF ok act more]
  have fs: "fs_ok med p" "node_ok p ?N" and I: "supported ?I" and flag: "PlayActive p" "Started p = PlayStarted p"
    using ok act by (simp_all add: player_ok_def data_ok_def)
  obtain got out st where rd: "FsRead ?N ?off ?len p = (got, out, st)" by (metis prod_cases3)
  from FsRead_outcome(1) [OF fs rd] obtain vs where st: "st = p\<lparr>Volumes := vs\<rparr>" by blast
  note rest = FsRead_outcome(2-) [OF fs rd, unfolded st]
  have whole: "got = ?len" if "track_up med p ?N"
    by (rule rest(8) [OF that]) (simp only: b(6,7) b(9))
  show thesis
  proof (cases "got < ?Al")
    case True
    have res: "\<not> r" "p' = p\<lparr>Volumes := vs, ReadFailed := True\<rparr>"
      using run True by (auto simp: FillOne_def fs_read_def rd st Let_def)
    have "\<not> track_up med p ?N"
    proof
      assume "track_up med p ?N"
      from whole [OF this] True have "unat (NextFrames p) * ?B < ?B" by (simp add: word_less_nat_alt b(3,7))
      with b(5) show False by simp
    qed
    moreover have "fs_part p' = fs_part (p\<lparr>Volumes := vs\<rparr>)" by (simp add: res(2) fs_part_def)
    note fs_part_cong [OF this]
    ultimately show thesis using failed [OF res] rest(1,2,4) by simp
  next
    case False
    let ?F = "got div ?Al"
    have n: "unat ?F = unat got div ?B" by (simp add: unat_div_word b(3))
    have ge: "?B \<le> unat got" using False by (simp add: word_le_nat_alt b(3) not_less)
    have pos: "0 < unat ?F" unfolding n using div_le_mono [OF ge, of ?B] b(1) by simp
    have le: "unat ?F \<le> unat (NextFrames p)"
      unfolding n using div_le_mono [OF rest(5), of ?B] b(1) by (simp add: b(7))
    have full: "unat ?F = unat (NextFrames p)" if "track_up med p ?N" unfolding n using b(1) by (simp add: whole [OF that] b(7) del: unat_div_word)
    have "length out = unat got" using rest(6) ge b(1) by (auto simp: word_neq_0_iff_unat)
    moreover have "unat ?F * ?B \<le> unat got" unfolding n by simp
    ultimately have len: "unat ?F * ?B \<le> length out" by simp
    have bytes: "\<forall>i < unat ?F * ?B. file_at med p ?N (unat (DataOffset ?I) + unat (FramesDone p) * ?B + i) = Some (out ! i)"
      using rest(7) \<open>unat ?F * ?B \<le> unat got\<close> by (auto simp: b(6))
    note samples = read_frames [OF I len bytes]
    let ?S = "let Out = WavConvert ?I out (unat ?F) in Out @ replicate (2048 - length Out) 0"
    let ?p = "filled vs Page ?S (unat ?F) p"
    obtain x where start: "run_state StartIfFilled ?p = (x, p')" and r
      using run False flag(1)
      by (auto simp: FillOne_def fs_read_def rd st Let_def FillPage_def HdaStreamCommit_def filled_def
          HDA_STREAM_PAGE_FRAMES_def split: prod.splits)
    have "Started p' = PlayStarted p'" by (rule StartIfFilled_flag [OF start]) (simp_all add: filled_def flag)
    with page [OF \<open>r\<close> pos le full _ _ rest(1,2,4,3)] sameD [OF StartIfFilled_quiet start]
    show thesis by (simp add: samples)
  qed
qed
text \<open>On a device that is up: how far the track has come, and the last 32 pages of it in the ring.\<close>
definition track_in :: "(int \<Rightarrow> medium) \<Rightarrow> 'p player_scheme \<Rightarrow> bool" where
  "track_in med p \<longleftrightarrow> (Active p \<and> track_up med p (PlayNode p) \<longrightarrow> \<not> ReadFailed p \<and>
     unat (FramesDone p) = min (1024 * unat (DataPages p)) (unat (TotalFrames p)) \<and>
     (\<forall>k < unat (DataPages p). unat (DataPages p) \<le> k + 32 \<longrightarrow>
        DmaSamples p (PlayPages p ! (k mod 32)) =
        page_of (PlayInfo p) (file_at med p (PlayNode p)) (unat (TotalFrames p)) k))"

lemma track_in_start:
  assumes "off_start p' = off_start p"
  shows "track_in med p' = track_in med p"
  unfolding track_in_def off_startD [OF assms] fs_part_cong [OF fs_part_start [OF assms]] ..

lemma filled_fields [simp]:
  "Volumes (filled vs Page S n p) = vs" "PlayFilled (filled vs Page S n p) = PlayFilled p + 1"
  "FramesDone (filled vs Page S n p) = FramesDone p + of_nat n" "DataPages (filled vs Page S n p) = DataPages p + 1"
  "DmaSamples (filled vs Page S n p) = (DmaSamples p)(Page := S)" "PlayPages (filled vs Page S n p) = PlayPages p"
  "PlayNode (filled vs Page S n p) = PlayNode p" "PlayInfo (filled vs Page S n p) = PlayInfo p"
  "Active (filled vs Page S n p) = Active p" "PlayActive (filled vs Page S n p) = PlayActive p"
  "PlayAllocated (filled vs Page S n p) = PlayAllocated p" "TotalFrames (filled vs Page S n p) = TotalFrames p"
  "Started (filled vs Page S n p) = Started p" "PlayStarted (filled vs Page S n p) = PlayStarted p"
  "ReadFailed (filled vs Page S n p) = ReadFailed p" "ring_ready (filled vs Page S n p) = ring_ready p"
  by (simp_all add: filled_def ring_ready_def)

lemma fs_part_filled: "fs_part (filled vs Page S n p) = fs_part (p\<lparr>Volumes := vs\<rparr>)"
  by (simp add: fs_part_def filled_def)

lemma FillOne_ok:
  assumes ok: "player_ok med p" and act: "Active p" and more: "FramesDone p < TotalFrames p"
    and run: "run_state (FillOne Page) p = (r, p')"
  shows "player_ok med p' \<and> Active p' \<and> TotalFrames p' = TotalFrames p \<and>
    (if r then unat (FramesDone p) < unat (FramesDone p') else FramesDone p' = FramesDone p \<and> ReadFailed p' \<and> \<not> track_up med p (PlayNode p))"
  using ok act more run
proof (cases rule: FillOne_outcome)
  case (failed vs)
  then have "player_ok med p'" using ok by (auto simp: player_ok_def ring_ready_def)
  with failed act show ?thesis by simp
next
  case (page vs n)
  let ?S = "let Out = concat (map (frame_of (PlayInfo p) (file_at med p (PlayNode p)))
          [unat (FramesDone p)..<unat (FramesDone p) + n]) in Out @ replicate (2048 - length Out) 0"
  let ?q = "filled vs Page ?S n p"
  have F: "FramesDone p \<le> TotalFrames p" "DataPages p = PlayFilled p" "unat (DataPages p) \<le> unat (FramesDone p)"
    using ok act unfolding player_ok_def by blast+
  note b = read_bounds [OF ok act more]
  have sum: "unat (FramesDone p) + n \<le> unat (TotalFrames p)"
  proof -
    have "n \<le> unat (TotalFrames p) - unat (FramesDone p)" using page(3) b(4) by simp
    moreover have "unat (FramesDone p) < unat (TotalFrames p)" using more by (simp add: word_less_nat_alt)
    ultimately show ?thesis by linarith
  qed
  have don1: "unat (FramesDone p + of_nat n) = unat (FramesDone p) + n"
    using sum unat_u32_lt [of "TotalFrames p"] by (subst unat_add_nowrap) (simp_all add: unat_of_nat_small)
  have pages: "unat (DataPages p + 1) = unat (DataPages p) + 1"
    using F(3) more unat_u32_lt [of "TotalFrames p"] by (subst unat_add_nowrap) (simp_all add: word_less_nat_alt)
  have "player_ok med ?q"
    using ok act page(2,7,8) sum don1 pages F
    by (simp add: player_ok_def fs_part_cong [OF fs_part_filled] word_le_nat_alt)
  note step = player_ok_start [OF this page(5,6)]
  have "unat (FramesDone p) < unat (FramesDone p')" using don1 page(2) by (simp add: off_startD(11) [OF page(5)])
  with page(1) act step show ?thesis by (simp add: off_startD(8,10) [OF page(5)])
qed

lemma FillOne_track:
  assumes ok: "player_ok med p" and act: "Active p" and more: "FramesDone p < TotalFrames p"
    and run: "run_state (FillOne Page) p = (r, p')" and tr: "track_in med p"
    and slot: "Page = PlayPages p ! (unat (PlayFilled p) mod 32)"
  shows "track_in med p'"
  using ok act more run
proof (cases rule: FillOne_outcome)
  case (failed vs)
  then show ?thesis by (simp add: track_in_def)
next
  case (page vs n)
  let ?N = "PlayNode p" and ?T = "unat (TotalFrames p)" and ?P = "unat (DataPages p)"
  let ?S = "let Out = concat (map (frame_of (PlayInfo p) (file_at med p ?N)) [unat (FramesDone p)..<unat (FramesDone p) + n])
    in Out @ replicate (2048 - length Out) 0"
  let ?q = "filled vs Page ?S n p"
  show ?thesis
  proof (cases "track_up med p ?N")
    case False
    then have "\<not> track_up med ?q ?N" by (simp add: fs_part_cong [OF fs_part_filled] page(9))
    then have "track_in med ?q" by (simp add: track_in_def)
    then show ?thesis by (simp add: track_in_start [OF page(5)])
  next
  case up: True
  have dn: "unat (FramesDone p) = min (1024 * ?P) ?T" and rf: "\<not> ReadFailed p"
    and old: "\<forall>k < ?P. ?P \<le> k + 32 \<longrightarrow> DmaSamples p (PlayPages p ! (k mod 32)) = page_of (PlayInfo p) (file_at med p ?N) ?T k"
    using tr act up by (simp_all add: track_in_def)
  have F: "DataPages p = PlayFilled p" "?P \<le> unat (FramesDone p)" and ring: "length (PlayPages p) = 32" "distinct (PlayPages p)"
    using ok act by (auto simp: player_ok_def ring_ready_def PLAY_PAGES_def)
  have lt: "unat (FramesDone p) < ?T" using more by (simp add: word_less_nat_alt)
  then have F0: "unat (FramesDone p) = 1024 * ?P" using dn by simp
  have n: "n = min 1024 (?T - 1024 * ?P)" using page(4) [OF up] read_bounds(4) [OF ok act more] F0 by simp
  have sum: "unat (FramesDone p) + n = min (1024 * (?P + 1)) ?T" using lt by (simp add: F0 n)
  have dn': "unat (FramesDone p + of_nat n) = unat (FramesDone p) + n"
    using sum unat_u32_lt [of "TotalFrames p"] by (subst unat_add_nowrap) (simp_all add: unat_of_nat_small n)
  have pages: "unat (DataPages p + 1) = ?P + 1"
    using F(2) lt unat_u32_lt [of "TotalFrames p"] by (subst unat_add_nowrap) simp_all
  have new: "?S = page_of (PlayInfo p) (file_at med p ?N) ?T ?P"
    unfolding page_of_def sum unfolding F0 ..
  have "DmaSamples ?q (PlayPages p ! (k mod 32)) = page_of (PlayInfo p) (file_at med p ?N) ?T k"
    if k: "k < ?P + 1" "?P + 1 \<le> k + 32" for k
  proof (cases "k = ?P")
    case True
    then show ?thesis using new slot F(1) by simp
  next
    case False
    then have "k mod 32 \<noteq> ?P mod 32" using k by (intro same_slot) simp_all
    then have "PlayPages p ! (k mod 32) \<noteq> Page" using ring F(1) by (simp add: slot nth_eq_iff_index_eq)
    then show ?thesis using old k False by simp
  qed
  then have "track_in med ?q"
    using rf dn' sum
    by (simp add: track_in_def fs_part_cong [OF fs_part_filled] page(10) pages)
  then show ?thesis by (simp add: track_in_start [OF page(5)])
  qed
qed
section \<open>A poll\<close>

definition ring_full :: "'h hda_scheme \<Rightarrow> bool" where
  "ring_full h \<longleftrightarrow> PlayFilled h \<ge> PlayHwTotal h + 32"

lemma pos_off_start: "off_pos p' = off_pos p \<Longrightarrow> off_start p' = off_start (p :: 'p player_scheme) \<and> Started p' = Started p"
proof
  assume eq: "off_pos p' = off_pos p"
  then show "off_start p' = off_start p" by (simp add: off_start_def)
  have "Started (off_pos q) = Started q" for q :: "'p player_scheme" by (simp add: off_pos_def off_bus_def)
  with eq show "Started p' = Started p" by metis
qed

lemma NextPage_ok:
  assumes ok: "player_ok med p" and act: "Active p" and run: "run_state HdaStreamNextPage p = (Page, q)"
  shows "player_ok med q" "off_start q = off_start p" "Started q = Started p" "Page = 0 \<longrightarrow> ring_full q"
    "Page \<noteq> 0 \<longrightarrow> Page = PlayPages q ! (unat (PlayFilled q) mod 32)"
proof -
  have pos: "off_pos q = off_pos p" by (rule sameD [OF NextPage_quiet run])
  note st = pos_off_start [OF pos]
  have flag: "Started p = PlayStarted p" "PlayActive p" and ring: "ring_ready p" using ok act by (auto simp: player_ok_def)
  show "off_start q = off_start p" "Started q = Started p" using st by simp_all
  have "Started q = PlayStarted q" using st flag off_posD(2) [OF pos] by simp
  then show "player_ok med q" using player_ok_start [OF ok] st by blast
  note out = NextPage_outcome(2) [OF run flag(2)]
  then show "Page \<noteq> 0 \<longrightarrow> Page = PlayPages q ! (unat (PlayFilled q) mod 32)" by (simp add: off_posD(5) [OF pos])
  have "unat (PlayFilled q) mod 32 < length (PlayPages p)" using ring by (simp add: ring_ready_def PLAY_PAGES_def)
  then have "PlayPages p ! (unat (PlayFilled q) mod 32) \<noteq> 0" using ring nth_mem unfolding ring_ready_def by metis
  with out show "Page = 0 \<longrightarrow> ring_full q" by (auto simp: ring_full_def off_posD(5) [OF pos] split: if_splits)
qed

lemma PollLoop_ok:
  "player_ok med p \<Longrightarrow> Active p \<Longrightarrow> run_state (PollLoop n) p = (x, p') \<Longrightarrow>
   player_ok med p' \<and> Active p' \<and> TotalFrames p' = TotalFrames p \<and> (track_in med p \<longrightarrow> track_in med p') \<and>
   (unat (TotalFrames p) - unat (FramesDone p) < n \<longrightarrow> InputDone p' \<or> ring_full p')"
proof (induction n arbitrary: p)
  case 0
  then show ?case by simp
next
  case (Suc n)
  show ?case
  proof (cases "FramesDone p < TotalFrames p \<and> \<not> ReadFailed p")
    case False
    then have "p' = p" "InputDone p" using Suc.prems(3) by (auto simp: InputDone_def)
    with Suc.prems show ?thesis by simp
  next
    case more: True
    obtain Page q where pg: "run_state HdaStreamNextPage p = (Page, q)" by (cases "run_state HdaStreamNextPage p")
    note np = NextPage_ok [OF Suc.prems(1,2) pg]
    note f = off_startD [OF np(2)]
    show ?thesis
    proof (cases "Page = 0")
      case True
      with Suc.prems(3) more pg have "p' = q" by simp
      with np True f Suc.prems(2) track_in_start [OF np(2)] show ?thesis by simp
    next
      case False
      obtain r u where fo: "run_state (FillOne Page) q = (r, u)" by (cases "run_state (FillOne Page) q")
      have q: "Active q" "FramesDone q < TotalFrames q" using more Suc.prems(2) f by simp_all
      note fill = FillOne_ok [OF np(1) q fo]
      have tr: "track_in med p \<longrightarrow> track_in med u"
        using FillOne_track [OF np(1) q fo] np(5) False by (simp add: track_in_start [OF np(2)])
      have run: "(if r then run_state (PollLoop n) u else ((), u)) = (x, p')"
        using Suc.prems(3) more pg False fo by (cases r) simp_all
      show ?thesis
      proof (cases r)
        case False
        with run fill tr f show ?thesis by (auto simp: InputDone_def)
      next
        case True
        with fill have u: "player_ok med u" "Active u" "TotalFrames u = TotalFrames p" "unat (FramesDone p) < unat (FramesDone u)"
          using f by simp_all
        from True run have "run_state (PollLoop n) u = (x, p')" by simp
        note ih = Suc.IH [OF u(1,2) this]
        have "unat (TotalFrames p) - unat (FramesDone p) < Suc n \<Longrightarrow> unat (TotalFrames u) - unat (FramesDone u) < n"
          using conjunct1 [OF more] u(4) unfolding u(3) word_less_nat_alt by linarith
        with ih u(3) tr show ?thesis by auto
      qed
    qed
  qed
qed
text \<open>Stopping.\<close>
lemma PlayerStop_outcome:
  assumes "run_state PlayerStop p = (x, p')"
  shows "\<not> Active p \<Longrightarrow> p' = p"
    and "player_ok med p \<Longrightarrow> player_ok med p' \<and> \<not> Active p' \<and> fs_part p' = fs_part p \<and> Finished p' = Finished p"
proof -
  show stay: "\<not> Active p \<Longrightarrow> p' = p" using assms by (simp add: PlayerStop_def)
  assume ok: "player_ok med p"
  show "player_ok med p' \<and> \<not> Active p' \<and> fs_part p' = fs_part p \<and> Finished p' = Finished p"
  proof (cases "Active p")
    case False
    with stay ok show ?thesis by simp
  next
    case True
    then have act: "PlayActive p" using ok by (simp add: player_ok_def)
    let ?q = "p\<lparr>PlayActive := False, PlayStarted := False\<rparr>"
    obtain y k where k: "run_state (ProgramStream (BdlPage p) (of_nat (BUFFER_FRAMES * 4)) 0 0x0011) ?q = (y, k)"
      by (cases "run_state (ProgramStream (BdlPage p) (of_nat (BUFFER_FRAMES * 4)) 0 0x0011) ?q")
    have bus: "off_bus k = off_bus ?q" by (rule sameD [OF ProgramStream_quiet k])
    have res: "p' = k\<lparr>Active := False, Started := False\<rparr>"
      using assms True act k by (auto simp: PlayerStop_def HdaStreamClose_def split: prod.splits)
    have "off_start k = off_start ?q" using bus by (simp add: off_start_def off_pos_def)
    note f = off_startD [OF this] and fs = fs_part_start [OF this]
    have "fs_part p' = fs_part p" using fs by (simp add: res fs_part_def)
    with ok f show ?thesis unfolding player_ok_def fs_part_cong [OF \<open>fs_part p' = fs_part p\<close>]
      by (simp add: res ring_ready_def)
  qed
qed

lemma PlayerStop_left:
  assumes "run_state PlayerStop p = (x, p')" "player_ok med p"
  shows "InputDone p' = InputDone p \<and> DataPages p' = DataPages p \<and> PlayHwTotal p' = PlayHwTotal p"
proof (cases "Active p")
  case True
  then have act: "PlayActive p" using assms(2) by (simp add: player_ok_def)
  let ?q = "p\<lparr>PlayActive := False, PlayStarted := False\<rparr>"
  obtain y k where k: "run_state (ProgramStream (BdlPage p) (of_nat (BUFFER_FRAMES * 4)) 0 0x0011) ?q = (y, k)"
    by (cases "run_state (ProgramStream (BdlPage p) (of_nat (BUFFER_FRAMES * 4)) 0 0x0011) ?q")
  have bus: "off_bus k = off_bus ?q" by (rule sameD [OF ProgramStream_quiet k])
  have res: "p' = k\<lparr>Active := False, Started := False\<rparr>"
    using assms(1) True act k by (auto simp: PlayerStop_def HdaStreamClose_def split: prod.splits)
  have "off_start k = off_start ?q" using bus by (simp add: off_start_def off_pos_def)
  note f = off_startD [OF this]
  show ?thesis using f off_busD(2) [OF bus] by (simp add: res InputDone_def)
next
  case False
  with PlayerStop_outcome(1) [OF assms(1)] show ?thesis by simp
qed

lemma Finish_outcome:
  assumes "player_ok med p" "run_state Finish p = (x, p')"
  shows "player_ok med p' \<and> \<not> Active p' \<and> Finished p' \<and> InputDone p' = InputDone p \<and> DataPages p' = DataPages p \<and>
    PlayHwTotal p' = PlayHwTotal p"
proof -
  let ?q = "p\<lparr>Finished := True\<rparr>"
  have part: "fs_part ?q = fs_part p" by (simp add: fs_part_def)
  have q: "player_ok med ?q"
    using assms(1) unfolding player_ok_def fs_part_cong [OF part] by (auto simp: ring_ready_def)
  have "run_state PlayerStop ?q = (x, p')" using assms(2) by (simp add: Finish_def)
  from PlayerStop_outcome(2) [OF this q] PlayerStop_left [OF this q] show ?thesis by (simp add: InputDone_def)
qed

lemma StartLate_outcome:
  assumes ok: "player_ok med p" and act: "Active p" and run: "run_state StartLate p = (x, q)"
  shows "off_start q = off_start p" "player_ok med q" "\<not> InputDone p \<Longrightarrow> q = p"
    "InputDone p \<Longrightarrow> DataPages p \<noteq> 0 \<Longrightarrow> Started q"
proof -
  have pact: "PlayActive p" and flag: "Started p = PlayStarted p" using ok act by (simp_all add: player_ok_def)
  have "frames (same off_start) StartLate" unfolding StartLate_def by (intro quiet)
  from sameD [OF this run] show st: "off_start q = off_start p" .
  have "Started q = PlayStarted q"
    using run flag HdaStart_flag [OF _ pact] by (auto simp: StartLate_def split: if_splits prod.splits)
  from player_ok_start [OF ok st this] show "player_ok med q" .
  show "\<not> InputDone p \<Longrightarrow> q = p" using run by (simp add: StartLate_def)
  show "InputDone p \<Longrightarrow> DataPages p \<noteq> 0 \<Longrightarrow> Started q"
    using run by (auto simp: StartLate_def word_neq_0_iff_unat word_less_nat_alt split: if_splits prod.splits)
qed

lemma PollTail_outcome:
  assumes ok: "player_ok med p" and act: "Active p" and run: "run_state PollTail p = (x, p')"
  obtains (waiting) "\<not> InputDone p" "p' = p"
  | (draining) "InputDone p" "Active p'" "off_start p' = off_start p" "player_ok med p'" "Started p'" "PlayHwTotal p' < DataPages p'"
  | (over) "InputDone p" "\<not> Active p'" "Finished p'" "player_ok med p'" "InputDone p'" "DataPages p' \<le> PlayHwTotal p'"
proof -
  obtain y q where late: "run_state StartLate p = (y, q)" by (cases "run_state StartLate p")
  note q = StartLate_outcome [OF ok act late] and f = off_startD [OF StartLate_outcome(1) [OF ok act late]]
  have rest: "run_state (if DataPages q = 0 \<and> InputDone q then Finish else FinishIfPlayed) q = (x, p')"
    using run late by (simp add: PollTail_def)
  have inq: "InputDone q = InputDone p" using f by (simp add: InputDone_def)
  show thesis
  proof (cases "InputDone p")
    case False
    with rest q(3) show thesis by (intro waiting) (simp_all add: FinishIfPlayed_def)
  next
    case inp: True
    show thesis
    proof (cases "DataPages p = 0")
      case True
      with rest inp inq f have "run_state Finish q = (x, p')" by simp
      from Finish_outcome [OF q(2) this] inp inq f True show thesis by (intro over) simp_all
    next
      case False
      have sq: "Started q" by (rule q(4) [OF inp False])
      obtain played u where u: "run_state HdaStreamPlayed q = (played, u)" by (cases "run_state HdaStreamPlayed q")
      have pos: "off_pos u = off_pos q" by (rule sameD [OF Played_quiet u])
      note us = pos_off_start [OF pos]
      have pact: "PlayActive q" "Started q = PlayStarted q" using q(2) f act by (simp_all add: player_ok_def)
      have hw: "played = PlayHwTotal u" using u pact by (auto simp: HdaStreamPlayed_def split: prod.splits)
      have uok: "player_ok med u" using player_ok_start [OF q(2)] us sq pact off_posD(2) [OF pos] by simp
      have end_run: "run_state (when_do (played \<ge> DataPages u) Finish) u = (x, p')"
        using rest False inp inq f sq u by (simp add: FinishIfPlayed_def)
      show thesis
      proof (cases "played \<ge> DataPages u")
        case True
        with end_run have "run_state Finish u = (x, p')" by simp
        moreover have "InputDone u" using off_startD [OF conjunct1 [OF us]] inq inp by (simp add: InputDone_def)
        ultimately show thesis using Finish_outcome [OF uok] inp True hw by (intro over) simp_all
      next
        case False
        with end_run have "p' = u" by simp
        with False uok us q(1) sq act inp off_startD(8) [of u q] f(8) show thesis
          by (intro draining) (simp_all add: hw)
      qed
    qed
  qed
qed
text \<open>What a poll does while a track is playing, whatever the device and the medium do: the invariant
  is kept; it returns with the filling loop done, at the end of the input or with a full ring; and either
  it goes on, or the input is at its end and the player has stopped and says that it is finished.\<close>
lemma PlayerPoll_outcome:
  assumes ok: "player_ok med p" and act: "Active p" and run: "run_state PlayerPoll p = (x, p')"
  shows "player_ok med p' \<and> (track_in med p \<longrightarrow> track_in med p') \<and>
    (if Active p' then TotalFrames p' = TotalFrames p \<and> (if InputDone p' then Started p' \<and> PlayHwTotal p' < DataPages p' else ring_full p')
     else Finished p' \<and> InputDone p' \<and> DataPages p' \<le> PlayHwTotal p')"
proof -
  obtain y q where loop: "run_state (PollLoop (unat (TotalFrames p - FramesDone p) + 1)) p = (y, q)"
    by (cases "run_state (PollLoop (unat (TotalFrames p - FramesDone p) + 1)) p")
  have "FramesDone p \<le> TotalFrames p" using ok act unfolding player_ok_def by blast
  then have fuel: "unat (TotalFrames p) - unat (FramesDone p) < unat (TotalFrames p - FramesDone p) + 1"
    by (simp add: unat_sub_nowrap)
  from PollLoop_ok [OF ok act loop] fuel have q: "player_ok med q" "Active q" "TotalFrames q = TotalFrames p"
    "track_in med p \<longrightarrow> track_in med q" "InputDone q \<or> ring_full q" by blast+
  have tail: "run_state PollTail q = (x, p')" using run act loop by (simp add: PlayerPoll_def)
  from q(1,2) tail show ?thesis
  proof (cases rule: PollTail_outcome)
    case waiting
    with q show ?thesis by simp
  next
    case draining
    note f = off_startD [OF draining(3)]
    have "InputDone p'" using draining(1) f by (simp add: InputDone_def)
    with draining q(3,4) f track_in_start [OF draining(3), of med] show ?thesis by simp
  next
    case over
    then show ?thesis by (simp add: track_in_def)
  qed
qed

section \<open>Starting\<close>

text \<open>What every read keeps, the parser keeps.\<close>
lemma WavLoop_keeps:
  assumes "\<And>st off len n out st'. P st \<Longrightarrow> FsRead N off len st = (n, out, st') \<Longrightarrow> P st'"
  shows "P st \<Longrightarrow> WavLoop N HaveFmt Pos Info st = (c, I, st') \<Longrightarrow> P st'"
proof (induction "2 ^ 32 - unat Pos" arbitrary: HaveFmt Pos Info st rule: less_induct)
  case less
  obtain n Chunk st1 where rd: "FsRead N Pos 8 st = (n, Chunk, st1)" by (metis prod_cases3)
  note P1 = assms [OF less.prems(1) rd]
  have P2: "P st2" if "FsRead N off len st1 = (m, out, st2)" for off len m out st2 by (rule assms [OF P1 that])
  have again: "P st'" if "WavLoop N H Nxt J s = (c, I, st')" "P s" "\<not> Nxt \<le> Pos" for H J s Nxt
    by (rule less.hyps [OF pos_grows [OF that(3)] that(2,1)])
  show ?case
    using less.prems P1 P2 again
    unfolding WavLoop.simps [of N HaveFmt Pos Info st] Let_def rd prod.case
    by (auto simp del: if_weak_cong split: if_splits prod.splits)
qed

lemma WavParse_keeps:
  assumes "\<And>st off len n out st'. P st \<Longrightarrow> FsRead N off len st = (n, out, st') \<Longrightarrow> P st'"
  shows "P st \<Longrightarrow> WavParse N Info st = (c, I, st') \<Longrightarrow> P st'"
proof -
  assume P: "P st" and run: "WavParse N Info st = (c, I, st')"
  obtain n Head st1 where rd: "FsRead N 0 12 st = (n, Head, st1)" by (metis prod_cases3)
  note P1 = assms [OF P rd]
  have "P st'" if "WavLoop N H Pos J st1 = (c, I, st')" for H Pos J
    by (rule WavLoop_keeps [where P = P, OF assms P1 that])
  with run P P1 show "P st'" unfolding WavParse_def Let_def rd prod.case by (auto split: if_splits)
qed

lemma FsResolve_volumes: "FsResolve Input st = (r, st') \<Longrightarrow> \<exists>vs. st' = st\<lparr>Volumes := vs\<rparr>"
proof -
  have "\<exists>vs. st = st\<lparr>Volumes := vs\<rparr>" by (rule exI [of _ "Volumes st"]) simp
  moreover have "\<exists>vs. SetFat v V st = st\<lparr>Volumes := vs\<rparr>" for v V by (auto simp: SetFat_def)
  ultimately show "FsResolve Input st = (r, st') \<Longrightarrow> ?thesis"
    unfolding FsResolve_def by (auto split: sum.splits prod.splits)
qed
text \<open>Taking the memory of the ring changes nothing else.\<close>
definition off_mem :: "'h hda_scheme \<Rightarrow> 'h hda_scheme" where
  "off_mem h = h\<lparr>Phys := one_page, PlayBdl := 0, PlayPages := [], PlayAllocated := False\<rparr>"

lemma mem_quiet [quiet]:
  "frames (same off_mem) AllocLow" "frames (same off_mem) (FreeLow a)"
  "frames (same off_mem) (change (\<lambda>h. h\<lparr>PlayBdl := b, PlayPages := f h\<rparr>))"
  "frames (same off_mem) (change (\<lambda>h. h\<lparr>PlayPages := f h\<rparr>))"
  "frames (same off_mem) (change (\<lambda>h. h\<lparr>PlayBdl := b\<rparr>))"
  "frames (same off_mem) (change (\<lambda>h. h\<lparr>PlayAllocated := c\<rparr>))"
  unfolding AllocLow_def FreeLow_def
  by (rule same_change same_state, auto simp: off_mem_def split: prod.splits)+

lemma AllocPlayPages_quiet [quiet]: "frames (same off_mem) (AllocPlayPages n)"
  by (induction n) (auto intro!: quiet)

lemma AllocRing_quiet [quiet]: "frames (same off_mem) AllocRing"
  unfolding AllocRing_def by (intro quiet)

text \<open>Opening the stream, as the player uses it.\<close>
definition fs_rest :: "'a filesys_scheme \<Rightarrow> _" where
  "fs_rest st = (Log st, Blocks st, Parts st, PartPages st, Volumes st, PartCursor st, CwdVolume st, CwdPathText st)"

lemma fs_rest_cong:
  assumes "fs_rest st' = fs_rest st" "pmm_ok (Phys st')"
  shows "fs_ok med st \<Longrightarrow> fs_ok med st'" "node_ok st' N = node_ok st N" "track_up med st' N = track_up med st N"
    "file_at med st' N = file_at med st N"
  using assms
  by (simp_all add: fs_rest_def fs_ok_def mounts_ok_def storage_ok_def part_pages_def node_ok_def FsVolumeCount_def
      track_up_def FatOf_def file_at_def fun_eq_iff)

lemma open_fields:
  fixes p :: "'p player_scheme"
  assumes m: "off_mem q = off_mem p"
    and d: "off_dma p' = off_dma (q\<lparr>PlayFilled := 0, PlayHwTotal := 0, PlayLastHw := 0, PlayStarted := False, PlayActive := True\<rparr>)"
  shows "fs_rest p' = fs_rest p" "PlayActive p'" "PlayFilled p' = 0" "\<not> PlayStarted p'" "PlayAllocated p' = PlayAllocated q"
    "PlayPages p' = PlayPages q" "PlayNode p' = PlayNode p" "PlayInfo p' = PlayInfo p" "Active p' = Active p"
  using m [THEN arg_cong [where f = fs_rest]] m [THEN arg_cong [where f = PlayNode]] m [THEN arg_cong [where f = PlayInfo]]
    m [THEN arg_cong [where f = Active]] off_dmaD [OF d] d [THEN arg_cong [where f = fs_rest]]
    d [THEN arg_cong [where f = PlayNode]] d [THEN arg_cong [where f = PlayInfo]] d [THEN arg_cong [where f = Active]]
  by (simp_all add: off_mem_def off_dma_def off_bus_def fs_rest_def)

lemma mem_fields:
  fixes p :: "'p player_scheme"
  assumes m: "off_mem q = off_mem p"
  shows "fs_rest q = fs_rest p" "PlayActive q = PlayActive p" "Active q = Active p" "PlayNode q = PlayNode p"
    "PlayInfo q = PlayInfo p"
  using m [THEN arg_cong [where f = fs_rest]] m [THEN arg_cong [where f = PlayActive]] m [THEN arg_cong [where f = Active]]
    m [THEN arg_cong [where f = PlayNode]] m [THEN arg_cong [where f = PlayInfo]]
  by (simp_all add: off_mem_def fs_rest_def)

lemma HdaStreamOpen_player:
  fixes p :: "'p player_scheme"
  assumes ok: "player_ok med p" and act: "\<not> Active p" and run: "run_state (HdaStreamOpen Rate) p = (c, p')"
  shows "fs_rest p' = fs_rest p \<and> pmm_ok (Phys p') \<and> PlayNode p' = PlayNode p \<and> PlayInfo p' = PlayInfo p \<and> \<not> Active p' \<and>
    (if c = 1 then PlayActive p' \<and> PlayAllocated p' \<and> ring_ready p' \<and> PlayFilled p' = 0 \<and> \<not> PlayStarted p' \<and> Rate \<noteq> 0
     else \<not> PlayActive p' \<and> (PlayAllocated p' \<longrightarrow> ring_ready p'))"
proof -
  have pmm: "pmm_ok (Phys p)" using ok by (simp add: player_ok_def fs_ok_def mounts_ok_def storage_ok_def)
  have idle: "\<not> PlayActive p" and ring: "PlayAllocated p \<longrightarrow> ring_ready p" using ok act by (simp_all add: player_ok_def)
  have mem: "pmm_ok (Phys p')" using HdaStreamOpen_outcome [OF pmm run] by blast
  have zero: "FormatForRate 0 = 0" by (simp add: FormatForRate_def)
  show ?thesis
  proof (cases "StreamOk p \<and> FormatForRate Rate \<noteq> 0")
    case False
    then have "c \<noteq> 1 \<and> p' = p" using run idle
      by (auto simp: HdaStreamOpen_split HDA_STREAM_ERR_UNAVAILABLE_def HDA_STREAM_ERR_RATE_def split: if_splits)
    with mem idle ring act show ?thesis by simp
  next
    case go: True
    then have rate: "Rate \<noteq> 0" using zero by auto
    obtain got q where q: "(if PlayAllocated p then (True, p) else run_state AllocRing p) = (got, q)" by fastforce
    have mq: "off_mem q = off_mem p"
      using q sameD [OF AllocRing_quiet, of p got q] by (auto split: if_splits)
    have alloc: "if got then PlayAllocated q \<and> ring_ready q else \<not> PlayAllocated q"
    proof (cases "PlayAllocated p")
      case True
      with q ring show ?thesis by auto
    next
      case False
      with q have "run_state AllocRing p = (got, q)" by simp
      from AllocRing_outcome [OF pmm this] False show ?thesis
        using taken_ring by (auto split: if_splits)
    qed
    have rest: "(if got then run_state (OpenTail (FormatForRate Rate)) q else (HDA_STREAM_ERR_MEMORY, q)) = (c, p')"
      using run go idle q by (simp add: HdaStreamOpen_split)
    show ?thesis
    proof (cases got)
      case False
      with rest have "p' = q" "c \<noteq> 1" by (simp_all add: HDA_STREAM_ERR_MEMORY_def)
      with mem_fields [OF mq] idle act mem alloc False show ?thesis by simp
    next
      case True
      with rest have "run_state (OpenTail (FormatForRate Rate)) q = (c, p')" by simp
      from OpenTail_outcome [OF this] have c: "c = 1" and d: "off_dma p' = off_dma (q\<lparr>PlayFilled := 0, PlayHwTotal := 0,
          PlayLastHw := 0, PlayStarted := False, PlayActive := True\<rparr>)" by blast+
      from open_fields [OF mq d] mem act alloc True c rate show ?thesis by (simp add: ring_ready_def)
    qed
  qed
qed
definition idle :: "(int \<Rightarrow> medium) \<Rightarrow> 'p player_scheme \<Rightarrow> bool" where
  "idle med p \<longleftrightarrow> fs_ok med p \<and> (PlayAllocated p \<longrightarrow> ring_ready p) \<and> \<not> PlayActive p \<and> \<not> Active p"

lemma idle_ok: "idle med p \<longleftrightarrow> player_ok med p \<and> \<not> Active p"
  by (auto simp: idle_def player_ok_def)

lemma idle_update:
  "fs_part q = fs_part p \<Longrightarrow> PlayAllocated q = PlayAllocated p \<Longrightarrow> PlayPages q = PlayPages p \<Longrightarrow> PlayActive q = PlayActive p \<Longrightarrow>
   Active q = Active p \<Longrightarrow> idle med p \<Longrightarrow> idle med q"
  using fs_part_cong(1) [of q p med] by (simp add: idle_def ring_ready_def)

text \<open>What starting a track leaves: nothing playing and an error, or a consistent player.\<close>
lemma PlayerStart_outcome:
  assumes ok: "player_ok med p" and run: "run_state (PlayerStart Path) p = (e, p')"
  shows "player_ok med p' \<and> (if e = None then track_in med p' \<and> (Active p' \<or> Finished p') else \<not> Active p' \<and> LastError p' \<noteq> PLAYER_ERR_NONE)"
proof -
  obtain y p1 where stop: "run_state PlayerStop p = (y, p1)" by (cases "run_state PlayerStop p")
  have i1: "idle med p1" using PlayerStop_outcome(2) [OF stop ok] by (simp add: idle_ok)
  let ?p2 = "p1\<lparr>LastError := PLAYER_ERR_NONE, Finished := False\<rparr>"
  have i2: "idle med ?p2" using i1 by (rule idle_update [rotated -1]) (simp_all add: fs_part_def)
  obtain res p3 where res: "FsResolve Path ?p2 = (res, p3)" by (cases "FsResolve Path ?p2")
  obtain vs where p3: "p3 = ?p2\<lparr>Volumes := vs\<rparr>" using FsResolve_volumes [OF res] by blast
  have fs2: "fs_ok med ?p2" using i2 by (simp add: idle_def)
  note fs3 = FsResolve_ok [OF fs2 res]
  have i3: "idle med p3" using i2 fs3 by (simp add: idle_def p3 ring_ready_def)
  have fails: "idle med q \<Longrightarrow> run_state (start_fails c m) q = (e, p') \<Longrightarrow> c \<noteq> PLAYER_ERR_NONE \<Longrightarrow> ?thesis" for q c m
  proof -
    assume i: "idle med q" and r: "run_state (start_fails c m) q = (e, p')" "c \<noteq> PLAYER_ERR_NONE"
    then have p': "p' = q\<lparr>LastError := c\<rparr>" "e \<noteq> None" by (auto simp: start_fails_def)
    have "idle med p'" using i by (rule idle_update [rotated -1]) (simp_all add: p' fs_part_def)
    then show ?thesis using p' r(2) by (auto simp: idle_ok)
  qed
  note errs = PLAYER_ERR_NONE_def PLAYER_ERR_FS_def PLAYER_ERR_DIR_def PLAYER_ERR_NOTWAV_def PLAYER_ERR_FORMAT_def
    PLAYER_ERR_NODATA_def PLAYER_ERR_RATE_def PLAYER_ERR_MEMORY_def PLAYER_ERR_DEVICE_def PLAYER_ERR_READ_def
  show ?thesis
  proof (cases res)
    case (Inl s)
    with run stop res have "run_state (start_fails PLAYER_ERR_FS (FsErrorText s)) p3 = (e, p')"
      by (simp add: PlayerStart_def)
    then show ?thesis by (rule fails [OF i3]) (simp add: errs)
  next
    case (Inr N)
    let ?p4 = "p3\<lparr>PlayNode := N\<rparr>"
    have i4: "idle med ?p4" using i3 by (rule idle_update [rotated -1]) (simp_all add: fs_part_def)
    have N: "0 \<le> NodeVolume N" "NodeVolume N < FsVolumeCount ?p4" using fs3 Inr by (simp_all add: FsVolumeCount_def)
    show ?thesis
    proof (cases "NodeIsDir N")
      case True
      with run stop res Inr have "run_state (start_fails PLAYER_ERR_DIR ''is a directory'') ?p4 = (e, p')"
        by (simp add: PlayerStart_def)
      then show ?thesis by (rule fails [OF i4]) (simp add: errs)
    next
      case wav: False
      obtain c I p5 where parse: "WavParse N (PlayInfo ?p4) ?p4 = (c, I, p5)" by (metis prod_cases3)
      have fs4: "fs_ok med ?p4" using i4 by (simp add: idle_def)
      have keep: "\<exists>vs. p5 = ?p4\<lparr>Volumes := vs\<rparr>"
      proof (rule WavParse_keeps [where P = "\<lambda>st. \<exists>vs. st = ?p4\<lparr>Volumes := vs\<rparr>", OF _ _ parse])
        show "\<exists>vs. ?p4 = ?p4\<lparr>Volumes := vs\<rparr>" by (rule exI [of _ "Volumes ?p4"]) simp
        show "\<exists>vs. st' = ?p4\<lparr>Volumes := vs\<rparr>" if "\<exists>vs. st = ?p4\<lparr>Volumes := vs\<rparr>" "FsRead N off len st = (n, out, st')" for st off len n out st'
          using that by (auto simp: FsRead_def SetFat_def split: if_splits prod.splits)
      qed
      then obtain ws where p5: "p5 = ?p4\<lparr>Volumes := ws\<rparr>" by blast
      note safe = WavParse_outcome [OF fs4 N parse]
      have "node_ok p5 N"
      proof (rule conjunct2 [OF WavParse_keeps [where P = "\<lambda>st. fs_ok med st \<and> node_ok st N", OF _ _ parse]])
        show "fs_ok med ?p4 \<and> node_ok ?p4 N" using fs4 N by (simp add: node_ok_def)
        show "fs_ok med st' \<and> node_ok st' N" if "fs_ok med st \<and> node_ok st N" "FsRead N off len st = (n, out, st')" for st off len n out st'
          using FsRead_outcome(2,3) [of med st N off len n out st'] that by blast
      qed
      let ?p6 = "p5\<lparr>PlayInfo := I\<rparr>"
      have i6: "idle med ?p6" and n6: "node_ok ?p6 N"
      proof -
        have part: "fs_part ?p6 = fs_part p5" by (simp add: fs_part_def)
        have fs5: "fs_ok med p5" using safe by blast
        show "node_ok ?p6 N" using fs_part_cong(2) [OF part] \<open>node_ok p5 N\<close> by simp
        show "idle med ?p6" unfolding idle_def fs_part_cong(1) [OF part] using i4 fs5
          by (auto simp: idle_def p5 ring_ready_def)
      qed
      have ok6: "player_ok med ?p6" "\<not> Active ?p6" using i6 by (simp_all add: idle_ok)
      show ?thesis
      proof (cases "c = 1")
        case False
        with run stop res Inr wav parse have "run_state (start_fails (WavCodeToPlayer c) (WavErrorText c)) ?p6 = (e, p')"
          by (simp add: PlayerStart_def)
        then show ?thesis by (rule fails [OF i6]) (simp add: WavCodeToPlayer_def errs)
      next
        case True
        then have dat: "data_ok N I" using safe by blast
        obtain Status p7 where op: "run_state (HdaStreamOpen (SampleRate I)) ?p6 = (Status, p7)"
          by (cases "run_state (HdaStreamOpen (SampleRate I)) ?p6")
        note o = HdaStreamOpen_player [OF ok6 op]
        have fs7: "fs_ok med p7" using fs_rest_cong(1) [of p7 ?p6 med] o i6 by (simp add: idle_def)
        have n7: "node_ok p7 N" using fs_rest_cong(2) [of p7 ?p6 N] o n6 by blast
        show ?thesis
        proof (cases "Status = 1")
          case False
          have i7: "idle med p7" using o fs7 False by (simp add: idle_def)
          obtain k m where "run_state (start_fails k m) p7 = (e, p')" "k \<in> {PLAYER_ERR_RATE, PLAYER_ERR_MEMORY, PLAYER_ERR_DEVICE}"
            using run stop res Inr wav parse op \<open>c = 1\<close> False that by (auto simp: PlayerStart_def split: if_splits)
          then show ?thesis by (intro fails [OF i7]) (auto simp: errs)
        next
          case opened: True
          let ?T = "DataBytes I div ucast (BlockAlign I)"
          let ?p8 = "p7\<lparr>TotalFrames := ?T, FramesDone := 0, DataPages := 0, Started := False, ReadFailed := False,
             Active := True, Public := \<lparr>PubSampleRate = SampleRate I, PubBitsPerSample = BitsPerSample I,
               PubChannels = Channels I, PubTotalSeconds = ?T div SampleRate I\<rparr>\<rparr>"
          have part: "fs_part ?p8 = fs_part p7" by (simp add: fs_part_def)
          have ok8: "player_ok med ?p8" unfolding player_ok_def fs_part_cong [OF part]
            using o opened fs7 n7 dat by (simp add: ring_ready_def p5)
          have tr8: "track_in med ?p8" by (simp add: track_in_def)
          obtain z where "run_state PlayerPoll ?p8 = (z, p')" and e: "e = None"
            using run stop res Inr wav parse op \<open>c = 1\<close> opened
            by (auto simp: PlayerStart_def HDA_STREAM_ERR_RATE_def HDA_STREAM_ERR_MEMORY_def Let_def split: prod.splits)
          from PlayerPoll_outcome [OF ok8 _ this(1)] tr8 e show ?thesis by (auto split: if_splits)
        qed
      qed
    qed
  qed
qed

end
