(* ===== verification/PlayerRuns.thy ===== *)
theory PlayerRuns
  imports PlayerCorrect
begin

text \<open>
  The properties of the player of \<open>kernel/player.c\<close> over whole runs: any sequence of its operations keeps
  its invariant and puts the right samples into the ring, its filling loop ends, and a stream that keeps
  moving is polled to its end.
\<close>

section \<open>Runs\<close>

text \<open>The operations the rest of the kernel calls.\<close>
inductive player_step :: "player \<Rightarrow> player \<Rightarrow> bool" where
  start: "run_state (PlayerStart Path) p = (e, p') \<Longrightarrow> player_step p p'"
| poll: "run_state PlayerPoll p = (x, p') \<Longrightarrow> player_step p p'"
| stop: "run_state PlayerStop p = (x, p') \<Longrightarrow> player_step p p'"
| elapsed: "run_state PlayerElapsedSeconds p = (s, p') \<Longrightarrow> player_step p p'"
| taken: "run_state PlayerTakeFinished p = (b, p') \<Longrightarrow> player_step p p'"

text \<open>Asking for the time only looks at the position.\<close>
lemma Elapsed_pos:
  assumes "run_state PlayerElapsedSeconds p = (s, p')"
  shows "off_pos p' = off_pos p"
proof -
  have "frames (same off_pos) PlayerElapsedSeconds"
    unfolding PlayerElapsedSeconds_def Let_def by (intro quiet)
  from sameD [OF this assms] show ?thesis .
qed

lemma pos_ok:
  assumes ok: "player_ok med p" and pos: "off_pos p' = off_pos p"
  shows "player_ok med p' \<and> track_in med p' = track_in med p"
proof (cases "Active p")
  case True
  note st = pos_off_start [OF pos]
  have "Started p' = PlayStarted p'" using ok True st off_posD(2) [OF pos] by (simp add: player_ok_def)
  with player_ok_start [OF ok] st track_in_start show ?thesis by blast
next
  case False
  note st = conjunct1 [OF pos_off_start [OF pos]]
  note f = off_startD [OF st]
  have "player_ok med p'"
    using ok False unfolding player_ok_def fs_part_cong [OF fs_part_start [OF st]] by (simp add: f ring_ready_def)
  with track_in_start [OF st] show ?thesis by blast
qed

lemma flag_ok:
  assumes "player_ok med p" "track_in med p"
  shows "player_ok med (p\<lparr>Finished := b\<rparr>) \<and> track_in med (p\<lparr>Finished := b\<rparr>)"
proof -
  have part: "fs_part (p\<lparr>Finished := b\<rparr>) = fs_part p" by (simp add: fs_part_def)
  show ?thesis using assms unfolding player_ok_def track_in_def fs_part_cong [OF part]
    by (auto simp: ring_ready_def)
qed

lemma still: "\<not> Active p \<Longrightarrow> run_state PlayerPoll p = ((), p)" by (simp add: PlayerPoll_def)

lemma player_step_ok:
  assumes "player_step p p'" "player_ok med p" "track_in med p"
  shows "player_ok med p' \<and> track_in med p'"
  using assms
proof cases
  case start
  from PlayerStart_outcome [OF assms(2) this] show ?thesis by (auto simp: track_in_def split: if_splits)
next
  case poll
  show ?thesis
  proof (cases "Active p")
    case True
    from PlayerPoll_outcome [OF assms(2) this poll] assms(3) show ?thesis by blast
  next
    case False
    then have "p' = p" using poll by (simp add: still)
    with assms show ?thesis by simp
  qed
next
  case stop
  from PlayerStop_outcome(2) [OF stop assms(2)] show ?thesis by (simp add: track_in_def)
next
  case elapsed
  from pos_ok [OF assms(2) Elapsed_pos [OF elapsed]] assms(3) show ?thesis by simp
next
  case taken
  then have "p' = p\<lparr>Finished := False\<rparr>" by (simp add: PlayerTakeFinished_def)
  with flag_ok [OF assms(2,3)] show ?thesis by simp
qed

lemma player_runs_ok:
  assumes "player_step\<^sup>*\<^sup>* p p'" "player_ok med p" "track_in med p"
  shows "player_ok med p' \<and> track_in med p'"
  using assms
proof (induction rule: rtranclp_induct)
  case (step q r)
  from step.IH [OF step.prems] player_step_ok [OF step.hyps(2)] show ?case by blast
qed simp

section \<open>The filling loop\<close>

lemma PollLoop_more:
  "player_ok med p \<Longrightarrow> Active p \<Longrightarrow> unat (TotalFrames p) - unat (FramesDone p) < n \<Longrightarrow>
   unat (TotalFrames p) - unat (FramesDone p) < m \<Longrightarrow> run_state (PollLoop n) p = run_state (PollLoop m) p"
proof (induction n arbitrary: p m)
  case (Suc n)
  then obtain k where m: "m = Suc k" by (cases m) simp_all
  show ?case
  proof (cases "FramesDone p < TotalFrames p \<and> \<not> ReadFailed p")
    case more: True
    obtain Page q where pg: "run_state HdaStreamNextPage p = (Page, q)" by (cases "run_state HdaStreamNextPage p")
    note np = NextPage_ok [OF Suc.prems(1,2) pg]
    note f = off_startD [OF np(2)]
    obtain r u where fo: "run_state (FillOne Page) q = (r, u)" by (cases "run_state (FillOne Page) q")
    have q: "Active q" "FramesDone q < TotalFrames q" using more Suc.prems(2) f by simp_all
    note fill = FillOne_ok [OF np(1) q fo]
    have "run_state (PollLoop n) u = run_state (PollLoop k) u" if r
    proof -
      have "player_ok med u" "Active u" "TotalFrames u = TotalFrames p" "unat (FramesDone p) < unat (FramesDone u)"
        using fill that f by simp_all
      moreover have "unat (FramesDone p) < unat (TotalFrames p)" using more by (simp add: word_less_nat_alt)
      ultimately show ?thesis using Suc.prems(3,4) m by (intro Suc.IH) auto
    qed
    with more pg fo show ?thesis by (simp add: m)
  qed (auto simp: m)
qed simp

section \<open>Playing to the end\<close>

text \<open>The state after a number of polls.\<close>
primrec polled :: "nat \<Rightarrow> 'p player_scheme \<Rightarrow> 'p player_scheme" where
  "polled 0 p = p"
| "polled (Suc n) p = snd (run_state PlayerPoll (polled n p))"

text \<open>A stream that is not started has few pages and no position.\<close>
definition early :: "'p player_scheme \<Rightarrow> bool" where
  "early p \<longleftrightarrow> Started p \<or> PlayFilled p < 16 \<and> PlayHwTotal p = 0"

lemma NextPage_early:
  assumes "player_ok med p" "Active p" "early p" "run_state HdaStreamNextPage p = (Page, q)"
  shows "early q" "\<not> Started q \<Longrightarrow> Page \<noteq> 0"
proof -
  note np = NextPage_ok [OF assms(1,2,4)]
  have flag: "Started p = PlayStarted p" "PlayActive p" using assms(1,2) by (auto simp: player_ok_def)
  have "q = p" if "\<not> Started p"
    using assms(4) that flag by (auto simp: HdaStreamNextPage_def UpdatePlayPosition_def split: if_splits)
  with np(3) assms(3) show e: "early q" by (auto simp: early_def)
  assume not: "\<not> Started q"
  show "Page \<noteq> 0"
  proof
    assume "Page = 0"
    with np(4) have "PlayFilled q \<ge> PlayHwTotal q + 32" by (simp add: ring_full_def)
    with e not show False by (simp add: early_def word_le_nat_alt word_less_nat_alt)
  qed
qed

lemma StartIfFilled_early:
  assumes "run_state StartIfFilled p = (x, p')" "PlayHwTotal p = 0 \<or> Started p"
  shows "early p'"
  using assms
  by (auto simp: StartIfFilled_def early_def HdaStreamFilled_def word_less_nat_alt word_le_nat_alt not_le split: if_splits prod.splits)

lemma FillOne_early:
  assumes ok: "player_ok med p" and act: "Active p" and more: "FramesDone p < TotalFrames p" and e: "early p"
    and run: "run_state (FillOne Page) p = (r, p')"
  shows "early p'"
proof -
  let ?N = "PlayNode p" and ?I = "PlayInfo p" and ?Al = "ucast (BlockAlign (PlayInfo p)) :: u32"
  have fs: "fs_ok med p" "node_ok p ?N" and pact: "PlayActive p" using ok act by (simp_all add: player_ok_def)
  obtain got out st where rd: "FsRead ?N (DataOffset ?I + FramesDone p * ?Al) (NextFrames p * ?Al) p = (got, out, st)"
    by (metis prod_cases3)
  from FsRead_outcome(1) [OF fs rd] obtain vs where st: "st = p\<lparr>Volumes := vs\<rparr>" by blast
  show ?thesis
  proof (cases "got < ?Al")
    case True
    with run e show ?thesis by (auto simp: FillOne_def fs_read_def rd st Let_def early_def)
  next
    case False
    then obtain x q where "run_state StartIfFilled q = (x, p')" "PlayHwTotal q = PlayHwTotal p" "Started q = Started p"
      using run pact
      by (auto simp: FillOne_def fs_read_def rd st Let_def FillPage_def HdaStreamCommit_def split: prod.splits)
    with e show ?thesis by (intro StartIfFilled_early) (auto simp: early_def)
  qed
qed

lemma PollLoop_early:
  "player_ok med p \<Longrightarrow> Active p \<Longrightarrow> early p \<Longrightarrow> run_state (PollLoop n) p = (x, p') \<Longrightarrow>
   unat (TotalFrames p) - unat (FramesDone p) < n \<Longrightarrow> early p' \<and> (Started p' \<or> InputDone p')"
proof (induction n arbitrary: p)
  case (Suc n)
  show ?case
  proof (cases "FramesDone p < TotalFrames p \<and> \<not> ReadFailed p")
    case False
    with Suc.prems show ?thesis by (auto simp: InputDone_def)
  next
    case more: True
    obtain Page q where pg: "run_state HdaStreamNextPage p = (Page, q)" by (cases "run_state HdaStreamNextPage p")
    note np = NextPage_ok [OF Suc.prems(1,2) pg] and e = NextPage_early [OF Suc.prems(1-3) pg]
    note f = off_startD [OF np(2)]
    show ?thesis
    proof (cases "Page = 0")
      case True
      with Suc.prems(4) more pg have "p' = q" by simp
      with e True show ?thesis by blast
    next
      case False
      obtain r u where fo: "run_state (FillOne Page) q = (r, u)" by (cases "run_state (FillOne Page) q")
      have q: "Active q" "FramesDone q < TotalFrames q" using more Suc.prems(2) f by simp_all
      note fill = FillOne_ok [OF np(1) q fo] and eu = FillOne_early [OF np(1) q e(1) fo]
      have run: "(if r then run_state (PollLoop n) u else ((), u)) = (x, p')"
        using Suc.prems(4) more pg False fo by (cases r) simp_all
      show ?thesis
      proof (cases r)
        case False
        with run fill eu show ?thesis by (auto simp: InputDone_def)
      next
        case True
        have "player_ok med u" "Active u" "TotalFrames u = TotalFrames p" "unat (FramesDone p) < unat (FramesDone u)"
          using fill True f by simp_all
        moreover have "unat (FramesDone p) < unat (TotalFrames p)" using more by (simp add: word_less_nat_alt)
        moreover have "run_state (PollLoop n) u = (x, p')" using True run by simp
        ultimately show ?thesis using Suc.prems(5) eu by (intro Suc.IH) auto
      qed
    qed
  qed
qed simp

text \<open>A track that is still playing after a poll has been started.\<close>
lemma PlayerPoll_starts:
  assumes ok: "player_ok med p" and act: "Active p" and e: "early p" and run: "run_state PlayerPoll p = (x, p')"
    and on: "Active p'"
  shows "Started p'"
proof -
  obtain y q where loop: "run_state (PollLoop (unat (TotalFrames p - FramesDone p) + 1)) p = (y, q)"
    by (cases "run_state (PollLoop (unat (TotalFrames p - FramesDone p) + 1)) p")
  have "FramesDone p \<le> TotalFrames p" using ok act unfolding player_ok_def by blast
  then have fuel: "unat (TotalFrames p) - unat (FramesDone p) < unat (TotalFrames p - FramesDone p) + 1"
    by (simp add: unat_sub_nowrap)
  from PollLoop_ok [OF ok act loop] have q: "player_ok med q" "Active q" by blast+
  note s = PollLoop_early [OF ok act e loop fuel]
  have "run_state PollTail q = (x, p')" using run act loop by (simp add: PlayerPoll_def)
  with q show ?thesis
  proof (cases rule: PollTail_outcome)
    case waiting
    with s show ?thesis by blast
  next
    case over
    with on show ?thesis by simp
  qed
qed

text \<open>The stream keeps moving: while it plays, the driver sees another page fetched at least once in any \<open>m\<close> polls in a row.\<close>
definition moving :: "nat \<Rightarrow> nat \<Rightarrow> 'p player_scheme \<Rightarrow> bool" where
  "moving m n p \<longleftrightarrow> (\<forall>k. k + m \<le> n \<and> Started (polled k p) \<and> Active (polled (k + m) p) \<longrightarrow>
     PlayHwTotal (polled k p) < PlayHwTotal (polled (k + m) p))"

lemma polled_idle: "\<not> Active p \<Longrightarrow> polled n p = p"
  by (induction n) (simp_all add: still)

lemma polled_add: "polled (k + j) p = polled j (polled k p)"
  by (induction j) simp_all

lemma polled_active: "Active (polled n p) \<Longrightarrow> k \<le> n \<Longrightarrow> Active (polled k p)"
  using polled_add [of k "n - k" p] polled_idle [of "polled k p" "n - k"] by force

text \<open>What holds after any number of polls of a track that is still playing.\<close>
lemma polled_playing:
  assumes ok: "player_ok med p" and e: "early p"
  shows "Active (polled k p) \<Longrightarrow> player_ok med (polled k p) \<and> early (polled k p) \<and> TotalFrames (polled k p) = TotalFrames p \<and>
      (k = 0 \<or> Started (polled k p) \<and>
        (unat (PlayHwTotal (polled k p)) < unat (TotalFrames p) \<or> 2 ^ 32 - 32 \<le> unat (PlayHwTotal (polled k p))))"
proof (induction k)
  case 0
  with ok e show ?case by simp
next
  case (Suc k)
  let ?p = "polled k p" and ?q = "polled (Suc k) p"
  have run: "run_state PlayerPoll ?p = ((), ?q)" by (simp add: prod_eq_iff)
  have act: "Active ?p" using Suc.prems by (cases "Active ?p") (simp_all add: still)
  with Suc have p: "player_ok med ?p" "early ?p" "TotalFrames ?p = TotalFrames p" by simp_all
  have started: "Started ?q" by (rule PlayerPoll_starts [OF p(1) act p(2) run Suc.prems])
  note out = PlayerPoll_outcome [OF p(1) act run]
  with Suc.prems have q: "player_ok med ?q" "TotalFrames ?q = TotalFrames p"
    "if InputDone ?q then PlayHwTotal ?q < DataPages ?q else ring_full ?q"
    by (auto simp: p(3) simp del: polled.simps split: if_splits)
  have F: "DataPages ?q = PlayFilled ?q" "unat (DataPages ?q) \<le> unat (TotalFrames p)"
    using q(1,2) Suc.prems unfolding player_ok_def word_le_nat_alt by auto
  have "unat (PlayHwTotal ?q) < unat (TotalFrames p) \<or> 2 ^ 32 - 32 \<le> unat (PlayHwTotal ?q)"
  proof (cases "InputDone ?q")
    case True
    with q(3) F show ?thesis by (auto simp: word_less_nat_alt simp del: polled.simps)
  next
    case False
    with q(3) have "unat (PlayHwTotal ?q + 32) \<le> unat (DataPages ?q)"
      by (simp add: ring_full_def F(1) word_le_nat_alt del: polled.simps)
    moreover have "unat (PlayHwTotal ?q + 32) = unat (PlayHwTotal ?q) + 32" if "unat (PlayHwTotal ?q) < 2 ^ 32 - 32"
      using that by (subst unat_add_nowrap) simp_all
    ultimately show ?thesis using F(2) by (cases "unat (PlayHwTotal ?q) < 2 ^ 32 - 32") simp_all
  qed
  with q(1,2) started show ?case by (auto simp: early_def simp del: polled.simps)
qed

text \<open>Where the stream is at least after a number of rounds of \<open>m\<close> polls.\<close>
lemma polled_position:
  assumes ok: "player_ok med p" and e: "early p" and moves: "moving m n p"
  shows "1 + i * m \<le> n \<Longrightarrow> Active (polled (1 + i * m) p) \<Longrightarrow>
     unat (PlayHwTotal (polled (1 + i * m) p)) < unat (TotalFrames p) \<and> i \<le> unat (PlayHwTotal (polled (1 + i * m) p)) \<or>
     2 ^ 32 - 32 \<le> unat (PlayHwTotal (polled (1 + i * m) p)) \<and>
       i \<le> unat (TotalFrames p) + 1 + (unat (PlayHwTotal (polled (1 + i * m) p)) - (2 ^ 32 - 32))"
proof (induction i)
  case 0
  from polled_playing [OF ok e 0(2)] show ?case by auto
next
  case (Suc i)
  let ?k = "1 + i * m"
  have next_round: "1 + Suc i * m = ?k + m" by simp
  have act: "Active (polled ?k p)" by (rule polled_active [OF Suc.prems(2)]) simp
  then have started: "Started (polled ?k p)" using polled_playing [OF ok e, of ?k] by auto
  have "?k + m \<le> n" "Active (polled (?k + m) p)" using Suc.prems unfolding next_round by simp_all
  with started have grows: "unat (PlayHwTotal (polled ?k p)) < unat (PlayHwTotal (polled (?k + m) p))"
    using moves unfolding moving_def word_less_nat_alt by blast
  have zone: "unat (PlayHwTotal (polled (?k + m) p)) < unat (TotalFrames p) \<or> 2 ^ 32 - 32 \<le> unat (PlayHwTotal (polled (?k + m) p))"
    using polled_playing [OF ok e \<open>Active (polled (?k + m) p)\<close>] by auto
  have "?k \<le> n" using Suc.prems(1) by simp
  from Suc.IH [OF this act] grows zone show ?case unfolding next_round by linarith
qed

lemma over_stays: "\<not> Active (polled k p) \<Longrightarrow> polled (k + j) p = polled k p"
  unfolding polled_add by (rule polled_idle)

lemma polled_over:
  assumes ok: "player_ok med p" and act: "Active p" and e: "early p"
    and moves: "moving m n p" and n: "1 + (unat (TotalFrames p) + 34) * m \<le> n"
  shows "\<not> Active (polled n p) \<and> Finished (polled n p) \<and> InputDone (polled n p) \<and> DataPages (polled n p) \<le> PlayHwTotal (polled n p)"
proof -
  let ?k = "1 + (unat (TotalFrames p) + 34) * m"
  have "\<not> Active (polled ?k p)"
  proof
    assume "Active (polled ?k p)"
    from polled_position [OF ok e moves n this] unat_u32_lt [of "PlayHwTotal (polled ?k p)"] show False by auto
  qed
  then have "\<not> Active (polled n p)" using n polled_active by blast
  then obtain k where k: "\<not> Active (polled k p)" "\<forall>j < k. Active (polled j p)" "k \<le> n"
    using ex_least_nat_le [of "\<lambda>k. \<not> Active (polled k p)" n] by blast
  with act obtain j where j: "k = Suc j" by (cases k) auto
  have run: "run_state PlayerPoll (polled j p) = ((), polled k p)" by (simp add: prod_eq_iff j)
  have on: "Active (polled j p)" using k(2) j by simp
  then have "player_ok med (polled j p)" using polled_playing [OF ok e] by blast
  from PlayerPoll_outcome [OF this on run] k(1)
  have "Finished (polled k p) \<and> InputDone (polled k p) \<and> DataPages (polled k p) \<le> PlayHwTotal (polled k p)" by simp
  with k(1) over_stays [OF k(1), of "n - k"] k(3) show ?thesis by simp
qed

section \<open>A player\<close>

text \<open>A player on the demonstration machine: a file of one frame, whose page is in the ring.\<close>
definition demo_track :: wav_info where
  "demo_track = \<lparr>Channels = 1, BitsPerSample = 8, BlockAlign = 1, SampleRate = 44100, DataOffset = 0, DataBytes = 1\<rparr>"

definition demo_node :: fs_node where
  "demo_node = \<lparr>NodeVolume = 0, NodeIsDir = False, NodeEntry = small_entry\<lparr>EntrySize := 1\<rparr>, NodePath = []\<rparr>"

definition demo_player :: player where
  "demo_player = hda.extend (demo_ring\<lparr>PlayFilled := 1\<rparr>) (player.fields demo_node demo_track
     \<lparr>PubSampleRate = 44100, PubBitsPerSample = 8, PubChannels = 1, PubTotalSeconds = 0\<rparr> 0 False True True False 1 1 1)"

lemma demo_player_fields [simp]:
  "PlayNode demo_player = demo_node" "PlayInfo demo_player = demo_track" "Active demo_player" "Started demo_player"
  "\<not> ReadFailed demo_player" "TotalFrames demo_player = 1" "FramesDone demo_player = 1" "DataPages demo_player = 1"
  "PlayFilled demo_player = 1" "PlayActive demo_player" "PlayStarted demo_player" "PlayAllocated demo_player"
  "PlayHwTotal demo_player = 0" "PlayLastHw demo_player = 0" "PlayPages demo_player = demo_pages"
  "HdaBus demo_player = demo_bus" "fs_part demo_player = fs_part small_fs" "OutStreamBase demo_player = 0x80"
  "HdaBase demo_player = 0"
  by (simp_all add: demo_player_def demo_ring_def demo_hda_def hda.defs player.defs filesys.defs fs_part_def)

lemma demo_player_ok: "player_ok (\<lambda>_. tiny_medium) demo_player"
proof -
  have "node_ok small_fs demo_node" by (simp add: node_ok_def demo_node_def small_fs_def FsVolumeCount_def)
  moreover have "ring_ready demo_player" by (simp add: ring_ready_def demo_pages_ok PLAY_PAGES_def)
  moreover have "data_ok demo_node demo_track" by (simp add: data_ok_def supported_def demo_track_def demo_node_def)
  moreover have "SampleRate demo_track = 44100" "DataBytes demo_track = 1" "BlockAlign demo_track = 1" by (simp_all add: demo_track_def)
  ultimately show ?thesis
    unfolding player_ok_def fs_part_cong [OF demo_player_fields(17)] by (simp add: small_fs_ok)
qed

lemma demo_player_track: "\<not> track_up med demo_player demo_node"
  by (simp add: track_up_def is_file_def demo_node_def small_entry_def ClusterValid_def)

text \<open>A track of 2100 frames, its three pages filled, on a controller that fetches a page for every second access, after \<open>j\<close>
  polls that each looked at the position once; \<open>d\<close> frames have been read from the file.\<close>
definition long_track :: wav_info where
  "long_track = \<lparr>Channels = 1, BitsPerSample = 8, BlockAlign = 1, SampleRate = 44100, DataOffset = 0, DataBytes = 2100\<rparr>"

definition long_node :: fs_node where
  "long_node = \<lparr>NodeVolume = 0, NodeIsDir = False, NodeEntry = small_entry\<lparr>EntrySize := 2100\<rparr>, NodePath = []\<rparr>"

definition slow_bus :: "nat \<Rightarrow> bus" where
  "slow_bus j = \<lparr>Respond = (\<lambda>t. of_nat (length t div 2 mod 32 * 4096)), Trace = replicate j (Rd 4 0x84)\<rparr>"

definition long_player :: "nat \<Rightarrow> u32 \<Rightarrow> player" where
  "long_player j d = hda.extend (demo_ring\<lparr>PlayFilled := 3, HdaBus := slow_bus j, PlayHwTotal := of_nat (j div 2), PlayLastHw := of_nat (j div 2)\<rparr>)
     (player.fields long_node long_track \<lparr>PubSampleRate = 44100, PubBitsPerSample = 8, PubChannels = 1, PubTotalSeconds = 0\<rparr>
       0 False True True False 2100 d 3)"

lemma long_player_fields [simp]:
  "PlayNode (long_player j d) = long_node" "PlayInfo (long_player j d) = long_track" "Active (long_player j d)" "Started (long_player j d)"
  "\<not> ReadFailed (long_player j d)" "TotalFrames (long_player j d) = 2100" "FramesDone (long_player j d) = d" "DataPages (long_player j d) = 3"
  "PlayFilled (long_player j d) = 3" "PlayActive (long_player j d)" "PlayStarted (long_player j d)" "PlayAllocated (long_player j d)"
  "PlayHwTotal (long_player j d) = of_nat (j div 2)" "PlayLastHw (long_player j d) = of_nat (j div 2)" "PlayPages (long_player j d) = demo_pages"
  "HdaBus (long_player j d) = slow_bus j" "fs_part (long_player j d) = fs_part small_fs" "OutStreamBase (long_player j d) = 0x80"
  "HdaBase (long_player j d) = 0"
  by (simp_all add: long_player_def demo_ring_def demo_hda_def hda.defs player.defs filesys.defs fs_part_def)

lemma long_player_ok: "3 \<le> d \<Longrightarrow> d \<le> 2100 \<Longrightarrow> player_ok (\<lambda>_. tiny_medium) (long_player j d)"
proof -
  assume d: "3 \<le> d" "d \<le> 2100"
  have "node_ok small_fs long_node" by (simp add: node_ok_def long_node_def small_fs_def FsVolumeCount_def)
  moreover have "ring_ready (long_player j d)" by (simp add: ring_ready_def demo_pages_ok PLAY_PAGES_def)
  moreover have "data_ok long_node long_track" by (simp add: data_ok_def supported_def long_track_def long_node_def)
  moreover have "SampleRate long_track = 44100" "DataBytes long_track = 2100" "BlockAlign long_track = 1" by (simp_all add: long_track_def)
  ultimately show ?thesis
    using d unfolding player_ok_def fs_part_cong [OF long_player_fields(17)] by (simp add: small_fs_ok word_le_nat_alt)
qed

lemma long_player_update:
  "(long_player j d)\<lparr>HdaBus := slow_bus i, PlayHwTotal := of_nat (i div 2), PlayLastHw := of_nat (i div 2)\<rparr> = long_player i d"
  by (simp add: long_player_def demo_ring_def demo_hda_def hda.defs player.defs filesys.defs)

text \<open>A look at the position.\<close>
lemma long_player_played:
  assumes "j < 6"
  shows "run_state HdaStreamPlayed (long_player j d) = (of_nat (Suc j div 2), long_player (Suc j) d)"
proof -
  let ?q = "(long_player j d)\<lparr>HdaBus := slow_bus (Suc j)\<rparr>"
  from assms consider "j = 0" | "j = 1" | "j = 2" | "j = 3" | "j = 4" | "j = 5" by linarith
  then have v: "take_bit 32 (of_nat (Suc j div 2 mod 32 * 4096) :: u64) = of_nat (Suc j div 2 * 4096)"
    and pos: "(ucast (of_nat (Suc j div 2 * 4096) :: u64) :: u32) div 4096 = of_nat (Suc j div 2)" "\<not> of_nat (Suc j div 2) \<ge> (32 :: u32)"
    and total: "of_nat (j div 2) + (of_nat (Suc j div 2) + 32 - of_nat (j div 2)) mod 32 = (of_nat (Suc j div 2) :: u32)"
    by (cases; simp add: word_le_nat_alt)+
  have "bus_read 4 0x84 (slow_bus j) = (of_nat (Suc j div 2 * 4096), slow_bus (Suc j))"
    using v by (simp add: bus_read_def slow_bus_def Let_def replicate_append_same)
  then have read: "run_state (Read32 (0x80 + SDLPIB_OFF)) (long_player j d) = (ucast (of_nat (Suc j div 2 * 4096) :: u64), ?q)"
    by (simp add: Read32_def hda_read_def SDLPIB_OFF_def)
  have "run_state UpdatePlayPosition (long_player j d) = ((), long_player (Suc j) d)"
    using pos total long_player_update [where j = j and d = d and i = "Suc j"]
    by (simp add: UpdatePlayPosition_def read Let_def HDA_STREAM_PAGE_BYTES_def PLAY_PAGES_def)
  then show ?thesis by (simp add: HdaStreamPlayed_def)
qed

lemma long_player_next:
  assumes "j < 5" shows "run_state PlayerPoll (long_player j 2100) = ((), long_player (Suc j) 2100)"
proof -
  from assms consider "j = 0" | "j = 1" | "j = 2" | "j = 3" | "j = 4" by linarith
  then have "\<not> (3 :: u32) \<le> of_nat (Suc j div 2)" by cases (simp_all add: word_le_nat_alt)
  then show ?thesis using assms
    by (simp add: PlayerPoll_def PollTail_def StartLate_def FinishIfPlayed_def InputDone_def long_player_played)
qed

text \<open>Opening the file on the volume of the demonstration machine.\<close>
lemma demo_open:
  obtains N st where "FsResolve (lit ''F'') demo_player = (Inr N, st)" "\<not> NodeIsDir N" "NodeEntry N = small_entry"
proof -
  have f: "Volumes demo_player = Volumes small_fs" "Blocks demo_player = Blocks small_fs" "CwdVolume demo_player = CwdVolume small_fs"
    "CwdPathText demo_player = CwdPathText small_fs"
    using demo_player_fields(17) by (simp_all add: fs_part_def)
  have fs: "fs_ok (\<lambda>_. tiny_medium) demo_player" using demo_player_ok by (simp add: player_ok_def)
  have fat: "FatOf demo_player 0 = FatOf small_fs 0" by (simp add: FatOf_def f)
  have parse: "ParseInput demo_player (lit ''F'') = Inr (0, [lit ''F''])"
    by (simp add: ParseInput_def f colon_prefix_def lit_def is_slash_def small_fs_def StepComponent_def
        PushComponent_def MAX_COMPONENTS_def FAT_NAME_MAX_def)
  obtain r st where run: "FsResolve (lit ''F'') demo_player = (r, st)" by (cases "FsResolve (lit ''F'') demo_player")
  from FsResolve_walk(1) [OF fs parse _ run] small_F
  have "r = Inr (shown_node 0 (False, small_entry, [lit ''F'']))" by (simp add: fat f)
  with that run show thesis by (simp add: shown_node_def Let_def node_of_def)
qed

section \<open>The properties\<close>

text \<open>C25: Whatever the kernel does with the player, and whatever the medium and the audio device do, the
  player stays consistent: the stream is open exactly while a track is active, the driver and the player
  agree on the pages filled and on whether the stream runs, and the position in the file stays within the
  track. And while a track from a healthy medium is active, the samples in the ring are those of the
  file: each of the last 32 pages holds the decoded frames of its place in the track, with silence after
  the last one.\<close>
theorem player_invariant:
  assumes "player_step\<^sup>*\<^sup>* p p'" "player_ok med p" "track_in med p"
  shows "player_ok med p' \<and> track_in med p'"
  using assms by (rule player_runs_ok)

text \<open>C26: The filling loop of a poll ends: the fuel of the model, one round for each frame left and one
  more, gives what any larger amount gives, and the loop has then stopped for a reason of the code: the
  input is at its end or cannot be read, or the ring is full.\<close>
theorem PollLoop_returns:
  assumes "player_ok med p" "Active p" "unat (TotalFrames p) - unat (FramesDone p) < n"
  shows "run_state (PollLoop n) p = run_state (PollLoop (unat (TotalFrames p - FramesDone p) + 1)) p \<and>
    (InputDone (snd (run_state (PollLoop n) p)) \<or> ring_full (snd (run_state (PollLoop n) p)))"
proof
  have "FramesDone p \<le> TotalFrames p" using assms(1,2) unfolding player_ok_def by blast
  then show "run_state (PollLoop n) p = run_state (PollLoop (unat (TotalFrames p - FramesDone p) + 1)) p"
    by (intro PollLoop_more [OF assms]) (simp add: unat_sub_nowrap)
  show "InputDone (snd (run_state (PollLoop n) p)) \<or> ring_full (snd (run_state (PollLoop n) p))"
    using PollLoop_ok [OF assms(1,2), of n "()" "snd (run_state (PollLoop n) p)"] assms(3) by (simp add: prod_eq_iff)
qed

text \<open>C27: A track comes to its end, however slowly its stream moves compared to the polls: if, while it is playing, the driver
  sees another page fetched at least once in any \<open>m\<close> polls in a row, for any \<open>m\<close>, then after \<open>m\<close> polls for each frame of the track
  and 34 more rounds of \<open>m\<close> polls the player is no longer active and reports that it has finished; all pages handed to the stream have been
  fetched by then, and they were all there are, unless a read of the file failed, which ends the track early with the same report.\<close>
theorem player_finishes:
  assumes "player_ok med p" "Active p" "early p" "moving m n p" "1 + (unat (TotalFrames p) + 34) * m \<le> n"
  shows "\<not> Active (polled n p) \<and> Finished (polled n p) \<and> DataPages (polled n p) \<le> PlayHwTotal (polled n p) \<and>
    (TotalFrames (polled n p) \<le> FramesDone (polled n p) \<or> ReadFailed (polled n p))"
  using polled_over [OF assms] by (simp add: InputDone_def)

lemma player_invariant_witness:
  "\<exists>p'. run_state PlayerPoll demo_player = ((), p') \<and> player_ok (\<lambda>_. tiny_medium) p'"
proof -
  let ?p' = "snd (run_state PlayerPoll demo_player)"
  have run: "run_state PlayerPoll demo_player = ((), ?p')" by (simp add: prod_eq_iff)
  have "track_in (\<lambda>_. tiny_medium) demo_player" by (simp add: track_in_def demo_player_track)
  from player_invariant [OF r_into_rtranclp [of player_step, OF player_step.poll [OF run]] demo_player_ok this] run
  show ?thesis by blast
qed

text \<open>Four frames are still to be read.\<close>
lemma PollLoop_returns_witness:
  "run_state (PollLoop 9) (long_player 0 2096) = run_state (PollLoop 5) (long_player 0 2096)"
  using PollLoop_returns [OF long_player_ok long_player_fields(3), of 2096 0 9] by simp

lemma long_player_polled: "k \<le> 5 \<Longrightarrow> polled k (long_player 0 2100) = long_player k 2100"
  by (induction k) (simp_all add: long_player_next)

lemma long_player_over: "\<not> Active (polled 6 (long_player 0 2100))"
proof -
  obtain x p' where fin: "run_state Finish (long_player 6 2100) = (x, p')" by (cases "run_state Finish (long_player 6 2100)")
  have "run_state PlayerPoll (long_player 5 2100) = (x, p')"
    by (simp add: PlayerPoll_def PollTail_def StartLate_def FinishIfPlayed_def InputDone_def long_player_played fin)
  moreover have "polled 6 (long_player 0 2100) = snd (run_state PlayerPoll (polled 5 (long_player 0 2100)))" by (simp add: numeral_eq_Suc)
  ultimately have "polled 6 (long_player 0 2100) = p'" by (simp add: long_player_polled)
  with Finish_outcome [OF long_player_ok fin] show ?thesis by simp
qed

lemma player_finishes_witness:
  "\<not> Active (polled 4269 (long_player 0 2100)) \<and> Finished (polled 4269 (long_player 0 2100)) \<and> 
   Active (polled 5 (long_player 0 2100)) \<and> PlayHwTotal (polled 1 (long_player 0 2100)) = 0 \<and> PlayHwTotal (polled 5 (long_player 0 2100)) = 2"
proof -
  let ?p = "long_player 0 2100"
  have "early ?p" by (simp add: early_def)
  moreover have "moving 2 4269 ?p" unfolding moving_def
  proof (intro allI impI)
    fix k assume "k + 2 \<le> 4269 \<and> Started (polled k ?p) \<and> Active (polled (k + 2) ?p)"
    then have "k + 2 < 6" using polled_active [of "k + 2" ?p 6] long_player_over by (meson not_le)
    then have "k \<in> {0, 1, 2, 3}" by auto
    then show "PlayHwTotal (polled k ?p) < PlayHwTotal (polled (k + 2) ?p)"
      using long_player_polled by (auto simp del: polled.simps)
  qed
  ultimately have "\<not> Active (polled 4269 ?p) \<and> Finished (polled 4269 ?p)"
    using player_finishes [OF long_player_ok long_player_fields(3), of 2100 0 2 4269] by simp
  then show ?thesis using long_player_polled [of 1] long_player_polled [of 5] by (simp del: polled.simps)
qed

end
