(* ===== verification/ViewerCorrect.thy ===== *)
theory ViewerCorrect
  imports Viewer FsCorrect PlayerRuns
begin

text \<open>
  What the viewer guarantees: the line table tiles the file and every line fits its columns, the binary
  search finds the line of an offset, the search finds the next match and shows it, and every key, click and
  round of the main loop keeps the window inside the file.
\<close>

section \<open>Breaking a file into lines\<close>

text \<open>The characters the drawing loop of a line paints: position, column, width, glyph and next position.\<close>
function line_cells :: "(nat \<Rightarrow> u8) \<Rightarrow> nat \<Rightarrow> nat \<Rightarrow> nat \<Rightarrow> nat \<Rightarrow> (nat \<times> nat \<times> nat \<times> u8 \<times> nat) list" where
  "line_cells Buf Len Pos End Col =
     (if \<not> Pos < End then []
      else if Buf Pos = 10 \<or> Buf Pos = 13 then line_cells Buf Len (Pos + 1) End Col
      else case CharInfo Buf Len Pos Col of (W, G, N) \<Rightarrow> (Pos, Col, W, G, N) # line_cells Buf Len N End (Col + W))"
  by pat_completeness auto
termination
  by (relation "measure (\<lambda>(Buf, Len, Pos, End, Col). End - Pos)")
     (rule wf_measure, simp, simp only: in_measure prod.case, erule char_step, assumption, simp)

declare line_cells.simps [simp del]

lemma line_cells_done [simp]: "End \<le> Pos \<Longrightarrow> line_cells Buf Len Pos End Col = []"
  by (subst line_cells.simps) simp

definition feeds :: "(nat \<Rightarrow> u8) \<Rightarrow> nat \<Rightarrow> nat" where
  "feeds Buf n = length (List.filter (\<lambda>i. Buf i = 10) [0..<n])"

lemma feeds_step:
  assumes "a \<le> b" "\<And>i. a \<le> i \<Longrightarrow> i < b \<Longrightarrow> Buf i \<noteq> 10"
  shows "feeds Buf b = feeds Buf a"
proof -
  have "[0..<b] = [0..<a] @ [a..<b]" using assms(1) by (metis le_add_diff_inverse upt_add_eq_append zero_le)
  then show ?thesis using assms(2) by (simp add: feeds_def filter_empty_conv)
qed

lemma SkipCont_bytes: "End \<le> i \<Longrightarrow> i < SkipCont Buf Len Stop End \<Longrightarrow> Buf i AND 0xC0 = 0x80"
proof (induction Buf Len Stop End rule: SkipCont.induct)
  case (1 Buf Len Stop End)
  show ?case
  proof (cases "End < Len \<and> End < Stop \<and> Buf End AND 0xC0 = 0x80")
    case True
    then have "SkipCont Buf Len Stop End = SkipCont Buf Len Stop (End + 1)" by (subst SkipCont.simps) simp
    with 1 True show ?thesis by (cases "i = End") auto
  next
    case False
    then have "SkipCont Buf Len Stop End = End" by (subst SkipCont.simps) auto
    with 1 show ?thesis by simp
  qed
qed

lemma CharInfo_no_feed:
  assumes "CharInfo Buf Len Pos Col = (W, G, N)" "Pos < i" "i < N"
  shows "Buf i \<noteq> 10"
proof
  assume "Buf i = 10"
  with assms SkipCont_bytes [of "Pos + 1" i Buf Len] show False
    by (auto simp: CharInfo_def Let_def split: if_splits)
qed

text \<open>What the inner loop has found when it stops at \<open>P\<close>.\<close>
definition wrapped :: "(nat \<Rightarrow> u8) \<Rightarrow> nat \<Rightarrow> nat \<Rightarrow> nat \<Rightarrow> nat \<Rightarrow> nat \<Rightarrow> bool \<Rightarrow> bool" where
  "wrapped Buf Len Cols Pos Col P nl \<longleftrightarrow>
     Pos \<le> P \<and> P \<le> Len \<and>
     (\<forall>(p, c, w, g, n) \<in> set (line_cells Buf Len Pos P Col). c + w \<le> Cols \<and> Pos \<le> p \<and> p < n \<and> n \<le> P) \<and>
     (if nl then Pos < P \<and> Buf (P - 1) = 10 \<and> (\<forall>i. Pos \<le> i \<and> i < P - 1 \<longrightarrow> Buf i \<noteq> 10)
      else \<forall>i. Pos \<le> i \<and> i < P \<longrightarrow> Buf i \<noteq> 10)"

lemma wrapped_stop: "Pos \<le> Len \<Longrightarrow> wrapped Buf Len Cols Pos Col Pos False"
  by (auto simp: wrapped_def)

lemma wrapped_feed: "Pos < Len \<Longrightarrow> Buf Pos = 10 \<Longrightarrow> wrapped Buf Len Cols Pos Col (Pos + 1) True"
  unfolding wrapped_def by (subst line_cells.simps) auto

lemma wrapped_return:
  assumes "Pos < Len" "Buf Pos = 13" "wrapped Buf Len Cols (Pos + 1) Col P nl"
  shows "wrapped Buf Len Cols Pos Col P nl"
proof -
  have "line_cells Buf Len Pos P Col = line_cells Buf Len (Pos + 1) P Col"
    using assms by (subst line_cells.simps) (simp add: wrapped_def)
  moreover have "\<forall>i. Pos \<le> i \<and> i < Q \<longrightarrow> Buf i \<noteq> 10" if "\<forall>i. Pos + 1 \<le> i \<and> i < Q \<longrightarrow> Buf i \<noteq> 10" for Q
  proof (intro allI impI)
    fix i assume "Pos \<le> i \<and> i < Q"
    with that assms(2) show "Buf i \<noteq> 10" by (cases "i = Pos") auto
  qed
  ultimately show ?thesis using assms(1,3) unfolding wrapped_def by (cases nl) (auto dest: Suc_leD)
qed

lemma wrapped_char:
  assumes "Pos < Len" "Buf Pos \<noteq> 10" "Buf Pos \<noteq> 13" "CharInfo Buf Len Pos Col = (W, G, N)" "Col + W \<le> Cols"
    and rest: "wrapped Buf Len Cols N (Col + W) P nl"
  shows "wrapped Buf Len Cols Pos Col P nl"
proof -
  have N: "Pos < N" using CharInfo_bounds(1) [OF assms(4)] .
  have P: "N \<le> P" using rest by (simp add: wrapped_def)
  have cells: "line_cells Buf Len Pos P Col = (Pos, Col, W, G, N) # line_cells Buf Len N P (Col + W)"
    using assms N P by (subst line_cells.simps) simp
  have feeds: "Buf i \<noteq> 10" if "Pos \<le> i" "i < N" for i
    using that assms(2) CharInfo_no_feed [OF assms(4), of i] by (cases "i = Pos") auto
  show ?thesis
    using rest N assms(5) feeds unfolding wrapped_def cells
    by (auto simp: not_less split: if_splits) (metis linorder_not_less less_le_trans)+
qed

lemma WrapLoop_wrapped:
  "4 \<le> Cols \<Longrightarrow> Col \<le> Cols \<Longrightarrow> Pos \<le> Len \<Longrightarrow> WrapLoop Buf Len Cols Pos Col = (P, nl) \<Longrightarrow> wrapped Buf Len Cols Pos Col P nl"
proof (induction Buf Len Cols Pos Col rule: WrapLoop.induct)
  case (1 Buf Len Cols Pos Col)
  note run = "1.prems"(4) [unfolded WrapLoop.simps [of Buf Len Cols Pos Col]]
  show ?case
  proof (cases "Pos < Len")
    case False
    with run "1.prems"(3) show ?thesis by (simp add: wrapped_stop)
  next
    case lt: True
    obtain W G N where info: "CharInfo Buf Len Pos Col = (W, G, N)" by (cases "CharInfo Buf Len Pos Col")
    note b = CharInfo_bounds [OF info]
    consider "Buf Pos = 10" | "Buf Pos = 13" | (Char) "Buf Pos \<noteq> 10" "Buf Pos \<noteq> 13" by blast
    then show ?thesis
    proof cases
      case Char
      show ?thesis
      proof (cases "Col + W > Cols \<and> Col > 0")
        case True
        with run lt Char info "1.prems"(3) show ?thesis by (simp add: wrapped_stop)
      next
        case False
        have fits: "Col + W \<le> Cols" using False b(3) "1.prems"(1) by auto
        have "WrapLoop Buf Len Cols N (Col + W) = (P, nl)" using run lt Char info False by (simp split: if_splits)
        with "1.IH"(2) [OF _ _ _ info [symmetric] refl] lt Char False fits b(4) "1.prems"(1)
        have "wrapped Buf Len Cols N (Col + W) P nl" by simp
        then show ?thesis using wrapped_char [OF lt Char info fits] by simp
      qed
    qed (use run lt "1.IH"(1) "1.prems" in \<open>auto simp: wrapped_feed [simplified] intro: wrapped_return\<close>)
  qed
qed

text \<open>A new line takes at least one character.\<close>
lemma WrapLoop_progress:
  assumes "4 \<le> Cols" "Pos < Len" "WrapLoop Buf Len Cols Pos 0 = (P, nl)"
  shows "Pos < P"
proof -
  obtain W G N where info: "CharInfo Buf Len Pos 0 = (W, G, N)" by (cases "CharInfo Buf Len Pos 0")
  note b = CharInfo_bounds [OF info]
  have ge: "Q \<le> P" if "WrapLoop Buf Len Cols Q C = (P, nl)" "C \<le> Cols" "Q \<le> Len" for Q C
    using WrapLoop_wrapped [OF assms(1) that(2,3,1)] by (simp add: wrapped_def)
  show ?thesis
    using assms b ge [of "Pos + 1" 0] ge [of N W] unfolding WrapLoop.simps [of Buf Len Cols Pos 0]
    by (auto simp: info split: if_splits)
qed

text \<open>The number of the line that starts at \<open>a\<close>: one more than the line feeds before it, or 0 for a
  continuation line.\<close>
definition line_number :: "(nat \<Rightarrow> u8) \<Rightarrow> nat \<Rightarrow> nat" where
  "line_number Buf a = (if a = 0 \<or> Buf (a - 1) = 10 then feeds Buf a + 1 else 0)"

definition good_line :: "(nat \<Rightarrow> u8) \<Rightarrow> nat \<Rightarrow> nat \<Rightarrow> nat \<Rightarrow> nat \<Rightarrow> bool" where
  "good_line Buf Len Cols a b \<longleftrightarrow>
     (\<forall>(p, c, w, g, n) \<in> set (line_cells Buf Len a b 0). c + w \<le> Cols \<and> a \<le> p \<and> p < n \<and> n \<le> b) \<and>
     (\<forall>i. a \<le> i \<and> i < b - 1 \<longrightarrow> Buf i \<noteq> 10)"

text \<open>A table of line starts \<open>Offs\<close> and numbers \<open>Nums\<close> that is complete up to \<open>P\<close>.\<close>
definition line_table :: "(nat \<Rightarrow> u8) \<Rightarrow> nat \<Rightarrow> nat \<Rightarrow> nat list \<Rightarrow> nat list \<Rightarrow> nat \<Rightarrow> bool" where
  "line_table Buf Len Cols Offs Nums P \<longleftrightarrow>
     length Nums = length Offs \<and> (Offs @ [P]) ! 0 = 0 \<and> P \<le> Len \<and>
     (\<forall>i < length Offs. Nums ! i = line_number Buf ((Offs @ [P]) ! i) \<and> (Offs @ [P]) ! i \<le> Len \<and>
        (0 < Len \<longrightarrow> (Offs @ [P]) ! i < (Offs @ [P]) ! Suc i) \<and>
        good_line Buf Len Cols ((Offs @ [P]) ! i) ((Offs @ [P]) ! Suc i))"

lemma line_table_snoc:
  assumes "line_table Buf Len Cols Offs Nums P" "good_line Buf Len Cols P Q" "0 < Len \<longrightarrow> P < Q" "Q \<le> Len"
  shows "line_table Buf Len Cols (Offs @ [P]) (Nums @ [line_number Buf P]) Q"
proof -
  have old: "((Offs @ [P]) @ [Q]) ! i = (Offs @ [P]) ! i" "((Offs @ [P]) @ [Q]) ! Suc i = (Offs @ [P]) ! Suc i"
    if "i < length Offs" for i
    using that by (simp_all only: nth_append length_append_singleton less_SucI Suc_less_eq if_True)
  have new: "((Offs @ [P]) @ [Q]) ! length Offs = P" "((Offs @ [P]) @ [Q]) ! Suc (length Offs) = Q"
    by (simp_all add: nth_append)
  have "((Offs @ [P]) @ [Q]) ! 0 = (Offs @ [P]) ! 0" by (cases Offs) simp_all
  moreover have "(Nums @ [line_number Buf P]) ! i = Nums ! i" if "i < length Offs" for i
    using that assms(1) by (simp add: line_table_def nth_append)
  moreover have "(Nums @ [line_number Buf P]) ! length Offs = line_number Buf P"
    using assms(1) by (simp add: line_table_def nth_append)
  ultimately show ?thesis
    using assms unfolding line_table_def by (simp only: less_Suc_eq old new length_append_singleton) (metis old new)
qed

lemma wrapped_feeds: "wrapped Buf Len Cols Pos Col P nl \<Longrightarrow> feeds Buf P = (if nl then feeds Buf Pos + 1 else feeds Buf Pos)"
proof -
  assume w: "wrapped Buf Len Cols Pos Col P nl"
  show ?thesis
  proof (cases nl)
    case True
    then have "feeds Buf (P - 1) = feeds Buf Pos" "Buf (P - 1) = 10" "0 < P"
      using w feeds_step [of Pos "P - 1" Buf] by (auto simp: wrapped_def)
    moreover from this(3) obtain k where "P = Suc k" by (cases P) auto
    ultimately show ?thesis using True by (simp add: feeds_def)
  next
    case False
    with w feeds_step [of Pos P Buf] show ?thesis by (simp add: wrapped_def)
  qed
qed

lemma BuildLoop_table:
  "4 \<le> Cols \<Longrightarrow> line_table Buf Len Cols Offs Nums Pos \<Longrightarrow> Pos = 0 \<and> Offs = [] \<or> Pos < Len \<Longrightarrow> length Offs \<le> VIEW_MAX_LINES \<Longrightarrow>
     NewLogical = (Pos = 0 \<or> Buf (Pos - 1) = 10) \<Longrightarrow> Logical = (if NewLogical then feeds Buf Pos else feeds Buf Pos + 1) \<Longrightarrow>
     BuildLoop Buf Len Cols Pos Logical NewLogical Offs Nums = (Os, Ns, T) \<Longrightarrow>
     \<exists>P. line_table Buf Len Cols Os Ns P \<and> Os \<noteq> [] \<and> length Os \<le> VIEW_MAX_LINES \<and> (if T then P < Len \<and> length Os = VIEW_MAX_LINES else P = Len)"
proof (induction Buf Len Cols Pos Logical NewLogical Offs Nums rule: BuildLoop.induct)
  case (1 Buf Len Cols Pos Logical NewLogical Offs Nums)
  note run = "1.prems"(7) [unfolded BuildLoop.simps [of Buf Len Cols Pos Logical NewLogical Offs Nums]]
  show ?case
  proof (cases "length Offs \<ge> VIEW_MAX_LINES")
    case True
    with run "1.prems" show ?thesis by (intro exI [of _ Pos]) (auto simp: VIEW_MAX_LINES_def)
  next
    case False
    obtain P nl where wrap: "WrapLoop Buf Len Cols Pos 0 = (P, nl)" by (cases "WrapLoop Buf Len Cols Pos 0")
    let ?L = "if NewLogical then Logical + 1 else Logical"
    let ?O = "Offs @ [Pos]" and ?N = "Nums @ [if NewLogical then ?L else 0]"
    have le: "Pos \<le> Len" using "1.prems"(2) by (simp add: line_table_def)
    have w: "wrapped Buf Len Cols Pos 0 P nl" using WrapLoop_wrapped [OF "1.prems"(1) _ le wrap] by simp
    have num: "(if NewLogical then ?L else 0) = line_number Buf Pos"
      using "1.prems"(5,6) by (auto simp: line_number_def)
    have good: "good_line Buf Len Cols Pos P" using w by (auto simp: wrapped_def good_line_def split: if_splits)
    have table: "line_table Buf Len Cols ?O ?N P"
      unfolding num using line_table_snoc [OF "1.prems"(2) good] WrapLoop_progress [OF "1.prems"(1) _ wrap] w "1.prems"(3)
      by (auto simp: wrapped_def)
    have feeds: "?L = feeds Buf Pos + 1" using "1.prems"(6) by simp
    show ?thesis
    proof (cases "P \<ge> Len")
      case True
      with run False wrap have "Os = ?O" "Ns = ?N" "\<not> T" by (auto simp: Let_def)
      moreover have "P = Len" using True w by (simp add: wrapped_def)
      ultimately show ?thesis using table False by auto
    next
      case lt: False
      have rec: "BuildLoop Buf Len Cols P ?L nl ?O ?N = (Os, Ns, T)" using run False wrap lt by (simp add: Let_def)
      have pos: "Pos < P" using WrapLoop_progress [OF "1.prems"(1) _ wrap] lt w by (simp add: wrapped_def)
      have "nl = (Buf (P - 1) = 10)"
      proof (cases nl)
        case False
        then have "\<forall>i. Pos \<le> i \<and> i < P \<longrightarrow> Buf i \<noteq> 10" using w by (simp add: wrapped_def)
        with pos have "Buf (P - 1) \<noteq> 10" by simp
        with False show ?thesis by simp
      qed (use w in \<open>simp add: wrapped_def\<close>)
      with pos feeds wrapped_feeds [OF w]
      have nl: "nl = (P = 0 \<or> Buf (P - 1) = 10)" "?L = (if nl then feeds Buf P else feeds Buf P + 1)" by simp_all
      show ?thesis
        using "1.IH" [OF False refl refl refl wrap [symmetric] lt "1.prems"(1) table _ _ nl rec] lt False by auto
    qed
  qed
qed
text \<open>The line table of the viewer. When there are more lines than it holds, the last line is not broken.\<close>
definition lines_ok :: "'a viewer_scheme \<Rightarrow> bool" where
  "lines_ok v \<longleftrightarrow>
     length (LineOff v) = Suc (length (LineNum v)) \<and> LineNum v \<noteq> [] \<and> length (LineNum v) \<le> VIEW_MAX_LINES \<and>
     LineOff v ! 0 = 0 \<and> LineOff v ! length (LineNum v) = VLen v \<and>
     (LinesTruncated v \<longrightarrow> length (LineNum v) = VIEW_MAX_LINES) \<and>
     (\<forall>i < length (LineNum v).
        LineNum v ! i = line_number (VBuf v) (LineOff v ! i) \<and>
        LineOff v ! i \<le> LineOff v ! Suc i \<and> (0 < VLen v \<longrightarrow> LineOff v ! i < LineOff v ! Suc i) \<and>
        (LinesTruncated v \<and> Suc i = length (LineNum v) \<or>
         good_line (VBuf v) (VLen v) (nat (VCols v)) (LineOff v ! i) (LineOff v ! Suc i)))"

lemma BuildLines_lines:
  assumes "4 \<le> VCols v"
  shows "lines_ok (BuildLines v)"
proof -
  obtain Os Ns T where run: "BuildLoop (VBuf v) (VLen v) (nat (VCols v)) 0 0 True [] [] = (Os, Ns, T)"
    by (cases "BuildLoop (VBuf v) (VLen v) (nat (VCols v)) 0 0 True [] []")
  have start: "line_table (VBuf v) (VLen v) (nat (VCols v)) [] [] 0" by (simp add: line_table_def)
  have "4 \<le> nat (VCols v)" using assms by simp
  from BuildLoop_table [OF this start _ _ _ _ run] obtain P where
    table: "line_table (VBuf v) (VLen v) (nat (VCols v)) Os Ns P" and
    "Os \<noteq> []" "length Os \<le> VIEW_MAX_LINES" and P: "if T then P < VLen v \<and> length Os = VIEW_MAX_LINES else P = VLen v"
    by (auto simp: feeds_def)
  have len: "length Ns = length Os" using table by (simp add: line_table_def)
  have succ: "(Os @ [Q]) ! Suc i = (if Suc i = length Os then Q else Os ! Suc i)"
    and same: "(Os @ [Q]) ! i = Os ! i" if "i < length Os" for i Q
    using that by (simp_all add: nth_append)
  have fields: "LineOff (BuildLines v) = Os @ [VLen v]" "LineNum (BuildLines v) = Ns" "LinesTruncated (BuildLines v) = T"
    "VBuf (BuildLines v) = VBuf v" "VLen (BuildLines v) = VLen v" "VCols (BuildLines v) = VCols v"
    by (simp_all add: BuildLines_def run)
  have line: "Ns ! i = line_number (VBuf v) ((Os @ [VLen v]) ! i)" "0 < VLen v \<longrightarrow> (Os @ [VLen v]) ! i < (Os @ [VLen v]) ! Suc i"
    "(Os @ [VLen v]) ! i \<le> (Os @ [VLen v]) ! Suc i"
    "T \<and> Suc i = length Os \<or> good_line (VBuf v) (VLen v) (nat (VCols v)) ((Os @ [VLen v]) ! i) ((Os @ [VLen v]) ! Suc i)"
    if i: "i < length Os" for i
  proof -
    have t: "Ns ! i = line_number (VBuf v) ((Os @ [P]) ! i)" "0 < VLen v \<longrightarrow> (Os @ [P]) ! i < (Os @ [P]) ! Suc i"
      "good_line (VBuf v) (VLen v) (nat (VCols v)) ((Os @ [P]) ! i) ((Os @ [P]) ! Suc i)" "P \<le> VLen v" "(Os @ [P]) ! i \<le> VLen v"
      using table i by (simp_all add: line_table_def)
    note t = t [unfolded succ [OF i] same [OF i]]
    show "Ns ! i = line_number (VBuf v) ((Os @ [VLen v]) ! i)" using t(1) by (simp only: same [OF i])
    show lt: "0 < VLen v \<longrightarrow> (Os @ [VLen v]) ! i < (Os @ [VLen v]) ! Suc i"
      using t(2,4) unfolding succ [OF i] same [OF i] by (auto split: if_splits)
    show "(Os @ [VLen v]) ! i \<le> (Os @ [VLen v]) ! Suc i"
      using lt t(5) unfolding same [OF i] by (cases "VLen v = 0") auto
    show "T \<and> Suc i = length Os \<or> good_line (VBuf v) (VLen v) (nat (VCols v)) ((Os @ [VLen v]) ! i) ((Os @ [VLen v]) ! Suc i)"
      using t(3) P unfolding succ [OF i] same [OF i] by (auto split: if_splits)
  qed
  have "(Os @ [VLen v]) ! 0 = 0" using table \<open>Os \<noteq> []\<close> by (simp add: line_table_def nth_append)
  moreover have "(Os @ [VLen v]) ! length Os = VLen v" by simp
  moreover have "T \<longrightarrow> length Os = VIEW_MAX_LINES" using P by simp
  moreover have "Ns \<noteq> []" using len \<open>Os \<noteq> []\<close> by auto
  ultimately show ?thesis
    using line \<open>length Os \<le> VIEW_MAX_LINES\<close> unfolding lines_ok_def fields len by (simp del: append_Cons)
qed
text \<open>C21: the line table tiles the file. For at least four columns, whatever the bytes are: the first line starts at 0,
  each line starts where the one before ends and takes at least one byte, the last ends at the end of the file;
  every character that the drawing of a line paints lies in the columns of the window, tabs and broken UTF-8
  included; a line feed occurs only at the end of a line; the lines after a line feed are numbered with the number
  of line feeds before them, the others carry no number. Only when the table is full the last line is exempt.\<close>
theorem BuildLines_correct:
  assumes "4 \<le> VCols v"
  shows "lines_ok (BuildLines v)"
  by (rule BuildLines_lines [OF assms])

section \<open>Finding the line of an offset\<close>

lemma LineSearch_spec:
  "0 \<le> Lo \<Longrightarrow> Lo \<le> Hi \<Longrightarrow> Hi < int n \<Longrightarrow> sorted (take n Offs) \<Longrightarrow> n \<le> length Offs \<Longrightarrow> Offs ! nat Lo \<le> Off \<Longrightarrow>
   (\<And>j. nat Hi < j \<Longrightarrow> j < n \<Longrightarrow> Off < Offs ! j) \<Longrightarrow> r = LineSearch Offs Off Lo Hi \<Longrightarrow>
   Lo \<le> r \<and> r \<le> Hi \<and> Offs ! nat r \<le> Off \<and> (\<forall>j. nat r < j \<and> j < n \<longrightarrow> Off < Offs ! j)"
proof (induction Offs Off Lo Hi arbitrary: r rule: LineSearch.induct)
  case (1 Offs Off Lo Hi)
  show ?case
  proof (cases "Lo < Hi")
    case False
    then have "r = Lo" "Lo = Hi" using "1.prems"(2,8) by (simp_all add: LineSearch.simps)
    then show ?thesis using "1.prems" by auto
  next
    case True
    define Mid where "Mid = (Lo + Hi + 1) div 2"
    have mid: "Lo < Mid" "Mid \<le> Hi" using True by (auto simp: Mid_def)
    show ?thesis
    proof (cases "Offs ! nat Mid \<le> Off")
      case le: True
      then have "r = LineSearch Offs Off Mid Hi" using "1.prems"(8) True by (simp add: LineSearch.simps [of Offs Off Lo Hi] Mid_def)
      from "1.IH"(1) [OF _ Mid_def _ _ _ "1.prems"(3,4,5) le "1.prems"(7) this] True le mid "1.prems"(1) show ?thesis by auto
    next
      case False
      then have r: "r = LineSearch Offs Off Lo (Mid - 1)"
        using "1.prems"(8) True by (simp add: LineSearch.simps [of Offs Off Lo Hi] Mid_def)
      have above: "Off < Offs ! j" if "nat (Mid - 1) < j" "j < n" for j
      proof -
        have "nat Mid \<le> j" using that(1) mid "1.prems"(1) by linarith
        then have "take n Offs ! nat Mid \<le> take n Offs ! j"
          using that(2) "1.prems"(4,5) by (intro sorted_nth_mono) simp_all
        with False \<open>nat Mid \<le> j\<close> that(2) show ?thesis by simp
      qed
      from "1.IH"(2) [OF _ Mid_def False "1.prems"(1) _ _ "1.prems"(4,5,6) above r] True mid "1.prems"(3) show ?thesis by auto
    qed
  qed
qed

lemma lines_sorted: "lines_ok v \<Longrightarrow> sorted (take (length (LineNum v)) (LineOff v))"
proof -
  assume ok: "lines_ok v"
  let ?n = "length (LineNum v)"
  have "take ?n (LineOff v) ! i \<le> take ?n (LineOff v) ! Suc i" if "Suc i < ?n" for i
    using ok that by (simp add: lines_ok_def Suc_lessD)
  then show ?thesis using ok by (intro sorted_iff_nth_Suc [THEN iffD2]) (simp add: lines_ok_def)
qed

lemma LineForOffset_line:
  assumes "lines_ok v"
  shows "0 \<le> LineForOffset v Off \<and> LineForOffset v Off < LineCount v \<and> LineOff v ! nat (LineForOffset v Off) \<le> Off \<and>
    (LineForOffset v Off + 1 < LineCount v \<longrightarrow> Off < LineOff v ! nat (LineForOffset v Off + 1))"
proof -
  let ?n = "length (LineNum v)"
  have n: "0 < ?n" "?n \<le> length (LineOff v)" "LineOff v ! 0 = 0" using assms by (auto simp: lines_ok_def)
  have "0 \<le> LineForOffset v Off \<and> LineForOffset v Off \<le> int ?n - 1 \<and> LineOff v ! nat (LineForOffset v Off) \<le> Off \<and>
     (\<forall>j. nat (LineForOffset v Off) < j \<and> j < ?n \<longrightarrow> Off < LineOff v ! j)"
    using LineSearch_spec [OF order_refl _ _ lines_sorted [OF assms] n(2), of "int ?n - 1" Off] n
    by (auto simp: LineForOffset_def LineCount_def)
  then show ?thesis by (auto simp: LineCount_def)
qed
text \<open>The binary search gives the line an offset lies in: its start is at or before the offset, and the offset
  comes before the start of the next line.\<close>
theorem LineForOffset_correct:
  assumes "lines_ok v"
  shows "0 \<le> LineForOffset v Off \<and> LineForOffset v Off < LineCount v \<and> LineOff v ! nat (LineForOffset v Off) \<le> Off \<and>
    (LineForOffset v Off + 1 < LineCount v \<longrightarrow> Off < LineOff v ! nat (LineForOffset v Off + 1))"
  by (rule LineForOffset_line [OF assms])

section \<open>The window\<close>

text \<open>What scrolling, searching and drawing depend on.\<close>
definition view_core :: "'a viewer_scheme \<Rightarrow> (nat \<Rightarrow> u8) \<times> nat \<times> nat list \<times> nat list \<times> bool \<times> bool \<times> int \<times> int \<times> int \<times> cstring" where
  "view_core v = (VBuf v, VLen v, LineOff v, LineNum v, LinesTruncated v, HexMode v, VTop v, VRows v, VCols v, SearchText v)"

definition view_ready :: "'a viewer_scheme \<Rightarrow> bool" where
  "view_ready v \<longleftrightarrow> lines_ok v \<and> VLen v \<le> VIEW_MAX_BYTES \<and> 4 \<le> VRows v \<and> 20 \<le> VCols v \<and> SearchLen v < SEARCH_MAX"

text \<open>The window lies inside the file, unless the file is shorter than it.\<close>
definition viewer_ok :: "'a viewer_scheme \<Rightarrow> bool" where
  "viewer_ok v \<longleftrightarrow> view_ready v \<and> 0 \<le> VTop v \<and> (VTop v = 0 \<or> VTop v + VRows v \<le> TotalRows v)"

lemma lines_ok_cong: "view_core w = view_core v \<Longrightarrow> lines_ok w = lines_ok v"
  by (simp add: view_core_def lines_ok_def)

lemma view_ready_cong: "view_core w = view_core v \<Longrightarrow> view_ready w = view_ready v"
  using lines_ok_cong [of w v] by (simp add: view_ready_def view_core_def SearchLen_def)

lemma TotalRows_cong: "view_core w = view_core v \<Longrightarrow> TotalRows w = TotalRows v"
  by (simp add: view_core_def TotalRows_def LineCount_def)

lemma viewer_ok_cong: "view_core w = view_core v \<Longrightarrow> viewer_ok w = viewer_ok v"
  using view_ready_cong [of w v] TotalRows_cong [of w v] by (simp add: viewer_ok_def view_core_def)

lemma core_raise [simp]: "view_core (raise_flags f v) = view_core v"
  by (simp add: raise_flags_def view_core_def)

lemma viewer_ok_raise [simp]: "viewer_ok (raise_flags f v) = viewer_ok v"
  by (rule viewer_ok_cong) simp

lemma core_Say [simp]: "view_core (Say t code i v) = view_core v"
  by (simp add: Say_def desk_log_def view_core_def raise_flags_def Let_def)

lemma core_fields [simp]:
  "view_core (v\<lparr>HaveMatch := b\<rparr>) = view_core v" "view_core (v\<lparr>HaveMatch := b, MatchStart := n\<rparr>) = view_core v"
  "view_core (v\<lparr>Searching := b\<rparr>) = view_core v" "view_core (v\<lparr>VMessage := m\<rparr>) = view_core v"
  "view_core (v\<lparr>VFlags := f\<rparr>) = view_core v" "view_core (v\<lparr>VTitle := m\<rparr>) = view_core v" "view_core (v\<lparr>Kbd := k\<rparr>) = view_core v"
  by (simp_all add: view_core_def)

lemma view_ready_top [simp]: "view_ready (v\<lparr>VTop := i\<rparr>) = view_ready v" "view_ready (v\<lparr>HexMode := b\<rparr>) = view_ready v"
  "view_ready (v\<lparr>HexMode := b, VTop := i\<rparr>) = view_ready v"
  by (simp_all add: view_ready_def lines_ok_def SearchLen_def)

lemma ClampTop_shape: "ClampTop v = v\<lparr>VTop := VTop (ClampTop v)\<rparr>"
  by (simp add: ClampTop_def Let_def)

lemma ClampTop_value: "VTop (ClampTop v) = max 0 (min (VTop v) (max 0 (TotalRows v - VRows v)))"
  by (auto simp: ClampTop_def Let_def)

lemma TotalRows_top [simp]: "TotalRows (v\<lparr>VTop := i\<rparr>) = TotalRows v"
  by (simp add: TotalRows_def LineCount_def)

lemma ClampTop_ok: "view_ready v \<Longrightarrow> viewer_ok (ClampTop v)"
proof -
  assume ready: "view_ready v"
  define i where "i = VTop (ClampTop v)"
  have "ClampTop v = v\<lparr>VTop := i\<rparr>" unfolding i_def by (rule ClampTop_shape)
  moreover have "i = max 0 (min (VTop v) (max 0 (TotalRows v - VRows v)))" by (simp add: i_def ClampTop_value)
  ultimately show ?thesis using ready by (auto simp: viewer_ok_def)
qed

text \<open>The row of the window an offset of the file is shown in.\<close>
definition row_of :: "'a viewer_scheme \<Rightarrow> nat \<Rightarrow> int" where
  "row_of v p = (if HexMode v then int (p div 16) else LineForOffset v p)"

lemma row_of_cong: "view_core w = view_core v \<Longrightarrow> row_of w p = row_of v p"
  by (simp add: view_core_def row_of_def LineForOffset_def LineCount_def)

lemma row_bounds: "view_ready v \<Longrightarrow> p < VLen v \<Longrightarrow> 0 \<le> row_of v p \<and> row_of v p < TotalRows v"
  using LineForOffset_line [of v p] by (auto simp: row_of_def TotalRows_def view_ready_def)

lemma ShowOffset_shows:
  assumes "view_ready v" "p < VLen v"
  shows "viewer_ok (ShowOffset p v)" "VTop (ShowOffset p v) \<le> row_of v p" "row_of v p < VTop (ShowOffset p v) + VRows v"
proof -
  let ?v = "v\<lparr>VTop := row_of v p - 2\<rparr>"
  have s: "ShowOffset p v = raise_flags (VD_CONTENT OR VD_TITLE) (ClampTop ?v)"
    by (simp add: ShowOffset_def row_of_def Let_def)
  show "viewer_ok (ShowOffset p v)" unfolding s using ClampTop_ok [of ?v] assms(1) by simp
  have top: "VTop (ShowOffset p v) = VTop (ClampTop ?v)" by (simp add: s raise_flags_def)
  have "4 \<le> VRows v" using assms(1) by (simp add: view_ready_def)
  with row_bounds [OF assms] show "VTop (ShowOffset p v) \<le> row_of v p" "row_of v p < VTop (ShowOffset p v) + VRows v"
    unfolding top ClampTop_value by auto
qed

section \<open>Searching\<close>

text \<open>The search text occurs at \<open>p\<close>, letter case aside.\<close>
definition occurs :: "'a viewer_scheme \<Rightarrow> nat \<Rightarrow> bool" where
  "occurs v p \<longleftrightarrow> p + SearchLen v \<le> VLen v \<and> map (\<lambda>i. lower (VBuf v i)) [p..<p + SearchLen v] = map lower (SearchText v)"

lemma MatchAt_occurs: "p + SearchLen v \<le> VLen v \<Longrightarrow> MatchAt v p = occurs v p"
  by (simp add: MatchAt_def occurs_def list_all_iff SearchLen_def Ball_def
      list_eq_iff_nth_eq [of "map (\<lambda>i. lower (VBuf v i)) [p..<p + length (SearchText v)]"])

lemma find_upt:
  "find P [a..<b] = Some p \<longleftrightarrow> a \<le> p \<and> p < b \<and> P p \<and> (\<forall>i. a \<le> i \<and> i < p \<longrightarrow> \<not> P i)"
  "find P [a..<b] = None \<longleftrightarrow> (\<forall>i. a \<le> i \<and> i < b \<longrightarrow> \<not> P i)"
proof -
  show "find P [a..<b] = None \<longleftrightarrow> (\<forall>i. a \<le> i \<and> i < b \<longrightarrow> \<not> P i)" by (auto simp: find_None_iff)
  show "find P [a..<b] = Some p \<longleftrightarrow> a \<le> p \<and> p < b \<and> P p \<and> (\<forall>i. a \<le> i \<and> i < p \<longrightarrow> \<not> P i)"
  proof (induction "b - a" arbitrary: a)
    case (Suc n)
    then have up: "[a..<b] = a # [Suc a..<b]" by (simp add: upt_conv_Cons)
    have IH: "find P [Suc a..<b] = Some p \<longleftrightarrow> Suc a \<le> p \<and> p < b \<and> P p \<and> (\<forall>i. Suc a \<le> i \<and> i < p \<longrightarrow> \<not> P i)"
      using Suc by simp
    show ?case
    proof (cases "P a")
      case True
      then show ?thesis using Suc.hyps(2) unfolding up by (cases "p = a") auto
    next
      case False
      have "(\<forall>i. a \<le> i \<and> i < p \<longrightarrow> \<not> P i) \<longleftrightarrow> (\<forall>i. Suc a \<le> i \<and> i < p \<longrightarrow> \<not> P i)"
        using False by (metis Suc_le_eq le_less)
      moreover have "a \<le> p \<and> P p \<longleftrightarrow> Suc a \<le> p \<and> P p" using False by (metis Suc_leD Suc_leI le_neq_implies_less)
      ultimately show ?thesis using False IH unfolding up by auto
    qed
  qed auto
qed

text \<open>The occurrence a search from \<open>From\<close> is to find: the first at or after it, or else the first of the file.\<close>
definition next_occurrence :: "'a viewer_scheme \<Rightarrow> nat \<Rightarrow> nat \<Rightarrow> bool" where
  "next_occurrence v From m \<longleftrightarrow> occurs v m \<and>
     (From \<le> m \<and> (\<forall>p. occurs v p \<and> From \<le> p \<longrightarrow> m \<le> p) \<or> (\<forall>p. occurs v p \<longrightarrow> p < From \<and> m \<le> p))"

lemma ShowOffset_match [simp]: "HaveMatch (ShowOffset p v) = HaveMatch v" "MatchStart (ShowOffset p v) = MatchStart v"
  by (simp_all add: ShowOffset_def ClampTop_def raise_flags_def Let_def)

lemma Say_match [simp]: "HaveMatch (Say t code i v) = HaveMatch v"
  by (simp add: Say_def desk_log_def raise_flags_def Let_def)

lemma raise_match [simp]: "HaveMatch (raise_flags f v) = HaveMatch v"
  by (simp add: raise_flags_def)

lemma viewer_ok_say [simp]: "viewer_ok (Say t code i v) = viewer_ok v"
  by (rule viewer_ok_cong) simp

lemma viewer_ok_match [simp]: "viewer_ok (v\<lparr>HaveMatch := b\<rparr>) = viewer_ok v"
  by (rule viewer_ok_cong) simp

text \<open>What a search leaves: the match \<open>m\<close> in the window, or the message.\<close>
definition search_result :: "'a viewer_scheme \<Rightarrow> nat \<Rightarrow> 'a viewer_scheme \<Rightarrow> bool" where
  "search_result v From w \<longleftrightarrow> viewer_ok w \<and> HaveMatch w = (\<exists>p. occurs v p) \<and>
     (HaveMatch w \<longrightarrow> next_occurrence v From (MatchStart w) \<and> VTop w \<le> row_of v (MatchStart w) \<and>
        row_of v (MatchStart w) < VTop w + VRows v)"

lemma search_found:
  assumes "viewer_ok v" "SearchText v \<noteq> []" "next_occurrence v From p"
  shows "search_result v From (ShowOffset p (v\<lparr>HaveMatch := True, MatchStart := p\<rparr>))"
proof -
  let ?v = "v\<lparr>HaveMatch := True, MatchStart := p\<rparr>"
  have core: "view_core ?v = view_core v" by simp
  have "occurs v p" using assms(3) by (simp add: next_occurrence_def)
  then have "p < VLen ?v" using assms(2) by (simp add: occurs_def SearchLen_def) (metis add_gr_0 length_greater_0_conv less_add_same_cancel1 less_le_trans)
  moreover have "view_ready ?v" using assms(1) view_ready_cong [OF core] by (simp add: viewer_ok_def)
  ultimately have "viewer_ok (ShowOffset p ?v)" "VTop (ShowOffset p ?v) \<le> row_of ?v p" "row_of ?v p < VTop (ShowOffset p ?v) + VRows ?v"
    using ShowOffset_shows by blast+
  with assms(3) \<open>occurs v p\<close> show ?thesis unfolding search_result_def row_of_cong [OF core] by auto
qed

lemma search_missing:
  assumes "viewer_ok w" "\<not> HaveMatch w" "\<And>p. \<not> occurs v p"
  shows "search_result v From w"
  using assms by (simp add: search_result_def)

lemma FindText_result:
  assumes "viewer_ok v" "SearchText v \<noteq> []"
  shows "search_result v From (FindText Tick From v)"
proof -
  let ?w = "FindText Tick From v"
  let ?n = "SearchLen v" and ?Last = "VLen v - SearchLen v"
  define F where "F = (if From > ?Last then 0 else From)"
  have n: "0 < ?n" using assms(2) by (simp add: SearchLen_def)
  show ?thesis
  proof (cases "VLen v < ?n")
    case True
    then have "\<not> occurs v p" for p by (simp add: occurs_def)
    then show ?thesis using True n assms(1) by (intro search_missing) (simp_all add: FindText_def)
  next
    case False
    have occ: "occurs v p \<longleftrightarrow> p \<le> ?Last \<and> MatchAt v p" for p
      using False MatchAt_occurs [of p v] by (cases "p + ?n \<le> VLen v") (auto simp: occurs_def)
    let ?miss = "Say Tick E_TEXT_NOTFOUND (SearchText v) (raise_flags VD_CONTENT (v\<lparr>HaveMatch := False\<rparr>))"
    have w: "?w = (case find (MatchAt v) [F..<?Last + 1] of Some p \<Rightarrow> ShowOffset p (v\<lparr>HaveMatch := True, MatchStart := p\<rparr>)
      | None \<Rightarrow> if F = 0 then ?miss
          else (case find (MatchAt v) [0..<F] of Some p \<Rightarrow> ShowOffset p (v\<lparr>HaveMatch := True, MatchStart := p\<rparr>) | None \<Rightarrow> ?miss))"
      unfolding FindText_def Let_def F_def [symmetric] using False n by (simp only: if_False neq0_conv [THEN iffD2])
    show ?thesis
    proof (cases "find (MatchAt v) [F..<?Last + 1]")
      case (Some p)
      then have p: "F \<le> p" "occurs v p" "\<And>i. F \<le> i \<Longrightarrow> i < p \<Longrightarrow> \<not> occurs v i" unfolding find_upt by (auto simp: occ)
      have "next_occurrence v From p"
      proof (cases "From > ?Last")
        case True
        then have "\<not> occurs v i" if "From \<le> i" for i using that by (simp add: occ)
        moreover have "F = 0" using True by (simp add: F_def)
        ultimately show ?thesis using p unfolding next_occurrence_def by (metis le0 not_le)
      next
        case False
        then have "F = From" by (simp add: F_def)
        then show ?thesis using p unfolding next_occurrence_def by (metis not_le)
      qed
      with search_found [OF assms] Some show ?thesis unfolding w by simp
    next
      case None
      then have high: "\<And>i. F \<le> i \<Longrightarrow> \<not> occurs v i" unfolding find_upt by (auto simp: occ)
      show ?thesis
      proof (cases "F = 0")
        case True
        with high have "\<not> occurs v p" for p by simp
        then show ?thesis using None True assms(1) unfolding w by (intro search_missing) simp_all
      next
        case F: False
        then have From: "F = From" by (simp add: F_def split: if_splits)
        show ?thesis
        proof (cases "find (MatchAt v) [0..<F]")
          case (Some p)
          then have p: "p < F" "MatchAt v p" "\<And>i. i < p \<Longrightarrow> \<not> MatchAt v i" unfolding find_upt by auto
          have "F \<le> ?Last" using F by (simp add: F_def split: if_splits)
          with p have "next_occurrence v From p"
            using high unfolding next_occurrence_def From [symmetric] occ by (auto simp: not_le) (metis not_le)+
          with search_found [OF assms] Some None F show ?thesis unfolding w by simp
        next
          case none: None
          then have "\<not> occurs v p" for p using high [of p] unfolding find_upt by (cases "p < F") (auto simp: occ)
          then show ?thesis using None none F assms(1) unfolding w by (intro search_missing) simp_all
        qed
      qed
    qed
  qed
qed
text \<open>C22: the search is complete and wraps around. With a search text and a valid view, FindText from any position finds a
  match exactly when the text occurs in the file, letter case aside; it is the first occurrence at or after the
  position and, when there is none there, the first of the file; the row of the match is then inside the window.\<close>
theorem FindText_correct:
  assumes "viewer_ok v" "SearchText v \<noteq> []"
  shows "let w = FindText Tick From v; m = MatchStart w
    in viewer_ok w \<and> HaveMatch w = (\<exists>p. occurs v p) \<and>
      (HaveMatch w \<longrightarrow> next_occurrence v From m \<and> VTop w \<le> row_of v m \<and> row_of v m < VTop w + VRows v)"
  using FindText_result [OF assms] by (simp add: search_result_def Let_def)

section \<open>Every input keeps the window in the file\<close>

lemma ui_only_core: "ui_only v w \<Longrightarrow> view_core w = view_core v"
  by (auto simp: ui_only_def view_core_def)

lemma same_screen_if: "same_screen g a \<Longrightarrow> same_screen g b \<Longrightarrow> same_screen g (if c then a else b)"
  by simp

lemmas draw_on = same_screen_refl same_screen_if same_screen_trans [OF _ FillRect_screen] same_screen_trans [OF _ UiText_screen]
  same_screen_trans [OF _ DrawChar_screen] same_screen_trans [OF _ FillScreen_screen]

lemma DrawScrollbar_screen: "same_screen v (DrawScrollbar v)"
  unfolding DrawScrollbar_def Let_def by (intro draw_on)

lemma DrawGlyph_screen: "same_screen v (DrawGlyph Pos Col W G N Y v)"
  unfolding DrawGlyph_def Let_def by (intro draw_on)

lemma DrawLineLoop_screen: "same_screen v (DrawLineLoop Pos End Col Y v)"
proof (induction Pos End Col Y v rule: DrawLineLoop.induct)
  case (1 Pos End Col Y v)
  obtain W G N where info: "CharInfo (VBuf v) (VLen v) Pos Col = (W, G, N)" by (cases "CharInfo (VBuf v) (VLen v) Pos Col")
  note step = DrawLineLoop.simps [of Pos End Col Y v, unfolded info prod.case]
  show ?case
  proof (cases "Pos < End \<and> \<not> (VBuf v Pos = 10 \<or> VBuf v Pos = 13)")
    case True
    then have "same_screen (DrawGlyph Pos Col W G N Y v) (DrawLineLoop N End (Col + W) Y (DrawGlyph Pos Col W G N Y v))"
      using "1.IH"(2) [OF _ _ info [symmetric] refl] by simp
    from same_screen_trans [OF DrawGlyph_screen this] True show ?thesis by (simp only: step) simp
  next
    case False
    then show ?thesis using "1.IH"(1) by (simp only: step) auto
  qed
qed

lemma DrawTextLine_screen: "same_screen v (DrawTextLine Index Y v)"
  unfolding DrawTextLine_def Let_def by (rule same_screen_trans [OF _ DrawLineLoop_screen]) (intro draw_on)

lemma DrawHexByte_screen: "same_screen v (DrawHexByte Off Y i v)"
  unfolding DrawHexByte_def Let_def by (intro draw_on)

lemma DrawHexRow_screen: "same_screen v (DrawHexRow Index Y v)"
  unfolding DrawHexRow_def Let_def by (rule same_screen_trans [OF UiText_screen fold_screen]) (rule DrawHexByte_screen)

lemma DrawViewRow_screen: "same_screen v (DrawViewRow r v)"
  unfolding DrawViewRow_def Let_def by (intro draw_on DrawHexRow_screen DrawTextLine_screen)

lemma DrawContent_screen: "same_screen v (DrawContent v)"
  unfolding DrawContent_def Let_def
  by (rule same_screen_trans [OF same_screen_trans [OF _ fold_screen] DrawScrollbar_screen])
     (intro draw_on, rule DrawViewRow_screen)

lemma DrawTitle_screen: "same_screen v (DrawTitle v)"
  unfolding DrawTitle_def Let_def by (intro draw_on)

lemma DrawHint_screen: "same_screen v (DrawHint v)"
  unfolding DrawHint_def Let_def by (intro draw_on)

lemma ViewerPresent_core: "view_core (ViewerPresent v) = view_core v"
proof -
  let ?d = "\<lambda>b f w. if b then f w else w"
  have d: "view_core (?d b f w) = view_core w" if "\<And>w. same_screen w (f w)" for b f and w :: "'a viewer_scheme"
    using ui_only_core [OF ui_only_screen [OF that [of w]]] by simp
  have "view_core (UiCursorShow w) = view_core w" "view_core (UiCursorHide w) = view_core w" for w :: "'a viewer_scheme"
    by (simp_all add: ui_only_core)
  then show ?thesis
    unfolding ViewerPresent_def Let_def
    by (simp add: d [OF DrawContent_screen, simplified] d [OF DrawTitle_screen, simplified] d [OF DrawHint_screen, simplified]
        ui_only_core [OF ui_only_screen [OF DrawContent_screen]] ui_only_core [OF ui_only_screen [OF DrawTitle_screen]]
        ui_only_core [OF ui_only_screen [OF DrawHint_screen]])
qed

lemma viewer_ok_ready: "viewer_ok v \<Longrightarrow> view_ready v"
  by (simp add: viewer_ok_def)

lemma viewer_ok_fields [simp]:
  "viewer_ok (v\<lparr>Searching := b\<rparr>) = viewer_ok v" "viewer_ok (v\<lparr>VMessage := m\<rparr>) = viewer_ok v"
  "viewer_ok (v\<lparr>VFlags := f\<rparr>) = viewer_ok v" "viewer_ok (v\<lparr>Kbd := k\<rparr>) = viewer_ok v"
  by (rule viewer_ok_cong, simp)+

lemma Scroll_ok: "viewer_ok v \<Longrightarrow> viewer_ok (Scroll d v)"
  by (auto simp: Scroll_def Let_def viewer_ok_ready intro!: ClampTop_ok)

lemma ToggleHex_ok: "viewer_ok v \<Longrightarrow> viewer_ok (ToggleHex v)"
  by (auto simp: ToggleHex_def Let_def viewer_ok_ready intro!: ClampTop_ok)

lemma FindText_ok: "viewer_ok v \<Longrightarrow> viewer_ok (FindText t From v)"
  using FindText_result [of v From t] by (cases "SearchText v = []") (auto simp: search_result_def FindText_def SearchLen_def)

lemma search_text_ok: "viewer_ok v \<Longrightarrow> length s < SEARCH_MAX \<Longrightarrow> viewer_ok (v\<lparr>SearchText := s\<rparr>)"
proof -
  assume v: "viewer_ok v" "length s < SEARCH_MAX"
  have "lines_ok (v\<lparr>SearchText := s\<rparr>) = lines_ok v" "TotalRows (v\<lparr>SearchText := s\<rparr>) = TotalRows v"
    by (simp_all add: lines_ok_def TotalRows_def LineCount_def)
  with v show ?thesis by (simp add: viewer_ok_def view_ready_def SearchLen_def)
qed

lemma search_text_length: "viewer_ok v \<Longrightarrow> length (SearchText v) < SEARCH_MAX"
  by (simp add: viewer_ok_def view_ready_def SearchLen_def)

lemma HandleSearchKey_ok: "viewer_ok v \<Longrightarrow> viewer_ok (snd (HandleSearchKey t Key v))"
  using search_text_length [of v]
  by (auto simp: HandleSearchKey_def Let_def SearchLen_def intro!: FindText_ok search_text_ok)

lemma start_search_ok: "viewer_ok v \<Longrightarrow> viewer_ok (v\<lparr>Searching := b, SearchText := []\<rparr>)"
proof -
  assume "viewer_ok v"
  then have "viewer_ok (v\<lparr>SearchText := []\<rparr>)" by (intro search_text_ok) (simp_all add: SEARCH_MAX_def)
  moreover have "viewer_ok (v\<lparr>Searching := b, SearchText := []\<rparr>) = viewer_ok (v\<lparr>SearchText := []\<rparr>)"
    by (rule viewer_ok_cong) (simp add: view_core_def)
  ultimately show ?thesis by simp
qed

lemma HandleKey_ok: "viewer_ok v \<Longrightarrow> viewer_ok (snd (ViewerHandleKey t Key v))"
  unfolding ViewerHandleKey_def
  by (simp add: HandleSearchKey_ok Scroll_ok ToggleHex_ok FindText_ok start_search_ok)

lemma HandleClick_ok: "viewer_ok v \<Longrightarrow> viewer_ok (snd (ViewerHandleClick v))"
  unfolding ViewerHandleClick_def Let_def by (simp add: Scroll_ok ToggleHex_ok)

lemma ViewerRound_ok:
  assumes "viewer_ok v"
  shows "viewer_ok (snd (ViewerRound t v))"
proof -
  obtain Key k where k: "KeyboardGetKey (Kbd v) = (Key, k)" by (cases "KeyboardGetKey (Kbd v)")
  obtain l1 v1 where v1: "(if Key \<noteq> 0 then ViewerHandleKey t Key (v\<lparr>Kbd := k\<rparr>) else (False, v\<lparr>Kbd := k\<rparr>)) = (l1, v1)"
    by fastforce
  have "viewer_ok v1" using HandleKey_ok [of "v\<lparr>Kbd := k\<rparr>" t Key] assms v1 by (auto split: if_splits)
  obtain m P v2 where poll: "UiPollMouse v1 = (m, P, v2)" by (cases "UiPollMouse v1")
  have "viewer_ok v2" using viewer_ok_cong [OF ui_only_core [OF ui_only_poll [OF poll]]] \<open>viewer_ok v1\<close> by simp
  obtain l3 v3 where v3: "(if m \<and> P AND 1 \<noteq> 0 then ViewerHandleClick v2 else (False, v2)) = (l3, v3)" by fastforce
  have "viewer_ok v3" using HandleClick_ok [of v2] \<open>viewer_ok v2\<close> v3 by (auto split: if_splits)
  obtain x p where player: "run_state PlayerPoll (Files v3) = (x, p)" by (cases "run_state PlayerPoll (Files v3)")
  have "viewer_ok (v3\<lparr>Files := p\<rparr>)" using \<open>viewer_ok v3\<close> viewer_ok_cong [of "v3\<lparr>Files := p\<rparr>" v3] by (simp add: view_core_def)
  have present: "viewer_ok (ViewerPresent w) = viewer_ok w" for w :: "'a viewer_scheme"
    by (rule viewer_ok_cong) (rule ViewerPresent_core)
  show ?thesis
    using \<open>viewer_ok v1\<close> \<open>viewer_ok v3\<close> \<open>viewer_ok (v3\<lparr>Files := p\<rparr>)\<close>
    by (simp add: ViewerRound_def GetKey_def k v1 poll v3 present on_player_def player Let_def)
qed

lemma core_irqs [simp]: "view_core (fold desk_irq irqs v) = view_core v"
proof (induction irqs arbitrary: v)
  case (Cons i irqs)
  have "view_core (desk_irq i v) = view_core v" by (cases i) (simp_all add: view_core_def)
  with Cons show ?case by simp
qed simp

lemma ViewerRounds_ok: "viewer_ok v \<Longrightarrow> viewer_ok (snd (ViewerRounds ts v))"
proof (induction ts v rule: ViewerRounds.induct)
  case (2 irqs t ts v)
  let ?v = "fold desk_irq irqs v"
  obtain l w where r: "ViewerRound t ?v = (l, w)" by (cases "ViewerRound t ?v")
  have "viewer_ok ?v" using "2.prems" viewer_ok_cong [OF core_irqs] by blast
  then have "viewer_ok w" using ViewerRound_ok [of ?v t] r by simp
  moreover have "viewer_ok (UiCursorHide w) = viewer_ok w" by (rule viewer_ok_cong) (simp add: ui_only_core)
  ultimately show ?case using "2.IH" [OF r [symmetric]] r by simp
qed simp
subsection \<open>Opening a file\<close>

lemma LoadLoop_len: "VLen v \<le> Want \<Longrightarrow> VLen (LoadLoop N Want v) \<le> Want"
proof (induction N Want v rule: LoadLoop.induct)
  case (1 N Want v)
  show ?case
  proof (cases "VLen v < Want")
    case True
    define Chunk where "Chunk = (if Want - VLen v > 16384 then 16384 else Want - VLen v)"
    obtain Got bytes st where r: "FsRead N (of_nat (VLen v)) (of_nat Chunk) (Files v) = (Got, bytes, st)"
      by (cases "FsRead N (of_nat (VLen v)) (of_nat Chunk) (Files v)")
    let ?v = "v\<lparr>VBuf := (\<lambda>i. if VLen v \<le> i \<and> i < VLen v + length bytes then bytes ! (i - VLen v) else VBuf v i), Files := st\<rparr>"
    have step: "LoadLoop N Want v = (if Got = 0 \<or> unat Got > Chunk then ?v else LoadLoop N Want (?v\<lparr>VLen := VLen v + unat Got\<rparr>))"
      using True r by (subst LoadLoop.simps) (simp add: Let_def flip: Chunk_def)
    show ?thesis
    proof (cases "Got = 0 \<or> unat Got > Chunk")
      case True
      then show ?thesis using "1.prems" unfolding step by simp
    next
      case False
      then have "VLen v + unat Got \<le> Want" using True by (auto simp: Chunk_def split: if_splits)
      with "1.IH" [OF _ Chunk_def r [symmetric] refl refl refl False] True show ?thesis unfolding step using False by simp
    qed
  qed (simp add: LoadLoop.simps "1.prems")
qed

lemma LoadFile_len:
  assumes "LoadFile Path v = (s, w)"
  shows "VLen w \<le> VIEW_MAX_BYTES"
proof -
  obtain r st where res: "FsResolve Path (Files v) = (r, st)" by (cases "FsResolve Path (Files v)")
  show ?thesis
  proof (cases r)
    case (Inl e)
    with assms res show ?thesis by (auto simp: LoadFile_def Let_def)
  next
    case (Inr N)
    define u where "u = v\<lparr>Files := st, VDetail := [], VLen := 0, VTotalSize := unat (EntrySize (NodeEntry N))\<rparr>"
    define Want where "Want = (if VTotalSize u > VIEW_MAX_BYTES then VIEW_MAX_BYTES else VTotalSize u)"
    have "VLen w = 0 \<or> VLen w = VLen (LoadLoop N Want u)"
      using assms unfolding LoadFile_def res Inr by (auto simp: Let_def u_def Want_def split: if_splits)
    moreover have "VLen (LoadLoop N Want u) \<le> Want" by (rule LoadLoop_len) (simp add: u_def)
    moreover have "Want \<le> VIEW_MAX_BYTES" by (simp add: Want_def)
    ultimately show ?thesis by linarith
  qed
qed

lemma BuildLines_fields [simp]: "VLen (BuildLines v) = VLen v" "VRows (BuildLines v) = VRows v" "VCols (BuildLines v) = VCols v"
  "SearchText (BuildLines v) = SearchText v"
  by (simp_all add: BuildLines_def split: prod.split)

lemma OpeningNotice_core [simp]: "view_core (OpeningNotice t Warn v) = view_core v"
  by (simp add: OpeningNotice_def)

lemma drain_core [simp]: "view_core (drain_keys n v) = view_core v"
proof (induction n arbitrary: v)
  case (Suc n)
  obtain key k where "KeyboardGetKey (Kbd v) = (key, k)" by (cases "KeyboardGetKey (Kbd v)")
  then show ?case using Suc [of "v\<lparr>Kbd := k\<rparr>"] by (simp add: GetKey_def)
qed simp

lemma ViewerOpen_ok:
  assumes "ViewerOpen Tick Path Nm v = (0, w)"
  shows "viewer_ok w"
proof -
  obtain Status u where load: "LoadFile Path v = (Status, u)" by (cases "LoadFile Path v")
  define a where "a = u\<lparr>VTitle := copy_loop Nm (FAT_NAME_MAX - 1),
     VRows := sint ((UiH u - TITLE_H - HINT_H - 8) div VROW), VCols := sint ((UiW u - TEXT_X - 16 - SCROLL_W) div of_nat FONT_WIDTH)\<rparr>"
  define b where "b = a\<lparr>HexMode := False, VTop := 0, Searching := False, SearchText := [], HaveMatch := False,
                       VMessage := [], VMessageUntil := 0\<rparr>"
  define l where "l = (if LooksBinary (BuildLines b) then (BuildLines b)\<lparr>HexMode := True\<rparr> else BuildLines b)"
  have small: "\<not> (VRows a < 4 \<or> VCols a < 20)" and w: "w = drain_keys KEY_BUFFER_SIZE
      (OpeningNotice Tick (if Status < 0 then - Status else 0) ((FillScreen COL_BG (ClampTop l))\<lparr>VFlags := VD_ALL\<rparr>))"
    using assms unfolding ViewerOpen_def load prod.case Let_def
    by (auto simp: a_def b_def l_def E_VIEW_RANGE_def Let_def split: if_splits)
  have ready: "view_ready (BuildLines b)"
    using small LoadFile_len [OF load] BuildLines_lines [of b]
    by (simp add: view_ready_def b_def a_def SearchLen_def SEARCH_MAX_def)
  then have "view_ready l" by (simp add: l_def)
  then have "viewer_ok (ClampTop l)" by (rule ClampTop_ok)
  moreover have "view_core w = view_core (ClampTop l)" by (simp add: w ui_only_core [OF ui_only_screen])
  ultimately show ?thesis using viewer_ok_cong by blast
qed

text \<open>C23: the viewer keeps its window inside the file. Once a file is opened, after any sequence of rounds of the main loop,
  with any keys, clicks and interrupts and at any ticks: the line table is the one the theorem on lines describes, at most 256 KB are
  loaded, the window has at least 4 rows and 20 columns and shows rows of the file only (it starts at the top, or
  its last row is a row of the file), and the search text fits its buffer.\<close>
theorem viewer_invariant:
  assumes "ViewerOpen Tick Path Nm v = (0, w)"
  shows "viewer_ok (snd (ViewerRounds ts w))"
  by (rule ViewerRounds_ok [OF ViewerOpen_ok [OF assms]])
section \<open>Examples\<close>

text \<open>A desk of 800 by 600 pixels over the small file system.\<close>
definition demo_viewer :: viewer where
  "demo_viewer = \<lparr>Frame = (\<lambda>_. 0), ScreenWidth = 800, ScreenHeight = 600, Stride = 800, UiW = 800, UiH = 600, UiMouseX = 400,
     UiMouseY = 300, CursorShown = False, CursorDrawX = 0, CursorDrawY = 0, CursorSaved = replicate 228 0, Pointer = mouse_init,
     Kbd = keyboard_init, Files = demo_player,
     VBuf = (\<lambda>i. if i = 2 then 10 else if i < 2 then 97 + of_nat i else 62 + of_nat i), VLen = 5, VTotalSize = 5, LineOff = [], LineNum = [],
     LinesTruncated = False, HexMode = False, VTop = 0, VRows = 29, VCols = 87, VFlags = 0, VTitle = [], VDetail = [],
     VMessage = [], VMessageKind = 0, VMessageUntil = 0, SearchText = [66], Searching = False, HaveMatch = False, MatchStart = 0\<rparr>"

lemma demo_view: "viewer_ok (ClampTop (BuildLines demo_viewer))"
  using BuildLines_lines [of demo_viewer]
  by (intro ClampTop_ok)
     (simp add: view_ready_def demo_viewer_def SearchLen_def SEARCH_MAX_def VIEW_MAX_BYTES_def)

lemma BuildLines_correct_witness: "lines_ok (BuildLines demo_viewer)"
  by (rule BuildLines_correct) (simp add: demo_viewer_def)

lemma LineForOffset_correct_witness:
  "LineForOffset (BuildLines demo_viewer) 4 < LineCount (BuildLines demo_viewer)"
proof -
  have "lines_ok (BuildLines demo_viewer)" by (rule BuildLines_lines) (simp add: demo_viewer_def)
  from LineForOffset_correct [OF this, of 4] show ?thesis by simp
qed

text \<open>Searching for a capital B from offset 2 in a, b, line feed, A, B.\<close>
lemma FindText_correct_witness:
  "MatchStart (FindText 0 2 (ClampTop (BuildLines demo_viewer))) = 4"
proof -
  let ?v = "ClampTop (BuildLines demo_viewer)"
  have f: "VBuf ?v = VBuf demo_viewer" "VLen ?v = 5" "SearchText ?v = [66]"
    by (simp_all add: ClampTop_def BuildLines_def Let_def demo_viewer_def split: prod.split)
  have at: "occurs ?v 4" "\<not> occurs ?v 2" "\<not> occurs ?v 3"
    by (simp_all add: occurs_def SearchLen_def f) (simp_all add: demo_viewer_def lower_def)
  let ?w = "FindText 0 2 ?v"
  from FindText_correct [OF demo_view, of 0 2] f(3) have "HaveMatch ?w \<longleftrightarrow> (\<exists>p. occurs ?v p)"
    "HaveMatch ?w \<longrightarrow> next_occurrence ?v 2 (MatchStart ?w)" by (simp_all add: Let_def)
  with at(1) have "next_occurrence ?v 2 (MatchStart ?w)" by blast
  then have m: "occurs ?v (MatchStart ?w)" "2 \<le> MatchStart ?w" "MatchStart ?w \<le> 4"
    using at(1) by (auto simp: next_occurrence_def)
  then have "MatchStart ?w = 2 \<or> MatchStart ?w = 3 \<or> MatchStart ?w = 4" by linarith
  with m(1) at show ?thesis by metis
qed

lemma viewer_invariant_witness:
  "viewer_ok (snd (ViewerRounds [([KeyIrq 1 0x50], 1), ([], 2)] (snd (ViewerOpen 0 (lit ''F'') (lit ''F'') demo_viewer))))"
proof -
  obtain N st where open_file: "FsResolve (lit ''F'') demo_player = (Inr N, st)" "\<not> NodeIsDir N" "NodeEntry N = small_entry"
    using demo_open .
  have "fst (ViewerOpen 0 (lit ''F'') (lit ''F'') demo_viewer) = 0"
    using open_file
    by (simp add: ViewerOpen_def LoadFile_def demo_viewer_def small_entry_def TITLE_H_def HINT_H_def VROW_def TEXT_X_def
        SCROLL_W_def FONT_WIDTH_def Let_def)
  then obtain w where w: "ViewerOpen 0 (lit ''F'') (lit ''F'') demo_viewer = (0, w)" by (metis prod.collapse)
  from viewer_invariant [OF w, of "[([KeyIrq 1 0x50], 1), ([], 2)]"] show ?thesis by (simp only: w snd_conv)
qed

end
