(* ===== verification/Explorer.thy ===== *)
theory Explorer
  imports Viewer
begin

text \<open>
  The explorer (\<open>kernel/explorer.c\<close>): reading a folder, sorting it, the selection and its window, opening,
  playing and moving between folders, and drawing. The static variables of the file are the fields of the
  record; the list of entries has \<open>EntryCount\<close> elements. The explorer runs the viewer within a round; the
  rounds of that session are an input, and \<open>InViewer\<close> says that it is still going on. \<open>Halted\<close> stands for the
  processor exception of a division by zero.
\<close>

section \<open>State\<close>

definition MAX_ENTRIES :: nat where "MAX_ENTRIES = 1024"
definition NAME_STORED :: nat where "NAME_STORED = 120"
definition ROW_H :: u32 where "ROW_H = 22"
definition PATH_H :: u32 where "PATH_H = 32"
definition HEAD_H :: u32 where "HEAD_H = 22"
definition NOW_H :: u32 where "NOW_H = 28"
definition SIDE_W :: u32 where "SIDE_W = 200"
definition SIDE_HEAD_H :: u32 where "SIDE_HEAD_H = 26"
definition SIDE_ROW_H :: u32 where "SIDE_ROW_H = 28"
definition FULL_MAX :: nat where "FULL_MAX = FS_PATH_MAX + FAT_NAME_MAX + 40"
definition KIND_DIR :: nat where "KIND_DIR = 0"
definition KIND_WAV :: nat where "KIND_WAV = 1"
definition KIND_TEXT :: nat where "KIND_TEXT = 2"
definition KIND_FILE :: nat where "KIND_FILE = 3"
definition SORT_NAME :: int where "SORT_NAME = 0"
definition SORT_SIZE :: int where "SORT_SIZE = 1"
definition SORT_TYPE :: int where "SORT_TYPE = 2"
definition MSG_INFO :: int where "MSG_INFO = 0"
definition MSG_ERROR :: int where "MSG_ERROR = 1"
definition MSG_WARN :: int where "MSG_WARN = 2"
definition DF_PATH :: u32 where "DF_PATH = 0x01"
definition DF_SIDE :: u32 where "DF_SIDE = 0x02"
definition DF_LIST :: u32 where "DF_LIST = 0x04"
definition DF_NOW :: u32 where "DF_NOW = 0x08"
definition DF_HINT :: u32 where "DF_HINT = 0x10"
definition DF_ALL :: u32 where "DF_ALL = 0x1F"
definition FAT_ATTR_HIDDEN :: u8 where "FAT_ATTR_HIDDEN = 0x02"
definition FAT_ATTR_SYSTEM :: u8 where "FAT_ATTR_SYSTEM = 0x04"

record dir_item =
  ItemName :: cstring
  ItemSize :: u32
  ItemKind :: nat
  Usable :: bool
  Hidden :: bool

record explorer = viewer +
  Entries :: "dir_item list"
  Order :: "nat list"
  Truncated :: bool
  Volume :: int
  Dir :: cstring
  SortMode :: int
  ShowHidden :: bool
  Autoplay :: bool
  Selected :: int
  XScroll :: int
  RowDirtyA :: int
  RowDirtyB :: int
  XFlags :: u32
  XMessage :: cstring
  XMessageKind :: int
  XMessageUntil :: u64
  PlayingFull :: cstring
  PlayingDir :: cstring
  PlayingName :: cstring
  PlayingVolume :: int
  PlayingShown :: bool
  ShownSecond :: u32
  Visible :: int
  ListY :: u32
  ListH :: u32
  SideTop :: u32
  LastClickTick :: u64
  LastClickItem :: int
  InViewer :: bool
  Halted :: bool

section \<open>Names\<close>

definition TextExtensions :: "string list" where
  "TextExtensions = [
    ''txt'', ''md'', ''log'', ''ini'', ''cfg'', ''conf'', ''c'', ''h'', ''cpp'', ''hpp'', ''asm'', ''s'', ''py'', ''js'',
    ''json'', ''xml'', ''csv'', ''html'', ''htm'', ''css'', ''sh'', ''bat'', ''cmd'', ''yml'', ''yaml'', ''toml'',
    ''rs'', ''go'', ''java'', ''lua'', ''tex'', ''ld'', ''mk'', ''makefile'', ''license'', ''readme'']"

text \<open>The loop keeps what follows the last dot so far.\<close>
fun ExtensionLoop :: "cstring \<Rightarrow> cstring option \<Rightarrow> cstring option" where
  "ExtensionLoop [] Dot = Dot"
| "ExtensionLoop (c # cs) Dot = ExtensionLoop cs (if c = chr_code CHR ''.'' then Some cs else Dot)"

definition ExtensionOf :: "cstring \<Rightarrow> cstring" where
  "ExtensionOf Nm = (case ExtensionLoop Nm None of Some Dot \<Rightarrow> Dot | None \<Rightarrow> [])"

definition ExtIs :: "cstring \<Rightarrow> cstring \<Rightarrow> bool" where
  "ExtIs Nm Ext \<longleftrightarrow> compare_names (ExtensionOf Nm) Ext = 0"

definition ClassifyFile :: "cstring \<Rightarrow> nat" where
  "ClassifyFile Nm =
     (if ExtIs Nm (lit ''wav'') then KIND_WAV
      else if list_ex (\<lambda>t. ExtIs Nm (lit t) \<or> compare_names Nm (lit t) = 0) TextExtensions then KIND_TEXT
      else KIND_FILE)"

section \<open>Items\<close>

definition AtRoot :: "'a explorer_scheme \<Rightarrow> bool" where "AtRoot x \<longleftrightarrow> Dir x = [chr_code CHR ''/'']"
definition EntryCount :: "'a explorer_scheme \<Rightarrow> int" where "EntryCount x = int (length (Entries x))"
definition ItemCount :: "'a explorer_scheme \<Rightarrow> int" where
  "ItemCount x = EntryCount x + (if AtRoot x then 0 else 1)"

text \<open>The entry of an item of the list; \<open>None\<close> is the parent folder.\<close>
definition ItemEntry :: "'a explorer_scheme \<Rightarrow> int \<Rightarrow> dir_item option" where
  "ItemEntry x Index =
     (let Shift = (if AtRoot x then 0 else 1)
      in if Index < Shift \<or> Index - Shift \<ge> EntryCount x then None
         else Some (Entries x ! (Order x ! nat (Index - Shift))))"

definition xraise :: "u32 \<Rightarrow> 'a explorer_scheme \<Rightarrow> 'a explorer_scheme" where
  "xraise f x = x\<lparr>XFlags := XFlags x OR f\<rparr>"

definition SetMessage :: "u64 \<Rightarrow> cstring \<Rightarrow> int \<Rightarrow> 'a explorer_scheme \<Rightarrow> 'a explorer_scheme" where
  "SetMessage Tick Txt Kind x =
     xraise DF_HINT (x\<lparr>XMessage := copy_loop Txt 219, XMessageKind := Kind,
       XMessageUntil := Tick + (if Kind = MSG_INFO then 5000 else 7000)\<rparr>)"

definition SetError :: "u64 \<Rightarrow> int \<Rightarrow> cstring \<Rightarrow> 'a explorer_scheme \<Rightarrow> 'a explorer_scheme" where
  "SetError Tick code Detail x =
     (let Txt = ErrorFormat code (Some Detail) 220;
          x = desk_log (lit ''explorer'') code (Some Detail) x
      in SetMessage Tick Txt (if ErrorIsWarning code then MSG_WARN else MSG_ERROR) x)"

definition BuildFull :: "'a explorer_scheme \<Rightarrow> cstring \<Rightarrow> cstring" where
  "BuildFull x Nm =
     (let Out = copy_loop (FsVolumeName (Files x) (Volume x)) (FULL_MAX - 1);
          Out = append_text Out (lit '':'') FULL_MAX;
          Out = append_text Out (Dir x) FULL_MAX;
          Out = (if \<not> AtRoot x then append_text Out (lit ''/'') FULL_MAX else Out)
      in append_text Out Nm FULL_MAX)"

definition DirJoin :: "cstring \<Rightarrow> 'a explorer_scheme \<Rightarrow> 'a explorer_scheme" where
  "DirJoin Nm x =
     (let D = (if \<not> AtRoot x then append_text (Dir x) (lit ''/'') FS_PATH_MAX else Dir x)
      in x\<lparr>Dir := append_text D Nm FS_PATH_MAX\<rparr>)"

text \<open>The loop moves back to just behind the last slash.\<close>
primrec CutLoop :: "cstring \<Rightarrow> nat \<Rightarrow> nat" where
  "CutLoop D 0 = 0"
| "CutLoop D (Suc n) = (if D ! n \<noteq> chr_code CHR ''/'' then CutLoop D n else Suc n)"

definition DirUp :: "'a explorer_scheme \<Rightarrow> cstring \<times> 'a explorer_scheme" where
  "DirUp x =
     (let Cut = CutLoop (Dir x) (length (Dir x))
      in (copy_loop (drop Cut (Dir x)) (FAT_NAME_MAX - 1),
          x\<lparr>Dir := if Cut \<le> 1 then [chr_code CHR ''/''] else take (Cut - 1) (Dir x)\<rparr>))"

section \<open>Reading and sorting a folder\<close>

text \<open>The context is the entries so far and \<open>Truncated\<close>.\<close>
definition ListCallback :: "bool \<Rightarrow> (dir_item list \<times> bool) dir_cb" where
  "ListCallback ShowAll E ctx =
     (case ctx of (items, trunc) \<Rightarrow>
        let Hid = (EntryAttr E AND (FAT_ATTR_HIDDEN OR FAT_ATTR_SYSTEM) \<noteq> 0)
        in if Hid \<and> \<not> ShowAll then (False, ctx)
        else if length items \<ge> MAX_ENTRIES then (True, (items, True))
        else (False, (items @ [\<lparr>ItemName = copy_loop (EntryName E) (NAME_STORED - 1), ItemSize = EntrySize E,
          ItemKind = (if EntryAttr E AND FAT_ATTR_DIRECTORY \<noteq> 0 then KIND_DIR else ClassifyFile (EntryName E)),
          Usable = length (EntryName E) < NAME_STORED, Hidden = Hid\<rparr>], trunc)))"

definition EntryLess :: "'a explorer_scheme \<Rightarrow> nat \<Rightarrow> nat \<Rightarrow> bool" where
  "EntryLess x a b =
     (let A = Entries x ! a; B = Entries x ! b; AD = (ItemKind A = KIND_DIR); BD = (ItemKind B = KIND_DIR)
      in if AD \<noteq> BD then AD
      else if \<not> AD \<and> SortMode x = SORT_SIZE \<and> ItemSize A \<noteq> ItemSize B then ItemSize A > ItemSize B
      else let Cmp = (if \<not> AD \<and> SortMode x = SORT_TYPE
                      then compare_names (ExtensionOf (ItemName A)) (ExtensionOf (ItemName B)) else 0)
      in if Cmp \<noteq> 0 then Cmp < 0 else compare_names (ItemName A) (ItemName B) < 0)"

text \<open>The inner loop: the elements that are greater move up by the gap, and the element taken out goes into
  the place that is left.\<close>
function ShiftLoop :: "(nat \<Rightarrow> nat \<Rightarrow> bool) \<Rightarrow> nat \<Rightarrow> nat \<Rightarrow> nat \<Rightarrow> nat list \<Rightarrow> nat list" where
  "ShiftLoop lt Gap Tmp j xs =
     (if 0 < Gap \<and> j \<ge> Gap \<and> lt Tmp (xs ! (j - Gap))
      then ShiftLoop lt Gap Tmp (j - Gap) (xs[j := xs ! (j - Gap)])
      else xs[j := Tmp])"
  by pat_completeness auto
termination
  by (relation "measure (\<lambda>(lt, Gap, Tmp, j, xs). j)") auto

declare ShiftLoop.simps [simp del]

definition GapPass :: "(nat \<Rightarrow> nat \<Rightarrow> bool) \<Rightarrow> nat \<Rightarrow> nat \<Rightarrow> nat list \<Rightarrow> nat list" where
  "GapPass lt Gap n xs = fold (\<lambda>i xs. ShiftLoop lt Gap (xs ! i) i xs) [Gap..<n] xs"

function GapLoop :: "(nat \<Rightarrow> nat \<Rightarrow> bool) \<Rightarrow> nat \<Rightarrow> nat \<Rightarrow> nat list \<Rightarrow> nat list" where
  "GapLoop lt Gap n xs = (if Gap > 0 then GapLoop lt (Gap div 2) n (GapPass lt Gap n xs) else xs)"
  by pat_completeness auto
termination
  by (relation "measure (\<lambda>(lt, Gap, n, xs). Gap)") auto

declare GapLoop.simps [simp del]

definition SortEntries :: "'a explorer_scheme \<Rightarrow> 'a explorer_scheme" where
  "SortEntries x =
     (let n = length (Entries x) in x\<lparr>Order := GapLoop (EntryLess x) (n div 2) n [0..<n]\<rparr>)"

definition FixSelected :: "u64 \<Rightarrow> 'a explorer_scheme \<Rightarrow> 'a explorer_scheme" where
  "FixSelected Tick x =
     (let Count = ItemCount x
      in if Selected x < 0 \<or> Count > 0 \<and> Selected x \<ge> Count
      then (let x = SetError Tick E_INTERNAL_SEL (lit ''selection index out of range'') x;
                x = x\<lparr>Selected := if Count > 0 then Count - 1 else 0\<rparr>
            in if Selected x < 0 then x\<lparr>Selected := 0\<rparr> else x)
      else x)"

definition FixScroll :: "int \<Rightarrow> 'a explorer_scheme \<Rightarrow> 'a explorer_scheme" where
  "FixScroll MaxScroll x =
     (let x = (if XScroll x > MaxScroll then x\<lparr>XScroll := MaxScroll\<rparr> else x);
          x = (if XScroll x < 0 then x\<lparr>XScroll := 0\<rparr> else x);
          x = (if Selected x < XScroll x then x\<lparr>XScroll := Selected x\<rparr> else x)
      in if Selected x \<ge> XScroll x + Visible x then x\<lparr>XScroll := Selected x - Visible x + 1\<rparr> else x)"

definition ClampScroll :: "u64 \<Rightarrow> 'a explorer_scheme \<Rightarrow> 'a explorer_scheme" where
  "ClampScroll Tick x =
     (let Count = ItemCount x; MaxScroll = (if Count > Visible x then Count - Visible x else 0)
      in FixScroll MaxScroll (FixSelected Tick x))"

definition FindItemByName :: "cstring \<Rightarrow> 'a explorer_scheme \<Rightarrow> int" where
  "FindItemByName Nm x =
     (case find (\<lambda>i. case ItemEntry x i of Some E \<Rightarrow> str_eq (ItemName E) Nm | None \<Rightarrow> False) [0..ItemCount x - 1] of
        Some i \<Rightarrow> i | None \<Rightarrow> - 1)"

text \<open>Resolving the folder and listing it into the entries; the status.\<close>
definition ReadDir :: "cstring \<Rightarrow> 'a explorer_scheme \<Rightarrow> int \<times> 'a explorer_scheme" where
  "ReadDir Input x =
     (case FsResolve Input (Files x) of
        (Inl Status, p) \<Rightarrow> (Status, x\<lparr>Files := p\<rparr>)
      | (Inr DirNode, p) \<Rightarrow>
          if \<not> NodeIsDir DirNode then (FS_ERR_NOTDIR, x\<lparr>Files := p\<rparr>)
          else (case FsList DirNode (ListCallback (ShowHidden x)) (Entries x, Truncated x) p of
                  (Status, ctx, p) \<Rightarrow> (Status, x\<lparr>Files := p, Entries := fst ctx, Truncated := snd ctx\<rparr>)))"

text \<open>The focus is a pointer that may be null.\<close>
definition FocusOn :: "cstring option \<Rightarrow> 'a explorer_scheme \<Rightarrow> 'a explorer_scheme" where
  "FocusOn Focus x =
     (case Focus of
        Some F \<Rightarrow> (if F \<noteq> [] then (let Found = FindItemByName F x in if Found \<ge> 0 then x\<lparr>Selected := Found\<rparr> else x)
                   else if \<not> AtRoot x \<and> ItemCount x > 1 then x\<lparr>Selected := 1\<rparr> else x)
      | None \<Rightarrow> if \<not> AtRoot x \<and> ItemCount x > 1 then x\<lparr>Selected := 1\<rparr> else x)"

definition LoadDir :: "u64 \<Rightarrow> cstring option \<Rightarrow> 'a explorer_scheme \<Rightarrow> bool \<times> 'a explorer_scheme" where
  "LoadDir Tick Focus x =
     (let x = xraise DF_ALL (x\<lparr>Entries := [], Truncated := False, Selected := 0, XScroll := 0,
                RowDirtyA := - 1, RowDirtyB := - 1\<rparr>)
      in if FsVolumeCount (Files x) = 0 then (False, SetError Tick E_NO_VOLUMES [] x)
      else let Input = copy_loop (FsVolumeName (Files x) (Volume x)) (FULL_MAX - 1);
               Input = append_text Input (lit '':'') FULL_MAX;
               Input = append_text Input (Dir x) FULL_MAX
      in case ReadDir Input x of (Status, x) \<Rightarrow>
         let x = ClampScroll Tick (FocusOn Focus (SortEntries x))
         in if Status \<noteq> FS_OK then (False, SetError Tick E_FOLDER_READ (lit (FsErrorText Status)) x)
         else (True, if Truncated x then SetError Tick E_FOLDER_LARGE [] x else x))"

section \<open>Moving\<close>

definition Select :: "u64 \<Rightarrow> int \<Rightarrow> 'a explorer_scheme \<Rightarrow> 'a explorer_scheme" where
  "Select Tick Index x =
     (let Count = ItemCount x
      in if Count = 0 then x
      else let Index = (if Index < 0 then 0 else Index);
               Index = (if Index \<ge> Count then Count - 1 else Index)
      in if Index = Selected x then x
      else let OldScroll = XScroll x; Old = Selected x;
               x = ClampScroll Tick (x\<lparr>Selected := Index\<rparr>)
      in if XScroll x \<noteq> OldScroll then xraise DF_LIST x
         else x\<lparr>RowDirtyA := Old, RowDirtyB := Selected x\<rparr>)"

definition SwitchVolume :: "u64 \<Rightarrow> int \<Rightarrow> 'a explorer_scheme \<Rightarrow> 'a explorer_scheme" where
  "SwitchVolume Tick Index x =
     (if Index < 0 \<or> Index \<ge> FsVolumeCount (Files x) then x
      else snd (LoadDir Tick None (x\<lparr>Volume := Index, Dir := [chr_code CHR ''/'']\<rparr>)))"

definition GoUp :: "u64 \<Rightarrow> 'a explorer_scheme \<Rightarrow> 'a explorer_scheme" where
  "GoUp Tick x =
     (if AtRoot x then x
      else case DirUp x of (Last, x) \<Rightarrow> snd (LoadDir Tick (Some Last) x))"

definition PlayerCodeToError :: "int \<Rightarrow> int" where
  "PlayerCodeToError c =
     (if c = PLAYER_ERR_FS \<or> c = PLAYER_ERR_DIR then E_FILE_OPEN
      else if c = PLAYER_ERR_NOTWAV then E_AUDIO_NOTWAV
      else if c = PLAYER_ERR_RATE then E_AUDIO_RATE
      else if c = PLAYER_ERR_MEMORY then E_AUDIO_MEMORY
      else if c = PLAYER_ERR_DEVICE then E_AUDIO_DEVICE
      else if c = PLAYER_ERR_READ then E_AUDIO_READ
      else E_AUDIO_FORMAT)"

definition StartPlay :: "u64 \<Rightarrow> dir_item \<Rightarrow> 'a explorer_scheme \<Rightarrow> bool \<times> 'a explorer_scheme" where
  "StartPlay Tick E x =
     (if \<not> Usable E then (False, SetError Tick E_NAME_LONG (ItemName E) x)
      else let Full = BuildFull x (ItemName E)
      in case on_player (PlayerStart Full) x of (Error, x) \<Rightarrow>
         if Error \<noteq> None then (False, SetError Tick (PlayerCodeToError (LastError (Files x))) (ItemName E) x)
         else (True, xraise (DF_LIST OR DF_NOW) (x\<lparr>PlayingFull := copy_loop Full (FULL_MAX - 1),
           PlayingDir := copy_loop (Dir x) (FS_PATH_MAX - 1), PlayingName := copy_loop (ItemName E) (FAT_NAME_MAX - 1),
           PlayingVolume := Volume x, PlayingShown := True\<rparr>)))"

definition OpenViewer :: "u64 \<Rightarrow> (irq list \<times> u64) list \<Rightarrow> dir_item \<Rightarrow> 'a explorer_scheme \<Rightarrow> 'a explorer_scheme" where
  "OpenViewer Tick Rounds E x =
     (if \<not> Usable E then SetError Tick E_NAME_LONG (ItemName E) x
      else case ViewerRun Tick Rounds (BuildFull x (ItemName E)) (ItemName E) x of
        (None, x) \<Rightarrow> x\<lparr>InViewer := True\<rparr>
      | (Some code, x) \<Rightarrow>
          let x = xraise DF_ALL (FillScreen COL_BG x)
          in if code \<noteq> 0 then SetError Tick code (if ViewerDetail x \<noteq> [] then ViewerDetail x else ItemName E) x else x)"

text \<open>Going into a folder; the folder before comes back when the path is too long or cannot be read.\<close>
definition EnterDir :: "u64 \<Rightarrow> dir_item \<Rightarrow> 'a explorer_scheme \<Rightarrow> 'a explorer_scheme" where
  "EnterDir Tick E x =
     (if \<not> Usable E then SetError Tick E_NAME_LONG (ItemName E) x
      else let Saved = copy_loop (Dir x) (FS_PATH_MAX - 1); x = DirJoin (ItemName E) x
      in if length (Dir x) \<ge> FS_PATH_MAX - 2 then SetError Tick E_PATH_LONG (ItemName E) (x\<lparr>Dir := Saved\<rparr>)
      else case LoadDir Tick None x of (ok, x) \<Rightarrow>
        if \<not> ok then snd (LoadDir Tick None (x\<lparr>Dir := Saved\<rparr>)) else x)"

definition Activate :: "u64 \<Rightarrow> (irq list \<times> u64) list \<Rightarrow> int \<Rightarrow> 'a explorer_scheme \<Rightarrow> 'a explorer_scheme" where
  "Activate Tick Rounds Index x =
     (case ItemEntry x Index of
        None \<Rightarrow> GoUp Tick x
      | Some E \<Rightarrow>
          if ItemKind E = KIND_DIR then EnterDir Tick E x
          else if ItemKind E = KIND_WAV then snd (StartPlay Tick E x)
          else OpenViewer Tick Rounds E x)"

section \<open>Details, sorting, playing on\<close>

definition wav_blank :: wav_info where
  "wav_blank = \<lparr>Channels = 0, BitsPerSample = 0, BlockAlign = 0, SampleRate = 0, DataOffset = 0, DataBytes = 0\<rparr>"

text \<open>The part of the details that describes the format; the text so far and the result have at most 219
  characters.\<close>
definition WavDetails :: "wav_info \<Rightarrow> cstring \<Rightarrow> cstring" where
  "WavDetails I Txt =
     (let Txt = append_text Txt (lit '', WAV '') 220;
          Txt = append_text Txt (dec_text (ucast (SampleRate I))) 220;
          Txt = append_text Txt (lit '' Hz '') 220;
          Txt = append_text Txt (dec_text (ucast (BitsPerSample I))) 220;
          Txt = append_text Txt (lit ''-bit '') 220;
          Txt = append_text Txt (dec_text (ucast (Channels I))) 220;
          Txt = append_text Txt (lit (if Channels I = 1 then '' channel, '' else '' channels, '')) 220
      in append_text Txt (UiFormatTime (DataBytes I div ucast (BlockAlign I) div SampleRate I)) 220)"

text \<open>The division by the sample rate raises an exception when the header says 0.\<close>
definition ShowInfo :: "u64 \<Rightarrow> 'a explorer_scheme \<Rightarrow> 'a explorer_scheme" where
  "ShowInfo Tick x =
     (case ItemEntry x (Selected x) of
        None \<Rightarrow> SetMessage Tick (lit ''Parent folder'') MSG_INFO x
      | Some E \<Rightarrow>
      let Txt = copy_loop (ItemName E) 219
      in if ItemKind E = KIND_DIR then SetMessage Tick (append_text Txt (lit '': folder'') 220) MSG_INFO x
      else let Txt = append_text Txt (lit '': '') 220;
               Txt = append_text Txt (dec_text (ucast (ItemSize E))) 220;
               Txt = append_text Txt (lit '' bytes'') 220
      in if ItemKind E = KIND_WAV
      then (case FsResolve (BuildFull x (ItemName E)) (Files x) of
              (Inl Status, p) \<Rightarrow> SetError Tick E_INFO_FAILED (ItemName E) (x\<lparr>Files := p\<rparr>)
            | (Inr N, p) \<Rightarrow>
                (case WavParse N wav_blank p of (Status, I, p) \<Rightarrow>
                   let x = x\<lparr>Files := p\<rparr>
                   in if Status \<noteq> 1
                   then SetError Tick (if Status = WAV_ERR_NOTWAV then E_AUDIO_NOTWAV else E_AUDIO_FORMAT) (ItemName E) x
                   else if BlockAlign I = 0 \<or> SampleRate I = 0 then x\<lparr>Halted := True\<rparr>
                   else SetMessage Tick (WavDetails I Txt) MSG_INFO x))
      else SetMessage Tick (append_text Txt (lit (if ItemKind E = KIND_TEXT then '', text file'' else '', file'')) 220) MSG_INFO x)"

definition JumpToLetter :: "u64 \<Rightarrow> u8 \<Rightarrow> 'a explorer_scheme \<Rightarrow> 'a explorer_scheme" where
  "JumpToLetter Tick Ch x =
     (let Count = ItemCount x;
          Hit = (\<lambda>i. case ItemEntry x i of Some E \<Rightarrow> (case ItemName E of [] \<Rightarrow> lower 0 = lower Ch | c # cs \<Rightarrow> lower c = lower Ch) | None \<Rightarrow> False)
      in case find Hit (map (\<lambda>Step. (Selected x + Step) mod Count) [1..Count]) of
           Some Index \<Rightarrow> Select Tick Index x
         | None \<Rightarrow> x)"

text \<open>The name of the selected entry, empty for the parent folder.\<close>
definition FocusName :: "'a explorer_scheme \<Rightarrow> cstring" where
  "FocusName x = (case ItemEntry x (Selected x) of Some E \<Rightarrow> copy_loop (ItemName E) (FAT_NAME_MAX - 1) | None \<Rightarrow> [])"

definition Refresh :: "u64 \<Rightarrow> 'a explorer_scheme \<Rightarrow> 'a explorer_scheme" where
  "Refresh Tick x = snd (LoadDir Tick (Some (FocusName x)) x)"

definition CycleSort :: "u64 \<Rightarrow> 'a explorer_scheme \<Rightarrow> 'a explorer_scheme" where
  "CycleSort Tick x =
     (let Focus = FocusName x;
          x = SortEntries (x\<lparr>SortMode := (SortMode x + 1) mod 3\<rparr>);
          Found = (if Focus \<noteq> [] then FindItemByName Focus x else - 1);
          x = ClampScroll Tick (x\<lparr>Selected := if Found \<ge> 0 then Found else 0, XScroll := 0\<rparr>)
      in xraise (DF_PATH OR DF_LIST) x)"

definition AdvanceTrack :: "u64 \<Rightarrow> 'a explorer_scheme \<Rightarrow> 'a explorer_scheme" where
  "AdvanceTrack Tick x =
     (if PlayingVolume x \<noteq> Volume x \<or> \<not> str_eq (PlayingDir x) (Dir x) then x
      else let Current = FindItemByName (PlayingName x) x
      in if Current < 0 then x
      else case find (\<lambda>i. case ItemEntry x i of Some E \<Rightarrow> ItemKind E = KIND_WAV | None \<Rightarrow> False) [Current + 1..ItemCount x - 1] of
        Some i \<Rightarrow> (case ItemEntry x i of Some E \<Rightarrow> snd (StartPlay Tick E (Select Tick i x)) | None \<Rightarrow> x)
      | None \<Rightarrow> SetMessage Tick (lit ''Autoplay: end of folder'') MSG_INFO x)"

definition Layout :: "'a explorer_scheme \<Rightarrow> bool \<times> 'a explorer_scheme" where
  "Layout x =
     (let Top = TITLE_H + PATH_H; Y = Top + HEAD_H; H = UiH x - NOW_H - HINT_H - Y; V = sint (H div ROW_H)
      in (V \<ge> 3, x\<lparr>SideTop := Top, ListY := Y, ListH := H, Visible := V\<rparr>))"

section \<open>Drawing\<close>

definition DrawIcon :: "nat \<Rightarrow> u32 \<Rightarrow> u32 \<Rightarrow> 'a explorer_scheme \<Rightarrow> 'a explorer_scheme" where
  "DrawIcon Kind X Y0 x =
     (let Y = Y0 + 3
      in if Kind = KIND_DIR
      then FillRect X (Y + 5) 16 1 COL_FOLDER_DK (FillRect X (Y + 3) 16 11 COL_FOLDER (FillRect X (Y + 1) 7 3 COL_FOLDER x))
      else if Kind = KIND_WAV
      then (let x = FillRect (X + 1) (Y + 5) 4 6 COL_ACCENT x;
                x = FillRect (X + 5) (Y + 3) 2 10 COL_ACCENT x;
                x = FillRect (X + 7) (Y + 1) 2 14 COL_ACCENT x;
                x = FillRect (X + 11) (Y + 4) 1 8 COL_ACCENT x
            in FillRect (X + 14) (Y + 2) 1 12 COL_ACCENT x)
      else let Color = (if Kind = KIND_TEXT then COL_TEXT else COL_FILE);
               x = FillRect (X + 2) (Y + 1) 12 14 Color x;
               x = FillRect (X + 4) (Y + 5) 8 1 COL_BG x;
               x = FillRect (X + 4) (Y + 8) 8 1 COL_BG x
           in FillRect (X + 4) (Y + 11) 6 1 COL_BG x)"

definition IsPlayingEntry :: "dir_item \<Rightarrow> 'a explorer_scheme \<Rightarrow> bool" where
  "IsPlayingEntry E x \<longleftrightarrow>
     PlayingShown x \<and> Active (Files x) \<and> ItemKind E = KIND_WAV \<and> str_eq (BuildFull x (ItemName E)) (PlayingFull x)"

text \<open>The columns of a row that holds an entry.\<close>
definition DrawEntry :: "dir_item \<Rightarrow> u32 \<Rightarrow> 'a explorer_scheme \<Rightarrow> 'a explorer_scheme" where
  "DrawEntry E Y x =
     (let NameChars = sint ((UiW x - SIDE_W - SCROLL_W - 40 - 230) div of_nat FONT_WIDTH);
          NameX = SIDE_W + 40; SizeX = UiW x - SCROLL_W - 220; TypeX = UiW x - SCROLL_W - 110;
          Playing = IsPlayingEntry E x;
          x = DrawIcon (ItemKind E) (SIDE_W + 12) Y x;
          x = (if Playing then DrawChar (SIDE_W + 2) (Y + 3) (chr_code CHR ''>'') COL_ACCENT x else x);
          x = UiText NameX (Y + 3) (ItemName E) (if Playing then COL_ACCENT else if Hidden E then COL_DIM else COL_TEXT) NameChars x;
          Size = UiFormatSize (ItemSize E);
          x = (if ItemKind E \<noteq> KIND_DIR
               then UiText (SizeX + (88 - of_nat (length Size) * of_nat FONT_WIDTH)) (Y + 3) Size COL_DIM 11 x else x);
          Type = (if ItemKind E = KIND_DIR then ''Folder'' else if ItemKind E = KIND_WAV then ''WAV audio''
                  else if ItemKind E = KIND_TEXT then ''Text'' else ''File'')
      in UiText TypeX (Y + 3) (lit Type) (if ItemKind E = KIND_WAV then COL_ACCENT else COL_DIM) 12 x)"

definition DrawItemRow :: "int \<Rightarrow> 'a explorer_scheme \<Rightarrow> 'a explorer_scheme" where
  "DrawItemRow Index x =
     (if Index < XScroll x \<or> Index \<ge> XScroll x + Visible x \<or> Index \<ge> ItemCount x then x
      else let Y = ListY x + of_int (Index - XScroll x) * ROW_H; Width = UiW x - SIDE_W - SCROLL_W;
               Bg = (if Index = Selected x then COL_SELECT else if odd Index then COL_BG_ALT else COL_BG);
               x = FillRect SIDE_W Y Width ROW_H Bg x
      in case ItemEntry x Index of
           None \<Rightarrow>
             (let x = FillRect (SIDE_W + 12) (Y + 7) 16 8 COL_FOLDER_DK x;
                  x = UiText (SIDE_W + 40) (Y + 3) (lit ''..'') COL_TEXT
                        (sint ((UiW x - SIDE_W - SCROLL_W - 40 - 230) div of_nat FONT_WIDTH)) x
              in UiText (UiW x - SCROLL_W - 110) (Y + 3) (lit ''Up'') COL_DIM 12 x)
         | Some E \<Rightarrow> DrawEntry E Y x)"

definition DrawListScrollbar :: "'a explorer_scheme \<Rightarrow> 'a explorer_scheme" where
  "DrawListScrollbar x =
     (let X = UiW x - SCROLL_W; x = FillRect X (ListY x) SCROLL_W (ListH x) COL_PANEL x; Count = ItemCount x
      in if Count \<le> Visible x then x
      else let ThumbH = ListH x * of_int (Visible x) div of_int Count;
               ThumbH = (if ThumbH < 20 then 20 else ThumbH);
               Range = ListH x - ThumbH;
               ThumbY = ListY x + Range * of_int (XScroll x) div of_int (Count - Visible x)
           in FillRect (X + 1) ThumbY (SCROLL_W - 2) ThumbH COL_DIM x)"

definition DrawList :: "'a explorer_scheme \<Rightarrow> 'a explorer_scheme" where
  "DrawList x =
     (let Width = UiW x - SIDE_W - SCROLL_W;
          x = FillRect SIDE_W (ListY x) Width (ListH x) COL_BG x;
          x = (if FsVolumeCount (Files x) = 0
               then UiText (SIDE_W + 24) (ListY x + 24) (lit ''No readable volumes found'') COL_ERROR 60 x
               else if ItemCount x = 0
               then UiText (SIDE_W + 24) (ListY x + 24) (lit ''This folder is empty'') COL_DIM 60 x
               else x);
          x = fold DrawItemRow [XScroll x..min (XScroll x + Visible x) (ItemCount x) - 1] x
      in DrawListScrollbar x)"

definition DrawExplorerTitle :: "'a explorer_scheme \<Rightarrow> 'a explorer_scheme" where
  "DrawExplorerTitle x =
     (let x = FillRect 0 0 (UiW x) TITLE_H COL_HEADER x;
          x = UiText 12 6 (lit ''Bloom Explorer'') COL_ACCENT 30 x
      in UiText (UiW x - 8 * 16 - 12) 6 (lit ''Esc - exit'') COL_DIM 16 x)"

definition DrawPath :: "'a explorer_scheme \<Rightarrow> 'a explorer_scheme" where
  "DrawPath x =
     (let x = FillRect 0 TITLE_H (UiW x) PATH_H COL_PANEL x;
          x = FillRect 8 (TITLE_H + 4) 56 24 COL_BUTTON x;
          x = UiText (8 + 16) (TITLE_H + 8) (lit ''Up'') (if AtRoot x then COL_DIM else COL_TEXT) 4 x;
          Chips = append_text [] (lit ''Sort: '') 64;
          Chips = append_text Chips (lit (if SortMode x = SORT_NAME then ''name'' else if SortMode x = SORT_SIZE then ''size'' else ''type'')) 64;
          Chips = append_text Chips (lit ''   Hidden: '') 64;
          Chips = append_text Chips (lit (if ShowHidden x then ''on'' else ''off'')) 64;
          x = UiText (UiW x - 8 * 28 - 12) (TITLE_H + 8) Chips COL_DIM 28 x;
          Full = copy_loop (if FsVolumeCount (Files x) \<noteq> 0 then FsVolumeName (Files x) (Volume x) else lit ''-'') (FULL_MAX - 1);
          Full = append_text Full (lit '':'') FULL_MAX;
          Full = append_text Full (Dir x) FULL_MAX;
          Fit = sint ((UiW x - 84 - 8 * 30) div of_nat FONT_WIDTH);
          Len = int (length Full)
      in if Len > Fit
      then (let x = UiText 76 (TITLE_H + 8) (lit ''...'') COL_DIM 3 x
            in UiText (76 + 3 * of_nat FONT_WIDTH) (TITLE_H + 8) (drop (nat (Len - (Fit - 3))) Full) COL_TEXT (Fit - 3) x)
      else UiText 76 (TITLE_H + 8) Full COL_TEXT Fit x)"

text \<open>The volumes, as many as there is room for.\<close>
fun DrawVolumes :: "u32 \<Rightarrow> int list \<Rightarrow> 'a explorer_scheme \<Rightarrow> 'a explorer_scheme" where
  "DrawVolumes Height [] x = x"
| "DrawVolumes Height (i # is) x =
     (let Y = SideTop x + SIDE_HEAD_H + of_int i * SIDE_ROW_H
      in if Y + SIDE_ROW_H > SideTop x + Height then x
      else let x = (if i = Volume x
                    then FillRect 0 Y 4 SIDE_ROW_H COL_ACCENT (FillRect 0 Y SIDE_W SIDE_ROW_H COL_SELECT x) else x);
               x = FillRect 14 (Y + 7) 14 10 (if i = Volume x then COL_ACCENT else COL_FILE) x;
               x = UiText 38 (Y + 6) (FsVolumeName (Files x) i) COL_TEXT 19 x
      in DrawVolumes Height is x)"

definition DrawSidebar :: "'a explorer_scheme \<Rightarrow> 'a explorer_scheme" where
  "DrawSidebar x =
     (let Height = UiH x - NOW_H - HINT_H - SideTop x;
          x = FillRect 0 (SideTop x) SIDE_W Height COL_PANEL x;
          x = UiText 12 (SideTop x + 5) (lit ''VOLUMES'') COL_DIM 20 x
      in DrawVolumes Height [0..FsVolumeCount (Files x) - 1] x)"

definition DrawHeader :: "'a explorer_scheme \<Rightarrow> 'a explorer_scheme" where
  "DrawHeader x =
     (let x = FillRect SIDE_W (SideTop x) (UiW x - SIDE_W) HEAD_H COL_HEADER x;
          x = UiText (SIDE_W + 40) (SideTop x + 3) (lit ''Name'') COL_DIM 10 x;
          x = UiText (UiW x - SCROLL_W - 220 + 88 - 4 * of_nat FONT_WIDTH) (SideTop x + 3) (lit ''Size'') COL_DIM 10 x
      in UiText (UiW x - SCROLL_W - 110) (SideTop x + 3) (lit ''Type'') COL_DIM 10 x)"

definition AutoplayText :: "'a explorer_scheme \<Rightarrow> u32 \<Rightarrow> 'a explorer_scheme" where
  "AutoplayText x Y = UiText (UiW x - 100 - 8 * 14) (Y + 6) (lit (if Autoplay x then ''Autoplay: on'' else ''Autoplay: off'')) COL_DIM 14 x"

definition DrawNow :: "'a explorer_scheme \<Rightarrow> 'a explorer_scheme" where
  "DrawNow x =
     (let Y = UiH x - NOW_H - HINT_H; x = FillRect 0 Y (UiW x) NOW_H COL_HEADER x
      in if \<not> Active (Files x)
      then AutoplayText (UiText 12 (Y + 6) (lit ''Nothing playing'') COL_DIM 40 x) Y
      else case on_player PlayerElapsedSeconds x of (Seconds, x) \<Rightarrow>
      let Total = PubTotalSeconds (Public (Files x));
          Line = copy_loop (UiFormatTime Seconds) 63;
          Line = append_text Line (lit '' / '') 64;
          Line = append_text Line (UiFormatTime Total) 64;
          x = UiText 12 (Y + 6) (PlayingName x) COL_ACCENT 28 x;
          x = UiText (12 + 30 * of_nat FONT_WIDTH) (Y + 6) Line COL_TEXT 16 x;
          BarX = 12 + 48 * of_nat FONT_WIDTH;
          BarW = UiW x - BarX - 120 - 8 * 14;
          x = FillRect BarX (Y + 10) BarW 8 COL_TRACK x;
          x = (if Total > 0 then FillRect BarX (Y + 10) (BarW * Seconds div Total) 8 COL_ACCENT x else x);
          x = AutoplayText x Y;
          x = FillRect (UiW x - 100) (Y + 3) 88 22 COL_BUTTON x
      in UiText (UiW x - 100 + 20) (Y + 6) (lit ''Stop'') COL_TEXT 6 x)"

definition DrawExplorerHint :: "'a explorer_scheme \<Rightarrow> 'a explorer_scheme" where
  "DrawExplorerHint x =
     (let Y = UiH x - HINT_H; Fit = sint ((UiW x - 24) div of_nat FONT_WIDTH);
          x = FillRect 0 Y (UiW x) HINT_H COL_PANEL x
      in if XMessage x \<noteq> []
      then UiText 12 (Y + 6) (XMessage x)
             (if XMessageKind x = MSG_ERROR then COL_ERROR else if XMessageKind x = MSG_WARN then COL_WARN else COL_ACCENT) Fit x
      else UiText 12 (Y + 6)
             (lit ''Enter open  Bksp up  Tab volume  Space stop  ^S sort  ^A hidden  ^R refresh  ^D info  ^P autoplay  Esc exit'')
             COL_DIM Fit x)"

definition PresentRows :: "'a explorer_scheme \<Rightarrow> 'a explorer_scheme" where
  "PresentRows x =
     (let x = (if RowDirtyA x \<ge> 0 then DrawItemRow (RowDirtyA x) x else x)
      in if RowDirtyB x \<ge> 0 then DrawItemRow (RowDirtyB x) x else x)"

definition ExplorerPresent :: "'a explorer_scheme \<Rightarrow> 'a explorer_scheme" where
  "ExplorerPresent x =
     (let x = (if XFlags x \<noteq> 0 \<or> RowDirtyA x \<ge> 0 \<or> RowDirtyB x \<ge> 0
               then let F = XFlags x; x = UiCursorHide x;
                        x = (if F AND DF_PATH \<noteq> 0 then DrawPath (DrawExplorerTitle x) else x);
                        x = (if F AND DF_SIDE \<noteq> 0 then DrawHeader (DrawSidebar x) else x);
                        x = (if F AND DF_LIST \<noteq> 0 then DrawList x else PresentRows x);
                        x = (if F AND DF_NOW \<noteq> 0 then DrawNow x else x);
                        x = (if F AND DF_HINT \<noteq> 0 then DrawExplorerHint x else x)
                    in x\<lparr>XFlags := 0, RowDirtyA := - 1, RowDirtyB := - 1\<rparr>
               else x)
      in UiCursorShow x)"

section \<open>Keys and clicks\<close>

definition StopPlaying :: "'a explorer_scheme \<Rightarrow> 'a explorer_scheme" where
  "StopPlaying x = xraise (DF_NOW OR DF_LIST) (snd (on_player PlayerStop x))"

definition ToggleAutoplay :: "'a explorer_scheme \<Rightarrow> 'a explorer_scheme" where
  "ToggleAutoplay x = xraise DF_NOW (x\<lparr>Autoplay := \<not> Autoplay x\<rparr>)"

text \<open>The result says whether the explorer is left.\<close>
definition ExplorerHandleKey :: "u64 \<Rightarrow> (irq list \<times> u64) list \<Rightarrow> int \<Rightarrow> 'a explorer_scheme \<Rightarrow> bool \<times> 'a explorer_scheme" where
  "ExplorerHandleKey Tick Rounds Key x =
     (if Key = 27 then (True, x)
      else (False,
        if Key = KEY_UP then Select Tick (Selected x - 1) x
        else if Key = KEY_DOWN then Select Tick (Selected x + 1) x
        else if Key = KEY_PGUP then Select Tick (Selected x - Visible x) x
        else if Key = KEY_PGDN then Select Tick (Selected x + Visible x) x
        else if Key = KEY_HOME then Select Tick 0 x
        else if Key = KEY_END then Select Tick (ItemCount x - 1) x
        else if Key = 10 then Activate Tick Rounds (Selected x) x
        else if Key = KEY_RIGHT
        then (case ItemEntry x (Selected x) of
                Some E \<Rightarrow> if ItemKind E = KIND_DIR then Activate Tick Rounds (Selected x) x else x
              | None \<Rightarrow> x)
        else if Key = 8 \<or> Key = KEY_LEFT then GoUp Tick x
        else if Key = 9
        then (if FsVolumeCount (Files x) > 1 then SwitchVolume Tick ((Volume x + 1) mod FsVolumeCount (Files x)) x else x)
        else if Key = 32 then (if Active (Files x) then StopPlaying x else x)
        else if Key = 0x13 then CycleSort Tick x
        else if Key = 0x01 then Refresh Tick (xraise DF_PATH (x\<lparr>ShowHidden := \<not> ShowHidden x\<rparr>))
        else if Key = 0x12 then SetMessage Tick (lit ''Refreshed'') MSG_INFO (Refresh Tick x)
        else if Key = 0x04 then ShowInfo Tick x
        else if Key = 0x10 then ToggleAutoplay x
        else if Key > 32 \<and> Key \<le> 126 then JumpToLetter Tick (of_int Key) x
        else x))"

text \<open>A click on the scroll bar moves the window and the selection by a page.\<close>
definition PageClick :: "u64 \<Rightarrow> 'a explorer_scheme \<Rightarrow> 'a explorer_scheme" where
  "PageClick Tick x =
     (let Count = ItemCount x
      in if Count > Visible x
      then (let x = (if UiMouseY x < sint (ListY x + ListH x div 2)
                     then x\<lparr>XScroll := XScroll x - Visible x, Selected := Selected x - Visible x\<rparr>
                     else x\<lparr>XScroll := XScroll x + Visible x, Selected := Selected x + Visible x\<rparr>);
                x = (if Selected x < 0 then x\<lparr>Selected := 0\<rparr> else x);
                x = (if Selected x \<ge> Count then x\<lparr>Selected := Count - 1\<rparr> else x)
            in xraise DF_LIST (ClampScroll Tick x))
      else x)"

text \<open>A click on a row selects it; a second one within half a second activates it. Both divisions of this
  function are by the height of a row, of a distance that \<open>UiInside\<close> has found not negative.\<close>
definition RowClick :: "u64 \<Rightarrow> (irq list \<times> u64) list \<Rightarrow> 'a explorer_scheme \<Rightarrow> 'a explorer_scheme" where
  "RowClick Tick Rounds x =
     (let Index = XScroll x + (UiMouseY x - sint (ListY x)) div 22
      in if Index < ItemCount x
      then (if Index = Selected x \<and> LastClickItem x = Index \<and> Tick - LastClickTick x < 500
            then Activate Tick Rounds Index (x\<lparr>LastClickItem := - 1\<rparr>)
            else (Select Tick Index x)\<lparr>LastClickItem := Index, LastClickTick := Tick\<rparr>)
      else x)"

definition ExplorerHandleClick :: "u64 \<Rightarrow> (irq list \<times> u64) list \<Rightarrow> 'a explorer_scheme \<Rightarrow> 'a explorer_scheme" where
  "ExplorerHandleClick Tick Rounds x =
     (let inside = UiInside (UiMouseX x) (UiMouseY x)
      in if inside SIDE_W (ListY x) (UiW x - SIDE_W - SCROLL_W) (of_int (Visible x) * ROW_H) then RowClick Tick Rounds x
      else if inside (UiW x - SCROLL_W) (ListY x) SCROLL_W (ListH x) then PageClick Tick x
      else if inside 0 (SideTop x + SIDE_HEAD_H) SIDE_W (UiH x - NOW_H - HINT_H - SideTop x - SIDE_HEAD_H)
      then SwitchVolume Tick ((UiMouseY x - sint (SideTop x + SIDE_HEAD_H)) div 28) x
      else if inside 8 (TITLE_H + 4) 56 24 then GoUp Tick x
      else if Active (Files x) \<and> inside (UiW x - 100) (UiH x - NOW_H - HINT_H + 3) 88 22 then StopPlaying x
      else if inside (UiW x - 100 - 8 * 14) (UiH x - NOW_H - HINT_H) (8 * 14) NOW_H then ToggleAutoplay x
      else x)"

section \<open>The explorer\<close>

text \<open>\<open>ExplorerRun\<close> up to its main loop: whether the loop is entered. The message printed on the console when
  the screen is too small is the one that is logged.\<close>
definition StartDir :: "'a explorer_scheme \<Rightarrow> 'a explorer_scheme" where
  "StartDir x =
     (let p = Files x
      in if FsHasCwd p
      then (case find (\<lambda>i. str_eq (FsVolumeName p i) (FsCwdVolume p)) [0..FsVolumeCount p - 1] of
              Some i \<Rightarrow> x\<lparr>Volume := i, Dir := copy_loop (CwdPathText p) (FS_PATH_MAX - 1)\<rparr>
            | None \<Rightarrow> x)
      else x)"

definition ExplorerOpen :: "u64 \<Rightarrow> 'a explorer_scheme \<Rightarrow> bool \<times> 'a explorer_scheme" where
  "ExplorerOpen Tick x =
     (let x = UiInit x
      in if UiW x < 800 \<or> UiH x < 480 then (False, desk_log (lit ''explorer'') E_SCREEN_SMALL (Some []) x)
      else case Layout x of (ok, x) \<Rightarrow>
      if \<not> ok then (False, desk_log (lit ''explorer'') E_SCREEN_SMALL (Some []) x)
      else let x = x\<lparr>Volume := 0, Dir := [chr_code CHR ''/''], XMessage := [], PlayingShown := False, Selected := 0,
                     XScroll := 0, RowDirtyA := - 1, RowDirtyB := - 1, LastClickItem := - 1, ShownSecond := 0xFFFFFFFF,
                     SortMode := SORT_NAME, ShowHidden := False, Autoplay := True, XFlags := 0\<rparr>;
               x = FillScreen COL_BG (StartDir x);
               x = snd (LoadDir Tick None x);
               x = snd (on_player PlayerTakeFinished x)
      in (True, drain_keys KEY_BUFFER_SIZE x))"

text \<open>What a track that has come to its end leads to.\<close>
definition AfterTrack :: "u64 \<Rightarrow> 'a explorer_scheme \<Rightarrow> 'a explorer_scheme" where
  "AfterTrack Tick x =
     (case on_player PlayerTakeFinished x of (fin, x) \<Rightarrow>
        if \<not> fin then x
        else let x = xraise (DF_NOW OR DF_LIST) x
        in if ReadFailed (Files x) then SetError Tick E_AUDIO_READ (PlayingName x) x
        else if Autoplay x then AdvanceTrack Tick x else x)"

definition ShowSeconds :: "'a explorer_scheme \<Rightarrow> 'a explorer_scheme" where
  "ShowSeconds x =
     (if Active (Files x)
      then (case on_player PlayerElapsedSeconds x of (Seconds, x) \<Rightarrow>
              if Seconds \<noteq> ShownSecond x then xraise DF_NOW (x\<lparr>ShownSecond := Seconds\<rparr>) else x)
      else x\<lparr>ShownSecond := 0xFFFFFFFF\<rparr>)"

text \<open>One round of the main loop: whether it is left.\<close>
definition ExplorerRound :: "u64 \<Rightarrow> (irq list \<times> u64) list \<Rightarrow> 'a explorer_scheme \<Rightarrow> bool \<times> 'a explorer_scheme" where
  "ExplorerRound Tick Rounds x =
     (case GetKey x of (Key, x) \<Rightarrow>
      case (if Key \<noteq> 0 then ExplorerHandleKey Tick Rounds Key x else (False, x)) of (leave, x) \<Rightarrow>
      if leave \<or> InViewer x \<or> Halted x then (leave, x)
      else case UiPollMouse x of (moved, Pressed, x) \<Rightarrow>
      let x = (if moved \<and> Pressed AND 1 \<noteq> 0 then ExplorerHandleClick Tick Rounds x else x)
      in if InViewer x \<or> Halted x then (False, x)
      else let x = snd (on_player PlayerPoll x);
               x = ShowSeconds (AfterTrack Tick x);
               x = (if XMessage x \<noteq> [] \<and> Tick \<ge> XMessageUntil x then xraise DF_HINT (x\<lparr>XMessage := []\<rparr>) else x)
      in (False, ExplorerPresent x))"

text \<open>After the loop; repainting the console is left to the console.\<close>
definition ExplorerClose :: "'a explorer_scheme \<Rightarrow> 'a explorer_scheme" where
  "ExplorerClose x = UiCursorHide (snd (on_player PlayerStop x))"

text \<open>The rounds, each with the interrupts before it, its tick and the rounds of the viewer it may open, until
  one leaves the loop. A session of the viewer that goes on, and a halted processor, let no round follow.\<close>
fun ExplorerRounds :: "(irq list \<times> u64 \<times> (irq list \<times> u64) list) list \<Rightarrow> 'a explorer_scheme \<Rightarrow> bool \<times> 'a explorer_scheme" where
  "ExplorerRounds [] x = (False, x)"
| "ExplorerRounds ((irqs, t, vs) # rs) x =
     (if InViewer x \<or> Halted x then (False, x)
      else case ExplorerRound t vs (fold desk_irq irqs x) of (leave, x) \<Rightarrow>
        if leave then (True, ExplorerClose x) else ExplorerRounds rs x)"

end
