(* ===== verification/ExplorerSort.thy ===== *)
theory ExplorerSort
  imports Explorer "HOL-Library.List_Lexorder" "HOL-Library.Product_Lexorder"
begin

text \<open>
  The order in which the explorer shows a folder: the comparison of \<open>EntryLess\<close> is a linear order on keys,
  and the shell sort of \<open>SortEntries\<close> puts every entry in its place.
\<close>

section \<open>The keys\<close>

definition name_key :: "cstring \<Rightarrow> u8 list" where "name_key s = map lower (cstr s)"

lemma name_key_simps [simp]:
  "name_key [] = []" "name_key (c # cs) = (if c = 0 then [] else lower c # name_key cs)"
  by (simp_all add: name_key_def cstr_def)

lemma lower_0 [simp]: "lower 0 = 0" by simp

lemma lower_pos: "0 < uint (lower b) \<longleftrightarrow> b \<noteq> 0"
proof -
  have "0 < uint (lower b) \<longleftrightarrow> 0 < lower b" by (simp add: word_less_def del: lower_zero_iff)
  also have "\<dots> \<longleftrightarrow> lower b \<noteq> 0" by (simp only: word_neq_0_conv)
  finally show ?thesis by simp
qed

lemma compare_names_key:
  "compare_names a b < 0 \<longleftrightarrow> name_key a < name_key b" "compare_names a b = 0 \<longleftrightarrow> name_key a = name_key b"
proof (induction a b rule: compare_names.induct)
  case (2 b bs)
  { case 1 show ?case by (simp add: lower_pos) }
  { case 2 show ?case by (simp add: uint_0_iff) }
next
  case (3 a as)
  { case 1 show ?case by simp }
  { case 2 show ?case by (simp add: uint_0_iff) }
next
  case (4 a as b bs)
  { case 1 show ?case using 4(1) lower_zero_iff [of a] lower_zero_iff [of b] lower_pos [of a] lower_pos [of b]
      by (cases "a = 0"; cases "b = 0") (auto simp: word_less_def) }
  { case 2
    have "uint (lower a) - uint (lower b) = 0 \<longleftrightarrow> lower a = lower b" by (simp add: word_uint_eq_iff)
    then show ?case using 4(2) lower_zero_iff [of a] lower_zero_iff [of b]
      by (cases "a = 0"; cases "b = 0") (auto simp del: right_minus_eq eq_iff_diff_eq_0 [symmetric]) }
qed simp_all

text \<open>Folders come first; then, by the mode, greater files or smaller extensions; then the names.\<close>
definition item_key :: "int \<Rightarrow> dir_item \<Rightarrow> nat \<times> nat \<times> u8 list \<times> u8 list" where
  "item_key mode E =
     (if ItemKind E = KIND_DIR then (0, 0, [], name_key (ItemName E))
      else (1, if mode = SORT_SIZE then 2 ^ 32 - unat (ItemSize E) else 0,
            if mode = SORT_TYPE then name_key (ExtensionOf (ItemName E)) else [], name_key (ItemName E)))"

lemma EntryLess_key:
  "EntryLess x a b \<longleftrightarrow> item_key (SortMode x) (Entries x ! a) < item_key (SortMode x) (Entries x ! b)"
proof -
  have size: "4294967296 - unat s < 4294967296 - unat t \<longleftrightarrow> s > t" "4294967296 - unat s = 4294967296 - unat t \<longleftrightarrow> s = t" for s t :: u32
    using unat_u32_lt [of s] unat_u32_lt [of t] by (auto simp: word_less_nat_alt word_unat_eq_iff)
  show ?thesis
    by (simp add: EntryLess_def item_key_def Let_def compare_names_key size less_prod_def' SORT_SIZE_def SORT_TYPE_def)
qed

section \<open>The passes\<close>

lemma ShiftLoop_mset:
  "j < length xs \<Longrightarrow> mset (ShiftLoop lt Gap Tmp j xs) = mset (xs[j := Tmp])"
proof (induction lt Gap Tmp j xs rule: ShiftLoop.induct)
  case (1 lt Gap Tmp j xs)
  show ?case
  proof (cases "0 < Gap \<and> j \<ge> Gap \<and> lt Tmp (xs ! (j - Gap))")
    case True
    let ?ys = "xs[j := Tmp]"
    have "mset (ShiftLoop lt Gap Tmp j xs) = mset (xs[j := xs ! (j - Gap), j - Gap := Tmp])"
      using "1.IH" [OF True] "1.prems" True by (subst ShiftLoop.simps) simp
    also have "xs[j := xs ! (j - Gap), j - Gap := Tmp] = ?ys[j := ?ys ! (j - Gap), j - Gap := ?ys ! j]"
    proof -
      have "j \<noteq> j - Gap" using conjunct1 [OF True] conjunct1 [OF conjunct2 [OF True]] by linarith
      then show ?thesis using "1.prems" by (simp add: nth_list_update_neq)
    qed
    also have "mset \<dots> = mset ?ys" using "1.prems" by (intro mset_swap) auto
    finally show ?thesis .
  next
    case False
    then show ?thesis by (subst ShiftLoop.simps) auto
  qed
qed

lemma ShiftLoop_length [simp]: "length (ShiftLoop lt Gap Tmp j xs) = length xs"
proof (induction lt Gap Tmp j xs rule: ShiftLoop.induct)
  case (1 lt Gap Tmp j xs)
  then show ?case by (subst ShiftLoop.simps) simp
qed

lemma pass_mset:
  "\<forall>i \<in> set ns. i < length xs \<Longrightarrow> mset (fold (\<lambda>i xs. ShiftLoop lt Gap (xs ! i) i xs) ns xs) = mset xs"
proof (induction ns arbitrary: xs)
  case (Cons i ns)
  then show ?case by (simp add: ShiftLoop_mset)
qed simp

lemma GapPass_mset: "n \<le> length xs \<Longrightarrow> mset (GapPass lt Gap n xs) = mset xs"
  unfolding GapPass_def by (rule pass_mset) simp

lemma GapLoop_mset: "n \<le> length xs \<Longrightarrow> mset (GapLoop lt Gap n xs) = mset xs"
proof (induction lt Gap n xs rule: GapLoop.induct)
  case (1 lt Gap n xs)
  have "length (GapPass lt Gap n xs) = length xs" using GapPass_mset [OF "1.prems", of lt Gap] by (metis size_mset)
  with 1 show ?case by (subst GapLoop.simps) (simp add: GapPass_mset)
qed

text \<open>With a gap of one a pass is an insertion sort, from the right.\<close>
fun insert_down :: "('a \<Rightarrow> 'k :: linorder) \<Rightarrow> 'a \<Rightarrow> 'a list \<Rightarrow> 'a list" where
  "insert_down k t [] = [t]"
| "insert_down k t (y # ys) = (if k t < k y then y # insert_down k t ys else t # y # ys)"

lemma insert_down_set: "set (insert_down k t ys) = insert t (set ys)"
  by (induction ys) auto

lemma insert_down_length [simp]: "length (insert_down k t ys) = Suc (length ys)"
  by (induction ys) auto

lemma insert_down_sorted:
  "sorted_wrt (\<lambda>a b. k b \<le> k a) ys \<Longrightarrow> sorted_wrt (\<lambda>a b. k b \<le> k a) (insert_down k t ys)"
  by (induction ys) (auto simp: insert_down_set intro: order_trans less_imp_le)

lemma ShiftLoop_insert:
  "j < length xs \<Longrightarrow> ShiftLoop (\<lambda>a b. k a < k b) 1 Tmp j xs = rev (insert_down k Tmp (rev (take j xs))) @ drop (Suc j) xs"
proof (induction j arbitrary: xs)
  case 0
  then show ?case by (subst ShiftLoop.simps) (cases xs, simp_all)
next
  case (Suc j)
  have rev: "rev (take (Suc j) xs) = xs ! j # rev (take j xs)" using Suc.prems by (simp add: take_Suc_conv_app_nth)
  show ?case
  proof (cases "k Tmp < k (xs ! j)")
    case True
    let ?ys = "xs[Suc j := xs ! j]"
    have "ShiftLoop (\<lambda>a b. k a < k b) 1 Tmp (Suc j) xs = ShiftLoop (\<lambda>a b. k a < k b) 1 Tmp j ?ys"
      using True by (subst ShiftLoop.simps) simp
    also have "\<dots> = rev (insert_down k Tmp (rev (take j xs))) @ xs ! j # drop (Suc (Suc j)) xs"
      using Suc.IH [of ?ys] Suc.prems by (simp add: Cons_nth_drop_Suc [symmetric])
    finally show ?thesis using True by (simp add: rev)
  next
    case False
    then show ?thesis using Suc.prems by (subst ShiftLoop.simps) (simp add: rev upd_conv_take_nth_drop take_Suc_conv_app_nth)
  qed
qed

lemma pass_sorted:
  assumes "j \<le> n" "n \<le> length xs" "0 < j" "sorted (map k (take j xs))"
  shows "sorted (map k (take n (fold (\<lambda>i xs. ShiftLoop (\<lambda>a b. k a < k b) 1 (xs ! i) i xs) [j..<n] xs)))"
  using assms
proof (induction "n - j" arbitrary: j xs)
  case 0
  then show ?case by simp
next
  case (Suc d)
  then have jn: "j < n" "j < length xs" by simp_all
  let ?ys = "ShiftLoop (\<lambda>a b. k a < k b) 1 (xs ! j) j xs"
  have ys: "take (Suc j) ?ys = rev (insert_down k (xs ! j) (rev (take j xs)))"
    using jn by (simp add: ShiftLoop_insert [OF jn(2), unfolded One_nat_def])
  have "sorted_wrt (\<lambda>a b. k b \<le> k a) (rev (take j xs))"
    using Suc.prems(4) by (simp add: sorted_wrt_rev sorted_wrt_map)
  from insert_down_sorted [OF this, of "xs ! j"] have "sorted (map k (take (Suc j) ?ys))"
    unfolding ys by (simp add: sorted_wrt_rev sorted_wrt_map rev_map [symmetric])
  then show ?case using Suc.hyps(1) [of "Suc j" ?ys] Suc.hyps(2) Suc.prems jn by (simp add: upt_conv_Cons)
qed

lemma GapPass_sorted: "length xs = n \<Longrightarrow> sorted (map k (GapPass (\<lambda>a b. k a < k b) 1 n xs))"
proof (cases "n = 0")
  case False
  assume n: "length xs = n"
  have "length (GapPass (\<lambda>a b. k a < k b) 1 n xs) = n"
    using GapPass_mset [of n xs "\<lambda>a b. k a < k b" 1] n by (metis order_refl size_mset)
  moreover have "sorted (map k (take n (GapPass (\<lambda>a b. k a < k b) 1 n xs)))"
    unfolding GapPass_def using False n by (intro pass_sorted) (auto simp: take_Suc_conv_app_nth [of 0])
  ultimately show ?thesis by simp
qed (simp add: GapPass_def)

lemma GapLoop_sorted:
  "length xs = n \<Longrightarrow> 0 < Gap \<Longrightarrow> sorted (map k (GapLoop (\<lambda>a b. k a < k b) Gap n xs))"
proof (induction Gap arbitrary: xs rule: less_induct)
  case (less Gap)
  let ?lt = "\<lambda>a b. k a < k b"
  have len: "length (GapPass ?lt Gap n xs) = n" using GapPass_mset [of n xs ?lt Gap] less.prems(1) by (metis order_refl size_mset)
  show ?case
  proof (cases "Gap div 2 = 0")
    case True
    then have "Gap = 1" using less.prems(2) by linarith
    then show ?thesis using GapPass_sorted [OF less.prems(1), of k]
      by (subst GapLoop.simps) (simp, subst GapLoop.simps, simp)
  next
    case False
    then show ?thesis using less.IH [of "Gap div 2", OF _ len] less.prems(2) by (subst GapLoop.simps) simp
  qed
qed

lemma SortEntries_outcome:
  "mset (Order (SortEntries x)) = mset [0..<length (Entries x)]"
  "sorted (map (\<lambda>i. item_key (SortMode x) (Entries x ! i)) (Order (SortEntries x)))"
proof -
  let ?n = "length (Entries x)" and ?k = "\<lambda>i. item_key (SortMode x) (Entries x ! i)"
  have lt: "EntryLess x = (\<lambda>a b. ?k a < ?k b)" by (intro ext) (rule EntryLess_key)
  have order: "Order (SortEntries x) = GapLoop (\<lambda>a b. ?k a < ?k b) (?n div 2) ?n [0..<?n]"
    by (simp add: SortEntries_def lt Let_def)
  show "mset (Order (SortEntries x)) = mset [0..<?n]" unfolding order by (rule GapLoop_mset) simp
  show "sorted (map ?k (Order (SortEntries x)))"
  proof (cases "?n div 2 = 0")
    case True
    then have "?n = 0 \<or> ?n = 1" by linarith
    then show ?thesis unfolding order True by (subst GapLoop.simps) auto
  next
    case False
    then show ?thesis unfolding order by (intro GapLoop_sorted) simp_all
  qed
qed

text \<open>C28: A folder is shown in order, whatever its entries are: sorting rearranges the entries and loses or
  repeats none, and they come with folders before files, and by the sort mode with greater files first or by
  the last extension, and then by name without regard to case.\<close>
theorem SortEntries_correct:
  "mset (Order (SortEntries x)) = mset [0..<length (Entries x)] \<and>
   sorted (map (\<lambda>i. item_key (SortMode x) (Entries x ! i)) (Order (SortEntries x)))"
  using SortEntries_outcome by blast

end
