(* ===== verification/ExplorerFrame.thy ===== *)
theory ExplorerFrame
  imports ViewerCorrect ExplorerSort
begin

text \<open>
  What the programs of the desk leave alone: no operation of the player, of the file system or of the viewer
  breaks the player's invariant or changes the number of volumes, and the viewer leaves the state of the
  explorer as it is.
\<close>

section \<open>Operations below the desk\<close>

lemma count_via:
  fixes f :: "'p player_scheme \<Rightarrow> 'p player_scheme"
  assumes "frames (same f) m" "\<And>s. FsVolumeCount (f s) = FsVolumeCount s"
  shows "frames (same FsVolumeCount) m"
  by (rule framesI [OF same_rel]) (metis assms same_def sameD)

lemma count_start: "frames (same off_start) m \<Longrightarrow> frames (same FsVolumeCount) (m :: ('p player_scheme, 'a) state)"
  by (rule count_via [where f = off_start]) (simp_all add: off_start_def off_pos_def off_bus_def FsVolumeCount_def)

lemma count_mem: "frames (same off_mem) m \<Longrightarrow> frames (same FsVolumeCount) (m :: ('p player_scheme, 'a) state)"
  by (rule count_via [where f = off_mem]) (simp_all add: off_mem_def FsVolumeCount_def)

lemma count_change [quiet]: "(\<And>s. Volumes (f s) = Volumes s) \<Longrightarrow> frames (same FsVolumeCount) (change f)"
  by (rule same_change) (simp add: FsVolumeCount_def)

lemma count_dma: "frames (same off_dma) m \<Longrightarrow> frames (same FsVolumeCount) (m :: ('p player_scheme, 'a) state)"
  by (rule count_via [where f = off_dma]) (simp_all add: off_dma_def off_bus_def FsVolumeCount_def)

lemma fs_read_count [quiet]: "frames (same FsVolumeCount) (fs_read N off len)"
  unfolding fs_read_def by (rule same_state) (auto dest: FsRead_count split: prod.splits)

lemma FsResolve_count: "FsResolve Input st = (r, st') \<Longrightarrow> FsVolumeCount st' = FsVolumeCount st"
  unfolding FsResolve_def by (auto split: sum.splits prod.splits)

lemma WavParse_count: "WavParse N Info st = (c, I, st') \<Longrightarrow> FsVolumeCount st' = FsVolumeCount st"
  by (rule WavParse_keeps [where P = "\<lambda>s. FsVolumeCount s = FsVolumeCount st"]) (auto dest: FsRead_count)

lemmas stream_count [quiet] = to_start [THEN count_start] StartIfFilled_quiet [THEN count_start] Start_quiet [THEN count_start]
  AllocRing_quiet [THEN count_mem] ProgramStream_quiet [THEN bus_start, THEN count_start] ClearSlots_quiet [THEN count_dma]

lemma Close_count [quiet]: "frames (same FsVolumeCount) PlayerStop"
  unfolding PlayerStop_def HdaStreamClose_def by (intro quiet) simp_all

lemma Open_count [quiet]: "frames (same FsVolumeCount) (HdaStreamOpen Rate :: ('p player_scheme, int) state)"
  unfolding HdaStreamOpen_def OpenTail_def by (intro quiet) simp_all

lemma Fill_count [quiet]: "frames (same FsVolumeCount) (FillOne Page)"
  unfolding FillOne_def Let_def FillPage_def HdaStreamCommit_def by (intro quiet) simp_all

lemma PollLoop_count [quiet]: "frames (same FsVolumeCount) (PollLoop n)"
proof (induction n)
  case (Suc n)
  show ?case unfolding PollLoop.simps by (intro quiet Suc)
qed (auto intro: quiet)

lemma Poll_count [quiet]: "frames (same FsVolumeCount) PlayerPoll"
  unfolding PlayerPoll_def PollTail_def StartLate_def FinishIfPlayed_def Finish_def by (intro quiet) simp_all

lemma Player_count [quiet]:
  "frames (same FsVolumeCount) PlayerElapsedSeconds" "frames (same FsVolumeCount) PlayerTakeFinished"
proof -
  show "frames (same FsVolumeCount) PlayerElapsedSeconds" unfolding PlayerElapsedSeconds_def Let_def by (intro quiet)
  show "frames (same FsVolumeCount) PlayerTakeFinished" unfolding PlayerTakeFinished_def by (intro quiet) simp
qed

lemma frames_sum [quiet]:
  "(\<And>e. frames R (f e)) \<Longrightarrow> (\<And>N. frames R (g N)) \<Longrightarrow> frames R (case r of Inl e \<Rightarrow> f e | Inr N \<Rightarrow> g N)"
  by (cases r) simp_all

lemma start_fails_count [quiet]: "frames (same FsVolumeCount) (start_fails c m)"
  unfolding start_fails_def by (intro quiet) simp

lemma files_count [quiet]:
  "frames (same FsVolumeCount) (State (FsResolve Path))"
  "frames (same FsVolumeCount) (State (\<lambda>p. case WavParse N Info p of (Status, Info, p) \<Rightarrow> ((Status, Info), p)))"
  by (rule same_state, auto dest: FsResolve_count WavParse_count split: prod.splits)+

lemma Start_count [quiet]: "frames (same FsVolumeCount) (PlayerStart Path)"
  unfolding PlayerStart_def Let_def by (intro quiet) simp_all

text \<open>What the rest of the kernel may do to the player.\<close>
definition steady :: "(int \<Rightarrow> medium) \<Rightarrow> player \<Rightarrow> player \<Rightarrow> bool" where
  "steady med p p' \<longleftrightarrow> (player_ok med p \<longrightarrow> player_ok med p' \<and> FsVolumeCount p' = FsVolumeCount p)"

lemma steady_refl: "steady med p p" by (simp add: steady_def)
lemma steady_trans: "steady med p q \<Longrightarrow> steady med q r \<Longrightarrow> steady med p r" by (auto simp: steady_def)

lemma steady_player:
  "run_state PlayerPoll p = (x, p') \<Longrightarrow> steady med p p'"
  "run_state (PlayerStart Path) p = (e, p') \<Longrightarrow> steady med p p'"
  "run_state PlayerStop p = (y, p') \<Longrightarrow> steady med p p'"
  "run_state PlayerElapsedSeconds p = (s, p') \<Longrightarrow> steady med p p'"
  "run_state PlayerTakeFinished p = (b, p') \<Longrightarrow> steady med p p'"
proof -
  assume run: "run_state PlayerPoll p = (x, p')"
  show "steady med p p'"
  proof (cases "Active p")
    case True
    then show ?thesis using PlayerPoll_outcome [OF _ True run, of med] sameD [OF Poll_count run] by (auto simp: steady_def)
  next
    case False
    have "p' = p" using run by (simp add: still [OF False])
    then show ?thesis by (simp add: steady_refl)
  qed
next
  assume run: "run_state (PlayerStart Path) p = (e, p')"
  show "steady med p p'" using PlayerStart_outcome [OF _ run, of med] sameD [OF Start_count run] by (auto simp: steady_def)
next
  assume run: "run_state PlayerStop p = (y, p')"
  show "steady med p p'" using PlayerStop_outcome(2) [OF run, of med] sameD [OF Close_count run] by (auto simp: steady_def)
next
  assume run: "run_state PlayerElapsedSeconds p = (s, p')"
  show "steady med p p'" using pos_ok [OF _ Elapsed_pos [OF run], of med] sameD [OF Player_count(1) run] by (auto simp: steady_def)
next
  assume "run_state PlayerTakeFinished p = (b, p')"
  then have p': "p' = p\<lparr>Finished := False\<rparr>" by (simp add: PlayerTakeFinished_def)
  have part: "fs_part p' = fs_part p" by (simp add: p' fs_part_def)
  show "steady med p p'" unfolding steady_def player_ok_def fs_part_cong [OF part]
    by (auto simp: p' ring_ready_def FsVolumeCount_def)
qed

lemma steady_volumes:
  "fs_ok med p \<Longrightarrow> fs_ok med (p\<lparr>Volumes := vs\<rparr>) \<Longrightarrow> length vs = length (Volumes p) \<Longrightarrow> steady med p (p\<lparr>Volumes := vs\<rparr>)"
  by (auto simp: steady_def player_ok_def FsVolumeCount_def node_ok_def ring_ready_def)

lemma steady_log: "klog_ok l \<Longrightarrow> steady med p (p\<lparr>Log := l\<rparr>)"
proof -
  assume l: "klog_ok l"
  have "fs_ok med (p\<lparr>Log := l\<rparr>)" if "fs_ok med p"
    using that l by (simp add: fs_ok_def mounts_ok_def storage_ok_def part_pages_def)
  then show ?thesis by (auto simp: steady_def player_ok_def FsVolumeCount_def node_ok_def ring_ready_def)
qed

lemma steady_ErrorLog: "steady med p (p\<lparr>Log := ErrorLog Source code Detail (Log p)\<rparr>)"
proof (cases "klog_ok (Log p)")
  case True
  then show ?thesis
    by (intro steady_log) (auto simp: ErrorLog_def Let_def split: option.split intro!: klog_ok_PutChar klog_ok_KLogs klog_ok_UInt)
next
  case False
  then show ?thesis by (simp add: steady_def player_ok_def fs_ok_def mounts_ok_def storage_ok_def)
qed

lemma steady_resolve:
  assumes "FsResolve Input p = (r, p')"
  shows "steady med p p'" "player_ok med p \<Longrightarrow> r = Inr N \<Longrightarrow> node_ok p' N"
proof -
  obtain vs where p': "p' = p\<lparr>Volumes := vs\<rparr>" using FsResolve_volumes [OF assms] by blast
  have len: "length vs = length (Volumes p)" using FsResolve_count [OF assms] by (simp add: p' FsVolumeCount_def)
  show "steady med p p'"
  proof (cases "fs_ok med p")
    case True
    then show ?thesis using FsResolve_ok [OF True assms] len unfolding p' by (intro steady_volumes) simp_all
  next
    case False
    then show ?thesis by (simp add: steady_def player_ok_def)
  qed
  show "node_ok p' N" if "player_ok med p" "r = Inr N"
    using FsResolve_ok [OF _ assms, of med] that by (simp add: node_ok_def player_ok_def)
qed

lemma steady_read:
  assumes "node_ok p N" "FsRead N off len p = (n, out, p')"
  shows "steady med p p'" "node_ok p' N"
proof -
  show "node_ok p' N" using assms(1) FsRead_count [OF assms(2)] by (simp add: node_ok_def)
  show "steady med p p'"
  proof (cases "fs_ok med p")
    case True
    from FsRead_outcome(1,2) [OF True assms] obtain vs where "p' = p\<lparr>Volumes := vs\<rparr>" "fs_ok med p'" by blast
    then show ?thesis using FsRead_count [OF assms(2)] True by (simp add: steady_volumes FsVolumeCount_def)
  next
    case False
    then show ?thesis by (simp add: steady_def player_ok_def)
  qed
qed

lemma steady_parse:
  assumes "node_ok p N" "WavParse N Info p = (c, I, p')"
  shows "steady med p p'"
proof -
  have "steady med p p' \<and> node_ok p' N"
    by (rule WavParse_keeps [where P = "\<lambda>s. steady med p s \<and> node_ok s N", OF _ _ assms(2)])
       (use assms(1) steady_read in \<open>auto simp: steady_refl intro: steady_trans\<close>)
  then show ?thesis ..
qed

lemma steady_list:
  assumes "node_ok p N" "FsList N cb ctx p = (r, ctx', p')"
  shows "steady med p p'"
proof (cases "fs_ok med p")
  case True
  obtain vs where p': "p' = p\<lparr>Volumes := vs\<rparr>" "length vs = length (Volumes p)"
  proof (cases "NodeIsDir N")
    case True
    then show thesis using that assms(2) by (auto simp: FsList_def SetFat_def split: prod.splits)
  next
    case False
    then have "p' = p\<lparr>Volumes := Volumes p\<rparr>" using assms(2) by (simp add: FsList_def)
    then show thesis using that by blast
  qed
  have "fs_ok med p'" using FsList_ok [OF True _ _ assms(2)] assms(1) by (simp add: node_ok_def)
  then show ?thesis using True p'(2) unfolding p'(1) by (intro steady_volumes)
next
  case False
  then show ?thesis by (simp add: steady_def player_ok_def)
qed

section \<open>The viewer\<close>

text \<open>The viewer leaves alone what lies outside it, and the player steady.\<close>
definition calm :: "(int \<Rightarrow> medium) \<Rightarrow> 'a viewer_scheme \<Rightarrow> 'a viewer_scheme \<Rightarrow> bool" where
  "calm med v w \<longleftrightarrow> viewer.more w = viewer.more v \<and> steady med (Files v) (Files w)"

lemma calm_refl: "calm med v v" by (simp add: calm_def steady_refl)
lemma calm_trans: "calm med u v \<Longrightarrow> calm med v w \<Longrightarrow> calm med u w" by (auto simp: calm_def intro: steady_trans)

lemma calm_if: "calm med v x \<Longrightarrow> calm med v y \<Longrightarrow> calm med v (if b then x else y)" by simp
lemma calm_snd: "calm med v x \<Longrightarrow> calm med v (snd (b, x))" by simp
lemma calm_snd_if: "calm med v (snd x) \<Longrightarrow> calm med v (snd y) \<Longrightarrow> calm med v (snd (if b then x else y))" by simp
lemma calm_option: "calm med v x \<Longrightarrow> (\<And>k. calm med v (f k)) \<Longrightarrow> calm med v (case r of None \<Rightarrow> x | Some k \<Rightarrow> f k)"
  by (cases r) simp_all

lemmas calm_branches = calm_if calm_snd calm_snd_if calm_option

definition outer :: "'a viewer_scheme \<Rightarrow> player \<times> 'a" where "outer v = (Files v, viewer.more v)"

lemma calm_outer: "outer w = outer v \<Longrightarrow> calm med v w"
  by (simp add: calm_def outer_def steady_refl)

lemma calm_ui: "ui_only v w \<Longrightarrow> calm med v w"
  by (rule calm_outer) (auto simp: ui_only_def outer_def)

lemma outer_fields [simp]:
  "outer (raise_flags f v) = outer v" "outer (v\<lparr>VTop := n\<rparr>) = outer v" "outer (v\<lparr>HexMode := b\<rparr>) = outer v"
  "outer (v\<lparr>HaveMatch := b\<rparr>) = outer v" "outer (v\<lparr>HaveMatch := b, MatchStart := k\<rparr>) = outer v"
  "outer (v\<lparr>Searching := b\<rparr>) = outer v" "outer (v\<lparr>SearchText := s\<rparr>) = outer v" "outer (v\<lparr>VMessage := s\<rparr>) = outer v"
  "outer (v\<lparr>VFlags := f\<rparr>) = outer v" "outer (v\<lparr>Kbd := key\<rparr>) = outer v" "outer (v\<lparr>VDetail := s\<rparr>) = outer v"
  "outer (v\<lparr>VLen := k\<rparr>) = outer v" "outer (v\<lparr>VTitle := s\<rparr>) = outer v"
  by (simp_all add: outer_def raise_flags_def)

lemma outer_window [simp]: "outer (ClampTop v) = outer v" "outer (ShowOffset off v) = outer v" "outer (ToggleHex v) = outer v"
  "outer (Scroll d v) = outer v" "outer (BuildLines v) = outer v"
proof -
  show clamp: "outer (ClampTop v) = outer v" for v :: "'a viewer_scheme"
    unfolding ClampTop_def Let_def by simp
  show "outer (ShowOffset off v) = outer v" "outer (ToggleHex v) = outer v" "outer (Scroll d v) = outer v"
    unfolding ShowOffset_def ToggleHex_def Scroll_def Let_def by (simp_all add: clamp)
  show "outer (BuildLines v) = outer v" by (simp add: BuildLines_def outer_def split: prod.split)
qed

lemma calm_log: "calm med v (desk_log Source code Detail v)"
  by (simp add: calm_def desk_log_def steady_ErrorLog)

lemma calm_Say: "outer w = outer v \<Longrightarrow> calm med v (Say t code i w)"
proof -
  assume "outer w = outer v"
  then have "calm med v w" by (rule calm_outer)
  also have "calm med w (desk_log (lit ''viewer'') code (Some i) w)" by (rule calm_log)
  moreover have "calm med (desk_log (lit ''viewer'') code (Some i) w) (Say t code i w)"
    by (rule calm_outer) (simp add: Say_def Let_def outer_def raise_flags_def)
  ultimately show ?thesis by (blast intro: calm_trans)
qed

lemma calm_FindText: "calm med v (FindText t From v)"
proof -
  have say: "calm med v (Say t E_TEXT_NOTFOUND (SearchText v) (raise_flags VD_CONTENT (v\<lparr>HaveMatch := False\<rparr>)))"
    "calm med v (Say t E_TEXT_NOTFOUND (SearchText v) (v\<lparr>HaveMatch := False\<rparr>))"
    by (rule calm_Say, simp)+
  have found: "calm med v (ShowOffset p (v\<lparr>HaveMatch := True, MatchStart := p\<rparr>))" for p by (rule calm_outer) simp
  show ?thesis unfolding FindText_def Let_def by (intro calm_branches say found calm_refl)
qed

lemma calm_search: "calm med v (snd (HandleSearchKey t Key v))"
proof -
  have "calm med v (FindText t From (raise_flags VD_HINT (v\<lparr>Searching := False\<rparr>)))" for From
    by (rule calm_trans [OF calm_outer calm_FindText]) simp
  then show ?thesis unfolding HandleSearchKey_def Let_def by (intro calm_branches) (simp_all add: calm_outer)
qed

lemma calm_key: "calm med v (snd (ViewerHandleKey t Key v))"
proof -
  have "outer (v\<lparr>Searching := True, SearchText := [], VMessage := []\<rparr>) = outer v" by (simp add: outer_def)
  then show ?thesis unfolding ViewerHandleKey_def
    by (intro calm_branches calm_search calm_FindText) (simp_all add: calm_outer)
qed

lemma calm_click: "calm med v (snd (ViewerHandleClick v))"
  unfolding ViewerHandleClick_def Let_def by (intro calm_branches) (simp_all add: calm_outer)

lemma calm_load:
  "node_ok (Files v) N \<Longrightarrow> calm med v (LoadLoop N Want v)"
proof (induction N Want v rule: LoadLoop.induct)
  case (1 N Want v)
  show ?case
  proof (cases "VLen v < Want")
    case True
    define Chunk where "Chunk = (if Want - VLen v > 16384 then 16384 else Want - VLen v)"
    obtain Got bytes st where r: "FsRead N (of_nat (VLen v)) (of_nat Chunk) (Files v) = (Got, bytes, st)"
      by (cases "FsRead N (of_nat (VLen v)) (of_nat Chunk) (Files v)")
    let ?v = "v\<lparr>VBuf := (\<lambda>i. if VLen v \<le> i \<and> i < VLen v + length bytes then bytes ! (i - VLen v) else VBuf v i), Files := st\<rparr>"
    have step: "LoadLoop N Want v = (if Got = 0 \<or> unat Got > Chunk then ?v else LoadLoop N Want (?v\<lparr>VLen := VLen v + unat Got\<rparr>))"
      using True r by (subst LoadLoop.simps) (simp add: Let_def flip: Chunk_def)
    have first: "calm med v ?v" using steady_read(1) [OF "1.prems" r] by (simp add: calm_def)
    have node: "node_ok (Files (?v\<lparr>VLen := VLen v + unat Got\<rparr>)) N" using steady_read(2) [OF "1.prems" r] by simp
    show ?thesis
    proof (cases "Got = 0 \<or> unat Got > Chunk")
      case False
      have "calm med ?v (?v\<lparr>VLen := VLen v + unat Got\<rparr>)" by (rule calm_outer) simp
      moreover note "1.IH" [OF _ Chunk_def r [symmetric] refl refl refl False node]
      ultimately show ?thesis unfolding step using False first True by (auto intro: calm_trans)
    qed (simp add: step first)
  qed (simp add: LoadLoop.simps calm_refl)
qed

lemma calm_LoadFile:
  assumes "LoadFile Path v = (s, w)"
  shows "player_ok med (Files v) \<Longrightarrow> calm med v w"
proof -
  assume ok: "player_ok med (Files v)"
  obtain r st where res: "FsResolve Path (Files v) = (r, st)" by (cases "FsResolve Path (Files v)")
  note steady = steady_resolve [OF res, of med]
  have first: "calm med v (v\<lparr>Files := st, VDetail := d, VLen := l, VTotalSize := n\<rparr>)" for d l n
    using steady(1) by (simp add: calm_def)
  show "calm med v w"
  proof (cases r)
    case (Inl e)
    with assms res have "w = v\<lparr>Files := st, VLen := 0, VTotalSize := 0, VDetail := copy_loop (lit (FsErrorText e)) 159\<rparr>"
      by (simp add: LoadFile_def Let_def)
    then show ?thesis using steady(1) by (simp add: calm_def)
  next
    case (Inr N)
    let ?u = "v\<lparr>Files := st, VDetail := [], VLen := 0, VTotalSize := unat (EntrySize (NodeEntry N))\<rparr>"
    let ?L = "\<lambda>Want. LoadLoop N Want ?u"
    have node: "node_ok (Files ?u) N" using steady(2) [OF ok Inr] by simp
    have loop: "calm med v (?L Want)" for Want by (rule calm_trans [OF first calm_load [OF node]])
    have folder: "calm med v (v\<lparr>Files := st, VLen := 0, VTotalSize := 0, VDetail := d\<rparr>)" for d
      using steady(1) by (simp add: calm_def)
    have "w = v\<lparr>Files := st, VLen := 0, VTotalSize := 0, VDetail := copy_loop (lit ''is a folder'') 159\<rparr> \<or> w = ?u \<or>
        (\<exists>Want d. w = ?L Want \<or> w = (?L Want)\<lparr>VDetail := d\<rparr>)"
      using assms unfolding LoadFile_def res Inr by (auto simp: Let_def split: if_splits)
    moreover have "calm med v ((?L Want)\<lparr>VDetail := d\<rparr>)" for Want d
      by (rule calm_trans [OF loop calm_outer]) simp
    ultimately show ?thesis using first loop folder by auto
  qed
qed

lemma drain_outer [simp]: "outer (drain_keys n v) = outer v"
proof (induction n arbitrary: v)
  case (Suc n)
  obtain key k where "KeyboardGetKey (Kbd v) = (key, k)" by (cases "KeyboardGetKey (Kbd v)")
  then show ?case using Suc [of "v\<lparr>Kbd := k\<rparr>"] by (simp add: GetKey_def)
qed simp

lemma irqs_outer [simp]: "outer (fold desk_irq irqs v) = outer v"
proof (induction irqs arbitrary: v)
  case (Cons i irqs)
  have "outer (desk_irq i v) = outer v" by (cases i) (simp_all add: outer_def)
  with Cons show ?case by simp
qed simp

lemma screen_outer: "same_screen v w \<Longrightarrow> outer w = outer v"
  by (auto simp: same_screen_def outer_def)

lemma calm_notice: "calm med v (OpeningNotice Tick Warn v)"
  unfolding OpeningNotice_def by (intro calm_branches calm_Say calm_refl) simp_all

lemma calm_Open:
  assumes ok: "player_ok med (Files v)" and run: "ViewerOpen Tick Path Nm v = (code, w)"
  shows "calm med v w"
proof -
  obtain Status u where load: "LoadFile Path v = (Status, u)" by (cases "LoadFile Path v")
  note first = calm_LoadFile [OF load ok]
  have log: "outer w = outer u \<Longrightarrow> calm med u (desk_log Source c d w)" for w Source c d
    by (rule calm_trans [OF calm_outer calm_log])
  have notice: "outer w = outer u \<Longrightarrow> calm med u (drain_keys n (OpeningNotice Tick Warn w))" for w n Warn
    by (rule calm_trans [OF calm_trans [OF calm_outer calm_notice] calm_outer]) simp_all
  have "calm med u (snd (ViewerOpen Tick Path Nm v))"
    unfolding ViewerOpen_def load prod.case Let_def
    by (intro calm_branches log notice) (simp_all add: screen_outer [OF FillScreen_screen], simp_all add: outer_def)
  then have "calm med u w" using run by simp
  with first show ?thesis by (rule calm_trans)
qed

lemma calm_player:
  assumes "run_state m (Files v) = (x, p)" "steady med (Files v) p"
  shows "calm med v (snd (on_player m v))"
  using assms by (simp add: on_player_def calm_def)

lemma calm_present: "calm med v (ViewerPresent v)"
proof -
  have d: "calm med w (if b then f w else w)" if "\<And>w. same_screen w (f w)" for b f and w :: "'a viewer_scheme"
    using that [of w] by (auto intro: calm_outer screen_outer)
  have "calm med v (let F = VFlags v; v = UiCursorHide v;
                        v = (if F AND VD_CONTENT \<noteq> 0 then DrawContent v else v);
                        v = (if F AND VD_TITLE \<noteq> 0 then DrawTitle v else v);
                        v = (if F AND VD_HINT \<noteq> 0 then DrawHint v else v)
                    in v\<lparr>VFlags := 0\<rparr>)"
    unfolding Let_def
    by (rule calm_trans [OF calm_trans [OF calm_trans [OF calm_trans [OF calm_ui [OF ui_only_hide] d [OF DrawContent_screen]]
          d [OF DrawTitle_screen]] d [OF DrawHint_screen]] calm_outer]) simp
  then show ?thesis unfolding ViewerPresent_def Let_def
    by (intro calm_trans [OF _ calm_ui [OF ui_only_show]]) (simp add: calm_refl)
qed

lemma calm_Round: "calm med v (snd (ViewerRound t v))"
proof -
  obtain Key k where k: "KeyboardGetKey (Kbd v) = (Key, k)" by (cases "KeyboardGetKey (Kbd v)")
  have "calm med v (v\<lparr>Kbd := k\<rparr>)" by (rule calm_outer) simp
  obtain l1 v1 where v1: "(if Key \<noteq> 0 then ViewerHandleKey t Key (v\<lparr>Kbd := k\<rparr>) else (False, v\<lparr>Kbd := k\<rparr>)) = (l1, v1)"
    by fastforce
  have c1: "calm med v v1" using \<open>calm med v (v\<lparr>Kbd := k\<rparr>)\<close> calm_key [of med "v\<lparr>Kbd := k\<rparr>" t Key] v1
    by (auto split: if_splits intro: calm_trans)
  obtain m P v2 where poll: "UiPollMouse v1 = (m, P, v2)" by (cases "UiPollMouse v1")
  have c2: "calm med v v2" by (rule calm_trans [OF c1 calm_ui [OF ui_only_poll [OF poll]]])
  obtain l3 v3 where v3: "(if m \<and> P AND 1 \<noteq> 0 then ViewerHandleClick v2 else (False, v2)) = (l3, v3)" by fastforce
  have c3: "calm med v v3" using calm_trans [OF c2 calm_click] c2 v3 by (auto split: if_splits)
  obtain x p where player: "run_state PlayerPoll (Files v3) = (x, p)" by (cases "run_state PlayerPoll (Files v3)")
  let ?v4 = "v3\<lparr>Files := p\<rparr>"
  have c4: "calm med v ?v4" using calm_trans [OF c3 calm_player [OF player steady_player(1) [OF player]]]
    by (simp add: on_player_def player)
  let ?v5 = "if VMessage ?v4 \<noteq> [] \<and> t \<ge> VMessageUntil ?v4 then raise_flags VD_HINT (?v4\<lparr>VMessage := []\<rparr>) else ?v4"
  have c5: "calm med v (ViewerPresent ?v5)"
    by (rule calm_trans [OF calm_trans [OF c4 calm_outer] calm_present]) simp
  show ?thesis using c1 c3 c5
    by (cases l1; cases l3) (auto simp: ViewerRound_def GetKey_def k v1 poll v3 on_player_def player Let_def split: if_splits)
qed

lemma calm_Rounds: "calm med v (snd (ViewerRounds ts v))"
proof (induction ts v rule: ViewerRounds.induct)
  case (2 irqs t ts v)
  let ?v = "fold desk_irq irqs v"
  obtain l w where r: "ViewerRound t ?v = (l, w)" by (cases "ViewerRound t ?v")
  have w: "calm med v w" using calm_trans [OF calm_outer calm_Round [of med ?v t], of v] r by simp
  show ?case using "2.IH" [OF r [symmetric]] w calm_ui [OF ui_only_hide, of med w] r by (auto intro: calm_trans)
qed (simp add: calm_refl)

lemma calm_Run:
  assumes ok: "player_ok med (Files v)" and run: "ViewerRun Tick Rounds Path Nm v = (r, w)"
  shows "calm med v w"
proof -
  obtain code u where op: "ViewerOpen Tick Path Nm v = (code, u)" by (cases "ViewerOpen Tick Path Nm v")
  note first = calm_Open [OF ok op]
  obtain left w' where rs: "ViewerRounds Rounds u = (left, w')" by (cases "ViewerRounds Rounds u")
  have "calm med u w'" using calm_Rounds [of med u Rounds] rs by simp
  with first run op rs show ?thesis by (auto simp: ViewerRun_def split: if_splits intro: calm_trans)
qed

end
