(* ===== verification/ExplorerCorrect.thy ===== *)
theory ExplorerCorrect
  imports ExplorerFrame
begin

text \<open>
  What the explorer guarantees: whatever is typed, clicked, played and read, the entries are a sorted folder,
  the selection is an item and its window shows it, and the folder is a path on a volume.
\<close>

section \<open>The invariant\<close>

definition order_ok :: "'a explorer_scheme \<Rightarrow> bool" where
  "order_ok x \<longleftrightarrow> length (Entries x) \<le> MAX_ENTRIES \<and>
     (Entries x = [] \<or> mset (Order x) = mset [0..<length (Entries x)] \<and>
        sorted (map (\<lambda>i. item_key (SortMode x) (Entries x ! i)) (Order x)))"

definition place_ok :: "'a explorer_scheme \<Rightarrow> bool" where
  "place_ok x \<longleftrightarrow> (\<exists>rest. Dir x = chr_code CHR ''/'' # rest) \<and> length (Dir x) < FS_PATH_MAX \<and> 0 \<le> Volume x \<and>
     (FsVolumeCount (Files x) = 0 \<or> Volume x < FsVolumeCount (Files x)) \<and> 3 \<le> Visible x"

definition window_ok :: "'a explorer_scheme \<Rightarrow> bool" where
  "window_ok x \<longleftrightarrow> 0 \<le> Selected x \<and> Selected x \<le> max 0 (ItemCount x - 1) \<and>
     0 \<le> XScroll x \<and> XScroll x \<le> max 0 (ItemCount x - Visible x) \<and>
     XScroll x \<le> Selected x \<and> Selected x < XScroll x + Visible x"

definition explorer_ok :: "(int \<Rightarrow> medium) \<Rightarrow> 'a explorer_scheme \<Rightarrow> bool" where
  "explorer_ok med x \<longleftrightarrow> player_ok med (Files x) \<and> place_ok x \<and> order_ok x \<and> window_ok x"

section \<open>What does not touch it\<close>

definition xcore :: "'a explorer_scheme \<Rightarrow> _" where
  "xcore x = (Entries x, Order x, Volume x, Dir x, SortMode x, Selected x, XScroll x, Visible x)"

definition mild :: "(int \<Rightarrow> medium) \<Rightarrow> 'a explorer_scheme \<Rightarrow> 'a explorer_scheme \<Rightarrow> bool" where
  "mild med x y \<longleftrightarrow> xcore y = xcore x \<and> steady med (Files x) (Files y)"

lemma xcoreD:
  assumes "xcore y = xcore x"
  shows "Entries y = Entries x" "Order y = Order x" "Volume y = Volume x" "Dir y = Dir x" "SortMode y = SortMode x"
    "Selected y = Selected x" "XScroll y = XScroll x" "Visible y = Visible x" "ItemCount y = ItemCount x"
    "ItemEntry y = ItemEntry x" "AtRoot y = AtRoot x"
  using assms
  by (simp_all add: xcore_def ItemCount_def EntryCount_def AtRoot_def ItemEntry_def fun_eq_iff)

lemma mild_refl: "mild med x x" by (simp add: mild_def steady_refl)
lemma mild_trans: "mild med x y \<Longrightarrow> mild med y z \<Longrightarrow> mild med x z" by (auto simp: mild_def intro: steady_trans)
lemma mild_if: "mild med x y \<Longrightarrow> mild med x z \<Longrightarrow> mild med x (if b then y else z)" by simp

lemma mild_calm: "calm med x y \<Longrightarrow> mild med x (y :: 'a explorer_scheme)"
proof -
  have "viewer.more y = viewer.more x \<Longrightarrow> xcore y = xcore x" by (cases x, cases y) (simp add: xcore_def)
  then show "calm med x y \<Longrightarrow> ?thesis" by (simp add: calm_def mild_def)
qed

lemma mild_ui: "ui_only x y \<Longrightarrow> mild med x y" by (rule mild_calm [OF calm_ui])
lemma mild_screen: "same_screen x y \<Longrightarrow> mild med x y" by (rule mild_ui [OF ui_only_screen])

lemma mild_same: "xcore y = xcore x \<Longrightarrow> Files y = Files x \<Longrightarrow> mild med x y"
  by (simp add: mild_def steady_refl)

lemma mild_player:
  "run_state m (Files x) = (r, p) \<Longrightarrow> steady med (Files x) p \<Longrightarrow> mild med x (x\<lparr>Files := p\<rparr>)"
  by (simp add: mild_def xcore_def)

lemma mild_explorer: "mild med x y \<Longrightarrow> explorer_ok med x \<Longrightarrow> explorer_ok med y"
  unfolding mild_def explorer_ok_def place_ok_def order_ok_def window_ok_def
  using xcoreD [of y x] by (auto simp: steady_def)

lemma mild_place: "mild med x y \<Longrightarrow> player_ok med (Files x) \<Longrightarrow> place_ok x \<Longrightarrow> player_ok med (Files y) \<and> place_ok y"
  unfolding mild_def place_ok_def using xcoreD [of y x] by (auto simp: steady_def)

lemma mild_raise: "mild med x (xraise f x)"
  by (rule mild_same) (simp_all add: xraise_def xcore_def)

lemma mild_SetMessage: "mild med x (SetMessage t m k x)"
  by (rule mild_same) (simp_all add: SetMessage_def xraise_def xcore_def)

lemma mild_SetError: "mild med x (SetError t c d x)"
proof -
  have "mild med x (desk_log (lit ''explorer'') c (Some d) x)" by (rule mild_calm [OF calm_log])
  then show ?thesis unfolding SetError_def Let_def by (rule mild_trans [OF _ mild_SetMessage])
qed

section \<open>The window\<close>

lemma FixSelected_shape:
  obtains y where "mild med x y" "FixSelected t x = y\<lparr>Selected :=
    if Selected x < 0 \<or> ItemCount x > 0 \<and> Selected x \<ge> ItemCount x then max 0 (ItemCount x - 1) else Selected x\<rparr>"
proof (cases "Selected x < 0 \<or> ItemCount x > 0 \<and> Selected x \<ge> ItemCount x")
  case True
  then show thesis
    by (intro that [OF mild_SetError [of med x t E_INTERNAL_SEL "lit ''selection index out of range''"]])
       (simp add: FixSelected_def Let_def max_def)
next
  case False
  then show thesis by (intro that [OF mild_refl]) (auto simp: FixSelected_def Let_def)
qed

lemma FixScroll_shape:
  obtains c where "FixScroll M x = x\<lparr>XScroll := c\<rparr>"
    "0 \<le> M \<Longrightarrow> 0 \<le> Selected x \<Longrightarrow> 1 \<le> Visible x \<Longrightarrow> 0 \<le> c \<and> c \<le> Selected x \<and> Selected x < c + Visible x \<and> (c \<le> M \<or> c = Selected x - Visible x + 1)"
proof -
  have step: "(if b then x\<lparr>XScroll := a\<rparr> else x) = x\<lparr>XScroll := if b then a else XScroll x\<rparr>" for b a and x :: "'a explorer_scheme"
    by simp
  define c1 where "c1 = (if XScroll x > M then M else XScroll x)"
  define c2 where "c2 = (if c1 < 0 then 0 else c1)"
  define c3 where "c3 = (if Selected x < c2 then Selected x else c2)"
  define c4 where "c4 = (if Selected x \<ge> c3 + Visible x then Selected x - Visible x + 1 else c3)"
  have "FixScroll M x = x\<lparr>XScroll := c4\<rparr>"
    unfolding FixScroll_def Let_def step c1_def [symmetric] by (auto simp: c2_def c3_def c4_def)
  moreover have "0 \<le> M \<Longrightarrow> 0 \<le> Selected x \<Longrightarrow> 1 \<le> Visible x \<Longrightarrow>
      0 \<le> c4 \<and> c4 \<le> Selected x \<and> Selected x < c4 + Visible x \<and> (c4 \<le> M \<or> c4 = Selected x - Visible x + 1)"
    by (auto simp: c1_def c2_def c3_def c4_def)
  ultimately show thesis by (rule that)
qed

text \<open>Clamping puts an item into the window, and keeps the selection when it is one.\<close>
lemma ClampScroll_shape:
  obtains y s c where "mild med x y" "ClampScroll t x = y\<lparr>Selected := s, XScroll := c\<rparr>"
    "0 \<le> Selected x \<and> Selected x \<le> max 0 (ItemCount x - 1) \<Longrightarrow> s = Selected x"
    "3 \<le> Visible x \<Longrightarrow> (ItemCount x = 0 \<longrightarrow> Selected x \<le> 0) \<Longrightarrow> window_ok (y\<lparr>Selected := s, XScroll := c\<rparr>)"
proof -
  define s where "s = (if Selected x < 0 \<or> ItemCount x > 0 \<and> Selected x \<ge> ItemCount x then max 0 (ItemCount x - 1) else Selected x)"
  define M where "M = (if ItemCount x > Visible x then ItemCount x - Visible x else 0)"
  obtain y where y: "mild med x y" "FixSelected t x = y\<lparr>Selected := s\<rparr>" using FixSelected_shape unfolding s_def .
  define z where "z = y\<lparr>Selected := s\<rparr>"
  have core: "xcore y = xcore x" using y(1) by (simp add: mild_def)
  have z: "Selected z = s" "Visible z = Visible x" "ItemCount y = ItemCount x"
    using xcoreD [OF core] by (simp_all add: z_def)
  obtain c where c: "FixScroll M z = z\<lparr>XScroll := c\<rparr>"
    "0 \<le> M \<Longrightarrow> 0 \<le> Selected z \<Longrightarrow> 1 \<le> Visible z \<Longrightarrow>
      0 \<le> c \<and> c \<le> Selected z \<and> Selected z < c + Visible z \<and> (c \<le> M \<or> c = Selected z - Visible z + 1)"
    using FixScroll_shape [of M z] by blast
  have n: "0 \<le> ItemCount x" by (simp add: ItemCount_def EntryCount_def)
  have "ClampScroll t x = y\<lparr>Selected := s, XScroll := c\<rparr>"
    using y(2) c(1) by (simp add: ClampScroll_def Let_def z_def flip: M_def)
  moreover have "0 \<le> Selected x \<and> Selected x \<le> max 0 (ItemCount x - 1) \<Longrightarrow> s = Selected x" using n by (auto simp: s_def max_def)
  moreover have "window_ok (y\<lparr>Selected := s, XScroll := c\<rparr>)" if "3 \<le> Visible x" "ItemCount x = 0 \<longrightarrow> Selected x \<le> 0"
  proof -
    have s: "0 \<le> s" "s \<le> max 0 (ItemCount x - 1)" using that n by (auto simp: s_def max_def)
    have "0 \<le> c \<and> c \<le> s \<and> s < c + Visible x \<and> (c \<le> M \<or> c = s - Visible x + 1)"
      using c(2) s(1) that(1) n by (simp add: z M_def)
    with s n that(1) xcoreD [OF core] show ?thesis
      by (auto simp: window_ok_def M_def ItemCount_def EntryCount_def AtRoot_def max_def split: if_splits)
  qed
  ultimately show thesis using y(1) by (intro that [where y = y and s = s and c = c])
qed

definition base_ok :: "(int \<Rightarrow> medium) \<Rightarrow> 'a explorer_scheme \<Rightarrow> bool" where
  "base_ok med x \<longleftrightarrow> player_ok med (Files x) \<and> place_ok x"

lemma base_cong:
  "Files y = Files x \<Longrightarrow> Dir y = Dir x \<Longrightarrow> Volume y = Volume x \<Longrightarrow> Visible y = Visible x \<Longrightarrow> base_ok med y = base_ok med x"
  by (simp add: base_ok_def place_ok_def)

lemma mild_base: "mild med x y \<Longrightarrow> base_ok med x \<Longrightarrow> base_ok med y"
  unfolding base_ok_def by (auto dest: mild_place)

lemma order_cong: "Entries y = Entries x \<Longrightarrow> Order y = Order x \<Longrightarrow> SortMode y = SortMode x \<Longrightarrow> order_ok y = order_ok x"
  by (simp add: order_ok_def)

lemma explorer_base: "explorer_ok med x \<Longrightarrow> base_ok med x" "explorer_ok med x \<Longrightarrow> order_ok x"
  by (simp_all add: explorer_ok_def base_ok_def)

lemma explorer_raise: "explorer_ok med x \<Longrightarrow> explorer_ok med (xraise f x)"
  by (rule mild_explorer [OF mild_raise])

text \<open>Clamping makes a sorted folder at a path a state of the explorer.\<close>
lemma ClampScroll_ok:
  assumes base: "base_ok med x" and order: "order_ok x" and none: "ItemCount x = 0 \<Longrightarrow> Selected x \<le> 0"
  shows "explorer_ok med (ClampScroll t x)"
proof -
  obtain y s c where y: "mild med x y" "ClampScroll t x = y\<lparr>Selected := s, XScroll := c\<rparr>"
    and window: "3 \<le> Visible x \<Longrightarrow> (ItemCount x = 0 \<longrightarrow> Selected x \<le> 0) \<Longrightarrow> window_ok (y\<lparr>Selected := s, XScroll := c\<rparr>)"
    using ClampScroll_shape [of med x t] by metis
  have "3 \<le> Visible x" using base by (simp add: base_ok_def place_ok_def)
  moreover have "base_ok med (y\<lparr>Selected := s, XScroll := c\<rparr>)"
    using mild_base [OF y(1) base] by (simp add: base_ok_def place_ok_def)
  moreover have "order_ok (y\<lparr>Selected := s, XScroll := c\<rparr>)"
    using order xcoreD [of y x] y(1) by (simp add: mild_def order_ok_def)
  ultimately show ?thesis using window none unfolding y(2) by (simp add: explorer_ok_def base_ok_def)
qed

section \<open>Reading a folder\<close>

text \<open>A listing keeps what the callback keeps of its context.\<close>
definition context_kept :: "('c \<Rightarrow> bool) \<Rightarrow> 'c dir_cb \<Rightarrow> bool" where
  "context_kept P cb \<longleftrightarrow> (\<forall>E c. P c \<longrightarrow> P (snd (cb E c)))"

lemma context_keptD: "context_kept P cb \<Longrightarrow> P c \<Longrightarrow> cb E c = (stop, c') \<Longrightarrow> P c'"
  by (metis context_kept_def snd_conv)

lemma ListSlots_context:
  "context_kept P cb \<Longrightarrow> P ctx \<Longrightarrow> case ListSlots cb B es d ctx of Continue _ c \<Rightarrow> P c | Return _ c \<Rightarrow> P c"
proof (induction es arbitrary: d ctx)
  case (Cons e es)
  then show ?case by (auto split: slot_result.split prod.split dest: context_keptD)
qed simp

lemma ListSectors_context:
  "context_kept P cb \<Longrightarrow> P ctx \<Longrightarrow> case ListSectors rd V cb c ss d ctx of Continue _ c \<Rightarrow> P c | Return _ c \<Rightarrow> P c"
proof (induction ss arbitrary: d ctx)
  case (Cons s ss)
  show ?case
  proof (cases "rd (VolDevice V) (ClusterLba V c + of_nat s) 1")
    case (Some B)
    show ?thesis
      using ListSlots_context [OF Cons.prems, of B "[0..<16]" d] Cons.IH [OF Cons.prems(1)] Some
      by (cases "ListSlots cb B [0..<16] d ctx") simp_all
  qed (simp add: Cons.prems)
qed simp

lemma ListChain_context:
  "context_kept P cb \<Longrightarrow> P ctx \<Longrightarrow> ListChain n rd cb c d V ctx = (r, V', ctx') \<Longrightarrow> P ctx'"
proof (induction n arbitrary: c d V ctx)
  case (Suc n)
  show ?case
    using ListSectors_context [OF Suc.prems(1,2), of rd V c "[0..<unat (SectorsPerCluster V)]" d] Suc.IH [OF Suc.prems(1)] Suc.prems
    by (cases "ListSectors rd V cb c [0..<unat (SectorsPerCluster V)] d ctx") (auto split: if_splits prod.splits)
qed simp

lemma FsList_context:
  "context_kept P cb \<Longrightarrow> P ctx \<Longrightarrow> FsList N cb ctx p = (r, ctx', p') \<Longrightarrow> P ctx'"
  by (auto simp: FsList_def FatListDir_def split: if_splits prod.splits dest: ListChain_context)

lemma ListCallback_bound: "context_kept (\<lambda>ctx. length (fst ctx) \<le> MAX_ENTRIES) (ListCallback b)"
  by (auto simp: context_kept_def ListCallback_def Let_def)

lemma ReadDir_outcome:
  assumes ok: "player_ok med (Files x)" and few: "length (Entries x) \<le> MAX_ENTRIES" and run: "ReadDir Input x = (s, y)"
  obtains p es tr where "y = x\<lparr>Files := p, Entries := es, Truncated := tr\<rparr>" "steady med (Files x) p" "length es \<le> MAX_ENTRIES"
proof -
  obtain r p where res: "FsResolve Input (Files x) = (r, p)" by (cases "FsResolve Input (Files x)")
  note steady = steady_resolve [OF res, of med]
  have same: "x\<lparr>Files := p\<rparr> = x\<lparr>Files := p, Entries := Entries x, Truncated := Truncated x\<rparr>" by simp
  show thesis
  proof (cases r)
    case (Inl e)
    then show thesis using run res same steady(1) few by (intro that [where p = p and es = "Entries x" and tr = "Truncated x"]) (simp_all add: ReadDir_def)
  next
    case (Inr N)
    have node: "node_ok p N" using steady_resolve(2) [OF res ok Inr] .
    show thesis
    proof (cases "NodeIsDir N")
      case True
      obtain q ctx p' where l: "FsList N (ListCallback (ShowHidden x)) (Entries x, Truncated x) p = (q, ctx, p')" by (metis prod_cases3)
      have "length (fst ctx) \<le> MAX_ENTRIES"
        by (rule FsList_context [OF ListCallback_bound _ l]) (simp add: few)
      moreover have "steady med (Files x) p'" by (rule steady_trans [OF steady(1) steady_list [OF node l]])
      ultimately show thesis using run res Inr True l by (intro that [where p = p' and es = "fst ctx" and tr = "snd ctx"]) (simp_all add: ReadDir_def)
    next
      case False
      then show thesis using run res Inr same steady(1) few by (intro that [where p = p and es = "Entries x" and tr = "Truncated x"]) (simp_all add: ReadDir_def)
    qed
  qed
qed

text \<open>Sorting puts the folder in order, and nothing else.\<close>
lemma SortEntries_ok:
  assumes "length (Entries x) \<le> MAX_ENTRIES"
  shows "order_ok (SortEntries x)" "base_ok med (SortEntries x) = base_ok med x" "ItemCount (SortEntries x) = ItemCount x"
    "Selected (SortEntries x) = Selected x" "AtRoot (SortEntries x) = AtRoot x"
proof -
  have sort: "SortEntries x = x\<lparr>Order := Order (SortEntries x)\<rparr>" by (simp add: SortEntries_def Let_def)
  have same: "Entries (SortEntries x) = Entries x" "SortMode (SortEntries x) = SortMode x" by (subst sort, simp)+
  show "order_ok (SortEntries x)" using SortEntries_outcome [of x] assms by (simp add: order_ok_def same)
  show "base_ok med (SortEntries x) = base_ok med x" by (subst sort, rule base_cong) simp_all
  show "ItemCount (SortEntries x) = ItemCount x" "AtRoot (SortEntries x) = AtRoot x"
    by (subst sort, simp add: ItemCount_def EntryCount_def AtRoot_def)+
  show "Selected (SortEntries x) = Selected x" by (subst sort) simp
qed

lemma find_member: "find P xs = Some i \<Longrightarrow> i \<in> set xs"
  by (induction xs) (auto split: if_splits)

lemma FindItemByName_item: "0 \<le> FindItemByName Nm x \<Longrightarrow> FindItemByName Nm x < ItemCount x"
  unfolding FindItemByName_def by (auto split: option.splits dest: find_member)

lemma FocusOn_shape:
  obtains s where "FocusOn Focus x = x\<lparr>Selected := s\<rparr>" "Selected x = 0 \<Longrightarrow> ItemCount x = 0 \<Longrightarrow> s \<le> 0"
proof -
  define first where "first = (if \<not> AtRoot x \<and> ItemCount x > 1 then 1 else Selected x)"
  have none: "FocusOn Focus x = x\<lparr>Selected := first\<rparr>" if "Focus = None \<or> Focus = Some []"
    using that by (elim disjE) (simp_all add: FocusOn_def first_def)
  show thesis
  proof (cases "Focus = None \<or> Focus = Some []")
    case True
    then show thesis using none by (intro that [of first]) (simp_all add: first_def)
  next
    case False
    then obtain F where F: "Focus = Some F" "F \<noteq> []" by auto
    show thesis
      using FindItemByName_item [of F x] F
      by (intro that [of "if FindItemByName F x \<ge> 0 then FindItemByName F x else Selected x"]) (auto simp: FocusOn_def Let_def)
  qed
qed

lemma explorer_empty:
  assumes "base_ok med x" "Entries x = []" "Selected x = 0" "XScroll x = 0"
  shows "explorer_ok med x"
  using assms by (auto simp: explorer_ok_def base_ok_def place_ok_def order_ok_def window_ok_def ItemCount_def EntryCount_def)

text \<open>Reading a folder ends in a state of the explorer, whatever the folder and the device are.\<close>
lemma LoadDir_ok:
  assumes base: "base_ok med x"
  shows "explorer_ok med (snd (LoadDir t Focus x))"
proof -
  define a where "a = xraise DF_ALL (x\<lparr>Entries := [], Truncated := False, Selected := 0, XScroll := 0, RowDirtyA := - 1, RowDirtyB := - 1\<rparr>)"
  have a: "base_ok med a" "Entries a = []" "Selected a = 0" "XScroll a = 0"
    using base by (simp_all add: a_def xraise_def base_ok_def place_ok_def)
  define Input where "Input = append_text (append_text (copy_loop (FsVolumeName (Files a) (Volume a)) (FULL_MAX - 1)) (lit '':'') FULL_MAX) (Dir a) FULL_MAX"
  obtain s y where read: "ReadDir Input a = (s, y)" by (cases "ReadDir Input a")
  obtain p es tr where y: "y = a\<lparr>Files := p, Entries := es, Truncated := tr\<rparr>" "steady med (Files a) p" "length es \<le> MAX_ENTRIES"
    by (rule ReadDir_outcome [OF _ _ read, of med]) (use a in \<open>simp_all add: base_ok_def\<close>)
  have yb: "base_ok med y" "length (Entries y) \<le> MAX_ENTRIES" "Selected y = 0"
    using a y(2,3) by (simp_all add: y(1) base_ok_def place_ok_def steady_def)
  obtain z where z: "FocusOn Focus (SortEntries y) = (SortEntries y)\<lparr>Selected := z\<rparr>"
    "Selected (SortEntries y) = 0 \<Longrightarrow> ItemCount (SortEntries y) = 0 \<Longrightarrow> z \<le> 0"
    using FocusOn_shape [of Focus "SortEntries y"] by metis
  define w where "w = ClampScroll t ((SortEntries y)\<lparr>Selected := z\<rparr>)"
  note sorted = SortEntries_ok [OF yb(2)]
  have w: "explorer_ok med w" unfolding w_def
  proof (rule ClampScroll_ok)
    show "base_ok med ((SortEntries y)\<lparr>Selected := z\<rparr>)" using sorted(2) yb(1) by (simp add: base_ok_def place_ok_def)
    show "order_ok ((SortEntries y)\<lparr>Selected := z\<rparr>)" using sorted(1) by (simp add: order_ok_def)
    show "Selected ((SortEntries y)\<lparr>Selected := z\<rparr>) \<le> 0" if "ItemCount ((SortEntries y)\<lparr>Selected := z\<rparr>) = 0"
      using that z(2) sorted(3,4) yb(3) by (simp add: ItemCount_def EntryCount_def AtRoot_def)
  qed
  have err: "explorer_ok med (SetError t c d w)" for c d by (rule mild_explorer [OF mild_SetError w])
  have "LoadDir t Focus x = (if FsVolumeCount (Files a) = 0 then (False, SetError t E_NO_VOLUMES [] a)
      else if s \<noteq> FS_OK then (False, SetError t E_FOLDER_READ (lit (FsErrorText s)) w)
      else (True, if Truncated w then SetError t E_FOLDER_LARGE [] w else w))"
    unfolding LoadDir_def Let_def a_def [symmetric] Input_def [symmetric] read prod.case z(1) w_def [symmetric] by (rule refl)
  moreover have "explorer_ok med (SetError t E_NO_VOLUMES [] a)"
    by (rule mild_explorer [OF mild_SetError explorer_empty]) (rule a)+
  ultimately show ?thesis using err w by simp
qed

section \<open>Moving\<close>

lemma Select_ok: "explorer_ok med x \<Longrightarrow> explorer_ok med (Select t i x)"
proof -
  assume ok: "explorer_ok med x"
  have clamp: "explorer_ok med (ClampScroll t (x\<lparr>Selected := j\<rparr>))" if "ItemCount x \<noteq> 0" for j
  proof (rule ClampScroll_ok)
    show "base_ok med (x\<lparr>Selected := j\<rparr>)" "order_ok (x\<lparr>Selected := j\<rparr>)"
      using explorer_base [OF ok] by (simp_all add: base_ok_def place_ok_def order_ok_def)
  qed (use that in \<open>simp add: ItemCount_def EntryCount_def AtRoot_def\<close>)
  have rows: "explorer_ok med (y\<lparr>RowDirtyA := a, RowDirtyB := b\<rparr>)" if "explorer_ok med y" for y :: "'a explorer_scheme" and a b
    by (rule mild_explorer [OF mild_same that]) (simp_all add: xcore_def)
  have shown: "explorer_ok med (xraise f (ClampScroll t (x\<lparr>Selected := j\<rparr>)))" if "ItemCount x \<noteq> 0" for j f
    by (rule explorer_raise [OF clamp [OF that]])
  show ?thesis unfolding Select_def Let_def using ok clamp rows shown by simp
qed

lemma SwitchVolume_ok: "explorer_ok med x \<Longrightarrow> explorer_ok med (SwitchVolume t i x)"
  unfolding SwitchVolume_def using LoadDir_ok [of med "x\<lparr>Volume := i, Dir := [chr_code CHR ''/'']\<rparr>" t None]
  by (simp add: explorer_ok_def base_ok_def place_ok_def FS_PATH_MAX_def)

lemma CutLoop_bound: "CutLoop D n \<le> n"
  by (induction n) (simp_all add: le_SucI)

lemma DirUp_base: "base_ok med x \<Longrightarrow> DirUp x = (Last, y) \<Longrightarrow> base_ok med y"
proof -
  assume base: "base_ok med x" and up: "DirUp x = (Last, y)"
  obtain rest where d: "Dir x = chr_code CHR ''/'' # rest" using base by (auto simp: base_ok_def place_ok_def)
  define Cut where "Cut = CutLoop (Dir x) (length (Dir x))"
  have y: "y = x\<lparr>Dir := if Cut \<le> 1 then [chr_code CHR ''/''] else take (Cut - 1) (Dir x)\<rparr>"
    using up by (simp add: DirUp_def Let_def flip: Cut_def)
  have "\<exists>rest. Dir y = chr_code CHR ''/'' # rest" unfolding y by (simp add: d take_Cons')
  moreover have "length (Dir y) < FS_PATH_MAX"
    using base unfolding y by (auto simp: base_ok_def place_ok_def FS_PATH_MAX_def)
  ultimately show ?thesis using base by (simp add: base_ok_def place_ok_def y)
qed

lemma GoUp_ok: "explorer_ok med x \<Longrightarrow> explorer_ok med (GoUp t x)"
  unfolding GoUp_def by (auto split: prod.split intro!: LoadDir_ok dest: explorer_base(1) DirUp_base)

text \<open>An operation of the player, followed by nothing that the invariant is about.\<close>
lemma mild_on_player:
  "run_state m (Files x) = (r, p) \<Longrightarrow> steady med (Files x) p \<Longrightarrow> mild med x (snd (on_player m x))"
  by (simp add: on_player_def mild_player)

lemma mild_player_op:
  "mild med x (snd (on_player PlayerPoll x))" "mild med x (snd (on_player (PlayerStart Path) x))"
  "mild med x (snd (on_player PlayerStop x))" "mild med x (snd (on_player PlayerElapsedSeconds x))"
  "mild med x (snd (on_player PlayerTakeFinished x))"
  by (rule mild_on_player [OF surjective_pairing steady_player(1) [OF surjective_pairing]]
      mild_on_player [OF surjective_pairing steady_player(2) [OF surjective_pairing]]
      mild_on_player [OF surjective_pairing steady_player(3) [OF surjective_pairing]]
      mild_on_player [OF surjective_pairing steady_player(4) [OF surjective_pairing]]
      mild_on_player [OF surjective_pairing steady_player(5) [OF surjective_pairing]])+

lemma mild_after: "on_player m x = (r, y) \<Longrightarrow> mild med x (snd (on_player m x)) \<Longrightarrow> mild med x y" by simp

lemma mild_StartPlay: "mild med x (snd (StartPlay t E x))"
proof -
  obtain e y where run: "on_player (PlayerStart (BuildFull x (ItemName E))) x = (e, y)"
    by (cases "on_player (PlayerStart (BuildFull x (ItemName E))) x")
  note first = mild_after [OF run mild_player_op(2), of med]
  have "mild med y (xraise f (y\<lparr>PlayingFull := a, PlayingDir := b, PlayingName := c, PlayingVolume := d, PlayingShown := s\<rparr>))" for f a b c d s
    by (rule mild_same) (simp_all add: xraise_def xcore_def)
  with first have "mild med x (xraise f (y\<lparr>PlayingFull := a, PlayingDir := b, PlayingName := c, PlayingVolume := d, PlayingShown := s\<rparr>))"
    for f a b c d s by (blast intro: mild_trans)
  then show ?thesis unfolding StartPlay_def Let_def run prod.case
    using mild_trans [OF first mild_SetError] by (simp add: mild_SetError)
qed

lemma explorer_StartPlay: "explorer_ok med x \<Longrightarrow> explorer_ok med (snd (StartPlay t E x))"
  by (rule mild_explorer [OF mild_StartPlay])

lemma explorer_SetError: "explorer_ok med x \<Longrightarrow> explorer_ok med (SetError t c d x)"
  by (rule mild_explorer [OF mild_SetError])

lemma explorer_SetMessage: "explorer_ok med x \<Longrightarrow> explorer_ok med (SetMessage t m k x)"
  by (rule mild_explorer [OF mild_SetMessage])

lemma explorer_flags:
  "explorer_ok med x \<Longrightarrow> explorer_ok med (x\<lparr>InViewer := b\<rparr>)" "explorer_ok med x \<Longrightarrow> explorer_ok med (x\<lparr>Halted := b\<rparr>)"
  "explorer_ok med x \<Longrightarrow> explorer_ok med (x\<lparr>Autoplay := b\<rparr>)" "explorer_ok med x \<Longrightarrow> explorer_ok med (x\<lparr>ShowHidden := b\<rparr>)"
  "explorer_ok med x \<Longrightarrow> explorer_ok med (x\<lparr>LastClickItem := i\<rparr>)"
  "explorer_ok med x \<Longrightarrow> explorer_ok med (x\<lparr>LastClickItem := i, LastClickTick := u\<rparr>)"
  "explorer_ok med x \<Longrightarrow> explorer_ok med (x\<lparr>ShownSecond := s\<rparr>)" "explorer_ok med x \<Longrightarrow> explorer_ok med (x\<lparr>XMessage := m\<rparr>)"
  "explorer_ok med x \<Longrightarrow> explorer_ok med (x\<lparr>XFlags := f, RowDirtyA := r, RowDirtyB := q\<rparr>)"
  by (erule mild_explorer [OF mild_same, rotated 2]; simp add: xcore_def)+

lemma OpenViewer_ok:
  assumes ok: "explorer_ok med x"
  shows "explorer_ok med (OpenViewer t rs E x)"
proof -
  obtain r y where run: "ViewerRun t rs (BuildFull x (ItemName E)) (ItemName E) x = (r, y)"
    by (cases "ViewerRun t rs (BuildFull x (ItemName E)) (ItemName E) x")
  have "player_ok med (Files x)" using ok by (simp add: explorer_ok_def)
  then have y: "explorer_ok med y" using mild_explorer [OF mild_calm [OF calm_Run [OF _ run]] ok] by blast
  have shown: "explorer_ok med (xraise DF_ALL (FillScreen COL_BG y))"
    by (intro explorer_raise mild_explorer [OF mild_screen [OF FillScreen_screen]] y)
  show ?thesis unfolding OpenViewer_def run prod.case Let_def
    using explorer_SetError [OF ok] explorer_SetError [OF shown] shown explorer_flags(1) [OF y]
    by (auto split: option.split)
qed

lemma DirJoin_base:
  assumes "base_ok med x"
  shows "base_ok med (DirJoin Nm x)"
proof -
  define D where "D = (if \<not> AtRoot x then append_text (Dir x) (lit ''/'') FS_PATH_MAX else Dir x)"
  have "length (Dir x) < FS_PATH_MAX" using assms by (simp add: base_ok_def place_ok_def)
  then have "length D < FS_PATH_MAX" by (simp add: D_def length_append_text)
  then have "length (append_text D Nm FS_PATH_MAX) < FS_PATH_MAX" by (rule length_append_text)
  moreover have "\<exists>rest. append_text D Nm FS_PATH_MAX = chr_code CHR ''/'' # rest"
    using assms by (auto simp: base_ok_def place_ok_def D_def append_text_def)
  ultimately show ?thesis using assms by (simp add: DirJoin_def Let_def D_def [symmetric] base_ok_def place_ok_def)
qed

lemma EnterDir_ok:
  assumes ok: "explorer_ok med x"
  shows "explorer_ok med (EnterDir t E x)"
proof -
  have short: "copy_loop (Dir x) (FS_PATH_MAX - 1) = Dir x" using ok by (auto simp: explorer_ok_def place_ok_def)
  have restored: "(DirJoin Nm x)\<lparr>Dir := Dir x\<rparr> = x" for Nm by (simp add: DirJoin_def Let_def)
  obtain b y where load: "LoadDir t None (DirJoin (ItemName E) x) = (b, y)" by (cases "LoadDir t None (DirJoin (ItemName E) x)")
  have y: "explorer_ok med y" using LoadDir_ok [OF DirJoin_base [OF explorer_base(1) [OF ok]], of t None "ItemName E"] by (simp add: load)
  have place: "place_ok x" using ok by (simp add: explorer_ok_def)
  have again: "explorer_ok med (snd (LoadDir t None (y\<lparr>Dir := Dir x\<rparr>)))"
    by (rule LoadDir_ok) (use y place in \<open>simp add: explorer_ok_def base_ok_def place_ok_def\<close>)
  show ?thesis unfolding EnterDir_def Let_def short restored load prod.case
    using explorer_SetError [OF ok] y again by simp
qed

lemma Activate_ok: "explorer_ok med x \<Longrightarrow> explorer_ok med (Activate t rs i x)"
  unfolding Activate_def
  by (auto split: option.split simp: GoUp_ok EnterDir_ok OpenViewer_ok explorer_StartPlay)

lemma mild_ShowInfo: "player_ok med (Files x) \<Longrightarrow> mild med x (ShowInfo t x)"
proof -
  assume ok: "player_ok med (Files x)"
  have wav: "mild med x (case FsResolve P (Files x) of (Inl e, p) \<Rightarrow> SetError t a d (x\<lparr>Files := p\<rparr>)
      | (Inr N, p) \<Rightarrow> (case WavParse N wav_blank p of (s, I, p) \<Rightarrow>
          if s \<noteq> 1 then SetError t (b s) d (x\<lparr>Files := p\<rparr>)
          else if BlockAlign I = 0 \<or> SampleRate I = 0 then x\<lparr>Files := p, Halted := True\<rparr>
          else SetMessage t (WavDetails I Txt) MSG_INFO (x\<lparr>Files := p\<rparr>)))" for P a b d Txt
  proof -
    obtain r p where res: "FsResolve P (Files x) = (r, p)" by (cases "FsResolve P (Files x)")
    note steady = steady_resolve [OF res, of med]
    have on: "mild med x (x\<lparr>Files := q\<rparr>)" if "steady med (Files x) q" for q using that by (simp add: mild_def xcore_def)
    show ?thesis
    proof (cases r)
      case (Inl e)
      with mild_trans [OF on [OF steady(1)] mild_SetError] show ?thesis by (simp add: res)
    next
      case (Inr N)
      obtain s I q where parse: "WavParse N wav_blank p = (s, I, q)" by (metis prod_cases3)
      have q: "mild med x (x\<lparr>Files := q\<rparr>)"
        by (rule on [OF steady_trans [OF steady(1) steady_parse [OF steady_resolve(2) [OF res ok Inr] parse]]])
      have "mild med x (x\<lparr>Files := q, Halted := True\<rparr>)" using q by (simp add: mild_def xcore_def)
      with mild_trans [OF q mild_SetError] mild_trans [OF q mild_SetMessage]
      show ?thesis by (simp add: res Inr parse)
    qed
  qed
  show ?thesis
  proof (cases "ItemEntry x (Selected x)")
    case (Some E)
    show ?thesis unfolding ShowInfo_def Some option.case Let_def by (intro mild_if mild_SetMessage wav)
  qed (simp add: ShowInfo_def mild_SetMessage)
qed

lemma JumpToLetter_ok: "explorer_ok med x \<Longrightarrow> explorer_ok med (JumpToLetter t c x)"
  unfolding JumpToLetter_def Let_def by (auto split: option.split intro: Select_ok)

lemma Refresh_ok: "explorer_ok med x \<Longrightarrow> explorer_ok med (Refresh t x)"
  unfolding Refresh_def by (rule LoadDir_ok [OF explorer_base(1)])

lemma CycleSort_ok:
  assumes ok: "explorer_ok med x"
  shows "explorer_ok med (CycleSort t x)"
proof -
  let ?a = "x\<lparr>SortMode := (SortMode x + 1) mod 3\<rparr>"
  have few: "length (Entries ?a) \<le> MAX_ENTRIES" using ok by (simp add: explorer_ok_def order_ok_def)
  have base: "base_ok med (SortEntries ?a)"
    using explorer_base(1) [OF ok] by (simp only: SortEntries_ok(2) [OF few]) (simp add: base_ok_def place_ok_def)
  define Found where "Found = (if FocusName x \<noteq> [] then FindItemByName (FocusName x) (SortEntries ?a) else - 1)"
  let ?b = "(SortEntries ?a)\<lparr>Selected := if Found \<ge> 0 then Found else 0, XScroll := 0\<rparr>"
  have same: "ItemCount ?b = ItemCount (SortEntries ?a)" by (simp add: ItemCount_def EntryCount_def AtRoot_def)
  have "explorer_ok med (ClampScroll t ?b)"
  proof (rule ClampScroll_ok)
    show "base_ok med ?b" "order_ok ?b"
      using base SortEntries_ok(1) [OF few] by (simp_all add: base_ok_def place_ok_def order_ok_def)
    show "Selected ?b \<le> 0" if "ItemCount ?b = 0"
      using that FindItemByName_item [of "FocusName x" "SortEntries ?a"] unfolding same by (auto simp: Found_def)
  qed
  then show ?thesis unfolding CycleSort_def Let_def Found_def by (intro explorer_raise)
qed

lemma AdvanceTrack_ok: "explorer_ok med x \<Longrightarrow> explorer_ok med (AdvanceTrack t x)"
  unfolding AdvanceTrack_def Let_def
  by (auto split: option.split intro: explorer_SetMessage explorer_StartPlay Select_ok)

section \<open>Keys and clicks\<close>

lemma StopPlaying_ok: "explorer_ok med x \<Longrightarrow> explorer_ok med (StopPlaying x)"
  unfolding StopPlaying_def by (intro explorer_raise mild_explorer [OF mild_player_op(3)])

lemma explorer_if: "explorer_ok med y \<Longrightarrow> explorer_ok med z \<Longrightarrow> explorer_ok med (if b then y else z)" by simp
lemma explorer_option: "explorer_ok med y \<Longrightarrow> (\<And>k. explorer_ok med (f k)) \<Longrightarrow> explorer_ok med (case r of None \<Rightarrow> y | Some k \<Rightarrow> f k)"
  by (cases r) simp_all

lemmas explorer_moves = explorer_if explorer_option Select_ok Activate_ok GoUp_ok SwitchVolume_ok StopPlaying_ok CycleSort_ok
  Refresh_ok JumpToLetter_ok explorer_SetMessage explorer_raise explorer_flags

lemma explorer_ShowInfo: "explorer_ok med x \<Longrightarrow> explorer_ok med (ShowInfo t x)"
  by (rule mild_explorer [OF mild_ShowInfo]) (simp_all add: explorer_ok_def)

lemma ExplorerHandleKey_ok: "explorer_ok med x \<Longrightarrow> explorer_ok med (snd (ExplorerHandleKey t rs Key x))"
proof (cases "Key = 27")
  case False
  assume "explorer_ok med x"
  then show ?thesis unfolding ExplorerHandleKey_def ToggleAutoplay_def if_not_P [OF False] snd_conv
    by (intro explorer_moves explorer_ShowInfo)
qed (simp add: ExplorerHandleKey_def)

lemma PageClick_ok:
  assumes ok: "explorer_ok med x"
  shows "explorer_ok med (PageClick t x)"
proof -
  have page: "explorer_ok med (xraise f (ClampScroll t (x\<lparr>XScroll := c, Selected := s\<rparr>)))" if "ItemCount x > Visible x" for f c s
  proof (intro explorer_raise ClampScroll_ok)
    show "base_ok med (x\<lparr>XScroll := c, Selected := s\<rparr>)" "order_ok (x\<lparr>XScroll := c, Selected := s\<rparr>)"
      using explorer_base [OF ok] by (simp_all add: base_ok_def place_ok_def order_ok_def)
    have "3 \<le> Visible x" using ok by (simp add: explorer_ok_def place_ok_def)
    then show "Selected (x\<lparr>XScroll := c, Selected := s\<rparr>) \<le> 0" if "ItemCount (x\<lparr>XScroll := c, Selected := s\<rparr>) = 0"
      using that \<open>ItemCount x > Visible x\<close> by (simp add: ItemCount_def EntryCount_def AtRoot_def)
  qed
  have norm: "(if b then x\<lparr>XScroll := a, Selected := d\<rparr> else x\<lparr>XScroll := a', Selected := d'\<rparr>) =
      x\<lparr>XScroll := if b then a else a', Selected := if b then d else d'\<rparr>"
    "(if b then x\<lparr>XScroll := a, Selected := d, Selected := e\<rparr> else x\<lparr>XScroll := a, Selected := d\<rparr>) =
      x\<lparr>XScroll := a, Selected := if b then e else d\<rparr>" for b a d a' d' e
    by simp_all
  show ?thesis
    unfolding PageClick_def Let_def norm using ok page by simp
qed

lemma RowClick_ok: "explorer_ok med x \<Longrightarrow> explorer_ok med (RowClick t rs x)"
  unfolding RowClick_def Let_def by (intro explorer_moves)

lemma ExplorerHandleClick_ok: "explorer_ok med x \<Longrightarrow> explorer_ok med (ExplorerHandleClick t rs x)"
  unfolding ExplorerHandleClick_def Let_def ToggleAutoplay_def by (intro explorer_moves RowClick_ok PageClick_ok)

section \<open>Drawing\<close>

lemma DrawIcon_screen: "same_screen x (DrawIcon k X Y x)"
  unfolding DrawIcon_def Let_def by (intro draw_on)

lemma DrawEntry_screen: "same_screen x (DrawEntry E Y x)"
  unfolding DrawEntry_def Let_def by (intro draw_on same_screen_trans [OF _ DrawIcon_screen])

lemma screen_option: "same_screen g a \<Longrightarrow> (\<And>k. same_screen g (f k)) \<Longrightarrow> same_screen g (case r of None \<Rightarrow> a | Some k \<Rightarrow> f k)"
  by (cases r) simp_all

lemma DrawItemRow_screen: "same_screen x (DrawItemRow i x)"
  unfolding DrawItemRow_def Let_def by (intro draw_on screen_option same_screen_trans [OF _ DrawEntry_screen])

lemma DrawListScrollbar_screen: "same_screen x (DrawListScrollbar x)"
  unfolding DrawListScrollbar_def Let_def by (intro draw_on)

lemma DrawList_screen: "same_screen x (DrawList x)"
  unfolding DrawList_def Let_def
  by (rule same_screen_trans [OF same_screen_trans [OF _ fold_screen] DrawListScrollbar_screen])
     (intro draw_on, rule DrawItemRow_screen)

lemma DrawExplorerTitle_screen: "same_screen x (DrawExplorerTitle x)"
  unfolding DrawExplorerTitle_def Let_def by (intro draw_on)

lemma DrawPath_screen: "same_screen x (DrawPath x)"
  unfolding DrawPath_def Let_def by (intro draw_on)

lemma DrawVolumes_screen: "same_screen x (DrawVolumes H is x)"
proof (induction "is" arbitrary: x)
  case (Cons i js)
  show ?case unfolding DrawVolumes.simps Let_def by (intro draw_on same_screen_trans [OF _ Cons])
qed simp

lemma DrawSidebar_screen: "same_screen x (DrawSidebar x)"
  unfolding DrawSidebar_def Let_def by (rule same_screen_trans [OF _ DrawVolumes_screen]) (intro draw_on)

lemma DrawHeader_screen: "same_screen x (DrawHeader x)"
  unfolding DrawHeader_def Let_def by (intro draw_on)

lemma DrawExplorerHint_screen: "same_screen x (DrawExplorerHint x)"
  unfolding DrawExplorerHint_def Let_def by (intro draw_on)

lemma PresentRows_screen: "same_screen x (PresentRows x)"
proof -
  have "same_screen x (if b then DrawItemRow i x else x)" for b i by (simp add: DrawItemRow_screen)
  then show ?thesis unfolding PresentRows_def Let_def
    by (intro same_screen_if same_screen_refl same_screen_trans [OF _ DrawItemRow_screen])
qed

lemma mild_DrawNow: "mild med x (DrawNow x)"
proof -
  define Y where "Y = UiH x - NOW_H - HINT_H"
  define a where "a = FillRect 0 Y (UiW x) NOW_H COL_HEADER x"
  have a: "same_screen x a" by (simp add: a_def)
  obtain s b where run: "on_player PlayerElapsedSeconds a = (s, b)" by (cases "on_player PlayerElapsedSeconds a")
  have b: "mild med x b" by (rule mild_trans [OF mild_screen [OF a] mild_after [OF run mild_player_op(4)]])
  show ?thesis unfolding DrawNow_def Let_def Y_def [symmetric] a_def [symmetric] run prod.case AutoplayText_def
    by (intro mild_if mild_trans [OF b mild_screen] mild_screen [OF same_screen_trans [OF a]]; intro draw_on)
qed

lemma mild_present: "mild med x (ExplorerPresent x)"
proof -
  have d: "mild med w (if b then f w else w)" if "\<And>w. mild med w (f w)" for b f and w :: "'a explorer_scheme"
    using that [of w] by (simp add: mild_refl)
  have rows: "mild med w (if b then DrawList w else PresentRows w)" for b and w :: "'a explorer_scheme"
    using mild_screen [OF DrawList_screen, of med w] mild_screen [OF PresentRows_screen, of med w] by simp
  have path: "mild med w (DrawPath (DrawExplorerTitle w))" for w :: "'a explorer_scheme"
    by (rule mild_screen [OF same_screen_trans [OF DrawExplorerTitle_screen DrawPath_screen]])
  have side: "mild med w (DrawHeader (DrawSidebar w))" for w :: "'a explorer_scheme"
    by (rule mild_screen [OF same_screen_trans [OF DrawSidebar_screen DrawHeader_screen]])
  have clean: "mild med w (w\<lparr>XFlags := 0, RowDirtyA := - 1, RowDirtyB := - 1\<rparr>)" for w :: "'a explorer_scheme"
    by (rule mild_same) (simp_all add: xcore_def)
  have "mild med x (let F = XFlags x; x = UiCursorHide x;
                        x = (if F AND DF_PATH \<noteq> 0 then DrawPath (DrawExplorerTitle x) else x);
                        x = (if F AND DF_SIDE \<noteq> 0 then DrawHeader (DrawSidebar x) else x);
                        x = (if F AND DF_LIST \<noteq> 0 then DrawList x else PresentRows x);
                        x = (if F AND DF_NOW \<noteq> 0 then DrawNow x else x);
                        x = (if F AND DF_HINT \<noteq> 0 then DrawExplorerHint x else x)
                    in x\<lparr>XFlags := 0, RowDirtyA := - 1, RowDirtyB := - 1\<rparr>)"
    unfolding Let_def
    by (rule mild_trans [OF mild_trans [OF mild_trans [OF mild_trans [OF mild_trans [OF mild_trans
        [OF mild_ui [OF ui_only_hide] d [OF path]] d [OF side]] rows] d [OF mild_DrawNow]]
        d [OF mild_screen [OF DrawExplorerHint_screen]]] clean])
  then show ?thesis unfolding ExplorerPresent_def Let_def
    by (intro mild_trans [OF _ mild_ui [OF ui_only_show]]) (simp add: mild_refl)
qed

section \<open>The main loop\<close>

lemma mild_outer: "outer y = outer x \<Longrightarrow> mild med x (y :: 'a explorer_scheme)"
  by (rule mild_calm [OF calm_outer])

lemma explorer_player:
  "explorer_ok med x \<Longrightarrow> on_player m x = (r, y) \<Longrightarrow> mild med x (snd (on_player m x)) \<Longrightarrow> explorer_ok med y"
  by (rule mild_explorer) simp_all

lemma AfterTrack_ok: "explorer_ok med x \<Longrightarrow> explorer_ok med (AfterTrack t x)"
proof -
  assume ok: "explorer_ok med x"
  obtain fin y where run: "on_player PlayerTakeFinished x = (fin, y)" by (cases "on_player PlayerTakeFinished x")
  have y: "explorer_ok med y" by (rule explorer_player [OF ok run mild_player_op(5)])
  show ?thesis unfolding AfterTrack_def run prod.case Let_def
    by (intro explorer_if y explorer_SetError AdvanceTrack_ok explorer_raise)
qed

lemma ShowSeconds_ok: "explorer_ok med x \<Longrightarrow> explorer_ok med (ShowSeconds x)"
proof -
  assume ok: "explorer_ok med x"
  obtain s y where run: "on_player PlayerElapsedSeconds x = (s, y)" by (cases "on_player PlayerElapsedSeconds x")
  have y: "explorer_ok med y" by (rule explorer_player [OF ok run mild_player_op(4)])
  show ?thesis unfolding ShowSeconds_def run prod.case by (intro explorer_if explorer_raise explorer_flags y ok)
qed

text \<open>What follows the keys and clicks in a round.\<close>
lemma round_tail_ok:
  assumes "explorer_ok med x"
  shows "explorer_ok med (ExplorerPresent (let x = snd (on_player PlayerPoll x); x = ShowSeconds (AfterTrack t x)
    in if XMessage x \<noteq> [] \<and> t \<ge> XMessageUntil x then xraise DF_HINT (x\<lparr>XMessage := []\<rparr>) else x))"
  unfolding Let_def
  by (intro mild_explorer [OF mild_present] explorer_if explorer_raise explorer_flags ShowSeconds_ok AfterTrack_ok
      mild_explorer [OF mild_player_op(1)] assms)

lemma ExplorerRound_ok:
  assumes ok: "explorer_ok med x"
  shows "explorer_ok med (snd (ExplorerRound t rs x))"
proof -
  obtain Key k where k: "GetKey x = (Key, k)" by (cases "GetKey x")
  have key: "explorer_ok med k" using k
    by (intro mild_explorer [OF mild_outer ok]) (auto simp: GetKey_def split: prod.splits)
  obtain l y where y: "(if Key \<noteq> 0 then ExplorerHandleKey t rs Key k else (False, k)) = (l, y)" by fastforce
  have yk: "explorer_ok med y" using ExplorerHandleKey_ok [OF key, of t rs Key] key y by (auto split: if_splits)
  obtain m P z where poll: "UiPollMouse y = (m, P, z)" by (metis prod_cases3)
  have z: "explorer_ok med z" by (rule mild_explorer [OF mild_ui [OF ui_only_poll [OF poll]] yk])
  define w where "w = (if m \<and> P AND 1 \<noteq> 0 then ExplorerHandleClick t rs z else z)"
  have w: "explorer_ok med w" unfolding w_def by (intro explorer_if ExplorerHandleClick_ok z)
  have "snd (ExplorerRound t rs x) = (if l \<or> InViewer y \<or> Halted y then y else if InViewer w \<or> Halted w then w
      else ExplorerPresent (let x = snd (on_player PlayerPoll w); x = ShowSeconds (AfterTrack t x)
    in if XMessage x \<noteq> [] \<and> t \<ge> XMessageUntil x then xraise DF_HINT (x\<lparr>XMessage := []\<rparr>) else x))"
    unfolding ExplorerRound_def k prod.case y poll w_def [symmetric] Let_def by simp
  with yk w round_tail_ok [OF w] show ?thesis by simp
qed

lemma ExplorerRounds_ok: "explorer_ok med x \<Longrightarrow> explorer_ok med (snd (ExplorerRounds rs x))"
proof (induction rs x rule: ExplorerRounds.induct)
  case (2 irqs t vs rs x)
  let ?x = "fold desk_irq irqs x"
  have "explorer_ok med ?x" by (rule mild_explorer [OF mild_outer "2.prems"]) simp
  then have round: "explorer_ok med (snd (ExplorerRound t vs ?x))" by (rule ExplorerRound_ok)
  obtain l y where r: "ExplorerRound t vs ?x = (l, y)" by (cases "ExplorerRound t vs ?x")
  with round have y: "explorer_ok med y" by simp
  have "explorer_ok med (ExplorerClose y)" unfolding ExplorerClose_def
    by (intro mild_explorer [OF mild_ui [OF ui_only_hide]] mild_explorer [OF mild_player_op(3)] y)
  then show ?case using "2.prems" "2.IH" [OF _ r [symmetric]] y r by auto
qed simp

text \<open>Opening the explorer on a screen that is large enough.\<close>
lemma StartDir_base: "base_ok med x \<Longrightarrow> base_ok med (StartDir x)"
proof -
  assume base: "base_ok med x"
  have "\<exists>rest. CwdPathText (Files x) = chr_code CHR ''/'' # rest" "length (CwdPathText (Files x)) < FS_PATH_MAX"
    using base by (simp_all add: base_ok_def player_ok_def fs_ok_def mounts_ok_def)
  then have "base_ok med (x\<lparr>Volume := i, Dir := copy_loop (CwdPathText (Files x)) (FS_PATH_MAX - 1)\<rparr>)"
    if "0 \<le> i" "i < FsVolumeCount (Files x)" for i
    using base that by (auto simp: base_ok_def place_ok_def)
  then show ?thesis using base
    by (auto simp: StartDir_def Let_def split: option.split dest!: find_member)
qed

lemma ExplorerOpen_ok:
  assumes ok: "player_ok med (Files x)" and run: "ExplorerOpen t x = (True, y)"
  shows "explorer_ok med y"
proof -
  define a where "a = snd (Layout (UiInit x))"
  define b where "b = a\<lparr>Volume := 0, Dir := [chr_code CHR ''/''], XMessage := [], PlayingShown := False, Selected := 0,
    XScroll := 0, RowDirtyA := - 1, RowDirtyB := - 1, LastClickItem := - 1, ShownSecond := 0xFFFFFFFF,
    SortMode := SORT_NAME, ShowHidden := False, Autoplay := True, XFlags := 0\<rparr>"
  define c where "c = FillScreen COL_BG (StartDir b)"
  have y: "y = drain_keys KEY_BUFFER_SIZE (snd (on_player PlayerTakeFinished (snd (LoadDir t None c))))"
    and rows: "fst (Layout (UiInit x))"
    using run unfolding ExplorerOpen_def Let_def case_prod_unfold a_def [symmetric] b_def [symmetric] c_def [symmetric]
    by (auto split: if_splits)
  have files: "Files a = Files x" by (simp add: a_def Layout_def UiInit_def Let_def)
  have "3 \<le> Visible a" using rows by (simp add: a_def Layout_def Let_def)
  moreover have "0 \<le> FsVolumeCount (Files x)" by (simp add: FsVolumeCount_def)
  ultimately have "base_ok med b" using ok files by (auto simp: b_def base_ok_def place_ok_def FS_PATH_MAX_def)
  then have "base_ok med c" unfolding c_def by (intro mild_base [OF mild_screen [OF FillScreen_screen]] StartDir_base)
  then have "explorer_ok med (snd (on_player PlayerTakeFinished (snd (LoadDir t None c))))"
    by (intro mild_explorer [OF mild_player_op(5)] LoadDir_ok)
  then show ?thesis unfolding y by (rule mild_explorer [OF mild_outer, rotated]) simp
qed

text \<open>C29: The explorer stays consistent. Once it is opened on a screen that is large enough, after any sequence of rounds,
  with any keys, clicks and interrupts, at any ticks, whatever the disks hold or answer and whatever is played and
  viewed in between: there are at most 1024 entries and their order is a sorted rearrangement of them; the selection is an
  item of the list (or 0 when there is none); the window starts at an item, never runs behind the list when the list is
  longer, and shows the selection; the folder is a path from the root that fits its buffer, on a volume that exists;
  and the player's invariant holds.\<close>
theorem explorer_invariant:
  assumes "player_ok med (Files x)" "ExplorerOpen Tick x = (True, y)"
  shows "explorer_ok med (snd (ExplorerRounds rs y))"
  by (rule ExplorerRounds_ok [OF ExplorerOpen_ok [OF assms]])

section \<open>An example\<close>

definition demo_explorer :: explorer where
  "demo_explorer = viewer.extend (viewer.truncate demo_viewer) (explorer.fields [] [] False 0 [] 0 False False 0 0 0 0 0 [] 0 0
     [] [] [] 0 False 0 0 0 0 0 0 0 False False)"

lemma explorer_invariant_witness:
  "explorer_ok (\<lambda>_. tiny_medium) (snd (ExplorerRounds [([KeyIrq 1 0x50], 1, []), ([], 2, [])] (snd (ExplorerOpen 0 demo_explorer))))"
proof -
  have "fst (ExplorerOpen 0 demo_explorer)"
    by (simp add: ExplorerOpen_def demo_explorer_def viewer.defs explorer.defs demo_viewer_def UiInit_def Layout_def TITLE_H_def HINT_H_def
        PATH_H_def HEAD_H_def NOW_H_def ROW_H_def Let_def)
  then obtain y where y: "ExplorerOpen 0 demo_explorer = (True, y)" by (metis prod.collapse)
  have "player_ok (\<lambda>_. tiny_medium) (Files demo_explorer)"
    using demo_player_ok by (simp add: demo_explorer_def viewer.defs explorer.defs demo_viewer_def)
  from explorer_invariant [OF this y, of "[([KeyIrq 1 0x50], 1, []), ([], 2, [])]"] show ?thesis by (simp only: y snd_conv)
qed

end
