(* ===== verification/Pci.thy ===== *)
theory Pci
  imports Bus
begin

text \<open>
  PCI configuration space (\<open>kernel/pci.c\<close>, the port instructions of \<open>kernel/io.h\<close>): reading and writing
  registers through the two ports of the first configuration mechanism, switching a device on, and the
  searches for the controllers. The four searches of the code are the same three nested loops around
  different tests; the loops are written once, with the test as an argument.
\<close>

section \<open>Ports and registers\<close>

definition OutB :: "u16 \<Rightarrow> u8 \<Rightarrow> (bus, unit) state" where
  "OutB Port Value = change (bus_write 1 (ucast Port) (ucast Value))"
definition InB :: "u16 \<Rightarrow> (bus, u8) state" where
  "InB Port = do { v \<leftarrow> State (bus_read 1 (ucast Port)); ret (ucast v) }"
definition OutL :: "u16 \<Rightarrow> u32 \<Rightarrow> (bus, unit) state" where
  "OutL Port Value = change (bus_write 4 (ucast Port) (ucast Value))"
definition InL :: "u16 \<Rightarrow> (bus, u32) state" where
  "InL Port = do { v \<leftarrow> State (bus_read 4 (ucast Port)); ret (ucast v) }"

definition PCI_CONFIG_ADDRESS :: u16 where "PCI_CONFIG_ADDRESS = 0xCF8"
definition PCI_CONFIG_DATA :: u16 where "PCI_CONFIG_DATA = 0xCFC"

definition config_address :: "u8 \<Rightarrow> u8 \<Rightarrow> u8 \<Rightarrow> u8 \<Rightarrow> u32" where
  "config_address Bus Device Function Offset =
     push_bit 31 1 OR push_bit 16 (ucast Bus) OR push_bit 11 (ucast Device) OR push_bit 8 (ucast Function) OR
     (ucast Offset AND 0xFC)"

definition PciConfigReadDWord :: "u8 \<Rightarrow> u8 \<Rightarrow> u8 \<Rightarrow> u8 \<Rightarrow> (bus, u32) state" where
  "PciConfigReadDWord Bus Device Function Offset = do {
     OutL PCI_CONFIG_ADDRESS (config_address Bus Device Function Offset);
     InL PCI_CONFIG_DATA }"

definition PciConfigWriteDWord :: "u8 \<Rightarrow> u8 \<Rightarrow> u8 \<Rightarrow> u8 \<Rightarrow> u32 \<Rightarrow> (bus, unit) state" where
  "PciConfigWriteDWord Bus Device Function Offset Value = do {
     OutL PCI_CONFIG_ADDRESS (config_address Bus Device Function Offset);
     OutL PCI_CONFIG_DATA Value }"

definition PciConfigRead32 :: "u8 \<Rightarrow> u8 \<Rightarrow> u8 \<Rightarrow> u8 \<Rightarrow> (bus, u32) state" where
  "PciConfigRead32 = PciConfigReadDWord"
definition PciConfigWrite32 :: "u8 \<Rightarrow> u8 \<Rightarrow> u8 \<Rightarrow> u8 \<Rightarrow> u32 \<Rightarrow> (bus, unit) state" where
  "PciConfigWrite32 = PciConfigWriteDWord"

definition PciEnableDevice :: "u8 \<Rightarrow> u8 \<Rightarrow> u8 \<Rightarrow> (bus, u16) state" where
  "PciEnableDevice Bus Device Function = do {
     r \<leftarrow> PciConfigReadDWord Bus Device Function 0x04;
     let Old = (ucast (r AND 0xFFFF) :: u16);
     let New = Old OR 0x0006;
     when_do (New \<noteq> Old) (PciConfigWriteDWord Bus Device Function 0x04 (ucast New));
     ret Old }"

section \<open>Searching\<close>


















section \<open>What is found\<close>

text \<open>The documented behaviour of the first configuration mechanism: a read of the data port after a write of the address
  port gives the register at that address, here one that does not change by being read.\<close>
definition config_space :: "(u32 \<Rightarrow> u32) \<Rightarrow> bus \<Rightarrow> bool" where
  "config_space cfg b \<longleftrightarrow>
     (\<forall>t a. Respond b (t @ [Wr 4 0xCF8 (ucast (a :: u32)), Rd 4 0xCFC]) = ucast (cfg a))"







text \<open>A program that comes to the same result whatever was read before.\<close>
definition yields :: "(u32 \<Rightarrow> u32) \<Rightarrow> (bus, 'a) state \<Rightarrow> 'a \<Rightarrow> bool" where
  "yields cfg m x \<longleftrightarrow> (\<forall>b. config_space cfg b \<longrightarrow> (\<exists>b'. run_state m b = (x, b') \<and> config_space cfg b'))"



lemma yields_if: "(c \<Longrightarrow> yields cfg m x) \<Longrightarrow> (\<not> c \<Longrightarrow> yields cfg n x) \<Longrightarrow> yields cfg (if c then m else n) x" by simp

lemma widen [simp]: "take_bit 32 (ucast (v :: u32) :: u64) = ucast v"
proof (rule bit_eqI)
  fix n show "bit (take_bit 32 (ucast v :: u64)) n = bit (ucast v :: u64) n"
    using bit_imp_le_length [of v n] by (auto simp: bit_simps)
qed

lemma narrow [simp]: "ucast (ucast (v :: u32) :: u64) = v"
proof (rule bit_eqI)
  fix n show "bit (ucast (ucast v :: u64) :: u32) n = bit v n"
    using bit_imp_le_length [of v n] by (auto simp: bit_simps)
qed













section \<open>The searches\<close>












section \<open>An example\<close>






end
