(* ===== verification/Acpi.thy ===== *)
theory Acpi
  imports Pci Klog
begin

text \<open>
  Power control (\<open>kernel/power.c\<close>): the ACPI tables, read from memory byte by byte, the search for the
  sleep types in the \<open>_S5_\<close> package of a definition block, and the sequences of port accesses that switch the
  machine off and restart it. The memory is a function from addresses to bytes. The shutdown returns the
  text it prints; switching interrupts off and on and writing back the caches do not show in the model.
\<close>

section \<open>State\<close>

definition SLP_EN :: u16 where "SLP_EN = 0x2000"
definition MAX_TABLE_SIZE :: u32 where "MAX_TABLE_SIZE = 0x1000000"

type_synonym memory = "u64 \<Rightarrow> u8"

record power =
  Pm1aCnt :: u16
  Pm1bCnt :: u16
  SlpTypA :: u16
  SlpTypB :: u16
  S5Found :: bool
  SmiCmd :: u16
  Pm1aEvt :: u16
  Pm1bEvt :: u16
  Pm1EvtLen :: u8
  Gpe0Blk :: u16
  Gpe0Len :: u8
  Gpe1Blk :: u16
  Gpe1Len :: u8
  AcpiEnableValue :: u8
  ResetSupported :: bool
  ResetSpace :: u8
  ResetAddress :: u64
  ResetValue :: u8
  Ready :: bool

text \<open>The zero-initialised statics at boot.\<close>
definition power_init :: power where
  "power_init = \<lparr>Pm1aCnt = 0, Pm1bCnt = 0, SlpTypA = 0, SlpTypB = 0, S5Found = False, SmiCmd = 0, Pm1aEvt = 0, Pm1bEvt = 0,
     Pm1EvtLen = 0, Gpe0Blk = 0, Gpe0Len = 0, Gpe1Blk = 0, Gpe1Len = 0, AcpiEnableValue = 0, ResetSupported = False,
     ResetSpace = 0, ResetAddress = 0, ResetValue = 0, Ready = False\<rparr>"

section \<open>Tables\<close>

definition ReadU32 :: "memory \<Rightarrow> u64 \<Rightarrow> u32" where
  "ReadU32 m P = ucast (m P) OR push_bit 8 (ucast (m (P + 1))) OR push_bit 16 (ucast (m (P + 2))) OR push_bit 24 (ucast (m (P + 3)))"

definition ReadU64 :: "memory \<Rightarrow> u64 \<Rightarrow> u64" where
  "ReadU64 m P = ucast (ReadU32 m P) OR push_bit 32 (ucast (ReadU32 m (P + 4)))"

definition SigEq :: "memory \<Rightarrow> u64 \<Rightarrow> cstring \<Rightarrow> bool" where
  "SigEq m P Sig \<longleftrightarrow> list_all (\<lambda>i. m (P + of_nat i) = Sig ! i) [0..<4]"

definition ChecksumOk :: "memory \<Rightarrow> u64 \<Rightarrow> nat \<Rightarrow> bool" where
  "ChecksumOk m P n \<longleftrightarrow> fold (\<lambda>i S. S + m (P + of_nat i)) [0..<n] 0 = (0 :: u8)"

text \<open>The number of entries of a root table, and the address in entry \<open>i\<close>.\<close>
definition EntryTotal :: "memory \<Rightarrow> u64 \<Rightarrow> u32 \<Rightarrow> nat" where
  "EntryTotal m Root EntrySize =
     (let Len = ReadU32 m (Root + 4)
      in if Len < 36 \<or> Len > MAX_TABLE_SIZE then 0 else unat ((Len - 36) div EntrySize))"

definition EntryAddress :: "memory \<Rightarrow> u64 \<Rightarrow> u32 \<Rightarrow> nat \<Rightarrow> u64" where
  "EntryAddress m Root EntrySize i =
     (let Entry = Root + 36 + ucast (of_nat i * EntrySize)
      in if EntrySize = 8 then ReadU64 m Entry else ucast (ReadU32 m Entry))"

definition FindTable :: "memory \<Rightarrow> u64 \<Rightarrow> u32 \<Rightarrow> cstring \<Rightarrow> u64 option" where
  "FindTable m Root EntrySize Sig =
     map_option (EntryAddress m Root EntrySize)
       (find (\<lambda>i. let Address = EntryAddress m Root EntrySize i in Address \<noteq> 0 \<and> SigEq m Address Sig)
         [0..<EntryTotal m Root EntrySize])"

text \<open>An integer of a package: zero, one, or a byte behind its prefix; and the place behind it.\<close>
definition ReadPackageByte :: "memory \<Rightarrow> u64 \<Rightarrow> (u16 \<times> u64) option" where
  "ReadPackageByte m P =
     (if m P = 0x0A then Some (ucast (m (P + 1)), P + 2)
      else if m P \<noteq> 0x00 \<and> m P \<noteq> 0x01 then None
      else Some (ucast (m P), P + 1))"

text \<open>The body of the loop of \<open>ParseS5\<close> at one offset: the sleep types, unless it goes on.\<close>
definition S5At :: "memory \<Rightarrow> u64 \<Rightarrow> nat \<Rightarrow> (u16 \<times> u16) option" where
  "S5At m Table i =
     (let T = Table + of_nat i
      in if \<not> SigEq m T (lit ''_S5_'') then None
      else let P = T + 4
      in if m P \<noteq> 0x12 then None
      else let P = P + 1;
               P = P + ucast ((drop_bit 6 (m P) AND 3) + 1);
               P = P + 1
      in case ReadPackageByte m P of None \<Rightarrow> None
      | Some (A, P) \<Rightarrow> (case ReadPackageByte m P of None \<Rightarrow> None
        | Some (B, P) \<Rightarrow> Some (push_bit 10 A, push_bit 10 B)))"

fun first_some :: "('a \<Rightarrow> 'b option) \<Rightarrow> 'a list \<Rightarrow> 'b option" where
  "first_some f [] = None"
| "first_some f (x # xs) = (case f x of Some y \<Rightarrow> Some y | None \<Rightarrow> first_some f xs)"

definition ParseS5 :: "memory \<Rightarrow> u64 \<Rightarrow> (u16 \<times> u16) option" where
  "ParseS5 m Table =
     (let Len = ReadU32 m (Table + 4)
      in if Len < 44 \<or> Len > MAX_TABLE_SIZE then None
         else first_some (S5At m Table) [36..<unat Len - 12])"

text \<open>\<open>S5Found = ParseS5(Table)\<close>.\<close>
definition SetS5 :: "memory \<Rightarrow> u64 \<Rightarrow> power \<Rightarrow> power" where
  "SetS5 m Table p =
     (case ParseS5 m Table of
        Some (A, B) \<Rightarrow> p\<lparr>SlpTypA := A, SlpTypB := B, S5Found := True\<rparr>
      | None \<Rightarrow> p\<lparr>S5Found := False\<rparr>)"

text \<open>The loop over the secondary tables, which ends when the types are found.\<close>
fun ScanSsdt :: "memory \<Rightarrow> u64 list \<Rightarrow> power \<Rightarrow> power" where
  "ScanSsdt m [] p = p"
| "ScanSsdt m (Address # as) p =
     (if S5Found p then p
      else if Address \<noteq> 0 \<and> SigEq m Address (lit ''SSDT'') then ScanSsdt m as (SetS5 m Address p)
      else ScanSsdt m as p)"

definition log_hex :: "u64 \<Rightarrow> cstring" where "log_hex v = lit ''0x'' @ hex_text v 1"

text \<open>What \<open>PowerInit\<close> takes from the fixed description table.\<close>
definition ReadFadt :: "memory \<Rightarrow> u64 \<Rightarrow> power \<Rightarrow> power" where
  "ReadFadt m Fadt p =
     (let FadtLength = ReadU32 m (Fadt + 4);
          p = p\<lparr>Pm1aCnt := ucast (ReadU32 m (Fadt + 64)), Pm1bCnt := ucast (ReadU32 m (Fadt + 68)),
                SmiCmd := ucast (ReadU32 m (Fadt + 48)), Pm1aEvt := ucast (ReadU32 m (Fadt + 56)),
                Pm1bEvt := ucast (ReadU32 m (Fadt + 60)), Pm1EvtLen := m (Fadt + 88), Gpe0Blk := ucast (ReadU32 m (Fadt + 80)),
                Gpe0Len := m (Fadt + 92), Gpe1Blk := ucast (ReadU32 m (Fadt + 84)), Gpe1Len := m (Fadt + 93),
                AcpiEnableValue := m (Fadt + 52)\<rparr>
      in if FadtLength \<ge> 129 \<and> ReadU32 m (Fadt + 112) AND push_bit 10 1 \<noteq> 0
         then p\<lparr>ResetSupported := (m (Fadt + 116) = 0 \<or> m (Fadt + 116) = 1) \<and> ReadU64 m (Fadt + 120) \<noteq> 0,
                ResetSpace := m (Fadt + 116), ResetAddress := ReadU64 m (Fadt + 120), ResetValue := m (Fadt + 128)\<rparr>
         else p)"

definition FindS5 :: "memory \<Rightarrow> u64 \<Rightarrow> u32 \<Rightarrow> u64 \<Rightarrow> power \<Rightarrow> power" where
  "FindS5 m Root EntrySize Fadt p =
     (let DsdtAddress = (if ReadU32 m (Fadt + 4) \<ge> 148 \<and> ReadU64 m (Fadt + 140) \<noteq> 0 then ReadU64 m (Fadt + 140)
                         else ucast (ReadU32 m (Fadt + 40)));
          p = (if DsdtAddress \<noteq> 0 \<and> SigEq m DsdtAddress (lit ''DSDT'') then SetS5 m DsdtAddress p else p)
      in if \<not> S5Found p then ScanSsdt m (map (EntryAddress m Root EntrySize) [0..<EntryTotal m Root EntrySize]) p else p)"

definition LogPower :: "power \<Rightarrow> klog \<Rightarrow> klog" where
  "LogPower p k =
     KLogs ([lit ''ACPI: pm1a '', log_hex (ucast (Pm1aCnt p)), lit '' pm1b '', log_hex (ucast (Pm1bCnt p)), lit '' s5 ''] @
       (if S5Found p then [log_hex (ucast (drop_bit 10 (SlpTypA p))), lit '','', log_hex (ucast (drop_bit 10 (SlpTypB p)))]
        else [lit ''none'']) @
       [lit '' smi '', log_hex (ucast (SmiCmd p)), [10],
        lit ''ACPI: evt '', log_hex (ucast (Pm1aEvt p)), lit '' len '', dec_text (ucast (Pm1EvtLen p)),
        lit '' gpe0 '', log_hex (ucast (Gpe0Blk p)), lit '' len '', dec_text (ucast (Gpe0Len p)),
        lit '' gpe1 '', log_hex (ucast (Gpe1Blk p)), lit '' len '', dec_text (ucast (Gpe1Len p)), [10],
        lit ''ACPI: reset ''] @
       (if ResetSupported p
        then [dec_text (ucast (ResetSpace p)), lit '' '', log_hex (ResetAddress p), lit '' value '', log_hex (ucast (ResetValue p))]
        else [lit ''none'']) @ [[10]]) k"

definition PowerInit :: "memory \<Rightarrow> u64 \<Rightarrow> power \<times> klog \<Rightarrow> power \<times> klog" where
  "PowerInit m Rsdp pk =
     (case pk of (p, k) \<Rightarrow>
      if Rsdp = 0 \<or> Rsdp \<ge> 0x0000010000000000 then (p, KLog (lit ''ACPI: no rsdp'' @ [10]) k)
      else if \<not> list_all (\<lambda>i. m (Rsdp + of_nat i) = lit ''RSD PTR '' ! i) [0..<8]
      then (p, KLog (lit ''ACPI: bad rsdp signature'' @ [10]) k)
      else if \<not> ChecksumOk m Rsdp 20 then (p, KLog (lit ''ACPI: bad rsdp checksum'' @ [10]) k)
      else
      let Revision = m (Rsdp + 15);
          Wide = (Revision \<ge> 2 \<and> ReadU64 m (Rsdp + 24) \<noteq> 0);
          Root = (if Wide then ReadU64 m (Rsdp + 24) else ucast (ReadU32 m (Rsdp + 16)));
          EntrySize = (if Wide then 8 else 4);
          k = KLogs [lit ''ACPI: rsdp '', log_hex Rsdp, lit '' rev '', dec_text (ucast Revision),
                (if EntrySize = 8 then lit '' xsdt'' else lit '' rsdt'') @ [10]] k
      in if Root = 0 then (p, KLog (lit ''ACPI: no root table'' @ [10]) k)
      else case FindTable m Root EntrySize (lit ''FACP'') of
        None \<Rightarrow> (p, KLog (lit ''ACPI: no fadt'' @ [10]) k)
      | Some Fadt \<Rightarrow>
          if ReadU32 m (Fadt + 4) < 116 then (p, KLog (lit ''ACPI: no fadt'' @ [10]) k)
          else let p = FindS5 m Root EntrySize Fadt (ReadFadt m Fadt p) in (p\<lparr>Ready := True\<rparr>, LogPower p k))"

section \<open>Switching off\<close>

definition OutW :: "u16 \<Rightarrow> u16 \<Rightarrow> (bus, unit) state" where
  "OutW Port Value = change (bus_write 2 (ucast Port) (ucast Value))"
definition InW :: "u16 \<Rightarrow> (bus, u16) state" where
  "InW Port = do { v \<leftarrow> State (bus_read 2 (ucast Port)); ret (ucast v) }"

definition LongDelay :: "(bus, unit) state" where "LongDelay = change (bus_pause 300000000)"

text \<open>The two halves of an event block: the status bits are cleared, the enable bits switched off.\<close>
definition ClearEvents :: "u16 \<Rightarrow> u16 \<Rightarrow> (bus, unit) state" where
  "ClearEvents Evt Half = when_do (Evt \<noteq> 0 \<and> Half \<ge> 2) (do { OutW Evt 0xFFFF; OutW (Evt + Half) 0 })"

definition ClearGpe :: "u16 \<Rightarrow> u8 \<Rightarrow> (bus, unit) state" where
  "ClearGpe Blk Len =
     when_do (Blk \<noteq> 0) (let GpeHalf = (ucast (Len div 2) :: u16) in
       each [0..<unat GpeHalf] (\<lambda>i. do { OutB (Blk + of_nat i) 0xFF; OutB (Blk + GpeHalf + of_nat i) 0 }))"

definition ClearWakeSources :: "power \<Rightarrow> (bus, unit) state" where
  "ClearWakeSources p = do {
     let Half = (ucast (Pm1EvtLen p div 2) :: u16);
     ClearEvents (Pm1aEvt p) Half;
     ClearEvents (Pm1bEvt p) Half;
     ClearGpe (Gpe0Blk p) (Gpe0Len p);
     ClearGpe (Gpe1Blk p) (Gpe1Len p) }"

definition ShutdownText :: "power \<Rightarrow> u16 \<Rightarrow> u16 \<Rightarrow> cstring" where
  "ShutdownText p Cnt Sts =
     lit ''pm1a cnt '' @ log_hex (ucast (Pm1aCnt p)) @ lit ''  pm1b cnt '' @ log_hex (ucast (Pm1bCnt p)) @
     lit ''  s5 typ '' @ log_hex (ucast (drop_bit 10 (SlpTypA p))) @ lit '','' @ log_hex (ucast (drop_bit 10 (SlpTypB p))) @ [10] @
     lit ''pm1a evt '' @ log_hex (ucast (Pm1aEvt p)) @ lit ''  evt len '' @ log_hex (ucast (Pm1EvtLen p)) @
     lit ''  gpe0 '' @ log_hex (ucast (Gpe0Blk p)) @ lit '' len '' @ log_hex (ucast (Gpe0Len p)) @
     lit ''  pm1 cnt now '' @ log_hex (ucast Cnt) @ lit ''  pm1 sts now '' @ log_hex (ucast Sts) @ [10]"

text \<open>Handing the hardware over from the firmware, and waiting for it.\<close>
definition EnableAcpi :: "power \<Rightarrow> (bus, unit) state" where
  "EnableAcpi p =
     when_do (SmiCmd p \<noteq> 0 \<and> AcpiEnableValue p \<noteq> 0) (do {
       c \<leftarrow> InW (Pm1aCnt p);
       when_do (c AND 1 = 0) (do {
         OutB (SmiCmd p) (AcpiEnableValue p);
         _ \<leftarrow> poll 300 (do { c \<leftarrow> InW (Pm1aCnt p); ret (c AND 1 \<noteq> 0) }) (change (bus_pause 1000000));
         ret () }) })"

text \<open>The control value without its sleep type and sleep enable bits.\<close>
definition ReadControl :: "u16 \<Rightarrow> (bus, u16) state" where
  "ReadControl Port = do { c \<leftarrow> InW Port; ret (c AND NOT (0x1C00 OR SLP_EN)) }"

definition EnterS5 :: "power \<Rightarrow> (bus, unit) state" where
  "EnterS5 p = do {
     ControlA \<leftarrow> ReadControl (Pm1aCnt p);
     OutW (Pm1aCnt p) (ControlA OR SlpTypA p);
     when_do (Pm1bCnt p \<noteq> 0) (do { ControlB \<leftarrow> ReadControl (Pm1bCnt p); OutW (Pm1bCnt p) (ControlB OR SlpTypB p) });
     OutW (Pm1aCnt p) (ControlA OR SlpTypA p OR SLP_EN);
     when_do (Pm1bCnt p \<noteq> 0) (do { ControlB \<leftarrow> ReadControl (Pm1bCnt p); OutW (Pm1bCnt p) (ControlB OR SlpTypB p OR SLP_EN) }) }"

text \<open>It returns when the machine is still on; the result is the text it has printed, none when it has refused.\<close>
definition PowerShutdown :: "power \<Rightarrow> (bus, cstring) state" where
  "PowerShutdown p =
     (if \<not> Ready p \<or> \<not> S5Found p \<or> Pm1aCnt p = 0 then ret []
      else do {
        Cnt \<leftarrow> InW (Pm1aCnt p);
        Sts \<leftarrow> if Pm1aEvt p \<noteq> 0 then InW (Pm1aEvt p) else ret 0;
        change (bus_pause 4000);
        EnableAcpi p;
        ClearWakeSources p;
        EnterS5 p;
        LongDelay;
        ret (ShutdownText p Cnt Sts) })"

text \<open>The restart up to the breakpoint with an empty interrupt table, after which the processor resets or halts.\<close>
definition PowerReboot :: "power \<Rightarrow> (bus, unit) state" where
  "PowerReboot p = do {
     when_do (Ready p \<and> ResetSupported p) (do {
       (if ResetSpace p = 1 then OutB (ucast (ResetAddress p)) (ResetValue p)
        else change (bus_write 1 (ResetAddress p) (ucast (ResetValue p))));
       LongDelay });
     OutB 0xCF9 0x02;
     OutB 0xCF9 0x06;
     LongDelay;
     _ \<leftarrow> poll 100000 (do { s \<leftarrow> InB 0x64; ret (s AND 0x02 = 0) }) (ret ());
     OutB 0x64 0xFE;
     LongDelay }"

section \<open>Finding the sleep types\<close>

definition holds :: "memory \<Rightarrow> u64 \<Rightarrow> u8 list \<Rightarrow> bool" where
  "holds m P bs \<longleftrightarrow> (\<forall>i < length bs. m (P + of_nat i) = bs ! i)"

lemma holds_nil [simp]: "holds m P []" by (simp add: holds_def)

lemma holds_bytes: "length ls = k \<and> holds m P ls \<longleftrightarrow> ls = map (\<lambda>j. m (P + of_nat j)) [0..<k]"
proof
  assume "length ls = k \<and> holds m P ls"
  then show "ls = map (\<lambda>j. m (P + of_nat j)) [0..<k]" by (intro nth_equalityI) (simp_all add: holds_def)
next
  assume "ls = map (\<lambda>j. m (P + of_nat j)) [0..<k]"
  then have "length ls = k" "\<And>j. j < k \<Longrightarrow> ls ! j = m (P + of_nat j)" by simp_all
  then show "length ls = k \<and> holds m P ls" by (simp add: holds_def)
qed

lemma holds_cons: "holds m P (c # bs) \<longleftrightarrow> m P = c \<and> holds m (P + 1) bs"
  unfolding holds_def by (auto simp: less_Suc_eq_0_disj add.assoc all_conj_distrib dest: spec [of _ 0]) 

lemma holds_append: "holds m P (as @ bs) \<longleftrightarrow> holds m P as \<and> holds m (P + of_nat (length as)) bs"
  by (induction as arbitrary: P) (simp_all add: holds_cons add.assoc)

text \<open>How the package is written: the name, the package operator, the length with as many more bytes as the two high
  bits of its first byte say, the number of elements, and the elements. An element is one of the three forms of an
  integer that fit a byte: \<open>ZeroOp\<close>, \<open>OneOp\<close>, or the byte prefix with any byte. The forms with 16, 32 and
  64 bits and \<open>OnesOp\<close>, which AML allows as well, are not among those the driver reads.\<close>
definition byte_integer :: "u8 list \<Rightarrow> u8 \<Rightarrow> bool" where
  "byte_integer bs v \<longleftrightarrow> bs = [0x0A, v] \<or> (bs = [0x00] \<and> v = 0) \<or> (bs = [0x01] \<and> v = 1)"

definition pkglen_ok :: "u8 list \<Rightarrow> bool" where
  "pkglen_ok ls \<longleftrightarrow> ls \<noteq> [] \<and> length ls = unat (drop_bit 6 (ls ! 0)) + 1"

definition s5_package :: "memory \<Rightarrow> u64 \<Rightarrow> u8 \<Rightarrow> u8 \<Rightarrow> bool" where
  "s5_package m P A B \<longleftrightarrow> (\<exists>pkglen n as bs. pkglen_ok pkglen \<and> byte_integer as A \<and> byte_integer bs B \<and>
     holds m P ([0x5F, 0x53, 0x35, 0x5F] @ [0x12] @ pkglen @ [n] @ as @ bs))"

lemma read_integer:
  "ReadPackageByte m P = Some (a, Q) \<longleftrightarrow> (\<exists>bs v. byte_integer bs v \<and> holds m P bs \<and> a = ucast v \<and> Q = P + of_nat (length bs))"
proof
  assume r: "ReadPackageByte m P = Some (a, Q)"
  then consider "m P = 0x0A" | "m P = 0" | "m P = 1" by (auto simp: ReadPackageByte_def split: if_splits)
  then show "\<exists>bs v. byte_integer bs v \<and> holds m P bs \<and> a = ucast v \<and> Q = P + of_nat (length bs)"
  proof cases
    case 1
    with r show ?thesis
      by (intro exI [of _ "[0x0A, m (P + 1)]"] exI [of _ "m (P + 1)"])
        (simp add: ReadPackageByte_def byte_integer_def holds_cons)
  next
    case 2
    with r show ?thesis
      by (intro exI [of _ "[0]"] exI [of _ 0]) (simp add: ReadPackageByte_def byte_integer_def holds_cons)
  next
    case 3
    with r show ?thesis
      by (intro exI [of _ "[1]"] exI [of _ 1]) (simp add: ReadPackageByte_def byte_integer_def holds_cons)
  qed
next
  assume "\<exists>bs v. byte_integer bs v \<and> holds m P bs \<and> a = ucast v \<and> Q = P + of_nat (length bs)"
  then show "ReadPackageByte m P = Some (a, Q)"
    by (auto simp: byte_integer_def ReadPackageByte_def holds_cons)
qed

lemma first_some_upt:
  "first_some f [k..<n] = Some y \<longleftrightarrow> (\<exists>i. k \<le> i \<and> i < n \<and> f i = Some y \<and> (\<forall>j. k \<le> j \<and> j < i \<longrightarrow> f j = None))"
proof (induction "n - k" arbitrary: k)
  case (Suc d)
  then have up: "[k..<n] = k # [Suc k..<n]" by (simp add: upt_conv_Cons)
  show ?case
  proof (cases "f k")
    case None
    have "(\<exists>i. k \<le> i \<and> i < n \<and> f i = Some y \<and> (\<forall>j. k \<le> j \<and> j < i \<longrightarrow> f j = None)) \<longleftrightarrow>
      (\<exists>i. Suc k \<le> i \<and> i < n \<and> f i = Some y \<and> (\<forall>j. Suc k \<le> j \<and> j < i \<longrightarrow> f j = None))"
      using None by (metis Suc_leD Suc_leI le_eq_less_or_eq option.distinct(1))
    with Suc None show ?thesis by (simp add: up)
  next
    case (Some z)
    then show ?thesis using Suc by (auto simp: up) (metis le_refl le_eq_less_or_eq option.distinct(1) option.inject)+
  qed
qed auto

lemma s5_name: "lit ''_S5_'' = [0x5F, 0x53, 0x35, 0x5F]" by (simp add: lit_def)

lemma lead_bytes: "ucast ((drop_bit 6 (l :: u8) AND 3) + 1) = (of_nat (unat (drop_bit 6 l) + 1) :: u64)"
proof -
  have d: "unat (drop_bit 6 l) = unat l div 64" by (simp add: drop_bit_eq_div unat_div)
  have small: "unat l div 64 < 4" 
  proof -
    have "unat l < 2 ^ LENGTH(8)" by (rule unsigned_less)
    then show ?thesis by simp
  qed
  have "drop_bit 6 l AND 3 = take_bit 2 (drop_bit 6 l)" by (simp add: take_bit_eq_mask mask_eq_exp_minus_1)
  then have "unat (drop_bit 6 l AND 3) = unat (take_bit 2 (drop_bit 6 l))" by (rule arg_cong)
  also have "\<dots> = take_bit 2 (unat (drop_bit 6 l))" by (rule unsigned_take_bit_eq)
  also have "\<dots> = unat l div 64" unfolding d using small by (simp only: take_bit_eq_mod) simp
  finally have and3: "unat (drop_bit 6 l AND 3) = unat l div 64" .
  have "unat ((drop_bit 6 l AND 3) + 1) = unat l div 64 + 1" using small and3 by (simp add: unat_word_ariths)
  moreover have "unat (of_nat (unat l div 64 + 1) :: u64) = unat l div 64 + 1" by (rule unat_of_nat_small) (use small in simp)
  moreover have "unat (ucast v :: u64) = unat v" for v :: u8 by (rule unat_ucast_le) simp
  ultimately have "unat (ucast ((drop_bit 6 l AND 3) + 1) :: u64) = unat (of_nat (unat l div 64 + 1) :: u64)" by (simp only:)
  then show ?thesis unfolding d by (rule word_unat_eq_iff [THEN iffD2])
qed

lemma S5At_package: "S5At m T i = Some (a, b) \<longleftrightarrow> (\<exists>A B. s5_package m (T + of_nat i) A B \<and> a = push_bit 10 (ucast A) \<and> b = push_bit 10 (ucast B))"
proof -
  let ?P = "T + of_nat i"
  let ?k = "unat (drop_bit 6 (m (?P + 5))) + 1"
  let ?Q = "?P + 6 + of_nat ?k"
  have sig: "SigEq m ?P (lit ''_S5_'') \<longleftrightarrow> holds m ?P [0x5F, 0x53, 0x35, 0x5F]"
    by (simp add: SigEq_def s5_name upt_conv_Cons holds_cons add.assoc)
  have next_byte: "?P + 4 + 1 + ucast ((drop_bit 6 (m (?P + 4 + 1)) AND 3) + 1) + 1 = ?Q"
    unfolding lead_bytes by (simp add: add.assoc)
  have code: "S5At m T i = Some (a, b) \<longleftrightarrow> holds m ?P [0x5F, 0x53, 0x35, 0x5F] \<and> m (?P + 4) = 0x12 \<and>
    (\<exists>A B Q R. ReadPackageByte m ?Q = Some (A, Q) \<and> ReadPackageByte m Q = Some (B, R) \<and> a = push_bit 10 A \<and> b = push_bit 10 B)"
    unfolding S5At_def Let_def next_byte sig by (auto split: option.splits)
  have pkg: "holds m ?P ([0x5F, 0x53, 0x35, 0x5F] @ [0x12] @ ls @ [n] @ as @ bs) \<and> pkglen_ok ls \<longleftrightarrow>
    holds m ?P [0x5F, 0x53, 0x35, 0x5F] \<and> m (?P + 4) = 0x12 \<and> length ls = ?k \<and> holds m (?P + 5) ls \<and>
    m (?P + 5 + of_nat ?k) = n \<and> holds m ?Q as \<and> holds m (?Q + of_nat (length as)) bs" for ls n as bs
  proof (cases ls)
    case (Cons l ls')
    have "m (?P + 5) = l" if "holds m (?P + 5) ls" using that by (simp add: Cons holds_cons)
    then show ?thesis by (auto simp: holds_append holds_cons pkglen_ok_def Cons add.assoc)
  qed (simp add: pkglen_ok_def)
  have len: "length ls = ?k \<and> holds m (?P + 5) ls \<longleftrightarrow> ls = map (\<lambda>j. m (?P + 5 + of_nat j)) [0..<?k]" for ls
    by (rule holds_bytes)
  have "s5_package m ?P A B \<longleftrightarrow> holds m ?P [0x5F, 0x53, 0x35, 0x5F] \<and> m (?P + 4) = 0x12 \<and>
     (\<exists>as bs. byte_integer as A \<and> byte_integer bs B \<and> holds m ?Q as \<and> holds m (?Q + of_nat (length as)) bs)" for A B
  proof
    assume "s5_package m ?P A B"
    then obtain ls n as bs where "pkglen_ok ls" "byte_integer as A" "byte_integer bs B"
      "holds m ?P ([0x5F, 0x53, 0x35, 0x5F] @ [0x12] @ ls @ [n] @ as @ bs)" unfolding s5_package_def by blast
    then show "holds m ?P [0x5F, 0x53, 0x35, 0x5F] \<and> m (?P + 4) = 0x12 \<and>
     (\<exists>as bs. byte_integer as A \<and> byte_integer bs B \<and> holds m ?Q as \<and> holds m (?Q + of_nat (length as)) bs)"
      using pkg [of ls n as bs] by blast
  next
    let ?ls = "map (\<lambda>j. m (?P + 5 + of_nat j)) [0..<?k]"
    assume "holds m ?P [0x5F, 0x53, 0x35, 0x5F] \<and> m (?P + 4) = 0x12 \<and>
     (\<exists>as bs. byte_integer as A \<and> byte_integer bs B \<and> holds m ?Q as \<and> holds m (?Q + of_nat (length as)) bs)"
    then obtain as bs where h: "holds m ?P [0x5F, 0x53, 0x35, 0x5F]" "m (?P + 4) = 0x12" "byte_integer as A" "byte_integer bs B"
      "holds m ?Q as" "holds m (?Q + of_nat (length as)) bs" by blast
    have "length ?ls = ?k \<and> holds m (?P + 5) ?ls" using len [of ?ls] by blast
    with h pkg [of ?ls "m (?P + 5 + of_nat ?k)" as bs] show "s5_package m ?P A B" unfolding s5_package_def by blast
  qed
  then show ?thesis unfolding code read_integer by (auto; blast)
qed

text \<open>The length in the header of a table, bytes 4 to 7, the least significant one first.\<close>
definition table_length :: "memory \<Rightarrow> u64 \<Rightarrow> nat" where
  "table_length m T = unat (m (T + 4)) + 256 * unat (m (T + 5)) + 65536 * unat (m (T + 6)) + 16777216 * unat (m (T + 7))"

lemma ReadU32_length: "unat (ReadU32 m (T + 4)) = table_length m T"
proof -
  let ?a = "ucast (m (T + 4)) :: u32" and ?b = "push_bit 8 (ucast (m (T + 5))) :: u32"
  let ?c = "push_bit 16 (ucast (m (T + 6))) :: u32" and ?d = "push_bit 24 (ucast (m (T + 7))) :: u32"
  have small: "unat x < 256" for x :: u8 by (rule order.strict_trans2 [OF unsigned_less]) simp
  have add: "x AND y = 0 \<Longrightarrow> x OR y = x + y" for x y :: u32 using word_plus_and_or [of x y] by simp
  have disj: "?c AND ?d = 0" "?b AND (?c + ?d) = 0" "?a AND (?b + (?c + ?d)) = 0"
  proof -
    show cd: "?c AND ?d = 0" by (rule bit_word_eqI) (auto simp: bit_simps dest: bit_imp_le_length)
    have "?b AND (?c OR ?d) = 0" by (rule bit_word_eqI) (auto simp: bit_simps dest: bit_imp_le_length)
    then show bcd: "?b AND (?c + ?d) = 0" by (simp add: add [OF cd])
    have "?a AND (?b OR (?c OR ?d)) = 0" by (rule bit_word_eqI) (auto simp: bit_simps dest: bit_imp_le_length)
    then show "?a AND (?b + (?c + ?d)) = 0" by (simp add: add [OF cd] add [OF bcd])
  qed
  have "ReadU32 m (T + 4) = ?a OR (?b OR (?c OR ?d))" by (simp add: ReadU32_def or.assoc add.assoc)
  also have "\<dots> = ?a + (?b + (?c + ?d))" by (simp add: add disj)
  finally have sum: "ReadU32 m (T + 4) = ?a + (?b + (?c + ?d))" .
  have parts: "unat ?a = unat (m (T + 4))" "unat ?b = 256 * unat (m (T + 5))" "unat ?c = 65536 * unat (m (T + 6))"
    "unat ?d = 16777216 * unat (m (T + 7))"
    using small [of "m (T + 4)"] small [of "m (T + 5)"] small [of "m (T + 6)"] small [of "m (T + 7)"]
    by (simp_all add: push_bit_eq_mult unat_word_ariths unat_ucast_le)
  have "unat (?c + ?d) = unat ?c + unat ?d" by (rule unat_add_nowrap) (use parts small [of "m (T + 6)"] small [of "m (T + 7)"] in simp)
  moreover from this have "unat (?b + (?c + ?d)) = unat ?b + unat (?c + ?d)"
    by (intro unat_add_nowrap) (use parts small [of "m (T + 5)"] small [of "m (T + 6)"] small [of "m (T + 7)"] in simp)
  moreover from calculation have "unat (?a + (?b + (?c + ?d))) = unat ?a + unat (?b + (?c + ?d))"
    by (intro unat_add_nowrap)
      (use parts small [of "m (T + 4)"] small [of "m (T + 5)"] small [of "m (T + 6)"] small [of "m (T + 7)"] in simp)
  ultimately show ?thesis by (simp add: sum table_length_def parts)
qed

text \<open>C34: The sleep types are found where they are. In a table whose length lies in the range the code accepts, the parser
  answers with the two integers of the first place, from byte 36 on and more than twelve bytes before the end, that holds a
  package named \<open>_S5_\<close> whose first two elements are integers in one of the three one-byte forms, behind a package length of one to
  four bytes, shifted to bit 10; and it answers with nothing exactly when there is no such place or the length is out of the range.\<close>
theorem ParseS5_correct:
  "ParseS5 m T = Some (a, b) \<longleftrightarrow>
     44 \<le> table_length m T \<and> table_length m T \<le> 0x1000000 \<and>
     (\<exists>i A B. 36 \<le> i \<and> i + 12 < table_length m T \<and> s5_package m (T + of_nat i) A B \<and>
        a = push_bit 10 (ucast A) \<and> b = push_bit 10 (ucast B) \<and>
        (\<forall>j. 36 \<le> j \<and> j < i \<longrightarrow> (\<forall>A B. \<not> s5_package m (T + of_nat j) A B)))"
proof -
  let ?L = "unat (ReadU32 m (T + 4))"
  have range: "ReadU32 m (T + 4) < 44 \<or> ReadU32 m (T + 4) > MAX_TABLE_SIZE \<longleftrightarrow> \<not> (44 \<le> ?L \<and> ?L \<le> 0x1000000)"
    by (auto simp: word_less_nat_alt MAX_TABLE_SIZE_def)
  have none: "S5At m T j = None \<longleftrightarrow> (\<forall>A B. \<not> s5_package m (T + of_nat j) A B)" for j
    using S5At_package [of m T j] by (metis not_Some_eq surj_pair)
  have "first_some (S5At m T) [36..<?L - 12] = Some (a, b) \<longleftrightarrow>
      (\<exists>i. 36 \<le> i \<and> i < ?L - 12 \<and> S5At m T i = Some (a, b) \<and> (\<forall>j. 36 \<le> j \<and> j < i \<longrightarrow> S5At m T j = None))"
    by (rule first_some_upt)
  then show ?thesis unfolding ParseS5_def Let_def range ReadU32_length
    by (simp add: less_diff_conv none S5At_package) blast
qed

section \<open>The order of the shutdown\<close>

text \<open>What a program adds to the trace, whatever the device answers.\<close>
definition emits :: "(bus, 'a) state \<Rightarrow> ('a \<Rightarrow> access list \<Rightarrow> bool) \<Rightarrow> bool" where
  "emits m Q \<longleftrightarrow> (\<forall>b. \<exists>ts. Trace (snd (run_state m b)) = Trace b @ ts \<and> Respond (snd (run_state m b)) = Respond b \<and>
     Q (fst (run_state m b)) ts)"

lemma emits_run: "emits m Q \<Longrightarrow> run_state m b = (x, b') \<Longrightarrow> \<exists>ts. Trace b' = Trace b @ ts \<and> Respond b' = Respond b \<and> Q x ts"
  unfolding emits_def by (metis fst_conv snd_conv)

lemma emits_bind:
  "emits m R \<Longrightarrow> (\<And>x. emits (f x) (S x)) \<Longrightarrow> (\<And>x y s t. R x s \<Longrightarrow> S x y t \<Longrightarrow> Q y (s @ t)) \<Longrightarrow> emits (m \<bind> f) Q"
proof -
  assume m: "emits m R" and f: "\<And>x. emits (f x) (S x)" and Q: "\<And>x y s t. R x s \<Longrightarrow> S x y t \<Longrightarrow> Q y (s @ t)"
  show "emits (m \<bind> f) Q" unfolding emits_def
  proof
    fix b
    obtain x b1 where r: "run_state m b = (x, b1)" by (cases "run_state m b")
    obtain s where s: "Trace b1 = Trace b @ s" "Respond b1 = Respond b" "R x s" using emits_run [OF m r] by blast
    obtain y b2 where r2: "run_state (f x) b1 = (y, b2)" by (cases "run_state (f x) b1")
    obtain t where t: "Trace b2 = Trace b1 @ t" "Respond b2 = Respond b1" "S x y t" using emits_run [OF f r2] by blast
    show "\<exists>ts. Trace (snd (run_state (m \<bind> f) b)) = Trace b @ ts \<and> Respond (snd (run_state (m \<bind> f) b)) = Respond b \<and>
        Q (fst (run_state (m \<bind> f) b)) ts"
      using r r2 s t Q [OF s(3) t(3)] by auto
  qed
qed

lemma emits_weaken: "emits m R \<Longrightarrow> (\<And>x ts. R x ts \<Longrightarrow> Q x ts) \<Longrightarrow> emits m Q"
  unfolding emits_def by blast

lemma emits_return: "Q x [] \<Longrightarrow> emits (ret x) Q" by (simp add: emits_def)

lemma narrow16 [simp]: "take_bit 16 (ucast (v :: u16) :: u64) = ucast v"
proof (rule bit_eqI)
  fix n show "bit (take_bit 16 (ucast v :: u64)) n = bit (ucast v :: u64) n"
    using bit_imp_le_length [of v n] by (auto simp: bit_simps)
qed

lemma narrow8 [simp]: "take_bit 8 (ucast (v :: u8) :: u64) = ucast v"
proof (rule bit_eqI)
  fix n show "bit (take_bit 8 (ucast v :: u64)) n = bit (ucast v :: u64) n"
    using bit_imp_le_length [of v n] by (auto simp: bit_simps)
qed

lemma emits_access:
  "emits (OutW P V) (\<lambda>_ ts. ts = [Wr 2 (ucast P) (ucast V)])" "emits (OutB P W) (\<lambda>_ ts. ts = [Wr 1 (ucast P) (ucast W)])"
  "emits (InW P) (\<lambda>_ ts. ts = [Rd 2 (ucast P)])" "emits (change (bus_pause k)) (\<lambda>_ ts. ts = [Pause k])"
  by (simp_all add: emits_def OutW_def OutB_def InW_def bus_write_def bus_read_def bus_pause_def Let_def)

lemma emits_when: "emits m (\<lambda>_ ts. ts = g) \<Longrightarrow> emits (when_do c m) (\<lambda>_ ts. ts = (if c then g else []))"
  by (simp add: emits_def)

lemma emits_seq: "emits m (\<lambda>_ ts. ts = s) \<Longrightarrow> emits n (\<lambda>_ ts. ts = t) \<Longrightarrow> emits (do { m; n }) (\<lambda>_ ts. ts = s @ t)"
  by (rule emits_bind [where R = "\<lambda>_ ts. ts = s" and S = "\<lambda>_ _ ts. ts = t"]) auto

lemma emits_each: "(\<And>x. emits (m x) (\<lambda>_ ts. ts = g x)) \<Longrightarrow> emits (each xs m) (\<lambda>_ ts. ts = concat (map g xs))"
  by (induction xs) (auto intro: emits_return emits_seq)

definition event_writes :: "u16 \<Rightarrow> u16 \<Rightarrow> access list" where
  "event_writes Evt Half = (if Evt \<noteq> 0 \<and> Half \<ge> 2 then [Wr 2 (ucast Evt) 0xFFFF, Wr 2 (ucast (Evt + Half)) 0] else [])"

definition gpe_writes :: "u16 \<Rightarrow> u8 \<Rightarrow> access list" where
  "gpe_writes Blk Len = (if Blk \<noteq> 0
     then concat (map (\<lambda>i. [Wr 1 (ucast (Blk + of_nat i)) 0xFF, Wr 1 (ucast (Blk + ucast (Len div 2) + of_nat i)) 0]) [0..<unat (Len div 2)])
     else [])"

text \<open>Clearing all status bits and switching off all events that could wake the machine.\<close>
definition wake_writes :: "power \<Rightarrow> access list" where
  "wake_writes p = event_writes (Pm1aEvt p) (ucast (Pm1EvtLen p div 2)) @ event_writes (Pm1bEvt p) (ucast (Pm1EvtLen p div 2)) @
     gpe_writes (Gpe0Blk p) (Gpe0Len p) @ gpe_writes (Gpe1Blk p) (Gpe1Len p)"

lemma emits_events: "emits (ClearEvents Evt Half) (\<lambda>_ ts. ts = event_writes Evt Half)"
proof -
  have step: "emits (do { OutW P 0xFFFF; OutW Q 0 }) (\<lambda>_ ts. ts = [Wr 2 (ucast P) 0xFFFF, Wr 2 (ucast Q) 0])" for P Q
    using emits_seq [OF emits_access(1) emits_access(1), of P "0xFFFF" Q 0] by simp
  show ?thesis unfolding ClearEvents_def event_writes_def by (rule emits_when [OF step])
qed

lemma emits_gpe: "emits (ClearGpe Blk Len) (\<lambda>_ ts. ts = gpe_writes Blk Len)"
proof -
  have n: "unat (ucast (Len div 2) :: u16) = unat (Len div 2)" by (rule unat_ucast_le) simp
  have step: "emits (do { OutB P 0xFF; OutB Q 0 }) (\<lambda>_ ts. ts = [Wr 1 (ucast P) 0xFF, Wr 1 (ucast Q) 0])" for P Q
    using emits_seq [OF emits_access(2) emits_access(2), of P "0xFF" Q 0] by simp
  show ?thesis unfolding ClearGpe_def gpe_writes_def Let_def n by (rule emits_when [OF emits_each [OF step]])
qed

lemma emits_wake: "emits (ClearWakeSources p) (\<lambda>_ ts. ts = wake_writes p)"
  unfolding ClearWakeSources_def Let_def wake_writes_def by (intro emits_seq emits_events emits_gpe)

lemma emits_poll:
  assumes "emits test (\<lambda>_ ts. \<forall>x \<in> set ts. P x)" "emits wait (\<lambda>_ ts. \<forall>x \<in> set ts. P x)"
  shows "emits (poll n test wait) (\<lambda>_ ts. \<forall>x \<in> set ts. P x)"
proof (induction n)
  case (Suc n)
  have rest: "emits (if ok then ret True else do { wait; poll n test wait }) (\<lambda>_ ts. \<forall>x \<in> set ts. P x)" for ok
    by (cases ok) (auto intro!: emits_return emits_bind [OF assms(2) Suc])
  show ?case unfolding poll.simps by (rule emits_bind [OF assms(1) rest]) auto
qed (simp add: emits_return)

text \<open>While the hardware is taken over, nothing is written but the enable command.\<close>
definition asks :: "power \<Rightarrow> access \<Rightarrow> bool" where
  "asks p x \<longleftrightarrow> (case x of Wr n P v \<Rightarrow> n = 1 \<and> P = ucast (SmiCmd p) \<and> v = ucast (AcpiEnableValue p) | _ \<Rightarrow> True)"

lemma emits_enable: "emits (EnableAcpi p) (\<lambda>_ ts. \<forall>x \<in> set ts. asks p x)"
proof -
  have r: "emits (InW P) (\<lambda>_ ts. \<forall>x \<in> set ts. asks p x)" for P
    by (rule emits_weaken [OF emits_access(3)]) (simp add: asks_def)
  have w: "emits (OutB (SmiCmd p) (AcpiEnableValue p)) (\<lambda>_ ts. \<forall>x \<in> set ts. asks p x)"
    by (rule emits_weaken [OF emits_access(2)]) (simp add: asks_def)
  have pause: "emits (change (bus_pause k)) (\<lambda>_ ts. \<forall>x \<in> set ts. asks p x)" for k
    by (rule emits_weaken [OF emits_access(4)]) (simp add: asks_def)
  have opt: "emits m (\<lambda>_ ts. \<forall>x \<in> set ts. asks p x) \<Longrightarrow> emits (when_do b m) (\<lambda>_ ts. \<forall>x \<in> set ts. asks p x)" for b m
    by (cases b) (simp_all add: when_do_def emits_return)
  have seq: "emits m (\<lambda>_ ts. \<forall>x \<in> set ts. asks p x) \<Longrightarrow> (\<And>x. emits (f x) (\<lambda>_ ts. \<forall>x \<in> set ts. asks p x)) \<Longrightarrow>
      emits (m \<bind> f) (\<lambda>_ ts. \<forall>x \<in> set ts. asks p x)" for m :: "(bus, 'x) state" and f :: "'x \<Rightarrow> (bus, 'y) state"
    by (rule emits_bind [where R = "\<lambda>_ ts. \<forall>x \<in> set ts. asks p x" and S = "\<lambda>_ _ ts. \<forall>x \<in> set ts. asks p x"]) auto
  show ?thesis unfolding EnableAcpi_def
    by (intro opt seq r w emits_poll pause emits_return) auto
qed

text \<open>The bits of a control register that are kept: all but the sleep type (10 to 12) and the sleep enable bit (13), of what the
  hardware answers to the read with which the trace ends.\<close>
definition kept :: "(access list \<Rightarrow> u64) \<Rightarrow> access list \<Rightarrow> u16" where
  "kept R t = ucast (R t) AND 0xC3FF"

text \<open>Reading the second control register, if there is one, and writing it with the bits \<open>v\<close>.\<close>
definition second_control :: "power \<Rightarrow> (access list \<Rightarrow> u64) \<Rightarrow> u16 \<Rightarrow> access list \<Rightarrow> access list" where
  "second_control p R v t =
     (let B = ucast (Pm1bCnt p) in if Pm1bCnt p = 0 then [] else [Rd 2 B, Wr 2 B (ucast (kept R (t @ [Rd 2 B]) OR v))])"

text \<open>The first writes, with the sleep types, and the second ones, with the sleep enable bit as well, after the trace \<open>t\<close>.\<close>
definition type_writes :: "power \<Rightarrow> (access list \<Rightarrow> u64) \<Rightarrow> access list \<Rightarrow> access list" where
  "type_writes p R t =
     (let A = ucast (Pm1aCnt p); u = [Rd 2 A, Wr 2 A (ucast (kept R (t @ [Rd 2 A]) OR SlpTypA p))]
      in u @ second_control p R (SlpTypB p) (t @ u))"

definition enable_writes :: "power \<Rightarrow> (access list \<Rightarrow> u64) \<Rightarrow> access list \<Rightarrow> access list" where
  "enable_writes p R t =
     (let A = ucast (Pm1aCnt p); u = [Wr 2 A (ucast (kept R (t @ [Rd 2 A]) OR SlpTypA p OR 0x2000))]
      in u @ second_control p R (SlpTypB p OR 0x2000) (t @ type_writes p R t @ u))"

text \<open>A write that sets the sleep enable bit, and one that does not.\<close>
definition enabling :: "access \<Rightarrow> bool" where "enabling x = (case x of Wr n P v \<Rightarrow> bit v 13 | _ \<Rightarrow> True)"
definition not_enabling :: "access \<Rightarrow> bool" where "not_enabling x = (case x of Wr n P v \<Rightarrow> \<not> bit v 13 | _ \<Rightarrow> True)"

lemma control_mask: "NOT (0x1C00 OR SLP_EN) = 0xC3FF" by (simp add: SLP_EN_def)

lemma run_ReadControl:
  "run_state (ReadControl P) b = (kept (Respond b) (Trace b @ [Rd 2 (ucast P)]), b\<lparr>Trace := Trace b @ [Rd 2 (ucast P)]\<rparr>)"
proof -
  have "(ucast (take_bit 16 x :: u64) :: u16) = ucast x" for x by (rule bit_word_eqI) (auto simp: bit_simps)
  then show ?thesis
    unfolding ReadControl_def control_mask by (simp add: InW_def bus_read_def Let_def kept_def)
qed

lemma run_OutW: "run_state (OutW P v) b = ((), b\<lparr>Trace := Trace b @ [Wr 2 (ucast P) (ucast v)]\<rparr>)"
  by (simp add: OutW_def bus_write_def)

lemma run_EnterS5:
  "run_state (EnterS5 p) b = ((), b\<lparr>Trace := Trace b @ type_writes p (Respond b) (Trace b) @ enable_writes p (Respond b) (Trace b)\<rparr>)"
  by (simp add: EnterS5_def run_ReadControl run_OutW type_writes_def enable_writes_def second_control_def Let_def SLP_EN_def or.assoc)

lemma kept_bit: "\<not> bit (kept R t) 13"
  by (simp add: kept_def bit_and_iff)

lemma second_enabling:
  "\<not> bit v 13 \<Longrightarrow> list_all not_enabling (second_control p R v t)" "bit v 13 \<Longrightarrow> list_all enabling (second_control p R v t)"
  by (simp_all add: second_control_def Let_def enabling_def not_enabling_def bit_simps kept_bit)

text \<open>C35: The machine is switched off in the right order. A shutdown that is accepted first asks and takes over the
  hardware, writing nothing but the command that enables ACPI; then it clears every wake source and switches off its events; then it
  writes the sleep types to the control registers, with all other bits as read; then it writes each of them once more with the
  sleep enable bit; and then it waits. Every value written is the one that follows from what the hardware answers, whatever that is.
  When the sleep types are ones (three bits, so that bit 13 is clear), the sleep enable bit is in none of the first writes and in
  each of the second. A shutdown that is refused accesses nothing.\<close>
theorem PowerShutdown_order:
  "if Ready p \<and> S5Found p \<and> Pm1aCnt p \<noteq> 0
   then \<exists>ask. let t = Trace s @ ask @ wake_writes p
          in Trace (snd (run_state (PowerShutdown p) s)) = t @ type_writes p (Respond s) t @ enable_writes p (Respond s) t @ [Pause 300000000] \<and>
             list_all (asks p) ask \<and>
             (\<not> bit (SlpTypA p) 13 \<and> \<not> bit (SlpTypB p) 13 \<longrightarrow>
                list_all not_enabling (type_writes p (Respond s) t) \<and> list_all enabling (enable_writes p (Respond s) t))
   else run_state (PowerShutdown p) s = ([], s)"
proof (cases "Ready p \<and> S5Found p \<and> Pm1aCnt p \<noteq> 0")
  case True
  let ?Q = "\<lambda>_ ts. \<forall>x \<in> set ts. asks p x"
  have r: "emits (InW P) ?Q" for P by (rule emits_weaken [OF emits_access(3)]) (simp add: asks_def)
  have sts: "emits (if Pm1aEvt p \<noteq> 0 then InW (Pm1aEvt p) else ret 0) ?Q" using r by (simp add: emits_return)
  have pause: "emits (change (bus_pause k)) ?Q" for k
    by (rule emits_weaken [OF emits_access(4)]) (simp add: asks_def)
  obtain c b1 where 1: "run_state (InW (Pm1aCnt p)) s = (c, b1)" by (cases "run_state (InW (Pm1aCnt p)) s")
  obtain d b2 where 2: "run_state (if Pm1aEvt p \<noteq> 0 then InW (Pm1aEvt p) else ret 0) b1 = (d, b2)"
    by (cases "run_state (if Pm1aEvt p \<noteq> 0 then InW (Pm1aEvt p) else ret 0) b1")
  obtain b3 where 3: "run_state (change (bus_pause 4000)) b2 = ((), b3)" by simp
  obtain b4 where 4: "run_state (EnableAcpi p) b3 = ((), b4)" by (cases "run_state (EnableAcpi p) b3") simp
  obtain b5 where 5: "run_state (ClearWakeSources p) b4 = ((), b5)" by (cases "run_state (ClearWakeSources p) b4") simp
  obtain t1 where t1: "Trace b1 = Trace s @ t1" "Respond b1 = Respond s" "\<forall>x \<in> set t1. asks p x" using emits_run [OF r 1] by blast
  obtain t2 where t2: "Trace b2 = Trace b1 @ t2" "Respond b2 = Respond b1" "\<forall>x \<in> set t2. asks p x" using emits_run [OF sts 2] by blast
  obtain t3 where t3: "Trace b3 = Trace b2 @ t3" "Respond b3 = Respond b2" "\<forall>x \<in> set t3. asks p x" using emits_run [OF pause 3] by blast
  obtain t4 where t4: "Trace b4 = Trace b3 @ t4" "Respond b4 = Respond b3" "\<forall>x \<in> set t4. asks p x"
    using emits_run [OF emits_enable 4] by blast
  have t: "Trace b4 = Trace s @ t1 @ t2 @ t3 @ t4" "Respond b4 = Respond s" "list_all (asks p) (t1 @ t2 @ t3 @ t4)"
    using t1 t2 t3 t4 by (auto simp: list_all_iff)
  from emits_run [OF emits_wake 5] t have b5: "Trace b5 = Trace s @ (t1 @ t2 @ t3 @ t4) @ wake_writes p" "Respond b5 = Respond s"
    by simp_all
  define u where "u = Trace s @ (t1 @ t2 @ t3 @ t4) @ wake_writes p"
  have "Trace (snd (run_state (PowerShutdown p) s)) = u @ type_writes p (Respond s) u @ enable_writes p (Respond s) u @ [Pause 300000000]"
    using True 1 2 3 4 5 b5 unfolding u_def [symmetric]
    by (simp add: PowerShutdown_def run_EnterS5 LongDelay_def bus_pause_def del: run_if)
  moreover have "list_all not_enabling (type_writes p (Respond s) u) \<and> list_all enabling (enable_writes p (Respond s) u)"
    if "\<not> bit (SlpTypA p) 13" "\<not> bit (SlpTypB p) 13"
    using that second_enabling
    by (simp add: type_writes_def enable_writes_def Let_def enabling_def not_enabling_def bit_simps kept_bit)
  ultimately show ?thesis
    unfolding if_P [OF True] Let_def using t(3) unfolding u_def by blast
qed (auto simp: PowerShutdown_def)

section \<open>An example\<close>

text \<open>A definition block of 64 bytes at 1000: behind a use of the name that is no package comes a package with a length of
  two bytes and the sleep types 5 and 0, the second one written with a byte prefix.\<close>
definition demo_table :: "u8 list" where
  "demo_table = [68, 83, 68, 84, 64, 0, 0, 0] @ replicate 28 0 @ [0x5F, 0x53, 0x35, 0x5F, 0] @
     [0x5F, 0x53, 0x35, 0x5F, 0x12, 0x48, 0, 4, 0x0A, 5, 0x0A, 0] @ replicate 11 0"

definition demo_memory :: memory where
  "demo_memory a = (if 1000 \<le> a \<and> a < 1064 then demo_table ! unat (a - 1000) else 0)"

lemma ParseS5_correct_witness: "ParseS5 demo_memory 1000 = Some (push_bit 10 5, push_bit 10 0)"
proof -
  have len: "table_length demo_memory 1000 = 64" by (simp add: table_length_def demo_memory_def demo_table_def)
  have "holds demo_memory (1000 + of_nat 41) ([0x5F, 0x53, 0x35, 0x5F] @ [0x12] @ [0x48, 0] @ [4] @ [0x0A, 5] @ [0x0A, 0])"
    by code_simp
  moreover have "pkglen_ok [0x48, 0]" by code_simp
  ultimately have "s5_package demo_memory (1000 + of_nat 41) 5 0"
    unfolding s5_package_def
    by (intro exI [of _ "[0x48, 0]"] exI [of _ 4] exI [of _ "[0x0A, 5]"] exI [of _ "[0x0A, 0]"] conjI) (simp_all add: byte_integer_def)
  moreover have "\<not> s5_package demo_memory (1000 + of_nat j) A B" if "36 \<le> j \<and> j < 41" for j A B
  proof -
    from that have "j \<in> {36, 37, 38, 39, 40}" by auto
    moreover have "\<not> holds demo_memory (1000 + of_nat 36) [0x5F, 0x53, 0x35, 0x5F, 0x12]"
      "\<not> holds demo_memory (1000 + of_nat 37) [0x5F, 0x53, 0x35, 0x5F, 0x12]" "\<not> holds demo_memory (1000 + of_nat 38) [0x5F, 0x53, 0x35, 0x5F, 0x12]"
      "\<not> holds demo_memory (1000 + of_nat 39) [0x5F, 0x53, 0x35, 0x5F, 0x12]" "\<not> holds demo_memory (1000 + of_nat 40) [0x5F, 0x53, 0x35, 0x5F, 0x12]"
      by code_simp+
    ultimately have no: "\<not> holds demo_memory (1000 + of_nat j) [0x5F, 0x53, 0x35, 0x5F, 0x12]" by auto
    have "holds demo_memory (1000 + of_nat j) ([0x5F, 0x53, 0x35, 0x5F, 0x12] @ r) \<Longrightarrow> False" for r
      using no unfolding holds_append by blast
    then show ?thesis unfolding s5_package_def by auto
  qed
  ultimately have place: "36 \<le> (41 :: nat) \<and> 41 + 12 < table_length demo_memory 1000 \<and> s5_package demo_memory (1000 + of_nat 41) 5 0 \<and>
      push_bit 10 5 = (push_bit 10 (ucast (5 :: u8)) :: u16) \<and> push_bit 10 0 = (push_bit 10 (ucast (0 :: u8)) :: u16) \<and>
      (\<forall>j. 36 \<le> j \<and> j < 41 \<longrightarrow> (\<forall>A B. \<not> s5_package demo_memory (1000 + of_nat j) A B))"
    using len by simp
  have "44 \<le> table_length demo_memory 1000" "table_length demo_memory 1000 \<le> 0x1000000" using len by simp_all
  then show ?thesis
    by (intro ParseS5_correct [THEN iffD2] conjI) (assumption, assumption, rule exI [of _ 41], rule exI [of _ 5], rule exI [of _ 0], rule place)
qed

text \<open>A machine with both control registers, sleep types 5 and no wake sources, whose registers read 0x3C01.\<close>
definition demo_power :: power where
  "demo_power = power_init\<lparr>Pm1aCnt := 0x1804, Pm1bCnt := 0x1904, SlpTypA := 0x1400, SlpTypB := 0x1400, S5Found := True, Ready := True\<rparr>"

lemma PowerShutdown_order_witness:
  "\<exists>ask. Trace (snd (run_state (PowerShutdown demo_power) \<lparr>Respond = (\<lambda>_. 0x3C01), Trace = []\<rparr>)) = ask @
     [Rd 2 0x1804, Wr 2 0x1804 0x1401, Rd 2 0x1904, Wr 2 0x1904 0x1401, Wr 2 0x1804 0x3401, Rd 2 0x1904, Wr 2 0x1904 0x3401, Pause 300000000]
     \<and> list_all (asks demo_power) ask \<and> list_all not_enabling [Rd 2 0x1804, Wr 2 0x1804 0x1401, Rd 2 0x1904, Wr 2 0x1904 0x1401]"
proof -
  let ?R = "(\<lambda>_. 0x3C01) :: access list \<Rightarrow> u64"
  let ?s = "\<lparr>Respond = ?R, Trace = []\<rparr> :: bus"
  have good: "Ready demo_power \<and> S5Found demo_power \<and> Pm1aCnt demo_power \<noteq> 0" "\<not> bit (SlpTypA demo_power) 13" "\<not> bit (SlpTypB demo_power) 13"
    by (simp_all add: demo_power_def bit_numeral_simps)
  have t: "wake_writes demo_power = []"
    "type_writes demo_power ?R t = [Rd 2 0x1804, Wr 2 0x1804 0x1401, Rd 2 0x1904, Wr 2 0x1904 0x1401]"
    "enable_writes demo_power ?R t = [Wr 2 0x1804 0x3401, Rd 2 0x1904, Wr 2 0x1904 0x3401]" for t
    by (simp_all add: wake_writes_def event_writes_def gpe_writes_def type_writes_def enable_writes_def second_control_def kept_def
        demo_power_def power_init_def)
  from PowerShutdown_order [of demo_power ?s, unfolded if_P [OF good(1)]] good(2,3) show ?thesis
    by (simp add: t Let_def) blast
qed

end
