(* ===== verification/Commands.thy ===== *)
theory Commands
  imports Explorer Acpi Console
begin

text \<open>
  The commands of the shell (\<open>kernel/shell.c\<close>) and the console player they use (\<open>PlayWavFile\<close> in
  \<open>kernel/player.c\<close>). The state of the kernel is the desk with the explorer, the text console, which draws into the same
  frame buffer, and what the start-up has found. A command may not return, as the tab loop of the console may not,
  so it is a partial function. What happens while a command waits or runs a program of its own comes in as an
  input: the interrupts and ticks of its rounds. The command that scans the USB ports is a parameter, as its drivers are not
  modelled.
\<close>

section \<open>State\<close>

record kernel =
  Dsk :: explorer
  Con :: console
  GlobalHdaStatus :: hda_status
  GlobalHdaFound :: bool
  Pwr :: power
  InProgram :: bool
  PoweredOff :: bool

type_synonym command = "kernel \<Rightarrow> kernel option"

text \<open>What comes from outside during a command: its tick, the rounds of the explorer and those of the player.\<close>
record session =
  SessionTick :: u64
  ExplorerSession :: "(irq list \<times> u64 \<times> (irq list \<times> u64) list) list"
  PlayerSession :: "irq list list"

definition files :: "kernel \<Rightarrow> player" where "files k = Files (Dsk k)"
definition set_files :: "player \<Rightarrow> kernel \<Rightarrow> kernel" where "set_files p k = k\<lparr>Dsk := (Dsk k)\<lparr>Files := p\<rparr>\<rparr>"

text \<open>A sequence of steps, each of which may not return.\<close>
primrec steps :: "('s \<Rightarrow> 's option) list \<Rightarrow> 's \<Rightarrow> 's option" where
  "steps [] k = Some k"
| "steps (c # cs) k = (case c k of None \<Rightarrow> None | Some k \<Rightarrow> steps cs k)"

text \<open>The console and the graphical programs share one frame buffer.\<close>
definition on_console :: "(console \<Rightarrow> console option) \<Rightarrow> command" where
  "on_console f k =
     (case f ((Con k)\<lparr>Frame := Frame (Dsk k)\<rparr>) of
        None \<Rightarrow> None
      | Some c \<Rightarrow> Some (k\<lparr>Con := c, Dsk := (Dsk k)\<lparr>Frame := Frame c\<rparr>\<rparr>))"

definition print :: "cstring \<Rightarrow> command" where "print s = on_console (ConsolePrint s)"
definition put :: "u8 \<Rightarrow> command" where "put c = on_console (ConsolePutChar c)"
definition print_uint :: "u64 \<Rightarrow> command" where "print_uint v = on_console (ConsolePrintUInt v)"
definition print_hex :: "u64 \<Rightarrow> int \<Rightarrow> command" where "print_hex v n = on_console (ConsolePrintHex v n)"
definition set_attr :: "u8 \<Rightarrow> command" where "set_attr a = on_console (\<lambda>c. Some (ConsoleSetAttr a c))"
definition flush :: command where "flush = on_console (\<lambda>c. Some (ConsoleFlush c))"

definition CONSOLE_ATTR_ACCENT :: u8 where "CONSOLE_ATTR_ACCENT = 1"
definition CONSOLE_ATTR_ERROR :: u8 where "CONSOLE_ATTR_ERROR = 2"
definition CONSOLE_ATTR_DIM :: u8 where "CONSOLE_ATTR_DIM = 3"

text \<open>A program of the hardware.\<close>
definition on_bus :: "(bus, 'x) state \<Rightarrow> kernel \<Rightarrow> 'x \<times> kernel" where
  "on_bus m k = (case run_state m (HdaBus (files k)) of (x, b) \<Rightarrow> (x, set_files ((files k)\<lparr>HdaBus := b\<rparr>) k))"

definition on_files :: "(player, 'x) state \<Rightarrow> kernel \<Rightarrow> 'x \<times> kernel" where
  "on_files m k = (case run_state m (files k) of (x, p) \<Rightarrow> (x, set_files p k))"

section \<open>Text\<close>

definition LowerChar :: "u8 \<Rightarrow> u8" where
  "LowerChar c = (if chr_code CHR ''A'' \<le> c \<and> c \<le> chr_code CHR ''Z'' then c - chr_code CHR ''A'' + chr_code CHR ''a'' else c)"

fun LineHasPrefix :: "cstring \<Rightarrow> cstring \<Rightarrow> bool" where
  "LineHasPrefix Ln [] = True"
| "LineHasPrefix [] (p # ps) = False"
| "LineHasPrefix (c # cs) (p # ps) = (if c = 10 \<or> LowerChar c \<noteq> LowerChar p then False else LineHasPrefix cs ps)"

definition PrintPadded :: "cstring \<Rightarrow> nat \<Rightarrow> command" where
  "PrintPadded Txt Width = steps (map put Txt @ replicate (Width - length Txt) (put (chr_code CHR '' '')))"

text \<open>\<open>AppendUInt\<close> and \<open>AppendText\<close> write behind what is in the buffer.\<close>
definition AppendUInt :: "cstring \<Rightarrow> u64 \<Rightarrow> cstring" where "AppendUInt Out Value = Out @ dec_text Value"
definition AppendText :: "cstring \<Rightarrow> cstring \<Rightarrow> cstring" where "AppendText Out Txt = Out @ Txt"

definition FormatSize :: "u64 \<Rightarrow> cstring" where
  "FormatSize Sectors =
     (let Bytes = Sectors * 512
      in if Sectors = 0 then lit ''-''
      else if Bytes \<ge> push_bit 30 1
      then (let Mb = drop_bit 20 Bytes; Tenths = Mb * 10 div 1024;
                Out = AppendUInt [] (Tenths div 10);
                Out = AppendText Out (lit ''.'');
                Out = AppendUInt Out (Tenths mod 10)
            in AppendText Out (lit '' GB''))
      else if Bytes \<ge> push_bit 20 1 then AppendText (AppendUInt [] (drop_bit 20 Bytes)) (lit '' MB'')
      else AppendText (AppendUInt [] (drop_bit 10 Bytes)) (lit '' KB''))"

text \<open>The digits, most significant first, of a number of the base given; \<open>None\<close> at a character that is no digit.\<close>
fun DigitLoop :: "u32 \<Rightarrow> cstring \<Rightarrow> u32 \<Rightarrow> u32 option" where
  "DigitLoop Base [] Value = Some Value"
| "DigitLoop Base (c # cs) Value =
     (if chr_code CHR ''0'' \<le> c \<and> c \<le> chr_code CHR ''9'' then DigitLoop Base cs (Value * Base + ucast (c - chr_code CHR ''0''))
      else if Base = 16 \<and> chr_code CHR ''a'' \<le> c \<and> c \<le> chr_code CHR ''f''
      then DigitLoop Base cs (Value * Base + ucast (c - chr_code CHR ''a'' + 10))
      else if Base = 16 \<and> chr_code CHR ''A'' \<le> c \<and> c \<le> chr_code CHR ''F''
      then DigitLoop Base cs (Value * Base + ucast (c - chr_code CHR ''A'' + 10))
      else None)"

definition ParseNumber :: "cstring \<Rightarrow> u32 option" where
  "ParseNumber Txt =
     (let Hex = (take 1 Txt = lit ''0'' \<and> (take 1 (drop 1 Txt) = lit ''x'' \<or> take 1 (drop 1 Txt) = lit ''X''));
          Digits = (if Hex then drop 2 Txt else Txt)
      in if Digits = [] then None else DigitLoop (if Hex then 16 else 10) Digits 0)"

section \<open>Messages\<close>

definition error_line :: "string \<Rightarrow> command" where
  "error_line s = steps [set_attr CONSOLE_ATTR_ERROR, print (lit s @ [10]), set_attr CONSOLE_ATTR_NORMAL]"

definition PrintKeyValue :: "string \<Rightarrow> u64 \<Rightarrow> command" where
  "PrintKeyValue Key Value = steps [print (lit Key), print (lit '': ''), print_uint Value]"

definition PrintFsError :: "int \<Rightarrow> command" where
  "PrintFsError Status =
     steps [set_attr CONSOLE_ATTR_ERROR, print (lit (FsErrorText Status)), put 10, set_attr CONSOLE_ATTR_NORMAL]"

section \<open>Simple commands\<close>

definition CmdClear :: command where "CmdClear = on_console (\<lambda>c. Some (ConsoleClear c))"

definition CmdEcho :: "cstring list \<Rightarrow> command" where
  "CmdEcho Argv =
     steps (concat (map (\<lambda>i. (if i > 1 then [put (chr_code CHR '' '')] else []) @ [print (Argv ! i)]) [1..<length Argv]) @ [put 10])"

definition CmdMem :: command where
  "CmdMem k =
     (let Free = GetFreePageCount (Phys (files k)); Total = GetTotalPageCount (Phys (files k))
      in steps [print (lit ''Pages free/total: ''), print_uint Free, print (lit '' / ''), print_uint Total, put 10,
           print (lit ''Memory free/total: ''), print_uint (Free div 256), print (lit '' MB / ''), print_uint (Total div 256),
           print (lit '' MB'' @ [10])] k)"

definition PciRead :: "u8 \<Rightarrow> u8 \<Rightarrow> u8 \<Rightarrow> u8 \<Rightarrow> (bus, u32) state" where
  "PciRead Bus Dev Fn Off = do {
     OutL 0xCF8 (0x80000000 OR push_bit 16 (ucast Bus) OR push_bit 11 (ucast Dev) OR push_bit 8 (ucast Fn) OR (ucast Off AND 0xFC));
     InL 0xCFC }"

definition PciClassName :: "u8 \<Rightarrow> u8 \<Rightarrow> u8 \<Rightarrow> string" where
  "PciClassName Base Sub Prog =
     (if Base = 0x01 then (if Sub = 0x08 then ''NVMe'' else if Sub = 0x06 then ''SATA'' else if Sub = 0x01 then ''IDE'' else ''Storage'')
      else if Base = 0x02 then ''Network''
      else if Base = 0x03 then ''Display''
      else if Base = 0x04 then (if Sub = 0x03 then ''Audio (HDA)'' else if Sub = 0x01 then ''Audio'' else ''Multimedia'')
      else if Base = 0x05 then ''Memory''
      else if Base = 0x06
      then (if Sub = 0x00 then ''Host bridge'' else if Sub = 0x01 then ''ISA bridge'' else if Sub = 0x04 then ''PCI bridge'' else ''Bridge'')
      else if Base = 0x07 then ''Communication''
      else if Base = 0x08 then ''System''
      else if Base = 0x09 then ''Input''
      else if Base = 0x0C
      then (if Sub = 0x03
            then (if Prog = 0x00 then ''USB UHCI'' else if Prog = 0x10 then ''USB OHCI'' else if Prog = 0x20 then ''USB EHCI''
                  else if Prog = 0x30 then ''USB xHCI'' else ''USB'')
            else if Sub = 0x05 then ''SMBus'' else ''Serial bus'')
      else if Base = 0x0D then ''Wireless''
      else ''Other'')"

definition LspciFunction :: "u8 \<Rightarrow> u8 \<Rightarrow> u8 \<Rightarrow> command" where
  "LspciFunction Bus Dev Fn k =
     (case on_bus (PciRead Bus Dev Fn 0) k of (IdReg, k) \<Rightarrow>
        if IdReg AND 0xFFFF = 0xFFFF then Some k
        else case on_bus (PciRead Bus Dev Fn 0x08) k of (Class, k) \<Rightarrow>
          steps [print_hex (ucast Bus) 2, put (chr_code CHR '':''), print_hex (ucast Dev) 2, put (chr_code CHR ''.''),
            print_hex (ucast Fn) 1, print (lit ''  ''), print_hex (ucast (IdReg AND 0xFFFF)) 4, put (chr_code CHR '':''),
            print_hex (ucast (drop_bit 16 IdReg)) 4, print (lit ''  ''),
            print (lit (PciClassName (ucast (drop_bit 24 Class)) (ucast (drop_bit 16 Class)) (ucast (drop_bit 8 Class)))), put 10] k)"

definition LspciDevice :: "u8 \<Rightarrow> u8 \<Rightarrow> command" where
  "LspciDevice Bus Dev k =
     (case on_bus (PciRead Bus Dev 0 0) k of (First, k) \<Rightarrow>
        if First AND 0xFFFF = 0xFFFF then Some k
        else case on_bus (PciRead Bus Dev 0 0x0C) k of (r, k) \<Rightarrow>
          let Header = (ucast (drop_bit 16 r) :: u8); FnCount = (if Header AND 0x80 \<noteq> 0 then 8 else 1)
          in steps (map (\<lambda>Fn. LspciFunction Bus Dev (of_nat Fn)) [0..<FnCount]) k)"

definition CmdLspci :: command where
  "CmdLspci = steps (concat (map (\<lambda>Bus. map (\<lambda>Dev. LspciDevice (of_nat Bus) (of_nat Dev)) [0..<32]) [0..<256]))"

definition CmdDisks :: command where
  "CmdDisks k =
     (if BlockDeviceCount (Blocks (files k)) = 0 then error_line ''No block devices'' k
      else steps (concat (map (\<lambda>i. [print (BlockDeviceName (Blocks (files k)) i), put 10])
             [0..BlockDeviceCount (Blocks (files k)) - 1])) k)"

definition IsMounted :: "cstring \<Rightarrow> kernel \<Rightarrow> bool" where
  "IsMounted Nm k \<longleftrightarrow> list_ex (\<lambda>v. str_eq (FsVolumeName (files k) v) Nm) [0..FsVolumeCount (files k) - 1]"

definition LsblkPart :: "part_info \<Rightarrow> command" where
  "LsblkPart P k =
     steps [print (lit ''  ''), PrintPadded (PartName P) 10, PrintPadded (FormatSize (PartSectors P)) 11,
       PrintPadded (lit (if PartScheme P = PART_SCHEME_GPT then ''GPT'' else if PartScheme P = PART_SCHEME_MBR then ''MBR'' else ''none'')) 7,
       PrintPadded (lit (PartTypeName P)) 22, PrintPadded (lit (PartFsName (PartFs P))) 10,
       print (lit (if IsMounted (PartName P) k then ''mounted'' else ''-'')), put 10] k"

definition CmdLsblk :: command where
  "CmdLsblk k =
     (let B = Blocks (files k)
      in if BlockDeviceCount B = 0 then error_line ''No block devices'' k
      else steps ([set_attr CONSOLE_ATTR_DIM, PrintPadded (lit ''NAME'') 12, PrintPadded (lit ''SIZE'') 11, PrintPadded (lit ''TABLE'') 7,
             PrintPadded (lit ''TYPE'') 22, PrintPadded (lit ''FS'') 10, print (lit ''STATE'' @ [10]), set_attr CONSOLE_ATTR_NORMAL] @
           concat (map (\<lambda>d.
             [set_attr CONSOLE_ATTR_ACCENT, print (BlockDeviceName B d), put 10, set_attr CONSOLE_ATTR_NORMAL] @
             map LsblkPart (filter (\<lambda>P. PartDevice P = d) (Parts (files k)))) [0..BlockDeviceCount B - 1])) k)"

section \<open>Files\<close>

definition FAT_ATTR_READ_ONLY :: u8 where "FAT_ATTR_READ_ONLY = 0x01"

definition PrintEntryLine :: "fat_entry \<Rightarrow> command" where
  "PrintEntryLine E =
     steps ([print (lit [if EntryAttr E AND FAT_ATTR_READ_ONLY \<noteq> 0 then CHR ''r'' else CHR ''-'',
                        if EntryAttr E AND FAT_ATTR_HIDDEN \<noteq> 0 then CHR ''h'' else CHR ''-'',
                        if EntryAttr E AND FAT_ATTR_SYSTEM \<noteq> 0 then CHR ''s'' else CHR ''-'', CHR '' ''])] @
       (if EntryAttr E AND FAT_ATTR_DIRECTORY \<noteq> 0
        then [set_attr CONSOLE_ATTR_ACCENT, PrintPadded (lit ''<DIR>'') 11, print (EntryName E), set_attr CONSOLE_ATTR_NORMAL]
        else let Txt = AppendUInt [] (ucast (EntrySize E))
             in replicate (10 - length Txt) (put (chr_code CHR '' '')) @ [print Txt, put (chr_code CHR '' ''), print (EntryName E)]) @
       [put 10])"

text \<open>The callback of the listing prints as it goes; its context is the count and the kernel, unless the console
  has not returned.\<close>
definition LsCallback :: "(nat \<times> kernel option) dir_cb" where
  "LsCallback E ctx = (False, (fst ctx + 1, case snd ctx of None \<Rightarrow> None | Some k \<Rightarrow> PrintEntryLine E k))"

definition CmdLs :: "cstring list \<Rightarrow> command" where
  "CmdLs Argv k =
     (if FsVolumeCount (files k) = 0 then error_line ''No FAT32 volumes mounted (see lsblk)'' k
      else case on_files (State (FsResolve (if length Argv > 1 then Argv ! 1 else lit ''.''))) k of
        (Inl Status, k) \<Rightarrow> PrintFsError Status k
      | (Inr N, k) \<Rightarrow>
          if \<not> NodeIsDir N then PrintEntryLine (NodeEntry N) k
          else case FsList N LsCallback (0, Some k) (files k) of (Status, (Count, r), p) \<Rightarrow>
            (case r of None \<Rightarrow> None
             | Some k \<Rightarrow>
                 let k = set_files p k
                 in if Status \<noteq> FS_OK then PrintFsError Status k
                 else steps [set_attr CONSOLE_ATTR_DIM, print_uint (of_nat Count),
                        print (lit (if Count = 1 then '' entry'' else '' entries'') @ [10]), set_attr CONSOLE_ATTR_NORMAL] k))"

definition CmdPwd :: command where
  "CmdPwd k =
     (if \<not> FsHasCwd (files k) then PrintFsError FS_ERR_NOVOLUME k
      else steps [print (FsCwdVolume (files k)), put (chr_code CHR '':''), print (CwdPathText (files k)), put 10] k)"

definition CmdCd :: "cstring list \<Rightarrow> command" where
  "CmdCd Argv k =
     (if length Argv < 2 then CmdPwd k
      else case on_files (State (FsChdir (Argv ! 1))) k of (Status, k) \<Rightarrow>
        if Status \<noteq> FS_OK then PrintFsError Status k else Some k)"

text \<open>A row of 16 bytes, or what is left of them.\<close>
definition HexRow :: "u32 \<Rightarrow> u8 list \<Rightarrow> command" where
  "HexRow Offset Row =
     steps ([print_hex (ucast Offset) 8, print (lit ''  '')] @
       concat (map (\<lambda>j. if j < length Row then [print_hex (ucast (Row ! j)) 2, put (chr_code CHR '' '')] else [print (lit ''   '')]) [0..<16]) @
       [put (chr_code CHR '' '')] @
       map (\<lambda>c. put (if 32 \<le> c \<and> c \<le> 126 then c else chr_code CHR ''.'')) Row @ [put 10])"

definition CmdHexdump :: "cstring list \<Rightarrow> command" where
  "CmdHexdump Argv k =
     (if length Argv < 2 then print (lit ''usage: hexdump <file> [offset] [length]'' @ [10]) k
      else case (if length Argv > 2 then ParseNumber (Argv ! 2) else Some 0) of
        None \<Rightarrow> print (lit ''bad offset'' @ [10]) k
      | Some Offset \<Rightarrow>
      case (if length Argv > 3 then ParseNumber (Argv ! 3) else Some 128) of
        None \<Rightarrow> print (lit ''bad length'' @ [10]) k
      | Some Want \<Rightarrow>
      let Len = (if Want > 512 then 512 else Want)
      in case on_files (State (FsResolve (Argv ! 1))) k of
        (Inl Status, k) \<Rightarrow> PrintFsError Status k
      | (Inr N, k) \<Rightarrow>
          if NodeIsDir N then print (lit ''is a directory'' @ [10]) k
          else case on_files (fs_read N Offset Len) k of ((Got, Bytes), k) \<Rightarrow>
            steps (map (\<lambda>i. HexRow (Offset + of_nat (16 * i)) (take 16 (drop (16 * i) (take (unat Got) Bytes)))) [0..<(unat Got + 15) div 16] @
              (if Got = 0 then [print (lit ''nothing to read at this offset'' @ [10])] else [])) k)"

definition cat_char :: "u8 \<Rightarrow> command" where
  "cat_char c = (if c = 10 \<or> c = 9 then put c
     else if 32 \<le> c \<and> c \<le> 126 then put c
     else if c \<noteq> 13 then put (chr_code CHR ''.'') else Some)"

text \<open>The loop of \<open>cat\<close>, up to the limit of 64 KB; the result is the offset reached.\<close>
function CatLoop :: "fs_node \<Rightarrow> nat \<Rightarrow> kernel \<Rightarrow> (nat \<times> kernel) option" where
  "CatLoop N Offset k =
     (if Offset < 65536
      then case on_files (fs_read N (of_nat Offset) 1024) k of ((Got, Chunk), k) \<Rightarrow>
        if Got = 0 then Some (Offset, k)
        else (case steps (map cat_char (take (unat Got) Chunk)) k of
                None \<Rightarrow> None
              | Some k \<Rightarrow> CatLoop N (Offset + unat Got) k)
      else Some (Offset, k))"
  by pat_completeness auto
termination
  by (relation "measure (\<lambda>(N, Offset, k). 65536 - Offset)") (auto simp: unat_gt_0 intro!: diff_less_mono2)

declare CatLoop.simps [simp del]

definition CmdCat :: "cstring list \<Rightarrow> command" where
  "CmdCat Argv k =
     (if length Argv < 2 then print (lit ''usage: cat <file>'' @ [10]) k
      else case on_files (State (FsResolve (Argv ! 1))) k of
        (Inl Status, k) \<Rightarrow> PrintFsError Status k
      | (Inr N, k) \<Rightarrow>
          if NodeIsDir N then error_line ''is a directory'' k
          else case CatLoop N 0 k of None \<Rightarrow> None
          | Some (Offset, k) \<Rightarrow>
              steps ((if Offset < unat (EntrySize (NodeEntry N))
                      then [set_attr CONSOLE_ATTR_DIM, print ([10] @ lit ''[truncated at 64 KB]''), set_attr CONSOLE_ATTR_NORMAL] else []) @
                [put 10]) k)"

section \<open>The log and the audio controller\<close>

definition bool_value :: "bool \<Rightarrow> u64" where "bool_value b = (if b then 1 else 0)"

definition CmdHda :: command where
  "CmdHda k =
     (let S = GlobalHdaStatus k; gap = print (lit ''  '')
      in if \<not> GlobalHdaFound k then error_line ''HDA controller not found'' k
      else steps
        [PrintKeyValue ''codec'' (bool_value (StCodecFound S)), gap, PrintKeyValue ''corb'' (ucast (StCorbEntriesUsed S)), gap,
         PrintKeyValue ''rirb'' (ucast (StRirbEntriesUsed S)), put 10,
         PrintKeyValue ''fgcount'' (ucast (StRootFgCount S)), gap, PrintKeyValue ''fgstart'' (ucast (StFgStartNid S)), gap,
         PrintKeyValue ''afg'' (bool_value (StAfgFound S)), print (lit ''  fgtype: 0x''), print_hex (ucast (StLastFgTypeRaw S)) 1, put 10,
         PrintKeyValue ''wp1'' (ucast (StWpAfterFirst S)), gap, PrintKeyValue ''wp2'' (ucast (StWpBeforeSecond S)), gap,
         PrintKeyValue ''corbwp'' (ucast (StCorbWpReadback S)), gap, PrintKeyValue ''corbrp'' (ucast (StCorbRpAfterFirst S)), gap,
         PrintKeyValue ''corbsts'' (ucast (StCorbSts S)), print (lit ''  repeat: 0x''), print_hex (ucast (StRepeatSameCallRaw S)) 1, put 10,
         PrintKeyValue ''widgets'' (ucast (StWidgetCount S)), gap, PrintKeyValue ''dac'' (bool_value (StDacFound S)), gap,
         PrintKeyValue ''pin'' (bool_value (StPinFound S)), gap, PrintKeyValue ''path'' (bool_value (StPathLinked S)), gap,
         PrintKeyValue ''stream'' (bool_value (StStreamStarted S)), put 10] k)"

text \<open>The lines of the log that begin with the prefix.\<close>
function DmesgLoop :: "cstring \<Rightarrow> cstring \<Rightarrow> command" where
  "DmesgLoop Prefix Txt k =
     (if Txt = [] then Some k
      else let Match = LineHasPrefix Txt Prefix; Ln = takeWhile (\<lambda>c. c \<noteq> 10) Txt; Rest = dropWhile (\<lambda>c. c \<noteq> 10) Txt
      in case steps ((if Match then map put Ln else []) @ (if Match \<and> Rest \<noteq> [] then [put 10] else [])) k of
           None \<Rightarrow> None
         | Some k \<Rightarrow> DmesgLoop Prefix (drop 1 Rest) k)"
  by pat_completeness auto
termination
proof (relation "measure (\<lambda>(Prefix, Txt, k). length Txt)", goal_cases)
  case (2 Prefix Txt k Match Ln Rest y)
  have "length (dropWhile (\<lambda>c. c \<noteq> 10) Txt) \<le> length Txt" by (rule length_dropWhile_le)
  then show ?case using 2 by (cases Txt) (auto simp: length_dropWhile_le less_Suc_eq_le intro: le_trans [OF diff_le_self])
qed simp

declare DmesgLoop.simps [simp del]

definition CmdDmesg :: "cstring list \<Rightarrow> command" where
  "CmdDmesg Argv k =
     (case KLogText (Log (files k)) of (Txt, l) \<Rightarrow>
        let k = set_files ((files k)\<lparr>Log := l\<rparr>) k
        in if length Argv < 2 then print Txt k else DmesgLoop (Argv ! 1) Txt k)"

definition no_stream :: "kernel \<Rightarrow> bool" where
  "no_stream k \<longleftrightarrow> \<not> GlobalHdaFound k \<or> \<not> StStreamStarted (GlobalHdaStatus k)"

definition CmdBeep :: command where
  "CmdBeep k =
     (if no_stream k then error_line ''HDA stream is not available'' k
      else steps [print (lit ''Playing test tone...'' @ [10]), flush, \<lambda>k. Some (snd (on_files HdaPlayTestTone k))] k)"

section \<open>Playing a file on the console\<close>

definition PlayError :: "cstring \<Rightarrow> command" where
  "PlayError Txt = steps [set_attr CONSOLE_ATTR_ERROR, print Txt, put 10, set_attr CONSOLE_ATTR_NORMAL]"

definition PrintTime :: "u32 \<Rightarrow> command" where
  "PrintTime Seconds =
     steps ([print_uint (ucast (Seconds div 60)), put (chr_code CHR '':'')] @
       (if Seconds mod 60 < 10 then [put (chr_code CHR ''0'')] else []) @ [print_uint (ucast (Seconds mod 60))])"

definition drain :: "kernel \<Rightarrow> kernel" where
  "drain k = k\<lparr>Dsk := drain_keys KEY_BUFFER_SIZE (Dsk k)\<rparr>"

text \<open>Whether a key was waiting; all that wait are taken.\<close>
definition AbortRequested :: "kernel \<Rightarrow> bool \<times> kernel" where
  "AbortRequested k = (fst (GetKey (Dsk k)) \<noteq> 0, drain k)"

definition interrupts :: "irq list \<Rightarrow> kernel \<Rightarrow> kernel" where
  "interrupts irqs k = k\<lparr>Dsk := fold desk_irq irqs (Dsk k)\<rparr>"

text \<open>The time line, when the second has changed.\<close>
definition PlayProgress :: "u32 \<Rightarrow> u32 \<Rightarrow> command" where
  "PlayProgress LastShown Seconds k =
     (if Seconds = LastShown then Some k
      else steps [put 13, PrintTime Seconds, put (chr_code CHR ''/''), PrintTime (PubTotalSeconds (Public (files k))), flush] k)"

datatype playing = Goes u32 | Ended bool

text \<open>A round of the loop up to its \<open>Sleep\<close>: it goes on with the second shown, or is over, aborted or not.\<close>
definition PlayRound :: "u32 \<Rightarrow> kernel \<Rightarrow> (playing \<times> kernel) option" where
  "PlayRound LastShown k =
     (if \<not> Active (files k) then Some (Ended False, k)
      else let k = snd (on_files PlayerPoll k)
      in if \<not> Active (files k) then Some (Ended False, k)
      else case AbortRequested k of (Abort, k) \<Rightarrow>
      if Abort then Some (Ended True, snd (on_files PlayerStop k))
      else case on_files PlayerElapsedSeconds k of (Seconds, k) \<Rightarrow>
      (case PlayProgress LastShown Seconds k of None \<Rightarrow> None
       | Some k \<Rightarrow> Some (Goes Seconds, snd (on_bus (change (bus_pause 2)) k))))"

text \<open>The loop over the interrupts of its waits. When they run out it is still going on.\<close>
fun PlayLoop :: "irq list list \<Rightarrow> u32 \<Rightarrow> kernel \<Rightarrow> (playing \<times> kernel) option" where
  "PlayLoop [] LastShown k = PlayRound LastShown k"
| "PlayLoop (irqs # rs) LastShown k =
     (case PlayRound LastShown k of
        None \<Rightarrow> None
      | Some (Ended Aborted, k) \<Rightarrow> Some (Ended Aborted, k)
      | Some (Goes Seconds, k) \<Rightarrow> PlayLoop rs Seconds (interrupts irqs k))"

definition PlayHeader :: "player_info \<Rightarrow> command" where
  "PlayHeader P =
     steps [print_uint (ucast (PubSampleRate P)), print (lit '' Hz, ''), print_uint (ucast (PubBitsPerSample P)), print (lit ''-bit, ''),
       print_uint (ucast (PubChannels P)), print (lit (if PubChannels P = 1 then '' channel, '' else '' channels, '')),
       PrintTime (PubTotalSeconds P), put 10, print (lit ''Playing, press any key to stop'' @ [10]), flush]"

definition PlayFooter :: "bool \<Rightarrow> command" where
  "PlayFooter Aborted k =
     steps [put 10, if ReadFailed (files k) then PlayError (lit ''read error during playback'')
                    else print (lit (if Aborted then ''Stopped'' else ''Done'') @ [10])] k"

definition PlayWavFile :: "session \<Rightarrow> cstring \<Rightarrow> command" where
  "PlayWavFile S Path k =
     (case on_files (PlayerStart Path) k of
        (Some Error, k) \<Rightarrow> PlayError (lit Error) k
      | (None, k) \<Rightarrow>
          (case PlayHeader (Public (files k)) k of None \<Rightarrow> None
           | Some k \<Rightarrow>
             (case PlayLoop (PlayerSession S) 0xFFFFFFFF (drain k) of
                None \<Rightarrow> None
              | Some (Goes _, k) \<Rightarrow> Some (k\<lparr>InProgram := True\<rparr>)
              | Some (Ended Aborted, k) \<Rightarrow> PlayFooter Aborted k)))"

definition CmdPlay :: "session \<Rightarrow> cstring list \<Rightarrow> command" where
  "CmdPlay S Argv k =
     (if length Argv < 2 then print (lit ''usage: play <file.wav>'' @ [10]) k
      else if no_stream k then error_line ''HDA stream is not available'' k
      else PlayWavFile S (Argv ! 1) k)"

section \<open>The explorer, reboot and shutdown\<close>

definition ExplorerRun :: "session \<Rightarrow> command" where
  "ExplorerRun S k =
     (case ExplorerOpen (SessionTick S) (Dsk k) of (ok, x) \<Rightarrow>
        let k = k\<lparr>Dsk := x\<rparr>
        in if \<not> ok then steps [set_attr CONSOLE_ATTR_ERROR, print (ErrorFormat E_SCREEN_SMALL (Some []) 160), put 10,
                        set_attr CONSOLE_ATTR_NORMAL] k
        else case ExplorerRounds (ExplorerSession S) (Dsk k) of (left, x) \<Rightarrow>
          let k = k\<lparr>Dsk := x\<rparr>
          in if left then on_console (\<lambda>c. Some (ConsoleRefresh c)) k else Some (k\<lparr>InProgram := True\<rparr>))"

definition CmdExplorer :: "session \<Rightarrow> command" where "CmdExplorer S = ExplorerRun S"

text \<open>The processor is reset, or stops in the end.\<close>
definition CmdReboot :: command where
  "CmdReboot = steps [print (lit ''Rebooting...'' @ [10]), flush,
     \<lambda>k. Some ((snd (on_bus (PowerReboot (Pwr k)) k))\<lparr>PoweredOff := True\<rparr>)]"

text \<open>If the machine is still on behind the sequence, the command fails.\<close>
definition CmdShutdown :: command where
  "CmdShutdown =
     steps [print (lit ''Shutting down...'' @ [10]), flush,
       \<lambda>k. (case on_bus (PowerShutdown (Pwr k)) k of (Txt, k) \<Rightarrow> if Txt = [] then Some k else steps [print Txt, flush] k),
       error_line ''Shutdown failed: ACPI power off is not available'']"

section \<open>The table\<close>

text \<open>The names and help texts, in the order of the table.\<close>
definition CommandTable :: "(string \<times> string) list" where
  "CommandTable = [
    (''help'', ''list commands''), (''clear'', ''clear the screen''), (''echo'', ''print arguments''),
    (''mem'', ''show memory usage''), (''lspci'', ''list PCI devices''), (''disks'', ''list block devices''),
    (''lsblk'', ''list disks and partitions''), (''usb'', ''scan USB storage [list]''), (''ls'', ''list directory''),
    (''cd'', ''change directory''), (''pwd'', ''print current directory''), (''cat'', ''print a text file''),
    (''hexdump'', ''hex view of a file''), (''hda'', ''show audio controller state''), (''dmesg'', ''show boot log [prefix]''),
    (''beep'', ''play test tone via HDA''), (''play'', ''play a WAV file''), (''explorer'', ''visual file explorer''),
    (''reboot'', ''restart the machine''), (''shutdown'', ''power off the machine'')]"

definition CmdHelp :: command where
  "CmdHelp =
     steps (concat (map (\<lambda>(Nm, Help).
       [set_attr CONSOLE_ATTR_ACCENT, print (lit Nm), set_attr CONSOLE_ATTR_NORMAL] @
       replicate (10 - length Nm) (put (chr_code CHR '' '')) @ [print (lit Help), put 10]) CommandTable))"

text \<open>The functions, in the same order. \<open>Usb\<close> stands for the command that scans the USB ports.\<close>
definition CommandFns :: "(cstring list \<Rightarrow> command) \<Rightarrow> session \<Rightarrow> cstring list \<Rightarrow> command list" where
  "CommandFns Usb S Argv =
     [CmdHelp, CmdClear, CmdEcho Argv, CmdMem, CmdLspci, CmdDisks, CmdLsblk, Usb Argv, CmdLs Argv, CmdCd Argv, CmdPwd,
      CmdCat Argv, CmdHexdump Argv, CmdHda, CmdDmesg Argv, CmdBeep, CmdPlay S Argv, CmdExplorer S, CmdReboot, CmdShutdown]"

end
