(* ===== verification/Shell.thy ===== *)
theory Shell
  imports Commands
begin

text \<open>
  The shell (\<open>kernel/shell.c\<close>): splitting a line into arguments, calling the command, the line editor
  and the history. The line is its first \<open>LineLen\<close> characters; the history is the ring of 16 lines. A
  round of the main loop takes the interrupts that come before it, and what goes on while a program it starts runs.
\<close>

section \<open>State\<close>

definition LINE_MAX :: nat where "LINE_MAX = 256"
definition HISTORY_SIZE :: nat where "HISTORY_SIZE = 16"
definition MAX_ARGS :: nat where "MAX_ARGS = 16"

record shell =
  Env :: kernel
  Line :: cstring
  History :: "cstring list"
  HistoryNext :: nat
  HistoryCount :: nat
  HistoryPos :: nat

text \<open>A command on the kernel of the shell.\<close>
definition on_env :: "command \<Rightarrow> shell \<Rightarrow> shell option" where
  "on_env c s = (case c (Env s) of None \<Rightarrow> None | Some k \<Rightarrow> Some (s\<lparr>Env := k\<rparr>))"

section \<open>Splitting a line\<close>

text \<open>\<open>Work\<close> is the copy of the line with its terminating zero; the arguments are positions in it. The first
  loop overwrites blanks, the second looks for the end of an argument.\<close>
function SkipBlanks :: "cstring \<Rightarrow> nat \<Rightarrow> cstring \<times> nat" where
  "SkipBlanks Work p =
     (if p < length Work \<and> Work ! p = chr_code CHR '' '' then SkipBlanks (Work[p := 0]) (p + 1) else (Work, p))"
  by pat_completeness auto
termination
  by (relation "measure (\<lambda>(Work, p). length Work - p)") auto

declare SkipBlanks.simps [simp del]

function SeekEnd :: "u8 \<Rightarrow> cstring \<Rightarrow> nat \<Rightarrow> nat" where
  "SeekEnd c Work p = (if p < length Work \<and> Work ! p \<noteq> 0 \<and> Work ! p \<noteq> c then SeekEnd c Work (p + 1) else p)"
  by pat_completeness auto
termination
  by (relation "measure (\<lambda>(c, Work, p). length Work - p)") auto

declare SeekEnd.simps [simp del]

text \<open>The main loop, as often as arguments are left to fill.\<close>
primrec SplitLoop :: "nat \<Rightarrow> cstring \<Rightarrow> nat \<Rightarrow> nat list \<Rightarrow> cstring \<times> nat list" where
  "SplitLoop 0 Work p Argv = (Work, Argv)"
| "SplitLoop (Suc n) Work p Argv =
     (if Work ! p = 0 then (Work, Argv)
      else case SkipBlanks Work p of (Work, p) \<Rightarrow>
      if Work ! p = 0 then (Work, Argv)
      else if Work ! p = chr_code CHR ''\"''
      then let q = SeekEnd (chr_code CHR ''\"'') Work (p + 1)
           in if Work ! q \<noteq> 0 then SplitLoop n (Work[q := 0]) (q + 1) (Argv @ [p + 1]) else SplitLoop n Work q (Argv @ [p + 1])
      else SplitLoop n Work (SeekEnd (chr_code CHR '' '') Work p) (Argv @ [p]))"

text \<open>The string that begins at a position.\<close>
definition string_at :: "cstring \<Rightarrow> nat \<Rightarrow> cstring" where
  "string_at Work p = takeWhile (\<lambda>c. c \<noteq> 0) (drop p Work)"

definition SplitLine :: "cstring \<Rightarrow> cstring list" where
  "SplitLine Ln = (case SplitLoop MAX_ARGS (Ln @ [0]) 0 [] of (Work, Argv) \<Rightarrow> map (string_at Work) Argv)"

section \<open>Executing a line\<close>

definition UnknownCommand :: "cstring \<Rightarrow> command" where
  "UnknownCommand Nm =
     steps [set_attr CONSOLE_ATTR_ERROR, print (lit ''Unknown command: ''), print Nm, put 10, set_attr CONSOLE_ATTR_NORMAL]"

definition Execute :: "(cstring list \<Rightarrow> command) \<Rightarrow> session \<Rightarrow> cstring \<Rightarrow> command" where
  "Execute Usb S Ln =
     (case SplitLine Ln of
        [] \<Rightarrow> Some
      | Nm # args \<Rightarrow>
          (case find (\<lambda>((n, _), _). str_eq Nm (lit n)) (zip CommandTable (CommandFns Usb S (Nm # args))) of
             Some (_, Fn) \<Rightarrow> Fn
           | None \<Rightarrow> UnknownCommand Nm))"

section \<open>The line and the history\<close>

definition PrintPrompt :: command where
  "PrintPrompt k =
     steps ([set_attr CONSOLE_ATTR_ACCENT, print (lit ''bloom'')] @
       (if FsHasCwd (files k)
        then [put (chr_code CHR '' ''), print (FsCwdVolume (files k)), put (chr_code CHR '':''), print (CwdPathText (files k))] else []) @
       [print (lit ''> ''), set_attr CONSOLE_ATTR_NORMAL]) k"

definition HistoryAdd :: "shell \<Rightarrow> shell" where
  "HistoryAdd s =
     (if Line s = [] then s
      else if HistoryCount s > 0 \<and> str_eq (History s ! ((HistoryNext s + HISTORY_SIZE - 1) mod HISTORY_SIZE)) (Line s) then s
      else let s = s\<lparr>History := (History s)[HistoryNext s := Line s], HistoryNext := (HistoryNext s + 1) mod HISTORY_SIZE\<rparr>
           in if HistoryCount s < HISTORY_SIZE then s\<lparr>HistoryCount := HistoryCount s + 1\<rparr> else s)"

definition ReplaceInput :: "cstring \<Rightarrow> shell \<Rightarrow> shell option" where
  "ReplaceInput Txt s =
     (let New = take (LINE_MAX - 1) Txt
      in on_env (steps (replicate (length (Line s)) (put 8) @ map put New)) (s\<lparr>Line := New\<rparr>))"

definition HistoryStep :: "int \<Rightarrow> shell \<Rightarrow> shell option" where
  "HistoryStep Direction s =
     (if Direction > 0 \<and> HistoryPos s \<ge> HistoryCount s \<or> \<not> Direction > 0 \<and> HistoryPos s = 0 then Some s
      else let Pos = (if Direction > 0 then HistoryPos s + 1 else HistoryPos s - 1);
               s = s\<lparr>HistoryPos := Pos\<rparr>
      in if Pos = 0 then ReplaceInput [] s
         else ReplaceInput (History s ! ((HistoryNext s + HISTORY_SIZE - Pos) mod HISTORY_SIZE)) s)"

text \<open>What a key other than 0 does.\<close>
definition ShellKey :: "(cstring list \<Rightarrow> command) \<Rightarrow> session \<Rightarrow> int \<Rightarrow> shell \<Rightarrow> shell option" where
  "ShellKey Usb S Key s =
     (if Key = 10
      then (case on_env (put 10) s of None \<Rightarrow> None
            | Some s \<Rightarrow>
              let Ln = Line s
              in (case on_env (Execute Usb S Ln) (HistoryAdd s) of None \<Rightarrow> None
                  | Some s \<Rightarrow>
                    let s = s\<lparr>Line := [], HistoryPos := 0\<rparr>
                    in if InProgram (Env s) \<or> PoweredOff (Env s) then Some s else on_env PrintPrompt s))
      else if Key = 8
      then (if Line s \<noteq> [] then on_env (put 8) (s\<lparr>Line := butlast (Line s)\<rparr>) else Some s)
      else if Key = KEY_UP then HistoryStep 1 s
      else if Key = KEY_DOWN then HistoryStep (- 1) s
      else if 32 \<le> Key \<and> Key \<le> 126
      then (if length (Line s) < LINE_MAX - 1 then on_env (put (of_int Key)) (s\<lparr>Line := Line s @ [of_int Key]\<rparr>) else Some s)
      else Some s)"

section \<open>The main loop\<close>

definition ShellStart :: "shell \<Rightarrow> shell option" where
  "ShellStart =
     on_env (steps [set_attr CONSOLE_ATTR_ACCENT, print (lit ''Bloom-OS console'' @ [10]), set_attr CONSOLE_ATTR_DIM,
       print (lit ''Type '' @ [39] @ lit ''help'' @ [39] @ lit '' for a list of commands.'' @ [10, 10]),
       set_attr CONSOLE_ATTR_NORMAL, PrintPrompt, flush])"

text \<open>One round: with no key the processor waits.\<close>
definition ShellRound :: "(cstring list \<Rightarrow> command) \<Rightarrow> session \<Rightarrow> shell \<Rightarrow> shell option" where
  "ShellRound Usb S s =
     (case GetKey (Dsk (Env s)) of (Key, x) \<Rightarrow>
        let s = s\<lparr>Env := (Env s)\<lparr>Dsk := x\<rparr>\<rparr>
        in if Key = 0 then Some s
        else (case ShellKey Usb S Key s of None \<Rightarrow> None
              | Some s \<Rightarrow> if InProgram (Env s) \<or> PoweredOff (Env s) then Some s else on_env flush s))"

text \<open>The rounds. A program that goes on, and a machine that has been restarted, let no round follow.\<close>
fun ShellRounds :: "(cstring list \<Rightarrow> command) \<Rightarrow> (irq list \<times> session) list \<Rightarrow> shell \<Rightarrow> shell option" where
  "ShellRounds Usb [] s = Some s"
| "ShellRounds Usb ((irqs, S) # rs) s =
     (if InProgram (Env s) \<or> PoweredOff (Env s) then Some s
      else (case ShellRound Usb S (s\<lparr>Env := interrupts irqs (Env s)\<rparr>) of
              None \<Rightarrow> None
            | Some s \<Rightarrow> ShellRounds Usb rs s))"

definition ShellRun :: "(cstring list \<Rightarrow> command) \<Rightarrow> (irq list \<times> session) list \<Rightarrow> shell \<Rightarrow> shell option" where
  "ShellRun Usb rs s = (case ShellStart s of None \<Rightarrow> None | Some s \<Rightarrow> ShellRounds Usb rs s)"

end
