(* ===== verification/ShellLine.thy ===== *)
theory ShellLine
  imports Shell ExplorerCorrect
begin

text \<open>
  The properties of splitting a line into arguments and of the line editor with its history.
\<close>

section \<open>Splitting\<close>

text \<open>The grammar of a line: arguments are separated by blanks; one that begins with a quote goes up to the next quote, or
  to the end of the line; any other goes up to the next blank, except for the last one there is room for, which
  keeps the rest of the line.\<close>
fun arguments :: "nat \<Rightarrow> cstring \<Rightarrow> cstring list" where
  "arguments 0 s = []"
| "arguments (Suc n) s =
     (case dropWhile (\<lambda>c. c = 32) s of
        [] \<Rightarrow> []
      | c # t \<Rightarrow>
          if c = 34 then takeWhile (\<lambda>c. c \<noteq> 34) t # arguments n (drop 1 (dropWhile (\<lambda>c. c \<noteq> 34) t))
          else if n = 0 then [c # t]
          else takeWhile (\<lambda>c. c \<noteq> 32) (c # t) # arguments n (dropWhile (\<lambda>c. c \<noteq> 32) (c # t)))"

lemma SkipBlanks_run:
  "rest \<noteq> [] \<Longrightarrow> hd rest \<noteq> 32 \<Longrightarrow>
   SkipBlanks (pre @ replicate n 32 @ rest) (length pre) = (pre @ replicate n 0 @ rest, length pre + n)"
proof (induction n arbitrary: pre)
  case 0
  then show ?case by (subst SkipBlanks.simps) (cases rest; simp add: nth_append)
next
  case (Suc n)
  from Suc.IH [of "pre @ [0]"] Suc.prems show ?case
    by (simp add: SkipBlanks.simps [of "pre @ 32 # replicate n 32 @ rest"] nth_append list_update_append)
qed

lemma SeekEnd_run:
  "rest \<noteq> [] \<Longrightarrow> hd rest = 0 \<or> hd rest = c \<Longrightarrow> list_all (\<lambda>x. x \<noteq> 0 \<and> x \<noteq> c) t \<Longrightarrow>
   SeekEnd c (pre @ t @ rest) (length pre) = length pre + length t"
proof (induction t arbitrary: pre)
  case Nil
  then show ?case by (subst SeekEnd.simps) (cases rest; auto simp: nth_append)
next
  case (Cons x t)
  from Cons.IH [of "pre @ [x]"] Cons.prems show ?case
    by (simp add: SeekEnd.simps [of c "pre @ x # t @ rest"] nth_append)
qed

lemma blanks_split: "\<exists>n. s = replicate n 32 @ dropWhile (\<lambda>c. c = 32) s"
proof (induction s)
  case (Cons c s)
  then obtain n where "s = replicate n 32 @ dropWhile (\<lambda>c. c = 32) s" by blast
  then show ?case by (cases "c = 32") (auto intro: exI [of _ "Suc n"] exI [of _ 0])
qed simp

lemma string_at_end: "list_all (\<lambda>x. x \<noteq> 0) t \<Longrightarrow> string_at (pre @ t @ 0 # rest) (length pre) = t"
  by (induction t) (auto simp: string_at_def)

text \<open>The strings of the new arguments, when the loop has come to a place.\<close>
definition splits :: "nat \<Rightarrow> cstring \<Rightarrow> cstring \<Rightarrow> nat list \<Rightarrow> bool" where
  "splits n pre s args \<longleftrightarrow> (\<exists>W extra. SplitLoop n (pre @ s @ [0]) (length pre) args = (pre @ W, args @ extra) \<and>
     map (string_at (pre @ W)) extra = arguments n s \<and> length W = length s + 1 \<and>
     (n = 0 \<longrightarrow> W = s @ [0]) \<and> ((s = [] \<or> n > 0 \<and> hd s = 32) \<longrightarrow> hd W = 0))"

lemma arguments_end: "arguments n [] = []" by (cases n) simp_all

lemma hd_zeros: "hd (replicate b 0 @ 0 # W) = 0" "b > 0 \<Longrightarrow> hd (replicate b 0 @ W) = 0"
  by (cases b; simp)+

lemma splitsI:
  "SplitLoop n (pre @ s @ [0]) (length pre) args = (pre @ W, args @ extra) \<Longrightarrow> map (string_at (pre @ W)) extra = arguments n s \<Longrightarrow>
   length W = length s + 1 \<Longrightarrow> (n = 0 \<Longrightarrow> W = s @ [0]) \<Longrightarrow> (s = [] \<or> n > 0 \<and> hd s = 32 \<Longrightarrow> hd W = 0) \<Longrightarrow> splits n pre s args"
  unfolding splits_def by blast

lemma splits_ok: "list_all (\<lambda>c. c \<noteq> 0) s \<Longrightarrow> splits n pre s args"
proof (induction n arbitrary: pre s args)
  case 0
  then show ?case by (auto simp: splits_def)
next
  case (Suc n pre s args)
  obtain b where s: "s = replicate b 32 @ dropWhile (\<lambda>c. c = 32) s" using blanks_split by blast
  define u where "u = dropWhile (\<lambda>c. c = 32) s"
  have su: "s = replicate b 32 @ u" using s by (simp add: u_def)
  have nz: "list_all (\<lambda>c. c \<noteq> 0) u" using Suc.prems s unfolding u_def by (metis list_all_append)
  let ?pre = "pre @ replicate b 0"
  have hdu: "u \<noteq> [] \<Longrightarrow> hd u \<noteq> 32" unfolding u_def using hd_dropWhile [of "\<lambda>c. c = 32" s] by auto
  have skip: "SkipBlanks (pre @ s @ [0]) (length pre) = (?pre @ u @ [0], length ?pre)"
  proof -
    have "SkipBlanks (pre @ replicate b 32 @ u @ [0]) (length pre) = (pre @ replicate b 0 @ u @ [0], length pre + b)"
      by (rule SkipBlanks_run) (use hdu in \<open>cases u; simp\<close>)+
    then show ?thesis unfolding su by simp
  qed
  have first: "(pre @ s @ [0]) ! length pre = 0 \<longleftrightarrow> s = []" using Suc.prems by (cases s) simp_all
  have b0: "hd s = 32 \<Longrightarrow> s \<noteq> [] \<Longrightarrow> b > 0" using s hdu by (cases b) (auto simp: u_def [symmetric])
  show ?case
  proof (cases "u = []")
    case True
    then have "SplitLoop (Suc n) (pre @ s @ [0]) (length pre) args = (pre @ replicate b 0 @ [0], args)"
      using first skip s by (auto simp: u_def nth_append)
    moreover have "length s = b" using s True by (metis append_Nil2 length_replicate u_def)
    ultimately show ?thesis using True 
          by (intro splitsI [where W = "replicate b 0 @ [0]" and extra = "[] :: nat list"]) (auto simp: u_def [symmetric] hd_zeros simp del: SplitLoop.simps)
  next
    case False
    then obtain c t where u: "u = c # t" by (cases u) auto
    have ne: "s \<noteq> []" using u by (auto simp: u_def)
    have c: "c \<noteq> 32" "c \<noteq> 0" "list_all (\<lambda>x. x \<noteq> 0) t" using hdu nz u by auto
    have len: "length s = b + length u" using arg_cong [OF s, of length] by (simp add: u_def)
    have at: "(?pre @ u @ [0]) ! length ?pre = c" by (subst nth_append) (simp add: u)
    have loop: "SplitLoop (Suc n) (pre @ s @ [0]) (length pre) args =
        (if c = 34 then let q = SeekEnd 34 (?pre @ u @ [0]) (length ?pre + 1)
           in if (?pre @ u @ [0]) ! q \<noteq> 0 then SplitLoop n ((?pre @ u @ [0])[q := 0]) (q + 1) (args @ [length ?pre + 1])
              else SplitLoop n (?pre @ u @ [0]) q (args @ [length ?pre + 1])
         else SplitLoop n (?pre @ u @ [0]) (SeekEnd 32 (?pre @ u @ [0]) (length ?pre)) (args @ [length ?pre]))"
      unfolding SplitLoop.simps(2) skip prod.case at using first ne c by simp
    show ?thesis
    proof (cases "c = 34")
      case quote: True
      define a where "a = takeWhile (\<lambda>c. c \<noteq> 34) t"
      define r where "r = dropWhile (\<lambda>c. c \<noteq> 34) t"
      have t: "t = a @ r" and a: "list_all (\<lambda>x. x \<noteq> 0 \<and> x \<noteq> 34) a" and r: "list_all (\<lambda>x. x \<noteq> 0) r"
        using c(3) by (auto simp: a_def r_def list_all_iff dest: set_takeWhileD set_dropWhileD)
      have spec: "arguments (Suc n) s = a # arguments n (drop 1 r)"
        using u quote by (simp add: u_def [symmetric] a_def r_def)
      let ?p = "?pre @ [34]"
      have hdr: "hd (r @ [0]) = 0 \<or> hd (r @ [0]) = 34"
        using hd_dropWhile [of "\<lambda>c. c \<noteq> 34" t] unfolding r_def [symmetric] by (cases r) auto
      have seek: "SeekEnd 34 (?pre @ u @ [0]) (length ?pre + 1) = length ?p + length a"
        using SeekEnd_run [of "r @ [0]" 34 a ?p] hdr a by (simp add: u quote t)
      show ?thesis
      proof (cases r)
        case Nil
        from Suc.IH [of "[]" "?p @ a" "args @ [length ?p]"] obtain W extra where
          run: "SplitLoop n (?p @ a @ [0]) (length (?p @ a)) (args @ [length ?p]) = ((?p @ a) @ W, args @ length ?p # extra)"
            "map (string_at ((?p @ a) @ W)) extra = []" "length W = 1" "hd W = 0"
          by (cases n) (auto simp: splits_def)
        then have W: "W = [0]" "extra = []" by (cases W; auto)+
        show ?thesis 
          by (intro splitsI [where W = "replicate b 0 @ 34 # a @ [0]" and extra = "[length ?p]"])
             (use run W seek loop Nil t u quote len b0 ne spec string_at_end [of a ?p "[]"] a in
               \<open>auto simp: Let_def nth_append list_all_iff hd_zeros add.assoc arguments_end simp del: SplitLoop.simps arguments.simps(2)\<close>)
      next
        case (Cons x r')
        have x: "x = 34" using hdr Cons r by auto
        from Suc.IH [of r' "?p @ a @ [0]" "args @ [length ?p]"] r Cons obtain W extra where
          run: "SplitLoop n ((?p @ a @ [0]) @ r' @ [0]) (length (?p @ a @ [0])) (args @ [length ?p]) = ((?p @ a @ [0]) @ W, args @ length ?p # extra)"
            "map (string_at ((?p @ a @ [0]) @ W)) extra = arguments n r'" "length W = length r' + 1"
          by (auto simp: splits_def)
        show ?thesis 
          by (intro splitsI [where W = "replicate b 0 @ 34 # a @ 0 # W" and extra = "length ?p # extra"])
             (use run seek loop Cons x t u quote len b0 ne spec string_at_end [of a ?p W] a in
               \<open>auto simp: Let_def nth_append list_update_append list_all_iff hd_zeros add.assoc simp del: SplitLoop.simps arguments.simps(2)\<close>)
      qed
    next
      case plain: False
      define a where "a = takeWhile (\<lambda>c. c \<noteq> 32) u"
      define r where "r = dropWhile (\<lambda>c. c \<noteq> 32) u"
      have t: "u = a @ r" and a: "list_all (\<lambda>x. x \<noteq> 0 \<and> x \<noteq> 32) a" and r: "list_all (\<lambda>x. x \<noteq> 0) r"
        using nz by (auto simp: a_def r_def list_all_iff dest: set_takeWhileD set_dropWhileD)
      have spec: "arguments (Suc n) s = (if n = 0 then [u] else a # arguments n r)"
        using u plain by (simp add: u_def [symmetric] a_def r_def)
      have hdr: "r = [] \<or> hd r = 32" using hd_dropWhile [of "\<lambda>c. c \<noteq> 32" u] unfolding r_def [symmetric] by auto
      have seek: "SeekEnd 32 (?pre @ u @ [0]) (length ?pre) = length (?pre @ a)"
        using SeekEnd_run [of "r @ [0]" 32 a ?pre] hdr a by (cases r) (simp_all add: t)
      from Suc.IH [of r "?pre @ a" "args @ [length ?pre]"] r obtain W extra where
        run: "SplitLoop n ((?pre @ a) @ r @ [0]) (length (?pre @ a)) (args @ [length ?pre]) = ((?pre @ a) @ W, args @ length ?pre # extra)"
          "map (string_at ((?pre @ a) @ W)) extra = arguments n r" "length W = length r + 1" "n = 0 \<longrightarrow> W = r @ [0]"
          "r = [] \<or> n > 0 \<and> hd r = 32 \<longrightarrow> hd W = 0"
        by (auto simp: splits_def)
      have str: "string_at (?pre @ a @ W) (length ?pre) = (if n = 0 then u else a)"
      proof (cases "n = 0")
        case True
        with run string_at_end [of u ?pre "[]"] nz show ?thesis by (simp add: t)
      next
        case False
        then have "W = 0 # tl W" using run hdr by (cases W) auto
        with string_at_end [of a ?pre "tl W"] a False show ?thesis by (simp add: list_all_iff)
      qed
      show ?thesis 
          by (intro splitsI [where W = "replicate b 0 @ a @ W" and extra = "length ?pre # extra"])
           (use run seek loop str t u plain len b0 ne spec in
             \<open>auto simp: hd_zeros add.assoc simp del: SplitLoop.simps arguments.simps(2)\<close>)
    qed
  qed
qed

text \<open>C32: A line is split into the arguments its grammar says: the in-place splitting of the copy, with its positions and the
  zeros it writes over blanks and quotes, gives the same strings as reading the line from left to right, with at
  most 16 arguments, for every line without a zero byte.\<close>
theorem SplitLine_arguments:
  assumes "list_all (\<lambda>c. c \<noteq> 0) Ln"
  shows "SplitLine Ln = arguments 16 Ln"
proof -
  from splits_ok [OF assms, of 16 "[]" "[]"] obtain W Argv where
    "SplitLoop 16 (Ln @ [0]) 0 [] = (W, Argv)" "map (string_at W) Argv = arguments 16 Ln"
    unfolding splits_def by auto
  then show ?thesis by (simp add: SplitLine_def MAX_ARGS_def)
qed

lemma SplitLine_arguments_witness:
  "SplitLine (lit ''cat '' @ [34] @ lit ''a b'' @ [34]) = [lit ''cat'', lit ''a b'']"
proof -
  have "list_all (\<lambda>c. c \<noteq> 0) (lit ''cat '' @ [34] @ lit ''a b'' @ [34])" by (simp add: lit_def)
  note split = SplitLine_arguments [OF this]
  have "arguments (Suc (Suc (Suc 13))) (lit ''cat '' @ [34] @ lit ''a b'' @ [34]) = [lit ''cat'', lit ''a b'']"
    by (simp add: lit_def del: Suc_numeral)
  then show ?thesis unfolding split by (simp only: Suc_numeral semiring_norm)
qed

section \<open>The line editor\<close>

text \<open>The editor as the user sees it: the text, the lines entered before, the latest first, and how far back the line shown is.\<close>
record editor =
  Typed :: cstring
  Past :: "cstring list"
  Shown :: nat

definition the_past :: "shell \<Rightarrow> cstring list" where
  "the_past s = map (\<lambda>i. History s ! ((HistoryNext s + 16 - (i + 1)) mod 16)) [0..<HistoryCount s]"

definition the_editor :: "shell \<Rightarrow> editor" where
  "the_editor s = \<lparr>Typed = Line s, Past = the_past s, Shown = HistoryPos s\<rparr>"

definition editor_ok :: "shell \<Rightarrow> bool" where
  "editor_ok s \<longleftrightarrow> length (History s) = 16 \<and> HistoryNext s < 16 \<and> HistoryCount s \<le> 16 \<and> HistoryPos s \<le> HistoryCount s \<and>
     length (Line s) \<le> 255 \<and> list_all (\<lambda>l. length l \<le> 255) (the_past s)"

text \<open>Entering a line puts it in front of the past, unless it is empty or the same as the last one.\<close>
definition remember :: "cstring \<Rightarrow> cstring list \<Rightarrow> cstring list" where
  "remember Ln past = (if Ln = [] \<or> past \<noteq> [] \<and> hd past = Ln then past else take 16 (Ln # past))"

definition line_at :: "cstring list \<Rightarrow> nat \<Rightarrow> cstring" where
  "line_at past n = (if n = 0 then [] else past ! (n - 1))"

definition edit :: "int \<Rightarrow> editor \<Rightarrow> editor" where
  "edit Key e =
     (if Key = 10 then \<lparr>Typed = [], Past = remember (Typed e) (Past e), Shown = 0\<rparr>
      else if Key = 8 then e\<lparr>Typed := butlast (Typed e)\<rparr>
      else if Key = KEY_UP
      then (if Shown e < length (Past e) then e\<lparr>Shown := Shown e + 1, Typed := line_at (Past e) (Shown e + 1)\<rparr> else e)
      else if Key = KEY_DOWN
      then (if 0 < Shown e then e\<lparr>Shown := Shown e - 1, Typed := line_at (Past e) (Shown e - 1)\<rparr> else e)
      else if 32 \<le> Key \<and> Key \<le> 126 \<and> length (Typed e) < 255 then e\<lparr>Typed := Typed e @ [of_int Key]\<rparr> else e)"

lemma on_env_fields:
  assumes "on_env c s = Some s'"
  shows "the_editor s' = the_editor s" "editor_ok s' = editor_ok s" "History s' = History s" "HistoryNext s' = HistoryNext s"
    "HistoryCount s' = HistoryCount s" "Line s' = Line s"
  using assms by (auto simp: on_env_def the_editor_def editor_ok_def the_past_def split: option.splits)

lemma HistoryAdd_past:
  assumes "editor_ok s"
  shows "the_past (HistoryAdd s) = remember (Line s) (the_past s)" "editor_ok ((HistoryAdd s)\<lparr>Line := [], HistoryPos := 0\<rparr>)"
proof -
  let ?N = "HistoryNext s" and ?C = "HistoryCount s" and ?H = "History s" and ?L = "Line s"
  have ok: "length ?H = 16" "?N < 16" "?C \<le> 16" "length ?L \<le> 255" "list_all (\<lambda>l. length l \<le> 255) (the_past s)"
    using assms by (simp_all add: editor_ok_def)
  have past: "length (the_past s) = ?C" "\<And>i. i < ?C \<Longrightarrow> the_past s ! i = ?H ! ((?N + 16 - (i + 1)) mod 16)"
    by (simp_all add: the_past_def)
  have last: "?C > 0 \<Longrightarrow> hd (the_past s) = ?H ! ((?N + 16 - 1) mod 16)" 
    using past(1) past(2) [of 0] by (cases "the_past s") auto
  have empty: "the_past s = [] \<longleftrightarrow> ?C = 0" using past(1) by (metis length_0_conv)
  show *: "the_past (HistoryAdd s) = remember ?L (the_past s)"
  proof (cases "?L = [] \<or> ?C > 0 \<and> ?H ! ((?N + 16 - 1) mod 16) = ?L")
    case True
    then show ?thesis using last empty by (auto simp: HistoryAdd_def remember_def HISTORY_SIZE_def)
  next
    case False
    define C where "C = (if ?C < 16 then ?C + 1 else ?C)"
    have C: "C \<le> 16" "C - 1 \<le> ?C" "0 < C" "C = min 16 (?C + 1)" using ok by (auto simp: C_def)
    have new: "the_past (HistoryAdd s) = map (\<lambda>i. (?H[?N := ?L]) ! (((?N + 1) mod 16 + 16 - (i + 1)) mod 16)) [0..<C]"
      using False by (auto simp: HistoryAdd_def the_past_def HISTORY_SIZE_def Let_def C_def)
    have "\<dots> = take 16 (?L # the_past s)"
    proof (rule nth_equalityI)
      show "length (map (\<lambda>i. (?H[?N := ?L]) ! (((?N + 1) mod 16 + 16 - (i + 1)) mod 16)) [0..<C]) = length (take 16 (?L # the_past s))"
        using C(4) past(1) by simp
      fix i assume "i < length (map (\<lambda>i. (?H[?N := ?L]) ! (((?N + 1) mod 16 + 16 - (i + 1)) mod 16)) [0..<C])"
      then have i: "i < C" by simp
      show "map (\<lambda>i. (?H[?N := ?L]) ! (((?N + 1) mod 16 + 16 - (i + 1)) mod 16)) [0..<C] ! i = take 16 (?L # the_past s) ! i"
      proof (cases i)
        case 0
        have "((?N + 1) mod 16 + 16 - 1) mod 16 = ?N" using ok(2) by (cases "?N = 15") auto
        with 0 i ok show ?thesis by simp
      next
        case (Suc j)
        have j: "j < 15" "j < ?C" using i Suc C by auto
        have "((?N + 1) mod 16 + 16 - (Suc j + 1)) mod 16 = (?N + 16 - (j + 1)) mod 16"
          using ok(2) j by (cases "?N = 15") (auto simp: mod_if)
        moreover have "(?N + 16 - (j + 1)) mod 16 \<noteq> ?N" using ok(2) j by (auto simp: mod_if)
        ultimately show ?thesis using i Suc j past(2) [of j] ok by simp
      qed
    qed
    moreover have "\<not> (?L = [] \<or> the_past s \<noteq> [] \<and> hd (the_past s) = ?L)" using False last empty by auto
    ultimately show ?thesis using new by (simp only: remember_def if_False)
  qed
  have "list_all (\<lambda>l. length l \<le> 255) (remember ?L (the_past s))"
    using ok by (auto simp: remember_def list_all_iff dest: in_set_takeD)
  then have "list_all (\<lambda>l. length l \<le> 255) (the_past ((HistoryAdd s)\<lparr>Line := [], HistoryPos := 0\<rparr>))"
    using * by (simp add: the_past_def)
  then show "editor_ok ((HistoryAdd s)\<lparr>Line := [], HistoryPos := 0\<rparr>)"
    using ok by (auto simp: editor_ok_def HistoryAdd_def Let_def HISTORY_SIZE_def)
qed

lemma ShellKey_edit:
  assumes "editor_ok s" "ShellKey Usb S Key s = Some s'"
  shows "the_editor s' = edit Key (the_editor s) \<and> editor_ok s'"
proof -
  have ok: "length (Line s) \<le> 255" "HistoryPos s \<le> HistoryCount s" "list_all (\<lambda>l. length l \<le> 255) (the_past s)"
    "length (the_past s) = HistoryCount s"
    using assms(1) by (auto simp: editor_ok_def the_past_def)
  have replace: "the_editor s' = (the_editor s)\<lparr>Shown := n, Typed := line_at (the_past s) n\<rparr> \<and> editor_ok s'"
    if "n \<le> HistoryCount s" "ReplaceInput (line_at (the_past s) n) (s\<lparr>HistoryPos := n\<rparr>) = Some s'" for n
  proof -
    have "length (line_at (the_past s) n) \<le> 255"
      using that(1) ok by (cases n) (auto simp: line_at_def list_all_length)
    with that on_env_fields(1,2) [OF that(2) [unfolded ReplaceInput_def Let_def]] assms(1) show ?thesis
      by (auto simp: the_editor_def editor_ok_def the_past_def LINE_MAX_def)
  qed
  have line: "History s ! ((HistoryNext s + HISTORY_SIZE - n) mod HISTORY_SIZE) = line_at (the_past s) n"
    if "0 < n" "n \<le> HistoryCount s" for n
    using that by (cases n) (simp_all add: line_at_def the_past_def HISTORY_SIZE_def)
  show ?thesis
  proof (cases "Key = 10")
    case True
    obtain a where a: "on_env (put 10) s = Some a" using assms(2) True by (auto simp: ShellKey_def split: option.splits)
    obtain b where b: "on_env (Execute Usb S (Line a)) (HistoryAdd a) = Some b"
      using assms(2) True a by (auto simp: ShellKey_def Let_def split: option.splits)
    let ?b = "b\<lparr>Line := [], HistoryPos := 0\<rparr>"
    have s': "Some s' = (if InProgram (Env ?b) \<or> PoweredOff (Env ?b) then Some ?b else on_env PrintPrompt ?b)"
      using assms(2) True a b by (simp add: ShellKey_def Let_def)
    note fa = on_env_fields [OF a] and fb = on_env_fields [OF b]
    have "editor_ok a" using fa assms(1) by simp
    note h = HistoryAdd_past [OF this]
    have "the_past b = the_past (HistoryAdd a)" using fb by (simp add: the_past_def)
    moreover have "the_past a = the_past s" using fa by (simp add: the_past_def)
    ultimately have b': "the_editor ?b = edit 10 (the_editor s)" "editor_ok ?b"
      using h fa fb by (auto simp: the_editor_def edit_def the_past_def editor_ok_def)
    show ?thesis
    proof (cases "InProgram (Env ?b) \<or> PoweredOff (Env ?b)")
      case False
      with s' have "on_env PrintPrompt ?b = Some s'" by simp
      from on_env_fields(1,2) [OF this] b' True show ?thesis by simp
    qed (use s' b' True in simp)
  next
    case key: False
    consider "Key = 8" | "Key = KEY_UP" | "Key = KEY_DOWN" | "Key \<noteq> 8" "Key \<noteq> KEY_UP" "Key \<noteq> KEY_DOWN" by blast
    then show ?thesis
    proof cases
      case 1
      show ?thesis
      proof (cases "Line s = []")
        case False
        with 1 assms(2) key have "on_env (put 8) (s\<lparr>Line := butlast (Line s)\<rparr>) = Some s'" by (simp add: ShellKey_def)
        from on_env_fields(1,2) [OF this] 1 assms(1) show ?thesis
          by (auto simp: the_editor_def edit_def editor_ok_def the_past_def)
      qed (use 1 assms key in \<open>auto simp: ShellKey_def the_editor_def edit_def\<close>)
    next
      case 2
      show ?thesis
      proof (cases "HistoryPos s < HistoryCount s")
        case True
        with 2 assms(2) key line [of "HistoryPos s + 1"] have "ReplaceInput (line_at (the_past s) (HistoryPos s + 1)) (s\<lparr>HistoryPos := HistoryPos s + 1\<rparr>) = Some s'"
          by (simp add: ShellKey_def HistoryStep_def KEY_UP_def)
        from replace [OF _ this] True 2 ok show ?thesis by (auto simp: the_editor_def edit_def KEY_UP_def)
      qed (use 2 assms key ok in \<open>auto simp: ShellKey_def the_editor_def edit_def HistoryStep_def KEY_UP_def\<close>)
    next
      case 3
      show ?thesis
      proof (cases "HistoryPos s > 0")
        case True
        have "ReplaceInput (line_at (the_past s) (HistoryPos s - 1)) (s\<lparr>HistoryPos := HistoryPos s - 1\<rparr>) = Some s'"
          using 3 assms(2) key True line [of "HistoryPos s - 1"] ok
          by (cases "HistoryPos s = 1") (auto simp: ShellKey_def HistoryStep_def KEY_UP_def KEY_DOWN_def Let_def line_at_def split: if_splits)
        from replace [OF _ this] True 3 ok show ?thesis by (auto simp: the_editor_def edit_def KEY_UP_def KEY_DOWN_def)
      qed (use 3 assms key ok in \<open>auto simp: ShellKey_def the_editor_def edit_def HistoryStep_def KEY_UP_def KEY_DOWN_def\<close>)
    next
      case 4
      show ?thesis
      proof (cases "32 \<le> Key \<and> Key \<le> 126 \<and> length (Line s) < 255")
        case True
        with 4 assms(2) key have "on_env (put (of_int Key)) (s\<lparr>Line := Line s @ [of_int Key]\<rparr>) = Some s'"
          by (simp add: ShellKey_def LINE_MAX_def)
        from on_env_fields(1,2) [OF this] 4 True key assms(1) show ?thesis
          by (auto simp: the_editor_def edit_def editor_ok_def the_past_def)
      qed (use 4 assms key in \<open>auto simp: ShellKey_def the_editor_def edit_def LINE_MAX_def split: if_splits\<close>)
    qed
  qed
qed

text \<open>The keys the rounds read, and the lines they enter.\<close>
fun keys_read :: "(cstring list \<Rightarrow> command) \<Rightarrow> (irq list \<times> session) list \<Rightarrow> shell \<Rightarrow> int list" where
  "keys_read Usb [] s = []"
| "keys_read Usb ((irqs, S) # rs) s =
     (if InProgram (Env s) \<or> PoweredOff (Env s) then []
      else let a = s\<lparr>Env := interrupts irqs (Env s)\<rparr>; Key = fst (GetKey (Dsk (Env a)))
           in (if Key = 0 then [] else [Key]) @ (case ShellRound Usb S a of None \<Rightarrow> [] | Some s \<Rightarrow> keys_read Usb rs s))"

lemma ShellRound_edit:
  assumes "editor_ok s" "ShellRound Usb S s = Some s'"
  shows "the_editor s' = (let Key = fst (GetKey (Dsk (Env s))) in if Key = 0 then the_editor s else edit Key (the_editor s)) \<and> editor_ok s'"
proof -
  obtain Key x where g: "GetKey (Dsk (Env s)) = (Key, x)" by (cases "GetKey (Dsk (Env s))")
  let ?s = "s\<lparr>Env := (Env s)\<lparr>Dsk := x\<rparr>\<rparr>"
  have same: "the_editor ?s = the_editor s" "editor_ok ?s" using assms(1) by (simp_all add: the_editor_def editor_ok_def the_past_def)
  show ?thesis
  proof (cases "Key = 0")
    case True
    with assms(2) g have "s' = ?s" by (simp add: ShellRound_def)
    with same g True show ?thesis by simp
  next
    case False
    obtain t where t: "ShellKey Usb S Key ?s = Some t" using assms(2) False g by (auto simp: ShellRound_def split: option.splits)
    from ShellKey_edit [OF same(2) this] have e: "the_editor t = edit Key (the_editor s)" "editor_ok t" using same by simp_all
    have "Some s' = (if InProgram (Env t) \<or> PoweredOff (Env t) then Some t else on_env flush t)"
      using assms(2) False g t by (simp add: ShellRound_def)
    then have "the_editor s' = the_editor t \<and> editor_ok s'"
      using e(2) on_env_fields(1,2) [of flush t s'] by (auto split: if_splits)
    with e g False show ?thesis by simp
  qed
qed

text \<open>C31: The shell's line editor does what its abstract specification says. Over any rounds, with any interrupts
  and whatever the commands do, the line being typed (its buffer of 256 bytes), the history (a ring of 16 lines with its insertion
  point and count) and the position in it behave like a text, the list of the lines entered, the latest first, without
  repetitions in a row and at most 16 of them, and a cursor into that list: typing appends up to 255 characters,
  backspace removes the last, the arrow keys walk through the list, and Enter starts over.\<close>
theorem ShellRounds_edit:
  assumes "editor_ok s" "ShellRounds Usb rs s = Some s'"
  shows "the_editor s' = fold edit (keys_read Usb rs s) (the_editor s) \<and> editor_ok s'"
  using assms
proof (induction Usb rs s rule: ShellRounds.induct)
  case (2 Usb irqs S rs s)
  show ?case
  proof (cases "InProgram (Env s) \<or> PoweredOff (Env s)")
    case False
    let ?a = "s\<lparr>Env := interrupts irqs (Env s)\<rparr>"
    have a: "the_editor ?a = the_editor s" "editor_ok ?a" using 2(2) by (simp_all add: the_editor_def editor_ok_def the_past_def)
    obtain b where b: "ShellRound Usb S ?a = Some b" using 2(3) False by (auto split: option.splits)
    note r = ShellRound_edit [OF a(2) b]
    have "ShellRounds Usb rs b = Some s'" using 2(3) False b by simp
    from 2(1) [OF False b _ this] r a b False show ?thesis by (auto simp: Let_def)
  qed (use 2 in auto)
qed simp

section \<open>An example\<close>

definition demo_kernel :: kernel where
  "demo_kernel = \<lparr>Dsk = demo_explorer\<lparr>Files := demo_player\<lparr>PlayActive := False, Active := False\<rparr>\<rparr>, Con = demo_console\<lparr>Dirty := (\<lambda>_. True)\<rparr>,
     GlobalHdaStatus = \<lparr>StFound = False, StCodecFound = False, StCorbEntriesUsed = 0, StRirbEntriesUsed = 0, StRootFgCount = 0,
       StFgStartNid = 0, StRepeatSameCallRaw = 0, StAfgFound = False, StLastFgTypeRaw = 0, StWpAfterFirst = 0, StWpBeforeSecond = 0,
       StCorbWpReadback = 0, StCorbRpAfterFirst = 0, StCorbSts = 0, StWidgetCount = 0, StDacFound = False, StPinFound = False,
       StPathLinked = False, StStreamStarted = False\<rparr>,
     GlobalHdaFound = False, Pwr = power_init, InProgram = False, PoweredOff = False\<rparr>"

definition demo_shell :: shell where
  "demo_shell = \<lparr>Env = demo_kernel, Line = [], History = replicate 16 [], HistoryNext = 0, HistoryCount = 0, HistoryPos = 0\<rparr>"

definition demo_session :: session where
  "demo_session = \<lparr>SessionTick = 0, ExplorerSession = [], PlayerSession = []\<rparr>"

lemma demo_shell_fields [simp]:
  "Env demo_shell = demo_kernel" "Line demo_shell = []" "\<not> InProgram demo_kernel" "\<not> PoweredOff demo_kernel"
  by (simp_all add: demo_shell_def demo_kernel_def)

lemma demo_shell_ok: "editor_ok demo_shell"
  by (simp add: editor_ok_def demo_shell_def the_past_def)

lemma ShellRounds_edit_witness:
  "\<exists>s'. ShellRounds (\<lambda>_. Some) [([KeyIrq 1 0x1E], demo_session)] demo_shell = Some s' \<and> Typed (the_editor s') = lit ''a''"
proof -
  have kbd: "fst (KeyboardGetKey (fst (KeyboardIrqHandler 1 0x1E keyboard_init))) = 97"
    by code_simp
  let ?a = "demo_shell\<lparr>Env := interrupts [KeyIrq 1 0x1E] demo_kernel\<rparr>"
  have get: "GetKey (Dsk (Env ?a)) = (97, snd (GetKey (Dsk (Env ?a))))"
    using kbd by (simp add: GetKey_def interrupts_def demo_kernel_def demo_explorer_def viewer.defs explorer.defs demo_viewer_def case_prod_beta prod_eq_iff)
  have total: "\<exists>t. on_env (put 97) s = Some t \<and> InProgram (Env t) = InProgram (Env s) \<and> PoweredOff (Env t) = PoweredOff (Env s)"
    "\<exists>t. on_env flush s = Some t" for s
    by (simp_all add: on_env_def put_def flush_def on_console_def ConsolePutChar_def)
  have "\<exists>s'. ShellRound (\<lambda>_. Some) demo_session ?a = Some s'"
    using total(1) [of "?a\<lparr>Env := (Env ?a)\<lparr>Dsk := snd (GetKey (Dsk (Env ?a)))\<rparr>, Line := [97]\<rparr>"] total(2)
    by (subst ShellRound_def, subst get) (auto simp: ShellKey_def KEY_UP_def KEY_DOWN_def LINE_MAX_def interrupts_def)
  then obtain s' where run: "ShellRounds (\<lambda>_. Some) [([KeyIrq 1 0x1E], demo_session)] demo_shell = Some s'"
    by auto
  have keys: "keys_read (\<lambda>_. Some) [([KeyIrq 1 0x1E], demo_session)] demo_shell = [97]"
    using arg_cong [OF get, of fst] by (simp add: Let_def split: option.splits)
  have "the_editor s' = fold edit [97] (the_editor demo_shell)"
    using ShellRounds_edit [OF demo_shell_ok run] keys by simp
  with run show ?thesis by (simp add: edit_def KEY_UP_def KEY_DOWN_def the_editor_def demo_shell_def the_past_def lit_def)
qed

end
