(* ===== verification/ShellCorrect.thy ===== *)
theory ShellCorrect
  imports ShellLine
begin

text \<open>
  What the shell guarantees: every command that returns leaves the console in step with the screen and the
  player's invariant intact, so that after every round the screen shows the console.
\<close>

section \<open>The invariant\<close>

text \<open>The console as it is drawn: in the frame buffer it shares.\<close>
definition con_view :: "kernel \<Rightarrow> console" where "con_view k = (Con k)\<lparr>Frame := Frame (Dsk k)\<rparr>"

definition kernel_ok :: "(int \<Rightarrow> medium) \<Rightarrow> kernel \<Rightarrow> bool" where
  "kernel_ok med k \<longleftrightarrow> player_ok med (files k) \<and> console_ok (con_view k) \<and> synced (con_view k)"

text \<open>A step that keeps it, neither starts nor ends a track, and mounts nothing.\<close>
definition sound :: "(int \<Rightarrow> medium) \<Rightarrow> kernel \<Rightarrow> kernel \<Rightarrow> bool" where
  "sound med k k' \<longleftrightarrow> kernel_ok med k' \<and> Active (files k') = Active (files k) \<and>
     FsVolumeCount (files k') = FsVolumeCount (files k) \<and> InProgram k' = InProgram k \<and> PoweredOff k' = PoweredOff k"

lemma sound_trans: "sound med k m \<Longrightarrow> sound med m n \<Longrightarrow> sound med k n" by (simp add: sound_def)
lemma sound_refl: "kernel_ok med k \<Longrightarrow> sound med k k" by (simp add: sound_def)
lemma soundD: "sound med k k' \<Longrightarrow> kernel_ok med k'" by (simp add: sound_def)
lemma sound_node: "sound med k k' \<Longrightarrow> node_ok (files k) N \<Longrightarrow> node_ok (files k') N" by (simp add: sound_def node_ok_def)

text \<open>A command that is such a step when it returns.\<close>
definition fine :: "(int \<Rightarrow> medium) \<Rightarrow> command \<Rightarrow> bool" where
  "fine med c \<longleftrightarrow> (\<forall>k k'. c k = Some k' \<longrightarrow> kernel_ok med k \<longrightarrow> sound med k k')"

named_theorems fine_intro

lemma fineI: "(\<And>k k'. c k = Some k' \<Longrightarrow> kernel_ok med k \<Longrightarrow> sound med k k') \<Longrightarrow> fine med c"
  unfolding fine_def by blast

lemma fineD: "fine med c \<Longrightarrow> c k = Some k' \<Longrightarrow> kernel_ok med k \<Longrightarrow> sound med k k'"
  unfolding fine_def by blast

lemma fine_steps: "list_all (fine med) cs \<Longrightarrow> fine med (steps cs)"
proof (induction cs)
  case Nil
  then show ?case by (simp add: fine_def sound_refl)
next
  case (Cons c cs)
  show ?case
  proof (rule fineI)
    fix k k' assume run: "steps (c # cs) k = Some k'" and ok: "kernel_ok med k"
    then obtain m where "c k = Some m" "steps cs m = Some k'" by (auto split: option.splits)
    with fineD [of med c k m] fineD [of med "steps cs" m k'] Cons ok
    show "sound med k k'" by (auto dest: soundD intro: sound_trans)
  qed
qed

lemma fine_Some [fine_intro]: "fine med Some" by (simp add: fine_def sound_refl)

lemma fine_if [fine_intro]: "fine med a \<Longrightarrow> fine med b \<Longrightarrow> fine med (if c then a else b)" by simp

section \<open>The console\<close>

lemma fine_console:
  assumes "\<And>c c'. f c = Some c' \<Longrightarrow> console_ok c \<Longrightarrow> synced c \<Longrightarrow> console_ok c' \<and> synced c'"
  shows "fine med (on_console f)"
proof (rule fineI)
  fix k k' assume run: "on_console f k = Some k'" and ok: "kernel_ok med k"
  then obtain c where c: "f (con_view k) = Some c" "k' = k\<lparr>Con := c, Dsk := (Dsk k)\<lparr>Frame := Frame c\<rparr>\<rparr>"
    by (auto simp: on_console_def con_view_def split: option.splits)
  have "con_view k' = c" by (simp add: con_view_def c(2))
  with assms [OF c(1)] ok c(2) show "sound med k k'"
    by (simp add: sound_def kernel_ok_def files_def)
qed

lemma console_step_fine: "console_step c c' \<Longrightarrow> console_ok c \<Longrightarrow> synced c \<Longrightarrow> console_ok c' \<and> synced c'"
  using console_step_keeps [of c c'] by blast

lemma print_steps: "ConsolePrint s c = Some c' \<Longrightarrow> console_step\<^sup>*\<^sup>* c c'"
proof (induction s c rule: ConsolePrint.induct)
  case (2 ch s c)
  then show ?case by (auto split: option.splits intro: converse_rtranclp_into_rtranclp console_step.put)
qed simp

lemma print_fine: "ConsolePrint s c = Some c' \<Longrightarrow> console_ok c \<Longrightarrow> synced c \<Longrightarrow> console_ok c' \<and> synced c'"
proof -
  assume "ConsolePrint s c = Some c'" and ok: "console_ok c" "synced c"
  from print_steps [OF this(1)] show ?thesis
    by (induction rule: rtranclp_induct) (use ok console_step_fine in auto)
qed

lemma fine_print: "fine med (on_console (ConsolePrint s))"
  by (rule fine_console) (rule print_fine)

lemma fine_step: "(\<And>c c'. f c = Some c' \<Longrightarrow> console_step c c') \<Longrightarrow> fine med (on_console f)"
  by (rule fine_console) (rule console_step_fine)

lemma console_fine [fine_intro]:
  "fine med (print s)" "fine med (put ch)" "fine med (print_uint v)" "fine med (print_hex v n)" "fine med (set_attr a)" "fine med flush"
  "fine med CmdClear"
proof -
  show "fine med (print s)" "fine med (print_uint v)" "fine med (print_hex v n)"
    unfolding print_def print_uint_def print_hex_def ConsolePrintUInt_def [abs_def] ConsolePrintHex_def [abs_def] by (rule fine_print)+
  show "fine med (put ch)" "fine med (set_attr a)" "fine med flush" "fine med CmdClear"
    unfolding put_def set_attr_def flush_def CmdClear_def by (rule fine_step, auto intro: console_step.intros)+
qed

section \<open>Below the console\<close>

definition tame :: "(int \<Rightarrow> medium) \<Rightarrow> player \<Rightarrow> player \<Rightarrow> bool" where
  "tame med p p' \<longleftrightarrow> (player_ok med p \<longrightarrow> player_ok med p' \<and> Active p' = Active p \<and> FsVolumeCount p' = FsVolumeCount p)"

lemma tame_rel: "reflp (tame med)" "transp (tame med)"
  by (auto simp: tame_def intro: reflpI transpI)

lemma tame_frames: "(\<And>p x p'. run_state m p = (x, p') \<Longrightarrow> tame med p p') \<Longrightarrow> frames (tame med) m"
  by (rule framesI [OF tame_rel])

lemma tame_bus: "off_bus p' = off_bus p \<Longrightarrow> tame med p p'"
proof -
  assume b: "off_bus p' = off_bus p"
  then have pos: "off_pos p' = off_pos p" by (simp add: off_pos_def)
  have "Active p' = Active p" "FsVolumeCount p' = FsVolumeCount p"
    using off_startD [OF conjunct1 [OF pos_off_start [OF pos]]] off_busD(12) [OF b] by (simp_all add: FsVolumeCount_def)
  with pos_ok [OF _ pos, of med] show ?thesis by (auto simp: tame_def)
qed

lemma tame_quiet: "frames (same off_bus) m \<Longrightarrow> frames (tame med) m"
  by (rule tame_frames) (auto intro: tame_bus sameD)

lemma tame_log: "klog_ok l \<or> \<not> klog_ok (Log p) \<Longrightarrow> tame med p (p\<lparr>Log := l\<rparr>)"
  using steady_log [of l med p] by (auto simp: tame_def steady_def player_ok_def fs_ok_def mounts_ok_def storage_ok_def)

lemma klogs_ok: "klog_ok l \<Longrightarrow> klog_ok (KLogs ss l)"
  unfolding KLogs_def by (induction ss arbitrary: l) (auto intro: inv_intro)

lemma tame_hlog: "frames (tame med) (hlog ss)"
proof (rule tame_frames)
  fix p p' :: player and x assume "run_state (hlog ss) p = (x, p')"
  then have "p' = p\<lparr>Log := KLogs ss (Log p)\<rparr>" by (simp add: hlog_def st_log_def)
  then show "tame med p p'" using klogs_ok by (auto intro!: tame_log)
qed

lemma frames_traverse:
  "reflp R \<Longrightarrow> transp R \<Longrightarrow> (\<And>x. frames R (f x)) \<Longrightarrow> frames R (State_Monad.traverse_list f xs)"
  by (induction xs) (auto intro!: quiet frames_return)

lemma tame_tone: "frames (tame med) HdaPlayTestTone"
  unfolding HdaPlayTestTone_def
  by (intro quiet tame_rel frames_ask frames_traverse tame_hlog register_changes [THEN tame_quiet] bus_changes [THEN tame_quiet] engine_quiet [THEN tame_quiet])

lemma kernel_files: "tame med (files k) p \<Longrightarrow> kernel_ok med k \<Longrightarrow> sound med k (set_files p k)"
  by (simp add: sound_def tame_def kernel_ok_def set_files_def files_def con_view_def)

lemma fine_files:
  assumes "frames (tame med) m" "\<And>x. fine med (c x)"
  shows "fine med (\<lambda>k. case on_files m k of (x, k) \<Rightarrow> c x k)"
proof (rule fineI)
  fix k k' assume run: "(case on_files m k of (x, k) \<Rightarrow> c x k) = Some k'" and ok: "kernel_ok med k"
  obtain x p where m: "run_state m (files k) = (x, p)" by (cases "run_state m (files k)")
  with run have "c x (set_files p k) = Some k'" by (simp add: on_files_def)
  with fineD [OF assms(2) this] kernel_files [OF framesD [OF assms(1) m] ok]
  show "sound med k k'" by (blast dest: soundD intro: sound_trans)
qed

lemma fine_bus:
  assumes "\<And>x. fine med (c x)"
  shows "fine med (\<lambda>k. case on_bus m k of (x, k) \<Rightarrow> c x k)"
proof (rule fineI)
  fix k k' assume run: "(case on_bus m k of (x, k) \<Rightarrow> c x k) = Some k'" and ok: "kernel_ok med k"
  obtain x b where m: "run_state m (HdaBus (files k)) = (x, b)" by (cases "run_state m (HdaBus (files k))")
  have "tame med (files k) ((files k)\<lparr>HdaBus := b\<rparr>)" by (rule tame_bus) (simp add: off_bus_def)
  from kernel_files [OF this ok] fineD [OF assms, of x _ k'] run m
  show "sound med k k'" by (auto simp: on_bus_def dest: soundD intro: sound_trans)
qed

lemma fine_steps_k: "(\<And>k. list_all (fine med) (cs k)) \<Longrightarrow> fine med (\<lambda>k. steps (cs k) k)"
  by (rule fineI) (rule fineD [OF fine_steps])

lemma fine_if_k: "fine med a \<Longrightarrow> fine med b \<Longrightarrow> fine med (\<lambda>k. if c k then a k else b k)"
  by (simp add: fine_def)

lemma fine_sum_k: "(\<And>e. fine med (a e)) \<Longrightarrow> (\<And>n. fine med (b n)) \<Longrightarrow> fine med (\<lambda>k. case r of Inl e \<Rightarrow> a e k | Inr n \<Rightarrow> b n k)"
  by (cases r) simp_all

lemma fine_option_k: "fine med a \<Longrightarrow> (\<And>n. fine med (b n)) \<Longrightarrow> fine med (\<lambda>k. case r of None \<Rightarrow> a k | Some n \<Rightarrow> b n k)"
  by (cases r) simp_all

lemmas fine_rules = fine_files fine_bus fine_steps_k fine_if_k fine_sum_k fine_option_k fine_steps fine_intro

section \<open>The simple commands\<close>

lemma pad_fine [fine_intro]: "fine med (PrintPadded Txt n)"
  unfolding PrintPadded_def by (rule fine_steps) (auto simp: list_all_iff intro: fine_intro)

lemma message_fine [fine_intro]:
  "fine med (error_line s)" "fine med (PrintFsError c)" "fine med (PrintKeyValue key v)" "fine med (PlayError t)"
  unfolding error_line_def PrintFsError_def PrintKeyValue_def PlayError_def
  by (rule fine_steps, simp add: fine_intro)+

lemma CmdEcho_fine: "fine med (CmdEcho Argv)"
  unfolding CmdEcho_def by (rule fine_steps) (auto simp: list_all_iff intro: fine_intro split: if_splits)

lemma CmdMem_fine: "fine med CmdMem"
  unfolding CmdMem_def [abs_def] Let_def by (rule fine_steps_k) (simp add: fine_intro)

lemma CmdLspci_fine: "fine med CmdLspci"
proof -
  have "fine med (LspciFunction Bus Dev Fn)" for Bus Dev Fn
    unfolding LspciFunction_def [abs_def] by (intro fine_rules) (simp add: fine_intro)
  then have "fine med (LspciDevice Bus Dev)" for Bus Dev
    unfolding LspciDevice_def [abs_def] Let_def by (intro fine_rules) (simp add: list_all_iff)
  then show ?thesis unfolding CmdLspci_def by (intro fine_rules) (simp add: list_all_iff)
qed

lemma CmdDisks_fine: "fine med CmdDisks"
  unfolding CmdDisks_def [abs_def] by (intro fine_rules) (auto simp: list_all_iff intro: fine_intro)

lemma CmdLsblk_fine: "fine med CmdLsblk"
proof -
  have "fine med (LsblkPart P)" for P unfolding LsblkPart_def [abs_def] by (intro fine_rules) (simp add: fine_intro)
  then show ?thesis unfolding CmdLsblk_def [abs_def] Let_def
    by (intro fine_if_k fine_intro fine_steps_k) (auto simp: list_all_iff intro: fine_intro)
qed

lemma CmdPwd_fine: "fine med CmdPwd"
  unfolding CmdPwd_def [abs_def] by (intro fine_if_k fine_intro fine_steps_k) (simp add: fine_intro)

lemma CmdHda_fine: "fine med CmdHda"
  unfolding CmdHda_def [abs_def] Let_def by (intro fine_if_k fine_intro fine_steps_k) (simp add: fine_intro)

lemma CmdHelp_fine: "fine med CmdHelp"
  unfolding CmdHelp_def by (rule fine_steps) (auto simp: list_all_iff intro: fine_intro)

section \<open>The commands on files\<close>

lemma tame_volumes: "steady med p p' \<Longrightarrow> Active p' = Active p \<Longrightarrow> tame med p p'"
  by (simp add: steady_def tame_def)

lemma tame_resolve: "frames (tame med) (State (FsResolve Input))"
proof (rule tame_frames)
  fix p p' :: player and x assume "run_state (State (FsResolve Input)) p = (x, p')"
  then have run: "FsResolve Input p = (x, p')" by simp
  obtain vs where "p' = p\<lparr>Volumes := vs\<rparr>" using FsResolve_volumes [OF run] by blast
  then show "tame med p p'" by (intro tame_volumes steady_resolve [OF run]) simp
qed

lemma tame_chdir: "frames (tame med) (State (FsChdir Input))"
proof (rule tame_frames)
  fix p p' :: player and x assume "run_state (State (FsChdir Input)) p = (x, p')"
  then have run: "FsChdir Input p = (x, p')" by simp
  obtain r q where r: "FsResolve Input p = (r, q)" by (cases "FsResolve Input p")
  obtain vs where q: "q = p\<lparr>Volumes := vs\<rparr>" using FsResolve_volumes [OF r] by blast
  have "p' = p\<lparr>Volumes := vs, CwdVolume := CwdVolume p', CwdPathText := CwdPathText p'\<rparr> \<and> length vs = length (Volumes p)"
    using run r q FsResolve_count [OF r] by (auto simp: FsChdir_def FsVolumeCount_def split: sum.splits if_splits)
  then obtain v t us where p': "p' = p\<lparr>Volumes := us, CwdVolume := v, CwdPathText := t\<rparr>" "length us = length (Volumes p)" by blast
  show "tame med p p'" using FsChdir_ok [OF _ run, of med] p'
    by (auto simp: tame_def player_ok_def node_ok_def ring_ready_def FsVolumeCount_def)
qed

lemma CmdCd_fine: "fine med (CmdCd Argv)"
  unfolding CmdCd_def [abs_def] by (intro fine_if_k fine_files fine_intro tame_chdir CmdPwd_fine)

text \<open>A node that is resolved can be read.\<close>
definition reads :: "(int \<Rightarrow> medium) \<Rightarrow> fs_node \<Rightarrow> command \<Rightarrow> bool" where
  "reads med N c \<longleftrightarrow> (\<forall>k k'. c k = Some k' \<longrightarrow> kernel_ok med k \<longrightarrow> node_ok (files k) N \<longrightarrow>
     sound med k k')"

lemma readsI: "(\<And>k k'. c k = Some k' \<Longrightarrow> kernel_ok med k \<Longrightarrow> node_ok (files k) N \<Longrightarrow>
    sound med k k') \<Longrightarrow> reads med N c"
  unfolding reads_def by blast

lemma fine_reads: "fine med c \<Longrightarrow> reads med N c" by (simp add: fine_def reads_def)

lemma reads_if: "reads med N a \<Longrightarrow> reads med N b \<Longrightarrow> reads med N (\<lambda>k. if c then a k else b k)" by (simp add: reads_def)

lemma fine_resolve:
  assumes "\<And>e. fine med (a e)" "\<And>N. reads med N (b N)"
  shows "fine med (\<lambda>k. case on_files (State (FsResolve Input)) k of (Inl e, k) \<Rightarrow> a e k | (Inr N, k) \<Rightarrow> b N k)"
proof (rule fineI)
  fix k k' assume run: "(case on_files (State (FsResolve Input)) k of (Inl e, k) \<Rightarrow> a e k | (Inr N, k) \<Rightarrow> b N k) = Some k'"
    and ok: "kernel_ok med k"
  obtain r p where r: "FsResolve Input (files k) = (r, p)" by (cases "FsResolve Input (files k)")
  have t: "tame med (files k) p" using framesD [OF tame_resolve, of Input "files k"] r by simp
  note k1 = kernel_files [OF this ok]
  show "sound med k k'"
  proof (cases r)
    case (Inl e)
    with run r have "a e (set_files p k) = Some k'" by (simp add: on_files_def)
    with fineD [OF assms(1) this] k1 show ?thesis by (blast dest: soundD intro: sound_trans)
  next
    case (Inr N)
    with run r have b: "b N (set_files p k) = Some k'" by (simp add: on_files_def)
    have "player_ok med (files k)" using ok by (simp add: kernel_ok_def)
    then have "node_ok (files (set_files p k)) N" using steady_resolve(2) [OF r] Inr by (simp add: files_def set_files_def)
    with assms(2) b k1 show ?thesis unfolding reads_def by (blast dest: soundD intro: sound_trans)
  qed
qed

lemma reads_read:
  assumes "fs_read N off len = m" "on_files m k = (r, k1)" "kernel_ok med k" "node_ok (files k) N"
  shows "sound med k k1" "node_ok (files k1) N"
proof -
  obtain n out p where r: "FsRead N off len (files k) = (n, out, p)" by (metis prod_cases3)
  have k1: "k1 = set_files p k" using assms(1,2) r by (auto simp: fs_read_def on_files_def)
  have "fs_ok med (files k)" using assms(3) by (simp add: kernel_ok_def player_ok_def)
  from FsRead_outcome(1) [OF this assms(4) r] have p: "Active p = Active (files k)" by auto
  have "tame med (files k) p" using steady_read(1) [OF assms(4) r] p by (rule tame_volumes)
  from kernel_files [OF this assms(3)] steady_read(2) [OF assms(4) r] show "sound med k k1" "node_ok (files k1) N"
    by (simp_all add: k1 files_def set_files_def)
qed

lemma reads_fs_read:
  assumes "\<And>r. fine med (c r)"
  shows "reads med N (\<lambda>k. case on_files (fs_read N off len) k of (r, k) \<Rightarrow> c r k)"
proof (rule readsI)
  fix k k' assume run: "(case on_files (fs_read N off len) k of (r, k) \<Rightarrow> c r k) = Some k'" and ok: "kernel_ok med k" "node_ok (files k) N"
  obtain r k1 where r: "on_files (fs_read N off len) k = (r, k1)" by (cases "on_files (fs_read N off len) k")
  from reads_read(1) [OF refl r ok] fineD [OF assms, of r k1 k'] run r show "sound med k k'"
    by (auto dest: soundD intro: sound_trans)
qed

lemma HexRow_fine [fine_intro]: "fine med (HexRow Off Row)"
  unfolding HexRow_def by (rule fine_steps) (auto simp: list_all_iff intro: fine_intro split: if_splits)

lemma CmdHexdump_fine: "fine med (CmdHexdump Argv)"
proof -
  have dump: "fine med (\<lambda>k. case r of (Got, Bytes) \<Rightarrow> steps (map (\<lambda>i. HexRow (Offset + of_nat (16 * i)) (take 16 (drop (16 * i) (take (unat Got) Bytes)))) [0..<(unat Got + 15) div 16] @
              (if Got = 0 then [print (lit ''nothing to read at this offset'' @ [10])] else [])) k)" for r Offset
    by (cases r, simp only: prod.case, rule fine_steps) (auto simp: list_all_iff intro: fine_intro)
  show ?thesis unfolding CmdHexdump_def [abs_def] Let_def
    by (intro fine_if_k fine_option_k fine_resolve reads_if reads_fs_read dump fine_reads fine_intro)
qed

lemma cat_char_fine [fine_intro]: "fine med (cat_char c)"
  unfolding cat_char_def by (intro fine_intro)

lemma CatLoop_ok:
  "CatLoop N Offset k = Some (off, k') \<Longrightarrow> kernel_ok med k \<Longrightarrow> node_ok (files k) N \<Longrightarrow> sound med k k'"
proof (induction N Offset k arbitrary: off k' rule: CatLoop.induct)
  case (1 N Offset k)
  obtain Got Chunk m where r: "on_files (fs_read N (of_nat Offset) 1024) k = ((Got, Chunk), m)" by (metis surj_pair)
  note m = reads_read [OF refl r "1.prems"(2,3)]
  show ?case
  proof (cases "Offset < 65536 \<and> Got \<noteq> 0")
    case True
    then obtain n where n: "steps (map cat_char (take (unat Got) Chunk)) m = Some n" "CatLoop N (Offset + unat Got) n = Some (off, k')"
      using "1.prems"(1) r by (auto simp: CatLoop.simps [of N Offset k] split: option.splits)
    have "list_all (fine med) (map cat_char (take (unat Got) Chunk))" by (auto simp: list_all_iff intro: fine_intro)
    from fineD [OF fine_steps [OF this] n(1) soundD [OF m(1)]] have s: "sound med m n" .
    have "sound med n k'" using True
      by (intro "1.IH" [OF _ r [symmetric] refl _ n(1) n(2) soundD [OF s] sound_node [OF s m(2)]]) simp_all
    with s m(1) show ?thesis by (blast intro: sound_trans)
  next
    case False
    then have "k' = k \<or> k' = m" using "1.prems"(1) r by (auto simp: CatLoop.simps [of N Offset k] split: if_splits)
    with m(1) sound_refl [OF "1.prems"(2)] show ?thesis by auto
  qed
qed

lemma CmdCat_fine: "fine med (CmdCat Argv)"
proof -
  have "reads med N (\<lambda>k. case CatLoop N 0 k of None \<Rightarrow> None
          | Some (Offset, k) \<Rightarrow>
              steps ((if Offset < unat (EntrySize (NodeEntry N))
                      then [set_attr CONSOLE_ATTR_DIM, print ([10] @ lit ''[truncated at 64 KB]''), set_attr CONSOLE_ATTR_NORMAL] else []) @
                [put 10]) k)" (is "reads med N (\<lambda>k. case CatLoop N 0 k of None \<Rightarrow> None | Some (Offset, k) \<Rightarrow> steps (?c Offset) k)") for N
  proof (rule readsI)
    fix k k' assume run: "(case CatLoop N 0 k of None \<Rightarrow> None | Some (Offset, k) \<Rightarrow> steps (?c Offset) k) = Some k'"
      and ok: "kernel_ok med k" "node_ok (files k) N"
    then obtain Offset m where m: "CatLoop N 0 k = Some (Offset, m)" "steps (?c Offset) m = Some k'" by (auto split: option.splits)
    have "list_all (fine med) (?c Offset)" by (simp add: fine_intro)
    from fineD [OF fine_steps [OF this] m(2)] CatLoop_ok [OF m(1) ok] show "sound med k k'" by (blast dest: soundD intro: sound_trans)
  qed
  then show ?thesis unfolding CmdCat_def [abs_def] 
    by (intro fine_if_k fine_resolve reads_if fine_intro) (simp_all add: fine_reads fine_intro)
qed

lemma PrintEntryLine_fine [fine_intro]: "fine med (PrintEntryLine E)"
  unfolding PrintEntryLine_def Let_def by (rule fine_steps) (simp add: fine_intro list_all_iff)

text \<open>The context of the callback carries the kernel that prints, while the file system is listed.\<close>
lemma LsCallback_kept: "context_kept (\<lambda>ctx. \<forall>k1. snd ctx = Some k1 \<longrightarrow> sound med k0 k1) LsCallback"
proof -
  have "PrintEntryLine E k = Some k1 \<Longrightarrow> sound med k0 k \<Longrightarrow> sound med k0 k1" for E k k1
    using fineD [OF PrintEntryLine_fine, of E k k1] by (blast dest: soundD intro: sound_trans)
  then show ?thesis by (auto simp: context_kept_def LsCallback_def split: option.splits)
qed

lemma CmdLs_fine: "fine med (CmdLs Argv)"
proof -
  have count: "fine med (\<lambda>k. if Status \<noteq> FS_OK then PrintFsError Status k
          else steps [set_attr CONSOLE_ATTR_DIM, print_uint (of_nat Count),
             print (lit (if Count = 1 then '' entry'' else '' entries'') @ [10]), set_attr CONSOLE_ATTR_NORMAL] k)" for Status Count
    by (intro fine_if_k fine_intro fine_steps) (simp add: fine_intro)
  have list: "reads med N (\<lambda>k. case FsList N LsCallback (0, Some k) (files k) of (Status, (Count, r), p) \<Rightarrow>
            (case r of None \<Rightarrow> None
             | Some k \<Rightarrow>
                 let k = set_files p k
                 in if Status \<noteq> FS_OK then PrintFsError Status k
                 else steps [set_attr CONSOLE_ATTR_DIM, print_uint (of_nat Count),
                        print (lit (if Count = 1 then '' entry'' else '' entries'') @ [10]), set_attr CONSOLE_ATTR_NORMAL] k))" for N
  proof (rule readsI)
    fix k k' assume ok: "kernel_ok med k" "node_ok (files k) N"
      and run: "(case FsList N LsCallback (0, Some k) (files k) of (Status, (Count, r), p) \<Rightarrow>
            (case r of None \<Rightarrow> None
             | Some k \<Rightarrow>
                 let k = set_files p k
                 in if Status \<noteq> FS_OK then PrintFsError Status k
                 else steps [set_attr CONSOLE_ATTR_DIM, print_uint (of_nat Count),
                        print (lit (if Count = 1 then '' entry'' else '' entries'') @ [10]), set_attr CONSOLE_ATTR_NORMAL] k)) = Some k'"
    obtain Status Count r p where l: "FsList N LsCallback (0, Some k) (files k) = (Status, (Count, r), p)" by (metis surj_pair)
    with run obtain m where r: "r = Some m" by (auto split: option.splits)
    have "\<forall>k1. snd (Count, r) = Some k1 \<longrightarrow> sound med k k1"
      by (rule FsList_context [OF LsCallback_kept _ l]) (use ok sound_refl in simp)
    then have m: "sound med k m" using r by simp
    have "Active p = Active (files k)" using l by (auto simp: FsList_def SetFat_def split: prod.splits if_splits)
    with steady_list [OF ok(2) l, of med] ok(1) m have s: "sound med k (set_files p m)"
      by (auto simp: steady_def sound_def kernel_ok_def files_def set_files_def con_view_def)
    with fineD [OF count [of Status Count], of "set_files p m" k'] run l r show "sound med k k'"
      by (auto simp: Let_def dest: soundD intro: sound_trans)
  qed
  show ?thesis unfolding CmdLs_def [abs_def]
    by (intro fine_if_k fine_resolve reads_if fine_intro) (simp_all add: list fine_reads fine_intro)
qed

section \<open>The log and the sound\<close>

lemma fine_quiet_step: "frames (tame med) m \<Longrightarrow> fine med (\<lambda>k. Some (snd (on_files m k)))"
  using fine_files [of med m "\<lambda>_. Some"] fine_Some by (simp add: fine_def case_prod_unfold)

lemma CmdBeep_fine: "fine med CmdBeep"
  unfolding CmdBeep_def [abs_def]
  by (intro fine_if_k fine_intro fine_steps) (simp add: fine_intro fine_quiet_step tame_tone)

lemma DmesgLoop_fine: "fine med (DmesgLoop Prefix Txt)"
proof (rule fineI)
  fix k k' show "DmesgLoop Prefix Txt k = Some k' \<Longrightarrow> kernel_ok med k \<Longrightarrow> sound med k k'"
  proof (induction Prefix Txt k rule: DmesgLoop.induct)
    case (1 Prefix Txt k)
    show ?case
    proof (cases "Txt = []")
      case False
      let ?cs = "(if LineHasPrefix Txt Prefix then map put (takeWhile (\<lambda>c. c \<noteq> 10) Txt) else []) @
         (if LineHasPrefix Txt Prefix \<and> dropWhile (\<lambda>c. c \<noteq> 10) Txt \<noteq> [] then [put 10] else [])"
      obtain m where m: "steps ?cs k = Some m" "DmesgLoop Prefix (drop 1 (dropWhile (\<lambda>c. c \<noteq> 10) Txt)) m = Some k'"
        using "1.prems"(1) False by (auto simp: DmesgLoop.simps [of Prefix Txt k] Let_def split: option.splits if_splits)
      have "list_all (fine med) ?cs" by (auto simp: list_all_iff intro: fine_intro)
      from fineD [OF fine_steps [OF this] m(1) "1.prems"(2)] have s: "sound med k m" .
      from "1.IH" [OF False refl refl refl m(1) m(2) soundD [OF s]] s show ?thesis by (blast intro: sound_trans)
    next
      case True
      then have "k' = k" using "1.prems"(1) by (simp add: DmesgLoop.simps [of Prefix "[]" k])
      with sound_refl [OF "1.prems"(2)] show ?thesis by simp
    qed
  qed
qed

lemma CmdDmesg_fine: "fine med (CmdDmesg Argv)"
proof -
  have log: "frames (tame med) (State (\<lambda>p. case KLogText (Log p) of (Txt, l) \<Rightarrow> (Txt, p\<lparr>Log := l\<rparr>)))"
  proof (rule tame_frames)
    fix p p' :: player and x assume "run_state (State (\<lambda>p. case KLogText (Log p) of (Txt, l) \<Rightarrow> (Txt, p\<lparr>Log := l\<rparr>))) p = (x, p')"
    then obtain l where l: "KLogText (Log p) = (x, l)" "p' = p\<lparr>Log := l\<rparr>" by (auto split: prod.splits)
    have "klog_ok (Log p) \<Longrightarrow> klog_ok l" using l(1) by (auto simp: KLogText_def Let_def klog_ok_def)
    then show "tame med p p'" unfolding l(2) by (blast intro: tame_log)
  qed
  have "CmdDmesg Argv = (\<lambda>k. case on_files (State (\<lambda>p. case KLogText (Log p) of (Txt, l) \<Rightarrow> (Txt, p\<lparr>Log := l\<rparr>))) k of
      (Txt, k) \<Rightarrow> if length Argv < 2 then print Txt k else DmesgLoop (Argv ! 1) Txt k)"
    by (auto simp: CmdDmesg_def on_files_def Let_def fun_eq_iff split: prod.splits)
  then show ?thesis by (simp only:) (intro fine_files fine_if_k log fine_intro DmesgLoop_fine)
qed

section \<open>Playing\<close>

text \<open>The command has ended with the player at rest, or its program goes on.\<close>
definition ended :: "(int \<Rightarrow> medium) \<Rightarrow> kernel \<Rightarrow> bool" where
  "ended med k \<longleftrightarrow> InProgram k \<or> PoweredOff k \<or> kernel_ok med k \<and> \<not> Active (files k)"

lemma fine_ended: "fine med c \<Longrightarrow> c k = Some k' \<Longrightarrow> kernel_ok med k \<Longrightarrow> \<not> Active (files k) \<Longrightarrow> ended med k'"
  by (auto simp: ended_def sound_def dest: fineD)

lemma kernel_player: "steady med (files k) p \<Longrightarrow> kernel_ok med k \<Longrightarrow> kernel_ok med (set_files p k)"
  by (simp add: steady_def kernel_ok_def set_files_def files_def con_view_def)

lemma desk_irq_frame [simp]: "Frame (desk_irq i d) = Frame d" "Frame (fold desk_irq is d) = Frame d"
proof -
  show one: "Frame (desk_irq i d) = Frame d" for i d by (cases i) simp_all
  show "Frame (fold desk_irq is d) = Frame d" by (induction "is" arbitrary: d) (simp_all add: one)
qed

lemma desk_irq_files [simp]: "Files (desk_irq i d) = Files d" "Files (fold desk_irq is d) = Files d"
proof -
  show one: "Files (desk_irq i d) = Files d" for i d by (cases i) simp_all
  show "Files (fold desk_irq is d) = Files d" by (induction "is" arbitrary: d) (simp_all add: one)
qed

lemma drain_same [simp]: "Frame (drain_keys n d) = Frame d" "Files (drain_keys n d) = Files d"
  by (induction n arbitrary: d) (auto simp: GetKey_def split: prod.split)

lemma sound_desk: "Frame x = Frame (Dsk k) \<Longrightarrow> Files x = Files (Dsk k) \<Longrightarrow> kernel_ok med k \<Longrightarrow> sound med k (k\<lparr>Dsk := x\<rparr>)"
  by (simp add: sound_def kernel_ok_def files_def con_view_def)

lemma sound_interrupts: "kernel_ok med k \<Longrightarrow> sound med k (interrupts irqs k)"
  unfolding interrupts_def by (rule sound_desk) simp_all

lemma sound_drain: "kernel_ok med k \<Longrightarrow> sound med k (drain k)"
  unfolding drain_def by (rule sound_desk) simp_all

lemma PrintTime_fine [fine_intro]: "fine med (PrintTime s)"
  unfolding PrintTime_def by (rule fine_steps) (simp add: fine_intro)

lemma play_fine:
  "fine med (PlayProgress l s)" "fine med (PlayHeader P)" "fine med (PlayFooter b)"
proof -
  show "fine med (PlayHeader P)" unfolding PlayHeader_def by (rule fine_steps) (simp add: fine_intro)
  show "fine med (PlayProgress l s)" unfolding PlayProgress_def [abs_def]
    by (intro fine_if_k fine_intro fine_steps_k) (simp add: fine_intro)
  show "fine med (PlayFooter b)" unfolding PlayFooter_def [abs_def]
    by (intro fine_steps_k) (simp add: fine_intro)
qed

lemma PlayRound_ok:
  assumes ok: "kernel_ok med k" and run: "PlayRound l k = Some (r, k')"
  shows "kernel_ok med k' \<and> InProgram k' = InProgram k \<and> PoweredOff k' = PoweredOff k \<and> ((\<exists>b. r = Ended b) \<longrightarrow> \<not> Active (files k'))"
proof (cases "Active (files k)")
  case False
  with run ok show ?thesis by (auto simp: PlayRound_def)
next
  case True
  obtain x p where poll: "run_state PlayerPoll (files k) = (x, p)" by (cases "run_state PlayerPoll (files k)")
  define a where "a = set_files p k"
  have a: "kernel_ok med a" "InProgram a = InProgram k" "PoweredOff a = PoweredOff k" unfolding a_def
    by (rule kernel_player [OF steady_player(1) [OF poll] ok]) (simp_all add: set_files_def)
  have polled: "snd (on_files PlayerPoll k) = a" by (simp add: on_files_def poll a_def)
  show ?thesis
  proof (cases "Active (files a)")
    case False
    with run True polled a show ?thesis by (auto simp: PlayRound_def)
  next
    case act: True
    define b where "b = drain a"
    have b: "sound med a b" unfolding b_def by (rule sound_drain [OF a(1)])
    show ?thesis
    proof (cases "fst (GetKey (Dsk a)) \<noteq> 0")
      case abort: True
      obtain y q where stop: "run_state PlayerStop (files b) = (y, q)" by (cases "run_state PlayerStop (files b)")
      have k': "r = Ended True" "k' = set_files q b"
        using run True act polled abort stop by (auto simp: PlayRound_def AbortRequested_def b_def on_files_def Let_def)
      have "kernel_ok med k'" unfolding k' by (rule kernel_player [OF steady_player(3) [OF stop] soundD [OF b]])
      moreover have "\<not> Active q" using PlayerStop_outcome(2) [OF stop, of med] soundD [OF b] by (simp add: kernel_ok_def)
      ultimately show ?thesis using k' a b by (simp add: set_files_def files_def sound_def)
    next
      case False
      obtain s q where el: "run_state PlayerElapsedSeconds (files b) = (s, q)" by (cases "run_state PlayerElapsedSeconds (files b)")
      obtain m where m: "PlayProgress l s (set_files q b) = Some m" "r = Goes s" "k' = snd (on_bus (change (bus_pause 2)) m)"
        using run True act polled False el
        by (auto simp: PlayRound_def AbortRequested_def b_def on_files_def Let_def split: option.splits)
      have c: "kernel_ok med (set_files q b)" by (rule kernel_player [OF steady_player(4) [OF el] soundD [OF b]])
      from fineD [OF play_fine(1) m(1) c] have d: "sound med (set_files q b) m" .
      have "sound med m k'" using fineD [OF fine_bus [OF fine_Some], of "change (bus_pause 2)" m k' med] soundD [OF d] m(3)
        by (simp add: case_prod_unfold)
      with d a b m(2) show ?thesis by (auto simp: sound_def set_files_def)
    qed
  qed
qed

lemma PlayLoop_ok:
  "kernel_ok med k \<Longrightarrow> PlayLoop rs l k = Some (r, k') \<Longrightarrow> kernel_ok med k' \<and> InProgram k' = InProgram k \<and> PoweredOff k' = PoweredOff k \<and>
     ((\<exists>b. r = Ended b) \<longrightarrow> \<not> Active (files k'))"
proof (induction rs l k rule: PlayLoop.induct)
  case (2 irqs rs l k)
  obtain q m where m: "PlayRound l k = Some (q, m)" using "2.prems"(2) by (auto split: option.splits prod.splits)
  note round = PlayRound_ok [OF "2.prems"(1) m]
  show ?case
  proof (cases q)
    case (Goes s)
    have i: "sound med m (interrupts irqs m)" using round sound_interrupts by blast
    have "PlayLoop rs s (interrupts irqs m) = Some (r, k')" using "2.prems"(2) m Goes by simp
    from "2.IH" [OF m refl Goes soundD [OF i] this] round i show ?thesis by (simp add: sound_def)
  next
    case (Ended b)
    with m "2.prems"(2) round show ?thesis by simp
  qed
next
  case (1 l k)
  from PlayRound_ok [OF 1(1)] 1(2) show ?case by simp
qed

lemma PlayWavFile_ok:
  assumes ok: "kernel_ok med k" and rest: "\<not> Active (files k)" and run: "PlayWavFile S Path k = Some k'"
  shows "ended med k'"
proof -
  obtain e p where st: "run_state (PlayerStart Path) (files k) = (e, p)" by (cases "run_state (PlayerStart Path) (files k)")
  have a: "kernel_ok med (set_files p k)" by (rule kernel_player [OF steady_player(2) [OF st] ok])
  have pl: "player_ok med (files k)" using ok by (simp add: kernel_ok_def)
  show ?thesis
  proof (cases e)
    case (Some Error)
    have "\<not> Active (files (set_files p k))" using PlayerStart_outcome [OF pl st] Some by (simp add: files_def set_files_def)
    moreover have "PlayError (lit Error) (set_files p k) = Some k'" using run st Some by (simp add: PlayWavFile_def on_files_def)
    ultimately show ?thesis by (intro fine_ended [OF message_fine(4) _ a])
  next
    case None
    obtain m where m: "PlayHeader (Public p) (set_files p k) = Some m"
      using run st None by (auto simp: PlayWavFile_def on_files_def files_def set_files_def split: option.splits)
    have "sound med m (drain m)" by (rule sound_drain [OF soundD [OF fineD [OF play_fine(2) m a]]])
    note d = soundD [OF this]
    obtain r n where n: "PlayLoop (PlayerSession S) 0xFFFFFFFF (drain m) = Some (r, n)"
      and fin: "(case r of Goes _ \<Rightarrow> Some (n\<lparr>InProgram := True\<rparr>) | Ended b \<Rightarrow> PlayFooter b n) = Some k'"
      using run st None m by (auto simp: PlayWavFile_def on_files_def files_def set_files_def split: option.splits)
    note l = PlayLoop_ok [OF d n]
    show ?thesis
    proof (cases r)
      case (Goes s)
      with fin show ?thesis by (auto simp: ended_def)
    next
      case (Ended b)
      with fin l show ?thesis by (intro fine_ended [OF play_fine(3), of b n]) auto
    qed
  qed
qed

lemma CmdPlay_ok:
  assumes ok: "kernel_ok med k" and rest: "\<not> Active (files k)" and run: "CmdPlay S Argv k = Some k'"
  shows "ended med k'"
proof -
  consider "print (lit ''usage: play <file.wav>'' @ [10]) k = Some k'" | "error_line ''HDA stream is not available'' k = Some k'"
    | "PlayWavFile S (Argv ! 1) k = Some k'" using run by (auto simp: CmdPlay_def split: if_splits)
  then show ?thesis
  proof cases
    case 1
    then show ?thesis by (intro fine_ended [OF _ _ ok rest]) (rule fine_intro)
  next
    case 2
    then show ?thesis by (intro fine_ended [OF _ _ ok rest]) (rule fine_intro)
  next
    case 3
    then show ?thesis by (rule PlayWavFile_ok [OF ok rest])
  qed
qed

section \<open>The explorer\<close>

lemma ExplorerRounds_stop: "explorer_ok med x \<Longrightarrow> ExplorerRounds rs x = (True, y) \<Longrightarrow> \<not> Active (Files y)"
proof (induction rs x rule: ExplorerRounds.induct)
  case (2 irqs t vs rs x)
  have "explorer_ok med (fold desk_irq irqs x)" by (rule mild_explorer [OF mild_outer "2.prems"(1)]) simp
  then have r: "explorer_ok med (snd (ExplorerRound t vs (fold desk_irq irqs x)))" by (rule ExplorerRound_ok)
  obtain l z where z: "ExplorerRound t vs (fold desk_irq irqs x) = (l, z)" by (cases "ExplorerRound t vs (fold desk_irq irqs x)")
  have go: "\<not> (InViewer x \<or> Halted x)" using "2.prems"(2) by auto
  show ?case
  proof (cases l)
    case True
    obtain u q where stop: "run_state PlayerStop (Files z) = (u, q)" by (cases "run_state PlayerStop (Files z)")
    have "player_ok med (Files z)" using r z by (simp add: explorer_ok_def)
    from PlayerStop_outcome(2) [OF stop this] have "\<not> Active q" by simp
    moreover have "y = UiCursorHide (z\<lparr>Files := q\<rparr>)" using "2.prems"(2) go z True stop by (simp add: ExplorerClose_def on_player_def)
    ultimately show ?thesis using ui_only_hide [of "z\<lparr>Files := q\<rparr>"] by (auto simp: ui_only_def)
  next
    case False
    then show ?thesis using "2.IH" [OF go z [symmetric] False] "2.prems"(2) r z go by simp
  qed
qed simp

lemma ExplorerRun_ok:
  assumes ok: "kernel_ok med k" and rest: "\<not> Active (files k)" and run: "ExplorerRun S k = Some k'"
  shows "ended med k'"
proof -
  obtain b x where opens: "ExplorerOpen (SessionTick S) (Dsk k) = (b, x)" by (cases "ExplorerOpen (SessionTick S) (Dsk k)")
  have pl: "player_ok med (Files (Dsk k))" and con: "console_ok (con_view k)" using ok by (simp_all add: kernel_ok_def files_def)
  show ?thesis
  proof (cases b)
    case False
    let ?cs = "[set_attr CONSOLE_ATTR_ERROR, print (ErrorFormat E_SCREEN_SMALL (Some []) 160), put 10, set_attr CONSOLE_ATTR_NORMAL]"
    have m: "steps ?cs (k\<lparr>Dsk := x\<rparr>) = Some k'" using run opens False by (simp add: ExplorerRun_def)
    have "Frame x = Frame (Dsk k)" "Files x = (files k)\<lparr>Log := ErrorLog (lit ''explorer'') E_SCREEN_SMALL (Some []) (Log (files k))\<rparr>"
      using opens False by (auto simp: ExplorerOpen_def Let_def desk_log_def UiInit_def Layout_def files_def split: if_splits)
    with steady_ErrorLog [of med "files k"] ok rest have "kernel_ok med (k\<lparr>Dsk := x\<rparr>) \<and> \<not> Active (files (k\<lparr>Dsk := x\<rparr>))"
      by (auto simp: kernel_ok_def con_view_def files_def steady_def)
    then show ?thesis by (intro fine_ended [OF fine_steps m]) (simp_all add: fine_intro)
  next
    case True
    obtain l y where r: "ExplorerRounds (ExplorerSession S) x = (l, y)" by (cases "ExplorerRounds (ExplorerSession S) x")
    have x: "explorer_ok med x" using ExplorerOpen_ok [OF pl] opens True by simp
    show ?thesis
    proof (cases l)
      case False
      then show ?thesis using run opens True r by (auto simp: ExplorerRun_def ended_def)
    next
      case left: True
      have y: "player_ok med (Files y)" "\<not> Active (Files y)"
        using ExplorerRounds_ok [OF x, of "ExplorerSession S"] ExplorerRounds_stop [OF x] r left by (simp_all add: explorer_ok_def)
      let ?c = "(Con k)\<lparr>Frame := Frame y\<rparr>"
      have "console_ok ?c" using con by (simp add: console_ok_def con_view_def frame_ok_def)
      note c = ConsoleRefresh_spec [OF this]
      have "k' = k\<lparr>Con := ConsoleRefresh ?c, Dsk := y\<lparr>Frame := Frame (ConsoleRefresh ?c)\<rparr>\<rparr>"
        using run opens True r left by (simp add: ExplorerRun_def on_console_def)
      then show ?thesis using c y by (simp add: ended_def kernel_ok_def con_view_def files_def)
    qed
  qed
qed

section \<open>Reboot and shutdown\<close>

lemma CmdReboot_ok: "CmdReboot k = Some k' \<Longrightarrow> ended med k'"
  by (auto simp: CmdReboot_def ended_def split: option.splits)

lemma CmdShutdown_fine: "fine med CmdShutdown"
proof -
  have down: "fine med (\<lambda>k. case on_bus (PowerShutdown p) k of (Txt, k) \<Rightarrow> if Txt = [] then Some k else steps [print Txt, flush] k)" for p
  proof (rule fine_bus)
    fix Txt :: cstring
    show "fine med (\<lambda>k. if Txt = [] then Some k else steps [print Txt, flush] k)"
      by (intro fine_if_k fine_intro fine_steps) (simp add: fine_intro)
  qed
  have "fine med (\<lambda>k. case on_bus (PowerShutdown (Pwr k)) k of (Txt, k) \<Rightarrow> if Txt = [] then Some k else steps [print Txt, flush] k)"
    by (rule fineI) (rule fineD [OF down])
  then show ?thesis unfolding CmdShutdown_def by (intro fine_steps) (simp add: fine_intro)
qed

section \<open>Executing a line\<close>

text \<open>What is assumed of the command that is a parameter.\<close>
definition keeps_kernel :: "(int \<Rightarrow> medium) \<Rightarrow> command \<Rightarrow> bool" where
  "keeps_kernel med c \<longleftrightarrow> (\<forall>k k'. kernel_ok med k \<longrightarrow> \<not> Active (files k) \<longrightarrow> c k = Some k' \<longrightarrow> ended med k')"

lemma fine_keeps: "fine med c \<Longrightarrow> keeps_kernel med c"
  unfolding keeps_kernel_def by (blast intro: fine_ended)

lemma commands_keep:
  assumes "keeps_kernel med (Usb Argv)"
  shows "list_all (keeps_kernel med) (CommandFns Usb S Argv)"
proof -
  have "keeps_kernel med (CmdPlay S Argv)" "keeps_kernel med (CmdExplorer S)" "keeps_kernel med CmdReboot"
    unfolding keeps_kernel_def CmdExplorer_def by (auto intro: CmdPlay_ok ExplorerRun_ok CmdReboot_ok)
  with assms show ?thesis
    by (simp add: CommandFns_def fine_keeps CmdHelp_fine console_fine(7) CmdEcho_fine CmdMem_fine CmdLspci_fine CmdDisks_fine CmdLsblk_fine
        CmdLs_fine CmdCd_fine CmdPwd_fine CmdCat_fine CmdHexdump_fine CmdHda_fine CmdDmesg_fine CmdBeep_fine CmdShutdown_fine)
qed

lemma Execute_keeps:
  assumes "\<And>Argv. keeps_kernel med (Usb Argv)"
  shows "keeps_kernel med (Execute Usb S Ln)"
proof (cases "SplitLine Ln")
  case Nil
  then show ?thesis by (simp add: Execute_def fine_keeps fine_intro)
next
  case (Cons Nm args)
  let ?fns = "zip CommandTable (CommandFns Usb S (Nm # args))"
  show ?thesis
  proof (cases "find (\<lambda>((n, _), _). str_eq Nm (lit n)) ?fns")
    case None
    have "fine med (UnknownCommand Nm)" unfolding UnknownCommand_def by (rule fine_steps) (simp add: fine_intro)
    with Cons None show ?thesis by (simp add: Execute_def fine_keeps)
  next
    case (Some e)
    then have "e \<in> set ?fns" by (metis find_Some_iff nth_mem)
    moreover obtain n h c where "e = ((n, h), c)" by (metis surj_pair)
    ultimately have "snd e \<in> set (CommandFns Usb S (Nm # args))" by (auto dest: set_zip_rightD)
    with commands_keep [of med Usb "Nm # args" S] assms have "keeps_kernel med (snd e)" by (simp add: list_all_iff)
    with Cons Some show ?thesis by (cases e) (simp add: Execute_def)
  qed
qed

section \<open>The rounds\<close>

definition shows_console :: "kernel \<Rightarrow> bool" where "shows_console k \<longleftrightarrow> all_shown (con_view k)"

lemma on_env_keeps:
  "keeps_kernel med c \<Longrightarrow> on_env c s = Some s' \<Longrightarrow> kernel_ok med (Env s) \<Longrightarrow> \<not> Active (files (Env s)) \<Longrightarrow> ended med (Env s')"
  by (auto simp: on_env_def keeps_kernel_def split: option.splits)

lemma on_env_fine:
  "fine med c \<Longrightarrow> on_env c s = Some s' \<Longrightarrow> kernel_ok med (Env s) \<Longrightarrow> sound med (Env s) (Env s')"
  by (auto simp: on_env_def split: option.splits dest: fineD)

lemma PrintPrompt_fine: "fine med PrintPrompt"
  unfolding PrintPrompt_def [abs_def] by (rule fine_steps_k) (simp add: fine_intro)

lemma ReplaceInput_ok:
  "ReplaceInput Txt s = Some s' \<Longrightarrow> kernel_ok med (Env s) \<Longrightarrow> sound med (Env s) (Env s')"
  unfolding ReplaceInput_def Let_def
  by (drule on_env_fine [of med, rotated]) (auto intro!: fine_steps simp: list_all_iff fine_intro)

lemma ended_cases: "ended med k \<Longrightarrow> InProgram k \<or> PoweredOff k \<or> kernel_ok med k \<and> \<not> Active (files k)"
  by (simp add: ended_def)

lemma sound_ended: "sound med k k' \<Longrightarrow> kernel_ok med k \<Longrightarrow> \<not> Active (files k) \<Longrightarrow> ended med k'"
  by (simp add: sound_def ended_def)

lemma ShellKey_ok:
  assumes usb: "\<And>Argv. keeps_kernel med (Usb Argv)" and ok: "kernel_ok med (Env s)" "\<not> Active (files (Env s))"
    and run: "ShellKey Usb S Key s = Some s'"
  shows "ended med (Env s')"
proof (cases "Key = 10")
  case True
  obtain a where a: "on_env (put 10) s = Some a" using run True by (auto simp: ShellKey_def split: option.splits)
  have sa: "sound med (Env s) (Env a)" by (rule on_env_fine [OF _ a ok(1)]) (rule fine_intro)
  obtain b where b: "on_env (Execute Usb S (Line a)) (HistoryAdd a) = Some b"
    using run True a by (auto simp: ShellKey_def Let_def split: option.splits)
  have "Env (HistoryAdd a) = Env a" by (simp add: HistoryAdd_def Let_def)
  then have eb: "ended med (Env b)" using sa ok by (intro on_env_keeps [OF Execute_keeps [OF usb] b]) (simp_all add: sound_def)
  let ?b = "b\<lparr>Line := [], HistoryPos := 0\<rparr>"
  have s': "Some s' = (if InProgram (Env b) \<or> PoweredOff (Env b) then Some ?b else on_env PrintPrompt ?b)"
    using run True a b by (simp add: ShellKey_def Let_def)
  show ?thesis
  proof (cases "InProgram (Env b) \<or> PoweredOff (Env b)")
    case False
    then have k: "kernel_ok med (Env ?b)" "\<not> Active (files (Env ?b))" using eb by (simp_all add: ended_def)
    from False s' have "on_env PrintPrompt ?b = Some s'" by simp
    from sound_ended [OF on_env_fine [OF PrintPrompt_fine this k(1)] k] show ?thesis .
  qed (use s' eb in simp)
next
  case False
  have h: "ended med (Env s')" if hist: "HistoryStep d s = Some s'" for d
  proof (cases "s' = s")
    case True
    then show ?thesis using ok by (simp add: ended_def)
  next
    case False
    then obtain n Txt where "ReplaceInput Txt (s\<lparr>HistoryPos := n\<rparr>) = Some s'"
      using hist by (auto simp: HistoryStep_def Let_def split: if_splits)
    from ReplaceInput_ok [OF this, of med] ok show ?thesis by (auto intro: sound_ended)
  qed
  have p: "ended med (Env s')" if "on_env (put c) (s\<lparr>Line := l\<rparr>) = Some s'" for c l
    using on_env_fine [OF console_fine(2) that, of med] ok by (auto intro: sound_ended)
  from run False h p ok show ?thesis by (auto simp: ShellKey_def ended_def split: if_splits)
qed

text \<open>What holds between the rounds.\<close>
definition shell_ok :: "(int \<Rightarrow> medium) \<Rightarrow> shell \<Rightarrow> bool" where
  "shell_ok med s \<longleftrightarrow> InProgram (Env s) \<or> PoweredOff (Env s) \<or>
     kernel_ok med (Env s) \<and> \<not> Active (files (Env s)) \<and> shows_console (Env s)"

lemma flush_shows:
  assumes "on_env flush s = Some s'" "kernel_ok med (Env s)" "\<not> Active (files (Env s))"
  shows "shell_ok med s'"
proof -
  have "con_view (Env s') = ConsoleFlush (con_view (Env s))"
    using assms(1) by (auto simp: on_env_def flush_def on_console_def con_view_def split: option.splits)
  then have "shows_console (Env s')"
    using ConsoleFlush_spec(3) [of "con_view (Env s)"] assms(2) by (simp add: shows_console_def kernel_ok_def)
  with on_env_fine [OF console_fine(6) assms(1,2)] assms(3) show ?thesis by (simp add: shell_ok_def sound_def)
qed

lemma ShellRound_ok:
  assumes usb: "\<And>Argv. keeps_kernel med (Usb Argv)" and ok: "shell_ok med s" "\<not> InProgram (Env s)" "\<not> PoweredOff (Env s)"
    and run: "ShellRound Usb S s = Some s'"
  shows "shell_ok med s'"
proof -
  obtain Key x where g: "GetKey (Dsk (Env s)) = (Key, x)" by (cases "GetKey (Dsk (Env s))")
  let ?s = "s\<lparr>Env := (Env s)\<lparr>Dsk := x\<rparr>\<rparr>"
  have x: "Frame x = Frame (Dsk (Env s))" "Files x = Files (Dsk (Env s))" using g by (auto simp: GetKey_def split: prod.splits)
  have k: "kernel_ok med (Env s)" "\<not> Active (files (Env s))" "shows_console (Env s)" using ok by (auto simp: shell_ok_def)
  have s: "kernel_ok med (Env ?s)" "\<not> Active (files (Env ?s))" "shows_console (Env ?s)"
    using sound_desk [OF x k(1)] k x by (simp_all add: sound_def shows_console_def con_view_def)
  show ?thesis
  proof (cases "Key = 0")
    case True
    with run g have "s' = ?s" by (simp add: ShellRound_def)
    with s show ?thesis by (simp add: shell_ok_def)
  next
    case False
    then obtain t where t: "ShellKey Usb S Key ?s = Some t" using run g by (auto simp: ShellRound_def split: option.splits)
    have e: "ended med (Env t)" by (rule ShellKey_ok [OF usb s(1,2) t])
    have s': "Some s' = (if InProgram (Env t) \<or> PoweredOff (Env t) then Some t else on_env flush t)"
      using run False g t by (simp add: ShellRound_def)
    show ?thesis
    proof (cases "InProgram (Env t) \<or> PoweredOff (Env t)")
      case False
      with s' e show ?thesis by (intro flush_shows [of t]) (auto simp: ended_def)
    qed (use s' in \<open>auto simp: shell_ok_def\<close>)
  qed
qed

lemma ShellRounds_ok:
  assumes usb: "\<And>Argv. keeps_kernel med (Usb Argv)"
  shows "shell_ok med s \<Longrightarrow> ShellRounds Usb rs s = Some s' \<Longrightarrow> shell_ok med s'"
proof (induction rs arbitrary: s)
  case (Cons r rs)
  obtain irqs S where r: "r = (irqs, S)" by (cases r)
  show ?case
  proof (cases "InProgram (Env s) \<or> PoweredOff (Env s)")
    case False
    let ?a = "s\<lparr>Env := interrupts irqs (Env s)\<rparr>"
    have k: "kernel_ok med (Env s)" "\<not> Active (files (Env s))" "shows_console (Env s)" using Cons.prems(1) False by (auto simp: shell_ok_def)
    from sound_interrupts [OF k(1), of irqs] k False
    have a: "shell_ok med ?a" "\<not> InProgram (Env ?a)" "\<not> PoweredOff (Env ?a)"
      by (simp_all add: shell_ok_def sound_def shows_console_def con_view_def interrupts_def)
    obtain b where b: "ShellRound Usb S ?a = Some b" using Cons.prems(2) False r by (auto split: option.splits)
    have "ShellRounds Usb rs b = Some s'" using Cons.prems(2) False r b by simp
    from Cons.IH [OF ShellRound_ok [OF usb a b] this] show ?thesis .
  qed (use Cons.prems r in auto)
qed simp

lemma steps_append: "steps (xs @ ys) k = (case steps xs k of None \<Rightarrow> None | Some k \<Rightarrow> steps ys k)"
  by (induction xs arbitrary: k) (auto split: option.split)

lemma steps_one: "steps [c] k = c k" by (simp split: option.split)

lemma ShellStart_ok:
  assumes "kernel_ok med (Env s)" "\<not> Active (files (Env s))" "ShellStart s = Some s'"
  shows "shell_ok med s'"
proof -
  let ?cs = "[set_attr CONSOLE_ATTR_ACCENT, print (lit ''Bloom-OS console'' @ [10]), set_attr CONSOLE_ATTR_DIM,
       print (lit ''Type '' @ [39] @ lit ''help'' @ [39] @ lit '' for a list of commands.'' @ [10, 10]),
       set_attr CONSOLE_ATTR_NORMAL, PrintPrompt]"
  have "ShellStart s = on_env (steps (?cs @ [flush])) s" by (simp add: ShellStart_def)
  then obtain k where k: "steps ?cs (Env s) = Some k" "on_env flush (s\<lparr>Env := k\<rparr>) = Some s'"
    using assms(3) unfolding on_env_def steps_append steps_one by (auto split: option.splits simp del: steps.simps(2))
  have "list_all (fine med) ?cs" by (simp add: fine_intro PrintPrompt_fine)
  from fineD [OF fine_steps [OF this] k(1) assms(1)] assms(2) show ?thesis
    by (intro flush_shows [OF k(2)]) (simp_all add: sound_def)
qed

text \<open>C30: The shell keeps the kernel together. From a state in which the player's invariant holds, no track plays and the
  console is in step with the screen, after any rounds of the shell, with any keys and interrupts, whatever commands are
  entered, whatever the disks, the PCI bus and the audio device answer, and whatever happens inside the programs it runs: if the shell
  has control again, the player's invariant holds (with that of the file system and the memory below it), no
  track plays, and every cell of the screen shows the character of the console's grid, with the cursor. Only the command that
  scans the USB ports is assumed to leave such a state behind.\<close>
theorem shell_invariant:
  assumes "kernel_ok med (Env s)" "\<not> Active (files (Env s))" "\<And>Argv. keeps_kernel med (Usb Argv)"
    and "ShellRun Usb rs s = Some s'" "\<not> InProgram (Env s')" "\<not> PoweredOff (Env s')"
  shows "player_ok med (files (Env s')) \<and> \<not> Active (files (Env s')) \<and> all_shown (con_view (Env s'))"
proof -
  obtain a where a: "ShellStart s = Some a" "ShellRounds Usb rs a = Some s'"
    using assms(4) by (auto simp: ShellRun_def split: option.splits)
  from ShellRounds_ok [OF assms(3) ShellStart_ok [OF assms(1,2) a(1)] a(2)] assms(5,6)
  show ?thesis by (simp add: shell_ok_def kernel_ok_def shows_console_def)
qed

section \<open>An example\<close>

lemma print_returns: "list_all (\<lambda>c. c \<noteq> 9) s \<Longrightarrow> \<exists>c'. ConsolePrint s c = Some c'"
  by (induction s arbitrary: c) (auto simp: ConsolePutChar_def)

text \<open>Printing returns, and leaves alone what lies below the console and the keyboard.\<close>
definition prints :: "command \<Rightarrow> bool" where
  "prints c \<longleftrightarrow> (\<forall>k. \<exists>k'. c k = Some k' \<and> files k' = files k \<and> Kbd (Dsk k') = Kbd (Dsk k) \<and> InProgram k' = InProgram k \<and> PoweredOff k' = PoweredOff k)"

lemma printsE:
  assumes "prints c"
  obtains k' where "c k = Some k'" "files k' = files k" "Kbd (Dsk k') = Kbd (Dsk k)" "InProgram k' = InProgram k" "PoweredOff k' = PoweredOff k"
  using assms unfolding prints_def by blast

lemma prints_console: "(\<And>c. \<exists>c'. f c = Some c') \<Longrightarrow> prints (on_console f)"
  unfolding prints_def
proof
  fix k :: kernel assume "\<And>c. \<exists>c'. f c = Some c'"
  then obtain c where "f ((Con k)\<lparr>Frame := Frame (Dsk k)\<rparr>) = Some c" by blast
  then show "\<exists>k'. on_console f k = Some k' \<and> files k' = files k \<and> Kbd (Dsk k') = Kbd (Dsk k) \<and> InProgram k' = InProgram k \<and> PoweredOff k' = PoweredOff k"
    by (simp add: on_console_def files_def)
qed

lemma printing:
  "list_all (\<lambda>c. c \<noteq> 9) s \<Longrightarrow> prints (print s)" "c \<noteq> 9 \<Longrightarrow> prints (put c)" "prints (set_attr a)" "prints flush"
  unfolding print_def put_def set_attr_def flush_def
  by (rule prints_console, simp add: print_returns ConsolePutChar_def)+

lemma prints_steps: "list_all prints cs \<Longrightarrow> prints (steps cs)"
proof (induction cs)
  case (Cons c cs)
  show ?case unfolding prints_def
  proof
    fix k
    obtain m where m: "c k = Some m" "files m = files k" "Kbd (Dsk m) = Kbd (Dsk k)" "InProgram m = InProgram k" "PoweredOff m = PoweredOff k"
      using Cons.prems by (auto simp: prints_def)
    with Cons show "\<exists>k'. steps (c # cs) k = Some k' \<and> files k' = files k \<and> Kbd (Dsk k') = Kbd (Dsk k) \<and> InProgram k' = InProgram k \<and> PoweredOff k' = PoweredOff k"
      by (auto simp: prints_def dest: spec [of _ m])
  qed
qed (simp add: prints_def)

lemma demo_kernel_ok: "kernel_ok (\<lambda>_. tiny_medium) demo_kernel" "\<not> Active (files demo_kernel)"
proof -
  let ?p = "demo_player\<lparr>PlayActive := False, Active := False\<rparr>"
  have part: "fs_part ?p = fs_part demo_player" by (simp add: fs_part_def)
  have "player_ok (\<lambda>_. tiny_medium) ?p"
    using demo_player_ok unfolding player_ok_def fs_part_cong [OF part] by (auto simp: ring_ready_def)
  moreover have "console_ok (con_view demo_kernel)"
    using demo_console_ok by (simp add: con_view_def demo_kernel_def console_ok_def frame_ok_def)
  moreover have "synced (con_view demo_kernel)" by (rule dirty_synced) (simp add: con_view_def demo_kernel_def)
  ultimately show "kernel_ok (\<lambda>_. tiny_medium) demo_kernel" by (simp add: kernel_ok_def files_def demo_kernel_def)
  show "\<not> Active (files demo_kernel)" by (simp add: files_def demo_kernel_def)
qed

lemma demo_prompt:
  assumes "files k = files demo_kernel"
  shows "\<exists>k'. PrintPrompt k = Some k' \<and> files k' = files k \<and> Kbd (Dsk k') = Kbd (Dsk k) \<and> InProgram k' = InProgram k \<and> PoweredOff k' = PoweredOff k"
proof -
  have f: "Volumes (files demo_kernel) = Volumes small_fs" "CwdVolume (files demo_kernel) = 0" "CwdPathText (files demo_kernel) = [47]"
    using demo_player_fields(17) by (simp_all add: files_def demo_kernel_def fs_part_def small_fs_def)
  have "list_all (\<lambda>c. c \<noteq> 9) (FsCwdVolume (files k))" "list_all (\<lambda>c. c \<noteq> 9) (CwdPathText (files k))"
    unfolding assms by (simp_all add: FsCwdVolume_def FsVolumeName_def FsVolumeCount_def f small_fs_def lit_def)
  then have "prints (steps ([set_attr CONSOLE_ATTR_ACCENT, print (lit ''bloom'')] @
       (if FsHasCwd (files k)
        then [put (chr_code CHR '' ''), print (FsCwdVolume (files k)), put (chr_code CHR '':''), print (CwdPathText (files k))] else []) @
       [print (lit ''> ''), set_attr CONSOLE_ATTR_NORMAL]))"
    by (intro prints_steps) (simp add: printing lit_def)
  then show ?thesis unfolding PrintPrompt_def prints_def by (rule spec)
qed

lemma shell_invariant_witness:
  "\<exists>s'. ShellRun (\<lambda>_. Some) [([KeyIrq 1 0x1E], demo_session)] demo_shell = Some s' \<and> all_shown (con_view (Env s'))"
proof -
  let ?cs = "[set_attr CONSOLE_ATTR_ACCENT, print (lit ''Bloom-OS console'' @ [10]), set_attr CONSOLE_ATTR_DIM,
       print (lit ''Type '' @ [39] @ lit ''help'' @ [39] @ lit '' for a list of commands.'' @ [10, 10]),
       set_attr CONSOLE_ATTR_NORMAL]"
  have "prints (steps ?cs)" by (intro prints_steps) (simp add: printing lit_def)
  then obtain a where a: "steps ?cs demo_kernel = Some a" "files a = files demo_kernel" "Kbd (Dsk a) = Kbd (Dsk demo_kernel)"
    "\<not> InProgram a" "\<not> PoweredOff a" by (rule printsE [where k = demo_kernel]) (simp del: steps.simps)
  from demo_prompt [OF a(2)] a obtain b where b: "PrintPrompt a = Some b" "files b = files demo_kernel" "Kbd (Dsk b) = Kbd (Dsk demo_kernel)"
    "\<not> InProgram b" "\<not> PoweredOff b" by auto
  obtain d where d: "flush b = Some d" "Kbd (Dsk d) = Kbd (Dsk demo_kernel)" "\<not> InProgram d" "\<not> PoweredOff d"
    using b by (auto intro: printsE [OF printing(4), of b])
  have "steps (?cs @ [PrintPrompt, flush]) demo_kernel = Some d"
    unfolding steps_append a(1) using b(1) d(1) by simp
  then have start: "ShellStart demo_shell = Some (demo_shell\<lparr>Env := d\<rparr>)" by (simp add: ShellStart_def on_env_def)
  let ?e = "interrupts [KeyIrq 1 0x1E] d"
  have kbd: "fst (KeyboardGetKey (fst (KeyboardIrqHandler 1 0x1E keyboard_init))) = 97" by code_simp
  have "Kbd (Dsk demo_kernel) = keyboard_init" by (simp add: demo_kernel_def demo_explorer_def viewer.defs explorer.defs demo_viewer_def)
  then obtain x where get: "GetKey (Dsk ?e) = (97, x)"
    using kbd d(2) by (simp add: GetKey_def interrupts_def case_prod_beta)
  let ?f = "?e\<lparr>Dsk := x\<rparr>"
  have flags: "\<not> InProgram ?f" "\<not> PoweredOff ?f" using d by (simp_all add: interrupts_def)
  obtain g where g: "put 97 ?f = Some g" "\<not> InProgram g" "\<not> PoweredOff g" using flags by (auto intro: printsE [OF printing(2) [of 97], of ?f])
  obtain h where h: "flush g = Some h" "\<not> InProgram h" "\<not> PoweredOff h" using g by (auto intro: printsE [OF printing(4), of g])
  let ?s = "demo_shell\<lparr>Env := h, Line := [97]\<rparr>"
  have "ShellRun (\<lambda>_. Some) [([KeyIrq 1 0x1E], demo_session)] demo_shell = Some ?s"
    using start d get g h flags
    by (simp add: ShellRun_def ShellRound_def ShellKey_def on_env_def KEY_UP_def KEY_DOWN_def LINE_MAX_def)
  moreover have "player_ok (\<lambda>_. tiny_medium) (files (Env ?s)) \<and> \<not> Active (files (Env ?s)) \<and> all_shown (con_view (Env ?s))"
    by (rule shell_invariant [OF _ _ _ calculation])
       (use demo_kernel_ok h in \<open>simp_all add: fine_keeps fine_intro\<close>)
  ultimately show ?thesis by blast
qed

end
