(* ===== verification/Machine.thy ===== *)
theory Machine
  imports Pmm Klog Bus
begin

text \<open>
  What the drivers of the disks and of USB work on: the bus, the physical memory manager and the kernel log. A pointer
  is an address. Memory that a device reads or writes is accessed over the bus as its registers are, so that what the device has
  written is an answer of the bus.
\<close>

record machine =
  MBus :: bus
  MPhys :: pmm
  MLog :: klog

definition mread :: "nat \<Rightarrow> u64 \<Rightarrow> ('m machine_scheme, u64) state" where
  "mread w a = State (\<lambda>m. case bus_read w a (MBus m) of (v, b) \<Rightarrow> (v, m\<lparr>MBus := b\<rparr>))"

definition mwrite :: "nat \<Rightarrow> u64 \<Rightarrow> u64 \<Rightarrow> ('m machine_scheme, unit) state" where
  "mwrite w a v = change (\<lambda>m. m\<lparr>MBus := bus_write w a v (MBus m)\<rparr>)"

definition mpause :: "u64 \<Rightarrow> ('m machine_scheme, unit) state" where
  "mpause n = change (\<lambda>m. m\<lparr>MBus := bus_pause n (MBus m)\<rparr>)"

definition mread8 :: "u64 \<Rightarrow> ('m machine_scheme, u8) state" where
  "mread8 a = do { v \<leftarrow> mread 1 a; ret (ucast v) }"
definition mread16 :: "u64 \<Rightarrow> ('m machine_scheme, u16) state" where
  "mread16 a = do { v \<leftarrow> mread 2 a; ret (ucast v) }"
definition mread32 :: "u64 \<Rightarrow> ('m machine_scheme, u32) state" where
  "mread32 a = do { v \<leftarrow> mread 4 a; ret (ucast v) }"
definition mwrite8 :: "u64 \<Rightarrow> u8 \<Rightarrow> ('m machine_scheme, unit) state" where "mwrite8 a v = mwrite 1 a (ucast v)"
definition mwrite16 :: "u64 \<Rightarrow> u16 \<Rightarrow> ('m machine_scheme, unit) state" where "mwrite16 a v = mwrite 2 a (ucast v)"
definition mwrite32 :: "u64 \<Rightarrow> u32 \<Rightarrow> ('m machine_scheme, unit) state" where "mwrite32 a v = mwrite 4 a (ucast v)"

text \<open>A page of the memory manager, 0 when there is none.\<close>
definition malloc :: "('m machine_scheme, u64) state" where
  "malloc = State (\<lambda>m. case AllocPage (MPhys m) of (p, s) \<Rightarrow> (p, m\<lparr>MPhys := s\<rparr>))"

definition mlog :: "cstring list \<Rightarrow> ('m machine_scheme, unit) state" where
  "mlog ss = change (\<lambda>m. m\<lparr>MLog := KLogs ss (MLog m)\<rparr>)"

text \<open>A region of memory is set to zero byte by byte.\<close>
definition ZeroBytes :: "u64 \<Rightarrow> nat \<Rightarrow> ('m machine_scheme, unit) state" where
  "ZeroBytes P Size = each [0..<Size] (\<lambda>i. mwrite8 (P + of_nat i) 0)"

section \<open>What a program does to the bus\<close>

abbreviation trace :: "'m machine_scheme \<Rightarrow> access list" where "trace m \<equiv> Trace (MBus m)"

definition acc :: "access list \<Rightarrow> 'm machine_scheme \<Rightarrow> 'm machine_scheme" where
  "acc t m = m\<lparr>MBus := (MBus m)\<lparr>Trace := trace m @ t\<rparr>\<rparr>"

lemma acc_simps [simp]: "acc u (acc t m) = acc (t @ u) m" "trace (acc t m) = trace m @ t" "Respond (MBus (acc t m)) = Respond (MBus m)"
  "MPhys (acc t m) = MPhys m" "MLog (acc t m) = MLog m" "acc [] m = m"
  by (simp_all add: acc_def)

lemma ucast_take_same [simp]: "(ucast (take_bit LENGTH('a) x) :: 'a :: len word) = ucast x"
  by (rule bit_word_eqI) (simp add: bit_simps)

lemma take_ucast_same [simp]: "take_bit n (ucast (x :: 'a :: len word) :: 'b :: len word) = ucast x" if "LENGTH('a) \<le> n"
  using that by (intro bit_word_eqI) (auto simp: bit_simps dest: bit_imp_le_length)

lemma run_accesses [simp]:
  "run_state (mread w a) m = (take_bit (8 * w) (Respond (MBus m) (trace m @ [Rd w a])), acc [Rd w a] m)"
  "run_state (mwrite w a v) m = ((), acc [Wr w a (take_bit (8 * w) v)] m)"
  "run_state (mpause n) m = ((), acc [Pause n] m)"
  by (simp_all add: mread_def bus_read_def Let_def mwrite_def bus_write_def mpause_def bus_pause_def acc_def)

lemma run_sized [simp]:
  "run_state (mread8 a) m = (ucast (Respond (MBus m) (trace m @ [Rd 1 a])), acc [Rd 1 a] m)"
  "run_state (mread16 a) m = (ucast (Respond (MBus m) (trace m @ [Rd 2 a])), acc [Rd 2 a] m)"
  "run_state (mread32 a) m = (ucast (Respond (MBus m) (trace m @ [Rd 4 a])), acc [Rd 4 a] m)"
  "run_state (mwrite8 a b) m = ((), acc [Wr 1 a (ucast b)] m)"
  "run_state (mwrite16 a h) m = ((), acc [Wr 2 a (ucast h)] m)"
  "run_state (mwrite32 a v) m = ((), acc [Wr 4 a (ucast v)] m)"
  using ucast_take_same [where 'a = 8] ucast_take_same [where 'a = 16] ucast_take_same [where 'a = 32]
  by (simp_all add: mread8_def mread16_def mread32_def mwrite8_def mwrite16_def mwrite32_def)

text \<open>A loop of writes is one list of them.\<close>
lemma run_each_writes:
  "(\<And>x m. run_state (f x) m = ((), acc (g x) (m :: 'm machine_scheme))) \<Longrightarrow> run_state (each xs f) m = ((), acc (concat (map g xs)) m)"
  by (induction xs arbitrary: m) simp_all

end
