(* ===== verification/Nvme.thy ===== *)
theory Nvme
  imports Machine
begin

text \<open>
  The NVMe driver (\<open>kernel/nvme.c\<close>): the controller is set up with an admin and an I/O queue pair of 64 entries; a command goes
  into the next slot of the submission queue, and its completion is polled for by the phase bit of the next entry of the completion
  queue. The static variables of the two queues are two records of one type, and the functions that submit to them,
  which are the same in the source but for the queue, are one function.
\<close>

section \<open>State\<close>

definition REG_CAP :: u32 where "REG_CAP = 0x00"
definition REG_CC :: u32 where "REG_CC = 0x14"
definition REG_CSTS :: u32 where "REG_CSTS = 0x1C"
definition REG_AQA :: u32 where "REG_AQA = 0x24"
definition REG_ASQ :: u32 where "REG_ASQ = 0x28"
definition REG_ACQ :: u32 where "REG_ACQ = 0x30"
definition REG_DOORBELL_BASE :: u32 where "REG_DOORBELL_BASE = 0x1000"
definition QUEUE_DEPTH :: u16 where "QUEUE_DEPTH = 64"

record nvme_command =
  Cdw0 :: u32
  Nsid :: u32
  Mptr :: u64
  Prp1 :: u64
  Prp2 :: u64
  Cdw10 :: u32
  Cdw11 :: u32
  Cdw12 :: u32
  Cdw13 :: u32
  Cdw14 :: u32
  Cdw15 :: u32

definition zero_command :: nvme_command where
  "zero_command = \<lparr>Cdw0 = 0, Nsid = 0, Mptr = 0, Prp1 = 0, Prp2 = 0, Cdw10 = 0, Cdw11 = 0, Cdw12 = 0, Cdw13 = 0, Cdw14 = 0, Cdw15 = 0\<rparr>"

text \<open>The layout in memory, as words of 32 bits.\<close>
definition command_words :: "nvme_command \<Rightarrow> u32 list" where
  "command_words c =
     [Cdw0 c, Nsid c, 0, 0, ucast (Mptr c), ucast (drop_bit 32 (Mptr c)), ucast (Prp1 c), ucast (drop_bit 32 (Prp1 c)),
      ucast (Prp2 c), ucast (drop_bit 32 (Prp2 c)), Cdw10 c, Cdw11 c, Cdw12 c, Cdw13 c, Cdw14 c, Cdw15 c]"

record queue_state =
  Sq :: u64
  Cq :: u64
  SqTail :: u16
  CqHead :: u16
  Phase :: u8

datatype queue_id = Admin | Io

record nvme = machine +
  NvmeBase :: u64
  DoorbellStride :: u32
  NextCommandId :: u16
  AdminQ :: queue_state
  IoQ :: queue_state
  NvmeDbgStage :: int
  NvmeDbgCap :: u64
  NvmeDbgCsts :: u32
  NvmeDbgStatus :: u32

primrec the_queue :: "queue_id \<Rightarrow> 'n nvme_scheme \<Rightarrow> queue_state" where
  "the_queue Admin n = AdminQ n"
| "the_queue Io n = IoQ n"

primrec set_queue :: "queue_id \<Rightarrow> queue_state \<Rightarrow> 'n nvme_scheme \<Rightarrow> 'n nvme_scheme" where
  "set_queue Admin q n = n\<lparr>AdminQ := q\<rparr>"
| "set_queue Io q n = n\<lparr>IoQ := q\<rparr>"

definition queue_number :: "queue_id \<Rightarrow> u16" where "queue_number Q = (case Q of Admin \<Rightarrow> 0 | Io \<Rightarrow> 1)"

section \<open>Registers\<close>

definition NvRead32 :: "u32 \<Rightarrow> ('n nvme_scheme, u32) state" where
  "NvRead32 Offset = do { base \<leftarrow> ask NvmeBase; mread32 (base + ucast Offset) }"
definition NvWrite32 :: "u32 \<Rightarrow> u32 \<Rightarrow> ('n nvme_scheme, unit) state" where
  "NvWrite32 Offset v = do { base \<leftarrow> ask NvmeBase; mwrite32 (base + ucast Offset) v }"
definition NvRead64 :: "u32 \<Rightarrow> ('n nvme_scheme, u64) state" where
  "NvRead64 Offset = do { base \<leftarrow> ask NvmeBase; mread 8 (base + ucast Offset) }"
definition NvWrite64 :: "u32 \<Rightarrow> u64 \<Rightarrow> ('n nvme_scheme, unit) state" where
  "NvWrite64 Offset v = do { base \<leftarrow> ask NvmeBase; mwrite 8 (base + ucast Offset) v }"

definition RingDoorbell :: "u16 \<Rightarrow> bool \<Rightarrow> u16 \<Rightarrow> ('n nvme_scheme, unit) state" where
  "RingDoorbell QueueId IsCompletion Value = do {
     stride \<leftarrow> ask DoorbellStride;
     NvWrite32 (REG_DOORBELL_BASE + (2 * ucast QueueId + (if IsCompletion then 1 else 0)) * stride) (ucast Value) }"

section \<open>Submitting\<close>

text \<open>The completion entry is read again for the status. The two bytes are at offset 14 of its 16.\<close>
definition StatusPhase :: "queue_state \<Rightarrow> ('n nvme_scheme, u16) state" where
  "StatusPhase q = mread16 (Cq q + 16 * ucast (CqHead q) + 14)"

definition TakeCompletion :: "queue_id \<Rightarrow> ('n nvme_scheme, unit) state" where
  "TakeCompletion Q = do {
     q \<leftarrow> ask (the_queue Q);
     let Head = (CqHead q + 1) mod QUEUE_DEPTH;
     change (set_queue Q (q\<lparr>CqHead := Head, Phase := if Head = 0 then Phase q XOR 1 else Phase q\<rparr>));
     RingDoorbell (queue_number Q) True Head }"

primrec CompletionLoop :: "nat \<Rightarrow> queue_id \<Rightarrow> ('n nvme_scheme, u16) state" where
  "CompletionLoop 0 Q = ret 0xFFFF"
| "CompletionLoop (Suc n) Q = do {
     q \<leftarrow> ask (the_queue Q);
     v \<leftarrow> StatusPhase q;
     if ucast (v AND 1) = Phase q then do {
       w \<leftarrow> StatusPhase q;
       TakeCompletion Q;
       ret (drop_bit 1 w) }
     else do { mpause 50; CompletionLoop n Q } }"

text \<open>The command is copied into its slot.\<close>
definition WriteCommand :: "queue_state \<Rightarrow> nvme_command \<Rightarrow> ('n nvme_scheme, unit) state" where
  "WriteCommand q Cmd =
     each [0..<16] (\<lambda>i. mwrite32 (Sq q + 64 * ucast (SqTail q) + 4 * of_nat i) (command_words Cmd ! i))"

definition numbered :: "nvme_command \<Rightarrow> u16 \<Rightarrow> nvme_command" where
  "numbered Cmd i = Cmd\<lparr>Cdw0 := (Cdw0 Cmd AND 0xFFFF) OR push_bit 16 (ucast i)\<rparr>"

definition Submit :: "queue_id \<Rightarrow> nvme_command \<Rightarrow> ('n nvme_scheme, u16) state" where
  "Submit Q Cmd = do {
     i \<leftarrow> ask NextCommandId;
     change (\<lambda>n. n\<lparr>NextCommandId := i + 1\<rparr>);
     q \<leftarrow> ask (the_queue Q);
     WriteCommand q (numbered Cmd i);
     let Tail = (SqTail q + 1) mod QUEUE_DEPTH;
     change (set_queue Q (q\<lparr>SqTail := Tail\<rparr>));
     RingDoorbell (queue_number Q) False Tail;
     CompletionLoop 1000000 Q }"

definition SubmitAdminCommand :: "nvme_command \<Rightarrow> ('n nvme_scheme, u16) state" where "SubmitAdminCommand = Submit Admin"
definition SubmitIoCommand :: "nvme_command \<Rightarrow> ('n nvme_scheme, u16) state" where "SubmitIoCommand = Submit Io"

section \<open>Initialisation\<close>

definition fails :: "int \<Rightarrow> ('n nvme_scheme, bool) state" where
  "fails Stage = do { change (\<lambda>n. n\<lparr>NvmeDbgStage := Stage\<rparr>); ret False }"

text \<open>From stage 2 on, the status register is kept for the log as well.\<close>
definition fails_with_status :: "int \<Rightarrow> ('n nvme_scheme, bool) state" where
  "fails_with_status Stage = do {
     change (\<lambda>n. n\<lparr>NvmeDbgStage := Stage\<rparr>);
     Csts \<leftarrow> NvRead32 REG_CSTS;
     change (\<lambda>n. n\<lparr>NvmeDbgCsts := Csts\<rparr>);
     ret False }"

definition new_queue :: "u64 \<Rightarrow> u64 \<Rightarrow> queue_state" where
  "new_queue SqPage CqPage = \<lparr>Sq = SqPage, Cq = CqPage, SqTail = 0, CqHead = 0, Phase = 1\<rparr>"

definition ResetNvme :: "('n nvme_scheme, unit) state" where
  "ResetNvme = do {
     Cap \<leftarrow> NvRead64 REG_CAP;
     change (\<lambda>n. n\<lparr>NvmeDbgCap := Cap\<rparr>);
     Csts \<leftarrow> NvRead32 REG_CSTS;
     change (\<lambda>n. n\<lparr>NvmeDbgCsts := Csts, DoorbellStride := push_bit (unat (drop_bit 32 Cap AND 0xF)) 4\<rparr>);
     Cc \<leftarrow> NvRead32 REG_CC;
     NvWrite32 REG_CC (Cc AND NOT 1);
     poll 100000 (do { v \<leftarrow> NvRead32 REG_CSTS; ret (v AND 1 = 0) }) (mpause 100);
     ret () }"

definition EnableController :: "u64 \<Rightarrow> u64 \<Rightarrow> ('n nvme_scheme, bool) state" where
  "EnableController AsqPage AcqPage = do {
     ZeroBytes AsqPage 4096;
     ZeroBytes AcqPage 4096;
     change (\<lambda>n. n\<lparr>AdminQ := new_queue AsqPage AcqPage\<rparr>);
     NvWrite32 REG_AQA (push_bit 16 (ucast QUEUE_DEPTH - 1) OR (ucast QUEUE_DEPTH - 1));
     NvWrite64 REG_ASQ AsqPage;
     NvWrite64 REG_ACQ AcqPage;
     NvWrite32 REG_CC (1 OR push_bit 16 6 OR push_bit 20 4);
     poll 100000 (do { v \<leftarrow> NvRead32 REG_CSTS; ret (v AND 1 \<noteq> 0) }) (mpause 100) }"

definition CreateCq :: "u64 \<Rightarrow> nvme_command" where
  "CreateCq Page = zero_command\<lparr>Cdw0 := 0x05, Prp1 := Page, Cdw10 := push_bit 16 (ucast QUEUE_DEPTH - 1) OR 1, Cdw11 := 1\<rparr>"

definition CreateSq :: "u64 \<Rightarrow> nvme_command" where
  "CreateSq Page = zero_command\<lparr>Cdw0 := 0x01, Prp1 := Page, Cdw10 := push_bit 16 (ucast QUEUE_DEPTH - 1) OR 1, Cdw11 := push_bit 16 1 OR 1\<rparr>"

definition CreateQueues :: "u64 \<Rightarrow> u64 \<Rightarrow> ('n nvme_scheme, bool) state" where
  "CreateQueues IoSqPage IoCqPage = do {
     ZeroBytes IoSqPage 4096;
     ZeroBytes IoCqPage 4096;
     change (\<lambda>n. n\<lparr>IoQ := new_queue IoSqPage IoCqPage\<rparr>);
     Status \<leftarrow> SubmitAdminCommand (CreateCq IoCqPage);
     change (\<lambda>n. n\<lparr>NvmeDbgStatus := ucast Status\<rparr>);
     if Status \<noteq> 0 then fails_with_status 4 else do {
     Status \<leftarrow> SubmitAdminCommand (CreateSq IoSqPage);
     change (\<lambda>n. n\<lparr>NvmeDbgStatus := ucast Status\<rparr>);
     if Status \<noteq> 0 then fails_with_status 5 else do {
     change (\<lambda>n. n\<lparr>NvmeDbgStage := 0\<rparr>);
     ret True } } }"

definition NvmeInit :: "u64 \<Rightarrow> ('n nvme_scheme, bool) state" where
  "NvmeInit Bar0 = do {
     change (\<lambda>n. n\<lparr>NvmeBase := Bar0\<rparr>);
     ResetNvme;
     AsqPage \<leftarrow> malloc;
     AcqPage \<leftarrow> malloc;
     if AsqPage = 0 \<or> AcqPage = 0 then fails 1 else do {
     Ready \<leftarrow> EnableController AsqPage AcqPage;
     if \<not> Ready then fails_with_status 2 else do {
     IoSqPage \<leftarrow> malloc;
     IoCqPage \<leftarrow> malloc;
     if IoSqPage = 0 \<or> IoCqPage = 0 then fails 3
     else CreateQueues IoSqPage IoCqPage } } }"

section \<open>Reading\<close>

definition ReadCommand :: "u64 \<Rightarrow> u32 \<Rightarrow> u64 \<Rightarrow> nvme_command" where
  "ReadCommand Lba Count Buffer =
     zero_command\<lparr>Cdw0 := 0x02, Nsid := 1, Prp1 := Buffer, Cdw10 := ucast (Lba AND 0xFFFFFFFF), Cdw11 := ucast (drop_bit 32 Lba),
       Cdw12 := (Count - 1) AND 0xFFFF\<rparr>"

definition NvmeReadSectors :: "u64 \<Rightarrow> u32 \<Rightarrow> u64 \<Rightarrow> ('n nvme_scheme, bool) state" where
  "NvmeReadSectors Lba Count Buffer = do {
     q \<leftarrow> ask IoQ;
     if Sq q = 0 then ret False else do {
     Status \<leftarrow> SubmitIoCommand (ReadCommand Lba Count Buffer);
     ret (Status = 0) } }"

section \<open>A controller that completes in order\<close>

text \<open>
  What the driver expects of the controller: \<open>Finished t\<close> commands of the queue are completed after the accesses \<open>t\<close>, never more than
  the times its doorbell was rung, and the entry of the completion queue at \<open>s\<close> holds the status of the last command completed
  there and the phase bit of its round, zero before the first.
\<close>
record controller =
  Finished :: "access list \<Rightarrow> nat"
  StatusOf :: "nat \<Rightarrow> u16"

fun rings :: "u64 \<Rightarrow> access \<Rightarrow> bool" where
  "rings Db (Wr w a v) \<longleftrightarrow> a = Db"
| "rings Db _ \<longleftrightarrow> False"

definition rung :: "u64 \<Rightarrow> access list \<Rightarrow> nat" where "rung Db t = length (filter (rings Db) t)"

definition phase_of :: "nat \<Rightarrow> 'a :: len word" where "phase_of k = (if even (k div 64) then 1 else 0)"

definition entry :: "(nat \<Rightarrow> u16) \<Rightarrow> nat \<Rightarrow> nat \<Rightarrow> u16" where
  "entry St d s = (if d \<le> s then 0 else let j = s + 64 * ((d - 1 - s) div 64) in push_bit 1 (St j) OR phase_of j)"

definition completes :: "controller \<Rightarrow> u64 \<Rightarrow> u64 \<Rightarrow> (access list \<Rightarrow> u64) \<Rightarrow> bool" where
  "completes D Db C R \<longleftrightarrow>
     (\<forall>t u. Finished D t \<le> Finished D (t @ u)) \<and> (\<forall>t. Finished D t \<le> rung Db t) \<and> (\<forall>j. take_bit 15 (StatusOf D j) = StatusOf D j) \<and>
     (\<forall>t. list_all (\<lambda>s. R (t @ [Rd 2 (C + 16 * of_nat s + 14)]) = ucast (entry (StatusOf D) (Finished D t) s)) [0..<64])"

definition doorbell :: "queue_id \<Rightarrow> bool \<Rightarrow> 'n nvme_scheme \<Rightarrow> u64" where
  "doorbell Q C s = NvmeBase s + ucast (REG_DOORBELL_BASE + (2 * ucast (queue_number Q) + (if C then 1 else 0)) * DoorbellStride s)"

definition slot :: "queue_state \<Rightarrow> nat \<Rightarrow> nat \<Rightarrow> u64" where "slot q k i = Sq q + 64 * of_nat (k mod 64) + 4 * of_nat i"

text \<open>The queue lies where the controller looks, and not on the doorbell.\<close>
definition wired :: "controller \<Rightarrow> queue_id \<Rightarrow> 'n nvme_scheme \<Rightarrow> bool" where
  "wired D Q s \<longleftrightarrow>
     completes D (doorbell Q False s) (Cq (the_queue Q s)) (Respond (MBus s)) \<and> DoorbellStride s \<noteq> 0 \<and>
     (\<forall>k i. i < 16 \<longrightarrow> slot (the_queue Q s) k i \<noteq> doorbell Q False s)"

text \<open>\<open>n\<close> commands have been submitted, and \<open>k\<close> of their completions taken.\<close>
definition tracks :: "controller \<Rightarrow> nat \<Rightarrow> nat \<Rightarrow> queue_id \<Rightarrow> 'n nvme_scheme \<Rightarrow> bool" where
  "tracks D n k Q s \<longleftrightarrow>
     k \<le> n \<and> n \<le> k + 64 \<and> k \<le> Finished D (trace s) \<and> rung (doorbell Q False s) (trace s) = n \<and>
     SqTail (the_queue Q s) = of_nat (n mod 64) \<and> CqHead (the_queue Q s) = of_nat (k mod 64) \<and> Phase (the_queue Q s) = phase_of k"

lemma rung_simps [simp]: "rung Db [] = 0" "rung Db (t @ u) = rung Db t + rung Db u" "rung Db (Wr w a v # t) = (if a = Db then Suc (rung Db t) else rung Db t)"
  "rung Db (Rd w a # t) = rung Db t" "rung Db (Pause p # t) = rung Db t"
  by (simp_all add: rung_def)

lemma entry_next: "k < d \<Longrightarrow> d \<le> k + 64 \<Longrightarrow> entry St d (k mod 64) = push_bit 1 (St k) OR phase_of k"
proof -
  assume d: "k < d" "d \<le> k + 64"
  have "(d - 1 - k mod 64) div 64 = k div 64"
  proof -
    have "d - 1 - k mod 64 = (d - 1 - k) + 64 * (k div 64)" using d by (simp add: minus_mod_eq_mult_div [symmetric])
    then show ?thesis using d by simp
  qed
  then have "k mod 64 + 64 * ((d - 1 - k mod 64) div 64) = k" by simp
  moreover have "\<not> d \<le> k mod 64" using d(1) mod_less_eq_dividend [of k 64] by linarith
  ultimately show ?thesis by (simp add: entry_def Let_def)
qed

lemma status_shifted:
  "0 < m \<Longrightarrow> (push_bit m x OR phase_of k) AND 1 = (phase_of k :: u16)"
  "0 < m \<Longrightarrow> take_bit (16 - m) x = x \<Longrightarrow> drop_bit m (push_bit m x OR phase_of k) = (x :: u16)"
proof -
  show "(push_bit m x OR phase_of k) AND 1 = (phase_of k :: u16)" if "0 < m"
    using that by (intro bit_eqI) (auto simp: bit_simps phase_of_def)
  show "drop_bit m (push_bit m x OR phase_of k) = (x :: u16)" if "0 < m" "take_bit (16 - m) x = x"
  proof (rule bit_eqI)
    fix n assume "possible_bit TYPE(u16) n"
    have "bit x n \<Longrightarrow> n < 16 - m" using arg_cong [OF that(2), of "\<lambda>y. bit y n"] by (auto simp: bit_simps)
    then show "bit (drop_bit m (push_bit m x OR phase_of k)) n = bit x n"
      using that(1) by (auto simp: bit_simps phase_of_def)
  qed
qed

lemmas status_phase = status_shifted(1) [of 1, OF zero_less_one]
lemmas status_value = status_shifted(2) [of 1, OF zero_less_one]

lemma entry_old: "entry St k (k mod 64) AND 1 \<noteq> phase_of k"
proof (cases "k < 64")
  case True
  then show ?thesis by (simp add: entry_def phase_of_def)
next
  case False
  define q where "q = k div 64 - 1"
  define s where "s = k mod 64"
  have "s < 64" by (simp add: s_def)
  have "k div 64 = Suc q" using False by (simp add: q_def)
  then have k: "k = 64 * Suc q + s" unfolding s_def by (metis mult_div_mod_eq)
  have "k - 1 - s = 63 + 64 * q" by (simp add: k)
  then have "(k - 1 - s) div 64 = q" by simp
  moreover have "phase_of (s + 64 * q) \<noteq> (phase_of k :: u16)" using \<open>s < 64\<close> 
  proof -
    have "k = s + 64 * Suc q" by (simp add: k)
    then have "k div 64 = Suc q" "(s + 64 * q) div 64 = q" using \<open>s < 64\<close> by simp_all
    then show ?thesis by (simp add: phase_of_def)
  qed
  moreover have "\<not> k \<le> s" by (simp add: k)
  ultimately have "entry St k s = push_bit 1 (St (s + 64 * q)) OR phase_of (s + 64 * q)" by (simp add: entry_def Let_def)
  with \<open>phase_of (s + 64 * q) \<noteq> phase_of k\<close> have "entry St k s AND 1 \<noteq> phase_of k" by (simp only: status_phase not_False_eq_True)
  then show ?thesis by (simp add: s_def)
qed

lemma completesD:
  assumes "completes D Db C R"
  shows "Finished D t \<le> Finished D (t @ u)" "Finished D t \<le> rung Db t" "take_bit 15 (StatusOf D j) = StatusOf D j"
    "R (t @ [Rd 2 (C + 16 * of_nat (k mod 64) + 14)]) = ucast (entry (StatusOf D) (Finished D t) (k mod 64))"
  using assms by (auto simp: completes_def list_all_iff)

lemma wrap_next: "(of_nat (k mod 64) + 1) mod QUEUE_DEPTH = of_nat (Suc k mod 64)"
proof -
  define a where "a = k mod 64"
  have a: "a < 64" by (simp add: a_def)
  have "unat ((of_nat (Suc a) :: u16) mod 64) = Suc a mod 64"
    using a by (simp add: unat_mod unat_of_nat_small del: of_nat_Suc)
  then have "(of_nat (Suc a) :: u16) mod 64 = of_nat (Suc a mod 64)" by (metis of_nat_unat ucast_id)
  then show ?thesis by (simp add: a_def QUEUE_DEPTH_def mod_Suc_eq add.commute)
qed

lemma phase_next: "phase_of (Suc k) = (if of_nat (Suc k mod 64) = (0 :: u16) then phase_of k XOR 1 else phase_of k :: u8)"
proof -
  have "of_nat (Suc k mod 64) = (0 :: u16) \<longleftrightarrow> Suc k mod 64 = 0"
    using unat_of_nat_small [of "Suc k mod 64", where 'a = 16] less_le_trans [OF mod_less_divisor, of 64 "Suc k" "2 ^ 16"]
    by (auto simp: unat_eq_0 simp flip: unat_eq_0)
  then show ?thesis by (simp add: phase_of_def div_Suc)
qed

section \<open>Accesses\<close>

lemma acc_fields [simp]:
  "NvmeBase (acc t s) = NvmeBase s" "DoorbellStride (acc t s) = DoorbellStride s" "the_queue Q (acc t s) = the_queue Q s"
  "NextCommandId (acc t s) = NextCommandId s"
  by (cases Q; simp_all add: acc_def)+

lemma queue_simps [simp]:
  "the_queue Q (set_queue Q q s) = q" "MBus (set_queue Q q s) = MBus s" "NvmeBase (set_queue Q q s) = NvmeBase s"
  "DoorbellStride (set_queue Q q s) = DoorbellStride s" "NextCommandId (set_queue Q q s) = NextCommandId s"
  by (cases Q; simp)+

lemma run_StatusPhase:
  "run_state (StatusPhase q) s =
     (ucast (Respond (MBus s) (trace s @ [Rd 2 (Cq q + 16 * ucast (CqHead q) + 14)])), acc [Rd 2 (Cq q + 16 * ucast (CqHead q) + 14)] s)"
  by (simp add: StatusPhase_def)

lemma ucast_ucast_up: "ucast (ucast (v :: u16) :: u32) = (ucast v :: u64)"
  by (rule bit_word_eqI) (auto simp: bit_simps dest: bit_imp_le_length)

lemma run_RingDoorbell:
  "run_state (RingDoorbell (queue_number Q) C v) s = ((), acc [Wr 4 (doorbell Q C s) (ucast v)] s)"
  by (simp add: RingDoorbell_def NvWrite32_def doorbell_def ucast_ucast_up)

lemma two_doorbells: "DoorbellStride s \<noteq> 0 \<Longrightarrow> doorbell Q True s \<noteq> doorbell Q False s"
proof -
  have "(ucast (x :: u32) :: u64) = ucast y \<Longrightarrow> x = y" for x y by transfer (simp add: take_bit_eq_mod)
  then show "DoorbellStride s \<noteq> 0 \<Longrightarrow> doorbell Q True s \<noteq> doorbell Q False s" by (force simp: doorbell_def distrib_right)
qed


section \<open>Submissions\<close>

text \<open>What a program of the driver leaves alone.\<close>
lemma wired_acc [simp]: "wired D Q (acc t s) = wired D Q s"
  by (simp add: wired_def doorbell_def)

lemma doorbell_acc [simp]: "doorbell Q C (acc t s) = doorbell Q C s" "doorbell Q C (set_queue Q q s) = doorbell Q C s"
  by (simp_all add: doorbell_def)

lemma acc_set_queue: "acc t (set_queue Q q s) = set_queue Q q (acc t s)"
  by (cases Q) (simp_all add: acc_def)

lemma wired_set_queue: "Sq q = Sq (the_queue Q s) \<Longrightarrow> Cq q = Cq (the_queue Q s) \<Longrightarrow> wired D Q (set_queue Q q s) = wired D Q s"
  by (simp add: wired_def slot_def)

lemma tracks_acc:
  assumes "wired D Q s" "tracks D n k Q s" "rung (doorbell Q False s) t = 0"
  shows "tracks D n k Q (acc t s)"
proof -
  have "completes D (doorbell Q False s) (Cq (the_queue Q s)) (Respond (MBus s))" using assms(1) by (simp add: wired_def)
  from completesD(1) [OF this, of "trace s" t] assms(2,3) show ?thesis by (simp add: tracks_def)
qed

lemma of_nat_ucast_small: "m < 64 \<Longrightarrow> ucast (of_nat m :: u16) = (of_nat m :: u64)"
  by (simp add: unsigned_of_nat take_bit_nat_eq_self)

lemma ucast_down_up [simp]: "ucast (ucast (x :: u16) :: u64) = x"
  by (rule bit_word_eqI) (auto simp: bit_simps)

text \<open>One look at the next entry of the completion queue.\<close>
lemma completion_seen:
  assumes "wired D Q s" "tracks D n k Q s" "run_state (StatusPhase (the_queue Q s)) s = (v, s')"
  shows "s' = acc [Rd 2 (Cq (the_queue Q s) + 16 * ucast (CqHead (the_queue Q s)) + 14)] s"
    and "if k < Finished D (trace s) then v = push_bit 1 (StatusOf D k) OR phase_of k else v AND 1 \<noteq> phase_of k"
proof -
  let ?C = "Cq (the_queue Q s)" and ?d = "Finished D (trace s)"
  have c: "completes D (doorbell Q False s) ?C (Respond (MBus s))" using assms(1) by (simp add: wired_def)
  show "s' = acc [Rd 2 (?C + 16 * ucast (CqHead (the_queue Q s)) + 14)] s"
    using assms(3) by (simp add: run_StatusPhase)
  have head: "CqHead (the_queue Q s) = of_nat (k mod 64)" "k \<le> ?d" using assms(2) by (simp_all add: tracks_def)
  have v: "v = entry (StatusOf D) ?d (k mod 64)"
    using assms(3) completesD(4) [OF c, of "trace s" k] unfolding run_StatusPhase head(1)
    by (simp add: of_nat_ucast_small)
  have "?d \<le> k + 64" using completesD(2) [OF c, of "trace s"] assms(2) by (simp add: tracks_def)
  then show "if k < ?d then v = push_bit 1 (StatusOf D k) OR phase_of k else v AND 1 \<noteq> phase_of k"
    using entry_next [of k ?d "StatusOf D"] entry_old [of "StatusOf D" k] head(2) unfolding v by (cases "k < ?d") (auto dest: le_antisym)
qed

lemma TakeCompletion_tracks:
  assumes "wired D Q s" "tracks D n k Q s" "k < Finished D (trace s)" "run_state (TakeCompletion Q) s = (x, s')"
  shows "wired D Q s'" "tracks D n (Suc k) Q s'" "\<exists>t. trace s' = trace s @ t \<and> rung (doorbell Q False s) t = 0"
    "NextCommandId s' = NextCommandId s"
proof -
  let ?q = "the_queue Q s"
  define h where "h = (CqHead ?q + 1) mod QUEUE_DEPTH"
  define q where "q = ?q\<lparr>CqHead := h, Phase := if h = 0 then Phase ?q XOR 1 else Phase ?q\<rparr>"
  let ?t = "[Wr 4 (doorbell Q True s) (ucast h)]"
  have s': "s' = acc ?t (set_queue Q q s)"
    using assms(4) by (simp add: TakeCompletion_def Let_def run_RingDoorbell h_def q_def)
  have wired: "wired D Q (set_queue Q q s)" using assms(1) by (simp add: wired_set_queue q_def)
  have "DoorbellStride s \<noteq> 0" using assms(1) by (simp add: wired_def)
  then have silent: "rung (doorbell Q False s) ?t = 0" by (simp add: two_doorbells)
  have c: "completes D (doorbell Q False s) (Cq ?q) (Respond (MBus s))" using assms(1) by (simp add: wired_def)
  have "Finished D (trace s) \<le> n" using completesD(2) [OF c, of "trace s"] assms(2) by (simp add: tracks_def)
  then have "tracks D n (Suc k) Q (set_queue Q q s)"
    using assms(2,3) wrap_next [of k] phase_next [of k] by (simp add: tracks_def q_def h_def)
  with wired silent show "wired D Q s'" "tracks D n (Suc k) Q s'" "\<exists>t. trace s' = trace s @ t \<and> rung (doorbell Q False s) t = 0"
    "NextCommandId s' = NextCommandId s"
    unfolding s' by (auto intro!: tracks_acc)
qed

lemma phase_test: "(ucast (v AND 1 :: u16) :: u8) = phase_of k \<longleftrightarrow> v AND 1 = phase_of k"
proof -
  have "v AND 1 = 0 \<or> v AND 1 = 1" by (simp add: and_one_eq) (metis odd_iff_mod_2_eq_one even_iff_mod_2_eq_zero)
  then show ?thesis by (auto simp: phase_of_def)
qed

lemma not_status: "take_bit 15 (x :: u16) = x \<Longrightarrow> x \<noteq> 0xFFFF" by auto

text \<open>Waiting: the completion that is taken is that of the oldest command whose completion has not been taken; one that is there at the
  first look is taken.\<close>
lemma CompletionLoop_tracks:
  assumes "wired D Q s" "tracks D n k Q s" "run_state (CompletionLoop i Q) s = (r, s')"
  shows "wired D Q s' \<and> (if r = 0xFFFF then tracks D n k Q s' else r = StatusOf D k \<and> tracks D n (Suc k) Q s') \<and>
    (\<exists>t. trace s' = trace s @ t \<and> rung (doorbell Q False s) t = 0) \<and> (0 < i \<and> k < Finished D (trace s) \<longrightarrow> r \<noteq> 0xFFFF)"
  using assms
proof (induction i arbitrary: s)
  case 0
  then show ?case by simp
next
  case (Suc i)
  let ?q = "the_queue Q s"
  let ?e = "[Rd 2 (Cq ?q + 16 * ucast (CqHead ?q) + 14)]"
  obtain v where v: "run_state (StatusPhase ?q) s = (v, acc ?e s)" by (simp add: run_StatusPhase)
  have seen: "if k < Finished D (trace s) then v = push_bit 1 (StatusOf D k) OR phase_of k else v AND 1 \<noteq> phase_of k"
    using Suc.prems(1,2) v by (rule completion_seen(2))
  have Phase: "Phase ?q = phase_of k" using Suc.prems(2) by (simp add: tracks_def)
  have c: "completes D (doorbell Q False s) (Cq ?q) (Respond (MBus s))" using Suc.prems(1) by (simp add: wired_def)
  have one: "tracks D n k Q (acc t s)" "wired D Q (acc t s)" if "rung (doorbell Q False s) t = 0" for t
    using Suc.prems(1,2) that by (auto intro: tracks_acc)
  show ?case
  proof (cases "k < Finished D (trace s)")
    case True
    then have match: "v AND 1 = phase_of k" using seen status_phase by (simp only: if_True)
    obtain w where w: "run_state (StatusPhase ?q) (acc ?e s) = (w, acc (?e @ ?e) s)" by (simp add: run_StatusPhase)
    have again: "k < Finished D (trace (acc u s))" for u using True completesD(1) [OF c, of "trace s" u] by simp
    have "run_state (StatusPhase (the_queue Q (acc ?e s))) (acc ?e s) = (w, acc (?e @ ?e) s)" using w by simp
    from completion_seen(2) [OF one(2,1) this] again [of ?e] have weq: "w = push_bit 1 (StatusOf D k) OR phase_of k" by (simp only: if_True) simp
    have status: "drop_bit 1 w = StatusOf D k" unfolding weq by (rule status_value) (simp add: completesD(3) [OF c])
    obtain y u where u: "run_state (TakeCompletion Q) (acc (?e @ ?e) s) = (y, u)" by (cases "run_state (TakeCompletion Q) (acc (?e @ ?e) s)")
    have "r = StatusOf D k" "s' = u" using Suc.prems(3) v w u match Phase status by (simp_all add: phase_test)
    moreover have "StatusOf D k \<noteq> 0xFFFF" using completesD(3) [OF c, of k] by (rule not_status)
    moreover have silent: "rung (doorbell Q False s) (?e @ ?e) = 0" by simp
    note TakeCompletion_tracks [OF one(2,1) [OF silent] again u]
    ultimately show ?thesis by auto
  next
    case False
    then have "v AND 1 \<noteq> phase_of k" using seen by simp
    then have "run_state (CompletionLoop i Q) (acc (?e @ [Pause 50]) s) = (r, s')"
      using Suc.prems(3) v Phase by (simp add: phase_test)
    moreover have silent: "rung (doorbell Q False s) (?e @ [Pause 50]) = 0" by simp
    ultimately have "wired D Q s' \<and> (if r = 0xFFFF then tracks D n k Q s' else r = StatusOf D k \<and> tracks D n (Suc k) Q s')"
      "\<exists>t. trace s' = trace s @ t \<and> rung (doorbell Q False s) t = 0"
      using Suc.IH [OF one(2,1) [OF silent]] by fastforce+
    then show ?thesis using False by blast
  qed
qed

definition slot_writes :: "queue_state \<Rightarrow> nat \<Rightarrow> nvme_command \<Rightarrow> access list" where
  "slot_writes q n c = map (\<lambda>i. Wr 4 (slot q n i) (ucast (command_words c ! i))) [0..<16]"

lemma run_WriteCommand:
  assumes "SqTail q = of_nat (n mod 64)"
  shows "run_state (WriteCommand q c) s = ((), acc (slot_writes q n c) s)"
proof -
  have "run_state (WriteCommand q c) s = ((), acc (concat (map (\<lambda>i. [Wr 4 (slot q n i) (ucast (command_words c ! i))]) [0..<16])) s)"
    unfolding WriteCommand_def using assms by (intro run_each_writes) (simp add: slot_def of_nat_ucast_small)
  then show ?thesis unfolding slot_writes_def by (simp only: concat_map_singleton)
qed

lemma silent_slots: "wired D Q s \<Longrightarrow> rung (doorbell Q False s) (slot_writes (the_queue Q s) n c) = 0"
  by (auto simp: rung_def slot_writes_def wired_def filter_empty_conv)

text \<open>One command: it is in its slot before the doorbell is rung, and what comes back is a time-out or the status of the oldest
  command whose completion has not been taken.\<close>
lemma Submit_step:
  assumes "wired D Q s" "tracks D n k Q s" "n < k + 64" "run_state (Submit Q c) s = (r, s')"
  shows "wired D Q s'" "if r = 0xFFFF then tracks D (Suc n) k Q s' else r = StatusOf D k \<and> tracks D (Suc n) (Suc k) Q s'"
    "\<exists>t. trace s' = trace s @ slot_writes (the_queue Q s) n (numbered c (NextCommandId s)) @ Wr 4 (doorbell Q False s) (of_nat (Suc n mod 64)) # t \<and>
       rung (doorbell Q False s) t = 0"
    "k < Finished D (trace s @ slot_writes (the_queue Q s) n (numbered c (NextCommandId s)) @ [Wr 4 (doorbell Q False s) (of_nat (Suc n mod 64))])
       \<Longrightarrow> r \<noteq> 0xFFFF"
proof -
  let ?q = "the_queue Q s"
  let ?w = "slot_writes ?q n (numbered c (NextCommandId s))" and ?b = "Wr 4 (doorbell Q False s) (of_nat (Suc n mod 64))"
  define u where "u = acc (?w @ [?b]) (set_queue Q (?q\<lparr>SqTail := of_nat (Suc n mod 64)\<rparr>) (s\<lparr>NextCommandId := NextCommandId s + 1\<rparr>))"
  have tail: "SqTail ?q = of_nat (n mod 64)" using assms(2) by (simp add: tracks_def)
  have q: "the_queue Q (s\<lparr>NextCommandId := i\<rparr>) = ?q" for i by (cases Q) simp_all
  have "run_state (Submit Q c) s = run_state (CompletionLoop 1000000 Q) u"
    using wrap_next [of n] tail
    by (simp add: Submit_def Let_def q run_WriteCommand run_RingDoorbell acc_set_queue u_def of_nat_ucast_small doorbell_def)
  with assms(4) have run: "run_state (CompletionLoop 1000000 Q) u = (r, s')" by simp
  have same: "doorbell Q False u = doorbell Q False s" "trace u = trace s @ ?w @ [?b]" by (simp_all add: u_def doorbell_def)
  have "wired D Q (s\<lparr>NextCommandId := NextCommandId s + 1\<rparr>)" using assms(1) by (simp add: wired_def q doorbell_def slot_def)
  then have wired: "wired D Q u" by (simp add: u_def wired_set_queue q)
  have c: "completes D (doorbell Q False s) (Cq ?q) (Respond (MBus s))" using assms(1) by (simp add: wired_def)
  from completesD(1) [OF this, of "trace s" "?w @ [?b]"] assms(2,3) silent_slots [OF assms(1)]
  have "tracks D (Suc n) k Q u" unfolding tracks_def same by (simp add: u_def)
  from CompletionLoop_tracks [OF wired this run] same
  show "wired D Q s'" "if r = 0xFFFF then tracks D (Suc n) k Q s' else r = StatusOf D k \<and> tracks D (Suc n) (Suc k) Q s'"
    "\<exists>t. trace s' = trace s @ ?w @ ?b # t \<and> rung (doorbell Q False s) t = 0"
    "k < Finished D (trace s @ ?w @ [?b]) \<Longrightarrow> r \<noteq> 0xFFFF"
    by auto
qed

text \<open>The doorbell stays where it is.\<close>
lemma Submit_doorbell: "run_state (Submit Q c) s = (r, s') \<Longrightarrow> doorbell Io False s' = doorbell Io False s"
proof -
  define P where "P u \<longleftrightarrow> doorbell Io False u = doorbell Io False s" for u :: "'a nvme_scheme"
  have access: "keeps P (mwrite w a v)" "keeps P (mread w a)" "keeps P (mpause n)" for w a v n
    by (rule keepsI; auto simp: P_def doorbell_def acc_def)+
  have queue: "keeps P (change (set_queue X q))" "keeps P (change (\<lambda>n. n\<lparr>NextCommandId := i\<rparr>))" for X q i
    by (cases X; auto intro!: keeps_change simp: P_def doorbell_def)+
  have bell: "keeps P (RingDoorbell i b v)" for i b v
    unfolding RingDoorbell_def NvWrite32_def mwrite32_def by (intro keep access)
  have status: "keeps P (StatusPhase q)" for q unfolding StatusPhase_def mread16_def by (intro keep access)
  have taken: "keeps P (TakeCompletion Q)" unfolding TakeCompletion_def Let_def by (intro keep queue bell)
  have "keeps P (CompletionLoop n Q)" for n
    by (induction n) (simp_all, (intro keep access status taken | assumption)+)
  then have "keeps P (Submit Q c)"
    unfolding Submit_def WriteCommand_def mwrite32_def Let_def by (intro keep access queue bell)
  moreover have "P s" by (simp add: P_def)
  moreover assume "run_state (Submit Q c) s = (r, s')"
  ultimately have "P s'" by (rule keepsD)
  then show ?thesis by (simp add: P_def)
qed

section \<open>Properties\<close>

text \<open>Several commands, one after the other.\<close>
primrec Submits :: "nvme_command list \<Rightarrow> ('n nvme_scheme, u16 list) state" where
  "Submits [] = ret []"
| "Submits (c # cs) = do { r \<leftarrow> SubmitIoCommand c; rs \<leftarrow> Submits cs; ret (r # rs) }"

definition answered :: "u16 list \<Rightarrow> u16 list" where "answered rs = filter (\<lambda>r. r \<noteq> 0xFFFF) rs"
definition timeouts :: "u16 list \<Rightarrow> nat" where "timeouts rs = length (filter (\<lambda>r. r = 0xFFFF) rs)"

lemma answered_simps [simp]:
  "answered [] = []" "answered (r # rs) = (if r = 0xFFFF then answered rs else r # answered rs)"
  "timeouts [] = 0" "timeouts (r # rs) = (if r = 0xFFFF then Suc (timeouts rs) else timeouts rs)"
  by (simp_all add: answered_def timeouts_def)

lemma no_timeout: "timeouts rs = 0 \<Longrightarrow> answered rs = rs"
  by (induction rs) (auto split: if_splits)

text \<open>A controller that has completed every command it has been told of is never timed out.\<close>
lemma Submits_prompt:
  "wired D Io s \<Longrightarrow> tracks D n n Io s \<Longrightarrow> Finished D = rung (doorbell Io False s) \<Longrightarrow> run_state (Submits cs) s = (rs, s') \<Longrightarrow>
   timeouts rs = 0"
proof (induction cs arbitrary: s n rs)
  case (Cons c cs)
  obtain r u where one: "run_state (Submit Io c) s = (r, u)" by (cases "run_state (Submit Io c) s")
  obtain qs where rest: "run_state (Submits cs) u = (qs, s')" "rs = r # qs"
    using Cons.prems(4) one by (auto simp: SubmitIoCommand_def split: prod.splits)
  note step = Submit_step [OF Cons.prems(1,2) _ one]
  have "rung (doorbell Io False s) (trace s) = n" using Cons.prems(2) by (simp add: tracks_def)
  then have r: "r \<noteq> 0xFFFF" using step(4) silent_slots [OF Cons.prems(1)] by (simp add: Cons.prems(3))
  have "doorbell Io False u = doorbell Io False s" using Submit_doorbell [OF one] .
  with Cons.IH [OF step(1) _ _ rest(1), of "Suc n"] step(2) r Cons.prems(3) show ?case by (simp add: rest(2))
qed simp

text \<open>C36: The completions the NVMe driver takes are those of the commands in the order of their submission, for any number of commands to a
  controller that completes in order, whenever it completes them and however often the queue and its phase bit wrap around, as long as the
  commands whose completion has not been taken, those of all time-outs among them, stay below the 64 the queue has room for. Every command
  has a result; the results other than time-outs are the statuses of the next commands, none left out and none taken twice, and
  afterwards exactly as many commands have been submitted and completions taken. So without a time-out every command gets
  its own status, and after one every later command is given the status of an earlier one.\<close>
theorem Submits_in_order:
  assumes "wired D Io s" "tracks D n k Io s" "run_state (Submits cs) s = (rs, s')" "n + timeouts rs < k + 64"
  shows "length rs = length cs \<and> answered rs = map (StatusOf D) [k..<k + length (answered rs)] \<and> wired D Io s' \<and>
    tracks D (n + length cs) (k + length (answered rs)) Io s'"
  using assms
proof (induction cs arbitrary: s n k rs)
  case Nil
  then show ?case by simp
next
  case (Cons c cs)
  obtain r u where one: "run_state (Submit Io c) s = (r, u)" by (cases "run_state (Submit Io c) s")
  obtain qs where rest: "run_state (Submits cs) u = (qs, s')" "rs = r # qs"
    using Cons.prems(3) one by (auto simp: SubmitIoCommand_def split: prod.splits)
  have room: "n < k + 64" using Cons.prems(4) by simp
  note step = Submit_step [OF Cons.prems(1,2) room one]
  show ?case
  proof (cases "r = 0xFFFF")
    case True
    then show ?thesis
      using Cons.IH [OF step(1) _ rest(1), of "Suc n" k] step(2) Cons.prems(4) by (simp add: rest(2))
  next
    case False
    then have "length qs = length cs" "answered qs = map (StatusOf D) [Suc k..<Suc k + length (answered qs)]" "wired D Io s'"
      "tracks D (Suc n + length cs) (Suc k + length (answered qs)) Io s'"
      using Cons.IH [OF step(1) _ rest(1), of "Suc n" "Suc k"] step(2) Cons.prems(4) by (simp_all add: rest(2))
    moreover have "answered rs = StatusOf D k # answered qs" using False step(2) rest(2) by simp
    ultimately show ?thesis by (simp add: rest(2) upt_conv_Cons del: upt_Suc)
  qed
qed

text \<open>A controller that completes at once, and the state of the driver behind it.\<close>
definition prompt :: controller where
  "prompt = \<lparr>Finished = rung 0x1008, StatusOf = (\<lambda>j. of_nat (j mod 2))\<rparr>"

definition prompt_answers :: "access list \<Rightarrow> u64" where
  "prompt_answers t = (case last t of Rd w a \<Rightarrow> ucast (entry (StatusOf prompt) (rung 0x1008 (butlast t)) (unat (a - 0x300E) div 16)) | _ \<Rightarrow> 0)"

definition demo_nvme :: nvme where
  "demo_nvme = \<lparr>MBus = \<lparr>Respond = prompt_answers, Trace = []\<rparr>, MPhys = undefined, MLog = undefined, NvmeBase = 0, DoorbellStride = 4,
     NextCommandId = 1, AdminQ = new_queue 0 0, IoQ = new_queue 0x2000 0x3000, NvmeDbgStage = 0, NvmeDbgCap = 0, NvmeDbgCsts = 0, NvmeDbgStatus = 0\<rparr>"

lemma demo_wired: "wired prompt Io demo_nvme" "tracks prompt 0 0 Io demo_nvme"
proof -
  have small: "unat (of_nat (0x2000 + 64 * (k mod 64) + 4 * i) :: u64) = 0x2000 + 64 * (k mod 64) + 4 * i" if "i < 16" for k i
    using that less_le_trans [OF mod_less_divisor, of 64 k 64] by (intro unat_of_nat_small) simp
  have slots: "slot (IoQ demo_nvme) k i \<noteq> 0x1008" if "i < 16" for k i
  proof
    assume "slot (IoQ demo_nvme) k i = 0x1008"
    then have "of_nat (0x2000 + 64 * (k mod 64) + 4 * i) = (0x1008 :: u64)" by (simp add: slot_def demo_nvme_def new_queue_def)
    from arg_cong [OF this, of unat] small [OF that, of k] show False by simp
  qed
  have "unat (16 * of_nat s :: u64) div 16 = s" if "s < 64" for s
    using that unat_of_nat_small [of "16 * s", where 'a = 64] by simp
  then have "completes prompt 0x1008 0x3000 prompt_answers"
    by (auto simp: completes_def list_all_iff prompt_def prompt_answers_def mod2_eq_if)
  with slots show "wired prompt Io demo_nvme" "tracks prompt 0 0 Io demo_nvme"
    by (simp_all add: wired_def tracks_def demo_nvme_def doorbell_def queue_number_def REG_DOORBELL_BASE_def new_queue_def prompt_def phase_of_def)
qed

text \<open>A hundred reads, more than the queue has entries: each gets its own status.\<close>
lemma Submits_in_order_witness:
  "\<exists>s'. run_state (Submits (replicate 100 (ReadCommand 0 8 0x4000))) demo_nvme = (map (StatusOf prompt) [0..<100], s') \<and>
     tracks prompt 100 100 Io s'"
proof -
  obtain rs s' where run: "run_state (Submits (replicate 100 (ReadCommand 0 8 0x4000))) demo_nvme = (rs, s')"
    by (cases "run_state (Submits (replicate 100 (ReadCommand 0 8 0x4000))) demo_nvme")
  have "doorbell Io False demo_nvme = 0x1008"
    by (simp add: demo_nvme_def doorbell_def queue_number_def REG_DOORBELL_BASE_def)
  then have none: "timeouts rs = 0" using Submits_prompt [OF demo_wired _ run] by (simp add: prompt_def)
  let ?cs = "replicate 100 (ReadCommand 0 8 0x4000)"
  have all: "length rs = length ?cs \<and> answered rs = map (StatusOf prompt) [0..<0 + length (answered rs)] \<and> wired prompt Io s' \<and>
      tracks prompt (0 + length ?cs) (0 + length (answered rs)) Io s'"
    by (rule Submits_in_order [OF demo_wired run]) (simp add: none)
  then have len: "length rs = 100" by simp
  from all [unfolded no_timeout [OF none] len add_0_left]
  have "rs = map (StatusOf prompt) [0..<100]" "tracks prompt 100 100 Io s'" by (simp_all del: upt_rec_numeral)
  with run show ?thesis by blast
qed

text \<open>A read over NVMe is in its slot of the submission queue, with a number of its own, before the doorbell announces it, and it succeeds only
  if the controller has completed, with status 0, the oldest command whose completion has not been taken. That is the read
  itself when nothing is outstanding; after a time-out it is an earlier command.\<close>
theorem NvmeReadSectors_answer:
  assumes "wired D Io s" "tracks D n k Io s" "n < k + 64" "run_state (NvmeReadSectors Lba Count Buffer) s = (ok, s')" "Sq (IoQ s) \<noteq> 0"
  shows "(ok \<longrightarrow> StatusOf D k = 0 \<and> k < Finished D (trace s') \<and> tracks D (Suc n) (Suc k) Io s') \<and>
    (\<exists>t. trace s' = trace s @ slot_writes (IoQ s) n (numbered (ReadCommand Lba Count Buffer) (NextCommandId s)) @
       Wr 4 (doorbell Io False s) (of_nat (Suc n mod 64)) # t)"
proof -
  obtain r where run: "run_state (Submit Io (ReadCommand Lba Count Buffer)) s = (r, s')" and ok: "ok = (r = 0)"
    using assms(4,5) by (auto simp: NvmeReadSectors_def SubmitIoCommand_def split: prod.splits)
  note step = Submit_step [OF assms(1-3) run]
  have "ok \<Longrightarrow> tracks D (Suc n) (Suc k) Io s' \<and> StatusOf D k = 0" using step(2) ok by simp
  then show ?thesis using step(3) by (auto simp: tracks_def)
qed

lemma NvmeReadSectors_answer_witness:
  "\<exists>ok s'. run_state (NvmeReadSectors 77 8 0x7000) demo_nvme = (ok, s') \<and> (ok \<longrightarrow> 0 < Finished prompt (trace s'))"
proof -
  obtain ok s' where run: "run_state (NvmeReadSectors 77 8 0x7000) demo_nvme = (ok, s')" by force
  have "Sq (IoQ demo_nvme) \<noteq> 0" by (simp add: demo_nvme_def new_queue_def)
  from NvmeReadSectors_answer [OF demo_wired _ run this] run show ?thesis by auto
qed

text \<open>The page lists of the command: a transfer begins at the first address, and what does not fit into its page goes to the second.\<close>
definition transfer_address :: "nvme_command \<Rightarrow> nat \<Rightarrow> u64" where
  "transfer_address c i =
     (let p = unat (take_bit 12 (Prp1 c)) + i in if p < 4096 then Prp1 c + of_nat i else Prp2 c + of_nat (p - 4096))"

lemma split_address: "ucast (ucast (x AND 0xFFFFFFFF :: u64) :: u32) OR push_bit 32 (ucast (ucast (drop_bit 32 x) :: u32)) = x"
proof (rule bit_word_eqI)
  fix n assume "n < LENGTH(64)"
  moreover have "x AND 0xFFFFFFFF = take_bit 32 x" by (simp add: take_bit_eq_mask mask_eq_exp_minus_1)
  moreover have "32 \<le> n \<Longrightarrow> 32 + (n - 32) = n" by simp
  ultimately show "bit (ucast (ucast (x AND 0xFFFFFFFF :: u64) :: u32) OR push_bit 32 (ucast (ucast (drop_bit 32 x) :: u32)) :: u64) n = bit x n"
    by (auto simp: bit_simps)
qed

lemma short_count: "unat ((c - 1) AND 0xFFFF) + 1 = unat c" if "unat c \<le> 8" "0 < c" for c :: u32
proof -
  have "0 < unat c" using that by (simp add: unat_gt_0)
  moreover from this have "unat (c - 1) = unat c - 1" by (subst unat_sub) (simp_all add: word_le_nat_alt)
  moreover have "(0xFFFF :: u32) = mask 16" by (simp add: mask_eq_exp_minus_1)
  then have "unat ((c - 1) AND 0xFFFF) = unat (c - 1) mod 2 ^ 16" by (simp only: unat_and_mask)
  ultimately show ?thesis using that(1) by simp
qed

lemma page_offset: "unat (take_bit 12 (b :: u64)) < 4096"
  by (simp add: unsigned_take_bit_eq take_bit_nat_less_exp [of 12, simplified])

lemma no_wrap: "unat (b + of_nat i) = unat b + i" if "b < 0xFFFFFFFFFFFFF000" "i \<le> 4096" for b :: u64
proof -
  have "unat b < 0xFFFFFFFFFFFFF000" "unat (of_nat i :: u64) = i"
    using that by (simp_all add: word_less_nat_alt unsigned_of_nat take_bit_nat_eq_self)
  then show ?thesis using \<open>i \<le> 4096\<close> by (subst unat_plus_if') simp
qed

text \<open>C37: A read of the NVMe driver asks for the sectors it is to read, and names the memory it is to fill exactly if the buffer does not cross
  a page: the command has no second page, so the part of a buffer behind the end of its page would go to address 0.\<close>
theorem ReadCommand_places:
  assumes "0 < Count" "unat Count \<le> 8" "Buffer < 0xFFFFFFFFFFFFF000"
  shows "ucast (Cdw10 (ReadCommand Lba Count Buffer)) OR push_bit 32 (ucast (Cdw11 (ReadCommand Lba Count Buffer))) = Lba \<and>
    unat (Cdw12 (ReadCommand Lba Count Buffer)) + 1 = unat Count \<and>
    (list_all (\<lambda>i. transfer_address (ReadCommand Lba Count Buffer) i = Buffer + of_nat i) [0..<512 * unat Count] \<longleftrightarrow>
      unat (take_bit 12 Buffer) + 512 * unat Count \<le> 4096)"
proof (intro conjI iffI)
  let ?c = "ReadCommand Lba Count Buffer" and ?o = "unat (take_bit 12 Buffer)"
  show "ucast (Cdw10 ?c) OR push_bit 32 (ucast (Cdw11 ?c)) = Lba" using split_address by (simp add: ReadCommand_def zero_command_def)
  show "unat (Cdw12 ?c) + 1 = unat Count" using short_count [OF assms(2,1)] by (simp add: ReadCommand_def zero_command_def)
  show "list_all (\<lambda>i. transfer_address ?c i = Buffer + of_nat i) [0..<512 * unat Count]" if "?o + 512 * unat Count \<le> 4096"
    using that by (auto simp: list_all_iff transfer_address_def Let_def ReadCommand_def zero_command_def)
  show "?o + 512 * unat Count \<le> 4096" if "list_all (\<lambda>i. transfer_address ?c i = Buffer + of_nat i) [0..<512 * unat Count]"
  proof (rule ccontr)
    assume over: "\<not> ?o + 512 * unat Count \<le> 4096"
    let ?i = "4096 - ?o"
    have "transfer_address ?c ?i = Buffer + of_nat ?i" using that over page_offset [of Buffer] by (auto simp: list_all_iff)
    then have "Buffer + of_nat ?i = 0" using page_offset [of Buffer] by (simp add: transfer_address_def ReadCommand_def zero_command_def)
    moreover have "unat (Buffer + of_nat ?i) = unat Buffer + ?i" using assms(3) by (intro no_wrap) simp_all
    ultimately show False using page_offset [of Buffer] by simp
  qed
qed

lemma ReadCommand_places_witness:
  "list_all (\<lambda>i. transfer_address (ReadCommand 77 8 0x7000) i = 0x7000 + of_nat i) [0..<512 * unat (8 :: u32)] \<and>
   \<not> list_all (\<lambda>i. transfer_address (ReadCommand 77 1 0x7F00) i = 0x7F00 + of_nat i) [0..<512 * unat (1 :: u32)]"
proof -
  have "take_bit 12 (0x7000 :: u64) = 0" "take_bit 12 (0x7F00 :: u64) = 0xF00" by (simp_all add: take_bit_eq_mod)
  then show ?thesis using ReadCommand_places [of 8 "0x7000" 77] ReadCommand_places [of 1 "0x7F00" 77] by simp
qed

end
