(* ===== verification/Ahci.thy ===== *)
theory Ahci
  imports Machine
begin

text \<open>
  The AHCI driver (\<open>kernel/ahci.c\<close>): the search for a port with a disk, the setup of its command list, and the read command
  in slot 0. The waits of the driver have no bound in the source; here each of them takes at most \<open>Looks\<close> looks at the register, and the result \<open>None\<close>
  stands for a driver that is still waiting then. Bit fields of the structures are read, changed and written back.
\<close>

section \<open>State\<close>

definition AHCI_GHC_AE :: u32 where "AHCI_GHC_AE = push_bit 31 1"
definition AHCI_CMD_ST :: u32 where "AHCI_CMD_ST = 1"
definition AHCI_CMD_FRE :: u32 where "AHCI_CMD_FRE = push_bit 4 1"
definition AHCI_CMD_FR :: u32 where "AHCI_CMD_FR = push_bit 14 1"
definition AHCI_CMD_CR :: u32 where "AHCI_CMD_CR = push_bit 15 1"
definition AHCI_TFD_BSY :: u32 where "AHCI_TFD_BSY = 0x80"
definition AHCI_TFD_DRQ :: u32 where "AHCI_TFD_DRQ = 0x08"
definition ATA_CMD_READ_DMA_EXT :: u8 where "ATA_CMD_READ_DMA_EXT = 0x25"

record ahci = machine +
  ActivePort :: u64
  ActiveCmdTable :: u64
  Looks :: nat

text \<open>Registers of the controller and of a port, by their offsets in \<open>HBA_MEM\<close> and \<open>HBA_PORT\<close>.\<close>
definition HbaGhc :: u64 where "HbaGhc = 0x04"
definition HbaPi :: u64 where "HbaPi = 0x0C"
definition PortAddress :: "u64 \<Rightarrow> nat \<Rightarrow> u64" where "PortAddress Hba i = Hba + 0x100 + of_nat i * 0x80"
definition PortClb :: u64 where "PortClb = 0x00"
definition PortClbu :: u64 where "PortClbu = 0x04"
definition PortFb :: u64 where "PortFb = 0x08"
definition PortFbu :: u64 where "PortFbu = 0x0C"
definition PortIs :: u64 where "PortIs = 0x10"
definition PortCmd :: u64 where "PortCmd = 0x18"
definition PortTfd :: u64 where "PortTfd = 0x20"
definition PortSsts :: u64 where "PortSsts = 0x28"
definition PortCi :: u64 where "PortCi = 0x38"

text \<open>\<open>R = f R\<close>.\<close>
definition update32 :: "u64 \<Rightarrow> (u32 \<Rightarrow> u32) \<Rightarrow> ('m machine_scheme, unit) state" where
  "update32 a f = do { v \<leftarrow> mread32 a; mwrite32 a (f v) }"
definition update8 :: "u64 \<Rightarrow> (u8 \<Rightarrow> u8) \<Rightarrow> ('m machine_scheme, unit) state" where
  "update8 a f = do { v \<leftarrow> mread8 a; mwrite8 a (f v) }"

text \<open>\<open>while (R & Mask);\<close>\<close>
definition clears :: "u64 \<Rightarrow> u32 \<Rightarrow> ('a ahci_scheme, bool) state" where
  "clears a Mask = do {
     n \<leftarrow> ask Looks;
     poll n (do { v \<leftarrow> mread32 a; ret (v AND Mask = 0) }) (ret ()) }"

section \<open>Initialisation\<close>

definition StopCommandEngine :: "u64 \<Rightarrow> ('a ahci_scheme, bool) state" where
  "StopCommandEngine Port = do {
     update32 (Port + PortCmd) (\<lambda>v. v AND NOT AHCI_CMD_ST);
     update32 (Port + PortCmd) (\<lambda>v. v AND NOT AHCI_CMD_FRE);
     clears (Port + PortCmd) (AHCI_CMD_CR OR AHCI_CMD_FR) }"

definition StartCommandEngine :: "u64 \<Rightarrow> ('a ahci_scheme, bool) state" where
  "StartCommandEngine Port = do {
     ok \<leftarrow> clears (Port + PortCmd) AHCI_CMD_CR;
     if \<not> ok then ret False else do {
     update32 (Port + PortCmd) (\<lambda>v. v OR AHCI_CMD_FRE);
     update32 (Port + PortCmd) (\<lambda>v. v OR AHCI_CMD_ST);
     ret True } }"

text \<open>The first implemented port with a device that is present and active.\<close>
primrec FindPort :: "u64 \<Rightarrow> nat list \<Rightarrow> ('a ahci_scheme, u64 option) state" where
  "FindPort Hba [] = ret None"
| "FindPort Hba (i # is) = do {
     Pi \<leftarrow> mread32 (Hba + HbaPi);
     if Pi AND push_bit i 1 = 0 then FindPort Hba is else do {
     Det \<leftarrow> mread32 (PortAddress Hba i + PortSsts);
     Ipm \<leftarrow> mread32 (PortAddress Hba i + PortSsts);
     if Det AND 0x0F = 3 \<and> drop_bit 8 Ipm AND 0x0F = 1 then ret (Some (PortAddress Hba i)) else FindPort Hba is } }"

definition SetupPort :: "u64 \<Rightarrow> u64 \<Rightarrow> u64 \<Rightarrow> u64 \<Rightarrow> ('a ahci_scheme, unit) state" where
  "SetupPort Port ClbPage FbPage CmdTablePage = do {
     ZeroBytes ClbPage 4096;
     ZeroBytes FbPage 4096;
     ZeroBytes CmdTablePage 4096;
     mwrite32 (Port + PortClb) (ucast ClbPage);
     mwrite32 (Port + PortClbu) (ucast (drop_bit 32 ClbPage));
     mwrite32 (Port + PortFb) (ucast FbPage);
     mwrite32 (Port + PortFbu) (ucast (drop_bit 32 FbPage));
     mwrite32 (ClbPage + 8) (ucast CmdTablePage);
     mwrite32 (ClbPage + 12) (ucast (drop_bit 32 CmdTablePage)) }"

definition AhciInit :: "u32 \<Rightarrow> ('a ahci_scheme, bool option) state" where
  "AhciInit Abar = do {
     update32 (ucast Abar + HbaGhc) (\<lambda>v. v OR AHCI_GHC_AE);
     FoundPort \<leftarrow> FindPort (ucast Abar) [0..<32];
     case FoundPort of None \<Rightarrow> ret (Some False)
     | Some Port \<Rightarrow> do {
     stopped \<leftarrow> StopCommandEngine Port;
     if \<not> stopped then ret None else do {
     ClbPage \<leftarrow> malloc;
     FbPage \<leftarrow> malloc;
     CmdTablePage \<leftarrow> malloc;
     if ClbPage = 0 \<or> FbPage = 0 \<or> CmdTablePage = 0 then ret (Some False) else do {
     SetupPort Port ClbPage FbPage CmdTablePage;
     started \<leftarrow> StartCommandEngine Port;
     if \<not> started then ret None else do {
     change (\<lambda>a. a\<lparr>ActivePort := Port, ActiveCmdTable := CmdTablePage\<rparr>);
     ret (Some True) } } } } }"

section \<open>Reading\<close>

text \<open>The command header in slot 0.\<close>
definition FillHeader :: "u64 \<Rightarrow> ('a ahci_scheme, unit) state" where
  "FillHeader H = do {
     update8 H (\<lambda>b. (b AND NOT 0x1F) OR 5);
     update8 H (\<lambda>b. b AND NOT 0x40);
     mwrite16 (H + 2) 1;
     mwrite32 (H + 4) 0 }"

text \<open>The command table: the register FIS at its start, and the one entry of the region table at 0x80.\<close>
definition FillTable :: "u64 \<Rightarrow> u64 \<Rightarrow> u32 \<Rightarrow> u64 \<Rightarrow> ('a ahci_scheme, unit) state" where
  "FillTable T Lba Count Buffer = do {
     ZeroBytes T 0x90;
     mwrite32 (T + 0x80) (ucast Buffer);
     mwrite32 (T + 0x84) (ucast (drop_bit 32 Buffer));
     update32 (T + 0x8C) (\<lambda>v. (v AND NOT 0x003FFFFF) OR ((Count * 512 - 1) AND 0x003FFFFF));
     update32 (T + 0x8C) (\<lambda>v. v AND NOT 0x80000000);
     mwrite8 T 0x27;
     update8 (T + 1) (\<lambda>b. b OR 0x80);
     mwrite8 (T + 2) ATA_CMD_READ_DMA_EXT;
     mwrite8 (T + 7) (push_bit 6 1);
     mwrite8 (T + 4) (ucast Lba);
     mwrite8 (T + 5) (ucast (drop_bit 8 Lba));
     mwrite8 (T + 6) (ucast (drop_bit 16 Lba));
     mwrite8 (T + 8) (ucast (drop_bit 24 Lba));
     mwrite8 (T + 9) (ucast (drop_bit 32 Lba));
     mwrite8 (T + 10) (ucast (drop_bit 40 Lba));
     mwrite8 (T + 12) (ucast Count);
     mwrite8 (T + 13) (ucast (drop_bit 8 Count)) }"

text \<open>The last wait, which ends as well when the port reports an error.\<close>
primrec CommandLoop :: "nat \<Rightarrow> u64 \<Rightarrow> ('a ahci_scheme, bool option) state" where
  "CommandLoop 0 Port = ret None"
| "CommandLoop (Suc n) Port = do {
     Ci \<leftarrow> mread32 (Port + PortCi);
     if Ci AND 1 = 0 then ret (Some True) else do {
     Is \<leftarrow> mread32 (Port + PortIs);
     if Is AND push_bit 30 1 \<noteq> 0 then ret (Some False) else CommandLoop n Port } }"

definition AhciReadSectors :: "u64 \<Rightarrow> u32 \<Rightarrow> u64 \<Rightarrow> ('a ahci_scheme, bool option) state" where
  "AhciReadSectors Lba Count Buffer = do {
     Port \<leftarrow> ask ActivePort;
     if Port = 0 then ret (Some False) else do {
     idle \<leftarrow> clears (Port + PortTfd) (AHCI_TFD_BSY OR AHCI_TFD_DRQ);
     if \<not> idle then ret None else do {
     Clbu \<leftarrow> mread32 (Port + PortClbu);
     Clb \<leftarrow> mread32 (Port + PortClb);
     FillHeader (push_bit 32 (ucast Clbu) OR ucast Clb);
     T \<leftarrow> ask ActiveCmdTable;
     FillTable T Lba Count Buffer;
     mwrite32 (Port + PortIs) 0xFFFFFFFF;
     update32 (Port + PortCi) (\<lambda>v. v OR 1);
     n \<leftarrow> ask Looks;
     CommandLoop n Port } } }"

section \<open>Memory\<close>

text \<open>What the accesses leave in a byte of memory: the last write decides.\<close>
fun left :: "u64 \<Rightarrow> access \<Rightarrow> u8 option \<Rightarrow> u8 option" where
  "left x (Wr w a v) b = (if x - a < of_nat w then Some (ucast (drop_bit (8 * unat (x - a)) v)) else b)"
| "left x _ b = b"

definition byte_at :: "access list \<Rightarrow> u64 \<Rightarrow> u8 option" where "byte_at t x = fold (left x) t None"

lemma byte_at_append: "byte_at (t @ u) x = fold (left x) u (byte_at t x)" by (simp add: byte_at_def)

text \<open>Memory gives back what was written into it.\<close>
definition ram :: "u64 \<Rightarrow> nat \<Rightarrow> (access list \<Rightarrow> u64) \<Rightarrow> bool" where
  "ram T n R \<longleftrightarrow> (\<forall>t i. i < n \<longrightarrow>
     (\<forall>b. byte_at t (T + of_nat i) = Some b \<longrightarrow> ucast (R (t @ [Rd 1 (T + of_nat i)])) = b) \<and>
     (\<forall>v. list_all (\<lambda>j. byte_at t (T + of_nat i + of_nat j) = Some (ucast (drop_bit (8 * j) v))) [0..<4] \<longrightarrow>
       ucast (R (t @ [Rd 4 (T + of_nat i)])) = (v :: u32)))"

lemma ramD:
  assumes "ram T n R" "i < n"
  shows "byte_at t (T + of_nat i) = Some b \<Longrightarrow> ucast (R (t @ [Rd 1 (T + of_nat i)])) = b"
    "list_all (\<lambda>j. byte_at t (T + of_nat i + of_nat j) = Some (ucast (drop_bit (8 * j) v))) [0..<4] \<Longrightarrow> ucast (R (t @ [Rd 4 (T + of_nat i)])) = (v :: u32)"
  using assms by (auto simp: ram_def)

definition zeros :: "u64 \<Rightarrow> nat \<Rightarrow> access list" where "zeros T n = map (\<lambda>i. Wr 1 (T + of_nat i) 0) [0..<n]"

lemma run_ZeroBytes: "run_state (ZeroBytes T n) m = ((), acc (zeros T n) m)"
proof -
  have "run_state (ZeroBytes T n) m = ((), acc (concat (map (\<lambda>i. [Wr 1 (T + of_nat i) 0]) [0..<n])) m)"
    unfolding ZeroBytes_def by (rule run_each_writes) simp
  then show ?thesis by (simp only: zeros_def concat_map_singleton)
qed

lemma byte_at_zeros: "i < n \<Longrightarrow> byte_at (t @ zeros T n) (T + of_nat i) = Some 0"
proof (induction n)
  case (Suc n)
  then show ?case by (cases "i < n") (simp_all add: zeros_def byte_at_append less_Suc_eq)
qed simp

lemma byte_at_table: "unat i < 0x90 \<Longrightarrow> byte_at (t @ zeros T 0x90) (T + i) = Some 0"
  using byte_at_zeros [of "unat i" "0x90" t T] by simp

definition byte_of :: "nat \<Rightarrow> 'a :: len word \<Rightarrow> u8" where "byte_of i v = ucast (drop_bit (8 * i) v)"

lemma byte_of_ucast: "drop_bit (8 * i) (ucast (v :: u32) :: u64) = ucast (drop_bit (8 * i) v)"
  by (rule bit_word_eqI) (auto simp: bit_simps dest: bit_imp_le_length)

lemma byte_ucast [simp]: "(ucast (ucast (v :: u32) :: u64) :: u8) = ucast v" "(ucast (ucast (b :: u8) :: u64) :: u8) = b"
  by (rule bit_word_eqI; auto simp: bit_simps dest: bit_imp_le_length; fail)+

definition table_accesses :: "u64 \<Rightarrow> u64 \<Rightarrow> u32 \<Rightarrow> u64 \<Rightarrow> access list" where
  "table_accesses T Lba Count Buffer =
     [Wr 4 (T + 0x80) (ucast (ucast Buffer :: u32)), Wr 4 (T + 0x84) (ucast (ucast (drop_bit 32 Buffer) :: u32)), Rd 4 (T + 0x8C),
      Wr 4 (T + 0x8C) (ucast ((Count * 512 - 1) AND 0x003FFFFF)), Rd 4 (T + 0x8C), Wr 4 (T + 0x8C) (ucast ((Count * 512 - 1) AND 0x003FFFFF)),
      Wr 1 T 0x27, Rd 1 (T + 1), Wr 1 (T + 1) 0x80, Wr 1 (T + 2) 0x25, Wr 1 (T + 7) 0x40,
      Wr 1 (T + 4) (ucast (ucast Lba :: u8)), Wr 1 (T + 5) (ucast (ucast (drop_bit 8 Lba) :: u8)), Wr 1 (T + 6) (ucast (ucast (drop_bit 16 Lba) :: u8)),
      Wr 1 (T + 8) (ucast (ucast (drop_bit 24 Lba) :: u8)), Wr 1 (T + 9) (ucast (ucast (drop_bit 32 Lba) :: u8)),
      Wr 1 (T + 10) (ucast (ucast (drop_bit 40 Lba) :: u8)),
      Wr 1 (T + 12) (ucast (ucast Count :: u8)), Wr 1 (T + 13) (ucast (ucast (drop_bit 8 Count) :: u8))]"

lemma upt_four: "[0..<4] = [0, 1, 2, 3]" by (simp add: upt_rec)

lemma run_FillTable:
  assumes "ram T 0x90 (Respond (MBus s))"
  shows "run_state (FillTable T Lba Count Buffer) s = ((), acc (zeros T 0x90 @ table_accesses T Lba Count Buffer) s)"
proof -
  let ?R = "Respond (MBus s)" and ?z = "trace s @ zeros T 0x90"
  let ?b = "[Wr 4 (T + 0x80) (ucast (ucast Buffer :: u32)), Wr 4 (T + 0x84) (ucast (ucast (drop_bit 32 Buffer) :: u32))]"
  let ?d = "(Count * 512 - 1) AND 0x003FFFFF"
  let ?c = "?b @ [Rd 4 (T + 0x8C), Wr 4 (T + 0x8C) (ucast ?d)]"
  note zero = byte_at_table [of _ "trace s" T] 
  have "ucast (?R ((?z @ ?b) @ [Rd 4 (T + of_nat 0x8C)])) = (0 :: u32)"
    using zero [of "0x8C"] zero [of "0x8D"] zero [of "0x8E"] zero [of "0x8F"]
    by (intro ramD(2) [OF assms]) (simp_all add: upt_four byte_at_append add.commute [of _ T])
  moreover have "ucast (?R ((?z @ ?c) @ [Rd 4 (T + of_nat 0x8C)])) = ?d"
    by (intro ramD(2) [OF assms]) (simp_all add: upt_four byte_at_append byte_of_ucast [of 1, simplified] byte_of_ucast [of 2, simplified] byte_of_ucast [of 3, simplified])
  moreover have "ucast (?R ((?z @ ?c @ [Rd 4 (T + 0x8C), Wr 4 (T + 0x8C) (ucast ?d), Wr 1 T 0x27]) @ [Rd 1 (T + of_nat 1)])) = (0 :: u8)"
    using zero [of 1] by (intro ramD(1) [OF assms]) (simp_all add: byte_at_append)
  moreover have "?d AND NOT 0x80000000 = ?d" by (simp add: and.assoc)
  ultimately show ?thesis
    by (simp add: FillTable_def table_accesses_def run_ZeroBytes update32_def update8_def ATA_CMD_READ_DMA_EXT_def)
qed


section \<open>The read command\<close>

text \<open>The command as the controller finds it: a register FIS with the sectors, and one region with the buffer.\<close>
definition read_fis :: "u64 \<Rightarrow> u32 \<Rightarrow> u8 list" where
  "read_fis Lba Count =
     [0x27, 0x80, 0x25, 0, byte_of 0 Lba, byte_of 1 Lba, byte_of 2 Lba, 0x40, byte_of 3 Lba, byte_of 4 Lba, byte_of 5 Lba, 0,
      byte_of 0 Count, byte_of 1 Count, 0, 0, 0, 0, 0, 0]"

definition read_region :: "u64 \<Rightarrow> u32 \<Rightarrow> u8 list" where
  "read_region Buffer Size =
     map (\<lambda>i. byte_of i Buffer) [0..<8] @ [0, 0, 0, 0] @ map (\<lambda>i. byte_of i (Size - 1)) [0..<4]"

definition memory_at :: "access list \<Rightarrow> u64 \<Rightarrow> nat \<Rightarrow> u8 option list" where
  "memory_at t a n = map (\<lambda>i. byte_at t (a + of_nat i)) [0..<n]"

lemma upt_bytes:
  "[0..<8] = [0, 1, 2, 3, 4, 5, 6, 7]" "[0..<16] = [0, 1, 2, 3, 4, 5, 6, 7, 8, 9, 10, 11, 12, 13, 14, 15]"
  "[0..<20] = [0, 1, 2, 3, 4, 5, 6, 7, 8, 9, 10, 11, 12, 13, 14, 15, 16, 17, 18, 19]"
  by (simp_all add: upt_rec)

lemma byte_parts:
  "(ucast (ucast (v :: u64) :: u32) :: u8) = ucast v"
  "m \<le> 24 \<Longrightarrow> (ucast (drop_bit m (ucast v :: u32)) :: u8) = ucast (drop_bit m v)"
  "(ucast (drop_bit m (ucast (c :: u32) :: u64)) :: u8) = ucast (drop_bit m c)"
  by (rule bit_word_eqI; auto simp: bit_simps dest: bit_imp_le_length; fail)+

lemma region_size: "(Count * 512 - 1) AND 0x003FFFFF = Count * 512 - 1" if "0 < Count" "unat Count \<le> 0x2000" for Count :: u32
proof -
  have size: "unat (Count * 512) = unat Count * 512" using that(2) by (simp add: unat_mult_nowrap)
  have "0 < unat Count" using that(1) by (simp add: unat_gt_0)
  then have "unat (Count * 512 - 1) = unat Count * 512 - 1" using size by (subst unat_sub) (simp_all add: word_le_nat_alt)
  then have "unat ((Count * 512 - 1) AND mask 22) = unat (Count * 512 - 1)" using that(2) by (simp only: unat_and_mask) simp
  then have "(Count * 512 - 1) AND mask 22 = Count * 512 - 1" by (simp only: word_unat_eq_iff)
  moreover have "(0x003FFFFF :: u32) = mask 22" by (simp add: mask_eq_exp_minus_1)
  ultimately show ?thesis by (simp only:)
qed

lemma table_bytes:
  assumes "0 < Count" "unat Count \<le> 0x2000"
  shows "memory_at (t @ zeros T 0x90 @ table_accesses T Lba Count Buffer) T 20 = map Some (read_fis Lba Count)"
    "memory_at (t @ zeros T 0x90 @ table_accesses T Lba Count Buffer) (T + 0x80) 16 = map Some (read_region Buffer (Count * 512))"
proof -
  note zero = byte_at_table [of _ t T] byte_at_table [of 0 t T, simplified]
  have d: "(Count * 512 - 1) AND 0x003FFFFF = Count * 512 - 1" using assms by (rule region_size)
  show "memory_at (t @ zeros T 0x90 @ table_accesses T Lba Count Buffer) T 20 = map Some (read_fis Lba Count)"
    unfolding memory_at_def upt_bytes append_assoc [symmetric] byte_at_append [of "t @ zeros T 0x90"]
    using zero(2) zero(1) [of 3] zero(1) [of 11] zero(1) [of 14] zero(1) [of 15] zero(1) [of 16] zero(1) [of 17] zero(1) [of 18] zero(1) [of 19]
    by (simp add: read_fis_def table_accesses_def byte_of_def)
  show "memory_at (t @ zeros T 0x90 @ table_accesses T Lba Count Buffer) (T + 0x80) 16 = map Some (read_region Buffer (Count * 512))"
    unfolding memory_at_def upt_bytes append_assoc [symmetric] byte_at_append [of "t @ zeros T 0x90"]
    using zero(1) [of "0x88"] zero(1) [of "0x89"] zero(1) [of "0x8A"] zero(1) [of "0x8B"]
    by (simp add: read_region_def table_accesses_def d byte_of_def byte_parts upt_bytes upt_four add.commute [of _ T])
qed

lemma poll_reads:
  assumes "run_state (poll n (do { v \<leftarrow> mread32 a; ret (P v) }) (ret ())) s = (ok, s')"
  shows "\<exists>t. s' = acc t s"
  using assms
proof (induction n arbitrary: s)
  case 0
  then show ?case by (auto intro: exI [of _ "[]"])
next
  case (Suc n)
  show ?case
  proof (cases "P (ucast (Respond (MBus s) (trace s @ [Rd 4 a])))")
    case True
    then show ?thesis using Suc.prems by auto
  next
    case False
    then have "run_state (poll n (do { v \<leftarrow> mread32 a; ret (P v) }) (ret ())) (acc [Rd 4 a] s) = (ok, s')" using Suc.prems by simp
    from Suc.IH [OF this] show ?thesis by auto
  qed
qed

lemma clears_reads: "run_state (clears a Mask) s = (ok, s') \<Longrightarrow> \<exists>t. s' = acc t s"
  unfolding clears_def by (auto dest: poll_reads)

lemma FillHeader_accesses: "\<exists>t. run_state (FillHeader H) s = ((), acc t s)"
  by (simp add: FillHeader_def update8_def) blast

lemma CommandLoop_ends:
  assumes "run_state (CommandLoop n Port) s = (Some ok, s')"
  shows "\<exists>t. s' = acc t s \<and>
    (if ok then last (trace s') = Rd 4 (Port + PortCi) \<and> (ucast (Respond (MBus s) (trace s')) :: u32) AND 1 = 0
     else last (trace s') = Rd 4 (Port + PortIs) \<and> (ucast (Respond (MBus s) (trace s')) :: u32) AND push_bit 30 1 \<noteq> 0)"
  using assms
proof (induction n arbitrary: s)
  case (Suc n)
  let ?ci = "[Rd 4 (Port + PortCi)]" and ?is = "[Rd 4 (Port + PortIs)]"
  let ?Ci = "ucast (Respond (MBus s) (trace s @ ?ci)) :: u32" and ?Is = "ucast (Respond (MBus s) (trace s @ ?ci @ ?is)) :: u32"
  consider "?Ci AND 1 = 0" | "?Ci AND 1 \<noteq> 0" "?Is AND push_bit 30 1 \<noteq> 0" | "?Ci AND 1 \<noteq> 0" "?Is AND push_bit 30 1 = 0" by blast
  then show ?case
  proof cases
    case 3
    then have "run_state (CommandLoop n Port) (acc (?ci @ ?is) s) = (Some ok, s')" using Suc.prems by simp
    from Suc.IH [OF this] show ?thesis by auto
  qed (use Suc.prems in \<open>auto\<close>)
qed simp

text \<open>C38: A read over AHCI hands the controller the right command. When it comes back with a result, then before the port's command register was written
  the command table held, byte for byte, a register FIS with the read command for the sectors, and the buffer with its size as the one region, whatever it held before; and
  the result is success if the last thing seen is that the port has finished the command, failure if it is the error bit of the port.\<close>
theorem AhciReadSectors_command:
  assumes "ram (ActiveCmdTable s) 0x90 (Respond (MBus s))" "ActivePort s \<noteq> 0" "0 < Count" "unat Count \<le> 0x2000"
    and "run_state (AhciReadSectors Lba Count Buffer) s = (Some ok, s')"
  shows "(\<exists>t v u. trace s' = t @ [Wr 4 (ActivePort s + PortIs) 0xFFFFFFFF, Rd 4 (ActivePort s + PortCi), Wr 4 (ActivePort s + PortCi) v] @ u \<and> bit v 0 \<and>
      memory_at t (ActiveCmdTable s) 20 = map Some (read_fis Lba Count) \<and>
      memory_at t (ActiveCmdTable s + 0x80) 16 = map Some (read_region Buffer (Count * 512))) \<and>
    (if ok then last (trace s') = Rd 4 (ActivePort s + PortCi) \<and> (ucast (Respond (MBus s) (trace s')) :: u32) AND 1 = 0
     else last (trace s') = Rd 4 (ActivePort s + PortIs) \<and> (ucast (Respond (MBus s) (trace s')) :: u32) AND push_bit 30 1 \<noteq> 0)"
proof -
  let ?P = "ActivePort s" and ?T = "ActiveCmdTable s"
  have fields: "ActivePort (acc t s) = ?P" "ActiveCmdTable (acc t s) = ?T" "Looks (acc t s) = Looks s" for t by (simp_all add: acc_def)
  obtain idle a where a: "run_state (clears (?P + PortTfd) (AHCI_TFD_BSY OR AHCI_TFD_DRQ)) s = (idle, acc a s)"
    by (metis clears_reads surj_pair)
  define b where "b = a @ [Rd 4 (?P + PortClbu), Rd 4 (?P + PortClb)]"
  define H :: u64 where "H = push_bit 32 (ucast (ucast (Respond (MBus s) (trace s @ a @ [Rd 4 (?P + PortClbu)])) :: u32)) OR
      ucast (ucast (Respond (MBus s) (trace s @ b)) :: u32)"
  obtain c where c: "run_state (FillHeader H) (acc b s) = ((), acc c (acc b s))" using FillHeader_accesses by blast
  define d where "d = b @ c @ zeros ?T 0x90 @ table_accesses ?T Lba Count Buffer"
  have "run_state (FillTable ?T Lba Count Buffer) (acc (b @ c) s) = ((), acc d s)"
    using run_FillTable [of ?T "acc (b @ c) s"] assms(1) by (simp add: d_def)
  moreover have idle: "idle" using assms(2,5) a by (cases idle) (simp_all add: AhciReadSectors_def)
  ultimately have upto: "run_state (AhciReadSectors Lba Count Buffer) s =
      run_state (do { mwrite32 (?P + PortIs) 0xFFFFFFFF; update32 (?P + PortCi) (\<lambda>v. v OR 1); n \<leftarrow> ask Looks; CommandLoop n ?P }) (acc d s)"
    using assms(2) a c by (simp add: AhciReadSectors_def fields b_def H_def)
  obtain v where rest: "run_state (do { mwrite32 (?P + PortIs) 0xFFFFFFFF; update32 (?P + PortCi) (\<lambda>v. v OR 1); n \<leftarrow> ask Looks; CommandLoop n ?P }) (acc d s) =
      run_state (CommandLoop (Looks s) ?P)
      (acc (d @ [Wr 4 (?P + PortIs) 0xFFFFFFFF, Rd 4 (?P + PortCi), Wr 4 (?P + PortCi) v]) s)" "bit v 0"
    by (rule that [of "ucast ((ucast (Respond (MBus s) (trace s @ d @ [Wr 4 (?P + PortIs) 0xFFFFFFFF, Rd 4 (?P + PortCi)])) :: u32) OR 1)"])
      (simp_all add: update32_def fields bit_simps)
  have run: "run_state (CommandLoop (Looks s) ?P)
      (acc (d @ [Wr 4 (?P + PortIs) 0xFFFFFFFF, Rd 4 (?P + PortCi), Wr 4 (?P + PortCi) v]) s) = (Some ok, s')" using assms(5) upto rest by simp
  then obtain u where "s' = acc u (acc (d @ [Wr 4 (?P + PortIs) 0xFFFFFFFF, Rd 4 (?P + PortCi), Wr 4 (?P + PortCi) v]) s)"
    using CommandLoop_ends by blast
  then have ends: "trace s' = (trace s @ d) @ [Wr 4 (?P + PortIs) 0xFFFFFFFF, Rd 4 (?P + PortCi), Wr 4 (?P + PortCi) v] @ u" by simp
  have "memory_at (trace s @ d) ?T 20 = map Some (read_fis Lba Count)"
    "memory_at (trace s @ d) (?T + 0x80) 16 = map Some (read_region Buffer (Count * 512))"
    using table_bytes [OF assms(3,4), of "trace s @ b @ c" ?T Lba Buffer] by (simp_all add: d_def)
  with ends rest(2) have "\<exists>t v u. trace s' = t @ [Wr 4 (?P + PortIs) 0xFFFFFFFF, Rd 4 (?P + PortCi), Wr 4 (?P + PortCi) v] @ u \<and> bit v 0 \<and>
      memory_at t ?T 20 = map Some (read_fis Lba Count) \<and> memory_at t (?T + 0x80) 16 = map Some (read_region Buffer (Count * 512))"
    by blast
  moreover from CommandLoop_ends [OF run] have "if ok then last (trace s') = Rd 4 (?P + PortCi) \<and> (ucast (Respond (MBus s) (trace s')) :: u32) AND 1 = 0
      else last (trace s') = Rd 4 (?P + PortIs) \<and> (ucast (Respond (MBus s) (trace s')) :: u32) AND push_bit 30 1 \<noteq> 0"
    unfolding acc_simps by blast
  ultimately show ?thesis by blast
qed

text \<open>A controller that is done at once, with memory for the command table.\<close>
definition demo_answers :: "access list \<Rightarrow> u64" where
  "demo_answers t =
     (case last t of
        Rd w a \<Rightarrow> (if a - 0x5000 < 0x90
          then (let byte = (\<lambda>j. case byte_at (butlast t) (a + of_nat j) of Some b \<Rightarrow> ucast b | None \<Rightarrow> 0) in
            if w = 1 then byte 0 else byte 0 OR push_bit 8 (byte 1) OR push_bit 16 (byte 2) OR push_bit 24 (byte 3)) else 0)
      | _ \<Rightarrow> 0)"

definition demo_ahci :: ahci where
  "demo_ahci = \<lparr>MBus = \<lparr>Respond = demo_answers, Trace = []\<rparr>, MPhys = undefined, MLog = undefined, ActivePort = 0x10100, ActiveCmdTable = 0x5000, Looks = 1\<rparr>"

lemma bytes_of_word: "(ucast (ucast (ucast v :: u8) OR push_bit 8 (ucast (ucast (drop_bit 8 v) :: u8)) OR push_bit 16 (ucast (ucast (drop_bit 16 v) :: u8)) OR
    push_bit 24 (ucast (ucast (drop_bit 24 v) :: u8)) :: u64) :: u32) = v"
proof (rule bit_word_eqI)
  fix n assume "n < LENGTH(32)"
  then have "n < 8 \<or> 8 \<le> n \<and> n < 16 \<or> 16 \<le> n \<and> n < 24 \<or> 24 \<le> n \<and> n < 32" by auto
  moreover have "m \<le> n \<Longrightarrow> m + (n - m) = n" for m by simp
  ultimately show "bit (ucast (ucast (ucast v :: u8) OR push_bit 8 (ucast (ucast (drop_bit 8 v) :: u8)) OR push_bit 16 (ucast (ucast (drop_bit 16 v) :: u8)) OR
      push_bit 24 (ucast (ucast (drop_bit 24 v) :: u8)) :: u64) :: u32) n = bit v n"
    by (elim disjE conjE) (simp_all add: bit_simps, arith+)
qed

lemma demo_ram: "ram 0x5000 0x90 demo_answers"
  unfolding ram_def
proof (intro allI impI conjI)
  fix t i assume "i < (0x90 :: nat)"
  then have "(of_nat i :: u64) < 0x90" by (simp add: word_less_nat_alt unsigned_of_nat take_bit_nat_eq_self)
  then show "ucast (demo_answers (t @ [Rd 1 (0x5000 + of_nat i)])) = b" if "byte_at t (0x5000 + of_nat i) = Some b" for b
    using that by (simp add: demo_answers_def)
  show "ucast (demo_answers (t @ [Rd 4 (0x5000 + of_nat i)])) = v"
    if "list_all (\<lambda>j. byte_at t (0x5000 + of_nat i + of_nat j) = Some (ucast (drop_bit (8 * j) v))) [0..<4]" for v :: u32
    using that \<open>(of_nat i :: u64) < 0x90\<close> bytes_of_word [of v] by (simp add: demo_answers_def upt_four)
qed

lemma AhciReadSectors_command_witness:
  "\<exists>s'. run_state (AhciReadSectors 77 8 0x7000) demo_ahci = (Some True, s') \<and> last (trace s') = Rd 4 (0x10100 + PortCi)"
proof -
  have ram: "ram (ActiveCmdTable demo_ahci) 0x90 (Respond (MBus demo_ahci))" "ActivePort demo_ahci \<noteq> 0" using demo_ram by (simp_all add: demo_ahci_def)
  note fill = run_FillTable [of "0x5000" "acc t demo_ahci" for t]
  have fields: "ActivePort (acc t demo_ahci) = 0x10100" "ActiveCmdTable (acc t demo_ahci) = 0x5000" "Looks (acc t demo_ahci) = 1"
    "ActivePort demo_ahci = 0x10100" "Looks demo_ahci = 1" "Respond (MBus demo_ahci) = demo_answers" "trace demo_ahci = []" for t
    by (simp_all add: acc_def demo_ahci_def)
  obtain s' where run: "run_state (AhciReadSectors 77 8 0x7000) demo_ahci = (Some True, s')"
    using demo_ram by (simp add: AhciReadSectors_def clears_def fields fill FillHeader_def update8_def update32_def demo_answers_def PortTfd_def PortClbu_def
        PortClb_def PortIs_def PortCi_def)
  from AhciReadSectors_command [OF ram _ _ run] have "last (trace s') = Rd 4 (ActivePort demo_ahci + PortCi)" by simp
  with run show ?thesis by (auto simp: demo_ahci_def)
qed

end
