(* ===== verification/Irq.thy ===== *)
theory Irq
  imports Pci Keyboard Mouse
begin

text \<open>
  Interrupts (\<open>kernel/idt.c\<close>) and what the drivers of the keyboard and the mouse add to them (\<open>InitKeyboard\<close> in \<open>kernel/keyboard.c\<close>,
  \<open>InitMouse\<close> in \<open>kernel/mouse.c\<close>): the table of gates, the two interrupt controllers, the timer, the dispatch to the
  registered handlers, and sleeping. The waits for the keyboard controller have no bound in the source; here each takes at most
  \<open>Looks\<close> looks at its status, and \<open>Waiting\<close> is set when that was not enough: the driver would still be waiting then. The addresses
  of the stubs, of the table and the code segment are given; they are settled by the linker and the bootloader.
\<close>

section \<open>State\<close>

record idt_entry =
  OffsetLow :: u16
  Selector :: u16
  Ist :: u8
  TypeAttr :: u8
  OffsetMid :: u16
  OffsetHigh :: u32
  Zero :: u32

datatype handler = KeyboardHandler | MouseHandler

record irqs =
  Ports :: bus
  Idt :: "idt_entry list"
  IrqHandlers :: "handler option list"
  TickCount :: u64
  Idtr :: "(u16 \<times> u64) option"
  InterruptsOn :: bool
  ApicBase :: u64
  IrqKeyboard :: keyboard
  IrqMouse :: mouse
  Waiting :: bool
  Looks :: nat
  Cs :: u16
  Stub :: "nat \<Rightarrow> u64"
  IdtAddress :: u64

definition no_gate :: idt_entry where
  "no_gate = \<lparr>OffsetLow = 0, Selector = 0, Ist = 0, TypeAttr = 0, OffsetMid = 0, OffsetHigh = 0, Zero = 0\<rparr>"

definition irqs_init :: "bus \<Rightarrow> nat \<Rightarrow> u16 \<Rightarrow> (nat \<Rightarrow> u64) \<Rightarrow> u64 \<Rightarrow> u64 \<Rightarrow> irqs" where
  "irqs_init b n cs st a apic =
     \<lparr>Ports = b, Idt = replicate 256 no_gate, IrqHandlers = replicate 16 None, TickCount = 0, Idtr = None, InterruptsOn = False, ApicBase = apic,
      IrqKeyboard = keyboard_init, IrqMouse = mouse_init, Waiting = False, Looks = n, Cs = cs, Stub = st, IdtAddress = a\<rparr>"

definition on_ports :: "(bus, 'a) state \<Rightarrow> (irqs, 'a) state" where
  "on_ports m = State (\<lambda>s. case run_state m (Ports s) of (x, b) \<Rightarrow> (x, s\<lparr>Ports := b\<rparr>))"

abbreviation out :: "u16 \<Rightarrow> u8 \<Rightarrow> (irqs, unit) state" where "out Port Value \<equiv> on_ports (OutB Port Value)"
abbreviation inb :: "u16 \<Rightarrow> (irqs, u8) state" where "inb Port \<equiv> on_ports (InB Port)"

section \<open>Gates, controllers and timer\<close>

definition gate :: "u64 \<Rightarrow> u16 \<Rightarrow> u8 \<Rightarrow> idt_entry" where
  "gate Addr Sel Type =
     \<lparr>OffsetLow = ucast (Addr AND 0xFFFF), Selector = Sel, Ist = 0, TypeAttr = Type, OffsetMid = ucast (drop_bit 16 Addr AND 0xFFFF),
      OffsetHigh = ucast (drop_bit 32 Addr AND 0xFFFFFFFF), Zero = 0\<rparr>"

definition SetGate :: "nat \<Rightarrow> u64 \<Rightarrow> u16 \<Rightarrow> u8 \<Rightarrow> (irqs, unit) state" where
  "SetGate Num Addr Sel Type = change (\<lambda>s. s\<lparr>Idt := (Idt s)[Num := gate Addr Sel Type]\<rparr>)"

definition DisableLocalApic :: "(irqs, unit) state" where
  "DisableLocalApic = change (\<lambda>s. s\<lparr>ApicBase := ApicBase s AND NOT (push_bit 11 1)\<rparr>)"

definition ForcePicMode :: "(irqs, unit) state" where
  "ForcePicMode = do { out 0x22 0x70; out 0x23 0x01 }"

definition RemapPic :: "(irqs, unit) state" where
  "RemapPic = do {
     DisableLocalApic;
     ForcePicMode;
     out 0x20 0x11; out 0xA0 0x11;
     out 0x21 0x20; out 0xA1 0x28;
     out 0x21 0x04; out 0xA1 0x02;
     out 0x21 0x01; out 0xA1 0x01;
     out 0x21 0xFF; out 0xA1 0xFF }"

definition InitPit :: "u32 \<Rightarrow> (irqs, unit) state" where
  "InitPit Frequency = do {
     let Divisor = 1193182 div Frequency;
     out 0x43 0x36;
     out 0x40 (ucast (Divisor AND 0xFF));
     out 0x40 (ucast (drop_bit 8 Divisor AND 0xFF)) }"

definition UnmaskIrq :: "nat \<Rightarrow> (irqs, unit) state" where
  "UnmaskIrq Irq =
     (if Irq < 8 then do { Mask \<leftarrow> inb 0x21; out 0x21 (Mask AND NOT (push_bit Irq 1)) }
      else do {
        Mask \<leftarrow> inb 0xA1; out 0xA1 (Mask AND NOT (push_bit (Irq - 8) 1));
        Mask \<leftarrow> inb 0x21; out 0x21 (Mask AND NOT (push_bit 2 1)) })"

definition RegisterIrqHandler :: "nat \<Rightarrow> handler \<Rightarrow> (irqs, unit) state" where
  "RegisterIrqHandler Irq Handler = change (\<lambda>s. s\<lparr>IrqHandlers := (IrqHandlers s)[Irq := Some Handler]\<rparr>)"

definition InitIdt :: "(irqs, unit) state" where
  "InitIdt = do {
     each [0..<256] (\<lambda>i. SetGate i 0 0 0);
     cs \<leftarrow> ask Cs;
     st \<leftarrow> ask Stub;
     each [0..<16] (\<lambda>i. SetGate (32 + i) (st i) cs 0x8E);
     RemapPic;
     InitPit 1000;
     UnmaskIrq 0;
     change (\<lambda>s. s\<lparr>Idtr := Some (256 * 16 - 1, IdtAddress s)\<rparr>) }"

definition EnableInterrupts :: "(irqs, unit) state" where "EnableInterrupts = change (\<lambda>s. s\<lparr>InterruptsOn := True\<rparr>)"
definition DisableInterrupts :: "(irqs, unit) state" where "DisableInterrupts = change (\<lambda>s. s\<lparr>InterruptsOn := False\<rparr>)"

section \<open>Keyboard controller\<close>

text \<open>\<open>while (the status is not as wanted);\<close>\<close>
definition wait_status :: "(u8 \<Rightarrow> bool) \<Rightarrow> (irqs, unit) state" where
  "wait_status wanted = do {
     n \<leftarrow> ask Looks;
     ok \<leftarrow> poll n (do { v \<leftarrow> inb 0x64; ret (wanted v) }) (ret ());
     when_do (\<not> ok) (change (\<lambda>s. s\<lparr>Waiting := True\<rparr>)) }"

definition WaitInputBufferEmpty :: "(irqs, unit) state" where "WaitInputBufferEmpty = wait_status (\<lambda>v. v AND 0x02 = 0)"
definition WaitOutputBufferFull :: "(irqs, unit) state" where "WaitOutputBufferFull = wait_status (\<lambda>v. v AND 0x01 \<noteq> 0)"

definition drain_output :: "(irqs, unit) state" where
  "drain_output = do {
     n \<leftarrow> ask Looks;
     ok \<leftarrow> poll n (do { v \<leftarrow> inb 0x64; ret (v AND 0x01 = 0) }) (do { _ \<leftarrow> inb 0x60; ret () });
     when_do (\<not> ok) (change (\<lambda>s. s\<lparr>Waiting := True\<rparr>)) }"

definition SendLeds :: "u8 list \<Rightarrow> (irqs, unit) state" where
  "SendLeds bs = each bs (\<lambda>b. do { WaitInputBufferEmpty; out 0x60 b })"

definition InitKeyboard :: "(irqs, unit) state" where
  "InitKeyboard = do {
     drain_output;
     RegisterIrqHandler 1 KeyboardHandler;
     UnmaskIrq 1;
     k \<leftarrow> ask IrqKeyboard;
     SendLeds (UpdateLeds k) }"

definition MouseWrite :: "u8 \<Rightarrow> (irqs, unit) state" where
  "MouseWrite Value = do {
     WaitInputBufferEmpty; out 0x64 0xD4;
     WaitInputBufferEmpty; out 0x60 Value;
     WaitOutputBufferFull;
     _ \<leftarrow> inb 0x60;
     ret () }"

text \<open>The commands that switch the mouse on.\<close>
definition SetupMouse :: "(irqs, unit) state" where
  "SetupMouse = do {
     drain_output;
     WaitInputBufferEmpty; out 0x64 0xA8;
     WaitInputBufferEmpty; out 0x64 0x20;
     WaitOutputBufferFull;
     Status \<leftarrow> inb 0x60;
     WaitInputBufferEmpty; out 0x64 0x60;
     WaitInputBufferEmpty; out 0x60 ((Status OR 0x03) AND NOT 0x30);
     MouseWrite 0xF6;
     MouseWrite 0xF4 }"

definition InitMouse :: "(irqs, unit) state" where
  "InitMouse = do {
     SetupMouse;
     RegisterIrqHandler 12 MouseHandler;
     UnmaskIrq 12 }"

section \<open>Dispatch\<close>

text \<open>The handlers read their bytes from the controller.\<close>
primrec CallHandler :: "handler \<Rightarrow> (irqs, unit) state" where
  "CallHandler KeyboardHandler = do {
     Status \<leftarrow> inb 0x64;
     Scancode \<leftarrow> inb 0x60;
     k \<leftarrow> ask IrqKeyboard;
     change (\<lambda>s. s\<lparr>IrqKeyboard := fst (KeyboardIrqHandler Status Scancode k)\<rparr>);
     SendLeds (snd (KeyboardIrqHandler Status Scancode k)) }"
| "CallHandler MouseHandler = do {
     Data \<leftarrow> inb 0x60;
     change (\<lambda>s. s\<lparr>IrqMouse := MouseIrqHandler (TickCount s) Data (IrqMouse s)\<rparr>) }"

definition IrqDispatchC :: "nat \<Rightarrow> (irqs, unit) state" where
  "IrqDispatchC Irq = do {
     when_do (Irq = 0) (change (\<lambda>s. s\<lparr>TickCount := TickCount s + 1\<rparr>));
     hs \<leftarrow> ask IrqHandlers;
     (case hs ! Irq of None \<Rightarrow> ret () | Some h \<Rightarrow> CallHandler h);
     when_do (Irq \<ge> 8) (out 0xA0 0x20);
     out 0x20 0x20 }"

text \<open>Sleeping until the tick count has reached the target. Interrupts are enabled all along, so a round of the loop is given by the interrupts
  served before its test, those served between the test and the \<open>hlt\<close>, and the one that ends the \<open>hlt\<close>. The result is the number of
  times the processor has halted, \<open>None\<close> when the loop is still running after the rounds given.\<close>
type_synonym sleep_round = "nat list \<times> nat list \<times> nat"

fun SleepUntil :: "u64 \<Rightarrow> sleep_round list \<Rightarrow> (irqs, nat option) state" where
  "SleepUntil Target [] = ret None"
| "SleepUntil Target ((before, between, wake) # rounds) = do {
     each before IrqDispatchC;
     t \<leftarrow> ask TickCount;
     if t < Target
     then do {
       each between IrqDispatchC;
       IrqDispatchC wake;
       n \<leftarrow> SleepUntil Target rounds;
       ret (map_option Suc n) }
     else ret (Some 0) }"

definition Sleep :: "u64 \<Rightarrow> sleep_round list \<Rightarrow> (irqs, nat option) state" where
  "Sleep Milliseconds rounds = do { t \<leftarrow> ask TickCount; SleepUntil (t + Milliseconds) rounds }"

section \<open>What the operations leave alone\<close>

abbreviation ports_trace :: "irqs \<Rightarrow> access list" where "ports_trace s \<equiv> Trace (Ports s)"

text \<open>The byte last written to a port.\<close>
fun latch :: "u64 \<Rightarrow> access \<Rightarrow> u8 \<Rightarrow> u8" where
  "latch p (Wr w a v) m = (if a = p then ucast v else m)"
| "latch p _ m = m"

definition latched :: "u64 \<Rightarrow> access list \<Rightarrow> u8" where "latched p t = fold (latch p) t 0"

lemma latched_simps [simp]: "latched p (t @ [e]) = latch p e (latched p t)" by (simp add: latched_def)

definition seen :: "access list \<Rightarrow> irqs \<Rightarrow> irqs" where "seen t s = s\<lparr>Ports := (Ports s)\<lparr>Trace := ports_trace s @ t\<rparr>\<rparr>"

lemma seen_simps [simp]:
  "ports_trace (seen t s) = ports_trace s @ t" "Respond (Ports (seen t s)) = Respond (Ports s)" "Idt (seen t s) = Idt s"
  "IrqHandlers (seen t s) = IrqHandlers s" "TickCount (seen t s) = TickCount s" "Idtr (seen t s) = Idtr s" "IrqKeyboard (seen t s) = IrqKeyboard s"
  "IrqMouse (seen t s) = IrqMouse s" "Cs (seen t s) = Cs s" "Stub (seen t s) = Stub s" "seen u (seen t s) = seen (t @ u) s"
  by (simp_all add: seen_def)

lemma run_out [simp]: "run_state (out p v) s = ((), seen [Wr 1 (ucast p) (ucast v)] s)"
proof -
  have "take_bit 8 (ucast v :: u64) = ucast v" by (rule bit_word_eqI) (auto simp: bit_simps dest: bit_imp_le_length)
  then show ?thesis by (simp add: on_ports_def OutB_def bus_write_def seen_def)
qed

lemma run_in [simp]: "run_state (inb p) s = (ucast (Respond (Ports s) (ports_trace s @ [Rd 1 (ucast p)])), seen [Rd 1 (ucast p)] s)"
proof -
  have "(ucast (take_bit 8 x :: u64) :: u8) = ucast x" for x by (rule bit_word_eqI) (auto simp: bit_simps)
  then show ?thesis by (simp add: on_ports_def InB_def bus_read_def Let_def seen_def)
qed

text \<open>The state of the interrupt system: gates, handlers, and the masks of the two controllers.\<close>
definition masks :: "irqs \<Rightarrow> u8 \<times> u8" where "masks s = (latched 0x21 (ports_trace s), latched 0xA1 (ports_trace s))"
definition core :: "irqs \<Rightarrow> idt_entry list \<times> handler option list \<times> (u8 \<times> u8) \<times> (access list \<Rightarrow> u64) \<times> u64 \<times> (nat \<Rightarrow> u64)" where
  "core s = (Idt s, IrqHandlers s, masks s, Respond (Ports s), TickCount s, Stub s)"

lemma core_state: "(\<And>s. core (snd (run_state m s)) = core s) \<Longrightarrow> frames (same core) m"
  by (rule framesI [OF same_rel]) (metis same_def snd_conv)

lemma out_core [quiet]: "p \<noteq> 0x21 \<Longrightarrow> p \<noteq> 0xA1 \<Longrightarrow> frames (same core) (out p v)"
proof (rule core_state)
  have "(ucast (x :: u16) :: u64) = ucast y \<Longrightarrow> x = y" for x y by transfer (simp add: take_bit_eq_mod)
  from this [of p "0x21"] this [of p "0xA1"]
  show "p \<noteq> 0x21 \<Longrightarrow> p \<noteq> 0xA1 \<Longrightarrow> core (snd (run_state (out p v) s)) = core s" for s by (auto simp: core_def masks_def)
qed

lemma in_core [quiet]: "frames (same core) (inb p)"
  by (rule core_state) (simp add: core_def masks_def)

lemma waiting_core [quiet]: "frames (same core) (change (\<lambda>s. s\<lparr>Waiting := w\<rparr>))"
  "frames (same core) (change (\<lambda>s. s\<lparr>IrqKeyboard := k\<rparr>))" "frames (same core) (change (\<lambda>s. s\<lparr>IrqMouse := f s\<rparr>))"
  by (auto intro!: same_change simp: core_def masks_def)

lemma wait_core [quiet]: "frames (same core) (wait_status wanted)" "frames (same core) WaitInputBufferEmpty" "frames (same core) WaitOutputBufferFull"
  "frames (same core) drain_output" "frames (same core) (SendLeds bs)" "frames (same core) (MouseWrite b)" "frames (same core) (CallHandler h)"
proof -
  show w: "frames (same core) (wait_status wanted)" for wanted unfolding wait_status_def by (intro quiet)
  show i: "frames (same core) WaitInputBufferEmpty" and f: "frames (same core) WaitOutputBufferFull"
    unfolding WaitInputBufferEmpty_def WaitOutputBufferFull_def by (rule w)+
  show "frames (same core) drain_output" unfolding drain_output_def by (intro quiet)
  show l: "frames (same core) (SendLeds bs)" for bs unfolding SendLeds_def by (intro quiet i) simp_all
  show "frames (same core) (MouseWrite b)" unfolding MouseWrite_def by (intro quiet i f) simp_all
  show "frames (same core) (CallHandler h)" by (cases h) (simp_all, (intro quiet l)+)
qed

lemma coreD: "frames (same core) m \<Longrightarrow> run_state m s = (x, s') \<Longrightarrow> core s' = core s"
  by (rule sameD)

section \<open>Starting up\<close>

text \<open>The controllers answer a read of their mask with the mask.\<close>
definition pic :: "(access list \<Rightarrow> u64) \<Rightarrow> bool" where
  "pic R \<longleftrightarrow> (\<forall>t. ucast (R (t @ [Rd 1 0x21])) = latched 0x21 t \<and> ucast (R (t @ [Rd 1 0xA1])) = latched 0xA1 t)"

definition unmask :: "nat \<Rightarrow> u8 \<times> u8 \<Rightarrow> u8 \<times> u8" where
  "unmask i m = (if i < 8 then (fst m AND NOT (push_bit i 1), snd m) else (fst m AND NOT (push_bit 2 1), snd m AND NOT (push_bit (i - 8) 1)))"

lemma byte_down [simp]: "(ucast (ucast (b :: u8) :: u64) :: u8) = b"
  by (rule bit_word_eqI) (auto simp: bit_simps)

lemma UnmaskIrq_core:
  assumes "pic (Respond (Ports s))" "run_state (UnmaskIrq i) s = (x, s')"
  shows "core s' = apsnd (apsnd (apfst (unmask i))) (core s)"
proof -
  have m: "ucast (Respond (Ports s) (t @ [Rd 1 0x21])) = latched 0x21 t" "ucast (Respond (Ports s) (t @ [Rd 1 0xA1])) = latched 0xA1 t" for t
    using assms(1) by (simp_all add: pic_def)
  show ?thesis
  proof (cases "i < 8")
    case True
    then show ?thesis using assms(2) m(1) [of "ports_trace s"] by (simp add: UnmaskIrq_def core_def masks_def unmask_def) (auto simp: latched_def)
  next
    case False
    let ?v = "latched 0xA1 (ports_trace s) AND NOT (push_bit (i - 8) 1)"
    have "latched 0x21 (ports_trace s @ [Rd 1 0xA1, Wr 1 0xA1 (ucast ?v)]) = latched 0x21 (ports_trace s)" by (simp add: latched_def)
    moreover have "s' = seen [Rd 1 0xA1, Wr 1 0xA1 (ucast ?v), Rd 1 0x21, Wr 1 0x21 (ucast (latched 0x21 (ports_trace s) AND NOT (push_bit 2 1)))] s"
      using False assms(2) m(2) [of "ports_trace s"] m(1) [of "ports_trace s @ [Rd 1 0xA1, Wr 1 0xA1 (ucast ?v)]"] calculation
      by (simp add: UnmaskIrq_def)
    ultimately show ?thesis using False by (simp add: core_def masks_def unmask_def latched_def)
  qed
qed

lemma Register_core: "run_state (RegisterIrqHandler i hn) s = (x, s') \<Longrightarrow> core s' = apsnd (apfst (\<lambda>h. h[i := Some hn])) (core s)"
  by (auto simp: RegisterIrqHandler_def core_def masks_def)

fun set_gates :: "(nat \<Rightarrow> idt_entry) \<Rightarrow> nat \<Rightarrow> nat \<Rightarrow> idt_entry list \<Rightarrow> idt_entry list" where
  "set_gates e k 0 xs = xs"
| "set_gates e k (Suc n) xs = (set_gates e k n xs)[k + n := e n]"

lemma each_append: "run_state (each (xs @ ys) f) s = run_state (each ys f) (snd (run_state (each xs f) s))"
  by (induction xs arbitrary: s) (auto split: prod.splits)

lemma run_SetGates:
  "run_state (each [0..<n] (\<lambda>i. SetGate (k + i) (a i) c ty)) s = ((), s\<lparr>Idt := set_gates (\<lambda>i. gate (a i) c ty) k n (Idt s)\<rparr>)"
  by (induction n) (simp_all add: each_append SetGate_def)

lemma set_gates_nth: "k + n \<le> length xs \<Longrightarrow> j < length xs \<Longrightarrow> set_gates e k n xs ! j = (if k \<le> j \<and> j < k + n then e (j - k) else xs ! j)"
  and length_set_gates [simp]: "length (set_gates e k n xs) = length xs"
proof -
  show len: "length (set_gates e k n xs) = length xs" for n by (induction n) simp_all
  show "k + n \<le> length xs \<Longrightarrow> j < length xs \<Longrightarrow> set_gates e k n xs ! j = (if k \<le> j \<and> j < k + n then e (j - k) else xs ! j)"
    by (induction n) (auto simp: nth_list_update len)
qed

definition boot_gates :: "u16 \<Rightarrow> (nat \<Rightarrow> u64) \<Rightarrow> idt_entry list \<Rightarrow> idt_entry list" where
  "boot_gates cs st xs = set_gates (\<lambda>i. gate (st i) cs 0x8E) 32 16 (set_gates (\<lambda>i. gate 0 0 0) 0 256 xs)"

lemma InitIdt_core:
  assumes "pic (Respond (Ports s))" "run_state InitIdt s = (x, s')"
  shows "core s' = (boot_gates (Cs s) (Stub s) (Idt s), IrqHandlers s, (0xFE, 0xFF), Respond (Ports s), TickCount s, Stub s)"
proof -
  have gates: "run_state (each [0..<256] (\<lambda>i. SetGate i 0 0 0)) u = ((), u\<lparr>Idt := set_gates (\<lambda>i. gate 0 0 0) 0 256 (Idt u)\<rparr>)" for u
    using run_SetGates [of 256 0] by simp
  define pre where "pre = [Wr 1 0x22 0x70, Wr 1 0x23 0x01, Wr 1 0x20 0x11, Wr 1 0xA0 0x11, Wr 1 0x21 0x20, Wr 1 0xA1 0x28, Wr 1 0x21 0x04, Wr 1 0xA1 0x02,
    Wr 1 0x21 0x01, Wr 1 0xA1 0x01, Wr 1 0x21 0xFF, Wr 1 0xA1 0xFF, Wr 1 0x43 0x36, Wr 1 0x40 0xA9, Wr 1 0x40 0x04]"
  define u where "u = seen pre (s\<lparr>Idt := boot_gates (Cs s) (Stub s) (Idt s), ApicBase := ApicBase s AND NOT (push_bit 11 1)\<rparr>)"
  have "run_state InitIdt s = run_state (do { UnmaskIrq 0; change (\<lambda>s. s\<lparr>Idtr := Some (256 * 16 - 1, IdtAddress s)\<rparr>) }) u"
    by (simp add: InitIdt_def gates run_SetGates RemapPic_def ForcePicMode_def DisableLocalApic_def InitPit_def boot_gates_def u_def pre_def seen_def
        del: upt_Suc upt_rec upt_conv_Cons set_gates.simps)
  then obtain v where v: "run_state (UnmaskIrq 0) u = ((), v)" "s' = v\<lparr>Idtr := Some (256 * 16 - 1, IdtAddress v)\<rparr>"
    using assms(2) by (cases "run_state (UnmaskIrq 0) u") simp
  have "core u = (boot_gates (Cs s) (Stub s) (Idt s), IrqHandlers s, (0xFF, 0xFF), Respond (Ports s), TickCount s, Stub s)"
    by (simp add: u_def pre_def core_def masks_def latched_def)
  moreover have "pic (Respond (Ports u))" using assms(1) by (simp add: u_def)
  ultimately have "core v = (boot_gates (Cs s) (Stub s) (Idt s), IrqHandlers s, unmask 0 (0xFF, 0xFF), Respond (Ports s), TickCount s, Stub s)"
    using UnmaskIrq_core [OF _ v(1)] by simp
  moreover have "core s' = core v" by (simp add: v(2) core_def masks_def)
  ultimately show ?thesis by (simp add: unmask_def)
qed

lemma setup_core [quiet]: "frames (same core) SetupMouse"
  unfolding SetupMouse_def by (intro quiet wait_core) simp_all

lemma InitKeyboard_core:
  assumes "pic (Respond (Ports s))" "run_state InitKeyboard s = (x, s')"
  shows "core s' = apsnd (apsnd (apfst (unmask 1))) (apsnd (apfst (\<lambda>h. h[1 := Some KeyboardHandler])) (core s))"
proof -
  obtain a b c where a: "run_state drain_output s = ((), a)" and b: "run_state (RegisterIrqHandler 1 KeyboardHandler) a = ((), b)"
    and c: "run_state (UnmaskIrq 1) b = ((), c)" by (metis old.unit.exhaust surj_pair)
  with assms(2) have d: "run_state (SendLeds (UpdateLeds (IrqKeyboard c))) c = (x, s')" by (simp add: InitKeyboard_def)
  have "core a = core s" using wait_core(4) a by (rule coreD)
  moreover note Register_core [OF b]
  moreover from calculation have "pic (Respond (Ports b))" using assms(1) by (auto simp: core_def)
  note UnmaskIrq_core [OF this c]
  moreover have "core s' = core c" using wait_core(5) d by (rule coreD)
  ultimately show ?thesis by simp
qed

lemma InitMouse_core:
  assumes "pic (Respond (Ports s))" "run_state InitMouse s = (x, s')"
  shows "core s' = apsnd (apsnd (apfst (unmask 12))) (apsnd (apfst (\<lambda>h. h[12 := Some MouseHandler])) (core s))"
proof -
  obtain a b where a: "run_state SetupMouse s = ((), a)" and b: "run_state (RegisterIrqHandler 12 MouseHandler) a = ((), b)"
    by (metis old.unit.exhaust surj_pair)
  with assms(2) have c: "run_state (UnmaskIrq 12) b = (x, s')" by (simp add: InitMouse_def)
  have "core a = core s" using setup_core a by (rule coreD)
  moreover note Register_core [OF b]
  moreover from calculation have "pic (Respond (Ports b))" using assms(1) by (auto simp: core_def)
  note UnmaskIrq_core [OF this c]
  ultimately show ?thesis by simp
qed

definition gate_address :: "idt_entry \<Rightarrow> u64" where
  "gate_address e = ucast (OffsetLow e) OR push_bit 16 (ucast (OffsetMid e)) OR push_bit 32 (ucast (OffsetHigh e))"

lemma gate_address_gate: "gate_address (gate A c ty) = A"
proof (rule bit_word_eqI)
  fix n assume n: "n < LENGTH(64)"
  have masks: "A AND 0xFFFF = take_bit 16 A" "drop_bit 16 A AND 0xFFFF = take_bit 16 (drop_bit 16 A)"
    "drop_bit 32 A AND 0xFFFFFFFF = take_bit 32 (drop_bit 32 A)" by (simp_all add: take_bit_eq_mask mask_eq_exp_minus_1)
  have "n < 16 \<or> 16 \<le> n \<and> n < 32 \<or> 32 \<le> n" by auto
  moreover have "m \<le> n \<Longrightarrow> m + (n - m) = n" for m by simp
  ultimately show "bit (gate_address (gate A c ty)) n = bit A n"
    using n unfolding gate_address_def gate_def masks by (elim disjE conjE) (simp_all add: bit_simps, auto)
qed

lemma gate_type [simp]: "TypeAttr (gate A c ty) = ty" by (simp add: gate_def)

definition enabled :: "irqs \<Rightarrow> nat \<Rightarrow> bool" where
  "enabled s i \<longleftrightarrow> \<not> bit (if i < 8 then fst (masks s) else snd (masks s)) (i mod 8)"

text \<open>C39: After the kernel has set up its interrupts, the table has a present gate to its own stub for each of the 16 interrupt lines, at 32 to 47, and none elsewhere;
  the keyboard and the mouse have their handlers on lines 1 and 12 and no other line has one; and the controllers let through exactly
  the timer, the keyboard, the mouse and the cascade, whatever the keyboard controller answers and however long it is waited for.\<close>
theorem interrupts_start:
  assumes "pic (Respond (Ports s))" "length (Idt s) = 256" "IrqHandlers s = replicate 16 None"
    and "run_state (do { InitIdt; InitKeyboard; InitMouse; EnableInterrupts }) s = (x, s')"
  shows "InterruptsOn s' \<and>
    list_all (\<lambda>i. gate_address (Idt s' ! i) = (if 32 \<le> i \<and> i < 48 then Stub s (i - 32) else 0) \<and> (bit (TypeAttr (Idt s' ! i)) 7 \<longleftrightarrow> 32 \<le> i \<and> i < 48)) [0..<256] \<and>
    IrqHandlers s' = (replicate 16 None)[1 := Some KeyboardHandler, 12 := Some MouseHandler] \<and>
    list_all (\<lambda>i. enabled s' i \<longleftrightarrow> i \<in> {0, 1, 2, 12}) [0..<16]"
proof -
  obtain a b c where a: "run_state InitIdt s = ((), a)" and b: "run_state InitKeyboard a = ((), b)"
    and c: "run_state InitMouse b = ((), c)" by (metis old.unit.exhaust surj_pair)
  have s': "s' = c\<lparr>InterruptsOn := True\<rparr>" using assms(4) a b c by (simp add: EnableInterrupts_def)
  note one = InitIdt_core [OF assms(1) a]
  then have "pic (Respond (Ports a))" using assms(1) by (simp add: core_def)
  note two = InitKeyboard_core [OF this b]
  then have "pic (Respond (Ports b))" using assms(1) one by (simp add: core_def)
  note three = InitMouse_core [OF this c]
  have core: "core c = (boot_gates (Cs s) (Stub s) (Idt s), (replicate 16 None)[1 := Some KeyboardHandler, 12 := Some MouseHandler],
      unmask 12 (unmask 1 (0xFE, 0xFF)), Respond (Ports s), TickCount s, Stub s)"
    using one two three assms(3) by simp
  then have masks: "masks s' = (0xF8, 0xEF)" by (simp add: s' core_def masks_def unmask_def)
  have idt: "Idt s' = boot_gates (Cs s) (Stub s) (Idt s)" and handlers: "IrqHandlers s' = (replicate 16 None)[1 := Some KeyboardHandler, 12 := Some MouseHandler]"
    using core by (simp_all add: s' core_def)
  have "gate_address (Idt s' ! i) = (if 32 \<le> i \<and> i < 48 then Stub s (i - 32) else 0) \<and> (bit (TypeAttr (Idt s' ! i)) 7 \<longleftrightarrow> 32 \<le> i \<and> i < 48)" if "i < 256" for i
    using that assms(2) by (simp add: idt boot_gates_def set_gates_nth gate_address_gate del: set_gates.simps)
  moreover have "list_all (\<lambda>i. enabled s' i \<longleftrightarrow> i \<in> {0, 1, 2, 12}) [0..<16]" by (simp add: enabled_def masks upt_rec)
  ultimately show ?thesis using handlers by (simp add: s' list_all_iff del: upt_Suc upt_rec upt_conv_Cons)
qed

definition pic_answers :: "access list \<Rightarrow> u64" where
  "pic_answers t = (case last t of Rd w p \<Rightarrow> ucast (latched p (butlast t)) | _ \<Rightarrow> 0)"

definition demo_irqs :: irqs where
  "demo_irqs = irqs_init \<lparr>Respond = pic_answers, Trace = []\<rparr> 1 8 (\<lambda>i. 0x100000 + 64 * of_nat i) 0x200000 0xFEE00900"

lemma demo_irqs_ok: "pic (Respond (Ports demo_irqs))" "length (Idt demo_irqs) = 256" "IrqHandlers demo_irqs = replicate 16 None"
  by (simp_all add: demo_irqs_def irqs_init_def pic_def pic_answers_def)

lemma interrupts_start_witness:
  "\<exists>s'. run_state (do { InitIdt; InitKeyboard; InitMouse; EnableInterrupts }) demo_irqs = ((), s') \<and> InterruptsOn s' \<and>
     list_all (\<lambda>i. enabled s' i \<longleftrightarrow> i \<in> {0, 1, 2, 12}) [0..<16]"
proof -
  obtain s' where run: "run_state (do { InitIdt; InitKeyboard; InitMouse; EnableInterrupts }) demo_irqs = ((), s')"
    by (metis old.unit.exhaust surj_pair)
  from interrupts_start [OF demo_irqs_ok run] run show ?thesis by blast
qed

section \<open>Ticks and sleeping\<close>

lemma IrqDispatchC_core:
  "run_state (IrqDispatchC i) s = (x, s') \<Longrightarrow> TickCount s' = (if i = 0 then TickCount s + 1 else TickCount s) \<and>
     (\<exists>t. ports_trace s' = t @ (if i \<ge> 8 then [Wr 1 0xA0 0x20] else []) @ [Wr 1 0x20 0x20])"
proof -
  assume run: "run_state (IrqDispatchC i) s = (x, s')"
  define a where "a = (if i = 0 then s\<lparr>TickCount := TickCount s + 1\<rparr> else s)"
  define h where "h = (case IrqHandlers a ! i of None \<Rightarrow> ret () | Some h \<Rightarrow> CallHandler h)"
  obtain b where b: "run_state h a = ((), b)" by (cases "run_state h a") simp
  have s': "s' = seen ((if i \<ge> 8 then [Wr 1 0xA0 0x20] else []) @ [Wr 1 0x20 0x20]) b"
    using run b by (simp add: IrqDispatchC_def a_def h_def split: if_splits)
  have "frames (same core) h" unfolding h_def by (intro quiet wait_core)
  then have "core b = core a" using b by (rule coreD)
  then show ?thesis by (auto simp: s' core_def a_def)
qed

definition ticks :: "nat list \<Rightarrow> nat" where "ticks is = length (filter (\<lambda>i. i = 0) is)"

lemma ticks_simps [simp]: "ticks [] = 0" "ticks (i # is) = (if i = 0 then Suc (ticks is) else ticks is)" "ticks (is @ js) = ticks is + ticks js"
  by (simp_all add: ticks_def)

lemma word_unat_less: "unat (x :: u64) < 2 ^ 64" by (rule order.strict_trans2 [OF unsigned_less]) simp

fun round_irqs :: "sleep_round \<Rightarrow> nat list" where
  "round_irqs (before, between, wake) = before @ between @ [wake]"

text \<open>The interrupts served before the test of round \<open>k\<close>.\<close>
definition before_test :: "sleep_round list \<Rightarrow> nat \<Rightarrow> nat list" where
  "before_test rounds k = concat (map round_irqs (take k rounds)) @ fst (rounds ! k)"

lemma before_test_simps [simp]:
  "before_test (r # rounds) 0 = fst r" "before_test (r # rounds) (Suc k) = round_irqs r @ before_test rounds k"
  by (simp_all add: before_test_def)

text \<open>No timer interrupt except the one that ends a \<open>hlt\<close>.\<close>
definition only_waking :: "sleep_round \<Rightarrow> bool" where
  "only_waking r \<longleftrightarrow> ticks (fst r) = 0 \<and> ticks (fst (snd r)) = 0"

lemma each_ticks:
  "run_state (each is IrqDispatchC) s = (x, u) \<Longrightarrow> unat (TickCount s) + ticks is < 2 ^ 64 \<Longrightarrow>
   unat (TickCount u) = unat (TickCount s) + ticks is"
proof (induction "is" arbitrary: s)
  case (Cons i js)
  obtain v where v: "run_state (IrqDispatchC i) s = ((), v)" by (cases "run_state (IrqDispatchC i) s") simp
  then have rest: "run_state (each js IrqDispatchC) v = (x, u)" using Cons.prems(1) by simp
  have "TickCount v = (if i = 0 then TickCount s + 1 else TickCount s)" using IrqDispatchC_core [OF v] by simp
  then have "unat (TickCount v) = unat (TickCount s) + ticks [i]"
    using Cons.prems(2) by (cases "i = 0") (simp_all add: unat_add_nowrap)
  with Cons.IH [OF rest] Cons.prems(2) show ?case by (cases "i = 0") simp_all
qed simp

lemma SleepUntil_ticks:
  assumes "run_state (SleepUntil Target rounds) s = (r, s')"
    and "unat (TickCount s) + ticks (concat (map round_irqs rounds)) < 2 ^ 64"
  shows "case r of None \<Rightarrow> \<forall>k < length rounds. unat (TickCount s) + ticks (before_test rounds k) < unat Target
    | Some n \<Rightarrow> n < length rounds \<and> (\<forall>k < n. unat (TickCount s) + ticks (before_test rounds k) < unat Target) \<and>
        unat Target \<le> unat (TickCount s) + ticks (before_test rounds n) \<and>
        unat (TickCount s') = unat (TickCount s) + ticks (before_test rounds n)"
  using assms
proof (induction rounds arbitrary: s r)
  case (Cons q rounds)
  obtain bs "is" i where q: "q = (bs, is, i)" by (cases q)
  obtain u where u: "run_state (each bs IrqDispatchC) s = ((), u)" by (cases "run_state (each bs IrqDispatchC) s") simp
  have tu: "unat (TickCount u) = unat (TickCount s) + ticks bs"
    using each_ticks [OF u] Cons.prems(2) by (simp add: q)
  show ?case
  proof (cases "TickCount u < Target")
    case False
    then have "r = Some 0" "s' = u" using Cons.prems(1) by (simp_all add: q u)
    then show ?thesis using False tu by (simp add: q word_less_nat_alt)
  next
    case True
    obtain v where v: "run_state (each is IrqDispatchC) u = ((), v)" by (cases "run_state (each is IrqDispatchC) u") simp
    obtain w where w: "run_state (IrqDispatchC i) v = ((), w)" by (cases "run_state (IrqDispatchC i) v") simp
    obtain r' where rest: "run_state (SleepUntil Target rounds) w = (r', s')" "r = map_option Suc r'"
      using Cons.prems(1) True by (cases "run_state (SleepUntil Target rounds) w") (simp add: q u v w)
    have tv: "unat (TickCount v) = unat (TickCount u) + ticks is"
      using each_ticks [OF v] Cons.prems(2) tu by (simp add: q)
    have "run_state (each [i] IrqDispatchC) v = ((), w)" by (simp add: w)
    from each_ticks [OF this] Cons.prems(2) tu tv
    have tw: "unat (TickCount w) = unat (TickCount s) + ticks (round_irqs q)" by (simp add: q split: if_splits)
    have lt: "unat (TickCount s) + ticks bs < unat Target" using True tu by (simp add: word_less_nat_alt)
    note IH = Cons.IH [OF rest(1)]
    have room: "unat (TickCount w) + ticks (concat (map round_irqs rounds)) < 2 ^ 64"
      using Cons.prems(2) tw by simp
    show ?thesis
    proof (cases r')
      case None
      have "unat (TickCount s) + ticks (before_test (q # rounds) k) < unat Target" if "k < Suc (length rounds)" for k
        using that IH [OF room] lt tw by (cases k) (auto simp: None q)
      then show ?thesis using rest(2) None by simp
    next
      case (Some n)
      have "unat (TickCount s) + ticks (before_test (q # rounds) k) < unat Target" if "k < Suc n" for k
        using that IH [OF room] lt tw by (cases k) (auto simp: Some q)
      then show ?thesis using rest(2) Some IH [OF room] tw by (simp add: add.assoc)
    qed
  qed
qed simp

text \<open>C40: Sleeping never returns early, and not later than its loop makes it: while interrupts of every line arrive at any point of the loop and are
  served, it goes on as long as a test finds fewer timer interrupts than milliseconds asked for, and returns at the first test that finds as many,
  the tick counter being just as far on. So it returns with exactly the timer interrupt that completes the time when timer interrupts only arrive
  while the processor is halted; one that arrives between the test and the \<open>hlt\<close> can delay the return to a later one. (The hypothesis: the counter
  does not wrap around, which takes 500 million years.)\<close>
theorem Sleep_bounds:
  assumes "run_state (Sleep Milliseconds rounds) s = (r, s')"
    and "unat (TickCount s) + unat Milliseconds + ticks (concat (map round_irqs rounds)) < 2 ^ 64"
  shows "case r of None \<Rightarrow> list_all (\<lambda>k. ticks (before_test rounds k) < unat Milliseconds) [0..<length rounds]
    | Some n \<Rightarrow> n < length rounds \<and> list_all (\<lambda>k. ticks (before_test rounds k) < unat Milliseconds) [0..<n] \<and>
        unat Milliseconds \<le> ticks (before_test rounds n) \<and>
        TickCount s' = TickCount s + of_nat (ticks (before_test rounds n)) \<and>
        (list_all only_waking rounds \<longrightarrow> ticks (before_test rounds n) = unat Milliseconds)"
proof -
  let ?T = "TickCount s + Milliseconds"
  have T: "unat ?T = unat (TickCount s) + unat Milliseconds" using assms(2) by (intro unat_add_nowrap) simp
  have "run_state (SleepUntil ?T rounds) s = (r, s')" using assms(1) by (simp add: Sleep_def)
  note run = SleepUntil_ticks [OF this, unfolded T]
  have exact: "ticks (before_test rounds n) \<le> m"
    if "list_all only_waking rounds" "n < length rounds" "\<forall>k < n. ticks (before_test rounds k) < m" for n m
  proof (cases n)
    case 0
    have "only_waking (rounds ! 0)" using that(1,2) by (simp add: list_all_length 0)
    then show ?thesis by (simp add: 0 before_test_def only_waking_def)
  next
    case (Suc j)
    have "only_waking (rounds ! j)" "only_waking (rounds ! Suc j)" using that(1,2) by (simp_all add: list_all_length Suc)
    moreover obtain bs "is" i where "rounds ! j = (bs, is, i)" by (cases "rounds ! j")
    ultimately have "ticks (before_test rounds n) \<le> Suc (ticks (before_test rounds j))"
      using that(2) by (simp add: Suc before_test_def only_waking_def take_Suc_conv_app_nth)
    with that(3) show ?thesis by (simp add: Suc) (meson le_trans lessI less_eq_Suc_le)
  qed
  show ?thesis
  proof (cases r)
    case None
    then show ?thesis using run assms(2) by (simp add: list_all_iff)
  next
    case (Some n)
    from run assms(2) have n: "n < length rounds" "\<forall>k < n. ticks (before_test rounds k) < unat Milliseconds"
      "unat Milliseconds \<le> ticks (before_test rounds n)"
      "unat (TickCount s') = unat (TickCount s) + ticks (before_test rounds n)" by (simp_all add: Some)
    have "unat (TickCount s + of_nat (ticks (before_test rounds n))) = unat (TickCount s')"
      using n(4) word_unat_less [of "TickCount s'"] by (simp add: unat_word_ariths unat_of_nat)
    then have "TickCount s' = TickCount s + of_nat (ticks (before_test rounds n))" by (simp add: word_unat_eq_iff)
    with n exact [OF _ n(1,2)] show ?thesis by (auto simp: Some list_all_iff)
  qed
qed

text \<open>Two milliseconds: a keyboard interrupt and a tick, a tick between test and \<open>hlt\<close> (late by one), and nothing more is used.\<close>
lemma Sleep_bounds_witness:
  "\<exists>s'. run_state (Sleep 2 [([], [1], 0), ([12], [0], 0), ([], [], 0)]) demo_irqs = (Some 2, s') \<and> TickCount s' = 3"
proof -
  let ?rounds = "[([], [1], 0), ([12], [0], 0), ([], [], 0)] :: sleep_round list"
  obtain r s' where run: "run_state (Sleep 2 ?rounds) demo_irqs = (r, s')" by (metis surj_pair)
  have zero: "TickCount demo_irqs = 0" by (simp add: demo_irqs_def irqs_init_def)
  then have "unat (TickCount demo_irqs) + unat (2 :: u64) + ticks (concat (map round_irqs ?rounds)) < 2 ^ 64" by simp
  note sleep = Sleep_bounds [OF run this]
  have tests: "ticks (before_test ?rounds 0) = 0" "ticks (before_test ?rounds (Suc 0)) = 1" "ticks (before_test ?rounds (Suc (Suc 0))) = 3"
    by simp_all
  have "r = Some 2"
  proof (cases r)
    case None
    then show ?thesis using sleep tests by (simp add: list_all_iff)
  next
    case (Some n)
    then have "n < 3" "2 \<le> ticks (before_test ?rounds n)" using sleep by simp_all
    then have "n = 2" using tests by (auto simp: numeral_eq_Suc less_Suc_eq)
    then show ?thesis by (simp add: Some)
  qed
  then show ?thesis using sleep tests run zero by (simp add: numeral_2_eq_2)
qed

end
