(* ===== verification/Spec2Isabelle.thy ===== *)
theory Spec2Isabelle
  imports Prelude Text Klog Pmm Disk Blockdev Fat32 FatDir FatOnBlock Part Gpt Fs FsCorrect Gfx Console Wav Errors Queue Keyboard Mouse Ui Desk Viewer ViewerCorrect
    Bus Hda HdaStream Player PlayerCorrect PlayerRuns
    Explorer ExplorerSort ExplorerFrame ExplorerCorrect Pci Acpi Commands Shell ShellLine ShellCorrect Machine Nvme Ahci Irq
begin

text \<open>
  Bloom-OS: a verification development for the kernel under \<open>src/kernel\<close>.

  \<^bold>\<open>The program.\<close> Bloom-OS boots through UEFI (\<open>src/bootloader\<close>) into a kernel that runs without user
  mode, processes or an allocator other than that of pages: \<open>kmain\<close> sets up the interrupts, the keyboard, the mouse and
  the page allocator, finds the controllers on the PCI bus, mounts the volumes, starts the audio device and
  hands over to the shell, which runs everything else as functions that return to it. Interrupt handlers only
  put keys into a ring buffer, add up mouse motion and count ticks. The parts call each other in this order, from the bottom:
  log and page allocator; drivers; block device table; partition scanner and FAT32 driver; file system layer; WAV reader,
  audio stream and player; drawing, console and helpers of the user interface; viewer and explorer; shell.

  \<^bold>\<open>Theories and sources.\<close>
    \<^item> \<open>Prelude\<close>, \<open>Text\<close>: C integers as words, byte strings, media, and the loops over strings (copying, comparing, decimal and
      hexadecimal digits) that many files of the source repeat. \<open>Bus\<close>: the state monad of the drivers, the trace of device accesses,
      and the rules for invariants (\<open>keeps\<close>) and frames (\<open>frames\<close>).
    \<^item> \<open>Pmm\<close> (\<open>pmm.c\<close>), \<open>Klog\<close> (\<open>klog.c\<close>), \<open>Errors\<close> (\<open>errors.c\<close>), \<open>Pci\<close> (\<open>pci.c\<close>, \<open>io.h\<close>), \<open>Acpi\<close> (\<open>power.c\<close>).
    \<^item> \<open>Disk\<close> (the interface of a reader of sectors, a locale), \<open>Blockdev\<close> (\<open>blockdev.c\<close>, which interprets it).
    \<^item> \<open>Fat32\<close>, \<open>FatDir\<close>, \<open>FatOnBlock\<close> (\<open>fat32.c\<close>): the driver, the meaning of a directory and of a file, and the driver on
      the device table. \<open>Part\<close>, \<open>Gpt\<close> (\<open>part.c\<close>). \<open>Fs\<close>, \<open>FsCorrect\<close> (\<open>fs.c\<close>).
    \<^item> \<open>Gfx\<close> (\<open>gfx.c\<close>, \<open>font8x16.h\<close>), \<open>Console\<close> (\<open>console.c\<close>), \<open>Ui\<close> (\<open>ui.c\<close>).
    \<^item> \<open>Queue\<close> (the contract of a bounded queue, a locale), \<open>Keyboard\<close> (\<open>keyboard.c\<close>, which interprets it), \<open>Mouse\<close> (\<open>mouse.c\<close>).
    \<^item> \<open>Wav\<close> (\<open>wav.c\<close>), \<open>Hda\<close>, \<open>HdaStream\<close> (\<open>hda.c\<close>), \<open>Player\<close>, \<open>PlayerCorrect\<close>, \<open>PlayerRuns\<close> (\<open>player.c\<close>).
    \<^item> \<open>Desk\<close> (what the graphical programs share), \<open>Viewer\<close>, \<open>ViewerCorrect\<close> (\<open>viewer.c\<close>), \<open>Explorer\<close>, \<open>ExplorerSort\<close>, \<open>ExplorerFrame\<close>,
      \<open>ExplorerCorrect\<close> (\<open>explorer.c\<close>), \<open>Commands\<close>, \<open>Shell\<close>, \<open>ShellLine\<close>, \<open>ShellCorrect\<close> (\<open>shell.c\<close>).
    \<^item> \<open>Machine\<close> (bus, memory and log as the disk drivers use them), \<open>Nvme\<close> (\<open>nvme.c\<close>), \<open>Ahci\<close> (\<open>ahci.c\<close>), \<open>Irq\<close> (\<open>idt.c\<close>, \<open>InitKeyboard\<close> and
      \<open>InitMouse\<close>).
  Functions and fields keep the names of the source; a suffix or another spelling is used where Isabelle has the name already.

  \<^bold>\<open>State.\<close> The static variables of a file are a record, with the initial values the C standard gives them. A part that
  calls another holds that part's record: the player holds the audio driver, the file system and the log, the desk adds the screen,
  the cursor, the keyboard and the mouse, viewer and explorer extend the desk, and the kernel state of the shell holds all of it. Console and
  graphical programs draw on the same frame buffer; \<open>con_view\<close> is the console's view of it. C integers are words of their width
  where they can wrap around, and \<open>int\<close> or \<open>nat\<close> where the source bounds them; strings are lists of bytes without the final zero.

  \<^bold>\<open>Devices.\<close> A device is a function from the whole trace of accesses, delays included, to the value that the next read
  returns; ports, registers and the memory shared with the device are addresses of one space. Nothing is assumed of it unless a
  property says so. A disk is a function from device number, sector and count to the bytes read, or a failure; every driver
  in the device table is such a function, as a context and a function pointer are in the source.

  \<^bold>\<open>Loops, fuel and halts.\<close> A loop that the source bounds is a recursion on that bound: 1000000 tries for an answer of the
  audio codec or of an NVMe disk, \<open>MAX_CHAIN\<close> clusters of a chain, 256 keys of the ring buffer in one drain, 64 KB of a file shown by \<open>cat\<close>.
  Loops that may not end return an option or set a flag: printing a tab (\<open>ConsolePutChar_returns\<close> says when it does not return);
  the waits of the AHCI driver and for the keyboard controller take a number of looks that is part of the state, and \<open>None\<close> or a flag says that it was not enough;
  the fill loop of the player takes fuel, and \<open>PollLoop_returns\<close> shows how much is enough. The main loops of the programs are lists of rounds, each with
  the interrupts that arrive before it and one value of the tick counter; interrupts arrive between rounds. Two places where an interrupt
  between two statements changes the result are modelled statement by statement as well: the readers of the mouse (C19) and \<open>Sleep\<close> (C40). \<open>Halted\<close>, \<open>InViewer\<close>, \<open>InProgram\<close> and
  \<open>PoweredOff\<close> mark the states after which the program that was running does not go on.

  \<^bold>\<open>What the theorems show.\<close> The numbers are those of the labels beside them.
    \<^item> Memory and log: the allocator starts with exactly the usable pages (C1), hands out no page twice (C2) and takes it back; the log
      keeps the first 16383 characters.
    \<^item> Disks: reads return the bytes of the medium or fail (C3), the table of devices stays consistent and every registered name is found (C4), reading a file, looking up a
      name and mounting refine their meaning on the medium whatever the caches hold (C5 to C7), names stored the way VFAT prescribes are read back (C8), partition scanning
      keeps the tables consistent and adds the entries of the GUID table in order (C9, C10).
    \<^item> Paths: resolving computes the walk over the directories (C11), all operations keep the invariant (C12), splitting is right (C13).
    \<^item> Screen and input: the screen shows the console (C14), printing returns except for certain tabs (C15), keys are kept in order (C18), mouse motion
      and clicks are accounted for, those lost to an interrupt inside a reader included (C19), the cursor leaves no trace (C20).
    \<^item> Audio: the WAV parser accepts only a supported format with data that lies in the file, its sample rate excepted (C16) and converts it right (C17), nothing unplayed is overwritten (C24), the ring
      holds the frames of the file (C25), filling ends (C26), a track whose stream keeps moving is finished, however often it is polled in between (C27).
    \<^item> Programs: line table, search and window of the viewer (C21 to C23), sorting and the invariant of the explorer (C28, C29), the invariant of
      the shell over all commands, its line editor and its arguments (C30 to C32).
    \<^item> Hardware: the PCI searches (C33), which sleep types are found and what a shutdown writes in which order (C34, C35), the order of NVMe completions while
      fewer than 64 commands are outstanding and the memory an NVMe read names (C36, C37), the AHCI command (C38), the interrupts after the start (C39), how long \<open>Sleep\<close> sleeps (C40).

  \<^bold>\<open>Not modelled.\<close> The USB host controller driver (\<open>xhci.c\<close>) and the mass storage driver on it (\<open>usbmsc.c\<close>): the command \<open>usb\<close> of the
  shell is a parameter, of which \<open>shell_invariant\<close> assumes that it leaves the kernel's invariant intact. \<open>kmain\<close>, which calls the setup functions of the parts in turn, draws and logs what they return and plays a melody. The bootloader, which only calls UEFI services; the assembly stubs, the linker script and the pictures; cache flushing
  and memory barriers, which have no effect on the model; interrupts in the middle of a round, except in the mouse readers and in \<open>Sleep\<close>.
\<close>

end
